(* ===== verification/Prelude.thy ===== *)
theory Prelude
  imports Main "HOL-Library.Word"
begin

text \<open>
  Shared vocabulary of the development: the machine integer types of the C++ sources and
  the generic lemmas on words and lists the component theories rely on.
\<close>

unbundle bit_operations_syntax

section \<open>Machine integers\<close>

type_synonym u8 = "8 word"
type_synonym u16 = "16 word"
type_synonym u32 = "32 word"
type_synonym u64 = "64 word"

named_theorems word_to_nat \<open>facts that move comparisons of words to the naturals\<close>

lemmas [word_to_nat] = word_le_nat_alt word_less_nat_alt

lemma unat_add_no_wrap:
  "unat (a :: u64) + unat b < 2 ^ 64 \<Longrightarrow> unat (a + b) = unat a + unat b"
  by (simp add: unat_word_ariths)

lemma unat_u64_bound: "unat (a :: u64) < 2 ^ 64"
  using unsigned_less [of a, where ?'a = nat] by simp

lemma unat_minus_1_u64: "unat (- 1 :: u64) = 2 ^ 64 - 1"
  by (simp add: unsigned_minus_1_eq_mask mask_eq_exp_minus_1)

section \<open>Powers of two and masks\<close>

text \<open>The sources test \<open>x AND (x - 1) = 0\<close>; on naturals and on words it means a power of two.\<close>

lemma nat_and_div_2: "((a::nat) AND b) div 2 = (a div 2) AND (b div 2)"
  by (rule bit_eqI) (simp add: bit_and_iff flip: bit_Suc)

lemma nat_and_pred_zero:
  "0 < (n::nat) \<Longrightarrow> n AND (n - 1) = 0 \<Longrightarrow> \<exists>k. n = 2 ^ k"
proof (induction n rule: less_induct)
  case (less n)
  show ?case
  proof (cases "even n")
    case True
    then obtain m where m: "n = 2 * m" by (rule evenE)
    with less.prems have mp: "0 < m" by simp
    have e: "(n - 1) div 2 = m - 1" using m mp by presburger
    have "(n AND (n - 1)) div 2 = m AND (m - 1)"
      using e m by (simp only: nat_and_div_2) simp
    with less.prems have "m AND (m - 1) = 0" by simp
    moreover have "m < n" using m mp by simp
    ultimately obtain k where "m = 2 ^ k" using less.IH mp by blast
    then have "n = 2 ^ Suc k" using m by simp
    then show ?thesis by blast
  next
    case False
    then obtain m where m: "n = 2 * m + 1" by (rule oddE)
    have "(n AND (n - 1)) div 2 = m AND m"
      using m by (simp only: nat_and_div_2) simp
    with less.prems have "m = 0" by simp
    with m have "n = 2 ^ 0" by simp
    then show ?thesis by blast
  qed
qed

lemma and_minus_one_zero_power:
  fixes x :: "'a::len word"
  assumes "x \<noteq> 0" and "x AND (x - 1) = 0"
  obtains k where "k < LENGTH('a)" and "x = 2 ^ k"
proof -
  have p: "0 < unat x" using assms(1) by (simp add: unat_gt_0)
  have "unat x AND (unat x - 1) = unat (x AND (x - 1))"
    using assms(1) by (simp add: unsigned_and_eq unat_minus_one)
  also have "\<dots> = 0" using assms(2) by simp
  finally obtain k where k: "unat x = 2 ^ k" using nat_and_pred_zero p by blast
  moreover have "k < LENGTH('a)"
    using k unsigned_less [of x, where ?'a = nat] by simp
  moreover have "x = 2 ^ k"
  proof -
    have "x = of_nat (unat x)" by simp
    also have "\<dots> = 2 ^ k" by (simp only: k of_nat_power of_nat_numeral)
    finally show ?thesis .
  qed
  ultimately show thesis using that by blast
qed

lemma unat_two_power: "k < LENGTH('a::len) \<Longrightarrow> unat (2 ^ k :: 'a word) = 2 ^ k"
  using unsigned_of_nat [of "2 ^ k", where 'b = 'a and ?'a = nat]
  by (simp add: take_bit_nat_eq_self)

lemma unat_and_not_mask:
  "unat ((x :: 'a::len word) AND NOT (mask k)) = unat x div 2 ^ k * 2 ^ k"
proof -
  have "x AND NOT (mask k) = push_bit k (drop_bit k x)"
    by (rule bit_eqI) (auto simp: bit_simps)
  moreover have "unat (push_bit k (drop_bit k x)) = unat x div 2 ^ k * 2 ^ k"
  proof -
    have "unat x div 2 ^ k * 2 ^ k < 2 ^ LENGTH('a)"
      using unsigned_less [of x, where ?'a = nat] by (metis div_times_less_eq_dividend le_less_trans)
    moreover have "unat (push_bit k (drop_bit k x))
        = take_bit LENGTH('a) (push_bit k (drop_bit k (unat x)))"
      by (simp only: unsigned_push_bit_eq unsigned_drop_bit_eq) (simp add: take_bit_nat_eq_self unsigned_less)
    ultimately show ?thesis
      by (simp only: push_bit_eq_mult drop_bit_eq_div take_bit_nat_eq_self)
  qed
  ultimately show ?thesis by simp
qed

section \<open>Results: an error or a value\<close>

definition bind_result :: "'e + 'a \<Rightarrow> ('a \<Rightarrow> 'e + 'b) \<Rightarrow> 'e + 'b" where
  "bind_result r f = (case r of Inl e \<Rightarrow> Inl e | Inr x \<Rightarrow> f x)"

lemma bind_result_simps [simp]:
  "bind_result (Inl e) f = Inl e"
  "bind_result (Inr x) f = f x"
  by (simp_all add: bind_result_def)

lemma bind_result_eq_Inr:
  "bind_result r f = Inr y \<longleftrightarrow> (\<exists>x. r = Inr x \<and> f x = Inr y)"
  by (cases r) simp_all

end
