(* ===== verification/Memory.thy ===== *)
theory Memory
  imports Prelude
begin

text \<open>
  \<open>include/quant/memory.h\<close>: the two bump allocators (\<open>MemoryPool\<close>, \<open>StackAllocator\<close>), the
  reference-counted \<open>Buffer\<close> and the per-thread pool registry. Sizes are \<open>size_t\<close>, hence
  64-bit words that wrap. A pointer into a pool is the base address of its block with a
  byte offset; \<open>None\<close> is \<open>nullptr\<close>.
\<close>

section \<open>Alignment\<close>

definition align_size :: "u64 \<Rightarrow> u64 \<Rightarrow> u64 option" where
  "align_size bytes alignment =
     (if alignment = 0 \<or> alignment AND (alignment - 1) \<noteq> 0 then None
      else if bytes > - 1 - (alignment - 1) then None
      else Some ((bytes + alignment - 1) AND NOT (alignment - 1)))"

lemma align_size_SomeD:
  assumes "align_size bytes alignment = Some out"
  shows "unat alignment dvd unat out \<and> unat bytes \<le> unat out \<and>
    unat out < unat bytes + unat alignment"
proof -
  from assms have a0: "alignment \<noteq> 0" and aa: "alignment AND (alignment - 1) = 0"
    and nb: "bytes \<le> - 1 - (alignment - 1)"
    and out: "out = (bytes + alignment - 1) AND NOT (alignment - 1)"
    by (auto simp: align_size_def split: if_splits)
  obtain k where k: "k < LENGTH(64)" and al: "alignment = 2 ^ k"
    using and_minus_one_zero_power [OF a0 aa] .
  have ual: "unat alignment = 2 ^ k" using k by (simp only: al unat_two_power)
  have m: "alignment - 1 = mask k" by (simp add: al mask_eq_exp_minus_1)
  have pred: "unat (alignment - 1) = 2 ^ k - 1" using a0 by (simp add: unat_minus_one ual)
  have "unat (- 1 - (alignment - 1)) = unat (- 1 :: u64) - (2 ^ k - 1)"
    by (subst unat_sub) (simp_all add: pred)
  moreover have "(2::nat) ^ k < 2 ^ 64" using ual unat_u64_bound [of alignment] by simp
  moreover have "0 < (2::nat) ^ k" by simp
  moreover have "unat bytes \<le> unat (- 1 - (alignment - 1))" using nb by (simp only: word_le_nat_alt)
  ultimately have le: "unat bytes + (2 ^ k - 1) < 2 ^ 64"
    unfolding unat_minus_1_u64 by linarith
  have "unat (bytes + (alignment - 1)) = unat bytes + (2 ^ k - 1)"
    using le by (simp add: unat_add_no_wrap pred)
  moreover have "bytes + alignment - 1 = bytes + (alignment - 1)" by simp
  ultimately have o: "unat out = (unat bytes + (2 ^ k - 1)) div 2 ^ k * 2 ^ k"
    by (simp only: out m unat_and_not_mask)
  define n where "n = unat bytes + (2 ^ k - 1)"
  have "n div 2 ^ k * 2 ^ k \<le> n" by simp
  moreover have "n < n div 2 ^ k * 2 ^ k + 2 ^ k"
  proof -
    have "n mod 2 ^ k < 2 ^ k" by simp
    with div_mult_mod_eq [of n "2 ^ k"] show ?thesis by linarith
  qed
  moreover have "unat bytes + 2 ^ k = n + 1" by (simp add: n_def)
  moreover have "2 ^ k dvd n div 2 ^ k * 2 ^ k" by simp
  ultimately show ?thesis unfolding o n_def [symmetric] ual by linarith
qed

lemma align_size_fits:
  assumes "align_size b a = Some out" and "unat b + unat a + c \<le> 2 ^ 64"
  shows "unat out + c < 2 ^ 64"
  using align_size_SomeD [OF assms(1)] assms(2) by linarith

section \<open>MemoryPool\<close>

record memory_pool =
  mp_data :: "nat option"
  mp_capacity :: u64
  mp_offset :: u64
  mp_peak :: u64

definition pool_new :: "nat \<Rightarrow> u64 \<Rightarrow> memory_pool" where
  "pool_new base total_size =
     \<lparr>mp_data = Some base, mp_capacity = total_size, mp_offset = 0, mp_peak = 0\<rparr>"

text \<open>
  One call of \<open>allocate\<close> that no other thread interleaves: the two compare-exchange loops
  succeed at their first attempt (a spurious failure of the weak exchange only repeats it).
\<close>

definition pool_allocate ::
    "memory_pool \<Rightarrow> u64 \<Rightarrow> u64 \<Rightarrow> (nat \<times> u64) option \<times> memory_pool" where
  "pool_allocate p bytes alignment =
     (case align_size bytes alignment of
        None \<Rightarrow> (None, p)
      | Some aligned \<Rightarrow>
          (let old_offset = mp_offset p in
           if old_offset + aligned > mp_capacity p then (None, p)
           else
             (let p' = p\<lparr>mp_offset := old_offset + aligned\<rparr>;
                  prev_peak = mp_peak p';
                  p'' = (if old_offset + aligned > prev_peak
                         then p'\<lparr>mp_peak := old_offset + aligned\<rparr> else p')
              in (map_option (\<lambda>base. (base, old_offset)) (mp_data p''), p''))))"

definition pool_deallocate :: "memory_pool \<Rightarrow> (nat \<times> u64) option \<Rightarrow> memory_pool" where
  "pool_deallocate p ptr = p"

definition pool_reset :: "memory_pool \<Rightarrow> memory_pool" where
  "pool_reset p = p\<lparr>mp_offset := 0, mp_peak := 0\<rparr>"

definition pool_bytes_wasted :: "memory_pool \<Rightarrow> u64" where
  "pool_bytes_wasted p = mp_capacity p - mp_offset p"

text \<open>The moved-from pool keeps no storage: \<open>MemoryPool(MemoryPool&&)\<close> returns both objects.\<close>

definition pool_moved_from :: memory_pool where
  "pool_moved_from = \<lparr>mp_data = None, mp_capacity = 0, mp_offset = 0, mp_peak = 0\<rparr>"

definition pool_move :: "memory_pool \<Rightarrow> memory_pool \<times> memory_pool" where
  "pool_move other = (other, pool_moved_from)"

text \<open>Move assignment of distinct objects: the target, the source, and the base it frees.\<close>

definition pool_move_assign ::
    "memory_pool \<Rightarrow> memory_pool \<Rightarrow> memory_pool \<times> memory_pool \<times> nat option" where
  "pool_move_assign this other = (other, pool_moved_from, mp_data this)"

section \<open>StackAllocator\<close>

record stack_allocator =
  sa_data :: "nat option"
  sa_capacity :: u64
  sa_offset :: u64
  sa_peak :: u64

definition stack_new :: "nat \<Rightarrow> u64 \<Rightarrow> stack_allocator" where
  "stack_new base total_size =
     \<lparr>sa_data = Some base, sa_capacity = total_size, sa_offset = 0, sa_peak = 0\<rparr>"

definition stack_mark :: "stack_allocator \<Rightarrow> u64" where
  "stack_mark p = sa_offset p"

definition stack_restore :: "stack_allocator \<Rightarrow> u64 \<Rightarrow> stack_allocator" where
  "stack_restore p m = p\<lparr>sa_offset := m\<rparr>"

definition stack_allocate ::
    "stack_allocator \<Rightarrow> u64 \<Rightarrow> u64 \<Rightarrow> (nat \<times> u64) option \<times> stack_allocator" where
  "stack_allocate p bytes alignment =
     (case align_size bytes alignment of
        None \<Rightarrow> (None, p)
      | Some aligned \<Rightarrow>
          (let old_offset = sa_offset p in
           if old_offset + aligned > sa_capacity p then (None, p)
           else
             (let p' = p\<lparr>sa_offset := old_offset + aligned\<rparr>;
                  prev_peak = sa_peak p';
                  p'' = (if old_offset + aligned > prev_peak
                         then p'\<lparr>sa_peak := old_offset + aligned\<rparr> else p')
              in (map_option (\<lambda>base. (base, old_offset)) (sa_data p''), p''))))"

definition stack_reset :: "stack_allocator \<Rightarrow> stack_allocator" where
  "stack_reset p = p\<lparr>sa_offset := 0, sa_peak := 0\<rparr>"

section \<open>The bump-allocator interface\<close>

text \<open>
  A client's sequence of requests \<open>(bytes, alignment)\<close> and the regions
  \<open>(offset, bytes)\<close> it was granted, in order.
\<close>

fun grant_all ::
    "('s \<Rightarrow> u64 \<Rightarrow> u64 \<Rightarrow> (nat \<times> u64) option \<times> 's) \<Rightarrow> 's \<Rightarrow> (u64 \<times> u64) list \<Rightarrow>
     (u64 \<times> u64) list \<times> 's" where
  "grant_all alloc s [] = ([], s)"
| "grant_all alloc s ((b, a) # rs) =
     (case alloc s b a of
        (None, s') \<Rightarrow> grant_all alloc s' rs
      | (Some (base, o1), s') \<Rightarrow>
          (case grant_all alloc s' rs of (gs, s'') \<Rightarrow> ((o1, b) # gs, s'')))"

definition regions_ordered :: "(u64 \<times> u64) list \<Rightarrow> bool" where
  "regions_ordered gs \<longleftrightarrow>
     sorted_wrt (\<lambda>(o1, b1) (o2, b2). unat o1 + unat b1 \<le> unat o2) gs"

definition requests_fit :: "nat \<Rightarrow> (u64 \<times> u64) list \<Rightarrow> bool" where
  "requests_fit cap rs \<longleftrightarrow> (\<forall>(b, a) \<in> set rs. unat b + unat a + cap \<le> 2 ^ 64)"

locale bump_allocator =
  fixes alloc :: "'s \<Rightarrow> u64 \<Rightarrow> u64 \<Rightarrow> (nat \<times> u64) option \<times> 's"
    and used :: "'s \<Rightarrow> nat" and capacity :: "'s \<Rightarrow> nat" and wf :: "'s \<Rightarrow> bool"
  assumes alloc_wf: "wf s \<Longrightarrow> unat b + unat a + capacity s \<le> 2 ^ 64 \<Longrightarrow> wf (snd (alloc s b a))"
    and alloc_capacity: "capacity (snd (alloc s b a)) = capacity s"
    and alloc_None: "wf s \<Longrightarrow> fst (alloc s b a) = None \<Longrightarrow> used (snd (alloc s b a)) = used s"
    and alloc_Some: "wf s \<Longrightarrow> unat b + unat a + capacity s \<le> 2 ^ 64 \<Longrightarrow>
      fst (alloc s b a) = Some (base, off) \<Longrightarrow>
      unat off = used s \<and> used s + unat b \<le> used (snd (alloc s b a))"
    and used_le: "wf s \<Longrightarrow> used s \<le> capacity s"
begin

lemma grant_all_wf:
  "wf s \<Longrightarrow> requests_fit (capacity s) rs \<Longrightarrow> grant_all alloc s rs = (gs, s') \<Longrightarrow>
   wf s' \<and> capacity s' = capacity s \<and> used s \<le> used s' \<and> regions_ordered gs \<and>
   (\<forall>(off, b) \<in> set gs. used s \<le> unat off \<and> unat off + unat b \<le> used s')"
proof (induction rs arbitrary: s gs)
  case Nil
  then show ?case by (simp add: regions_ordered_def)
next
  case (Cons ba rs)
  obtain b a where ba: "ba = (b, a)" by force
  obtain r t where rt: "alloc s b a = (r, t)" by force
  from Cons.prems(2) ba have fit: "unat b + unat a + capacity s \<le> 2 ^ 64"
    and fit': "requests_fit (capacity s) rs" by (auto simp: requests_fit_def)
  have t: "wf t" "capacity t = capacity s"
    using alloc_wf [OF Cons.prems(1) fit] alloc_capacity [of s b a] rt by auto
  show ?case
  proof (cases r)
    case None
    have "used t = used s" using alloc_None [OF Cons.prems(1), of b a] rt None by simp
    with Cons.IH [OF t(1), of gs] Cons.prems(3) t fit' rt None ba
    show ?thesis by simp
  next
    case (Some po)
    obtain base off where po: "po = (base, off)" by force
    obtain gs1 where g1: "grant_all alloc t rs = (gs1, s')" and gs: "gs = (off, b) # gs1"
      using Cons.prems(3) rt Some po ba by (auto split: prod.splits)
    have u: "unat off = used s" "used s + unat b \<le> used t"
      using alloc_Some [OF Cons.prems(1) fit] rt Some po by auto
    have ih: "wf s'" "capacity s' = capacity s" "used t \<le> used s'" "regions_ordered gs1"
      "\<And>o1 b1. (o1, b1) \<in> set gs1 \<Longrightarrow> used t \<le> unat o1 \<and> unat o1 + unat b1 \<le> used s'"
      using Cons.IH [OF t(1) _ g1] t(2) fit' by auto
    have "regions_ordered gs"
      using ih(4,5) u unfolding regions_ordered_def gs by fastforce
    with ih u show ?thesis unfolding gs by fastforce
  qed
qed

lemma grants_in_capacity:
  assumes "wf s" and "requests_fit (capacity s) rs" and "grant_all alloc s rs = (gs, s')"
  shows "regions_ordered gs \<and> (\<forall>(off, b) \<in> set gs. unat off + unat b \<le> capacity s)"
  using grant_all_wf [OF assms] used_le [of s'] by fastforce

end

definition pool_wf :: "memory_pool \<Rightarrow> bool" where
  "pool_wf p \<longleftrightarrow> mp_data p \<noteq> None \<and> mp_offset p \<le> mp_capacity p \<and> mp_peak p \<le> mp_capacity p"

definition stack_wf :: "stack_allocator \<Rightarrow> bool" where
  "stack_wf p \<longleftrightarrow> sa_data p \<noteq> None \<and> sa_offset p \<le> sa_capacity p \<and> sa_peak p \<le> sa_capacity p"

lemma bump_no_wrap:
  assumes "align_size b a = Some al" and "unat b + unat a + unat (cap :: u64) \<le> 2 ^ 64"
    and "off \<le> cap"
  shows "unat (off + al) = unat off + unat al"
  using align_size_fits [OF assms(1,2)] assms(3)
  by (intro unat_add_no_wrap) (simp add: word_to_nat)

interpretation pool: bump_allocator pool_allocate "\<lambda>p. unat (mp_offset p)"
    "\<lambda>p. unat (mp_capacity p)" pool_wf
  by unfold_locales
    (auto simp: pool_allocate_def pool_wf_def Let_def bump_no_wrap word_to_nat not_less
      split: option.splits if_splits dest: align_size_SomeD)

interpretation stack: bump_allocator stack_allocate "\<lambda>p. unat (sa_offset p)"
    "\<lambda>p. unat (sa_capacity p)" stack_wf
  by unfold_locales
    (auto simp: stack_allocate_def stack_wf_def Let_def bump_no_wrap word_to_nat not_less
      split: option.splits if_splits dest: align_size_SomeD)

section \<open>Sequential properties of the two allocators\<close>

text \<open>
  C35: every run of \<open>MemoryPool::allocate\<close> grants pairwise disjoint, increasing regions that
  all lie inside the pool, provided that for every request its bytes, its alignment and the
  size of the pool do not sum to more than 2^64 bytes (\<open>requests_fit\<close>). Beyond that the sum
  in \<open>allocate\<close> wraps, see \<open>pool_allocate_wraps\<close> below.
\<close>

theorem pool_regions_disjoint:
  assumes "requests_fit (unat total_size) rs"
    and "grant_all pool_allocate (pool_new base total_size) rs = (gs, p')"
  shows "regions_ordered gs \<and> (\<forall>(off, b) \<in> set gs. unat off + unat b \<le> unat total_size)"
  using pool.grants_in_capacity [of "pool_new base total_size" rs gs p'] assms
  by (simp add: pool_new_def pool_wf_def)

theorem pool_regions_disjoint_witness:
  "regions_ordered (fst (grant_all pool_allocate (pool_new 7 1024) [(100, 64), (8, 16)]))"
proof -
  have fit: "requests_fit (unat (1024 :: u64)) [(100, 64), (8, 16)]"
    by (simp add: requests_fit_def)
  obtain gs p' where run: "grant_all pool_allocate (pool_new 7 1024) [(100, 64), (8, 16)] = (gs, p')"
    by force
  from pool_regions_disjoint [OF fit run] run show ?thesis by simp
qed

text \<open>
  The overflow check of \<open>align_size\<close> does not protect \<open>allocate\<close>: the sum
  \<open>old_offset + aligned\<close> wraps. In a pool that has handed out 128 of its 1024 bytes, a
  request of \<open>2^64 - 64\<close> bytes succeeds and moves the offset back to 64, so that the next
  request is given bytes of the first region.
\<close>

theorem pool_allocate_wraps:
  "let p1 = snd (pool_allocate (pool_new base 1024) 128 64);
       (r2, p2) = pool_allocate p1 (- 64) 64;
       (r3, p3) = pool_allocate p2 64 64
   in r2 = Some (base, 128) \<and> mp_offset p2 = 64 \<and> r3 = Some (base, 64)"
  by (simp add: pool_new_def pool_allocate_def align_size_def Let_def)

text \<open>
  The alignment argument rounds the size of a region and not its start: after a 40-byte
  request with alignment 8, a request with alignment 64 is granted at offset 40, which is
  not a multiple of 64.
\<close>

theorem pool_allocate_misaligned:
  "let p1 = snd (pool_allocate (pool_new base 1024) 40 8)
   in fst (pool_allocate p1 1 64) = Some (base, 40) \<and> \<not> 64 dvd unat (40 :: u64)"
  by (simp add: pool_new_def pool_allocate_def align_size_def Let_def)

text \<open>
  Restoring a mark undoes all allocations made since: after \<open>mark\<close>, any run of
  allocations and \<open>restore\<close>, the allocator is the marked one up to its peak, and the next
  request is answered as it would have been at the mark.
\<close>

lemma stack_allocate_frame:
  "sa_data (snd (stack_allocate p b a)) = sa_data p \<and>
   sa_capacity (snd (stack_allocate p b a)) = sa_capacity p"
  by (auto simp: stack_allocate_def Let_def split: option.splits)

lemma stack_grant_all_frame:
  "grant_all stack_allocate p rs = (gs, p') \<Longrightarrow>
   sa_data p' = sa_data p \<and> sa_capacity p' = sa_capacity p"
proof (induction rs arbitrary: p gs)
  case (Cons ba rs)
  obtain b a where ba: "ba = (b, a)" by force
  obtain r t where rt: "stack_allocate p b a = (r, t)" by force
  have t: "sa_data t = sa_data p" "sa_capacity t = sa_capacity p"
    using stack_allocate_frame [of p b a] rt by auto
  obtain gs1 where "grant_all stack_allocate t rs = (gs1, p')"
    using Cons.prems rt ba by (auto split: option.splits prod.splits)
  with Cons.IH [of t gs1] t show ?case by simp
qed simp

theorem stack_mark_restore:
  assumes "grant_all stack_allocate p rs = (gs, p')"
  shows "stack_restore p' (stack_mark p) = p\<lparr>sa_peak := sa_peak p'\<rparr> \<and>
    fst (stack_allocate (stack_restore p' (stack_mark p)) b a) = fst (stack_allocate p b a)"
proof -
  have "stack_restore p' (stack_mark p) = p\<lparr>sa_peak := sa_peak p'\<rparr>"
    using stack_grant_all_frame [OF assms]
    by (simp add: stack_restore_def stack_mark_def)
  then show ?thesis by (auto simp: stack_allocate_def Let_def split: option.splits)
qed

theorem stack_mark_restore_witness:
  "stack_restore (snd (grant_all stack_allocate (stack_new 3 512) [(40, 8), (1, 64)]))
     (stack_mark (stack_new 3 512)) =
   (stack_new 3 512)\<lparr>sa_peak := 104\<rparr>"
proof -
  obtain gs p' where run: "grant_all stack_allocate (stack_new 3 512) [(40, 8), (1, 64)] = (gs, p')"
    by force
  have "sa_peak (snd (grant_all stack_allocate (stack_new 3 512) [(40, 8), (1, 64)])) = 104"
    by (simp add: stack_new_def stack_allocate_def align_size_def Let_def)
  with stack_mark_restore [OF run] run show ?thesis by simp
qed

end
