(* ===== verification/Pool_Concurrency.thy ===== *)
theory Pool_Concurrency
  imports Memory
begin

text \<open>
  \<open>MemoryPool::allocate\<close> of \<open>include/quant/memory.h\<close> run by any number of threads: each
  atomic load and each weak compare-exchange of its two loops is one step, and the threads
  interleave arbitrarily. A weak exchange may fail spuriously. The pool's \<open>granted\<close> list
  is a ghost that records each successful exchange of the offset.
\<close>

section \<open>The interleaved machine\<close>

datatype alloc_pc =
    Idle
  | Claiming u64 u64            \<comment> \<open>bytes and aligned computed, about to load the offset\<close>
  | Try_Offset u64 u64 u64      \<comment> \<open>bytes, aligned and the value of \<open>old_offset\<close>\<close>
  | Load_Peak u64 u64 u64       \<comment> \<open>the offset is claimed\<close>
  | Try_Peak u64 u64 u64 u64    \<comment> \<open>as before with the value of \<open>prev_peak\<close>\<close>
  | Returned "(nat \<times> u64) option"

record pool_sys =
  sys_pool :: memory_pool
  pcs :: "nat \<Rightarrow> alloc_pc"
  granted :: "(u64 \<times> u64) list"

text \<open>The requests \<open>(bytes, alignment)\<close> the threads may make are the set \<open>R\<close>.\<close>

inductive pool_step :: "(u64 \<times> u64) set \<Rightarrow> pool_sys \<Rightarrow> pool_sys \<Rightarrow> bool"
  for R :: "(u64 \<times> u64) set" where
  reject: "pcs s t = Idle \<Longrightarrow> (b, a) \<in> R \<Longrightarrow> align_size b a = None \<Longrightarrow>
    pool_step R s (s\<lparr>pcs := (pcs s)(t := Returned None)\<rparr>)"
| align: "pcs s t = Idle \<Longrightarrow> (b, a) \<in> R \<Longrightarrow> align_size b a = Some al \<Longrightarrow>
    pool_step R s (s\<lparr>pcs := (pcs s)(t := Claiming b al)\<rparr>)"
| load_offset: "pcs s t = Claiming b al \<Longrightarrow>
    pool_step R s (s\<lparr>pcs := (pcs s)(t := Try_Offset b al (mp_offset (sys_pool s)))\<rparr>)"
| full: "pcs s t = Try_Offset b al old \<Longrightarrow> old + al > mp_capacity (sys_pool s) \<Longrightarrow>
    pool_step R s (s\<lparr>pcs := (pcs s)(t := Returned None)\<rparr>)"
| cas_offset: "pcs s t = Try_Offset b al old \<Longrightarrow> \<not> old + al > mp_capacity (sys_pool s) \<Longrightarrow>
    mp_offset (sys_pool s) = old \<Longrightarrow>
    pool_step R s (s\<lparr>sys_pool := (sys_pool s)\<lparr>mp_offset := old + al\<rparr>,
      pcs := (pcs s)(t := Load_Peak b al old), granted := granted s @ [(old, b)]\<rparr>)"
| cas_offset_fail: "pcs s t = Try_Offset b al old \<Longrightarrow> \<not> old + al > mp_capacity (sys_pool s) \<Longrightarrow>
    pool_step R s (s\<lparr>pcs := (pcs s)(t := Try_Offset b al (mp_offset (sys_pool s)))\<rparr>)"
| load_peak: "pcs s t = Load_Peak b al old \<Longrightarrow>
    pool_step R s (s\<lparr>pcs := (pcs s)(t := Try_Peak b al old (mp_peak (sys_pool s)))\<rparr>)"
| peak_enough: "pcs s t = Try_Peak b al old prev \<Longrightarrow> \<not> old + al > prev \<Longrightarrow>
    pool_step R s (s\<lparr>pcs := (pcs s)(t :=
      Returned (map_option (\<lambda>base. (base, old)) (mp_data (sys_pool s))))\<rparr>)"
| cas_peak: "pcs s t = Try_Peak b al old prev \<Longrightarrow> old + al > prev \<Longrightarrow>
    mp_peak (sys_pool s) = prev \<Longrightarrow>
    pool_step R s (s\<lparr>sys_pool := (sys_pool s)\<lparr>mp_peak := old + al\<rparr>,
      pcs := (pcs s)(t := Returned (map_option (\<lambda>base. (base, old)) (mp_data (sys_pool s))))\<rparr>)"
| cas_peak_fail: "pcs s t = Try_Peak b al old prev \<Longrightarrow> old + al > prev \<Longrightarrow>
    pool_step R s (s\<lparr>pcs := (pcs s)(t := Try_Peak b al old (mp_peak (sys_pool s)))\<rparr>)"
| return: "pcs s t = Returned r \<Longrightarrow> pool_step R s (s\<lparr>pcs := (pcs s)(t := Idle)\<rparr>)"

definition pool_sys_init :: "nat \<Rightarrow> u64 \<Rightarrow> pool_sys" where
  "pool_sys_init base total_size =
     \<lparr>sys_pool = pool_new base total_size, pcs = (\<lambda>_. Idle), granted = []\<rparr>"

inductive pool_reachable :: "(u64 \<times> u64) set \<Rightarrow> nat \<Rightarrow> u64 \<Rightarrow> pool_sys \<Rightarrow> bool"
  for R :: "(u64 \<times> u64) set" and base :: nat and total_size :: u64 where
  init: "pool_reachable R base total_size (pool_sys_init base total_size)"
| step: "pool_reachable R base total_size s \<Longrightarrow> pool_step R s s' \<Longrightarrow>
    pool_reachable R base total_size s'"

section \<open>The invariant\<close>

text \<open>
  \<open>aligned_ok\<close> bounds what a thread holds in its local variables; the capacity never
  changes, the granted regions are ordered and end before the offset, and a claim in
  progress or a returned pointer names a granted region.
\<close>

definition aligned_ok :: "u64 \<Rightarrow> u64 \<Rightarrow> u64 \<Rightarrow> bool" where
  "aligned_ok cap b al \<longleftrightarrow> unat b \<le> unat al \<and> unat al + unat cap < 2 ^ 64"

fun pc_ok :: "nat \<Rightarrow> u64 \<Rightarrow> u64 \<Rightarrow> (u64 \<times> u64) list \<Rightarrow> alloc_pc \<Rightarrow> bool" where
  "pc_ok base cap off gs Idle = True"
| "pc_ok base cap off gs (Claiming b al) = aligned_ok cap b al"
| "pc_ok base cap off gs (Try_Offset b al old) = (aligned_ok cap b al \<and> old \<le> off)"
| "pc_ok base cap off gs (Load_Peak b al old) =
     (aligned_ok cap b al \<and> (old, b) \<in> set gs \<and> unat old + unat al \<le> unat off)"
| "pc_ok base cap off gs (Try_Peak b al old prev) =
     (aligned_ok cap b al \<and> (old, b) \<in> set gs \<and> unat old + unat al \<le> unat off)"
| "pc_ok base cap off gs (Returned None) = True"
| "pc_ok base cap off gs (Returned (Some (d, old))) = (d = base \<and> (\<exists>b. (old, b) \<in> set gs))"

definition pool_inv :: "nat \<Rightarrow> u64 \<Rightarrow> pool_sys \<Rightarrow> bool" where
  "pool_inv base cap s \<longleftrightarrow>
     mp_data (sys_pool s) = Some base \<and> mp_capacity (sys_pool s) = cap \<and>
     mp_offset (sys_pool s) \<le> cap \<and> regions_ordered (granted s) \<and>
     (\<forall>(o1, b) \<in> set (granted s). unat o1 + unat b \<le> unat (mp_offset (sys_pool s))) \<and>
     (\<forall>t. pc_ok base cap (mp_offset (sys_pool s)) (granted s) (pcs s t))"

lemma pc_ok_mono:
  "pc_ok base cap off gs pc \<Longrightarrow> off \<le> off' \<Longrightarrow> pc_ok base cap off' (gs @ xs) pc"
  by (cases "(base, cap, off, gs, pc)" rule: pc_ok.cases) (auto simp: word_to_nat)

lemma pool_inv_local:
  assumes "pool_inv base cap s" and "pc_ok base cap (mp_offset (sys_pool s)) (granted s) pc"
  shows "pool_inv base cap (s\<lparr>pcs := (pcs s)(t := pc)\<rparr>)"
  using assms by (simp add: pool_inv_def)

lemma pool_inv_pc: "pool_inv base cap s \<Longrightarrow> pcs s t = pc \<Longrightarrow>
    pc_ok base cap (mp_offset (sys_pool s)) (granted s) pc"
  by (auto simp: pool_inv_def)

lemma pool_inv_pcD: "pcs s t = pc \<Longrightarrow> pool_inv base cap s \<Longrightarrow>
    pc_ok base cap (mp_offset (sys_pool s)) (granted s) pc"
  by (rule pool_inv_pc)

lemma pool_inv_data: "pool_inv base cap s \<Longrightarrow> mp_data (sys_pool s) = Some base"
  by (simp add: pool_inv_def)

lemma regions_ordered_snoc:
  "regions_ordered gs \<Longrightarrow> \<forall>(o1, b1) \<in> set gs. unat o1 + unat b1 \<le> unat (off :: u64) \<Longrightarrow>
   regions_ordered (gs @ [(off, b)])"
  by (auto simp: regions_ordered_def sorted_wrt_append)

lemma pool_inv_claim:
  assumes inv: "pool_inv base cap s" and pc: "pcs s t = Try_Offset b al old"
    and room: "\<not> old + al > cap" and same: "mp_offset (sys_pool s) = old"
  shows "pool_inv base cap (s\<lparr>sys_pool := (sys_pool s)\<lparr>mp_offset := old + al\<rparr>,
      pcs := (pcs s)(t := Load_Peak b al old), granted := granted s @ [(old, b)]\<rparr>)"
proof -
  have al: "aligned_ok cap b al" using pool_inv_pc [OF inv pc] by simp
  have off: "old \<le> cap" using inv same by (simp add: pool_inv_def)
  have sum: "unat (old + al) = unat old + unat al"
    using al off by (intro unat_add_no_wrap) (simp add: aligned_ok_def word_to_nat)
  have le: "old \<le> old + al" using sum by (simp add: word_to_nat)
  have "pc_ok base cap (old + al) (granted s @ [(old, b)]) (pcs s u)" for u
    using pc_ok_mono [OF _ le] inv same by (auto simp: pool_inv_def)
  moreover have "regions_ordered (granted s @ [(old, b)])"
    using inv same by (intro regions_ordered_snoc) (auto simp: pool_inv_def)
  ultimately show ?thesis
    using inv same al room sum by (fastforce simp: pool_inv_def aligned_ok_def not_less)
qed

lemma pool_step_inv:
  assumes "pool_step R s s'" and "pool_inv base cap s"
    and fit: "\<forall>(b, a) \<in> R. unat b + unat a + unat cap \<le> 2 ^ 64"
  shows "pool_inv base cap s'"
  using assms(1,2)
proof cases
  case (align t b a al)
  have "unat b \<le> unat al" using align_size_SomeD [OF align(4)] by simp
  moreover have "unat al + unat cap < 2 ^ 64" using align_size_fits [OF align(4)] fit align(3) by auto
  ultimately show ?thesis using assms(2) align by (auto intro!: pool_inv_local simp: aligned_ok_def)
next
  case (cas_offset t b al old)
  moreover have "mp_capacity (sys_pool s) = cap" using assms(2) by (simp add: pool_inv_def)
  ultimately show ?thesis using pool_inv_claim [OF assms(2) cas_offset(2)] by simp
next
  case (cas_peak t b al old prev)
  with assms(2) pool_inv_pc [OF assms(2) cas_peak(2)] show ?thesis
    by (auto simp: pool_inv_def)
qed (use assms(2) in \<open>auto intro!: pool_inv_local simp: pool_inv_data dest!: pool_inv_pcD\<close>)

lemma pool_reachable_inv:
  assumes "pool_reachable R base total_size s"
    and "\<forall>(b, a) \<in> R. unat b + unat a + unat total_size \<le> 2 ^ 64"
  shows "pool_inv base total_size s"
  using assms(1)
proof induction
  case init
  show ?case by (simp add: pool_inv_def pool_sys_init_def pool_new_def regions_ordered_def)
next
  case (step s s')
  then show ?case using pool_step_inv assms(2) by blast
qed

text \<open>
  C27: in every reachable state of any number of threads allocating concurrently from one
  pool, the regions claimed so far are pairwise disjoint, lie inside the pool, and every
  pointer a thread holds as its result names one of them, provided that for every request its
  bytes, its alignment and the size of the pool do not sum to more than 2^64 bytes. (Beyond
  that the sum in \<open>allocate\<close> wraps and live regions are handed out again:
  \<open>pool_allocate_wraps\<close>.)
\<close>

theorem pool_concurrent_disjoint:
  assumes "pool_reachable R base total_size s"
    and "\<forall>(b, a) \<in> R. unat b + unat a + unat total_size \<le> 2 ^ 64"
  shows "regions_ordered (granted s) \<and>
    (\<forall>(off, b) \<in> set (granted s). unat off + unat b \<le> unat total_size) \<and>
    (\<forall>t d off. pcs s t = Returned (Some (d, off)) \<longrightarrow>
       d = base \<and> (\<exists>b. (off, b) \<in> set (granted s)))"
proof -
  have inv: "pool_inv base total_size s" by (rule pool_reachable_inv [OF assms])
  have "unat off + unat b \<le> unat total_size" if "(off, b) \<in> set (granted s)" for off b
    using inv that by (fastforce simp: pool_inv_def word_to_nat)
  moreover have "d = base \<and> (\<exists>b. (off, b) \<in> set (granted s))"
    if "pcs s t = Returned (Some (d, off))" for t d off
    using pool_inv_pc [OF inv that] by simp
  ultimately show ?thesis using inv by (auto simp: pool_inv_def)
qed

theorem pool_concurrent_disjoint_witness:
  "\<exists>s. pool_reachable {(100, 64)} 7 1024 s \<and> granted s = [(0, 100)] \<and> regions_ordered (granted s)"
proof -
  let ?s0 = "pool_sys_init 7 1024"
  let ?s1 = "?s0\<lparr>pcs := (pcs ?s0)(0 := Claiming 100 128)\<rparr>"
  let ?s2 = "?s1\<lparr>pcs := (pcs ?s1)(0 := Try_Offset 100 128 (mp_offset (sys_pool ?s1)))\<rparr>"
  let ?s3 = "?s2\<lparr>sys_pool := (sys_pool ?s2)\<lparr>mp_offset := 0 + 128\<rparr>,
      pcs := (pcs ?s2)(0 := Load_Peak 100 128 0), granted := granted ?s2 @ [(0, 100)]\<rparr>"
  have al: "align_size 100 64 = Some 128" by (simp add: align_size_def)
  have "pool_step {(100, 64)} ?s0 ?s1"
    by (rule pool_step.align [OF _ _ al]) (simp_all add: pool_sys_init_def)
  then have "pool_reachable {(100, 64)} 7 1024 ?s1" by (rule pool_reachable.step [OF pool_reachable.init])
  moreover have "pool_step {(100, 64)} ?s1 ?s2" by (rule pool_step.load_offset) simp
  ultimately have "pool_reachable {(100, 64)} 7 1024 ?s2" by (rule pool_reachable.step)
  moreover have "pool_step {(100, 64)} ?s2 ?s3"
    by (rule pool_step.cas_offset) (simp_all add: pool_sys_init_def pool_new_def)
  ultimately have r: "pool_reachable {(100, 64)} 7 1024 ?s3" by (rule pool_reachable.step)
  have "regions_ordered (granted ?s3)" using pool_concurrent_disjoint [OF r] by simp
  moreover have "granted ?s3 = [(0, 100)]" by (simp add: pool_sys_init_def)
  ultimately show ?thesis using r by blast
qed

end
