(* ===== verification/Buffer.thy ===== *)
theory Buffer
  imports Prelude
begin

text \<open>
  The reference-counted \<open>Buffer\<close> of \<open>include/quant/memory.h\<close>. A heap holds the live memory
  blocks and the live reference counters; \<open>Buffer\<close> objects are named by numbers. Every
  access to a deleted counter, and every \<open>free\<close> of something that is not the start of a
  live block, is a fault value. \<open>std::bad_alloc\<close> is not modelled: an allocation succeeds.
  The counter is a \<open>std::atomic<int>\<close>, whose \<open>fetch_add\<close> and \<open>fetch_sub\<close> wrap: it is
  kept here as its 32 bits.
\<close>

section \<open>Blocks, counters and objects\<close>

record block =
  b_ptr :: "(nat \<times> u64) option"
  b_base :: "(nat \<times> u64) option"
  b_rc :: "nat option"
  b_size :: u64

definition null_block :: block where
  "null_block = \<lparr>b_ptr = None, b_base = None, b_rc = None, b_size = 0\<rparr>"

record buffer_heap =
  objs :: "nat \<rightharpoonup> block"
  counters :: "nat \<rightharpoonup> u32"
  blocks :: "nat \<rightharpoonup> u64"
  fresh :: nat

definition empty_heap :: buffer_heap where
  "empty_heap = \<lparr>objs = Map.empty, counters = Map.empty, blocks = Map.empty, fresh = 0\<rparr>"

datatype fault = Dangling_Counter | Bad_Free | Not_An_Object

definition set_obj :: "nat \<Rightarrow> block \<Rightarrow> buffer_heap \<Rightarrow> buffer_heap" where
  "set_obj x b h = h\<lparr>objs := (objs h)(x \<mapsto> b)\<rparr>"

definition get_obj :: "nat \<Rightarrow> buffer_heap \<Rightarrow> fault + block" where
  "get_obj x h = (case objs h x of None \<Rightarrow> Inl Not_An_Object | Some b \<Rightarrow> Inr b)"

definition allocate_block :: "u64 \<Rightarrow> buffer_heap \<Rightarrow> block \<times> buffer_heap" where
  "allocate_block bytes h =
     (if bytes = 0 then (null_block, h)
      else (let n = fresh h in
        (\<lparr>b_ptr = Some (n, 0), b_base = Some (n, 0), b_rc = Some n, b_size = bytes\<rparr>,
         h\<lparr>counters := (counters h)(n \<mapsto> 1), blocks := (blocks h)(n \<mapsto> bytes),
           fresh := Suc n\<rparr>)))"

text \<open>\<open>if (block_.refcount) block_.refcount->fetch_add(1)\<close>\<close>

definition retain :: "block \<Rightarrow> buffer_heap \<Rightarrow> fault + buffer_heap" where
  "retain b h =
     (case b_rc b of None \<Rightarrow> Inr h
      | Some c \<Rightarrow> (case counters h c of
          None \<Rightarrow> Inl Dangling_Counter
        | Some v \<Rightarrow> Inr (h\<lparr>counters := (counters h)(c \<mapsto> v + 1)\<rparr>)))"

definition free_memory :: "(nat \<times> u64) option \<Rightarrow> buffer_heap \<Rightarrow> fault + buffer_heap" where
  "free_memory p h =
     (case p of None \<Rightarrow> Inr h
      | Some (d, off) \<Rightarrow>
          if off = 0 \<and> blocks h d \<noteq> None then Inr (h\<lparr>blocks := (blocks h)(d := None)\<rparr>)
          else Inl Bad_Free)"

definition release :: "nat \<Rightarrow> buffer_heap \<Rightarrow> fault + buffer_heap" where
  "release x h =
     bind_result (get_obj x h) (\<lambda>b.
       (case b_rc b of
          None \<Rightarrow> Inr (set_obj x null_block h)
        | Some c \<Rightarrow>
            (case counters h c of
               None \<Rightarrow> Inl Dangling_Counter
             | Some v \<Rightarrow>
                 (let h1 = h\<lparr>counters := (counters h)(c \<mapsto> v - 1)\<rparr> in
                  if v = 1 then
                    bind_result (free_memory (if b_base b \<noteq> None then b_base b else b_ptr b) h1)
                      (\<lambda>h2. Inr (set_obj x null_block (h2\<lparr>counters := (counters h2)(c := None)\<rparr>)))
                  else Inr (set_obj x null_block h1)))))"

section \<open>The operations\<close>

definition buf_default :: "nat \<Rightarrow> buffer_heap \<Rightarrow> fault + buffer_heap" where
  "buf_default x h = Inr (set_obj x null_block h)"

definition buf_new :: "nat \<Rightarrow> u64 \<Rightarrow> buffer_heap \<Rightarrow> fault + buffer_heap" where
  "buf_new x bytes h = (case allocate_block bytes h of (b, h') \<Rightarrow> Inr (set_obj x b h'))"

definition buf_copy :: "nat \<Rightarrow> nat \<Rightarrow> buffer_heap \<Rightarrow> fault + buffer_heap" where
  "buf_copy x y h =
     bind_result (get_obj y h) (\<lambda>b.
       bind_result (retain b (set_obj x b h)) Inr)"

definition buf_assign :: "nat \<Rightarrow> nat \<Rightarrow> buffer_heap \<Rightarrow> fault + buffer_heap" where
  "buf_assign x y h =
     (if x = y then Inr h
      else bind_result (release x h) (\<lambda>h1.
        bind_result (get_obj y h1) (\<lambda>b. retain b (set_obj x b h1))))"

definition buf_move :: "nat \<Rightarrow> nat \<Rightarrow> buffer_heap \<Rightarrow> fault + buffer_heap" where
  "buf_move x y h =
     bind_result (get_obj y h) (\<lambda>b. Inr (set_obj y null_block (set_obj x b h)))"

definition buf_move_assign :: "nat \<Rightarrow> nat \<Rightarrow> buffer_heap \<Rightarrow> fault + buffer_heap" where
  "buf_move_assign x y h =
     (if x = y then Inr h
      else bind_result (release x h) (\<lambda>h1.
        bind_result (get_obj y h1) (\<lambda>b. Inr (set_obj y null_block (set_obj x b h1)))))"

definition slice_block :: "block \<Rightarrow> u64 \<Rightarrow> u64 \<Rightarrow> block" where
  "slice_block b offset count =
     \<lparr>b_ptr = map_option (\<lambda>(d, o1). (d, o1 + offset)) (b_ptr b),
      b_base = (if b_base b \<noteq> None then b_base b else b_ptr b),
      b_rc = b_rc b, b_size = count\<rparr>"

definition buf_slice :: "nat \<Rightarrow> nat \<Rightarrow> u64 \<Rightarrow> u64 \<Rightarrow> buffer_heap \<Rightarrow> fault + buffer_heap" where
  "buf_slice x y offset count h =
     bind_result (get_obj y h) (\<lambda>b.
       if offset + count > b_size b then Inr (set_obj x null_block h)
       else (let sub = slice_block b offset count in retain sub (set_obj x sub h)))"

text \<open>
  \<open>resize\<close> allocates a temporary, copies, move-assigns it and destroys it: the object
  releases its block and takes the new one. The copied bytes are not part of the heap.
\<close>

definition buf_resize :: "nat \<Rightarrow> u64 \<Rightarrow> buffer_heap \<Rightarrow> fault + buffer_heap" where
  "buf_resize x new_size h =
     bind_result (get_obj x h) (\<lambda>b.
       if new_size = b_size b then Inr h
       else (case allocate_block new_size h of (nb, h1) \<Rightarrow>
         bind_result (release x h1) (\<lambda>h2. Inr (set_obj x nb h2))))"

definition buf_destroy :: "nat \<Rightarrow> buffer_heap \<Rightarrow> fault + buffer_heap" where
  "buf_destroy x h =
     bind_result (release x h) (\<lambda>h1. Inr (h1\<lparr>objs := (objs h1)(x := None)\<rparr>))"

datatype buffer_op =
    Default nat | New nat u64 | Copy nat nat | Assign nat nat | Move nat nat
  | Move_Assign nat nat | Slice nat nat u64 u64 | Resize nat u64 | Destroy nat

fun buffer_step :: "buffer_op \<Rightarrow> buffer_heap \<Rightarrow> fault + buffer_heap" where
  "buffer_step (Default x) h = buf_default x h"
| "buffer_step (New x n) h = buf_new x n h"
| "buffer_step (Copy x y) h = buf_copy x y h"
| "buffer_step (Assign x y) h = buf_assign x y h"
| "buffer_step (Move x y) h = buf_move x y h"
| "buffer_step (Move_Assign x y) h = buf_move_assign x y h"
| "buffer_step (Slice x y off n) h = buf_slice x y off n h"
| "buffer_step (Resize x n) h = buf_resize x n h"
| "buffer_step (Destroy x) h = buf_destroy x h"

text \<open>A C++ program constructs an object once and uses only constructed objects.\<close>

fun op_valid :: "buffer_op \<Rightarrow> buffer_heap \<Rightarrow> bool" where
  "op_valid (Default x) h = (objs h x = None)"
| "op_valid (New x n) h = (objs h x = None)"
| "op_valid (Copy x y) h = (objs h x = None \<and> objs h y \<noteq> None)"
| "op_valid (Assign x y) h = (objs h x \<noteq> None \<and> objs h y \<noteq> None)"
| "op_valid (Move x y) h = (objs h x = None \<and> objs h y \<noteq> None)"
| "op_valid (Move_Assign x y) h = (objs h x \<noteq> None \<and> objs h y \<noteq> None)"
| "op_valid (Slice x y off n) h = (objs h x = None \<and> objs h y \<noteq> None)"
| "op_valid (Resize x n) h = (objs h x \<noteq> None)"
| "op_valid (Destroy x) h = (objs h x \<noteq> None)"

section \<open>The ownership invariant\<close>

definition refs :: "buffer_heap \<Rightarrow> nat \<Rightarrow> nat set" where
  "refs h c = {x. \<exists>b. objs h x = Some b \<and> b_rc b = Some c}"

definition block_ok :: "nat \<Rightarrow> block \<Rightarrow> bool" where
  "block_ok n b \<longleftrightarrow>
     (case b_rc b of None \<Rightarrow> b_ptr b = None \<and> b_base b = None
      | Some c \<Rightarrow> c < n \<and> b_base b = Some (c, 0) \<and> (\<exists>off. b_ptr b = Some (c, off)))"

definition heap_inv :: "buffer_heap \<Rightarrow> bool" where
  "heap_inv h \<longleftrightarrow>
     finite (dom (objs h)) \<and>
     (\<forall>x b. objs h x = Some b \<longrightarrow> block_ok (fresh h) b) \<and>
     (\<forall>c. counters h c = (if refs h c = {} then None else Some (of_nat (card (refs h c))))) \<and>
     (\<forall>c. (blocks h c \<noteq> None) = (refs h c \<noteq> {}))"

text \<open>A counter of 32 bits counts the objects exactly while fewer than \<open>2 ^ 32\<close> are alive.\<close>

definition countable_objs :: "buffer_heap \<Rightarrow> bool" where
  "countable_objs h \<longleftrightarrow> card (dom (objs h)) < 2 ^ 32"

lemma of_nat_u32_eq_1: "n < 2 ^ 32 \<Longrightarrow> (of_nat n :: u32) = 1 \<longleftrightarrow> n = 1"
  using of_nat_inverse [of n "1 :: u32"] by auto

lemma refs_set_obj:
  "refs (set_obj x b h) c = refs h c - {x} \<union> (if b_rc b = Some c then {x} else {})"
  by (auto simp: refs_def set_obj_def split: if_splits)

lemma refs_finite: "heap_inv h \<Longrightarrow> finite (refs h c)"
  by (rule finite_subset [of _ "dom (objs h)"]) (auto simp: heap_inv_def refs_def)

lemma refs_countable:
  assumes "heap_inv h" and "countable_objs h"
  shows "card (refs h c) < 2 ^ 32"
proof -
  have "card (refs h c) \<le> card (dom (objs h))"
    using assms(1) by (intro card_mono) (auto simp: heap_inv_def refs_def)
  then show ?thesis using assms(2) by (simp add: countable_objs_def)
qed

lemma null_block_ok [simp]: "block_ok n null_block" "b_rc null_block = None"
  by (simp_all add: block_ok_def null_block_def)

lemma refs_only_objs [simp]:
  "refs (h\<lparr>counters := cs\<rparr>) c = refs h c" "refs (h\<lparr>blocks := bs\<rparr>) c = refs h c"
  "refs (h\<lparr>fresh := n\<rparr>) c = refs h c"
  by (simp_all add: refs_def)

lemma set_obj_sel [simp]:
  "objs (set_obj x b h) = (objs h)(x \<mapsto> b)" "counters (set_obj x b h) = counters h"
  "blocks (set_obj x b h) = blocks h" "fresh (set_obj x b h) = fresh h"
  by (simp_all add: set_obj_def)

lemma heap_inv_obj: "heap_inv h \<Longrightarrow> objs h x = Some b \<Longrightarrow> block_ok (fresh h) b"
  by (simp add: heap_inv_def)

lemma heap_inv_counter: "heap_inv h \<Longrightarrow> objs h x = Some b \<Longrightarrow> b_rc b = Some c \<Longrightarrow>
    x \<in> refs h c \<and> counters h c = Some (of_nat (card (refs h c))) \<and> blocks h c \<noteq> None \<and>
    0 < card (refs h c)"
  using refs_finite [of h c] by (auto simp: heap_inv_def refs_def card_gt_0_iff)

lemma heap_inv_unused: "heap_inv h \<Longrightarrow> fresh h \<le> c \<Longrightarrow> refs h c = {}"
  by (fastforce simp: heap_inv_def refs_def block_ok_def)

text \<open>The frame rule of the proofs: an operation touches one counter.\<close>

lemma heap_inv_frame:
  assumes "heap_inv h"
    and "dom (objs h') \<subseteq> insert x (insert y (dom (objs h)))"
    and "\<And>z b. objs h' z = Some b \<Longrightarrow> block_ok (fresh h') b"
    and other: "\<And>d. d \<noteq> c \<Longrightarrow> refs h' d = refs h d \<and> counters h' d = counters h d \<and> blocks h' d = blocks h d"
    and here: "counters h' c = (if refs h' c = {} then None else Some (of_nat (card (refs h' c))))"
      "(blocks h' c \<noteq> None) = (refs h' c \<noteq> {})"
  shows "heap_inv h'"
proof -
  have fin: "finite (dom (objs h'))"
    using assms(1,2) by (metis finite_insert finite_subset heap_inv_def)
  have "counters h' d = (if refs h' d = {} then None else Some (of_nat (card (refs h' d))))" for d
    using other [of d] here(1) assms(1) unfolding heap_inv_def by (cases "d = c") presburger+
  moreover have "(blocks h' d \<noteq> None) = (refs h' d \<noteq> {})" for d
    using other [of d] here(2) assms(1) unfolding heap_inv_def by (cases "d = c") presburger+
  ultimately show ?thesis using fin assms(3) unfolding heap_inv_def by blast
qed

lemma release_ok:
  assumes inv: "heap_inv h" and few: "countable_objs h" and x: "objs h x = Some b"
  shows "\<exists>h'. release x h = Inr h' \<and> heap_inv h' \<and>
    objs h' = (objs h)(x \<mapsto> null_block) \<and> fresh h' = fresh h \<and>
    (\<forall>d. refs h' d \<noteq> {} \<longrightarrow> blocks h' d = blocks h d)"
proof (cases "b_rc b")
  case None
  have "refs (set_obj x null_block h) c = refs h c" for c
    using x None by (auto simp: refs_set_obj) (simp add: refs_def)
  then have "heap_inv (set_obj x null_block h)" using inv by (simp add: heap_inv_def)
  then show ?thesis using x None by (simp add: release_def get_obj_def)
next
  case (Some c)
  note cnt = heap_inv_counter [OF inv x Some]
  note one = of_nat_u32_eq_1 [OF refs_countable [OF inv few, of c]]
  have base: "b_base b = Some (c, 0)" using heap_inv_obj [OF inv x] Some by (simp add: block_ok_def)
  have other: "refs (set_obj x null_block h) d = (if d = c then refs h c - {x} else refs h d)" for d
    using x Some by (auto simp: refs_set_obj refs_def)
  show ?thesis
  proof (cases "card (refs h c) = 1")
    case True
    then have only: "refs h c = {x}" using cnt by (auto simp: card_1_singleton_iff)
    let ?h = "set_obj x null_block (h\<lparr>counters := (counters h)(c := None), blocks := (blocks h)(c := None)\<rparr>)"
    have r: "refs ?h d = (if d = c then {} else refs h d)" for d
      using other [of d] only by (simp add: refs_def)
    have "release x h = Inr ?h"
      using x Some cnt base True
      by (auto simp: release_def get_obj_def free_memory_def Let_def set_obj_def)
    moreover have "heap_inv ?h"
      by (rule heap_inv_frame [OF inv, where x = x and y = x and c = c])
        (auto simp: r heap_inv_obj [OF inv] split: if_splits)
    ultimately show ?thesis by (simp add: r)
  next
    case False
    let ?h = "set_obj x null_block (h\<lparr>counters := (counters h)(c \<mapsto> of_nat (card (refs h c)) - 1)\<rparr>)"
    have r: "refs ?h d = (if d = c then refs h c - {x} else refs h d)" for d
      using other [of d] by (simp add: refs_def)
    have "refs h c \<noteq> {x}" using False by auto
    then have card1: "card (refs h c - {x}) = card (refs h c) - 1" "refs h c - {x} \<noteq> {}"
      using cnt by auto
    have "release x h = Inr ?h"
      using x Some cnt False one by (auto simp: release_def get_obj_def Let_def)
    moreover have "heap_inv ?h"
      by (rule heap_inv_frame [OF inv, where x = x and y = x and c = c])
        (use card1 cnt in \<open>auto simp: r of_nat_diff heap_inv_obj [OF inv] split: if_splits\<close>)
    ultimately show ?thesis by simp
  qed
qed

lemma retain_ok:
  assumes inv: "heap_inv h" and x: "\<And>b0. objs h x = Some b0 \<Longrightarrow> b_rc b0 = None"
    and ok: "block_ok (fresh h) b" and used: "\<And>c. b_rc b = Some c \<Longrightarrow> refs h c \<noteq> {}"
  shows "\<exists>h'. retain b (set_obj x b h) = Inr h' \<and> heap_inv h' \<and>
    objs h' = (objs h)(x \<mapsto> b) \<and> fresh h' = fresh h \<and> blocks h' = blocks h"
proof (cases "b_rc b")
  case None
  have "refs (set_obj x b h) c = refs h c" for c
    using x None by (auto simp: refs_set_obj) (auto simp: refs_def)
  then have "heap_inv (set_obj x b h)" using inv ok by (auto simp: heap_inv_def)
  then show ?thesis using None by (simp add: retain_def)
next
  case (Some c)
  have nx: "x \<notin> refs h d" for d using x by (auto simp: refs_def)
  have cnt: "counters h c = Some (of_nat (card (refs h c)))" "blocks h c \<noteq> None" "refs h c \<noteq> {}"
    using inv used [OF Some] by (auto simp: heap_inv_def)
  let ?h = "(set_obj x b h)\<lparr>counters := (counters h)(c \<mapsto> of_nat (card (refs h c)) + 1)\<rparr>"
  have r: "refs (set_obj x b h) d = (if d = c then insert x (refs h c) else refs h d)" for d
    using nx [of d] Some by (auto simp: refs_set_obj)
  have "retain b (set_obj x b h) = Inr ?h" using Some cnt by (simp add: retain_def)
  moreover have "heap_inv ?h"
    by (rule heap_inv_frame [OF inv, where x = x and y = x and c = c])
      (use ok cnt nx [of c] refs_finite [OF inv, of c] in
        \<open>auto simp: r heap_inv_obj [OF inv] split: if_splits\<close>)
  ultimately show ?thesis by simp
qed

lemma move_ok:
  assumes inv: "heap_inv h" and x: "\<And>b0. objs h x = Some b0 \<Longrightarrow> b_rc b0 = None"
    and y: "objs h y = Some b" and "x \<noteq> y"
  shows "heap_inv (set_obj y null_block (set_obj x b h))"
proof -
  let ?h = "set_obj y null_block (set_obj x b h)"
  have r: "refs ?h c = (if b_rc b = Some c then insert x (refs h c - {y}) else refs h c)" for c
    using x y assms(4) by (auto simp: refs_set_obj) (auto simp: refs_def)
  have c: "card (insert x (refs h c - {y})) = card (refs h c)" if "b_rc b = Some c" for c
  proof -
    have "x \<notin> refs h c" using x by (auto simp: refs_def)
    moreover have "y \<in> refs h c" using y that by (auto simp: refs_def)
    ultimately show ?thesis using refs_finite [OF inv, of c]
      by (metis Diff_iff card_insert_disjoint card_Suc_Diff1 finite_Diff)
  qed
  have "refs h c \<noteq> {}" if "b_rc b = Some c" for c
    using y that by (auto simp: refs_def)
  then show ?thesis using inv heap_inv_obj [OF inv y] c by (auto simp: heap_inv_def r)
qed

text \<open>A fresh allocation does not disturb the rest of the heap.\<close>

definition add_alloc :: "u64 \<Rightarrow> buffer_heap \<Rightarrow> buffer_heap" where
  "add_alloc bytes h = h\<lparr>counters := (counters h)(fresh h \<mapsto> 1),
     blocks := (blocks h)(fresh h \<mapsto> bytes), fresh := Suc (fresh h)\<rparr>"

lemma allocate_block_cases:
  obtains "bytes = 0" and "allocate_block bytes h = (null_block, h)"
  | b where "bytes \<noteq> 0" and "allocate_block bytes h = (b, add_alloc bytes h)"
      and "b_rc b = Some (fresh h)" and "b_base b = Some (fresh h, 0)"
      and "b_ptr b = Some (fresh h, 0)" and "b_size b = bytes"
proof (cases "bytes = 0")
  case False
  then show thesis
    using that(2) [of "\<lparr>b_ptr = Some (fresh h, 0), b_base = Some (fresh h, 0),
      b_rc = Some (fresh h), b_size = bytes\<rparr>"]
    by (simp add: allocate_block_def add_alloc_def Let_def)
qed (use that(1) in \<open>simp add: allocate_block_def\<close>)

lemma new_obj_ok:
  assumes inv: "heap_inv h" and x: "\<And>b0. objs h x = Some b0 \<Longrightarrow> b_rc b0 = None"
    and al: "allocate_block bytes h = (b, h1)"
  shows "heap_inv (set_obj x b h1)"
proof (cases rule: allocate_block_cases [of bytes h])
  case 1
  then show ?thesis using retain_ok [OF inv, of x null_block] x al by (auto simp: retain_def)
next
  case (2 b')
  have nx: "x \<notin> refs h d" for d using x by (auto simp: refs_def)
  have b: "b = b'" "h1 = add_alloc bytes h" using al 2 by auto
  have r: "refs (set_obj x b h1) d = (if d = fresh h then {x} else refs h d)" for d
    using nx [of d] 2 heap_inv_unused [OF inv, of d]
    by (auto simp: refs_set_obj b add_alloc_def)
  have mono: "block_ok (Suc (fresh h)) b0" if "block_ok (fresh h) b0" for b0
    using that by (auto simp: block_ok_def split: option.splits)
  have new: "block_ok (Suc (fresh h)) b" using 2 by (simp add: block_ok_def b)
  show ?thesis
  proof (rule heap_inv_frame [OF inv, where x = x and y = x and c = "fresh h"])
    show "dom (objs (set_obj x b h1)) \<subseteq> insert x (insert x (dom (objs h)))"
      by (auto simp: b add_alloc_def)
    show "block_ok (fresh (set_obj x b h1)) b0" if "objs (set_obj x b h1) z = Some b0" for z b0
      using that mono new heap_inv_obj [OF inv] by (auto simp: b add_alloc_def split: if_splits)
  qed (auto simp: r, auto simp: b add_alloc_def)
qed

lemma release_add_alloc:
  assumes inv: "heap_inv h" and x: "objs h x = Some b" and r: "release x h = Inr h'"
  shows "release x (add_alloc bytes h) = Inr (add_alloc bytes h')"
proof (cases "b_rc b")
  case None
  then show ?thesis using r x
    by (auto simp: release_def get_obj_def add_alloc_def set_obj_def)
next
  case (Some c)
  have c: "c \<noteq> fresh h" "b_base b = Some (c, 0)"
    using heap_inv_obj [OF inv x] Some by (auto simp: block_ok_def)
  then show ?thesis using r x Some
    by (auto simp: release_def get_obj_def add_alloc_def set_obj_def Let_def free_memory_def
        fun_upd_twist split: option.splits if_splits)
qed

lemma buffer_step_ok:
  assumes inv: "heap_inv h" and few: "countable_objs h" and v: "op_valid op h"
  shows "\<exists>h'. buffer_step op h = Inr h' \<and> heap_inv h'"
proof (cases op)
  case (Default x)
  then show ?thesis using retain_ok [OF inv, of x null_block] v
    by (simp add: buf_default_def retain_def)
next
  case (New x n)
  obtain b h1 where al: "allocate_block n h = (b, h1)" by force
  show ?thesis using new_obj_ok [OF inv _ al, of x] v New al by (simp add: buf_new_def)
next
  case (Copy x y)
  then obtain b where y: "objs h y = Some b" and x: "objs h x = None" using v by auto
  have "refs h c \<noteq> {}" if "b_rc b = Some c" for c using y that by (auto simp: refs_def)
  with retain_ok [OF inv, of x b] heap_inv_obj [OF inv y] x y Copy show ?thesis
    by (auto simp: buf_copy_def get_obj_def)
next
  case (Assign x y)
  then obtain b bx where y: "objs h y = Some b" and x: "objs h x = Some bx" using v by auto
  show ?thesis
  proof (cases "x = y")
    case False
    obtain h1 where h1: "release x h = Inr h1" "heap_inv h1" "objs h1 = (objs h)(x \<mapsto> null_block)"
      using release_ok [OF inv few x] by blast
    have y1: "objs h1 y = Some b" using h1(3) y False by simp
    have "refs h1 c \<noteq> {}" if "b_rc b = Some c" for c using y1 that by (auto simp: refs_def)
    with retain_ok [OF h1(2), of x b] heap_inv_obj [OF h1(2) y1] h1 y1 Assign False show ?thesis
      by (auto simp: buf_assign_def get_obj_def)
  qed (use inv Assign in \<open>simp add: buf_assign_def\<close>)
next
  case (Move x y)
  then obtain b where y: "objs h y = Some b" and x: "objs h x = None" using v by auto
  then have "x \<noteq> y" by auto
  then show ?thesis using move_ok [OF inv _ y, of x] x y Move by (auto simp: buf_move_def get_obj_def)
next
  case (Move_Assign x y)
  then obtain b bx where y: "objs h y = Some b" and x: "objs h x = Some bx" using v by auto
  show ?thesis
  proof (cases "x = y")
    case False
    obtain h1 where h1: "release x h = Inr h1" "heap_inv h1" "objs h1 = (objs h)(x \<mapsto> null_block)"
      using release_ok [OF inv few x] by blast
    have y1: "objs h1 y = Some b" using h1(3) y False by simp
    show ?thesis using move_ok [OF h1(2) _ y1 False] h1 y1 Move_Assign False
      by (auto simp: buf_move_assign_def get_obj_def)
  qed (use inv Move_Assign in \<open>simp add: buf_move_assign_def\<close>)
next
  case (Slice x y off n)
  then obtain b where y: "objs h y = Some b" and x: "objs h x = None" using v by auto
  have ok: "block_ok (fresh h) (slice_block b off n)"
    using heap_inv_obj [OF inv y] by (auto simp: block_ok_def slice_block_def split: option.splits)
  have rc: "b_rc (slice_block b off n) = b_rc b" by (simp add: slice_block_def)
  have "refs h c \<noteq> {}" if "b_rc b = Some c" for c using y that by (auto simp: refs_def)
  with retain_ok [OF inv, of x "slice_block b off n"] retain_ok [OF inv, of x null_block] ok rc x y Slice
  show ?thesis
    by (auto simp: buf_slice_def get_obj_def Let_def retain_def [of null_block])
next
  case (Resize x n)
  then obtain b where x: "objs h x = Some b" using v by auto
  obtain h1 where h1: "release x h = Inr h1" "heap_inv h1" "objs h1 = (objs h)(x \<mapsto> null_block)"
    "fresh h1 = fresh h" using release_ok [OF inv few x] by blast
  obtain nb ha where al: "allocate_block n h = (nb, ha)" by force
  obtain nb1 hb where al1: "allocate_block n h1 = (nb1, hb)" by force
  have "nb1 = nb" "release x ha = Inr hb"
    using al al1 h1 release_add_alloc [OF inv x h1(1), of n]
    by (auto simp: allocate_block_def Let_def add_alloc_def split: if_splits)
  then show ?thesis using new_obj_ok [OF h1(2) _ al1, of x] h1(3) x Resize al inv
    by (auto simp: buf_resize_def get_obj_def)
next
  case (Destroy x)
  then obtain b where x: "objs h x = Some b" using v by auto
  obtain h1 where h1: "release x h = Inr h1" "heap_inv h1" "objs h1 = (objs h)(x \<mapsto> null_block)"
    using release_ok [OF inv few x] by blast
  have "refs (h1\<lparr>objs := (objs h1)(x := None)\<rparr>) c = refs h1 c" for c
    using h1(3) by (auto simp: refs_def)
  then have "heap_inv (h1\<lparr>objs := (objs h1)(x := None)\<rparr>)" using h1(2)
    by (auto simp: heap_inv_def)
  then show ?thesis using h1(1) Destroy by (simp add: buf_destroy_def)
qed

section \<open>Bounds\<close>

text \<open>
  A \<open>Buffer\<close> that owns memory views a part of its live block, as long as no call of
  \<open>slice\<close> lets \<open>offset + count\<close> wrap.
\<close>

definition bounded :: "buffer_heap \<Rightarrow> block \<Rightarrow> bool" where
  "bounded h b \<longleftrightarrow> (\<forall>c. b_rc b = Some c \<longrightarrow>
     (\<exists>n off. blocks h c = Some n \<and> b_ptr b = Some (c, off) \<and> unat off + unat (b_size b) \<le> unat n))"

definition in_bounds :: "buffer_heap \<Rightarrow> bool" where
  "in_bounds h \<longleftrightarrow> (\<forall>x b. objs h x = Some b \<longrightarrow> bounded h b)"

fun slice_fits :: "buffer_op \<Rightarrow> bool" where
  "slice_fits (Slice x y off n) = (unat off + unat n < 2 ^ 64)"
| "slice_fits op = True"

lemma bounded_null [simp]: "bounded h null_block"
  by (simp add: bounded_def)

lemma bounded_keep:
  assumes "bounded h b" and "\<And>c. b_rc b = Some c \<Longrightarrow> blocks h' c = blocks h c"
  shows "bounded h' b"
  using assms by (auto simp: bounded_def)

lemma bounded_slice:
  assumes "bounded h b" and "unat off + unat n < 2 ^ 64" and "\<not> off + n > b_size b"
  shows "bounded h (slice_block b off n)"
proof -
  have "unat off + unat n \<le> unat (b_size b)"
    using assms(2,3) by (simp add: unat_add_no_wrap word_to_nat)
  moreover have "unat (o1 + off) = unat o1 + unat off"
    if "unat o1 + unat (b_size b) \<le> unat (m :: u64)" for o1 m
    using that calculation unat_u64_bound [of m] by (intro unat_add_no_wrap) linarith
  ultimately show ?thesis using assms(1)
    by (fastforce simp: bounded_def slice_block_def)
qed

lemma bounded_add_alloc: "block_ok (fresh h) b \<Longrightarrow> bounded h b \<Longrightarrow> bounded (add_alloc n h) b"
  by (rule bounded_keep) (auto simp: add_alloc_def block_ok_def)

lemma in_boundsI:
  assumes "\<And>z b. objs h' z = Some b \<Longrightarrow> bounded h' b"
  shows "in_bounds h'"
  using assms by (simp add: in_bounds_def)

lemma release_bounds:
  assumes "heap_inv h" and "countable_objs h" and "in_bounds h" and "release x h = Inr h'"
  shows "in_bounds h' \<and> heap_inv h'"
proof -
  obtain b where x: "objs h x = Some b"
    using assms(4) by (cases "objs h x") (auto simp: release_def get_obj_def)
  have h': "heap_inv h'" "objs h' = (objs h)(x \<mapsto> null_block)"
    "\<And>d. refs h' d \<noteq> {} \<Longrightarrow> blocks h' d = blocks h d"
    using release_ok [OF assms(1,2) x] assms(4) by auto
  have "bounded h' b0" if "objs h' z = Some b0" for z b0
  proof (cases "z = x")
    case False
    then have "bounded h b0" using that h'(2) assms(3) by (simp add: in_bounds_def)
    then show ?thesis by (rule bounded_keep) (use h'(3) that in \<open>auto simp: refs_def\<close>)
  qed (use that h'(2) in simp)
  with h'(1) show ?thesis by (auto simp: in_bounds_def)
qed

lemma get_obj_bounded: "get_obj y h = Inr b \<Longrightarrow> in_bounds h \<Longrightarrow> bounded h b"
  by (auto simp: get_obj_def in_bounds_def split: option.splits)

lemma retain_frame: "retain b h = Inr h' \<Longrightarrow> objs h' = objs h \<and> blocks h' = blocks h"
  by (auto simp: retain_def split: option.splits)

lemma retain_bounds:
  assumes "retain b (set_obj x b h) = Inr h'" and "in_bounds h" and "bounded h b"
  shows "in_bounds h'"
proof (rule in_boundsI)
  fix z b0 assume "objs h' z = Some b0"
  then have "bounded h b0"
    using retain_frame [OF assms(1)] assms(2,3) by (auto simp: in_bounds_def split: if_splits)
  then show "bounded h' b0"
    by (rule bounded_keep) (use retain_frame [OF assms(1)] in simp)
qed

lemma set_obj_bounds:
  assumes "in_bounds h" and "bounded h b"
  shows "in_bounds (set_obj x b h)"
proof (rule in_boundsI)
  fix z b0 assume "objs (set_obj x b h) z = Some b0"
  then have "bounded h b0" using assms by (auto simp: in_bounds_def split: if_splits)
  then show "bounded (set_obj x b h) b0" by (rule bounded_keep) simp
qed

lemma new_bounds:
  assumes "heap_inv h" and "in_bounds h" and "allocate_block n h = (b, h1)"
  shows "in_bounds h1 \<and> bounded h1 b"
proof (cases rule: allocate_block_cases [of n h])
  case (2 b')
  have "in_bounds (add_alloc n h)"
  proof (rule in_boundsI)
    fix z b0 assume "objs (add_alloc n h) z = Some b0"
    then have "objs h z = Some b0" by (simp add: add_alloc_def)
    then show "bounded (add_alloc n h) b0"
      using assms(1,2) by (auto intro!: bounded_add_alloc heap_inv_obj simp: in_bounds_def)
  qed
  then show ?thesis using 2 assms(3) by (auto simp: bounded_def add_alloc_def)
qed (use assms in auto)

lemma buffer_step_bounds:
  assumes inv: "heap_inv h" and few: "countable_objs h" and bnd: "in_bounds h" and v: "op_valid op h" and fits: "slice_fits op"
    and step: "buffer_step op h = Inr h'"
  shows "in_bounds h'"
proof (cases op)
  case (Default x)
  then show ?thesis using step bnd by (auto simp: buf_default_def intro: set_obj_bounds)
next
  case (New x n)
  then show ?thesis using step new_bounds [OF inv bnd]
    by (auto simp: buf_new_def split: prod.splits intro: set_obj_bounds)
next
  case (Copy x y)
  then show ?thesis using step bnd
    by (auto simp: buf_copy_def bind_result_eq_Inr intro: retain_bounds get_obj_bounded)
next
  case (Assign x y)
  show ?thesis
  proof (cases "x = y")
    case False
    then obtain h1 b where r: "release x h = Inr h1" and b: "get_obj y h1 = Inr b"
      and rt: "retain b (set_obj x b h1) = Inr h'"
      using step Assign by (auto simp: buf_assign_def bind_result_eq_Inr)
    have b1: "in_bounds h1" using release_bounds [OF inv few bnd r] by simp
    show ?thesis by (rule retain_bounds [OF rt b1 get_obj_bounded [OF b b1]])
  qed (use step Assign bnd in \<open>simp add: buf_assign_def\<close>)
next
  case (Move x y)
  then obtain b where b: "get_obj y h = Inr b" and h': "h' = set_obj y null_block (set_obj x b h)"
    using step by (auto simp: buf_move_def bind_result_eq_Inr)
  show ?thesis unfolding h' using bnd get_obj_bounded [OF b bnd] by (simp add: set_obj_bounds)
next
  case (Move_Assign x y)
  show ?thesis
  proof (cases "x = y")
    case False
    then obtain h1 b where r: "release x h = Inr h1" and b: "get_obj y h1 = Inr b"
      and h': "h' = set_obj y null_block (set_obj x b h1)"
      using step Move_Assign by (auto simp: buf_move_assign_def bind_result_eq_Inr)
    have b1: "in_bounds h1" using release_bounds [OF inv few bnd r] by simp
    show ?thesis unfolding h' using b1 get_obj_bounded [OF b b1] by (simp add: set_obj_bounds)
  qed (use step Move_Assign bnd in \<open>simp add: buf_move_assign_def\<close>)
next
  case (Slice x y off n)
  obtain b where b: "get_obj y h = Inr b"
    using step Slice by (cases "get_obj y h") (simp_all add: buf_slice_def)
  have h': "(if off + n > b_size b then Inr (set_obj x null_block h)
      else retain (slice_block b off n) (set_obj x (slice_block b off n) h)) = Inr h'"
    using step Slice b by (simp only: buffer_step.simps buf_slice_def bind_result_simps Let_def)
  have bb: "bounded h b" by (rule get_obj_bounded [OF b bnd])
  show ?thesis
  proof (cases "off + n > b_size b")
    case False
    then show ?thesis using h' retain_bounds [OF _ bnd bounded_slice [OF bb _ False]] fits Slice by simp
  qed (use h' bnd in \<open>auto simp: set_obj_bounds\<close>)
next
  case (Resize x n)
  then obtain b where b: "get_obj x h = Inr b" using step by (auto simp: buf_resize_def bind_result_eq_Inr)
  then have x: "objs h x = Some b" by (simp add: get_obj_def split: option.splits)
  obtain h1 where r: "release x h = Inr h1" "heap_inv h1" "fresh h1 = fresh h"
    using release_ok [OF inv few x] by blast
  obtain nb ha where al: "allocate_block n h = (nb, ha)" by force
  obtain nb1 hb where al1: "allocate_block n h1 = (nb1, hb)" by force
  have eq: "nb1 = nb" "release x ha = Inr hb"
    using al al1 r release_add_alloc [OF inv x r(1), of n]
    by (auto simp: allocate_block_def Let_def add_alloc_def split: if_splits)
  have "in_bounds hb \<and> bounded hb nb"
    using new_bounds [OF r(2) _ al1] release_bounds [OF inv few bnd r(1)] eq(1) by simp
  then show ?thesis using step Resize b al eq(2) bnd
    by (auto simp: buf_resize_def set_obj_bounds split: if_splits)
next
  case (Destroy x)
  then obtain h1 where r: "release x h = Inr h1" and h': "h' = h1\<lparr>objs := (objs h1)(x := None)\<rparr>"
    using step by (auto simp: buf_destroy_def bind_result_eq_Inr)
  have "in_bounds h1" using release_bounds [OF inv few bnd r] by simp
  then show ?thesis unfolding h' by (auto simp: in_bounds_def bounded_def)
qed

section \<open>Properties of whole programs\<close>

fun buffer_run :: "buffer_op list \<Rightarrow> buffer_heap \<Rightarrow> fault + buffer_heap" where
  "buffer_run [] h = Inr h"
| "buffer_run (op # ops) h = bind_result (buffer_step op h) (buffer_run ops)"

lemmas buffer_op_defs = empty_heap_def buf_default_def buf_new_def allocate_block_def buf_copy_def
  get_obj_def retain_def buf_assign_def release_def free_memory_def buf_move_def
  buf_move_assign_def buf_slice_def slice_block_def buf_resize_def buf_destroy_def Let_def

fun run_valid :: "buffer_op list \<Rightarrow> buffer_heap \<Rightarrow> bool" where
  "run_valid [] h = True"
| "run_valid (op # ops) h =
     (op_valid op h \<and> (case buffer_step op h of Inl e \<Rightarrow> True | Inr h' \<Rightarrow> run_valid ops h'))"

lemma empty_heap_inv: "heap_inv empty_heap"
  by (simp add: heap_inv_def empty_heap_def refs_def)

lemma release_frame: "release x h = Inr h' \<Longrightarrow> dom (objs h') = dom (objs h)"
  by (auto simp: release_def get_obj_def free_memory_def bind_result_eq_Inr Let_def
      split: option.splits if_splits)

text \<open>An operation brings at most one object to life.\<close>

fun op_target :: "buffer_op \<Rightarrow> nat" where
  "op_target (Default x) = x"
| "op_target (New x n) = x"
| "op_target (Copy x y) = x"
| "op_target (Assign x y) = x"
| "op_target (Move x y) = x"
| "op_target (Move_Assign x y) = x"
| "op_target (Slice x y off n) = x"
| "op_target (Resize x n) = x"
| "op_target (Destroy x) = x"

lemma allocate_frame: "allocate_block n h = (b, h') \<Longrightarrow> objs h' = objs h"
  by (auto simp: allocate_block_def Let_def split: if_splits)

lemma get_obj_dom: "get_obj y h = Inr b \<Longrightarrow> y \<in> dom (objs h)"
  by (auto simp: get_obj_def split: option.splits)

lemma buffer_step_dom:
  "buffer_step op h = Inr h' \<Longrightarrow> dom (objs h') \<subseteq> insert (op_target op) (dom (objs h))"
  by (cases op;
     auto simp: buf_default_def buf_new_def buf_copy_def buf_assign_def buf_move_def
      buf_move_assign_def buf_slice_def buf_resize_def buf_destroy_def bind_result_eq_Inr Let_def
      dest!: retain_frame release_frame allocate_frame get_obj_dom split: if_splits prod.splits;
     blast dest: equalityD1)

definition objs_bound :: "buffer_heap \<Rightarrow> nat \<Rightarrow> bool" where
  "objs_bound h n \<longleftrightarrow> card (dom (objs h)) + n < 2 ^ 32"

lemma objs_bound_countable: "objs_bound h n \<Longrightarrow> countable_objs h"
  by (simp add: objs_bound_def countable_objs_def)

lemma buffer_step_bound:
  assumes "heap_inv h" and "objs_bound h (Suc n)" and "buffer_step op h = Inr h'"
  shows "objs_bound h' n"
proof -
  have "finite (dom (objs h))" using assms(1) by (simp add: heap_inv_def)
  then have "card (dom (objs h')) \<le> card (insert (op_target op) (dom (objs h)))"
    by (intro card_mono buffer_step_dom [OF assms(3)]) simp
  also have "\<dots> \<le> Suc (card (dom (objs h)))" by (rule card_insert_le_m1) simp_all
  finally show ?thesis using assms(2) by (simp add: objs_bound_def)
qed

lemma buffer_run_ok:
  "heap_inv h \<Longrightarrow> objs_bound h (length ops) \<Longrightarrow> run_valid ops h \<Longrightarrow>
   \<exists>h'. buffer_run ops h = Inr h' \<and> heap_inv h' \<and> countable_objs h'"
proof (induction ops arbitrary: h)
  case Nil
  then show ?case by (simp add: objs_bound_countable)
next
  case (Cons op ops)
  then obtain h1 where "buffer_step op h = Inr h1" "heap_inv h1"
    using buffer_step_ok [of h op] objs_bound_countable [of h] by auto
  with Cons buffer_step_bound [of h "length ops" op h1] show ?case by auto
qed

lemma buffer_run_bounds:
  "heap_inv h \<Longrightarrow> objs_bound h (length ops) \<Longrightarrow> in_bounds h \<Longrightarrow> run_valid ops h \<Longrightarrow>
   list_all slice_fits ops \<Longrightarrow> buffer_run ops h = Inr h' \<Longrightarrow> in_bounds h'"
proof (induction ops arbitrary: h)
  case (Cons op ops)
  then obtain h1 where "buffer_step op h = Inr h1" "heap_inv h1"
    using buffer_step_ok [of h op] objs_bound_countable [of h] by auto
  with Cons buffer_step_bounds [of h op h1] buffer_step_bound [of h "length ops" op h1]
    objs_bound_countable [of h] show ?case by auto
qed simp

lemma empty_heap_bound: "n < 2 ^ 32 \<Longrightarrow> objs_bound empty_heap n"
  by (simp add: objs_bound_def empty_heap_def)

text \<open>
  C31: no sequence of fewer than \<open>2 ^ 32\<close> \<open>Buffer\<close> constructions, copies, moves, slices,
  resizes and destructions that uses constructed objects only touches a deleted counter or frees
  a block twice, and at its end every live 32-bit counter holds the number of objects sharing
  the block, which is not 0, and a memory block is live exactly when some object still refers to
  it. (The bound is there because a counter with \<open>2 ^ 32\<close> sharers wraps to 0.)
\<close>

theorem buffer_ownership:
  assumes "run_valid ops empty_heap" and "length ops < 2 ^ 32"
  shows "\<exists>h. buffer_run ops empty_heap = Inr h \<and>
    (\<forall>c v. counters h c = Some v \<longrightarrow> 0 < v \<and> unat v = card (refs h c)) \<and>
    (\<forall>c. (blocks h c \<noteq> None) = (\<exists>x b. objs h x = Some b \<and> b_rc b = Some c))"
proof -
  obtain h where run: "buffer_run ops empty_heap = Inr h" and inv: "heap_inv h"
    and few: "countable_objs h"
    using buffer_run_ok [OF empty_heap_inv empty_heap_bound [OF assms(2)] assms(1)] by blast
  have "0 < v \<and> unat v = card (refs h c)" if "counters h c = Some v" for c v
  proof -
    have "refs h c \<noteq> {}" and v: "v = of_nat (card (refs h c))"
      using inv that by (auto simp: heap_inv_def split: if_splits)
    then have "0 < card (refs h c)" using refs_finite [OF inv] by (simp add: card_gt_0_iff)
    moreover have "unat v = card (refs h c)"
      unfolding v by (rule of_nat_inverse [OF refl]) (use refs_countable [OF inv few] in simp)
    ultimately show ?thesis by (metis unat_gt_0 word_neq_0_conv)
  qed
  moreover have "(blocks h c \<noteq> None) = (\<exists>x b. objs h x = Some b \<and> b_rc b = Some c)" for c
    using inv by (auto simp: heap_inv_def refs_def)
  ultimately show ?thesis using run by blast
qed

theorem buffer_ownership_witness:
  "\<exists>h. buffer_run [New 0 256, Copy 1 0, Slice 2 0 64 16, Destroy 0] empty_heap = Inr h \<and>
    (\<forall>c. (blocks h c \<noteq> None) = (\<exists>x b. objs h x = Some b \<and> b_rc b = Some c))"
proof -
  have "run_valid [New 0 256, Copy 1 0, Slice 2 0 64 16, Destroy 0] empty_heap"
    by (simp add: buffer_op_defs split: sum.split)
  from buffer_ownership [OF this] show ?thesis by (simp del: buffer_run.simps) blast
qed

text \<open>
  When no call of \<open>slice\<close> wraps its bound, every object that owns memory views a range
  inside its live block.
\<close>

theorem buffer_in_bounds:
  assumes "run_valid ops empty_heap" and "list_all slice_fits ops" and "length ops < 2 ^ 32"
    and "buffer_run ops empty_heap = Inr h" and "objs h x = Some b" and "b_rc b = Some c"
  shows "\<exists>n off. blocks h c = Some n \<and> b_ptr b = Some (c, off) \<and>
    unat off + unat (b_size b) \<le> unat n"
proof -
  have "in_bounds empty_heap" by (simp add: in_bounds_def empty_heap_def)
  then have "in_bounds h" using buffer_run_bounds [OF empty_heap_inv empty_heap_bound [OF assms(3)] _ assms(1,2,4)] by blast
  then show ?thesis using assms(5,6) by (auto simp: in_bounds_def bounded_def)
qed

theorem buffer_in_bounds_witness:
  "\<exists>h b. buffer_run [New 0 256, Slice 1 0 64 16] empty_heap = Inr h \<and> objs h 1 = Some b \<and>
    (\<exists>n off. blocks h 0 = Some n \<and> b_ptr b = Some (0, off) \<and> unat off + unat (b_size b) \<le> unat n)"
proof -
  have v: "run_valid [New 0 256, Slice 1 0 64 16] empty_heap"
    by (simp add: buffer_op_defs split: sum.split)
  obtain h where h: "buffer_run [New 0 256, Slice 1 0 64 16] empty_heap = Inr h"
    "objs h 1 = Some \<lparr>b_ptr = Some (0, 64), b_base = Some (0, 0), b_rc = Some 0, b_size = 16\<rparr>"
    by (simp add: buffer_op_defs)
  with buffer_in_bounds [OF v _ _ h] show ?thesis by auto
qed

text \<open>
  The bound of \<open>slice\<close> wraps: from a 256-byte buffer, \<open>slice(128, 2^64 - 64)\<close> passes
  the check and returns a view of \<open>2^64 - 64\<close> bytes.
\<close>

theorem buffer_slice_wraps:
  "\<exists>h b. buffer_run [New 0 256, Slice 1 0 128 (- 64)] empty_heap = Inr h \<and>
    objs h 1 = Some b \<and> b_ptr b = Some (0, 128) \<and> b_size b = - 64 \<and> blocks h 0 = Some 256"
  by (simp add: buffer_op_defs)

end
