(* ===== verification/Pool_Registry.thy ===== *)
theory Pool_Registry
  imports Prelude
begin

text \<open>
  \<open>ThreadLocalPoolRegistry\<close> of \<open>include/quant/memory.h\<close> and the thread-local cache of
  \<open>src/core/memory.cpp\<close>. Threads and pools are numbers; \<open>live\<close> is the set of pools that
  have been constructed and not deleted. Each operation runs under the registry's mutex,
  so it is one step. Deleting a pool that is not live is a fault.
\<close>

record registry =
  pools :: "nat \<rightharpoonup> nat \<times> u64"
  owners :: "nat \<rightharpoonup> nat"
  active_generation :: "nat \<Rightarrow> u64"
  live :: "nat set"
  next_pool :: nat
  tls_pool :: "nat \<Rightarrow> nat option"

definition registry_new :: registry where
  "registry_new = \<lparr>pools = Map.empty, owners = Map.empty, active_generation = (\<lambda>_. 0),
     live = {}, next_pool = 0, tls_pool = (\<lambda>_. None)\<rparr>"

definition delete_pool :: "nat \<Rightarrow> registry \<Rightarrow> registry option" where
  "delete_pool p r = (if p \<in> live r then Some (r\<lparr>live := live r - {p}\<rparr>) else None)"

definition current_pool :: "nat \<Rightarrow> registry \<Rightarrow> nat option" where
  "current_pool tid r =
     (case pools r tid of
        Some (p, g) \<Rightarrow> (if g = active_generation r tid then Some p else None)
      | None \<Rightarrow> None)"

text \<open>The pool returned and the registry after the call; \<open>None\<close> is a double delete.\<close>

definition get_or_create_pool :: "nat \<Rightarrow> registry \<Rightarrow> (nat \<times> registry) option" where
  "get_or_create_pool tid r =
     (case current_pool tid r of
        Some p \<Rightarrow> Some (p, r)
      | None \<Rightarrow>
          (let pool = next_pool r;
               r1 = r\<lparr>live := insert pool (live r), next_pool := Suc pool\<rparr>;
               freed = (case pools r1 tid of
                   Some (old, g) \<Rightarrow>
                     (if old \<noteq> pool then
                        (if owners r1 tid = Some old
                         then map_option (\<lambda>r2. r2\<lparr>owners := (owners r2)(tid := None)\<rparr>)
                                (delete_pool old r1)
                         else delete_pool old r1)
                      else Some r1)
                 | None \<Rightarrow> Some r1)
           in map_option (\<lambda>r2. (pool,
                r2\<lparr>pools := (pools r2)(tid \<mapsto> (pool, active_generation r2 tid)),
                   owners := (owners r2)(tid \<mapsto> pool)\<rparr>)) freed))"

definition get_pool :: "nat \<Rightarrow> registry \<Rightarrow> nat option" where
  "get_pool tid r = current_pool tid r"

definition release_pool :: "nat \<Rightarrow> registry \<Rightarrow> registry option" where
  "release_pool tid r =
     map_option (\<lambda>r1. r1\<lparr>pools := (pools r1)(tid := None),
         active_generation := (active_generation r1)(tid := active_generation r1 tid + 1)\<rparr>)
       (case owners r tid of
          Some p \<Rightarrow> map_option (\<lambda>r1. r1\<lparr>owners := (owners r1)(tid := None)\<rparr>) (delete_pool p r)
        | None \<Rightarrow> Some r)"

definition get_tls_memory_pool :: "nat \<Rightarrow> registry \<Rightarrow> (nat \<times> registry) option" where
  "get_tls_memory_pool tid r =
     (case tls_pool r tid of
        Some p \<Rightarrow> Some (p, r)
      | None \<Rightarrow> map_option (\<lambda>(p, r1). (p, r1\<lparr>tls_pool := (tls_pool r1)(tid := Some p)\<rparr>))
                  (get_or_create_pool tid r))"

definition release_tls_memory_pool :: "nat \<Rightarrow> registry \<Rightarrow> registry option" where
  "release_tls_memory_pool tid r =
     map_option (\<lambda>r1. r1\<lparr>tls_pool := (tls_pool r1)(tid := None)\<rparr>) (release_pool tid r)"

datatype registry_op = Get_Or_Create nat | Release nat | Get_Tls nat | Release_Tls nat

fun registry_step :: "registry_op \<Rightarrow> registry \<Rightarrow> registry option" where
  "registry_step (Get_Or_Create t) r = map_option snd (get_or_create_pool t r)"
| "registry_step (Release t) r = release_pool t r"
| "registry_step (Get_Tls t) r = map_option snd (get_tls_memory_pool t r)"
| "registry_step (Release_Tls t) r = release_tls_memory_pool t r"

fun registry_run :: "registry_op list \<Rightarrow> registry \<Rightarrow> registry option" where
  "registry_run [] r = Some r"
| "registry_run (x # xs) r = Option.bind (registry_step x r) (registry_run xs)"

text \<open>Each thread owns its pool, a pool has one owner, and the live pools are the owned ones.\<close>

definition registry_inv :: "registry \<Rightarrow> bool" where
  "registry_inv r \<longleftrightarrow>
     (\<forall>t. map_option fst (pools r t) = owners r t) \<and>
     (\<forall>t g p. pools r t = Some (p, g) \<longrightarrow> g = active_generation r t) \<and>
     live r = ran (owners r) \<and> inj_on (owners r) (dom (owners r)) \<and>
     (\<forall>p \<in> live r. p < next_pool r)"

lemma registry_inv_new: "registry_inv registry_new"
  by (simp add: registry_inv_def registry_new_def)

lemma ran_fun_upd_inj:
  "inj_on m (dom m) \<Longrightarrow> m t = Some p \<Longrightarrow> ran (m(t := None)) = ran m - {p}"
  unfolding ran_def inj_on_def dom_def by (auto, metis option.inject option.distinct(1))

lemma ran_upd_None: "m t = None \<Longrightarrow> ran (m(t \<mapsto> p)) = insert p (ran m)"
  by (rule ran_map_upd)

lemma registry_inv_owner: "registry_inv r \<Longrightarrow> owners r t = map_option fst (pools r t)"
  by (simp add: registry_inv_def)

lemma get_or_create_pool_inv:
  assumes inv: "registry_inv r"
  shows "\<exists>p r'. get_or_create_pool tid r = Some (p, r') \<and> registry_inv r' \<and>
    current_pool tid r' = Some p \<and> p \<in> live r'"
proof (cases "current_pool tid r")
  case (Some p)
  then have "owners r tid = Some p" using registry_inv_owner [OF inv, of tid]
    by (auto simp: current_pool_def split: option.splits if_splits)
  then have "p \<in> live r" using inv by (auto simp: registry_inv_def ranI)
  then show ?thesis using Some inv by (simp add: get_or_create_pool_def)
next
  case None
  then have np1: "pools r tid = None" using inv
    by (cases "pools r tid") (auto simp: current_pool_def registry_inv_def split: if_splits)
  then have np: "pools r tid = None" "owners r tid = None" using registry_inv_owner [OF inv, of tid] by simp_all
  have fresh: "next_pool r \<notin> ran (owners r)" using inv by (auto simp: registry_inv_def)
  let ?r = "r\<lparr>live := insert (next_pool r) (live r), next_pool := Suc (next_pool r),
      pools := (pools r)(tid \<mapsto> (next_pool r, active_generation r tid)),
      owners := (owners r)(tid \<mapsto> next_pool r)\<rparr>"
  have "inj_on ((owners r)(tid \<mapsto> next_pool r)) (insert tid (dom (owners r)))"
    using inv fresh np by (auto simp: registry_inv_def inj_on_def ran_def dom_def)
  then have "registry_inv ?r"
    using inv np by (auto simp: registry_inv_def ran_upd_None less_Suc_eq)
  moreover have "get_or_create_pool tid r = Some (next_pool r, ?r)"
    using None np by (simp add: get_or_create_pool_def Let_def)
  ultimately show ?thesis by (simp add: current_pool_def)
qed

lemma release_pool_inv:
  assumes inv: "registry_inv r"
  shows "\<exists>r'. release_pool tid r = Some r' \<and> registry_inv r' \<and> current_pool tid r' = None"
proof (cases "owners r tid")
  case (Some p)
  then have "p \<in> live r" using inv by (auto simp: registry_inv_def ranI)
  moreover have "ran ((owners r)(tid := None)) = ran (owners r) - {p}"
    using inv Some by (intro ran_fun_upd_inj) (auto simp: registry_inv_def)
  moreover have "inj_on ((owners r)(tid := None)) (dom (owners r) - {tid})"
    using inv by (auto simp: registry_inv_def inj_on_def)
  ultimately show ?thesis using inv Some
    by (auto simp: release_pool_def delete_pool_def registry_inv_def current_pool_def)
next
  case None
  then have "pools r tid = None" using registry_inv_owner [OF inv, of tid] by simp
  then show ?thesis using inv None
    by (auto simp: release_pool_def registry_inv_def current_pool_def fun_upd_idem)
qed

lemma registry_inv_tls [simp]: "registry_inv (r\<lparr>tls_pool := f\<rparr>) = registry_inv r"
  by (simp add: registry_inv_def)

lemma registry_step_inv:
  assumes "registry_inv r"
  shows "\<exists>r'. registry_step x r = Some r' \<and> registry_inv r'"
proof (cases x)
  case (Get_Or_Create t)
  then show ?thesis using get_or_create_pool_inv [OF assms, of t] by auto
next
  case (Release t)
  then show ?thesis using release_pool_inv [OF assms, of t] by auto
next
  case (Get_Tls t)
  then show ?thesis using get_or_create_pool_inv [OF assms, of t] assms
    by (auto simp: get_tls_memory_pool_def split: option.splits)
next
  case (Release_Tls t)
  then show ?thesis using release_pool_inv [OF assms, of t]
    by (auto simp: release_tls_memory_pool_def)
qed

lemma registry_run_inv:
  "registry_inv r \<Longrightarrow> \<exists>r'. registry_run xs r = Some r' \<and> registry_inv r'"
proof (induction xs arbitrary: r)
  case (Cons x xs)
  then show ?case using registry_step_inv [of r x] by auto
qed simp

text \<open>
  In every run of the registry no pool is deleted twice, no two threads share a pool,
  and no pool leaks: the live pools are exactly the ones a thread owns.
\<close>

theorem registry_no_leak:
  "\<exists>r. registry_run xs registry_new = Some r \<and> live r = ran (owners r) \<and>
     inj_on (owners r) (dom (owners r))"
  using registry_run_inv [OF registry_inv_new, of xs] by (auto simp: registry_inv_def)

text \<open>
  The cache of \<open>get_tls_memory_pool\<close> is not told of a release through the registry
  itself: after \<open>ThreadLocalPoolRegistry::release_pool\<close> the next \<open>get_tls_memory_pool\<close> of the
  same thread returns a pool that has been deleted.
\<close>

theorem tls_pool_dangles:
  "\<exists>p r r'. registry_run [Get_Tls 0, Release 0] registry_new = Some r \<and>
     get_tls_memory_pool 0 r = Some (p, r') \<and> p \<notin> live r'"
  by (simp add: registry_new_def get_tls_memory_pool_def get_or_create_pool_def current_pool_def
      release_pool_def delete_pool_def Let_def)

end
