(* ===== verification/Spsc_Queue.thy ===== *)
theory Spsc_Queue
  imports Prelude
begin

text \<open>
  \<open>include/quant/thread_safety.h\<close>: the single-producer single-consumer ring buffer, first as
  sequential operations and then as the interleaving of the two threads' atomic accesses;
  the spin lock; and the per-thread counter. The ring's storage maps a slot index to the
  element constructed there; \<open>None\<close> is raw storage.
\<close>

section \<open>Rounding up to a power of two\<close>

definition round_up_pow2 :: "u64 \<Rightarrow> u64" where
  "round_up_pow2 v =
     (if v = 0 then 1
      else
        (let v0 = v - 1;
             v1 = v0 OR drop_bit 1 v0;
             v2 = v1 OR drop_bit 2 v1;
             v3 = v2 OR drop_bit 4 v2;
             v4 = v3 OR drop_bit 8 v3;
             v5 = v4 OR drop_bit 16 v4;
             v6 = v5 OR drop_bit 32 v5
         in v6 + 1))"

text \<open>After smearing by shifts up to \<open>m\<close>, bit \<open>i\<close> says whether some bit in \<open>i..<i+m\<close> was set.\<close>

lemma smear_step:
  fixes v x :: "'a::len word"
  assumes "\<And>i. bit x i \<longleftrightarrow> (\<exists>j<m. bit v (i + j))"
  shows "bit (x OR drop_bit m x) i \<longleftrightarrow> (\<exists>j<2 * m. bit v (i + j))"
proof
  assume "bit (x OR drop_bit m x) i"
  then consider "bit x i" | "bit x (i + m)" by (auto simp: bit_or_iff bit_drop_bit_eq add.commute)
  then show "\<exists>j<2 * m. bit v (i + j)"
  proof cases
    case 1
    then obtain j where "j < m" "bit v (i + j)" using assms by blast
    then show ?thesis by (intro exI [of _ j]) simp
  next
    case 2
    then obtain j where "j < m" "bit v (i + m + j)" using assms [of "i + m"] by blast
    then show ?thesis by (intro exI [of _ "m + j"]) (simp add: add.assoc)
  qed
next
  assume "\<exists>j<2 * m. bit v (i + j)"
  then obtain j where j: "j < 2 * m" "bit v (i + j)" by blast
  show "bit (x OR drop_bit m x) i"
  proof (cases "j < m")
    case True
    then show ?thesis using j assms [of i] by (auto simp: bit_or_iff)
  next
    case False
    then have "bit x (i + m)" using j assms [of "i + m"]
      by (auto intro!: exI [of _ "j - m"])
    then show ?thesis by (simp add: bit_or_iff bit_drop_bit_eq add.commute)
  qed
qed

lemma smear_all:
  fixes v0 :: u64
  defines "v1 \<equiv> v0 OR drop_bit 1 v0"
  defines "v2 \<equiv> v1 OR drop_bit 2 v1"
  defines "v3 \<equiv> v2 OR drop_bit 4 v2"
  defines "v4 \<equiv> v3 OR drop_bit 8 v3"
  defines "v5 \<equiv> v4 OR drop_bit 16 v4"
  defines "v6 \<equiv> v5 OR drop_bit 32 v5"
  shows "bit v6 i \<longleftrightarrow> (\<exists>j<64. bit v0 (i + j))"
proof -
  have s0: "bit v0 i \<longleftrightarrow> (\<exists>j<1. bit v0 (i + j))" for i by simp
  have s1: "bit v1 i \<longleftrightarrow> (\<exists>j<2. bit v0 (i + j))" for i
    unfolding v1_def using smear_step [of v0 1 v0 i, OF s0] by simp
  have s2: "bit v2 i \<longleftrightarrow> (\<exists>j<4. bit v0 (i + j))" for i
    unfolding v2_def using smear_step [of v1 2 v0 i, OF s1] by simp
  have s3: "bit v3 i \<longleftrightarrow> (\<exists>j<8. bit v0 (i + j))" for i
    unfolding v3_def using smear_step [of v2 4 v0 i, OF s2] by simp
  have s4: "bit v4 i \<longleftrightarrow> (\<exists>j<16. bit v0 (i + j))" for i
    unfolding v4_def using smear_step [of v3 8 v0 i, OF s3] by simp
  have s5: "bit v5 i \<longleftrightarrow> (\<exists>j<32. bit v0 (i + j))" for i
    unfolding v5_def using smear_step [of v4 16 v0 i, OF s4] by simp
  show ?thesis unfolding v6_def using smear_step [of v5 32 v0 i, OF s5] by simp
qed

lemma top_bit_exists:
  fixes v :: "'a::len word"
  assumes "v \<noteq> 0"
  obtains k where "k < LENGTH('a)" and "bit v k" and "\<And>i. k < i \<Longrightarrow> \<not> bit v i"
proof -
  have fin: "finite {i. bit v i}"
    by (rule finite_subset [of _ "{..<LENGTH('a)}"]) (auto dest: bit_imp_le_length)
  have "{i. bit v i} \<noteq> {}" using assms by (auto simp: bit_eq_iff)
  with fin have m: "Max {i. bit v i} \<in> {i. bit v i}" by (rule Max_in)
  show thesis
  proof (rule that [of "Max {i. bit v i}"])
    show "Max {i. bit v i} < LENGTH('a)" using m by (auto dest: bit_imp_le_length)
    show "bit v (Max {i. bit v i})" using m by simp
    show "\<not> bit v i" if "Max {i. bit v i} < i" for i
    proof
      assume "bit v i"
      then have "i \<le> Max {i. bit v i}" using Max_ge [OF fin] by simp
      with that show False by simp
    qed
  qed
qed

lemma round_up_pow2_smear:
  assumes "1 < v"
  obtains k where "k < 64" and "bit (v - 1) k" and "\<And>i. k < i \<Longrightarrow> \<not> bit (v - 1) i"
    and "round_up_pow2 v = mask (Suc k) + 1"
proof -
  have "v - 1 \<noteq> 0" using assms by auto
  then obtain k where k: "k < LENGTH(64)" "bit (v - 1) k" "\<And>i. k < i \<Longrightarrow> \<not> bit (v - 1) i"
    by (rule top_bit_exists) blast
  have window: "(\<exists>j<64. bit (v - 1) (i + j)) \<longleftrightarrow> i \<le> k" for i
  proof
    assume "\<exists>j<64. bit (v - 1) (i + j)"
    then obtain j where "bit (v - 1) (i + j)" by blast
    then have "\<not> k < i + j" using k(3) by blast
    then show "i \<le> k" by simp
  next
    assume "i \<le> k"
    then show "\<exists>j<64. bit (v - 1) (i + j)" using k by (intro exI [of _ "k - i"]) auto
  qed
  have "round_up_pow2 v = mask (Suc k) + 1"
  proof -
    have "round_up_pow2 v - 1 = mask (Suc k)"
    proof (rule bit_eqI)
      fix i
      have "v \<noteq> 0" using assms by auto
      then show "bit (round_up_pow2 v - 1) i = bit (mask (Suc k) :: u64) i"
        using window [of i] k(1) smear_all [of "v - 1" i]
        by (auto simp: round_up_pow2_def Let_def bit_mask_iff)
    qed
    then show ?thesis by (simp add: algebra_simps)
  qed
  with k show thesis using that by simp
qed

lemma unat_mask_Suc: "k < 64 \<Longrightarrow> unat (mask (Suc k) :: u64) = 2 ^ Suc k - 1"
proof -
  assume k: "k < 64"
  then have m: "min LENGTH(64) (Suc k) = Suc k" by simp
  have "uint (mask (Suc k) :: u64) = mask (min LENGTH(64) (Suc k))" by (rule uint_mask_eq)
  then have "uint (mask (Suc k) :: u64) = 2 ^ Suc k - 1" by (simp only: m mask_eq_exp_minus_1)
  moreover have "int (2 ^ Suc k - 1 :: nat) = 2 ^ Suc k - 1" by (simp add: of_nat_diff)
  ultimately show ?thesis by (metis nat_int unat_eq_nat_uint)
qed

lemma bit_top_bounds:
  assumes "bit (x :: u64) k" and "\<And>i. k < i \<Longrightarrow> \<not> bit x i"
  shows "2 ^ k \<le> unat x \<and> unat x < 2 ^ Suc k"
proof -
  have "take_bit (Suc k) x = x"
    by (rule bit_eqI) (use assms(2) in \<open>auto simp: bit_take_bit_iff less_Suc_eq_le simp flip: not_less\<close>)
  then have "unat x = take_bit (Suc k) (unat x)"
    by (metis unsigned_take_bit_eq)
  then have "unat x < 2 ^ Suc k" by (metis take_bit_nat_less_exp)
  moreover have "\<not> unat x < 2 ^ k"
  proof
    assume "unat x < 2 ^ k"
    then have "take_bit k (unat x) = unat x" by (rule take_bit_nat_eq_self)
    moreover have "bit (unat x) k" using assms(1) by (simp add: bit_unsigned_iff)
    ultimately show False by (metis bit_take_bit_iff less_irrefl)
  qed
  ultimately show ?thesis by simp
qed

lemma pow2_bound_exists:
  assumes "0 < v" and "unat v \<le> 2 ^ 63"
  shows "\<exists>k\<le>63. unat (round_up_pow2 v) = 2 ^ k \<and> unat v \<le> 2 ^ k \<and>
    (\<forall>j. unat v \<le> 2 ^ j \<longrightarrow> k \<le> j)"
proof (cases "1 < v")
  case True
  then obtain k where k: "k < 64" "bit (v - 1) k" "\<And>i. k < i \<Longrightarrow> \<not> bit (v - 1) i"
    and r: "round_up_pow2 v = mask (Suc k) + 1" by (rule round_up_pow2_smear) blast
  have b: "2 ^ k \<le> unat (v - 1)" "unat (v - 1) < 2 ^ Suc k" using bit_top_bounds [OF k(2,3)] by auto
  have "v \<noteq> 0" using True by auto
  then have um: "unat (v - 1) = unat v - 1" "0 < unat v"
    by (simp_all add: unat_minus_one unat_gt_0)
  have "(2::nat) ^ k < 2 ^ 63" using b(1) um assms(2) by simp
  then have k63: "Suc k \<le> 63" using power_less_imp_less_exp [of "2::nat" k 63] by simp
  have "(2::nat) ^ Suc k \<le> 2 ^ 63" using k63 by (rule power_increasing) simp
  then have "unat (round_up_pow2 v) = 2 ^ Suc k"
    unfolding r using k(1) by (subst unat_add_no_wrap) (simp_all add: unat_mask_Suc)
  moreover have "unat v \<le> 2 ^ Suc k" using b(2) um by linarith
  moreover have "Suc k \<le> j" if "unat v \<le> 2 ^ j" for j
  proof -
    have "(2::nat) ^ k < 2 ^ j" using b(1) um that by linarith
    then show ?thesis by simp
  qed
  ultimately show ?thesis using k63 by blast
next
  case False
  then have "unat v = 1" using assms(1) by (simp add: word_less_nat_alt)
  then have "v = 1" by (metis unsigned_1 word_unat_eq_iff)
  then show ?thesis by (intro exI [of _ 0]) (simp add: round_up_pow2_def)
qed

text \<open>Beyond \<open>2^63\<close> the result wraps to zero: the ring then has no slots.\<close>

lemma round_up_pow2_wraps: "round_up_pow2 (2 ^ 63 + 1) = 0"
  by (simp add: round_up_pow2_def Let_def)

section \<open>The ring buffer and its two threads\<close>

record 'a spsc =
  sq_capacity :: u64
  sq_mask :: u64
  sq_buffer :: "nat \<Rightarrow> 'a option"
  sq_head :: u64
  sq_tail :: u64

definition spsc_new :: "u64 \<Rightarrow> 'a spsc" where
  "spsc_new capacity =
     \<lparr>sq_capacity = round_up_pow2 capacity, sq_mask = round_up_pow2 capacity - 1,
      sq_buffer = (\<lambda>_. None), sq_head = 0, sq_tail = 0\<rparr>"

definition spsc_slot :: "'a spsc \<Rightarrow> u64 \<Rightarrow> nat" where
  "spsc_slot q i = unat (i AND sq_mask q)"

definition spsc_size :: "'a spsc \<Rightarrow> u64" where
  "spsc_size q = sq_head q - sq_tail q"

definition spsc_empty :: "'a spsc \<Rightarrow> bool" where
  "spsc_empty q \<longleftrightarrow> sq_tail q \<ge> sq_head q"

text \<open>The program counters: one between each two atomic accesses of \<open>push\<close> and of \<open>pop\<close>.\<close>

datatype 'a producer_pc =
    P_Idle
  | P_Head 'a u64       \<comment> \<open>\<open>h\<close> loaded\<close>
  | P_Room 'a u64       \<comment> \<open>the tail was loaded and there is room\<close>
  | P_Written 'a u64    \<comment> \<open>the element is constructed, the head not yet stored\<close>

datatype 'a consumer_pc =
    C_Idle
  | C_Tail u64          \<comment> \<open>\<open>t\<close> loaded\<close>
  | C_Some u64          \<comment> \<open>the head was loaded and there is an element\<close>
  | C_Taken u64 'a      \<comment> \<open>moved out and destroyed, the tail not yet stored\<close>
  | C_Fault             \<comment> \<open>raw storage was read\<close>

record 'a spsc_sys =
  ring :: "'a spsc"
  producer :: "'a producer_pc"
  consumer :: "'a consumer_pc"
  pushed :: "'a list"   \<comment> \<open>ghost: the pushes that returned true\<close>
  popped :: "'a list"   \<comment> \<open>ghost: the pops that returned true\<close>

inductive spsc_step :: "'a spsc_sys \<Rightarrow> 'a spsc_sys \<Rightarrow> bool" where
  push_head: "producer s = P_Idle \<Longrightarrow> spsc_step s (s\<lparr>producer := P_Head x (sq_head (ring s))\<rparr>)"
| push_full: "producer s = P_Head x h \<Longrightarrow> h - sq_tail (ring s) \<ge> sq_capacity (ring s) \<Longrightarrow>
    spsc_step s (s\<lparr>producer := P_Idle\<rparr>)"
| push_room: "producer s = P_Head x h \<Longrightarrow> \<not> h - sq_tail (ring s) \<ge> sq_capacity (ring s) \<Longrightarrow>
    spsc_step s (s\<lparr>producer := P_Room x h\<rparr>)"
| push_construct: "producer s = P_Room x h \<Longrightarrow>
    spsc_step s (s\<lparr>ring := (ring s)\<lparr>sq_buffer :=
        (sq_buffer (ring s))(spsc_slot (ring s) h := Some x)\<rparr>, producer := P_Written x h\<rparr>)"
| push_store: "producer s = P_Written x h \<Longrightarrow>
    spsc_step s (s\<lparr>ring := (ring s)\<lparr>sq_head := h + 1\<rparr>, producer := P_Idle,
      pushed := pushed s @ [x]\<rparr>)"
| pop_tail: "consumer s = C_Idle \<Longrightarrow> spsc_step s (s\<lparr>consumer := C_Tail (sq_tail (ring s))\<rparr>)"
| pop_empty: "consumer s = C_Tail t \<Longrightarrow> t \<ge> sq_head (ring s) \<Longrightarrow> spsc_step s (s\<lparr>consumer := C_Idle\<rparr>)"
| pop_some: "consumer s = C_Tail t \<Longrightarrow> \<not> t \<ge> sq_head (ring s) \<Longrightarrow>
    spsc_step s (s\<lparr>consumer := C_Some t\<rparr>)"
| pop_move: "consumer s = C_Some t \<Longrightarrow> sq_buffer (ring s) (spsc_slot (ring s) t) = Some x \<Longrightarrow>
    spsc_step s (s\<lparr>ring := (ring s)\<lparr>sq_buffer :=
        (sq_buffer (ring s))(spsc_slot (ring s) t := None)\<rparr>, consumer := C_Taken t x\<rparr>)"
| pop_raw: "consumer s = C_Some t \<Longrightarrow> sq_buffer (ring s) (spsc_slot (ring s) t) = None \<Longrightarrow>
    spsc_step s (s\<lparr>consumer := C_Fault\<rparr>)"
| pop_store: "consumer s = C_Taken t x \<Longrightarrow>
    spsc_step s (s\<lparr>ring := (ring s)\<lparr>sq_tail := t + 1\<rparr>, consumer := C_Idle,
      popped := popped s @ [x]\<rparr>)"

definition spsc_init :: "u64 \<Rightarrow> 'a spsc_sys" where
  "spsc_init capacity =
     \<lparr>ring = spsc_new capacity, producer = P_Idle, consumer = C_Idle, pushed = [], popped = []\<rparr>"

inductive spsc_reachable :: "u64 \<Rightarrow> 'a spsc_sys \<Rightarrow> bool" for capacity :: u64 where
  start: "spsc_reachable capacity (spsc_init capacity)"
| step: "spsc_reachable capacity s \<Longrightarrow> spsc_step s s' \<Longrightarrow> spsc_reachable capacity s'"

section \<open>The invariant\<close>

text \<open>
  \<open>window c B lo xs\<close>: the elements numbered \<open>lo\<close> onwards of the history \<open>xs\<close> are constructed
  in the slots \<open>n mod c\<close> and every other slot is raw.
\<close>

definition window :: "nat \<Rightarrow> (nat \<Rightarrow> 'a option) \<Rightarrow> nat \<Rightarrow> 'a list \<Rightarrow> bool" where
  "window c B lo xs \<longleftrightarrow> lo \<le> length xs \<and> length xs \<le> lo + c \<and>
     (\<forall>n. lo \<le> n \<and> n < length xs \<longrightarrow> B (n mod c) = Some (xs ! n)) \<and>
     (\<forall>n. length xs \<le> n \<and> n < lo + c \<longrightarrow> B (n mod c) = None)"

lemma mod_eq_close:
  "(m::nat) mod c = n mod c \<Longrightarrow> m \<le> n \<Longrightarrow> n < m + c \<Longrightarrow> m = n"
  by (metis add_diff_inverse_nat add_left_cancel dvd_imp_le le_add_diff_inverse mod_eq_dvd_iff_nat
      nat_add_left_cancel_less not_le not_less zero_less_diff le_neq_implies_less diff_is_0_eq)

lemma window_append:
  assumes "window c B lo xs" and "length xs < lo + c"
  shows "window c (B(length xs mod c := Some x)) lo (xs @ [x])"
proof -
  have "n mod c \<noteq> length xs mod c" if "lo \<le> n" "n < length xs" for n
    using mod_eq_close [of n c "length xs"] that assms(2) by auto
  moreover have "n mod c \<noteq> length xs mod c" if "length xs < n" "n < lo + c" for n
    using mod_eq_close [of "length xs" c n] that assms by (auto simp: window_def)
  ultimately show ?thesis
    using assms by (auto simp: window_def nth_append less_Suc_eq)
qed

lemma window_take:
  assumes "window c B lo xs" and "lo < length xs"
  shows "window c (B(lo mod c := None)) (Suc lo) xs"
proof -
  have "n mod c \<noteq> lo mod c" if "lo < n" "n < lo + c" for n
    using mod_eq_close [of lo c n] that by auto
  then show ?thesis using assms by (auto simp: window_def less_Suc_eq)
qed

lemma window_first: "window c B lo xs \<Longrightarrow> lo < length xs \<Longrightarrow> B (lo mod c) = Some (xs ! lo)"
  by (simp add: window_def)

definition in_flight :: "'a producer_pc \<Rightarrow> 'a list" where
  "in_flight p = (case p of P_Written x h \<Rightarrow> [x] | _ \<Rightarrow> [])"

definition taken :: "'a consumer_pc \<Rightarrow> 'a list" where
  "taken c = (case c of C_Taken t x \<Rightarrow> [x] | _ \<Rightarrow> [])"

text \<open>What a thread's local variables say: \<open>room\<close> and \<open>some\<close> are the tests it passed.\<close>

fun producer_ok :: "u64 \<Rightarrow> bool \<Rightarrow> 'a producer_pc \<Rightarrow> bool" where
  "producer_ok head room P_Idle = True"
| "producer_ok head room (P_Head x h) = (h = head)"
| "producer_ok head room (P_Room x h) = (h = head \<and> room)"
| "producer_ok head room (P_Written x h) = (h = head)"

fun consumer_ok :: "u64 \<Rightarrow> bool \<Rightarrow> 'a consumer_pc \<Rightarrow> bool" where
  "consumer_ok tail some C_Idle = True"
| "consumer_ok tail some (C_Tail t) = (t = tail)"
| "consumer_ok tail some (C_Some t) = (t = tail \<and> some)"
| "consumer_ok tail some (C_Taken t x) = (t = tail \<and> some)"
| "consumer_ok tail some C_Fault = False"

lemma consumer_ok_mono: "consumer_ok t b c \<Longrightarrow> (b \<Longrightarrow> b') \<Longrightarrow> consumer_ok t b' c"
  by (cases c) auto

lemma producer_ok_mono: "producer_ok h b p \<Longrightarrow> (b \<Longrightarrow> b') \<Longrightarrow> producer_ok h b' p"
  by (cases p) auto

definition spsc_inv :: "nat \<Rightarrow> 'a spsc_sys \<Rightarrow> bool" where
  "spsc_inv k s \<longleftrightarrow> k < 64 \<and> sq_capacity (ring s) = 2 ^ k \<and> sq_mask (ring s) = 2 ^ k - 1 \<and>
     unat (sq_head (ring s)) = length (pushed s) \<and> unat (sq_tail (ring s)) = length (popped s) \<and>
     take (length (popped s @ taken (consumer s))) (pushed s) = popped s @ taken (consumer s) \<and>
     window (2 ^ k) (sq_buffer (ring s)) (length (popped s @ taken (consumer s)))
       (pushed s @ in_flight (producer s)) \<and>
     length (pushed s @ in_flight (producer s)) \<le> length (popped s) + 2 ^ k \<and>
     producer_ok (sq_head (ring s)) (length (pushed s) < length (popped s) + 2 ^ k) (producer s) \<and>
     consumer_ok (sq_tail (ring s)) (length (popped s) < length (pushed s)) (consumer s)"

lemma unat_and_pow2:
  "k < 64 \<Longrightarrow> unat ((x :: u64) AND (2 ^ k - 1)) = unat x mod 2 ^ k"
  by (simp add: unsigned_take_bit_eq flip: mask_eq_exp_minus_1 take_bit_eq_mask take_bit_eq_mod)

lemma spsc_slot_mod:
  "k < 64 \<Longrightarrow> sq_mask q = 2 ^ k - 1 \<Longrightarrow> spsc_slot q i = unat i mod 2 ^ k"
  by (simp add: spsc_slot_def unat_and_pow2)

lemma unat_Suc_u64: "unat (x :: u64) = n \<Longrightarrow> n + 1 < 2 ^ 64 \<Longrightarrow> unat (x + 1) = Suc n"
  by (subst unat_add_no_wrap) simp_all

lemma spsc_inv_pushes:
  assumes "spsc_inv k s"
  shows "length (popped s @ taken (consumer s)) \<le> length (pushed s)"
proof -
  have "take (length (popped s @ taken (consumer s))) (pushed s) = popped s @ taken (consumer s)"
    using assms unfolding spsc_inv_def by blast
  then show ?thesis by (metis length_take min.cobounded1)
qed

text \<open>One lemma per step that moves a pointer or touches the storage.\<close>

lemma spsc_inv_room:
  assumes "spsc_inv k s" and "producer s = P_Head x h"
    and "\<not> h - sq_tail (ring s) \<ge> sq_capacity (ring s)"
  shows "length (pushed s) < length (popped s) + 2 ^ k"
proof -
  have k: "k < 64" and h: "unat h = length (pushed s)" and c: "sq_capacity (ring s) = 2 ^ k"
    and t: "unat (sq_tail (ring s)) = length (popped s)"
    using assms(1,2) by (auto simp: spsc_inv_def)
  have le: "length (popped s) \<le> length (pushed s)" using spsc_inv_pushes [OF assms(1)] by simp
  then have "unat (h - sq_tail (ring s)) = length (pushed s) - length (popped s)"
    using h t by (subst unat_sub) (simp_all add: word_le_nat_alt)
  moreover have "unat (h - sq_tail (ring s)) < 2 ^ k"
    using assms(3) k c by (simp add: word_to_nat not_le unat_two_power)
  ultimately show ?thesis by linarith
qed

lemma spsc_inv_construct:
  assumes inv: "spsc_inv k s" and p: "producer s = P_Room x h"
  shows "spsc_inv k (s\<lparr>ring := (ring s)\<lparr>sq_buffer :=
        (sq_buffer (ring s))(spsc_slot (ring s) h := Some x)\<rparr>, producer := P_Written x h\<rparr>)"
proof -
  have h: "spsc_slot (ring s) h = length (pushed s) mod 2 ^ k"
    using inv p by (auto simp: spsc_inv_def spsc_slot_mod)
  have "length (pushed s) < length (popped s) + 2 ^ k" using inv p by (simp add: spsc_inv_def)
  moreover have "window (2 ^ k) (sq_buffer (ring s)) (length (popped s @ taken (consumer s))) (pushed s)"
    using inv p by (simp add: spsc_inv_def in_flight_def)
  ultimately have "window (2 ^ k) ((sq_buffer (ring s))(spsc_slot (ring s) h := Some x))
      (length (popped s @ taken (consumer s))) (pushed s @ [x])"
    unfolding h by (intro window_append) simp_all
  then show ?thesis using inv p by (simp add: spsc_inv_def in_flight_def)
qed

lemma spsc_inv_push_store:
  assumes inv: "spsc_inv k s" and p: "producer s = P_Written x h" and "length (pushed s) + 1 < 2 ^ 64"
  shows "spsc_inv k (s\<lparr>ring := (ring s)\<lparr>sq_head := h + 1\<rparr>, producer := P_Idle,
      pushed := pushed s @ [x]\<rparr>)"
proof -
  have "unat (h + 1) = Suc (length (pushed s))"
    using inv p assms(3) by (intro unat_Suc_u64) (auto simp: spsc_inv_def)
  moreover have "take (length (popped s @ taken (consumer s))) (pushed s @ [x])
      = take (length (popped s @ taken (consumer s))) (pushed s)"
    using spsc_inv_pushes [OF inv] by simp
  moreover have "consumer_ok (sq_tail (ring s)) (length (popped s) < Suc (length (pushed s))) (consumer s)"
    using inv by (auto simp: spsc_inv_def elim: consumer_ok_mono)
  ultimately show ?thesis using inv p by (simp add: spsc_inv_def in_flight_def)
qed

lemma spsc_inv_some:
  assumes "spsc_inv k s" and "consumer s = C_Tail t" and "\<not> t \<ge> sq_head (ring s)"
  shows "length (popped s) < length (pushed s)"
  using assms by (auto simp: spsc_inv_def word_to_nat)

lemma spsc_inv_front:
  assumes inv: "spsc_inv k s" and c: "consumer s = C_Some t"
  shows "sq_buffer (ring s) (spsc_slot (ring s) t) = Some (pushed s ! length (popped s))"
proof -
  have t: "spsc_slot (ring s) t = length (popped s) mod 2 ^ k"
    using inv c by (auto simp: spsc_inv_def spsc_slot_mod)
  have l: "length (popped s) < length (pushed s)" using inv c by (simp add: spsc_inv_def)
  have "window (2 ^ k) (sq_buffer (ring s)) (length (popped s)) (pushed s @ in_flight (producer s))"
    using inv c by (simp add: spsc_inv_def taken_def)
  from window_first [OF this] l show ?thesis unfolding t by (simp add: nth_append)
qed

lemma spsc_inv_move:
  assumes inv: "spsc_inv k s" and c: "consumer s = C_Some t"
    and x: "sq_buffer (ring s) (spsc_slot (ring s) t) = Some x"
  shows "spsc_inv k (s\<lparr>ring := (ring s)\<lparr>sq_buffer :=
        (sq_buffer (ring s))(spsc_slot (ring s) t := None)\<rparr>, consumer := C_Taken t x\<rparr>)"
proof -
  have t: "spsc_slot (ring s) t = length (popped s) mod 2 ^ k"
    using inv c by (auto simp: spsc_inv_def spsc_slot_mod)
  have l: "length (popped s) < length (pushed s)" using inv c by (simp add: spsc_inv_def)
  have pop: "take (length (popped s)) (pushed s) = popped s"
    using inv c by (simp add: spsc_inv_def taken_def)
  have "x = pushed s ! length (popped s)" using spsc_inv_front [OF inv c] x by simp
  then have "take (Suc (length (popped s))) (pushed s) = popped s @ [x]"
    using l pop by (metis take_Suc_conv_app_nth)
  moreover have "window (2 ^ k) ((sq_buffer (ring s))(spsc_slot (ring s) t := None))
      (Suc (length (popped s))) (pushed s @ in_flight (producer s))"
    unfolding t using inv c l by (intro window_take) (simp_all add: spsc_inv_def taken_def)
  ultimately show ?thesis using inv c l by (simp add: spsc_inv_def taken_def)
qed

lemma spsc_inv_pop_store:
  assumes inv: "spsc_inv k s" and c: "consumer s = C_Taken t x"
  shows "spsc_inv k (s\<lparr>ring := (ring s)\<lparr>sq_tail := t + 1\<rparr>, consumer := C_Idle,
      popped := popped s @ [x]\<rparr>)"
proof -
  have l: "length (popped s) < length (pushed s)" using inv c by (simp add: spsc_inv_def)
  have "unat (sq_head (ring s)) < 2 ^ 64" by (rule unat_u64_bound)
  then have "unat (t + 1) = Suc (length (popped s))"
    using inv c l by (intro unat_Suc_u64) (auto simp: spsc_inv_def)
  moreover have "length (pushed s @ in_flight (producer s)) \<le> Suc (length (popped s)) + 2 ^ k"
    using inv by (simp add: spsc_inv_def)
  moreover have "producer_ok (sq_head (ring s)) (length (pushed s) < Suc (length (popped s) + 2 ^ k)) (producer s)"
    using inv by (auto simp: spsc_inv_def elim: producer_ok_mono)
  ultimately show ?thesis using inv c by (simp add: spsc_inv_def taken_def)
qed

lemma spsc_step_inv:
  assumes "spsc_step s s'" and inv: "spsc_inv k s" and "length (pushed s') < 2 ^ 64"
  shows "spsc_inv k s'"
  using assms(1)
proof cases
  case (push_room x h)
  then show ?thesis using inv spsc_inv_room [OF inv push_room(2,3)]
    by (simp add: spsc_inv_def in_flight_def)
next
  case (push_construct x h)
  then show ?thesis using spsc_inv_construct [OF inv push_construct(2)] by simp
next
  case (push_store x h)
  then show ?thesis using spsc_inv_push_store [OF inv push_store(2)] assms(3) by simp
next
  case (pop_some t)
  then show ?thesis using inv spsc_inv_some [OF inv pop_some(2,3)]
    by (simp add: spsc_inv_def taken_def)
next
  case (pop_move t x)
  then show ?thesis using spsc_inv_move [OF inv pop_move(2,3)] by simp
next
  case (pop_raw t)
  then show ?thesis using spsc_inv_front [OF inv pop_raw(2)] by simp
next
  case (pop_store t x)
  then show ?thesis using spsc_inv_pop_store [OF inv pop_store(2)] by simp
qed (use inv in \<open>simp_all add: spsc_inv_def in_flight_def taken_def\<close>)

lemma spsc_step_pushed: "spsc_step s s' \<Longrightarrow> length (pushed s) \<le> length (pushed s')"
  by (cases rule: spsc_step.cases) auto

lemma spsc_init_inv:
  assumes "0 < capacity" and "unat capacity \<le> 2 ^ 63"
  shows "\<exists>k. spsc_inv k (spsc_init capacity)"
proof -
  obtain k where k: "k \<le> 63" "unat (round_up_pow2 capacity) = 2 ^ k"
    using pow2_bound_exists [OF assms] by blast
  then have "round_up_pow2 capacity = 2 ^ k" by (intro word_unat_eq_iff [THEN iffD2]) (simp add: unat_two_power)
  with k have "spsc_inv k (spsc_init capacity)"
    by (simp add: spsc_inv_def spsc_init_def spsc_new_def in_flight_def taken_def window_def)
  then show ?thesis ..
qed

lemma spsc_reachable_inv:
  fixes s :: "'a spsc_sys"
  assumes "spsc_reachable capacity s" and "spsc_inv k (spsc_init capacity :: 'a spsc_sys)"
    and "length (pushed s) < 2 ^ 64"
  shows "spsc_inv k s"
  using assms(1,3)
proof induction
  case start
  then show ?case using assms(2) by simp
next
  case (step s s')
  then show ?case using spsc_step_inv spsc_step_pushed by (metis le_less_trans)
qed

text \<open>
  C34: in every interleaving of one producer and one consumer, up to \<open>2^64\<close> pushes, what was
  popped is a prefix of what was pushed, in order; no pop reads a raw slot; no push constructs
  over a live element; and at most \<open>capacity\<close> elements are in the ring.
\<close>

theorem spsc_fifo:
  assumes "spsc_reachable capacity s" and "0 < capacity" and "unat capacity \<le> 2 ^ 63"
    and "length (pushed s) < 2 ^ 64"
  shows "popped s = take (length (popped s)) (pushed s) \<and> consumer s \<noteq> C_Fault \<and>
    length (pushed s) - length (popped s) \<le> unat (sq_capacity (ring s)) \<and>
    (\<forall>x h. producer s = P_Room x h \<longrightarrow>
       sq_buffer (ring s) (spsc_slot (ring s) h) = None)"
proof -
  obtain k where inv: "spsc_inv k s" using spsc_reachable_inv spsc_init_inv assms by blast
  have "popped s = take (length (popped s)) (pushed s)"
    using inv by (simp add: spsc_inv_def) (metis append_eq_conv_conj append_take_drop_id
        length_append append.assoc)
  moreover have "consumer s \<noteq> C_Fault" using inv by (auto simp: spsc_inv_def)
  moreover have "length (pushed s) - length (popped s) \<le> unat (sq_capacity (ring s))"
  proof -
    have "length (pushed s) \<le> length (popped s) + 2 ^ k" and "unat (sq_capacity (ring s)) = 2 ^ k"
      using inv by (simp_all add: spsc_inv_def unat_two_power)
    then show ?thesis by linarith
  qed
  moreover have "sq_buffer (ring s) (spsc_slot (ring s) h) = None" if "producer s = P_Room x h" for x h
  proof -
    have "window (2 ^ k) (sq_buffer (ring s)) (length (popped s @ taken (consumer s))) (pushed s)"
      and "length (pushed s) < length (popped s) + 2 ^ k"
      and "spsc_slot (ring s) h = length (pushed s) mod 2 ^ k"
      using inv that by (auto simp: spsc_inv_def in_flight_def spsc_slot_mod)
    then show ?thesis by (simp add: window_def)
  qed
  ultimately show ?thesis by blast
qed

theorem spsc_fifo_witness:
  "\<exists>s. spsc_reachable 2 s \<and> pushed s = [True] \<and> popped s = [True] \<and> consumer s = C_Idle"
proof -
  let ?q0 = "spsc_init 2 :: bool spsc_sys"
  let ?q1 = "?q0\<lparr>producer := P_Head True (sq_head (ring ?q0))\<rparr>"
  let ?q2 = "?q1\<lparr>producer := P_Room True 0\<rparr>"
  let ?q3 = "?q2\<lparr>ring := (ring ?q2)\<lparr>sq_buffer :=
        (sq_buffer (ring ?q2))(spsc_slot (ring ?q2) 0 := Some True)\<rparr>, producer := P_Written True 0\<rparr>"
  let ?q4 = "?q3\<lparr>ring := (ring ?q3)\<lparr>sq_head := 0 + 1\<rparr>, producer := P_Idle, pushed := pushed ?q3 @ [True]\<rparr>"
  let ?q5 = "?q4\<lparr>consumer := C_Tail (sq_tail (ring ?q4))\<rparr>"
  let ?q6 = "?q5\<lparr>consumer := C_Some 0\<rparr>"
  let ?q7 = "?q6\<lparr>ring := (ring ?q6)\<lparr>sq_buffer :=
        (sq_buffer (ring ?q6))(spsc_slot (ring ?q6) 0 := None)\<rparr>, consumer := C_Taken 0 True\<rparr>"
  let ?q8 = "?q7\<lparr>ring := (ring ?q7)\<lparr>sq_tail := 0 + 1\<rparr>, consumer := C_Idle, popped := popped ?q7 @ [True]\<rparr>"
  have cap: "round_up_pow2 2 = 2" by (simp add: round_up_pow2_def Let_def)
  note new = spsc_init_def spsc_new_def cap
  have "spsc_step ?q0 ?q1" by (rule push_head) (simp add: spsc_init_def)
  then have r1: "spsc_reachable 2 ?q1" by (rule spsc_reachable.step [OF spsc_reachable.start])
  have "spsc_step ?q1 ?q2" by (rule push_room) (simp_all add: new)
  with r1 have r2: "spsc_reachable 2 ?q2" by (rule spsc_reachable.step)
  have "spsc_step ?q2 ?q3" by (rule push_construct) simp
  with r2 have r3: "spsc_reachable 2 ?q3" by (rule spsc_reachable.step)
  have "spsc_step ?q3 ?q4" by (rule push_store) simp
  with r3 have r4: "spsc_reachable 2 ?q4" by (rule spsc_reachable.step)
  have "spsc_step ?q4 ?q5" by (rule pop_tail) (simp add: new)
  with r4 have r5: "spsc_reachable 2 ?q5" by (rule spsc_reachable.step)
  have "spsc_step ?q5 ?q6" by (rule pop_some) (simp_all add: new)
  with r5 have r6: "spsc_reachable 2 ?q6" by (rule spsc_reachable.step)
  have "spsc_step ?q6 ?q7" by (rule pop_move) (simp_all add: new spsc_slot_def)
  with r6 have r7: "spsc_reachable 2 ?q7" by (rule spsc_reachable.step)
  have "spsc_step ?q7 ?q8" by (rule pop_store) simp
  with r7 have r8: "spsc_reachable 2 ?q8" by (rule spsc_reachable.step)
  have "popped ?q8 = take (length (popped ?q8)) (pushed ?q8)" using spsc_fifo [OF r8] by (simp add: new)
  then have "pushed ?q8 = [True] \<and> popped ?q8 = [True] \<and> consumer ?q8 = C_Idle" by (simp add: new)
  with r8 show ?thesis by blast
qed

section \<open>The spin lock\<close>

datatype spin_pc = Outside | Exchanging | Spinning | Holding

record spin_sys =
  spin_flag :: bool
  spin_pcs :: "nat \<Rightarrow> spin_pc"

inductive spin_step :: "spin_sys \<Rightarrow> spin_sys \<Rightarrow> bool" where
  spin_lock: "spin_pcs s t = Outside \<Longrightarrow> spin_step s (s\<lparr>spin_pcs := (spin_pcs s)(t := Exchanging)\<rparr>)"
| spin_win: "spin_pcs s t = Exchanging \<Longrightarrow> \<not> spin_flag s \<Longrightarrow>
    spin_step s (s\<lparr>spin_flag := True, spin_pcs := (spin_pcs s)(t := Holding)\<rparr>)"
| spin_lose: "spin_pcs s t = Exchanging \<Longrightarrow> spin_flag s \<Longrightarrow>
    spin_step s (s\<lparr>spin_flag := True, spin_pcs := (spin_pcs s)(t := Spinning)\<rparr>)"
| spin_again: "spin_pcs s t = Spinning \<Longrightarrow> spin_flag s \<Longrightarrow> spin_step s s"
| spin_free: "spin_pcs s t = Spinning \<Longrightarrow> \<not> spin_flag s \<Longrightarrow>
    spin_step s (s\<lparr>spin_pcs := (spin_pcs s)(t := Exchanging)\<rparr>)"
| spin_try_win: "spin_pcs s t = Outside \<Longrightarrow> \<not> spin_flag s \<Longrightarrow>
    spin_step s (s\<lparr>spin_flag := True, spin_pcs := (spin_pcs s)(t := Holding)\<rparr>)"
| spin_try_lose: "spin_pcs s t = Outside \<Longrightarrow> spin_flag s \<Longrightarrow> spin_step s (s\<lparr>spin_flag := True\<rparr>)"
| spin_unlock: "spin_pcs s t = Holding \<Longrightarrow>
    spin_step s (s\<lparr>spin_flag := False, spin_pcs := (spin_pcs s)(t := Outside)\<rparr>)"

inductive spin_reachable :: "spin_sys \<Rightarrow> bool" where
  spin_start: "spin_reachable \<lparr>spin_flag = False, spin_pcs = (\<lambda>_. Outside)\<rparr>"
| spin_next: "spin_reachable s \<Longrightarrow> spin_step s s' \<Longrightarrow> spin_reachable s'"

lemma spin_inv:
  "spin_reachable s \<Longrightarrow> (\<forall>t. spin_pcs s t = Holding \<longrightarrow> spin_flag s) \<and>
     (\<forall>t u. spin_pcs s t = Holding \<longrightarrow> spin_pcs s u = Holding \<longrightarrow> t = u)"
proof (induction rule: spin_reachable.induct)
  case spin_start
  then show ?case by simp
next
  case (spin_next s s')
  from spin_next(2,3) show ?case by (cases rule: spin_step.cases) (auto split: if_splits)
qed

text \<open>
  The spin lock is mutually exclusive: in every interleaving of any number of threads in
  \<open>lock\<close>, \<open>try_lock\<close> and \<open>unlock\<close>, at most one thread holds it, and the flag is set while one does.
\<close>

theorem spin_mutual_exclusion:
  assumes "spin_reachable s" and "spin_pcs s t = Holding" and "spin_pcs s u = Holding"
  shows "t = u \<and> spin_flag s"
  using spin_inv [OF assms(1)] assms(2,3) by blast

theorem spin_mutual_exclusion_witness:
  "\<exists>s. spin_reachable s \<and> spin_pcs s 3 = Holding \<and> (\<forall>u. spin_pcs s u = Holding \<longrightarrow> 3 = u)"
proof -
  let ?s = "\<lparr>spin_flag = False, spin_pcs = (\<lambda>_. Outside)\<rparr>"
  let ?s' = "?s\<lparr>spin_flag := True, spin_pcs := (spin_pcs ?s)(3 := Holding)\<rparr>"
  have "spin_step ?s ?s'" by (rule spin_try_win) simp_all
  then have r: "spin_reachable ?s'" by (rule spin_next [OF spin_start])
  have h: "spin_pcs ?s' 3 = Holding" by simp
  from r h spin_mutual_exclusion [OF r h] show ?thesis by blast
qed

section \<open>The per-thread counter\<close>

text \<open>\<open>NUM_THREADS\<close> is 64; the deltas are \<open>int64_t\<close>, kept as their 64-bit patterns.\<close>

definition counter_new :: "u64 list" where
  "counter_new = replicate 64 0"

definition counter_add :: "u32 \<Rightarrow> u64 \<Rightarrow> u64 list \<Rightarrow> u64 list" where
  "counter_add thread_id delta slots =
     (let idx = unat (thread_id AND (64 - 1)) in slots[idx := slots ! idx + delta])"

definition counter_total :: "u64 list \<Rightarrow> u64" where
  "counter_total slots = fold (\<lambda>i s. s + slots ! i) [0..<64] 0"

definition counter_reset :: "u64 list \<Rightarrow> u64 list" where
  "counter_reset slots = fold (\<lambda>i xs. xs[i := 0]) [0..<64] slots"

lemma fold_plus_acc: "fold (\<lambda>i s. s + f i) is a = a + sum_list (map f is)" for a :: "'b::comm_monoid_add"
  by (induction "is" arbitrary: a) (simp_all add: add.assoc add.commute add.left_commute)

lemma counter_total_sum: "length slots = 64 \<Longrightarrow> counter_total slots = sum_list slots"
  unfolding counter_total_def fold_plus_acc by (metis add_0 map_nth)

lemma sum_list_update_word:
  "i < length xs \<Longrightarrow> sum_list (xs[i := xs ! i + d]) = sum_list xs + (d :: u64)"
  by (induction xs arbitrary: i) (auto simp: add_ac split: nat.split)

lemma counter_idx: "unat (thread_id AND (64 - 1) :: u32) < 64"
  using word_and_le1 [of thread_id "64 - 1 :: u32"] by (simp add: word_le_nat_alt)

text \<open>
  \<open>total\<close> is the sum, modulo \<open>2^64\<close>, of all deltas added since construction, whatever
  thread ids they were added under (negative ones included).
\<close>

theorem counter_total_adds:
  "counter_total (fold (\<lambda>(t, d). counter_add t d) ops counter_new) = sum_list (map snd ops)"
proof -
  have "length (fold (\<lambda>(t, d). counter_add t d) ops slots) = 64 \<and>
      sum_list (fold (\<lambda>(t, d). counter_add t d) ops slots) = sum_list slots + sum_list (map snd ops)"
    if "length slots = 64" for slots
    using that
  proof (induction ops arbitrary: slots)
    case (Cons op ops)
    then show ?case using counter_idx [of "fst op"]
      by (simp add: counter_add_def Let_def sum_list_update_word add.assoc split_beta)
  qed simp
  from this [of counter_new] show ?thesis by (simp add: counter_total_sum counter_new_def sum_list_replicate)
qed

end
