(* ===== verification/Array_Ops.thy ===== *)
theory Array_Ops
  imports Prelude
begin

text \<open>
  \<open>memcpy\<close> and \<open>memset\<close> on arrays modelled as lists, \<open>None\<close> where the C++ call would leave
  an array; loops that may fail; and the view of a flat array as rows of \<open>d\<close> elements,
  which is how the caches of \<open>src/model/kv_cache.cpp\<close> use their buffers.
\<close>

section \<open>Copying\<close>

definition memcpy :: "'a list \<Rightarrow> nat \<Rightarrow> 'a list \<Rightarrow> nat \<Rightarrow> nat \<Rightarrow> 'a list option" where
  "memcpy dst doff src soff n =
     (if doff + n \<le> length dst \<and> soff + n \<le> length src
      then Some (take doff dst @ take n (drop soff src) @ drop (doff + n) dst) else None)"

definition memset :: "'a list \<Rightarrow> nat \<Rightarrow> 'a \<Rightarrow> nat \<Rightarrow> 'a list option" where
  "memset dst doff x n =
     (if doff + n \<le> length dst
      then Some (take doff dst @ replicate n x @ drop (doff + n) dst) else None)"

lemma memcpy_length: "memcpy dst doff src soff n = Some dst' \<Longrightarrow> length dst' = length dst"
  by (auto simp: memcpy_def split: if_splits)

lemma memset_length: "memset dst doff x n = Some dst' \<Longrightarrow> length dst' = length dst"
  by (auto simp: memset_def split: if_splits)

lemma memset_memcpy: "memset dst doff x n = memcpy dst doff (replicate n x) 0 n"
  by (simp add: memset_def memcpy_def)

lemma memcpy_nth:
  "memcpy dst doff src soff n = Some dst' \<Longrightarrow> i < length dst \<Longrightarrow>
   dst' ! i = (if doff \<le> i \<and> i < doff + n then src ! (soff + (i - doff)) else dst ! i)"
  by (auto simp: memcpy_def nth_append min.absorb1 min.absorb2 split: if_splits)

section \<open>Loops that may fail\<close>

fun fold_option :: "('a \<Rightarrow> 'b \<Rightarrow> 'b option) \<Rightarrow> 'a list \<Rightarrow> 'b \<Rightarrow> 'b option" where
  "fold_option f [] s = Some s"
| "fold_option f (x # xs) s = Option.bind (f x s) (fold_option f xs)"

lemma fold_option_append:
  "fold_option f (xs @ ys) s = Option.bind (fold_option f xs s) (fold_option f ys)"
proof (induction xs arbitrary: s)
  case (Cons x xs)
  then show ?case by (cases "f x s") simp_all
qed simp

lemma fold_option_concat:
  "fold_option (\<lambda>x. fold_option (f x) ys) xs s = fold_option (\<lambda>(x, y). f x y) (List.product xs ys) s"
proof (induction xs arbitrary: s)
  case (Cons x xs)
  have "fold_option (f x) ys s = fold_option (\<lambda>(x, y). f x y) (map (Pair x) ys) s" for s
  proof (induction ys arbitrary: s)
    case (Cons y ys)
    then show ?case by (cases "f x y s") simp_all
  qed simp
  moreover have "fold_option (\<lambda>x. fold_option (f x) ys) xs =
      fold_option (\<lambda>(x, y). f x y) (List.product xs ys)" using Cons.IH by (rule ext)
  ultimately show ?case by (simp add: fold_option_append)
qed simp

lemma fold_option_invariant:
  "fold_option f xs s = Some s' \<Longrightarrow> P s \<Longrightarrow>
   (\<And>x s s'. x \<in> set xs \<Longrightarrow> P s \<Longrightarrow> f x s = Some s' \<Longrightarrow> P s') \<Longrightarrow> P s'"
proof (induction xs arbitrary: s)
  case (Cons x xs)
  from Cons.prems(1) obtain s1 where "f x s = Some s1" "fold_option f xs s1 = Some s'"
    by (cases "f x s") simp_all
  then show ?case using Cons.IH [of s1] Cons.prems(2,3) by auto
qed simp

section \<open>Rows\<close>

definition row :: "nat \<Rightarrow> 'a list \<Rightarrow> nat \<Rightarrow> 'a list" where
  "row d buf r = take d (drop (r * d) buf)"

lemma row_bound: "r < n \<Longrightarrow> r * d + d \<le> n * (d::nat)"
  using mult_le_mono1 [of "Suc r" n d] by simp

lemma row_length: "length buf = n * d \<Longrightarrow> r < n \<Longrightarrow> length (row d buf r) = d"
  using row_bound [of r n d] by (simp add: row_def)

lemma row_nth: "length buf = n * d \<Longrightarrow> r < n \<Longrightarrow> i < d \<Longrightarrow> row d buf r ! i = buf ! (r * d + i)"
  using row_bound [of r n d] by (simp add: row_def)

lemma rows_disjoint: "r \<noteq> q \<Longrightarrow> i < d \<Longrightarrow> \<not> (q * d \<le> r * d + i \<and> r * d + i < q * d + (d::nat))"
proof (cases "r < q")
  case True
  then show "i < d \<Longrightarrow> ?thesis" using row_bound [OF True, of d] by simp
next
  case False
  assume "r \<noteq> q"
  with False have "q < r" by simp
  then show ?thesis using row_bound [of q r d] by simp
qed

lemma row_eqI:
  assumes "length a = n * d" and "length b = n * d" and "\<And>r. r < n \<Longrightarrow> row d a r = row d b r"
  shows "a = b"
proof (rule nth_equalityI)
  show "length a = length b" using assms by simp
  fix i
  assume i: "i < length a"
  then have d: "0 < d" using assms(1) by (cases d) auto
  have r: "i div d < n" using i assms(1) d by (simp add: less_mult_imp_div_less)
  have e: "i = i div d * d + i mod d" by simp
  have m: "i mod d < d" using d by simp
  have "a ! i = row d a (i div d) ! (i mod d)" using row_nth [OF assms(1) r m] e by simp
  also have "\<dots> = b ! i" using row_nth [OF assms(2) r m] e assms(3) [OF r] by simp
  finally show "a ! i = b ! i" .
qed

lemma memcpy_row_defined:
  assumes "length dst = n * d" and "length src = m * d" and "q < n" and "p < m"
  shows "\<exists>dst'. memcpy dst (q * d) src (p * d) d = Some dst' \<and> length dst' = n * d"
  using row_bound [OF assms(3), of d] row_bound [OF assms(4), of d] assms(1,2)
  by (simp add: memcpy_def)

lemma memcpy_row:
  assumes "memcpy dst (q * d) src (p * d) d = Some dst'"
    and "length dst = n * d" and "length src = m * d" and "q < n" and "p < m" and "r < n"
  shows "row d dst' r = (if r = q then row d src p else row d dst r)"
proof (rule nth_equalityI)
  have l': "length dst' = n * d" using memcpy_length [OF assms(1)] assms(2) by simp
  show "length (row d dst' r) = length (if r = q then row d src p else row d dst r)"
    using row_length [OF l' assms(6)] row_length [OF assms(2,6)] row_length [OF assms(3,5)] by simp
  fix i
  assume "i < length (row d dst' r)"
  then have i: "i < d" using row_length [OF l' assms(6)] by simp
  have b: "r * d + i < length dst" using row_bound [OF assms(6), of d] i assms(2) by simp
  show "row d dst' r ! i = (if r = q then row d src p else row d dst r) ! i"
  proof (cases "r = q")
    case True
    have "row d dst' r ! i = dst' ! (r * d + i)" by (rule row_nth [OF l' assms(6) i])
    also have "\<dots> = src ! (p * d + i)" using memcpy_nth [OF assms(1) b] i True by simp
    finally show ?thesis using True by (simp add: row_nth [OF assms(3,5) i])
  next
    case False
    then show ?thesis using memcpy_nth [OF assms(1) b] rows_disjoint [OF False i]
      by (simp add: row_nth [OF l' assms(6) i] row_nth [OF assms(2,6) i])
  qed
qed

text \<open>
  A loop that copies, for each element of its range, one row of the source to one row of the
  destination, no destination row twice.
\<close>

lemma fold_rows:
  assumes "length dst = n * d" and "length src = m * d"
    and "\<And>x. x \<in> set xs \<Longrightarrow> f x < n \<and> g x < m" and "distinct xs" and "inj_on f (set xs)"
  shows "\<exists>dst'. fold_option (\<lambda>x buf. memcpy buf (f x * d) src (g x * d) d) xs dst = Some dst' \<and>
     length dst' = n * d \<and> (\<forall>x \<in> set xs. row d dst' (f x) = row d src (g x)) \<and>
     (\<forall>r<n. r \<notin> f ` set xs \<longrightarrow> row d dst' r = row d dst r)"
  using assms
proof (induction xs arbitrary: dst)
  case (Cons x xs)
  have b: "f x < n" "g x < m" using Cons.prems(3) by auto
  obtain d1 where d1: "memcpy dst (f x * d) src (g x * d) d = Some d1" "length d1 = n * d"
    using memcpy_row_defined [OF Cons.prems(1,2) b] by blast
  have r1: "row d d1 r = (if r = f x then row d src (g x) else row d dst r)" if "r < n" for r
    using memcpy_row [OF d1(1) Cons.prems(1,2) b that] .
  have "\<exists>dst'. fold_option (\<lambda>x buf. memcpy buf (f x * d) src (g x * d) d) xs d1 = Some dst' \<and>
     length dst' = n * d \<and> (\<forall>x \<in> set xs. row d dst' (f x) = row d src (g x)) \<and>
     (\<forall>r<n. r \<notin> f ` set xs \<longrightarrow> row d dst' r = row d d1 r)"
    using Cons.prems by (intro Cons.IH [OF d1(2)]) auto
  then obtain d2 where d2: "fold_option (\<lambda>x buf. memcpy buf (f x * d) src (g x * d) d) xs d1 = Some d2"
    "length d2 = n * d" "\<forall>x \<in> set xs. row d d2 (f x) = row d src (g x)"
    "\<forall>r<n. r \<notin> f ` set xs \<longrightarrow> row d d2 r = row d d1 r" by blast
  have "f x \<notin> f ` set xs" using Cons.prems(4,5) by auto
  with d2 r1 b d1(1) show ?case by (intro exI [of _ d2]) auto
qed simp

lemma row_replicate: "r < n \<Longrightarrow> row d (replicate (n * d) x) r = replicate d x"
  using row_bound [of r n d] by (simp add: row_def)

end
