(* ===== verification/Kv_Cache.thy ===== *)
theory Kv_Cache
  imports Array_Ops
begin

text \<open>
  \<open>KVCache\<close> of \<open>src/model/kv_cache.cpp\<close> and \<open>include/quant/kv_cache.h\<close>: the flat
  key/value cache of a transformer layer, with its optional 8-bit block quantisation.
  A \<open>float\<close> is its 32-bit pattern; the arithmetic on floats the quantiser performs is the
  processor's, an argument of the definitions. \<open>None\<close> is an access outside an array.
\<close>

section \<open>Floats and the quantiser\<close>

record float_ops =
  f_abs :: "u32 \<Rightarrow> u32"
  f_less :: "u32 \<Rightarrow> u32 \<Rightarrow> bool"
  f_mul :: "u32 \<Rightarrow> u32 \<Rightarrow> u32"
  f_div :: "u32 \<Rightarrow> u32 \<Rightarrow> u32"
  f_round_i8 :: "u32 \<Rightarrow> u8"   \<comment> \<open>\<open>(uint8_t)(int8_t)std::round(q)\<close>\<close>
  f_of_i8 :: "u8 \<Rightarrow> u32"      \<comment> \<open>\<open>(float)(int8_t)\<close>\<close>

text \<open>The literals: 0.0f, 1.0f, 127.0f, -127.0f and 1e-10f.\<close>

definition f_zero :: u32 where "f_zero = 0"
definition f_one :: u32 where "f_one = 1065353216"
definition FP8_MAX :: u32 where "FP8_MAX = 1123942400"
definition FP8_MIN :: u32 where "FP8_MIN = 3271426048"
definition f_tiny :: u32 where "f_tiny = 786163455"

definition FP8_BLOCK_SIZE :: nat where
  "FP8_BLOCK_SIZE = 64"

definition f_min :: "float_ops \<Rightarrow> u32 \<Rightarrow> u32 \<Rightarrow> u32" where
  "f_min fo a b = (if f_less fo b a then b else a)"

definition f_max :: "float_ops \<Rightarrow> u32 \<Rightarrow> u32 \<Rightarrow> u32" where
  "f_max fo a b = (if f_less fo a b then b else a)"

definition quantize_fp8_block :: "float_ops \<Rightarrow> u32 list \<Rightarrow> u8 list \<times> u32" where
  "quantize_fp8_block fo src =
     (let max_abs = fold (\<lambda>x m. let a = f_abs fo x in if f_less fo m a then a else m) src f_zero
      in if f_less fo max_abs f_tiny then (replicate (length src) 0, f_one)
         else
           (let scale = f_div fo max_abs FP8_MAX;
                inv_scale = f_div fo f_one scale
            in (map (\<lambda>x. let q = f_mul fo x inv_scale;
                            q = f_max fo FP8_MIN (f_min fo FP8_MAX q)
                        in f_round_i8 fo q) src, scale)))"

definition dequantize_fp8_block :: "float_ops \<Rightarrow> u8 list \<Rightarrow> u32 \<Rightarrow> u32 list" where
  "dequantize_fp8_block fo src scale =
     (if f_less fo scale f_tiny then replicate (length src) f_zero
      else map (\<lambda>x. f_mul fo (f_of_i8 fo x) scale) src)"

section \<open>The cache\<close>

text \<open>A tensor of shape \<open>{1, num_heads, t_seq, head_dim}\<close>, its data flattened.\<close>

record tensor4 =
  t_seq :: int
  t_data :: "u32 list"

definition empty_tensor :: tensor4 where
  "empty_tensor = \<lparr>t_seq = 0, t_data = []\<rparr>"

record layer_cache =
  lc_k :: "u32 list"
  lc_v :: "u32 list"
  lc_pos :: nat
  lc_kq :: "u8 list"
  lc_vq :: "u8 list"
  lc_ks :: "u32 list"
  lc_vs :: "u32 list"

record kv_cache =
  kv_caches :: "layer_cache list"
  kv_num_layers :: nat
  kv_max :: nat
  kv_heads :: nat
  kv_dim :: nat
  kv_quantized :: bool

definition layer_default :: layer_cache where
  "layer_default = \<lparr>lc_k = [], lc_v = [], lc_pos = 0, lc_kq = [], lc_vq = [], lc_ks = [], lc_vs = []\<rparr>"

definition vec_resize :: "'a \<Rightarrow> nat \<Rightarrow> 'a list \<Rightarrow> 'a list" where
  "vec_resize x n xs = take n xs @ replicate (n - length xs) x"

definition fp8_blocks :: "nat \<Rightarrow> nat" where
  "fp8_blocks total_vals = (total_vals + FP8_BLOCK_SIZE - 1) div FP8_BLOCK_SIZE"

definition quant_resize :: "nat \<Rightarrow> layer_cache \<Rightarrow> layer_cache" where
  "quant_resize total_vals c =
     c\<lparr>lc_kq := vec_resize 0 total_vals (lc_kq c), lc_vq := vec_resize 0 total_vals (lc_vq c),
       lc_ks := vec_resize f_zero (fp8_blocks total_vals) (lc_ks c),
       lc_vs := vec_resize f_zero (fp8_blocks total_vals) (lc_vs c)\<rparr>"

definition layer_init :: "nat \<Rightarrow> nat \<Rightarrow> nat \<Rightarrow> bool \<Rightarrow> layer_cache \<Rightarrow> layer_cache" where
  "layer_init max_seq_len h d quantized c =
     (let c = c\<lparr>lc_k := replicate (h * max_seq_len * d) f_zero,
                lc_v := replicate (h * max_seq_len * d) f_zero, lc_pos := 0\<rparr>
      in if quantized then quant_resize (h * max_seq_len * d) c else c)"

definition kv_init :: "nat \<Rightarrow> nat \<Rightarrow> nat \<Rightarrow> nat \<Rightarrow> bool \<Rightarrow> kv_cache \<Rightarrow> kv_cache" where
  "kv_init num_layers max_seq_len num_heads head_dim quantized kv =
     \<lparr>kv_caches = map (layer_init max_seq_len num_heads head_dim quantized)
        (vec_resize layer_default num_layers (kv_caches kv)),
      kv_num_layers = num_layers, kv_max = max_seq_len, kv_heads = num_heads,
      kv_dim = head_dim, kv_quantized = quantized\<rparr>"

definition kv_default :: kv_cache where
  "kv_default = \<lparr>kv_caches = [], kv_num_layers = 0, kv_max = 0, kv_heads = 0, kv_dim = 0,
     kv_quantized = False\<rparr>"

definition kv_new :: "nat \<Rightarrow> nat \<Rightarrow> nat \<Rightarrow> nat \<Rightarrow> bool \<Rightarrow> kv_cache" where
  "kv_new num_layers max_seq_len num_heads head_dim quantized =
     kv_init num_layers max_seq_len num_heads head_dim quantized kv_default"

text \<open>The move constructor and assignment: the target takes the fields, the source is emptied.\<close>

definition kv_move :: "kv_cache \<Rightarrow> kv_cache \<times> kv_cache" where
  "kv_move other = (other, kv_default)"

section \<open>Appending\<close>

definition quantize_all :: "float_ops \<Rightarrow> u32 list \<Rightarrow> nat \<Rightarrow> (u8 list \<times> u32 list) option" where
  "quantize_all fo src total_vals =
     (if total_vals \<le> length src then
        (let bs = map (\<lambda>b. let start = b * FP8_BLOCK_SIZE;
                               end = min (start + FP8_BLOCK_SIZE) total_vals
                           in quantize_fp8_block fo (take (end - start) (drop start src)))
                    [0..<fp8_blocks total_vals]
         in Some (concat (map fst bs), map snd bs))
      else None)"

text \<open>The rows one unquantised append copies: \<open>s\<close> outer, \<open>hh\<close> inner.\<close>

definition copy_tokens ::
  "nat \<Rightarrow> nat \<Rightarrow> nat \<Rightarrow> nat \<Rightarrow> nat \<Rightarrow> u32 list \<Rightarrow> u32 list \<Rightarrow> u32 list option" where
  "copy_tokens h d max_seq_len pos seq_len src dst =
     fold_option (\<lambda>s. fold_option (\<lambda>hh buf.
         memcpy buf (hh * max_seq_len * d + (pos + s) * d) src (hh * seq_len * d + s * d) d)
       [0..<h]) (filter (\<lambda>s. pos + s < max_seq_len) [0..<seq_len]) dst"

text \<open>A tensor has no negative axis (\<open>t_seq\<close> is what its shape says), so clipping at 0 is not felt.\<close>

definition layer_append :: "nat \<Rightarrow> nat \<Rightarrow> nat \<Rightarrow> tensor4 \<Rightarrow> tensor4 \<Rightarrow> layer_cache \<Rightarrow> layer_cache option" where
  "layer_append h d max_seq_len k v c =
     (let pos = lc_pos c in
      if pos \<ge> max_seq_len then Some c
      else
        (let seq_len = nat (min (t_seq k) (int (max_seq_len - pos))) in
         Option.bind (copy_tokens h d max_seq_len pos seq_len (t_data k) (lc_k c)) (\<lambda>kbuf.
         Option.bind (copy_tokens h d max_seq_len pos seq_len (t_data v) (lc_v c)) (\<lambda>vbuf.
         Some (c\<lparr>lc_k := kbuf, lc_v := vbuf, lc_pos := pos + min seq_len (max_seq_len - pos)\<rparr>)))))"

definition layer_append_quant ::
  "float_ops \<Rightarrow> nat \<Rightarrow> nat \<Rightarrow> nat \<Rightarrow> tensor4 \<Rightarrow> tensor4 \<Rightarrow> layer_cache \<Rightarrow> layer_cache option" where
  "layer_append_quant fo h d max_seq_len k v c =
     (let pos = lc_pos c in
      if pos \<ge> max_seq_len then Some c
      else
        (let seq_len = nat (min (t_seq k) (int (max_seq_len - pos)));
             total_vals = h * seq_len * d in
         Option.bind (quantize_all fo (t_data k) total_vals) (\<lambda>(k_tmp, ks_tmp).
         Option.bind (quantize_all fo (t_data v) total_vals) (\<lambda>(v_tmp, vs_tmp).
         (let dst_off = pos * h * d;
              copy_n = (if dst_off + total_vals > length (lc_kq c)
                        then int (length (lc_kq c)) - int dst_off else int total_vals);
              n = nat copy_n in
          if copy_n \<le> 0 then Some c
          else
            Option.bind (memcpy (lc_kq c) dst_off k_tmp 0 n) (\<lambda>kq.
            Option.bind (memcpy (lc_vq c) dst_off v_tmp 0 n) (\<lambda>vq.
            (let scale_off = dst_off div FP8_BLOCK_SIZE in
             Option.bind (memcpy (lc_ks c) scale_off ks_tmp 0 (fp8_blocks n)) (\<lambda>ks.
             Option.bind (memcpy (lc_vs c) scale_off vs_tmp 0 (fp8_blocks n)) (\<lambda>vs.
             Some (c\<lparr>lc_kq := kq, lc_vq := vq, lc_ks := ks, lc_vs := vs,
                     lc_pos := pos + min seq_len (max_seq_len - pos)\<rparr>)))))))))))"

definition with_layer ::
  "(layer_cache \<Rightarrow> layer_cache option) \<Rightarrow> int \<Rightarrow> kv_cache \<Rightarrow> kv_cache option" where
  "with_layer f layer kv =
     (if layer < 0 \<or> length (kv_caches kv) \<le> nat layer then None
      else map_option (\<lambda>c. kv\<lparr>kv_caches := (kv_caches kv)[nat layer := c]\<rparr>)
             (f (kv_caches kv ! nat layer)))"

definition kv_append :: "float_ops \<Rightarrow> int \<Rightarrow> tensor4 \<Rightarrow> tensor4 \<Rightarrow> kv_cache \<Rightarrow> kv_cache option" where
  "kv_append fo layer k v kv =
     (if layer \<ge> int (kv_num_layers kv) then Some kv
      else with_layer
        (if kv_quantized kv then layer_append_quant fo (kv_heads kv) (kv_dim kv) (kv_max kv) k v
         else layer_append (kv_heads kv) (kv_dim kv) (kv_max kv) k v) layer kv)"

section \<open>Reading\<close>

text \<open>A row of the source below zero is outside its array, whatever its length.\<close>

definition copy_range :: "nat \<Rightarrow> nat \<Rightarrow> nat \<Rightarrow> int \<Rightarrow> nat \<Rightarrow> u32 list \<Rightarrow> u32 list option" where
  "copy_range h d max_seq_len start len src =
     fold_option (\<lambda>s. fold_option (\<lambda>hh buf.
         (if start + int s < 0 then None
          else memcpy buf (hh * len * d + s * d) src (hh * max_seq_len * d + nat (start + int s) * d) d))
       [0..<h]) (takeWhile (\<lambda>s. start + int s < int max_seq_len) [0..<len])
     (replicate (h * len * d) f_zero)"

definition read_quant ::
  "float_ops \<Rightarrow> nat \<Rightarrow> nat \<Rightarrow> nat \<Rightarrow> int \<Rightarrow> nat \<Rightarrow> u8 list \<Rightarrow> u32 list \<Rightarrow> u32 list option" where
  "read_quant fo h d max_seq_len start len qs scales =
     fold_option (\<lambda>s. fold_option (\<lambda>hh. fold_option (\<lambda>i buf.
         (let off = int (hh * max_seq_len * d) + (start + int s) * int d + int i;
              bi = nat off div FP8_BLOCK_SIZE;
              w = hh * len * d + s * d + i in
          if off < 0 \<or> length qs \<le> nat off \<or> length scales \<le> bi \<or> length buf \<le> w then None
          else Some (buf[w := f_mul fo (f_of_i8 fo (qs ! nat off)) (scales ! bi)])))
       [0..<d]) [0..<h]) (takeWhile (\<lambda>s. start + int s < int max_seq_len) [0..<len])
     (replicate (h * len * d) f_zero)"

definition range_len :: "kv_cache \<Rightarrow> int \<Rightarrow> int \<Rightarrow> int" where
  "range_len kv start end = (if end - start > int (kv_max kv) then int (kv_max kv) else end - start)"

definition kv_get_range :: "float_ops \<Rightarrow> int \<Rightarrow> int \<Rightarrow> int \<Rightarrow> kv_cache \<Rightarrow> (tensor4 \<times> tensor4) option" where
  "kv_get_range fo layer start end kv =
     (if layer \<ge> int (kv_num_layers kv) then Some (empty_tensor, empty_tensor)
      else if layer < 0 \<or> length (kv_caches kv) \<le> nat layer then None
      else
        (let c = kv_caches kv ! nat layer;
             len = range_len kv start end;
             read = (if kv_quantized kv
               then (\<lambda>(qs, ss) _. read_quant fo (kv_heads kv) (kv_dim kv) (kv_max kv) start (nat len) qs ss)
               else (\<lambda>_ src. copy_range (kv_heads kv) (kv_dim kv) (kv_max kv) start (nat len) src)) in
         Option.bind (read (lc_kq c, lc_ks c) (lc_k c)) (\<lambda>k.
         Option.bind (read (lc_vq c, lc_vs c) (lc_v c)) (\<lambda>v.
         Some (\<lparr>t_seq = len, t_data = k\<rparr>, \<lparr>t_seq = len, t_data = v\<rparr>)))))"

definition kv_get_all :: "float_ops \<Rightarrow> int \<Rightarrow> kv_cache \<Rightarrow> (tensor4 \<times> tensor4) option" where
  "kv_get_all fo layer kv =
     (if layer < 0 \<or> length (kv_caches kv) \<le> nat layer then None
      else kv_get_range fo layer 0 (int (lc_pos (kv_caches kv ! nat layer))) kv)"

definition kv_context_len :: "kv_cache \<Rightarrow> nat" where
  "kv_context_len kv = (case kv_caches kv of [] \<Rightarrow> 0 | c # cs \<Rightarrow> lc_pos c)"

definition kv_layer_context_len :: "int \<Rightarrow> kv_cache \<Rightarrow> nat" where
  "kv_layer_context_len layer kv =
     (if layer \<ge> 0 \<and> layer < int (length (kv_caches kv)) then lc_pos (kv_caches kv ! nat layer) else 0)"

definition kv_size_bytes :: "kv_cache \<Rightarrow> nat" where
  "kv_size_bytes kv =
     (\<Sum>c\<leftarrow>kv_caches kv.
        if kv_quantized kv
        then length (lc_kq c) + length (lc_vq c) + length (lc_ks c) * 4 + length (lc_vs c) * 4
        else length (lc_k c) * 4 + length (lc_v c) * 4)"

section \<open>Clearing, resizing, truncating\<close>

definition layer_clear :: "bool \<Rightarrow> layer_cache \<Rightarrow> layer_cache" where
  "layer_clear quantized c =
     (if quantized
      then c\<lparr>lc_kq := map (\<lambda>_. 0) (lc_kq c), lc_vq := map (\<lambda>_. 0) (lc_vq c),
             lc_ks := map (\<lambda>_. 0) (lc_ks c), lc_vs := map (\<lambda>_. 0) (lc_vs c), lc_pos := 0\<rparr>
      else c\<lparr>lc_k := map (\<lambda>_. f_zero) (lc_k c), lc_v := map (\<lambda>_. f_zero) (lc_v c), lc_pos := 0\<rparr>)"

definition kv_clear :: "kv_cache \<Rightarrow> kv_cache" where
  "kv_clear kv = kv\<lparr>kv_caches := map (layer_clear (kv_quantized kv)) (kv_caches kv)\<rparr>"

definition kv_resize :: "nat \<Rightarrow> kv_cache \<Rightarrow> kv_cache" where
  "kv_resize new_max kv =
     kv\<lparr>kv_max := new_max,
        kv_caches := map (\<lambda>c. quant_resize (kv_heads kv * new_max * kv_dim kv)
            (c\<lparr>lc_k := replicate (kv_heads kv * new_max * kv_dim kv) f_zero,
               lc_v := replicate (kv_heads kv * new_max * kv_dim kv) f_zero, lc_pos := 0\<rparr>))
          (kv_caches kv)\<rparr>"

definition zero_tokens :: "nat \<Rightarrow> nat \<Rightarrow> nat \<Rightarrow> nat \<Rightarrow> nat \<Rightarrow> u32 list \<Rightarrow> u32 list option" where
  "zero_tokens h d max_seq_len from to_pos buf =
     fold_option (\<lambda>s. fold_option (\<lambda>hh buf.
         memset buf (hh * max_seq_len * d + s * d) f_zero d) [0..<h]) [from..<to_pos] buf"

definition layer_truncate :: "nat \<Rightarrow> nat \<Rightarrow> nat \<Rightarrow> nat \<Rightarrow> layer_cache \<Rightarrow> layer_cache option" where
  "layer_truncate h d max_seq_len new_len c =
     (if new_len \<ge> lc_pos c then Some c
      else
        Option.bind (if lc_k c = [] \<or> lc_v c = [] then Some (lc_k c)
                     else zero_tokens h d max_seq_len new_len (lc_pos c) (lc_k c)) (\<lambda>k.
        Option.bind (if lc_k c = [] \<or> lc_v c = [] then Some (lc_v c)
                     else zero_tokens h d max_seq_len new_len (lc_pos c) (lc_v c)) (\<lambda>v.
        Some (c\<lparr>lc_k := k, lc_v := v, lc_pos := new_len\<rparr>))))"

definition layer_truncate_quant :: "nat \<Rightarrow> nat \<Rightarrow> nat \<Rightarrow> layer_cache \<Rightarrow> layer_cache option" where
  "layer_truncate_quant h d new_len c =
     (if new_len \<ge> lc_pos c then Some c
      else
        (let dst_off = new_len * h * d;
             n = lc_pos c * h * d - dst_off;
             scale_off = dst_off div FP8_BLOCK_SIZE;
             num_scales = fp8_blocks n;
             wipe = n > 0 \<and> dst_off + n \<le> length (lc_kq c);
             wipe_scales = n > 0 \<and> scale_off + num_scales \<le> length (lc_ks c) in
         Option.bind (if wipe then memset (lc_kq c) dst_off 0 n else Some (lc_kq c)) (\<lambda>kq.
         Option.bind (if wipe then memset (lc_vq c) dst_off 0 n else Some (lc_vq c)) (\<lambda>vq.
         Option.bind (if wipe_scales then memset (lc_ks c) scale_off 0 num_scales else Some (lc_ks c)) (\<lambda>ks.
         Option.bind (if wipe_scales then memset (lc_vs c) scale_off 0 num_scales else Some (lc_vs c)) (\<lambda>vs.
         Some (c\<lparr>lc_kq := kq, lc_vq := vq, lc_ks := ks, lc_vs := vs, lc_pos := new_len\<rparr>)))))))"

fun map_layers :: "(layer_cache \<Rightarrow> layer_cache option) \<Rightarrow> layer_cache list \<Rightarrow> layer_cache list option" where
  "map_layers f [] = Some []"
| "map_layers f (c # cs) = Option.bind (f c) (\<lambda>c'. map_option ((#) c') (map_layers f cs))"

definition kv_truncate :: "int \<Rightarrow> kv_cache \<Rightarrow> kv_cache option" where
  "kv_truncate new_len kv =
     map_option (\<lambda>cs. kv\<lparr>kv_caches := cs\<rparr>)
       (map_layers
          (if kv_quantized kv then layer_truncate_quant (kv_heads kv) (kv_dim kv) (nat new_len)
           else layer_truncate (kv_heads kv) (kv_dim kv) (kv_max kv) (nat new_len))
          (kv_caches kv))"

section \<open>The layout: token \<open>p\<close> of head \<open>hh\<close> is row \<open>hh * max + p\<close>\<close>

lemma head_row_inj:
  assumes "p < m" and "p' < m" and "hh * m + p = hh' * m + (p'::nat)"
  shows "hh = hh' \<and> p = p'"
proof -
  have "(hh * m + p) mod m = (hh' * m + p') mod m" using assms(3) by simp
  then have "p = p'" using assms(1,2) by simp
  moreover have "(hh * m + p) div m = (hh' * m + p') div m" using assms(3) by simp
  then have "hh = hh'" using assms(1,2) by simp
  ultimately show ?thesis by simp
qed

lemma head_row_bound: "hh < h \<Longrightarrow> p < m \<Longrightarrow> hh * m + p < h * (m::nat)"
  using row_bound [of hh h m] by simp

lemma head_rowE:
  assumes "r < h * (m::nat)"
  obtains hh p where "hh < h" and "p < m" and "r = hh * m + p"
proof -
  have "0 < m" using assms by (cases m) auto
  then show thesis using that [of "r div m" "r mod m"] assms by (simp add: less_mult_imp_div_less)
qed

lemma head_rows_eqI:
  assumes "length a = h * m * d" and "length b = h * m * d"
    and "\<And>hh p. hh < h \<Longrightarrow> p < m \<Longrightarrow> row d a (hh * m + p) = row d b (hh * m + p)"
  shows "a = b"
  using assms(1,2)
proof (rule row_eqI)
  fix r
  assume "r < h * m"
  then show "row d a r = row d b r" using assms(3) by (elim head_rowE) simp
qed

text \<open>The loops over tokens and heads: token \<open>s\<close> of head \<open>hh\<close> goes to position \<open>t s\<close> of that head.\<close>

lemma head_fold:
  assumes "length dst = h * m * d" and "length src = k * d"
    and "\<And>s hh. s \<in> set ss \<Longrightarrow> hh < h \<Longrightarrow> g s hh < k"
    and "\<And>s. s \<in> set ss \<Longrightarrow> t s < m" and "distinct ss" and "inj_on t (set ss)"
  obtains dst' where
    "fold_option (\<lambda>s. fold_option (\<lambda>hh buf. memcpy buf ((hh * m + t s) * d) src (g s hh * d) d) [0..<h])
       ss dst = Some dst'"
    and "length dst' = h * m * d"
    and "\<And>s hh. s \<in> set ss \<Longrightarrow> hh < h \<Longrightarrow> row d dst' (hh * m + t s) = row d src (g s hh)"
    and "\<And>hh p. hh < h \<Longrightarrow> p < m \<Longrightarrow> p \<notin> t ` set ss \<Longrightarrow> row d dst' (hh * m + p) = row d dst (hh * m + p)"
proof -
  define xs where "xs = List.product ss [0..<h]"
  define f where "f = (\<lambda>x. snd x * m + t (fst x))"
  define e where "e = (\<lambda>x. g (fst x) (snd x))"
  have set: "set xs = set ss \<times> {0..<h}" by (simp add: xs_def)
  have close: "s \<in> set ss \<Longrightarrow> p < m \<Longrightarrow> hh * m + p = hh' * m + t s \<Longrightarrow> hh = hh' \<and> p = t s" for s p hh hh'
    using head_row_inj assms(4) by blast
  have fg: "f x < h * m \<and> e x < k" if "x \<in> set xs" for x
    using that assms(3,4) head_row_bound by (auto simp: set f_def e_def)
  have inj: "inj_on f (set xs)"
  proof (rule inj_onI)
    fix x y assume a: "x \<in> set xs" "y \<in> set xs" "f x = f y"
    then have m: "fst x \<in> set ss" "fst y \<in> set ss" by (auto simp: set)
    have "snd x = snd y \<and> t (fst x) = t (fst y)"
      using close [OF m(2) assms(4) [OF m(1)]] a(3) by (simp add: f_def)
    then show "x = y" using inj_onD [OF assms(6)] m by (simp add: prod_eq_iff)
  qed
  have "distinct xs" using assms(5) by (simp add: xs_def distinct_product)
  from fold_rows [OF assms(1,2) fg this inj] obtain dst' where
    d: "fold_option (\<lambda>x buf. memcpy buf (f x * d) src (e x * d) d) xs dst = Some dst'"
    "length dst' = h * m * d" "\<forall>x \<in> set xs. row d dst' (f x) = row d src (e x)"
    "\<forall>r<h * m. r \<notin> f ` set xs \<longrightarrow> row d dst' r = row d dst r" by blast
  show thesis
  proof (rule that [of dst'])
    show "row d dst' (hh * m + p) = row d dst (hh * m + p)"
      if "hh < h" "p < m" "p \<notin> t ` set ss" for hh p
      using d(4) [rule_format, OF head_row_bound [OF that(1,2)]] close that
      by (fastforce simp: set f_def)
    show "row d dst' (hh * m + t s) = row d src (g s hh)" if "s \<in> set ss" "hh < h" for s hh
      using d(3) [rule_format, of "(s, hh)"] that by (simp add: set f_def e_def)
  qed (use d in \<open>simp_all add: fold_option_concat xs_def f_def e_def case_prod_unfold\<close>)
qed

lemma copy_tokens_spec:
  assumes "length dst = h * m * d" and "length src = h * n * d" and "pos + n \<le> m"
  obtains dst' where "copy_tokens h d m pos n src dst = Some dst'" and "length dst' = h * m * d"
    and "\<And>hh p. hh < h \<Longrightarrow> p < m \<Longrightarrow> row d dst' (hh * m + p) =
      (if pos \<le> p \<and> p < pos + n then row d src (hh * n + (p - pos)) else row d dst (hh * m + p))"
proof -
  have all: "filter (\<lambda>s. pos + s < m) [0..<n] = [0..<n]" using assms(3) by (intro filter_True) auto
  obtain dst' where d: "copy_tokens h d m pos n src dst = Some dst'" "length dst' = h * m * d"
    "\<And>s hh. s < n \<Longrightarrow> hh < h \<Longrightarrow> row d dst' (hh * m + (pos + s)) = row d src (hh * n + s)"
    "\<And>hh p. hh < h \<Longrightarrow> p < m \<Longrightarrow> p \<notin> (+) pos ` {0..<n} \<Longrightarrow> row d dst' (hh * m + p) = row d dst (hh * m + p)"
    using head_fold [OF assms(1,2), of "[0..<n]" "\<lambda>s hh. hh * n + s" "\<lambda>s. pos + s"] assms(3)
    by (simp add: copy_tokens_def all add_mult_distrib head_row_bound) blast
  show thesis
  proof (rule that [OF d(1,2)])
    fix hh p
    assume b: "hh < h" "p < m"
    show "row d dst' (hh * m + p) =
      (if pos \<le> p \<and> p < pos + n then row d src (hh * n + (p - pos)) else row d dst (hh * m + p))"
    proof (cases "pos \<le> p \<and> p < pos + n")
      case True
      then have "p - pos < n" "pos + (p - pos) = p" by linarith+
      then show ?thesis using d(3) [of "p - pos" hh] b(1) True by (simp only: simp_thms if_True)
    next
      case False
      then have "p \<notin> (+) pos ` {0..<n}" by auto
      then show ?thesis unfolding if_not_P [OF False] by (rule d(4) [OF b])
    qed
  qed
qed

lemma copy_range_spec:
  assumes "length src = h * m * d" and "start + len \<le> m"
  obtains out where "copy_range h d m (int start) len src = Some out" and "length out = h * len * d"
    and "\<And>hh s. hh < h \<Longrightarrow> s < len \<Longrightarrow> row d out (hh * len + s) = row d src (hh * m + (start + s))"
proof -
  have all: "takeWhile (\<lambda>s. int start + int s < int m) [0..<len] = [0..<len]"
    using assms(2) by (intro takeWhile_eq_all_conv [THEN iffD2]) auto
  have nat: "nat (int start + int s) = start + s" "\<not> int start + int s < 0" for s by simp_all
  show thesis
  proof (rule head_fold [OF length_replicate assms(1), where ss = "[0..<len]" and m = len and h = h
        and g = "\<lambda>s hh. hh * m + (start + s)" and t = "\<lambda>s. s" and x1 = f_zero])
    fix out
    assume out: "fold_option (\<lambda>s. fold_option (\<lambda>hh buf. memcpy buf ((hh * len + s) * d) src
        ((hh * m + (start + s)) * d) d) [0..<h]) [0..<len] (replicate (h * len * d) f_zero) = Some out"
      "length out = h * len * d"
      "\<And>s hh. s \<in> set [0..<len] \<Longrightarrow> hh < h \<Longrightarrow> row d out (hh * len + s) = row d src (hh * m + (start + s))"
    show thesis
    proof (rule that [of out])
      show "copy_range h d m (int start) len src = Some out"
        using out(1) unfolding copy_range_def all nat add_mult_distrib by simp
    qed (use out(2,3) in simp_all)
  qed (use assms(2) head_row_bound in auto)
qed

lemma zero_tokens_spec:
  assumes "length buf = h * m * d" and "to_pos \<le> m"
  obtains buf' where "zero_tokens h d m from to_pos buf = Some buf'" and "length buf' = h * m * d"
    and "\<And>hh p. hh < h \<Longrightarrow> p < m \<Longrightarrow> row d buf' (hh * m + p) =
      (if from \<le> p \<and> p < to_pos then replicate d f_zero else row d buf (hh * m + p))"
proof -
  have one: "length (replicate d f_zero) = 1 * d" by simp
  obtain buf' where b: "zero_tokens h d m from to_pos buf = Some buf'" "length buf' = h * m * d"
    "\<And>s hh. s \<in> {from..<to_pos} \<Longrightarrow> hh < h \<Longrightarrow> row d buf' (hh * m + s) = row d (replicate d f_zero) 0"
    "\<And>hh p. hh < h \<Longrightarrow> p < m \<Longrightarrow> p \<notin> {from..<to_pos} \<Longrightarrow> row d buf' (hh * m + p) = row d buf (hh * m + p)"
    using head_fold [OF assms(1) one, of "[from..<to_pos]" "\<lambda>_ _. 0" "\<lambda>s. s"] assms(2)
    by (simp add: zero_tokens_def memset_memcpy add_mult_distrib) blast
  show thesis by (rule that [OF b(1,2)]) (use b(3,4) in \<open>simp add: row_def\<close>)
qed

section \<open>Well-formedness\<close>

text \<open>
  The unquantised buffers have room for \<open>max\<close> tokens of every head, and the rows from the
  current position on are zero.
\<close>

definition zero_tail :: "nat \<Rightarrow> nat \<Rightarrow> nat \<Rightarrow> nat \<Rightarrow> u32 list \<Rightarrow> bool" where
  "zero_tail h d m pos buf \<longleftrightarrow>
     (\<forall>hh<h. \<forall>p<m. pos \<le> p \<longrightarrow> row d buf (hh * m + p) = replicate d f_zero)"

definition layer_ok :: "nat \<Rightarrow> nat \<Rightarrow> nat \<Rightarrow> layer_cache \<Rightarrow> bool" where
  "layer_ok h d m c \<longleftrightarrow> length (lc_k c) = h * m * d \<and> length (lc_v c) = h * m * d \<and>
     lc_pos c \<le> m \<and> zero_tail h d m (lc_pos c) (lc_k c) \<and> zero_tail h d m (lc_pos c) (lc_v c)"

definition kv_ok :: "kv_cache \<Rightarrow> bool" where
  "kv_ok kv \<longleftrightarrow> \<not> kv_quantized kv \<and> length (kv_caches kv) = kv_num_layers kv \<and>
     (\<forall>c \<in> set (kv_caches kv). layer_ok (kv_heads kv) (kv_dim kv) (kv_max kv) c)"

text \<open>A key or value tensor for \<open>n\<close> tokens.\<close>

definition tensor_ok :: "nat \<Rightarrow> nat \<Rightarrow> nat \<Rightarrow> tensor4 \<Rightarrow> bool" where
  "tensor_ok h d n t \<longleftrightarrow> t_seq t = int n \<and> length (t_data t) = h * n * d"

lemma zero_tail_replicate: "zero_tail h d m pos (replicate (h * m * d) f_zero)"
  unfolding zero_tail_def
proof (intro allI impI)
  fix hh p assume "hh < h" "p < m"
  then have "hh * m + p < h * m" by (rule head_row_bound)
  then show "row d (replicate (h * m * d) f_zero) (hh * m + p) = replicate d f_zero"
    by (rule row_replicate)
qed

lemma layer_init_ok: "layer_ok h d m (layer_init m h d False c)"
  by (simp add: layer_ok_def layer_init_def Let_def zero_tail_replicate)

lemma kv_new_ok: "kv_ok (kv_new num_layers max_seq_len num_heads head_dim False)"
  by (auto simp: kv_ok_def kv_new_def kv_init_def vec_resize_def kv_default_def layer_init_ok)

text \<open>What one append of \<open>n\<close> tokens does to a layer with room for them.\<close>

lemma layer_append_spec:
  assumes ok: "layer_ok h d m c" and k: "tensor_ok h d n k" and v: "tensor_ok h d n v"
    and room: "lc_pos c + n \<le> m" and "lc_pos c < m"
  obtains c' where "layer_append h d m k v c = Some c'" and "layer_ok h d m c'"
    and "lc_pos c' = lc_pos c + n"
    and "\<And>hh p. hh < h \<Longrightarrow> p < m \<Longrightarrow> row d (lc_k c') (hh * m + p) =
      (if lc_pos c \<le> p \<and> p < lc_pos c + n then row d (t_data k) (hh * n + (p - lc_pos c))
       else row d (lc_k c) (hh * m + p))"
    and "\<And>hh p. hh < h \<Longrightarrow> p < m \<Longrightarrow> row d (lc_v c') (hh * m + p) =
      (if lc_pos c \<le> p \<and> p < lc_pos c + n then row d (t_data v) (hh * n + (p - lc_pos c))
       else row d (lc_v c) (hh * m + p))"
proof -
  have n: "nat (min (t_seq k) (int (m - lc_pos c))) = n" using k room by (simp add: tensor_ok_def)
  have lens: "length (lc_k c) = h * m * d" "length (lc_v c) = h * m * d"
    "length (t_data k) = h * n * d" "length (t_data v) = h * n * d"
    using ok k v by (simp_all add: layer_ok_def tensor_ok_def)
  obtain kb where kb: "copy_tokens h d m (lc_pos c) n (t_data k) (lc_k c) = Some kb" "length kb = h * m * d"
    "\<And>hh p. hh < h \<Longrightarrow> p < m \<Longrightarrow> row d kb (hh * m + p) =
      (if lc_pos c \<le> p \<and> p < lc_pos c + n then row d (t_data k) (hh * n + (p - lc_pos c))
       else row d (lc_k c) (hh * m + p))"
    by (rule copy_tokens_spec [OF lens(1,3) room]) (rule that)
  obtain vb where vb: "copy_tokens h d m (lc_pos c) n (t_data v) (lc_v c) = Some vb" "length vb = h * m * d"
    "\<And>hh p. hh < h \<Longrightarrow> p < m \<Longrightarrow> row d vb (hh * m + p) =
      (if lc_pos c \<le> p \<and> p < lc_pos c + n then row d (t_data v) (hh * n + (p - lc_pos c))
       else row d (lc_v c) (hh * m + p))"
    by (rule copy_tokens_spec [OF lens(2,4) room]) (rule that)
  let ?c' = "c\<lparr>lc_k := kb, lc_v := vb, lc_pos := lc_pos c + n\<rparr>"
  have tails: "zero_tail h d m (lc_pos c + n) kb" "zero_tail h d m (lc_pos c + n) vb"
    using ok kb(3) vb(3) by (simp_all add: layer_ok_def zero_tail_def)
  have mn: "min n (m - lc_pos c) = n" using room by simp
  show thesis
  proof (rule that [of ?c'])
    show "layer_append h d m k v c = Some ?c'"
      unfolding layer_append_def Let_def n using assms(5) mn by (simp add: kb(1) vb(1))
    show "layer_ok h d m ?c'" using kb(2) vb(2) tails room by (simp add: layer_ok_def)
  qed (use kb(3) vb(3) in simp_all)
qed

lemma layer_full: "lc_pos c \<ge> m \<Longrightarrow> layer_append h d m k v c = Some c"
  by (simp add: layer_append_def)

lemma kv_append_in_range:
  assumes "kv_ok kv" and "0 \<le> layer" and "layer < int (kv_num_layers kv)"
  shows "kv_append fo layer k v kv =
    map_option (\<lambda>c. kv\<lparr>kv_caches := (kv_caches kv)[nat layer := c]\<rparr>)
      (layer_append (kv_heads kv) (kv_dim kv) (kv_max kv) k v (kv_caches kv ! nat layer))"
  using assms by (auto simp: kv_append_def with_layer_def kv_ok_def)

lemma kv_get_range_in_range:
  assumes "kv_ok kv" and "0 \<le> layer" and "layer < int (kv_num_layers kv)"
    and "a + n \<le> kv_max kv"
    and "copy_range (kv_heads kv) (kv_dim kv) (kv_max kv) (int a) n (lc_k (kv_caches kv ! nat layer)) = Some ks"
    and "copy_range (kv_heads kv) (kv_dim kv) (kv_max kv) (int a) n (lc_v (kv_caches kv ! nat layer)) = Some vs"
  shows "kv_get_range fo layer (int a) (int (a + n)) kv =
    Some (\<lparr>t_seq = int n, t_data = ks\<rparr>, \<lparr>t_seq = int n, t_data = vs\<rparr>)"
proof -
  have "range_len kv (int a) (int a + int n) = int n" using assms(4) by (simp add: range_len_def)
  then show ?thesis using assms by (simp add: kv_get_range_def kv_ok_def Let_def nat_less_iff)
qed

lemma copy_range_eq:
  assumes "length buf = h * m * d" and "length src = h * n * d" and "pos + n \<le> m"
    and "\<And>hh s. hh < h \<Longrightarrow> s < n \<Longrightarrow> row d buf (hh * m + (pos + s)) = row d src (hh * n + s)"
  shows "copy_range h d m (int pos) n buf = Some src"
proof -
  obtain out where o: "copy_range h d m (int pos) n buf = Some out" "length out = h * n * d"
    "\<And>hh s. hh < h \<Longrightarrow> s < n \<Longrightarrow> row d out (hh * n + s) = row d buf (hh * m + (pos + s))"
    by (rule copy_range_spec [OF assms(1,3)]) (rule that)
  have "out = src"
    by (rule head_rows_eqI [OF o(2) assms(2)]) (simp only: o(3) assms(4))
  with o(1) show ?thesis by simp
qed

lemma copy_range_cong:
  assumes "length buf = h * m * d" and "length buf' = h * m * d" and "a + n \<le> m"
    and "\<And>hh p. hh < h \<Longrightarrow> p < a + n \<Longrightarrow> row d buf' (hh * m + p) = row d buf (hh * m + p)"
  shows "copy_range h d m (int a) n buf' = copy_range h d m (int a) n buf"
proof -
  obtain out where o: "copy_range h d m (int a) n buf = Some out" "length out = h * n * d"
    "\<And>hh s. hh < h \<Longrightarrow> s < n \<Longrightarrow> row d out (hh * n + s) = row d buf (hh * m + (a + s))"
    by (rule copy_range_spec [OF assms(1,3)]) (rule that)
  have "copy_range h d m (int a) n buf' = Some out"
    by (rule copy_range_eq [OF assms(2) o(2) assms(3)]) (simp add: o(3) assms(4))
  with o(1) show ?thesis by simp
qed

text \<open>Two layers that agree below \<open>pos\<close> read the same there.\<close>

lemma kv_get_range_cong:
  assumes "kv_ok kv" and "kv_ok kv'" and "0 \<le> layer" and "layer < int (kv_num_layers kv)"
    and dims: "kv_heads kv' = kv_heads kv" "kv_dim kv' = kv_dim kv" "kv_max kv' = kv_max kv"
      "kv_num_layers kv' = kv_num_layers kv"
    and "a + b \<le> pos" and "pos \<le> kv_max kv"
    and rows: "\<And>hh p. hh < kv_heads kv \<Longrightarrow> p < pos \<Longrightarrow>
      row (kv_dim kv) (lc_k (kv_caches kv' ! nat layer)) (hh * kv_max kv + p) =
      row (kv_dim kv) (lc_k (kv_caches kv ! nat layer)) (hh * kv_max kv + p)"
      "\<And>hh p. hh < kv_heads kv \<Longrightarrow> p < pos \<Longrightarrow>
      row (kv_dim kv) (lc_v (kv_caches kv' ! nat layer)) (hh * kv_max kv + p) =
      row (kv_dim kv) (lc_v (kv_caches kv ! nat layer)) (hh * kv_max kv + p)"
  shows "kv_get_range fo layer (int a) (int (a + b)) kv' = kv_get_range fo layer (int a) (int (a + b)) kv"
proof -
  have "nat layer < length (kv_caches kv)" "nat layer < length (kv_caches kv')"
    using assms(1-4,8) by (auto simp: kv_ok_def)
  then have lo: "layer_ok (kv_heads kv) (kv_dim kv) (kv_max kv) (kv_caches kv ! nat layer)"
    "layer_ok (kv_heads kv) (kv_dim kv) (kv_max kv) (kv_caches kv' ! nat layer)"
    using assms(1,2) dims by (simp_all add: kv_ok_def)
  have eq: "copy_range (kv_heads kv) (kv_dim kv) (kv_max kv) (int a) b (lc_k (kv_caches kv' ! nat layer)) =
      copy_range (kv_heads kv) (kv_dim kv) (kv_max kv) (int a) b (lc_k (kv_caches kv ! nat layer))"
    "copy_range (kv_heads kv) (kv_dim kv) (kv_max kv) (int a) b (lc_v (kv_caches kv' ! nat layer)) =
      copy_range (kv_heads kv) (kv_dim kv) (kv_max kv) (int a) b (lc_v (kv_caches kv ! nat layer))"
    using assms(9,10) lo by (auto intro!: copy_range_cong rows simp: layer_ok_def)
  have "range_len kv (int a) (int (a + b)) = int b" "range_len kv' (int a) (int (a + b)) = int b"
    using assms(9,10) dims by (simp_all add: range_len_def)
  then show ?thesis using assms(1-4) dims eq by (auto simp: kv_get_range_def kv_ok_def Let_def)
qed

text \<open>
  C4: reading back what was appended. On a well-formed unquantised cache with room, appending
  \<open>n\<close> tokens succeeds, keeps the cache well-formed, and reading the positions just written
  returns exactly the appended tensors; every earlier range of that layer reads as before, and
  no other layer changes.
\<close>

theorem kv_append_get_range:
  assumes ok: "kv_ok kv" and l: "0 \<le> layer" "layer < int (kv_num_layers kv)"
    and k: "tensor_ok (kv_heads kv) (kv_dim kv) n k" and v: "tensor_ok (kv_heads kv) (kv_dim kv) n v"
    and pos: "pos = kv_layer_context_len layer kv" and room: "pos + n \<le> kv_max kv" and "pos < kv_max kv"
  shows "\<exists>kv'. kv_append fo layer k v kv = Some kv' \<and> kv_ok kv' \<and>
    kv_get_range fo layer (int pos) (int (pos + n)) kv' = Some (k, v) \<and>
    (\<forall>a b. a + b \<le> pos \<longrightarrow>
       kv_get_range fo layer (int a) (int (a + b)) kv' = kv_get_range fo layer (int a) (int (a + b)) kv) \<and>
    (\<forall>i. i \<noteq> nat layer \<longrightarrow> kv_caches kv' ! i = kv_caches kv ! i)"
proof -
  let ?h = "kv_heads kv" and ?d = "kv_dim kv" and ?m = "kv_max kv"
  let ?c = "kv_caches kv ! nat layer"
  have i: "nat layer < length (kv_caches kv)" using ok l by (auto simp: kv_ok_def)
  then have okc: "layer_ok ?h ?d ?m ?c" using ok by (simp add: kv_ok_def)
  have p: "pos = lc_pos ?c" using pos l ok by (simp add: kv_layer_context_len_def kv_ok_def)
  have room': "lc_pos ?c + n \<le> ?m" and below: "lc_pos ?c < ?m" using room assms(8) p by simp_all
  obtain c' where c': "layer_append ?h ?d ?m k v ?c = Some c'" "layer_ok ?h ?d ?m c'"
    and rk: "\<And>hh p. hh < ?h \<Longrightarrow> p < ?m \<Longrightarrow> row ?d (lc_k c') (hh * ?m + p) =
      (if pos \<le> p \<and> p < pos + n then row ?d (t_data k) (hh * n + (p - pos)) else row ?d (lc_k ?c) (hh * ?m + p))"
    and rv: "\<And>hh p. hh < ?h \<Longrightarrow> p < ?m \<Longrightarrow> row ?d (lc_v c') (hh * ?m + p) =
      (if pos \<le> p \<and> p < pos + n then row ?d (t_data v) (hh * n + (p - pos)) else row ?d (lc_v ?c) (hh * ?m + p))"
    by (rule layer_append_spec [OF okc k v room' below]) (simp add: p that)
  define kv' where "kv' = kv\<lparr>kv_caches := (kv_caches kv)[nat layer := c']\<rparr>"
  have app: "kv_append fo layer k v kv = Some kv'"
    using kv_append_in_range [OF ok l] c'(1) by (simp add: kv'_def)
  have ok': "kv_ok kv'" using ok c'(2) by (auto simp: kv_ok_def kv'_def dest: set_update_subset_insert [THEN subsetD])
  have at: "kv_caches kv' ! nat layer = c'" "kv_heads kv' = ?h" "kv_dim kv' = ?d" "kv_max kv' = ?m"
    "kv_num_layers kv' = kv_num_layers kv" using i by (simp_all add: kv'_def)
  have "copy_range ?h ?d ?m (int pos) n (lc_k c') = Some (t_data k)"
    "copy_range ?h ?d ?m (int pos) n (lc_v c') = Some (t_data v)"
    using c'(2) k v room by (auto intro!: copy_range_eq simp: rk rv layer_ok_def tensor_ok_def)
  then have "kv_get_range fo layer (int pos) (int (pos + n)) kv' = Some (k, v)"
    using kv_get_range_in_range [OF ok' l(1), of pos n "t_data k" "t_data v"] l(2) room k v
    by (simp add: at tensor_ok_def)
  moreover have "kv_get_range fo layer (int a) (int (a + b)) kv' = kv_get_range fo layer (int a) (int (a + b)) kv"
    if "a + b \<le> pos" for a b
    using kv_get_range_cong [OF ok ok' l at(2-5) that] room at(1) by (simp add: rk rv)
  ultimately show ?thesis using app ok' by (auto simp: kv'_def)
qed

theorem kv_append_get_range_witness:
  "\<forall>fo. \<exists>kv'. kv_append fo 1 \<lparr>t_seq = 2, t_data = [1, 2, 3, 4]\<rparr> \<lparr>t_seq = 2, t_data = [5, 6, 7, 8]\<rparr>
       (kv_new 3 4 2 1 False) = Some kv' \<and>
     kv_get_range fo 1 0 2 kv' = Some (\<lparr>t_seq = 2, t_data = [1, 2, 3, 4]\<rparr>, \<lparr>t_seq = 2, t_data = [5, 6, 7, 8]\<rparr>)"
  using kv_append_get_range [OF kv_new_ok [of 3 4 2 1], where layer = 1 and n = 2 and pos = 0
      and k = "\<lparr>t_seq = 2, t_data = [1, 2, 3, 4]\<rparr>" and v = "\<lparr>t_seq = 2, t_data = [5, 6, 7, 8]\<rparr>"]
  by (auto simp: kv_new_def kv_init_def tensor_ok_def kv_layer_context_len_def vec_resize_def
      kv_default_def layer_init_def)

section \<open>Rewinding\<close>

lemma layer_truncate_spec:
  assumes ok: "layer_ok h d m c" and "new_len < lc_pos c"
  obtains c' where "layer_truncate h d m new_len c = Some c'" and "layer_ok h d m c'"
    and "lc_pos c' = new_len" and "c' = c\<lparr>lc_k := lc_k c', lc_v := lc_v c', lc_pos := new_len\<rparr>"
    and "\<And>hh p. hh < h \<Longrightarrow> p < m \<Longrightarrow> row d (lc_k c') (hh * m + p) =
      (if new_len \<le> p then replicate d f_zero else row d (lc_k c) (hh * m + p))"
    and "\<And>hh p. hh < h \<Longrightarrow> p < m \<Longrightarrow> row d (lc_v c') (hh * m + p) =
      (if new_len \<le> p then replicate d f_zero else row d (lc_v c) (hh * m + p))"
proof -
  have lens: "length (lc_k c) = h * m * d" "length (lc_v c) = h * m * d" and pm: "lc_pos c \<le> m"
    using ok by (simp_all add: layer_ok_def)
  have wipe: "\<exists>b. (if lc_k c = [] \<or> lc_v c = [] then Some buf
        else zero_tokens h d m new_len (lc_pos c) buf) = Some b \<and> length b = h * m * d \<and>
      (\<forall>hh<h. \<forall>p<m. row d b (hh * m + p) =
        (if new_len \<le> p then replicate d f_zero else row d buf (hh * m + p)))"
    if len: "length buf = h * m * d" and tl: "zero_tail h d m (lc_pos c) buf" for buf
  proof (cases "h * m * d = 0")
    case True
    then have "buf = []" "d = 0 \<or> h = 0 \<or> m = 0" "lc_k c = []" using len lens by auto
    then show ?thesis by (auto simp: row_def)
  next
    case False
    then have ne: "\<not> (lc_k c = [] \<or> lc_v c = [])" using lens by auto
    obtain b where b: "zero_tokens h d m new_len (lc_pos c) buf = Some b" "length b = h * m * d"
      "\<And>hh p. hh < h \<Longrightarrow> p < m \<Longrightarrow> row d b (hh * m + p) =
        (if new_len \<le> p \<and> p < lc_pos c then replicate d f_zero else row d buf (hh * m + p))"
      by (rule zero_tokens_spec [OF len pm]) (rule that)
    then show ?thesis using ne tl by (auto simp: zero_tail_def)
  qed
  obtain kb where kb: "(if lc_k c = [] \<or> lc_v c = [] then Some (lc_k c)
        else zero_tokens h d m new_len (lc_pos c) (lc_k c)) = Some kb" "length kb = h * m * d"
      "\<forall>hh<h. \<forall>p<m. row d kb (hh * m + p) =
        (if new_len \<le> p then replicate d f_zero else row d (lc_k c) (hh * m + p))"
    using wipe [OF lens(1)] ok unfolding layer_ok_def by blast
  obtain vb where vb: "(if lc_k c = [] \<or> lc_v c = [] then Some (lc_v c)
        else zero_tokens h d m new_len (lc_pos c) (lc_v c)) = Some vb" "length vb = h * m * d"
      "\<forall>hh<h. \<forall>p<m. row d vb (hh * m + p) =
        (if new_len \<le> p then replicate d f_zero else row d (lc_v c) (hh * m + p))"
    using wipe [OF lens(2)] ok unfolding layer_ok_def by blast
  show thesis
  proof (rule that [of "c\<lparr>lc_k := kb, lc_v := vb, lc_pos := new_len\<rparr>"])
    show "layer_truncate h d m new_len c = Some (c\<lparr>lc_k := kb, lc_v := vb, lc_pos := new_len\<rparr>)"
      using assms(2) unfolding layer_truncate_def kb(1) vb(1) by simp
    show "layer_ok h d m (c\<lparr>lc_k := kb, lc_v := vb, lc_pos := new_len\<rparr>)"
      using kb(2,3) vb(2,3) pm assms(2) by (simp add: layer_ok_def zero_tail_def)
  qed (use kb(3) vb(3) in simp_all)
qed

lemma layer_append_frame:
  "layer_append h d m k v c = Some c' \<Longrightarrow> c' = c\<lparr>lc_k := lc_k c', lc_v := lc_v c', lc_pos := lc_pos c'\<rparr>"
  by (auto simp: layer_append_def Let_def bind_eq_Some_conv split: if_splits)

lemma layer_truncate_undoes_append:
  assumes ok: "layer_ok h d m c" and "tensor_ok h d n k" and "tensor_ok h d n v"
    and room: "lc_pos c + n \<le> m" and "0 < n"
    and app: "layer_append h d m k v c = Some c'"
  shows "layer_truncate h d m (lc_pos c) c' = Some c"
proof -
  have below: "lc_pos c < m" using room assms(5) by simp
  obtain c2 where c2: "layer_append h d m k v c = Some c2" "layer_ok h d m c2" "lc_pos c2 = lc_pos c + n"
    "\<And>hh p. hh < h \<Longrightarrow> p < m \<Longrightarrow> row d (lc_k c2) (hh * m + p) =
      (if lc_pos c \<le> p \<and> p < lc_pos c + n then row d (t_data k) (hh * n + (p - lc_pos c))
       else row d (lc_k c) (hh * m + p))"
    "\<And>hh p. hh < h \<Longrightarrow> p < m \<Longrightarrow> row d (lc_v c2) (hh * m + p) =
      (if lc_pos c \<le> p \<and> p < lc_pos c + n then row d (t_data v) (hh * n + (p - lc_pos c))
       else row d (lc_v c) (hh * m + p))"
    by (rule layer_append_spec [OF ok assms(2,3) room below]) (rule that)
  have "c2 = c'" using c2(1) app by simp
  note c' = c2(2-) [unfolded this]
  have lt: "lc_pos c < lc_pos c'" using c'(2) assms(5) by simp
  obtain e where e: "layer_truncate h d m (lc_pos c) c' = Some e" "layer_ok h d m e"
    "e = c'\<lparr>lc_k := lc_k e, lc_v := lc_v e, lc_pos := lc_pos c\<rparr>"
    "\<And>hh p. hh < h \<Longrightarrow> p < m \<Longrightarrow> row d (lc_k e) (hh * m + p) =
      (if lc_pos c \<le> p then replicate d f_zero else row d (lc_k c') (hh * m + p))"
    "\<And>hh p. hh < h \<Longrightarrow> p < m \<Longrightarrow> row d (lc_v e) (hh * m + p) =
      (if lc_pos c \<le> p then replicate d f_zero else row d (lc_v c') (hh * m + p))"
    by (rule layer_truncate_spec [OF c'(1) lt]) (rule that)
  have "lc_k e = lc_k c"
    by (rule head_rows_eqI [of _ h m d]) (use e(2,4) c'(3) ok in \<open>auto simp: layer_ok_def zero_tail_def\<close>)
  moreover have "lc_v e = lc_v c"
    by (rule head_rows_eqI [of _ h m d]) (use e(2,5) c'(4) ok in \<open>auto simp: layer_ok_def zero_tail_def\<close>)
  ultimately have "e = c" using e(3) layer_append_frame [OF app] by (cases c; cases c'; cases e) simp
  with e(1) show ?thesis by simp
qed

lemma map_layers_Some:
  "length cs = length ds \<Longrightarrow> (\<And>i. i < length ds \<Longrightarrow> f (ds ! i) = Some (cs ! i)) \<Longrightarrow> map_layers f ds = Some cs"
proof (induction ds arbitrary: cs)
  case (Cons x ds)
  then obtain y ys where cs: "cs = y # ys" by (cases cs) auto
  have "f x = Some y" using Cons.prems(2) [of 0] cs by simp
  moreover have "map_layers f ds = Some ys"
    using Cons.IH [of ys] Cons.prems cs by force
  ultimately show ?case by (simp add: cs)
qed simp

text \<open>
  Rewinding a rejected draft. If no layer is ahead of the given one, then truncating the
  cache to the position it had before an append restores the whole cache state exactly,
  buffers included.
\<close>

theorem kv_truncate_undoes_append:
  assumes ok: "kv_ok kv" and l: "0 \<le> layer" "layer < int (kv_num_layers kv)"
    and k: "tensor_ok (kv_heads kv) (kv_dim kv) n k" and v: "tensor_ok (kv_heads kv) (kv_dim kv) n v"
    and pos: "pos = kv_layer_context_len layer kv" and room: "pos + n \<le> kv_max kv" and n: "0 < n"
    and others: "\<forall>c \<in> set (kv_caches kv). lc_pos c \<le> pos"
    and app: "kv_append fo layer k v kv = Some kv'"
  shows "kv_truncate (int pos) kv' = Some kv"
proof -
  let ?c = "kv_caches kv ! nat layer"
  have i: "nat layer < length (kv_caches kv)" using ok l by (auto simp: kv_ok_def)
  have p: "pos = lc_pos ?c" using pos l ok by (simp add: kv_layer_context_len_def kv_ok_def)
  obtain c' where c': "layer_append (kv_heads kv) (kv_dim kv) (kv_max kv) k v ?c = Some c'"
    and kv': "kv' = kv\<lparr>kv_caches := (kv_caches kv)[nat layer := c']\<rparr>"
    using app kv_append_in_range [OF ok l] by auto
  have "layer_ok (kv_heads kv) (kv_dim kv) (kv_max kv) ?c" using ok i by (simp add: kv_ok_def)
  from layer_truncate_undoes_append [OF this k v _ n c'] room
  have at: "layer_truncate (kv_heads kv) (kv_dim kv) (kv_max kv) pos c' = Some ?c" by (simp add: p)
  have "map_layers (layer_truncate (kv_heads kv) (kv_dim kv) (kv_max kv) pos)
      ((kv_caches kv)[nat layer := c']) = Some (kv_caches kv)"
  proof (rule map_layers_Some)
    fix j assume j: "j < length ((kv_caches kv)[nat layer := c'])"
    show "layer_truncate (kv_heads kv) (kv_dim kv) (kv_max kv) pos ((kv_caches kv)[nat layer := c'] ! j) =
      Some (kv_caches kv ! j)"
    proof (cases "j = nat layer")
      case True
      then show ?thesis using at i by simp
    next
      case False
      moreover have "lc_pos (kv_caches kv ! j) \<le> pos" using others j by simp
      ultimately show ?thesis using i by (simp add: layer_truncate_def)
    qed
  qed simp
  then show ?thesis using ok by (simp add: kv_truncate_def kv' kv_ok_def)
qed

theorem kv_truncate_undoes_append_witness:
  "\<forall>fo. Option.bind (kv_append fo 0 \<lparr>t_seq = 1, t_data = [9]\<rparr> \<lparr>t_seq = 1, t_data = [8]\<rparr> (kv_new 1 4 1 1 False))
     (kv_truncate 0) = Some (kv_new 1 4 1 1 False)"
proof
  fix fo :: float_ops
  let ?kv = "kv_new 1 4 1 1 False" and ?k = "\<lparr>t_seq = 1, t_data = [9]\<rparr>" and ?v = "\<lparr>t_seq = 1, t_data = [8]\<rparr>"
  note defs = kv_new_def kv_init_def tensor_ok_def kv_layer_context_len_def vec_resize_def
    kv_default_def layer_init_def layer_default_def
  obtain kv' where a: "kv_append fo 0 ?k ?v ?kv = Some kv'"
    using kv_append_in_range [OF kv_new_ok [of 1 4 1 1], where fo = fo and layer = 0 and k = ?k and v = ?v]
    by (auto simp: defs layer_append_def copy_tokens_def memcpy_def)
  have "kv_truncate (int 0) kv' = Some ?kv"
    by (rule kv_truncate_undoes_append [OF kv_new_ok _ _ _ _ _ _ _ _ a, of 1]) (simp_all add: defs)
  then show "Option.bind (kv_append fo 0 ?k ?v ?kv) (kv_truncate 0) = Some ?kv" unfolding a by simp
qed

section \<open>Where the cache departs from its contract\<close>

text \<open>
  An append that does not fit is clipped, but the clipped length is also used as the
  stride of the source, so head 1 receives the second token of head 0: keys
  \<open>[[a0, a1], [b0, b1]]\<close> appended with room for one token store \<open>a0\<close> and \<open>a1\<close>, not \<open>b0\<close>.
\<close>

theorem kv_append_clipped_stride:
  "\<exists>kv'. kv_append fo 0 \<lparr>t_seq = 2, t_data = [a0, a1, b0, b1]\<rparr> \<lparr>t_seq = 2, t_data = [a0, a1, b0, b1]\<rparr>
       (kv_new 1 1 2 1 False) = Some kv' \<and>
     kv_get_range fo 0 0 1 kv' = Some (\<lparr>t_seq = 1, t_data = [a0, a1]\<rparr>, \<lparr>t_seq = 1, t_data = [a0, a1]\<rparr>)"
  by (simp add: kv_append_def with_layer_def kv_new_def kv_init_def vec_resize_def kv_default_def
      layer_init_def layer_default_def layer_append_def copy_tokens_def memcpy_def kv_get_range_def
      range_len_def copy_range_def eval_nat_numeral)

lemma quantize_length: "length (fst (quantize_fp8_block fo src)) = length src"
  by (simp add: quantize_fp8_block_def Let_def)

lemma quantize_single: "\<exists>q s. quantize_fp8_block fo [x] = ([q], s)"
  using quantize_length [of fo "[x]"]
  by (cases "quantize_fp8_block fo [x]") (auto simp: length_Suc_conv)

lemma quantize_pair: "\<exists>p q s. quantize_fp8_block fo [x, y] = ([p, q], s)"
  using quantize_length [of fo "[x, y]"]
  by (cases "quantize_fp8_block fo [x, y]") (auto simp: length_Suc_conv)

lemmas kv_quant_defs = kv_append_def with_layer_def kv_new_def kv_init_def vec_resize_def kv_default_def
  layer_init_def layer_default_def quant_resize_def layer_append_quant_def quantize_all_def
  fp8_blocks_def FP8_BLOCK_SIZE_def memcpy_def kv_get_range_def range_len_def read_quant_def

definition single :: "u32 \<Rightarrow> tensor4" where
  "single x = \<lparr>t_seq = 1, t_data = [x]\<rparr>"

text \<open>A one-layer quantised cache for two tokens of one head of width one, in the states used below.\<close>

definition tiny_quant :: "u8 list \<Rightarrow> u32 \<Rightarrow> nat \<Rightarrow> kv_cache" where
  "tiny_quant qs s pos = \<lparr>kv_caches = [\<lparr>lc_k = [0, 0], lc_v = [0, 0], lc_pos = pos, lc_kq = qs, lc_vq = qs,
     lc_ks = [s], lc_vs = [s]\<rparr>], kv_num_layers = 1, kv_max = 2, kv_heads = 1, kv_dim = 1, kv_quantized = True\<rparr>"

lemma tiny_quant_new: "kv_new 1 2 1 1 True = tiny_quant [0, 0] 0 0"
  by (simp add: kv_quant_defs tiny_quant_def f_zero_def numeral_2_eq_2)

lemma tiny_quant_append:
  "quantize_fp8_block fo [x] = ([q], s) \<Longrightarrow> pos < 2 \<Longrightarrow>
   kv_append fo 0 (single x) (single x) (tiny_quant [a, b] s0 pos) =
     Some (tiny_quant ([a, b][pos := q]) s (Suc pos))"
  by (cases pos) (simp_all add: kv_quant_defs single_def tiny_quant_def Let_def)

lemma tiny_quant_read:
  "kv_get_range fo 0 0 1 (tiny_quant [a, b] s pos) =
     Some (single (f_mul fo (f_of_i8 fo a) s), single (f_mul fo (f_of_i8 fo a) s))"
  by (simp add: kv_quant_defs single_def tiny_quant_def Let_def)

text \<open>
  Scales are shared by blocks of 64 values, and an append that starts inside a block
  overwrites the block's scale: after appending \<open>x\<close> and then \<open>y\<close>, reading the first token
  decodes the code of \<open>x\<close> with the scale of \<open>y\<close>.
\<close>

theorem kv_quant_scale_clobbered:
  "\<exists>qx sx qy sy kv1 kv2. quantize_fp8_block fo [x] = ([qx], sx) \<and> quantize_fp8_block fo [y] = ([qy], sy) \<and>
     kv_append fo 0 (single x) (single x) (kv_new 1 2 1 1 True) = Some kv1 \<and>
     kv_get_range fo 0 0 1 kv1 = Some (single (f_mul fo (f_of_i8 fo qx) sx), single (f_mul fo (f_of_i8 fo qx) sx)) \<and>
     kv_append fo 0 (single y) (single y) kv1 = Some kv2 \<and>
     kv_get_range fo 0 0 1 kv2 = Some (single (f_mul fo (f_of_i8 fo qx) sy), single (f_mul fo (f_of_i8 fo qx) sy))"
proof -
  obtain qx sx where x: "quantize_fp8_block fo [x] = ([qx], sx)" using quantize_single by blast
  obtain qy sy where y: "quantize_fp8_block fo [y] = ([qy], sy)" using quantize_single by blast
  have 1: "kv_append fo 0 (single x) (single x) (kv_new 1 2 1 1 True) = Some (tiny_quant [qx, 0] sx 1)"
    unfolding tiny_quant_new using tiny_quant_append [OF x, of 0 0 0 0] by simp
  have 2: "kv_append fo 0 (single y) (single y) (tiny_quant [qx, 0] sx 1) = Some (tiny_quant [qx, qy] sy 2)"
    using tiny_quant_append [OF y, of 1] by (simp add: numeral_2_eq_2)
  from x y 1 2 tiny_quant_read show ?thesis by blast
qed

text \<open>
  Truncating a quantised cache zeroes the scales from the block of the cut onwards, which is
  also the block of the tokens that are kept: after truncating two tokens to one, the kept token
  is decoded with scale zero.
\<close>

theorem kv_quant_truncate_wipes_kept:
  "kv_truncate 1 (tiny_quant [qx, qy] s 2) = Some (tiny_quant [qx, 0] 0 1) \<and>
   kv_get_range fo 0 0 1 (tiny_quant [qx, 0] 0 1) =
     Some (single (f_mul fo (f_of_i8 fo qx) 0), single (f_mul fo (f_of_i8 fo qx) 0))"
proof
  show "kv_truncate 1 (tiny_quant [qx, qy] s 2) = Some (tiny_quant [qx, 0] 0 1)"
    by (simp add: kv_truncate_def layer_truncate_quant_def tiny_quant_def memset_def fp8_blocks_def
        FP8_BLOCK_SIZE_def)
qed (rule tiny_quant_read)

text \<open>
  An append stores quantised values token by token, a read expects them head by head: with
  two heads, the value read back for head 1 is decoded from the untouched code 0.
\<close>

theorem kv_quant_layout_mismatch:
  "\<exists>q0 q1 s kv'. quantize_fp8_block fo [x0, x1] = ([q0, q1], s) \<and>
     kv_append fo 0 \<lparr>t_seq = 1, t_data = [x0, x1]\<rparr> \<lparr>t_seq = 1, t_data = [x0, x1]\<rparr> (kv_new 1 2 2 1 True) = Some kv' \<and>
     map_option (t_data \<circ> fst) (kv_get_range fo 0 0 1 kv') =
       Some [f_mul fo (f_of_i8 fo q0) s, f_mul fo (f_of_i8 fo 0) s]"
proof -
  obtain q0 q1 s where q: "quantize_fp8_block fo [x0, x1] = ([q0, q1], s)" using quantize_pair by blast
  have r4: "replicate 4 (0 :: u32) = [0, 0, 0, 0]" "replicate 4 (0 :: u8) = [0, 0, 0, 0]"
    by (simp_all add: eval_nat_numeral)
  define c where "c = (\<lambda>qs s pos. \<lparr>kv_caches = [\<lparr>lc_k = [0, 0, 0, 0], lc_v = [0, 0, 0, 0], lc_pos = pos, lc_kq = qs,
     lc_vq = qs, lc_ks = [s], lc_vs = [s]\<rparr>], kv_num_layers = 1, kv_max = 2, kv_heads = 2, kv_dim = 1, kv_quantized = True\<rparr>)"
  have new: "kv_new 1 2 2 1 True = c [0, 0, 0, 0] 0 0"
    by (simp add: kv_quant_defs c_def f_zero_def r4)
  have app: "kv_append fo 0 \<lparr>t_seq = 1, t_data = [x0, x1]\<rparr> \<lparr>t_seq = 1, t_data = [x0, x1]\<rparr> (c [0, 0, 0, 0] 0 0) =
      Some (c [q0, q1, 0, 0] s 1)"
    by (simp add: kv_quant_defs c_def Let_def q)
  have "map_option (t_data \<circ> fst) (kv_get_range fo 0 0 1 (c [q0, q1, 0, 0] s 1)) =
      Some [f_mul fo (f_of_i8 fo q0) s, f_mul fo (f_of_i8 fo 0) s]"
    by (simp add: kv_quant_defs c_def Let_def upt_rec numeral_2_eq_2)
  with q app show ?thesis unfolding new by blast
qed

end
