(* ===== verification/Byte_Encoding.thy ===== *)
theory Byte_Encoding
  imports Prelude
begin

text \<open>
  How the sources lay integers and float patterns out in files (little-endian, as
  \<open>reinterpret_cast\<close> to \<open>char*\<close> gives on the supported hosts), and how they print integers
  through \<open>ostringstream\<close>.
\<close>

section \<open>Little-endian words\<close>

fun word_bytes :: "nat \<Rightarrow> 'a::len word \<Rightarrow> u8 list" where
  "word_bytes 0 w = []"
| "word_bytes (Suc n) w = ucast w # word_bytes n (drop_bit 8 w)"

fun bytes_word :: "u8 list \<Rightarrow> 'a::len word" where
  "bytes_word [] = 0"
| "bytes_word (b # bs) = ucast b OR push_bit 8 (bytes_word bs)"

lemma length_word_bytes [simp]: "length (word_bytes n w) = n"
  by (induction n arbitrary: w) simp_all

lemma bytes_word_bytes: "bytes_word (word_bytes n w) = take_bit (8 * n) (w :: 'a::len word)"
proof (induction n arbitrary: w)
  case (Suc n)
  have "ucast (ucast w :: u8) OR push_bit 8 (take_bit (8 * n) (drop_bit 8 w)) = take_bit (8 * Suc n) w"
    by (rule bit_eqI) (auto simp: bit_simps)
  with Suc.IH show ?case by simp
qed simp

lemma bytes_word_u32: "bytes_word (word_bytes 4 (w :: u32)) = w"
  by (simp add: bytes_word_bytes take_bit_word_eq_self)

lemma bytes_word_u64: "bytes_word (word_bytes 8 (w :: u64)) = w"
  by (simp add: bytes_word_bytes take_bit_word_eq_self)

definition encode_floats :: "u32 list \<Rightarrow> u8 list" where
  "encode_floats xs = concat (map (word_bytes 4) xs)"

fun decode_floats :: "nat \<Rightarrow> u8 list \<Rightarrow> u32 list" where
  "decode_floats 0 bs = []"
| "decode_floats (Suc n) bs = bytes_word (take 4 bs) # decode_floats n (drop 4 bs)"

lemma length_encode_floats: "length (encode_floats xs) = 4 * length xs"
  by (induction xs) (simp_all add: encode_floats_def)

lemma length_decode_floats [simp]: "length (decode_floats n bs) = n"
  by (induction n arbitrary: bs) simp_all

lemma decode_encode_floats: "decode_floats (length xs) (encode_floats xs @ rest) = xs"
  by (induction xs) (simp_all add: encode_floats_def bytes_word_u32)

definition encode_int64 :: "int \<Rightarrow> u8 list" where
  "encode_int64 i = word_bytes 8 (word_of_int i :: u64)"

definition decode_int64 :: "u8 list \<Rightarrow> int" where
  "decode_int64 bs = sint (bytes_word bs :: u64)"

lemma length_encode_int64 [simp]: "length (encode_int64 i) = 8"
  by (simp add: encode_int64_def)

lemma decode_encode_int64:
  "- (2 ^ 63) \<le> i \<Longrightarrow> i < 2 ^ 63 \<Longrightarrow> decode_int64 (encode_int64 i) = i"
  by (simp add: decode_int64_def encode_int64_def bytes_word_u64 sint_sbintrunc'
      signed_take_bit_int_eq_self)

section \<open>Decimal\<close>

definition digit_char :: "nat \<Rightarrow> char" where
  "digit_char n = char_of (48 + n)"

fun dec_nat :: "nat \<Rightarrow> string" where
  "dec_nat n = (if n < 10 then [digit_char n] else dec_nat (n div 10) @ [digit_char (n mod 10)])"

declare dec_nat.simps [simp del]

definition dec_int :: "int \<Rightarrow> string" where
  "dec_int i = (if i < 0 then CHR ''-'' # dec_nat (nat (- i)) else dec_nat (nat i))"

definition undec :: "string \<Rightarrow> nat" where
  "undec s = foldl (\<lambda>n c. n * 10 + (of_char c - 48)) 0 s"

lemma digit_value: "n < 10 \<Longrightarrow> (of_char (digit_char n) :: nat) - 48 = n"
  by (simp add: digit_char_def of_char_of)

lemma undec_dec: "undec (dec_nat n) = n"
proof (induction n rule: dec_nat.induct)
  case (1 n)
  show ?case
  proof (cases "n < 10")
    case True
    then show ?thesis by (simp add: dec_nat.simps [of n] undec_def digit_value)
  next
    case False
    have "undec (dec_nat n) = undec (dec_nat (n div 10)) * 10 + n mod 10"
      using False by (simp add: dec_nat.simps [of n] undec_def digit_value)
    with 1 False show ?thesis by simp
  qed
qed

lemma digit_in_range: "n < 10 \<Longrightarrow> digit_char n \<in> set ''0123456789''"
proof -
  have "list_all (\<lambda>m. digit_char m \<in> set ''0123456789'') [0..<10]" by code_simp
  then show "n < 10 \<Longrightarrow> ?thesis" by (simp add: list_all_iff)
qed

lemma dec_nat_digits: "c \<in> set (dec_nat n) \<Longrightarrow> c \<in> set ''0123456789''"
proof (induction n rule: dec_nat.induct)
  case (1 n)
  then show ?case using digit_in_range [of n] digit_in_range [of "n mod 10"]
    by (cases "n < 10") (auto simp: dec_nat.simps [of n])
qed

lemma dec_int_nonneg: "0 \<le> i \<Longrightarrow> dec_int i = dec_nat (nat i)"
  by (simp add: dec_int_def)

lemma dec_int_inj: "0 \<le> i \<Longrightarrow> 0 \<le> j \<Longrightarrow> dec_int i = dec_int j \<Longrightarrow> i = j"
  by (metis dec_int_nonneg undec_dec nat_eq_iff2)

text \<open>Two decimal numbers followed by the same separator character that is not a digit.\<close>

lemma digits_sep_inj:
  assumes "s @ c # x = t @ c # y" and "\<And>d. d \<in> set s \<Longrightarrow> d \<noteq> c" and "\<And>d. d \<in> set t \<Longrightarrow> d \<noteq> c"
  shows "s = t \<and> x = y"
proof -
  have "takeWhile (\<lambda>d. d \<noteq> c) (s @ c # x) = s" "takeWhile (\<lambda>d. d \<noteq> c) (t @ c # y) = t"
    using assms(2,3) by (auto simp: takeWhile_append)
  with assms(1) have "s = t" by metis
  with assms(1) show ?thesis by simp
qed

end
