(* ===== verification/Paged_Kv.thy ===== *)
theory Paged_Kv
  imports Byte_Encoding Array_Ops "HOL-Library.AList"
begin

text \<open>
  The hierarchically paged key/value cache of \<open>src/model/kv_cache.cpp\<close> (\<open>PagedKVCacheBase\<close>,
  \<open>PagedKVCache4M\<close>, \<open>PagedKVCache1T\<close>): logical token positions are mapped by a multi-level page
  table to blocks, resident in memory or evicted to one file each, least recently used first.
  The page table is an argument of the shared operations, as it is a set of virtual functions
  in the source. Whether a file operation succeeds is an argument \<open>io n stage\<close> of the number of
  file operations done so far and the stage within the operation. A block map is an
  association list in its iteration order, which the source leaves to the hash table.
\<close>

section \<open>Page tables\<close>

record 'r page_table =
  pt_empty :: 'r
  pt_in_range :: "int \<Rightarrow> bool"        \<comment> \<open>the index tests of \<open>resolve\<close> and \<open>alloc\<close>\<close>
  pt_find :: "'r \<Rightarrow> int \<Rightarrow> int"
  pt_set :: "'r \<Rightarrow> int \<Rightarrow> int \<Rightarrow> 'r"  \<comment> \<open>creates the missing tables on the way\<close>
  pt_entries :: int                    \<comment> \<open>block indexes the table can hold\<close>
  pt_name :: string

definition TABLE_ENTRIES :: int where
  "TABLE_ENTRIES = 4096"

definition in_table :: "int \<Rightarrow> bool" where
  "in_table i \<longleftrightarrow> \<not> (i < 0 \<or> i \<ge> TABLE_ENTRIES)"

text \<open>A table of entries, all \<open>-1\<close>, and a table of pointers to tables, all null.\<close>

type_synonym leaf_table = "int \<Rightarrow> int"
type_synonym 't node_table = "int \<Rightarrow> 't option"

definition leaf_new :: leaf_table where
  "leaf_new = (\<lambda>_. - 1)"

definition node_new :: "'t node_table" where
  "node_new = (\<lambda>_. None)"

definition resolve_4m :: "leaf_table node_table \<Rightarrow> int \<Rightarrow> int" where
  "resolve_4m l1 block_idx =
     (case l1 (block_idx div TABLE_ENTRIES) of
        None \<Rightarrow> - 1
      | Some l2 \<Rightarrow> l2 (block_idx mod TABLE_ENTRIES))"

definition set_4m :: "leaf_table node_table \<Rightarrow> int \<Rightarrow> int \<Rightarrow> leaf_table node_table" where
  "set_4m l1 block_idx bid =
     (let l1_idx = block_idx div TABLE_ENTRIES; l2_idx = block_idx mod TABLE_ENTRIES;
          l2 = (case l1 l1_idx of None \<Rightarrow> leaf_new | Some t \<Rightarrow> t)
      in l1(l1_idx := Some (l2(l2_idx := bid))))"

definition range_4m :: "int \<Rightarrow> bool" where
  "range_4m block_idx \<longleftrightarrow> block_idx \<ge> 0 \<and> in_table (block_idx div TABLE_ENTRIES) \<and>
     in_table (block_idx mod TABLE_ENTRIES)"

definition table_4m :: "leaf_table node_table page_table" where
  "table_4m = \<lparr>pt_empty = node_new, pt_in_range = range_4m, pt_find = resolve_4m, pt_set = set_4m,
     pt_entries = TABLE_ENTRIES * TABLE_ENTRIES, pt_name = ''paged_kv''\<rparr>"

definition resolve_1t :: "leaf_table node_table node_table \<Rightarrow> int \<Rightarrow> int" where
  "resolve_1t l1 block_idx =
     (let l1_idx = block_idx div (TABLE_ENTRIES * TABLE_ENTRIES);
          r = block_idx mod (TABLE_ENTRIES * TABLE_ENTRIES) in
      case l1 l1_idx of
        None \<Rightarrow> - 1
      | Some l2 \<Rightarrow> (case l2 (r div TABLE_ENTRIES) of None \<Rightarrow> - 1 | Some l3 \<Rightarrow> l3 (r mod TABLE_ENTRIES)))"

definition set_1t ::
  "leaf_table node_table node_table \<Rightarrow> int \<Rightarrow> int \<Rightarrow> leaf_table node_table node_table" where
  "set_1t l1 block_idx bid =
     (let l1_idx = block_idx div (TABLE_ENTRIES * TABLE_ENTRIES);
          r = block_idx mod (TABLE_ENTRIES * TABLE_ENTRIES);
          l2_idx = r div TABLE_ENTRIES; l3_idx = r mod TABLE_ENTRIES;
          l2 = (case l1 l1_idx of None \<Rightarrow> node_new | Some t \<Rightarrow> t);
          l3 = (case l2 l2_idx of None \<Rightarrow> leaf_new | Some t \<Rightarrow> t)
      in l1(l1_idx := Some (l2(l2_idx := Some (l3(l3_idx := bid))))))"

definition range_1t :: "int \<Rightarrow> bool" where
  "range_1t block_idx \<longleftrightarrow> block_idx \<ge> 0 \<and> in_table (block_idx div (TABLE_ENTRIES * TABLE_ENTRIES)) \<and>
     in_table (block_idx mod (TABLE_ENTRIES * TABLE_ENTRIES) div TABLE_ENTRIES) \<and>
     in_table (block_idx mod (TABLE_ENTRIES * TABLE_ENTRIES) mod TABLE_ENTRIES)"

definition table_1t :: "leaf_table node_table node_table page_table" where
  "table_1t = \<lparr>pt_empty = node_new, pt_in_range = range_1t, pt_find = resolve_1t, pt_set = set_1t,
     pt_entries = TABLE_ENTRIES * TABLE_ENTRIES * TABLE_ENTRIES, pt_name = ''paged_kv1t''\<rparr>"

section \<open>State\<close>

record physical_block =
  pb_id :: int
  pb_k :: "u32 list"
  pb_v :: "u32 list"
  pb_dirty :: bool
  pb_access :: int
  pb_on_disk :: bool
  pb_file :: string

record 'r paged_layer =
  pl_root :: "'r option"
  pl_blocks :: "(int \<times> physical_block) list"
  pl_pos :: int

record 'r paged_kv =
  pk_num_layers :: nat
  pk_heads :: int
  pk_dim :: int
  pk_block_size :: int
  pk_limit :: nat
  pk_used :: nat
  pk_path :: string
  pk_layers :: "'r paged_layer list"
  pk_access :: int
  pk_next_id :: int
  pk_disk :: "string \<Rightarrow> u8 list option"   \<comment> \<open>the files\<close>
  pk_ops :: nat                           \<comment> \<open>file operations so far\<close>
  pk_queue :: "(int \<times> int \<times> bool) list"  \<comment> \<open>layer, block and \<open>evict\<close> of each request\<close>
  pk_inflight :: "(int \<times> int) set"
  pk_loads :: nat

type_synonym io = "nat \<Rightarrow> nat \<Rightarrow> bool"

definition INT64_MAX :: int where
  "INT64_MAX = 2 ^ 63 - 1"

definition paged_new :: "'r page_table \<Rightarrow> nat \<Rightarrow> int \<Rightarrow> int \<Rightarrow> int \<Rightarrow> nat \<Rightarrow> string \<Rightarrow> 'r paged_kv" where
  "paged_new pt num_layers num_heads head_dim block_size limit path =
     \<lparr>pk_num_layers = num_layers, pk_heads = num_heads, pk_dim = head_dim, pk_block_size = block_size,
      pk_limit = limit, pk_used = 0, pk_path = path,
      pk_layers = replicate num_layers \<lparr>pl_root = Some (pt_empty pt), pl_blocks = [], pl_pos = 0\<rparr>,
      pk_access = 0, pk_next_id = 0, pk_disk = (\<lambda>_. None), pk_ops = 0, pk_queue = [], pk_inflight = {},
      pk_loads = 0\<rparr>"

definition valid_layer :: "int \<Rightarrow> 'r paged_kv \<Rightarrow> bool" where
  "valid_layer layer pk \<longleftrightarrow> \<not> (layer < 0 \<or> layer \<ge> int (pk_num_layers pk))"

definition layer_at :: "int \<Rightarrow> 'r paged_kv \<Rightarrow> 'r paged_layer" where
  "layer_at layer pk = pk_layers pk ! nat layer"

definition set_layer :: "int \<Rightarrow> 'r paged_layer \<Rightarrow> 'r paged_kv \<Rightarrow> 'r paged_kv" where
  "set_layer layer ls pk = pk\<lparr>pk_layers := (pk_layers pk)[nat layer := ls]\<rparr>"

text \<open>\<open>blocks.find\<close>, and the update of a found block through its iterator.\<close>

definition find_block :: "int \<Rightarrow> int \<Rightarrow> 'r paged_kv \<Rightarrow> physical_block option" where
  "find_block layer bid pk = map_of (pl_blocks (layer_at layer pk)) bid"

definition put_block :: "int \<Rightarrow> int \<Rightarrow> physical_block \<Rightarrow> 'r paged_kv \<Rightarrow> 'r paged_kv" where
  "put_block layer bid b pk =
     set_layer layer ((layer_at layer pk)\<lparr>pl_blocks :=
         map (\<lambda>(i, c). (i, if i = bid then b else c)) (pl_blocks (layer_at layer pk))\<rparr>) pk"

definition per_block :: "'r paged_kv \<Rightarrow> int" where
  "per_block pk = pk_heads pk * pk_block_size pk * pk_dim pk"

definition block_bytes :: "'r paged_kv \<Rightarrow> nat" where
  "block_bytes pk = nat (per_block pk) * 2 * 4"

definition block_resident_ok :: "u32 list \<Rightarrow> u32 list \<Rightarrow> int \<Rightarrow> bool" where
  "block_resident_ok k v need \<longleftrightarrow>
     \<not> need \<le> 0 \<and> \<not> (k = [] \<or> v = []) \<and> \<not> int (length k) < need \<and> \<not> int (length v) < need"

definition block_disk_path :: "'r page_table \<Rightarrow> int \<Rightarrow> int \<Rightarrow> 'r paged_kv \<Rightarrow> string" where
  "block_disk_path pt layer bid pk =
     (if pk_path pk \<noteq> [] then
        pk_path pk @ (if last (pk_path pk) \<noteq> CHR ''/'' \<and> last (pk_path pk) \<noteq> CHR 0x5C then ''/'' else [])
      else ''/tmp/TransFormers-Fusion_'' @ pt_name pt @ ''/'')
     @ pt_name pt @ ''_l'' @ dec_int layer @ ''_b'' @ dec_int bid @ ''.bin''"

section \<open>Eviction\<close>

definition encode_block :: "u32 list \<Rightarrow> u32 list \<Rightarrow> u8 list" where
  "encode_block k v =
     encode_int64 (int (length k)) @ encode_floats k @ encode_int64 (int (length v)) @ encode_floats v"

text \<open>Stage 0 creates the directory and opens the file; 1 to 4 are the writes; 5 closes it.\<close>

definition evict_to_disk :: "'r page_table \<Rightarrow> io \<Rightarrow> int \<Rightarrow> int \<Rightarrow> 'r paged_kv \<Rightarrow> 'r paged_kv" where
  "evict_to_disk pt io layer bid pk =
     (if \<not> valid_layer layer pk then pk
      else case find_block layer bid pk of
        None \<Rightarrow> pk
      | Some b \<Rightarrow>
         if pb_on_disk b then pk
         else if per_block pk \<le> 0 then pk
         else if \<not> block_resident_ok (pb_k b) (pb_v b) (per_block pk) then pk
         else
           (let path = block_disk_path pt layer bid pk; n = pk_ops pk; pk = pk\<lparr>pk_ops := n + 1\<rparr> in
            if \<not> io n 0 then pk
            else if \<not> (io n 1 \<and> io n 2 \<and> io n 3 \<and> io n 4 \<and> io n 5)
            then pk\<lparr>pk_disk := (pk_disk pk)(path := None)\<rparr>
            else
              (let used = (if pk_used pk \<ge> block_bytes pk then pk_used pk - block_bytes pk else 0) in
               put_block layer bid (b\<lparr>pb_k := [], pb_v := [], pb_on_disk := True, pb_file := path\<rparr>)
                 (pk\<lparr>pk_used := used, pk_disk := (pk_disk pk)(path := Some (encode_block (pb_k b) (pb_v b)))\<rparr>))))"

fun lru_pick :: "(int \<times> physical_block) list \<Rightarrow> int \<Rightarrow> int \<Rightarrow> int" where
  "lru_pick [] oldest lru = lru"
| "lru_pick ((bid, b) # bs) oldest lru =
     (if \<not> pb_on_disk b \<and> pb_access b < oldest then lru_pick bs (pb_access b) bid
      else lru_pick bs oldest lru)"

definition evict_lru :: "'r page_table \<Rightarrow> io \<Rightarrow> int \<Rightarrow> 'r paged_kv \<Rightarrow> 'r paged_kv" where
  "evict_lru pt io layer pk =
     (if \<not> valid_layer layer pk then pk
      else
        (let lru_id = lru_pick (pl_blocks (layer_at layer pk)) INT64_MAX (- 1) in
         if lru_id \<ge> 0 then evict_to_disk pt io layer lru_id pk else pk))"

text \<open>The loop that makes room for a block, left when an eviction frees nothing.\<close>

function make_room :: "'r page_table \<Rightarrow> io \<Rightarrow> int \<Rightarrow> nat \<Rightarrow> 'r paged_kv \<Rightarrow> 'r paged_kv" where
  "make_room pt io layer bytes pk =
     (if pk_used pk + bytes > pk_limit pk then
        (let prev = pk_used pk; pk = evict_lru pt io layer pk in
         if pk_used pk \<ge> prev then pk else make_room pt io layer bytes pk)
      else pk)"
  by pat_completeness auto
termination by (relation "measure (\<lambda>(pt, io, layer, bytes, pk). pk_used pk)") (auto simp: Let_def)

declare make_room.simps [simp del]

section \<open>Loading\<close>

definition decode_block :: "nat \<Rightarrow> u8 list \<Rightarrow> (u32 list \<times> u32 list) option" where
  "decode_block per bs =
     (if length bs < 8 then None
      else if decode_int64 (take 8 bs) \<noteq> int per then None
      else if length bs < 8 + 4 * per then None
      else if length bs < 8 + 4 * per + 8 then None
      else if decode_int64 (take 8 (drop (8 + 4 * per) bs)) \<noteq> int per then None
      else if length bs < 8 + 4 * per + 8 + 4 * per then None
      else Some (decode_floats per (drop 8 bs), decode_floats per (drop (8 + 4 * per + 8) bs)))"

text \<open>Stage 0 opens the file; 1 to 4 are the reads.\<close>

definition load_block :: "'r page_table \<Rightarrow> io \<Rightarrow> int \<Rightarrow> int \<Rightarrow> 'r paged_kv \<Rightarrow> 'r paged_kv" where
  "load_block pt io layer bid pk =
     (if \<not> valid_layer layer pk then pk
      else case find_block layer bid pk of
        None \<Rightarrow> pk
      | Some b \<Rightarrow>
         if \<not> pb_on_disk b then pk
         else if pb_file b = [] then pk
         else if pk_heads pk \<le> 0 \<or> pk_block_size pk \<le> 0 \<or> pk_dim pk \<le> 0 then pk
         else if per_block pk \<le> 0 then pk
         else
           (let bytes = block_bytes pk;
                pk = (if pk_limit pk > 0 then make_room pt io layer bytes pk else pk) in
            if pk_limit pk > 0 \<and> pk_used pk + bytes > pk_limit pk then pk
            else
              (let n = pk_ops pk; pk = pk\<lparr>pk_ops := n + 1\<rparr> in
               if \<not> io n 0 then pk
               else case pk_disk pk (pb_file b) of
                 None \<Rightarrow> pk
               | Some bs \<Rightarrow>
                  if \<not> (io n 1 \<and> io n 2 \<and> io n 3 \<and> io n 4) then pk
                  else case decode_block (nat (per_block pk)) bs of
                    None \<Rightarrow> pk
                  | Some (k, v) \<Rightarrow>
                     put_block layer bid (b\<lparr>pb_k := k, pb_v := v, pb_on_disk := False, pb_file := []\<rparr>)
                       (pk\<lparr>pk_used := pk_used pk + bytes, pk_disk := (pk_disk pk)(pb_file b := None)\<rparr>))))"

section \<open>The asynchronous loader\<close>

definition block_is_resident :: "int \<Rightarrow> int \<Rightarrow> 'r paged_kv \<Rightarrow> bool" where
  "block_is_resident layer bid pk =
     (if \<not> valid_layer layer pk then False
      else case find_block layer bid pk of None \<Rightarrow> False | Some b \<Rightarrow> \<not> pb_on_disk b)"

definition enqueue_async :: "int \<Rightarrow> int \<Rightarrow> bool \<Rightarrow> 'r paged_kv \<Rightarrow> bool \<times> 'r paged_kv" where
  "enqueue_async layer bid evict pk =
     (if \<not> valid_layer layer pk \<or> bid < 0 then (False, pk)
      else if (layer, bid) \<in> pk_inflight pk then (False, pk)
      else (True, pk\<lparr>pk_inflight := insert (layer, bid) (pk_inflight pk),
                     pk_queue := pk_queue pk @ [(layer, bid, evict)]\<rparr>))"

text \<open>One turn of the worker's loop.\<close>

definition worker_step :: "'r page_table \<Rightarrow> io \<Rightarrow> 'r paged_kv \<Rightarrow> 'r paged_kv" where
  "worker_step pt io pk =
     (case pk_queue pk of
        [] \<Rightarrow> pk
      | (layer, bid, evict) # q \<Rightarrow>
         (let pk = pk\<lparr>pk_queue := q\<rparr>;
              pk = (if evict then evict_to_disk pt io layer bid pk else load_block pt io layer bid pk)
          in pk\<lparr>pk_inflight := pk_inflight pk - {(layer, bid)},
                pk_loads := (if evict then pk_loads pk else pk_loads pk + 1)\<rparr>))"

text \<open>The wait for a request, given up after \<open>patience\<close> turns of the worker.\<close>

fun worker_until :: "'r page_table \<Rightarrow> io \<Rightarrow> nat \<Rightarrow> int \<times> int \<Rightarrow> 'r paged_kv \<Rightarrow> 'r paged_kv" where
  "worker_until pt io 0 key pk = pk"
| "worker_until pt io (Suc patience) key pk =
     (if key \<notin> pk_inflight pk then pk
      else worker_until pt io patience key (worker_step pt io pk))"

definition ensure_resident ::
  "'r page_table \<Rightarrow> io \<Rightarrow> nat \<Rightarrow> int \<Rightarrow> int \<Rightarrow> 'r paged_kv \<Rightarrow> bool \<times> 'r paged_kv" where
  "ensure_resident pt io patience layer bid pk =
     (if block_is_resident layer bid pk then (True, pk)
      else
        (let pk = snd (enqueue_async layer bid False pk);
             pk = worker_until pt io patience (layer, bid) pk
         in ((layer, bid) \<notin> pk_inflight pk \<and> block_is_resident layer bid pk, pk)))"

section \<open>Resolving and allocating\<close>

definition resolve_block_id :: "'r page_table \<Rightarrow> int \<Rightarrow> int \<Rightarrow> 'r paged_kv \<Rightarrow> int" where
  "resolve_block_id pt layer logical_pos pk =
     (if \<not> valid_layer layer pk then - 1
      else if logical_pos < 0 \<or> pk_block_size pk \<le> 0 then - 1
      else
        (let block_idx = logical_pos div pk_block_size pk in
         if \<not> pt_in_range pt block_idx then - 1
         else case pl_root (layer_at layer pk) of
           None \<Rightarrow> - 1
         | Some r \<Rightarrow> pt_find pt r block_idx))"

definition max_logical :: "'r page_table \<Rightarrow> 'r paged_kv \<Rightarrow> int" where
  "max_logical pt pk = pt_entries pt * pk_block_size pk"

definition set_entry :: "'r page_table \<Rightarrow> int \<Rightarrow> int \<Rightarrow> int \<Rightarrow> 'r paged_kv \<Rightarrow> 'r paged_kv" where
  "set_entry pt layer block_idx bid pk =
     set_layer layer ((layer_at layer pk)\<lparr>pl_root :=
       map_option (\<lambda>r. pt_set pt r block_idx bid) (pl_root (layer_at layer pk))\<rparr>) pk"

definition insert_block :: "int \<Rightarrow> int \<Rightarrow> physical_block \<Rightarrow> 'r paged_kv \<Rightarrow> 'r paged_kv" where
  "insert_block layer bid b pk =
     set_layer layer ((layer_at layer pk)\<lparr>pl_blocks := AList.update bid b (pl_blocks (layer_at layer pk))\<rparr>) pk"

definition alloc_block_id :: "'r page_table \<Rightarrow> io \<Rightarrow> int \<Rightarrow> int \<Rightarrow> 'r paged_kv \<Rightarrow> int \<times> 'r paged_kv" where
  "alloc_block_id pt io layer logical_pos pk =
     (if \<not> valid_layer layer pk then (- 1, pk)
      else if logical_pos < 0 \<or> pk_block_size pk \<le> 0 then (- 1, pk)
      else if pk_heads pk \<le> 0 \<or> pk_dim pk \<le> 0 then (- 1, pk)
      else
        (let block_idx = logical_pos div pk_block_size pk in
         if \<not> pt_in_range pt block_idx then (- 1, pk)
         else if pk_next_id pk < 0 \<or> pk_next_id pk = INT64_MAX then (- 1, pk)
         else if block_idx * pk_block_size pk \<ge> max_logical pt pk then (- 1, pk)
         else if pl_root (layer_at layer pk) = None then (- 1, pk)
         else
           (let bid = pk_next_id pk;
                pk = set_entry pt layer block_idx bid (pk\<lparr>pk_next_id := bid + 1\<rparr>) in
            if per_block pk \<le> 0 then (- 1, set_entry pt layer block_idx (- 1) pk)
            else
              (let pk = pk\<lparr>pk_access := pk_access pk + 1\<rparr>;
                   blk = \<lparr>pb_id = bid, pb_k = replicate (nat (per_block pk)) 0,
                          pb_v = replicate (nat (per_block pk)) 0, pb_dirty = False,
                          pb_access = pk_access pk, pb_on_disk = False, pb_file = []\<rparr>;
                   bytes = block_bytes pk;
                   pk = (if pk_limit pk > 0 then make_room pt io layer bytes pk else pk) in
               if pk_limit pk > 0 \<and> pk_used pk + bytes > pk_limit pk
               then (- 1, set_entry pt layer block_idx (- 1) pk)
               else (bid, (insert_block layer bid blk pk)\<lparr>pk_used := pk_used pk + bytes\<rparr>)))))"

section \<open>Appending and reading\<close>

text \<open>
  \<open>memcpy\<close> at a block's row; \<open>None\<close> is an access outside the block or the tensor. The lists
  \<open>k\<close> and \<open>v\<close> are the tensors' elements, \<open>numel\<close> their length.
\<close>

definition advance_pos :: "int \<Rightarrow> int \<Rightarrow> int \<Rightarrow> 'r paged_kv \<Rightarrow> 'r paged_kv" where
  "advance_pos layer logical_pos k_num pk =
     (let tokens_written = (if pk_heads pk > 0 \<and> pk_dim pk > 0 then k_num div (pk_heads pk * pk_dim pk) else 0);
          new_end = logical_pos + (if tokens_written > 0 then tokens_written else 1);
          ls = layer_at layer pk
      in if new_end > pl_pos ls then set_layer layer (ls\<lparr>pl_pos := new_end\<rparr>) pk else pk)"

definition write_block ::
  "int \<Rightarrow> int \<Rightarrow> int \<Rightarrow> u32 list \<Rightarrow> u32 list \<Rightarrow> physical_block \<Rightarrow> 'r paged_kv \<Rightarrow> 'r paged_kv option" where
  "write_block layer bid logical_pos k v b pk =
     (let pk = pk\<lparr>pk_access := pk_access pk + 1\<rparr>;
          b = b\<lparr>pb_access := pk_access pk, pb_dirty := True\<rparr>;
          pk = put_block layer bid b pk;
          offset_in_block = logical_pos mod pk_block_size pk;
          k_num = int (length k); v_num = int (length v);
          max_floats = per_block pk;
          write_offset = offset_in_block * pk_heads pk * pk_dim pk in
      if offset_in_block < 0 \<or> offset_in_block \<ge> pk_block_size pk then Some pk
      else if k_num \<le> 0 \<or> v_num \<le> 0 then Some pk
      else if write_offset < 0 \<or> write_offset \<ge> max_floats then Some pk
      else
        (let copy_k = min k_num (max_floats - write_offset);
             copy_v = min v_num (max_floats - write_offset);
             copy_k = (if write_offset + copy_k > int (length (pb_k b)) then int (length (pb_k b)) - write_offset else copy_k);
             copy_v = (if write_offset + copy_v > int (length (pb_v b)) then int (length (pb_v b)) - write_offset else copy_v) in
         Option.bind (if copy_k > 0 then memcpy (pb_k b) (nat write_offset) k 0 (nat copy_k) else Some (pb_k b)) (\<lambda>kd.
         Option.bind (if copy_v > 0 then memcpy (pb_v b) (nat write_offset) v 0 (nat copy_v) else Some (pb_v b)) (\<lambda>vd.
         Some (advance_pos layer logical_pos k_num (put_block layer bid (b\<lparr>pb_k := kd, pb_v := vd\<rparr>) pk))))))"

definition paged_append ::
  "'r page_table \<Rightarrow> io \<Rightarrow> nat \<Rightarrow> int \<Rightarrow> int \<Rightarrow> u32 list \<Rightarrow> u32 list \<Rightarrow> 'r paged_kv \<Rightarrow> 'r paged_kv option" where
  "paged_append pt io patience layer logical_pos k v pk =
     (if \<not> valid_layer layer pk then Some pk
      else if logical_pos < 0 then Some pk
      else
        (let found = resolve_block_id pt layer logical_pos pk;
             (bid, pk) = (if found < 0 then alloc_block_id pt io layer logical_pos pk else (found, pk)) in
         if bid < 0 then Some pk
         else case find_block layer bid pk of
           None \<Rightarrow> Some pk
         | Some b0 \<Rightarrow>
            (let (ready, pk) = (if pb_on_disk b0 then ensure_resident pt io patience layer bid pk else (True, pk)) in
             if \<not> ready then Some pk
             else case find_block layer bid pk of
               None \<Rightarrow> Some pk
             | Some b \<Rightarrow>
                if pb_on_disk b then Some pk
                else if \<not> block_resident_ok (pb_k b) (pb_v b) (per_block pk) then Some pk
                else write_block layer bid logical_pos k v b pk)))"

text \<open>One turn of the loop of \<open>get_range\<close>; the output arrays have \<open>len * heads * dim\<close> elements.\<close>

definition read_token ::
  "'r page_table \<Rightarrow> io \<Rightarrow> int \<Rightarrow> int \<Rightarrow> int \<Rightarrow> 'r paged_kv \<times> u32 list \<times> u32 list \<Rightarrow>
   ('r paged_kv \<times> u32 list \<times> u32 list) option" where
  "read_token pt io layer start pos = (\<lambda>(pk, k_out, v_out).
     (let bid = resolve_block_id pt layer pos pk in
      if bid < 0 then Some (pk, k_out, v_out)
      else case find_block layer bid pk of
        None \<Rightarrow> Some (pk, k_out, v_out)
      | Some b0 \<Rightarrow>
         (let pk = (if pb_on_disk b0 then load_block pt io layer bid pk else pk) in
          case find_block layer bid pk of
            None \<Rightarrow> Some (pk, k_out, v_out)
          | Some b \<Rightarrow>
             if pb_on_disk b then Some (pk, k_out, v_out)
             else if \<not> block_resident_ok (pb_k b) (pb_v b) (per_block pk) then Some (pk, k_out, v_out)
             else
               (let pk = pk\<lparr>pk_access := pk_access pk + 1\<rparr>;
                    pk = put_block layer bid (b\<lparr>pb_access := pk_access pk\<rparr>) pk;
                    head_offset = pos mod pk_block_size pk * pk_heads pk * pk_dim pk;
                    copy_n = pk_heads pk * pk_dim pk;
                    out_offset = (pos - start) * pk_heads pk * pk_dim pk in
                if copy_n \<le> 0 \<or> head_offset < 0 \<or> head_offset + copy_n > per_block pk \<or>
                   head_offset + copy_n > int (length (pb_k b)) \<or> head_offset + copy_n > int (length (pb_v b)) \<or>
                   out_offset < 0 \<or> out_offset + copy_n > int (length k_out) \<or> out_offset + copy_n > int (length v_out)
                then Some (pk, k_out, v_out)
                else
                  Option.bind (memcpy k_out (nat out_offset) (pb_k b) (nat head_offset) (nat copy_n)) (\<lambda>k_out.
                  Option.bind (memcpy v_out (nat out_offset) (pb_v b) (nat head_offset) (nat copy_n)) (\<lambda>v_out.
                  Some (pk, k_out, v_out)))))))"

definition paged_get_range ::
  "'r page_table \<Rightarrow> io \<Rightarrow> int \<Rightarrow> int \<Rightarrow> int \<Rightarrow> 'r paged_kv \<Rightarrow> ('r paged_kv \<times> u32 list \<times> u32 list) option" where
  "paged_get_range pt io layer start end pk =
     (if \<not> valid_layer layer pk then Some (pk, [], [])
      else
        (let start = max start 0; end = min end (pl_pos (layer_at layer pk)) in
         if end \<le> start then Some (pk, [], [])
         else if pk_heads pk \<le> 0 \<or> pk_dim pk \<le> 0 \<or> pk_block_size pk \<le> 0 then Some (pk, [], [])
         else
           (let n = nat ((end - start) * pk_heads pk * pk_dim pk) in
            fold_option (read_token pt io layer start) [start..end - 1] (pk, replicate n 0, replicate n 0))))"

definition paged_get_block ::
  "'r page_table \<Rightarrow> io \<Rightarrow> int \<Rightarrow> int \<Rightarrow> 'r paged_kv \<Rightarrow> 'r paged_kv \<times> u32 list \<times> u32 list" where
  "paged_get_block pt io layer logical_pos pk =
     (if \<not> valid_layer layer pk \<or> logical_pos < 0 then (pk, [], [])
      else
        (let bid = resolve_block_id pt layer logical_pos pk in
         if bid < 0 then (pk, [], [])
         else case find_block layer bid pk of
           None \<Rightarrow> (pk, [], [])
         | Some b0 \<Rightarrow>
            (let pk = (if pb_on_disk b0 then load_block pt io layer bid pk else pk) in
             case find_block layer bid pk of
               None \<Rightarrow> (pk, [], [])
             | Some b \<Rightarrow>
                if pb_on_disk b then (pk, [], [])
                else if pk_heads pk \<le> 0 \<or> pk_block_size pk \<le> 0 \<or> pk_dim pk \<le> 0 then (pk, [], [])
                else if \<not> block_resident_ok (pb_k b) (pb_v b) (per_block pk) then (pk, [], [])
                else
                  (let pk = pk\<lparr>pk_access := pk_access pk + 1\<rparr>; need = nat (per_block pk) in
                   (put_block layer bid (b\<lparr>pb_access := pk_access pk\<rparr>) pk,
                    take need (pb_k b), take need (pb_v b))))))"

definition prefetch :: "int \<Rightarrow> int \<Rightarrow> 'r paged_kv \<Rightarrow> 'r paged_kv" where
  "prefetch layer bid pk =
     (if block_is_resident layer bid pk then pk else snd (enqueue_async layer bid False pk))"

definition prefetch_range :: "'r page_table \<Rightarrow> int \<Rightarrow> int \<Rightarrow> int \<Rightarrow> 'r paged_kv \<Rightarrow> 'r paged_kv" where
  "prefetch_range pt layer start end pk =
     (if \<not> valid_layer layer pk \<or> pk_block_size pk \<le> 0 then pk
      else
        (let start = max start 0 in
         if end \<le> start then pk
         else fold (\<lambda>blk pk.
                let bid = resolve_block_id pt layer (blk * pk_block_size pk) pk in
                if bid \<ge> 0 then prefetch layer bid pk else pk)
              [start div pk_block_size pk..(end - 1) div pk_block_size pk] pk))"

section \<open>Whole-cache operations\<close>

definition flush_layer :: "'r page_table \<Rightarrow> io \<Rightarrow> int \<Rightarrow> 'r paged_kv \<Rightarrow> 'r paged_kv" where
  "flush_layer pt io layer pk =
     fold (evict_to_disk pt io layer)
       (map fst (filter (\<lambda>(i, b). \<not> pb_on_disk b \<and> pb_dirty b) (pl_blocks (layer_at layer pk)))) pk"

definition layer_indexes :: "'r paged_kv \<Rightarrow> int list" where
  "layer_indexes pk = map int [0..<pk_num_layers pk]"

definition flush_to_disk :: "'r page_table \<Rightarrow> io \<Rightarrow> 'r paged_kv \<Rightarrow> 'r paged_kv" where
  "flush_to_disk pt io pk = fold (flush_layer pt io) (layer_indexes pk) pk"

text \<open>\<open>load_block\<close> tests \<open>on_disk\<close> itself.\<close>

definition load_layer :: "'r page_table \<Rightarrow> io \<Rightarrow> int \<Rightarrow> 'r paged_kv \<Rightarrow> 'r paged_kv" where
  "load_layer pt io layer pk =
     fold (load_block pt io layer) (map fst (pl_blocks (layer_at layer pk))) pk"

definition load_from_disk :: "'r page_table \<Rightarrow> io \<Rightarrow> 'r paged_kv \<Rightarrow> 'r paged_kv" where
  "load_from_disk pt io pk = fold (load_layer pt io) (layer_indexes pk) pk"

definition unload_block :: "'r page_table \<Rightarrow> io \<Rightarrow> int \<Rightarrow> int \<Rightarrow> 'r paged_kv \<Rightarrow> 'r paged_kv" where
  "unload_block pt io layer bid pk =
     (case find_block layer bid pk of
        None \<Rightarrow> pk
      | Some b \<Rightarrow>
         if \<not> pb_on_disk b then evict_to_disk pt io layer bid pk
         else put_block layer bid (b\<lparr>pb_k := [], pb_v := []\<rparr>) pk)"

definition unload_layer :: "'r page_table \<Rightarrow> io \<Rightarrow> int \<Rightarrow> 'r paged_kv \<Rightarrow> 'r paged_kv" where
  "unload_layer pt io layer pk =
     fold (unload_block pt io layer) (map fst (pl_blocks (layer_at layer pk))) pk"

definition unload_memory :: "'r page_table \<Rightarrow> io \<Rightarrow> 'r paged_kv \<Rightarrow> 'r paged_kv" where
  "unload_memory pt io pk = fold (unload_layer pt io) (layer_indexes pk) (flush_to_disk pt io pk)"

definition clear_files :: "'r paged_layer \<Rightarrow> (string \<Rightarrow> u8 list option) \<Rightarrow> (string \<Rightarrow> u8 list option)" where
  "clear_files ls disk =
     fold (\<lambda>(i, b) d. if pb_on_disk b \<and> pb_file b \<noteq> [] then d(pb_file b := None) else d) (pl_blocks ls) disk"

definition paged_clear :: "'r page_table \<Rightarrow> 'r paged_kv \<Rightarrow> 'r paged_kv" where
  "paged_clear pt pk =
     pk\<lparr>pk_disk := fold clear_files (pk_layers pk) (pk_disk pk),
        pk_layers := map (\<lambda>ls. ls\<lparr>pl_blocks := [], pl_pos := 0, pl_root := Some (pt_empty pt)\<rparr>) (pk_layers pk),
        pk_used := 0, pk_next_id := 0, pk_access := 0\<rparr>"

definition num_physical_blocks :: "'r paged_kv \<Rightarrow> nat" where
  "num_physical_blocks pk = (\<Sum>ls\<leftarrow>pk_layers pk. length (pl_blocks ls))"

definition num_disk_blocks :: "'r paged_kv \<Rightarrow> nat" where
  "num_disk_blocks pk = (\<Sum>ls\<leftarrow>pk_layers pk. length (filter (\<lambda>(i, b). pb_on_disk b) (pl_blocks ls)))"

definition paged_context_len :: "'r paged_kv \<Rightarrow> int" where
  "paged_context_len pk = (case pk_layers pk of [] \<Rightarrow> 0 | ls # _ \<Rightarrow> pl_pos ls)"

end
