(* ===== verification/Paged_Table.thy ===== *)
theory Paged_Table
  imports Paged_Kv
begin

text \<open>
  The interface between the shared paging code and the page tables (the virtual functions
  \<open>create_root\<close>, \<open>resolve_block_id\<close> and the table part of \<open>alloc_block_id\<close>), with the
  two-level and the three-level table as its implementations.
\<close>

locale page_table_laws =
  fixes pt :: "'r page_table"
  assumes find_empty: "pt_find pt (pt_empty pt) i = - 1"
    and find_set_same: "pt_in_range pt i \<Longrightarrow> pt_find pt (pt_set pt r i x) i = x"
    and find_set_other: "pt_in_range pt i \<Longrightarrow> pt_in_range pt j \<Longrightarrow> i \<noteq> j \<Longrightarrow>
      pt_find pt (pt_set pt r i x) j = pt_find pt r j"
    and range_capacity: "pt_in_range pt i \<longleftrightarrow> 0 \<le> i \<and> i < pt_entries pt"
begin

text \<open>A sequence of stores reads back, at every index, the last value stored there.\<close>

definition stored :: "(int \<times> int) list \<Rightarrow> int \<Rightarrow> int" where
  "stored ops i = (case filter (\<lambda>(j, x). j = i) (rev ops) of [] \<Rightarrow> - 1 | (j, x) # _ \<Rightarrow> x)"

definition store_all :: "(int \<times> int) list \<Rightarrow> 'r" where
  "store_all ops = fold (\<lambda>(i, x) r. pt_set pt r i x) ops (pt_empty pt)"

lemma find_store_all:
  assumes "\<forall>(j, x) \<in> set ops. 0 \<le> j \<and> j < pt_entries pt" and "0 \<le> i" and "i < pt_entries pt"
  shows "pt_find pt (store_all ops) i = stored ops i"
  using assms(1)
proof (induction ops rule: rev_induct)
  case Nil
  then show ?case by (simp add: store_all_def stored_def find_empty)
next
  case (snoc op ops)
  obtain j x where op: "op = (j, x)" by (cases op)
  have j: "pt_in_range pt j" "pt_in_range pt i" using snoc.prems assms(2,3) by (auto simp: op range_capacity)
  have ih: "pt_find pt (store_all ops) i = stored ops i" using snoc by simp
  show ?case
  proof (cases "i = j")
    case True
    then show ?thesis using find_set_same [OF j(1)] by (simp add: op store_all_def stored_def)
  next
    case False
    then show ?thesis using find_set_other [OF j] ih by (simp add: op store_all_def stored_def)
  qed
qed

end

lemma div_mod_4096_inj:
  "(i :: int) div 4096 = j div 4096 \<Longrightarrow> i mod 4096 = j mod 4096 \<Longrightarrow> i = j"
  by (metis mult_div_mod_eq)

lemma div_mod_3_inj:
  assumes "(i :: int) div (4096 * 4096) = j div (4096 * 4096)"
    and "i mod (4096 * 4096) div 4096 = j mod (4096 * 4096) div 4096"
    and "i mod (4096 * 4096) mod 4096 = j mod (4096 * 4096) mod 4096"
  shows "i = j"
proof -
  have "i mod (4096 * 4096) = j mod (4096 * 4096)" by (rule div_mod_4096_inj [OF assms(2,3)])
  with assms(1) show ?thesis by (metis mult_div_mod_eq)
qed

lemma table_4m_fields:
  "pt_empty table_4m = node_new" "pt_find table_4m = resolve_4m" "pt_set table_4m = set_4m"
  "pt_in_range table_4m = range_4m" "pt_entries table_4m = TABLE_ENTRIES * TABLE_ENTRIES"
  by (simp_all add: table_4m_def)

lemma table_1t_fields:
  "pt_empty table_1t = node_new" "pt_find table_1t = resolve_1t" "pt_set table_1t = set_1t"
  "pt_in_range table_1t = range_1t" "pt_entries table_1t = TABLE_ENTRIES * TABLE_ENTRIES * TABLE_ENTRIES"
  by (simp_all add: table_1t_def)

text \<open>A store through three levels, seen by a lookup through three levels.\<close>

lemma three_level_lookup:
  fixes l1 :: "leaf_table node_table node_table" and a b c :: int
  defines "l2 \<equiv> case l1 a of None \<Rightarrow> node_new | Some t \<Rightarrow> t"
  defines "l3 \<equiv> case l2 b of None \<Rightarrow> leaf_new | Some t \<Rightarrow> t"
  shows "(case (l1(a := Some (l2(b := Some (l3(c := x)))))) a' of None \<Rightarrow> - 1
      | Some t2 \<Rightarrow> (case t2 b' of None \<Rightarrow> - 1 | Some t3 \<Rightarrow> t3 c')) =
    (if a' = a \<and> b' = b \<and> c' = c then x
     else case l1 a' of None \<Rightarrow> - 1 | Some t2 \<Rightarrow> (case t2 b' of None \<Rightarrow> - 1 | Some t3 \<Rightarrow> t3 c'))"
  unfolding l3_def l2_def
  by (cases "l1 a"; cases "a' = a"; cases "b' = b"; cases "c' = c")
    (simp_all add: node_new_def leaf_new_def split: option.split)

lemma resolve_set_1t: "resolve_1t (set_1t l1 i x) j = (if i = j then x else resolve_1t l1 j)"
proof -
  have "i = j \<longleftrightarrow> j div (TABLE_ENTRIES * TABLE_ENTRIES) = i div (TABLE_ENTRIES * TABLE_ENTRIES) \<and>
      j mod (TABLE_ENTRIES * TABLE_ENTRIES) div TABLE_ENTRIES = i mod (TABLE_ENTRIES * TABLE_ENTRIES) div TABLE_ENTRIES \<and>
      j mod (TABLE_ENTRIES * TABLE_ENTRIES) mod TABLE_ENTRIES = i mod (TABLE_ENTRIES * TABLE_ENTRIES) mod TABLE_ENTRIES"
    using div_mod_3_inj [of i j] unfolding TABLE_ENTRIES_def by metis
  then show ?thesis unfolding resolve_1t_def set_1t_def Let_def three_level_lookup by presburger
qed

interpretation tab4m: page_table_laws table_4m
proof
  fix i j x r
  show "pt_find table_4m (pt_empty table_4m) i = - 1"
    by (simp add: table_4m_def resolve_4m_def node_new_def)
  show "pt_find table_4m (pt_set table_4m r i x) i = x"
    by (simp add: table_4m_def resolve_4m_def set_4m_def Let_def)
  show "pt_find table_4m (pt_set table_4m r i x) j = pt_find table_4m r j" if "i \<noteq> j"
    using that div_mod_4096_inj [of i j]
    by (auto simp: table_4m_def resolve_4m_def set_4m_def Let_def TABLE_ENTRIES_def leaf_new_def split: option.split)
  show "pt_in_range table_4m i \<longleftrightarrow> 0 \<le> i \<and> i < pt_entries table_4m"
    by (auto simp: table_4m_def range_4m_def in_table_def TABLE_ENTRIES_def)
qed

lemma range_1t_iff: "range_1t i \<longleftrightarrow> 0 \<le> i \<and> i < 4096 * 4096 * 4096"
proof -
  define q r where "q = i div (4096 * 4096)" and "r = i mod (4096 * 4096)"
  have i: "i = 4096 * 4096 * q + r" "0 \<le> r" "r < 4096 * 4096"
    by (simp_all add: q_def r_def)
  have r: "r = 4096 * (r div 4096) + r mod 4096" "0 \<le> r mod 4096" "r mod 4096 < 4096" by simp_all
  have "range_1t i \<longleftrightarrow> 0 \<le> i \<and> in_table q \<and> in_table (r div 4096) \<and> in_table (r mod 4096)"
    by (simp add: range_1t_def TABLE_ENTRIES_def q_def r_def)
  moreover have "in_table (r div 4096)" using i(2,3) r by (simp add: in_table_def TABLE_ENTRIES_def) linarith
  moreover have "in_table (r mod 4096)" using r(2,3) unfolding in_table_def TABLE_ENTRIES_def by linarith
  moreover have "(0 \<le> i \<and> in_table q) = (0 \<le> i \<and> i < 4096 * 4096 * 4096)"
    using i unfolding in_table_def TABLE_ENTRIES_def by linarith
  ultimately show ?thesis by blast
qed

interpretation tab1t: page_table_laws table_1t
proof
  fix i j x r
  show "pt_find table_1t (pt_empty table_1t) i = - 1"
    by (simp add: table_1t_fields resolve_1t_def node_new_def Let_def)
  show "pt_find table_1t (pt_set table_1t r i x) i = x"
    by (simp add: table_1t_fields resolve_set_1t)
  show "pt_find table_1t (pt_set table_1t r i x) j = pt_find table_1t r j" if "i \<noteq> j"
    using that by (simp add: table_1t_fields resolve_set_1t)
  show "pt_in_range table_1t i \<longleftrightarrow> 0 \<le> i \<and> i < pt_entries table_1t"
    by (simp add: table_1t_fields range_1t_iff TABLE_ENTRIES_def)
qed

text \<open>
  Both page tables are finite maps over their whole capacity (\<open>4096^2\<close> and \<open>4096^3\<close> block
  indexes): after any sequence of stores from a fresh root, every index resolves to the last
  identifier stored there, and to -1 if there is none.
\<close>

theorem page_tables_resolve:
  assumes "\<forall>(j, x) \<in> set ops. 0 \<le> j \<and> j < pt_entries table_1t" and "0 \<le> i" and "i < pt_entries table_1t"
    and "\<forall>(j, x) \<in> set ops4. 0 \<le> j \<and> j < pt_entries table_4m" and "0 \<le> i4" and "i4 < pt_entries table_4m"
  shows "resolve_1t (fold (\<lambda>(i, x) r. set_1t r i x) ops node_new) i =
      (case filter (\<lambda>(j, x). j = i) (rev ops) of [] \<Rightarrow> - 1 | (j, x) # _ \<Rightarrow> x) \<and>
    resolve_4m (fold (\<lambda>(i, x) r. set_4m r i x) ops4 node_new) i4 =
      (case filter (\<lambda>(j, x). j = i4) (rev ops4) of [] \<Rightarrow> - 1 | (j, x) # _ \<Rightarrow> x)"
  using tab1t.find_store_all [OF assms(1-3)] tab4m.find_store_all [OF assms(4-6)]
  unfolding tab1t.store_all_def tab1t.stored_def tab4m.store_all_def tab4m.stored_def
    table_1t_fields(1-3) table_4m_fields(1-3) by blast

theorem page_tables_resolve_witness:
  "resolve_1t (set_1t (set_1t node_new 5 7) 16777216 8) 5 = 7 \<and> resolve_4m (set_4m node_new 4096 3) 4096 = 3"
  using page_tables_resolve [of "[(5, 7), (16777216, 8)]" 5 "[(4096, 3)]" 4096]
  by (simp add: table_1t_def table_4m_def TABLE_ENTRIES_def)

end
