(* ===== verification/Paged_Correct.thy ===== *)
theory Paged_Correct
  imports Paged_Table
begin

text \<open>
  What the paged cache promises: the contents of a block do not depend on where it lives, the
  memory accounting is exact and within its limit, and eviction and loading, whatever file
  operations fail, change neither. The abstract view of a cache is the map from layers and
  block identifiers to the key and value data (\<open>paged_contents\<close>).
\<close>

section \<open>Updating one block\<close>

lemma set_layer_fields [simp]:
  "pk_num_layers (set_layer l ls pk) = pk_num_layers pk" "pk_heads (set_layer l ls pk) = pk_heads pk"
  "pk_dim (set_layer l ls pk) = pk_dim pk" "pk_block_size (set_layer l ls pk) = pk_block_size pk"
  "pk_limit (set_layer l ls pk) = pk_limit pk" "pk_used (set_layer l ls pk) = pk_used pk"
  "pk_path (set_layer l ls pk) = pk_path pk" "pk_access (set_layer l ls pk) = pk_access pk"
  "pk_next_id (set_layer l ls pk) = pk_next_id pk" "pk_disk (set_layer l ls pk) = pk_disk pk"
  "pk_ops (set_layer l ls pk) = pk_ops pk" "pk_queue (set_layer l ls pk) = pk_queue pk"
  "pk_inflight (set_layer l ls pk) = pk_inflight pk" "pk_loads (set_layer l ls pk) = pk_loads pk"
  "length (pk_layers (set_layer l ls pk)) = length (pk_layers pk)"
  by (simp_all add: set_layer_def)

lemma put_block_fields [simp]:
  "pk_num_layers (put_block l i b pk) = pk_num_layers pk" "pk_heads (put_block l i b pk) = pk_heads pk"
  "pk_dim (put_block l i b pk) = pk_dim pk" "pk_block_size (put_block l i b pk) = pk_block_size pk"
  "pk_limit (put_block l i b pk) = pk_limit pk" "pk_used (put_block l i b pk) = pk_used pk"
  "pk_path (put_block l i b pk) = pk_path pk" "pk_access (put_block l i b pk) = pk_access pk"
  "pk_next_id (put_block l i b pk) = pk_next_id pk" "pk_disk (put_block l i b pk) = pk_disk pk"
  "pk_ops (put_block l i b pk) = pk_ops pk" "pk_queue (put_block l i b pk) = pk_queue pk"
  "pk_inflight (put_block l i b pk) = pk_inflight pk" "pk_loads (put_block l i b pk) = pk_loads pk"
  "length (pk_layers (put_block l i b pk)) = length (pk_layers pk)"
  by (simp_all add: put_block_def)

lemma valid_layer_cong: "pk_num_layers pk' = pk_num_layers pk \<Longrightarrow> valid_layer l pk' = valid_layer l pk"
  by (simp add: valid_layer_def)

lemma layer_at_set_layer:
  "nat l < length (pk_layers pk) \<Longrightarrow>
   layer_at l' (set_layer l ls pk) = (if nat l' = nat l then ls else layer_at l' pk)"
  by (simp add: layer_at_def set_layer_def)

lemma map_of_put: "map_of (map (\<lambda>(i, c). (i, if i = j then b else c)) xs) k =
    (if k = j then map_option (\<lambda>_. b) (map_of xs j) else map_of xs k)"
  by (induction xs) auto

lemma map_fst_put: "map fst (map (\<lambda>(i, c). (i, if i = j then b else c)) xs) = map fst xs"
  by (induction xs) auto

lemma find_put_block:
  "nat l < length (pk_layers pk) \<Longrightarrow>
   find_block l' i' (put_block l i b pk) =
     (if nat l' = nat l \<and> i' = i then map_option (\<lambda>_. b) (find_block l i pk) else find_block l' i' pk)"
  by (simp add: find_block_def put_block_def set_layer_def layer_at_def map_of_put nth_list_update)

lemma sum_list_update_nat:
  "i < length xs \<Longrightarrow> (\<Sum>x\<leftarrow>xs[i := y]. f x) + f (xs ! i) = (\<Sum>x\<leftarrow>xs. f x) + (f y :: nat)"
  by (induction xs arbitrary: i) (auto split: nat.split)

section \<open>The abstract view and the invariant\<close>

definition block_data :: "'r paged_kv \<Rightarrow> physical_block \<Rightarrow> (u32 list \<times> u32 list) option" where
  "block_data pk b =
     (if pb_on_disk b
      then Option.bind (pk_disk pk (pb_file b)) (decode_block (nat (per_block pk)))
      else Some (pb_k b, pb_v b))"

definition paged_contents :: "'r paged_kv \<Rightarrow> int \<Rightarrow> int \<Rightarrow> (u32 list \<times> u32 list) option" where
  "paged_contents pk layer bid =
     (if valid_layer layer pk then Option.bind (find_block layer bid pk) (block_data pk) else None)"

definition resident :: "physical_block \<Rightarrow> nat" where
  "resident b = (if pb_on_disk b then 0 else 1)"

definition layer_resident :: "'r paged_layer \<Rightarrow> nat" where
  "layer_resident ls = (\<Sum>(i, b)\<leftarrow>pl_blocks ls. resident b)"

definition resident_blocks :: "'r paged_kv \<Rightarrow> nat" where
  "resident_blocks pk = (\<Sum>ls\<leftarrow>pk_layers pk. layer_resident ls)"

definition dims_ok :: "'r paged_kv \<Rightarrow> bool" where
  "dims_ok pk \<longleftrightarrow> 0 < pk_heads pk \<and> 0 < pk_dim pk \<and> 0 < pk_block_size pk \<and> per_block pk < 2 ^ 63 \<and>
     length (pk_layers pk) = pk_num_layers pk"

definition file_holds :: "int \<Rightarrow> u8 list option \<Rightarrow> bool" where
  "file_holds n contents \<longleftrightarrow>
     (\<exists>k v. int (length k) = n \<and> int (length v) = n \<and> contents = Some (encode_block k v))"

definition block_ok :: "'r page_table \<Rightarrow> 'r paged_kv \<Rightarrow> int \<Rightarrow> int \<Rightarrow> physical_block \<Rightarrow> bool" where
  "block_ok pt pk layer bid b \<longleftrightarrow> 0 \<le> bid \<and> bid < pk_next_id pk \<and>
     (if pb_on_disk b
      then pb_k b = [] \<and> pb_v b = [] \<and> pb_file b = block_disk_path pt layer bid pk \<and>
        file_holds (per_block pk) (pk_disk pk (pb_file b))
      else int (length (pb_k b)) = per_block pk \<and> int (length (pb_v b)) = per_block pk)"

definition blocks_ok :: "'r page_table \<Rightarrow> 'r paged_kv \<Rightarrow> bool" where
  "blocks_ok pt pk \<longleftrightarrow> (\<forall>layer. valid_layer layer pk \<longrightarrow>
     distinct (map fst (pl_blocks (layer_at layer pk))) \<and>
     (\<forall>bid b. find_block layer bid pk = Some b \<longrightarrow> block_ok pt pk layer bid b))"

definition memory_ok :: "'r paged_kv \<Rightarrow> bool" where
  "memory_ok pk \<longleftrightarrow> pk_used pk = block_bytes pk * resident_blocks pk \<and>
     (pk_limit pk > 0 \<longrightarrow> pk_used pk \<le> pk_limit pk)"

definition paged_ok :: "'r page_table \<Rightarrow> 'r paged_kv \<Rightarrow> bool" where
  "paged_ok pt pk \<longleftrightarrow> dims_ok pk \<and> blocks_ok pt pk \<and> memory_ok pk"

text \<open>Two states that differ only in where blocks live.\<close>

definition same_cache :: "'r paged_kv \<Rightarrow> 'r paged_kv \<Rightarrow> bool" where
  "same_cache pk pk' \<longleftrightarrow>
     pk_num_layers pk' = pk_num_layers pk \<and> pk_heads pk' = pk_heads pk \<and> pk_dim pk' = pk_dim pk \<and>
     pk_block_size pk' = pk_block_size pk \<and> pk_limit pk' = pk_limit pk \<and> pk_path pk' = pk_path pk \<and>
     pk_access pk' = pk_access pk \<and> pk_next_id pk' = pk_next_id pk \<and>
     (\<forall>layer. valid_layer layer pk \<longrightarrow>
        pl_root (layer_at layer pk') = pl_root (layer_at layer pk) \<and>
        pl_pos (layer_at layer pk') = pl_pos (layer_at layer pk) \<and>
        map fst (pl_blocks (layer_at layer pk')) = map fst (pl_blocks (layer_at layer pk))) \<and>
     (\<forall>layer bid. paged_contents pk' layer bid = paged_contents pk layer bid)"

lemma same_cache_refl [simp]: "same_cache pk pk"
  by (simp add: same_cache_def)

lemma same_cache_trans: "same_cache a b \<Longrightarrow> same_cache b c \<Longrightarrow> same_cache a c"
  by (simp add: same_cache_def valid_layer_def)

lemma per_block_cong:
  "pk_heads pk' = pk_heads pk \<Longrightarrow> pk_dim pk' = pk_dim pk \<Longrightarrow> pk_block_size pk' = pk_block_size pk \<Longrightarrow>
   per_block pk' = per_block pk"
  by (simp add: per_block_def)

lemma per_block_pos: "dims_ok pk \<Longrightarrow> 0 < per_block pk"
  by (simp add: dims_ok_def per_block_def)

section \<open>The files\<close>

lemma decode_encode_block:
  assumes "int (length k) = n" and "int (length v) = n" and "n < 2 ^ 63"
  shows "decode_block (nat n) (encode_block k v) = Some (k, v)"
proof -
  have l: "length k = nat n" "length v = nat n" "length v = length k" using assms by auto
  have d: "decode_int64 (encode_int64 (int (length k))) = int (length k)"
    using assms by (intro decode_encode_int64) auto
  have f: "decode_floats (length k) (encode_floats k @ rest) = k" for rest by (rule decode_encode_floats)
  have g: "decode_floats (length k) (encode_floats v) = v"
    using decode_encode_floats [of v "[]"] l(3) by simp
  show ?thesis
    using d f g l by (simp add: decode_block_def encode_block_def length_encode_floats)
qed

text \<open>Different blocks have different files.\<close>

lemma block_disk_path_inj:
  assumes "block_disk_path pt l i pk = block_disk_path pt l' i' pk"
    and "0 \<le> l" "0 \<le> l'" "0 \<le> i" "0 \<le> i'"
  shows "l = l' \<and> i = i'"
proof -
  have nd: "d \<noteq> CHR ''_''" "d \<noteq> CHR ''.''" if "d \<in> set (dec_int n)" "0 \<le> n" for d n
    using dec_nat_digits [of d "nat n"] that by (auto simp: dec_int_nonneg)
  have "dec_int l @ CHR ''_'' # (''b'' @ dec_int i @ ''.bin'') = dec_int l' @ CHR ''_'' # (''b'' @ dec_int i' @ ''.bin'')"
    using assms(1) by (simp add: block_disk_path_def)
  from digits_sep_inj [OF this] nd assms(2,3)
  have "dec_int l = dec_int l'" and e: "''b'' @ dec_int i @ ''.bin'' = ''b'' @ dec_int i' @ ''.bin''" by auto
  then have "l = l'" using dec_int_inj assms(2,3) by blast
  moreover have "dec_int i = dec_int i'" using e by simp
  then have "i = i'" using dec_int_inj assms(4,5) by blast
  ultimately show ?thesis by simp
qed

lemma block_disk_path_nonempty: "block_disk_path pt l i pk \<noteq> []"
  by (simp add: block_disk_path_def)

lemma block_disk_path_cong: "pk_path pk' = pk_path pk \<Longrightarrow> block_disk_path pt l i pk' = block_disk_path pt l i pk"
  by (simp add: block_disk_path_def)

section \<open>Moving one block between memory and disk\<close>

lemma valid_layer_nat:
  "valid_layer l pk \<Longrightarrow> valid_layer l' pk \<Longrightarrow> nat l' = nat l \<longleftrightarrow> l' = l"
  by (auto simp: valid_layer_def)

lemma valid_layer_bound: "dims_ok pk \<Longrightarrow> valid_layer l pk \<Longrightarrow> nat l < length (pk_layers pk)"
  by (auto simp: valid_layer_def dims_ok_def)

lemma resident_put_block:
  assumes "nat l < length (pk_layers pk)" and "find_block l i pk = Some b"
    and "distinct (map fst (pl_blocks (layer_at l pk)))"
  shows "resident_blocks (put_block l i b' pk) + resident b = resident_blocks pk + resident b'"
proof -
  have layer: "(\<Sum>(j, c)\<leftarrow>map (\<lambda>(j, c). (j, if j = i then b' else c)) xs. resident c) + resident b =
      (\<Sum>(j, c)\<leftarrow>xs. resident c) + resident b'"
    if "map_of xs i = Some b" "distinct (map fst xs)" for xs
    using that
  proof (induction xs)
    case (Cons x xs)
    show ?case
    proof (cases "fst x = i")
      case True
      have e: "map (\<lambda>(j, c). (j, if j = i then b' else c)) xs = xs"
      proof (rule map_idI)
        fix y assume "y \<in> set xs"
        then have "fst y \<noteq> i" using True Cons.prems(2) by (auto simp: image_iff)
        then show "(case y of (j, c) \<Rightarrow> (j, if j = i then b' else c)) = y" by (simp add: case_prod_beta)
      qed
      then show ?thesis using True Cons.prems(1) by (cases x) (simp del: map_map add: e)
    next
      case False
      then show ?thesis using Cons by (simp add: case_prod_beta)
    qed
  qed simp
  let ?ls = "(layer_at l pk)\<lparr>pl_blocks := map (\<lambda>(j, c). (j, if j = i then b' else c)) (pl_blocks (layer_at l pk))\<rparr>"
  have "layer_resident ?ls + resident b = layer_resident (pk_layers pk ! nat l) + resident b'"
    using layer [of "pl_blocks (layer_at l pk)"] assms(2,3)
    by (simp add: layer_resident_def find_block_def layer_at_def)
  moreover have "resident_blocks (put_block l i b' pk) + layer_resident (pk_layers pk ! nat l) =
      resident_blocks pk + layer_resident ?ls"
    using sum_list_update_nat [OF assms(1), of layer_resident ?ls]
    by (simp add: resident_blocks_def put_block_def set_layer_def)
  ultimately show ?thesis by linarith
qed

lemma block_data_cong:
  "pk_disk pk' = pk_disk pk \<Longrightarrow> pk_heads pk' = pk_heads pk \<Longrightarrow> pk_dim pk' = pk_dim pk \<Longrightarrow>
   pk_block_size pk' = pk_block_size pk \<Longrightarrow> block_data pk' = block_data pk"
  by (rule ext) (simp add: block_data_def per_block_def)

lemma move_block:
  assumes ok: "paged_ok pt pk" and l: "valid_layer l pk" and f: "find_block l i pk = Some b"
    and b': "block_ok pt (pk\<lparr>pk_disk := d\<rparr>) l i b'"
    and data: "block_data (pk\<lparr>pk_disk := d\<rparr>) b' = block_data pk b"
    and other: "\<And>l' i' c. valid_layer l' pk \<Longrightarrow> find_block l' i' pk = Some c \<Longrightarrow> pb_on_disk c \<Longrightarrow>
      \<not> (l' = l \<and> i' = i) \<Longrightarrow> d (pb_file c) = pk_disk pk (pb_file c)"
    and used: "u + block_bytes pk * resident b = pk_used pk + block_bytes pk * resident b'"
    and lim: "pk_limit pk > 0 \<longrightarrow> u \<le> pk_limit pk"
  shows "paged_ok pt (put_block l i b' (pk\<lparr>pk_ops := n, pk_used := u, pk_disk := d\<rparr>)) \<and>
    same_cache pk (put_block l i b' (pk\<lparr>pk_ops := n, pk_used := u, pk_disk := d\<rparr>))"
proof -
  let ?pk = "pk\<lparr>pk_ops := n, pk_used := u, pk_disk := d\<rparr>"
  let ?pk' = "put_block l i b' ?pk"
  have dims: "dims_ok pk" and blocks: "blocks_ok pt pk" and mem: "memory_ok pk"
    using ok by (simp_all add: paged_ok_def)
  have len: "nat l < length (pk_layers ?pk)" using valid_layer_bound [OF dims l] by simp
  have fb: "find_block l' i' ?pk = find_block l' i' pk" for l' i' by (simp add: find_block_def layer_at_def)
  have find: "find_block l' i' ?pk' = (if l' = l \<and> i' = i then Some b' else find_block l' i' pk)"
    if "valid_layer l' pk" for l' i'
    using find_put_block [OF len] valid_layer_nat [OF l that] f by (simp add: fb)
  have valid: "valid_layer l' ?pk' = valid_layer l' pk" for l' by (simp add: valid_layer_def)
  have per: "per_block ?pk' = per_block pk" "per_block (pk\<lparr>pk_disk := d\<rparr>) = per_block pk"
    by (simp_all add: per_block_def)
  have path: "block_disk_path pt l' i' ?pk' = block_disk_path pt l' i' pk"
      "block_disk_path pt l' i' (pk\<lparr>pk_disk := d\<rparr>) = block_disk_path pt l' i' pk" for l' i'
    by (simp_all add: block_disk_path_def)
  have layer: "map fst (pl_blocks (layer_at l' ?pk')) = map fst (pl_blocks (layer_at l' pk)) \<and>
      pl_root (layer_at l' ?pk') = pl_root (layer_at l' pk) \<and> pl_pos (layer_at l' ?pk') = pl_pos (layer_at l' pk)" for l'
    using len by (simp add: put_block_def layer_at_set_layer map_fst_put) (simp add: layer_at_def case_prod_beta)
  have datas: "block_data ?pk' = block_data (pk\<lparr>pk_disk := d\<rparr>)" by (rule block_data_cong) simp_all
  have same: "d (pb_file c) = pk_disk pk (pb_file c)"
    if "valid_layer l' pk" "find_block l' i' pk = Some c" "pb_on_disk c" "\<not> (l' = l \<and> i' = i)" for l' i' c
    using other that by blast
  have "blocks_ok pt ?pk'"
    unfolding blocks_ok_def valid
  proof (intro allI impI conjI)
    fix l' assume v: "valid_layer l' pk"
    show "distinct (map fst (pl_blocks (layer_at l' ?pk')))" using layer blocks v by (simp add: blocks_ok_def)
    fix i' c assume c: "find_block l' i' ?pk' = Some c"
    show "block_ok pt ?pk' l' i' c"
    proof (cases "l' = l \<and> i' = i")
      case True
      then have "c = b'" using c find [OF v] by simp
      then show ?thesis using b' True by (auto simp: block_ok_def per path)
    next
      case False
      then have c': "find_block l' i' pk = Some c" using c find [OF v] by auto
      then have "block_ok pt pk l' i' c" using blocks v by (simp add: blocks_ok_def)
      then show ?thesis using same [OF v c' _ False] by (auto simp: block_ok_def per path)
    qed
  qed
  moreover have "memory_ok ?pk'"
  proof -
    have "resident_blocks ?pk' + resident b = resident_blocks ?pk + resident b'"
      using resident_put_block [OF len] f blocks l by (auto simp: fb blocks_ok_def layer_at_def)
    moreover have "resident_blocks ?pk = resident_blocks pk" by (simp add: resident_blocks_def)
    ultimately have "block_bytes pk * resident_blocks ?pk' + block_bytes pk * resident b =
        block_bytes pk * resident_blocks pk + block_bytes pk * resident b'"
      by (metis distrib_left)
    then have "u = block_bytes pk * resident_blocks ?pk'" using used mem by (simp add: memory_ok_def)
    then show ?thesis using lim by (simp add: memory_ok_def block_bytes_def per)
  qed
  moreover have "dims_ok ?pk'" using dims by (simp add: dims_ok_def per)
  moreover have "paged_contents ?pk' l' i' = paged_contents pk l' i'" for l' i'
  proof (cases "valid_layer l' pk")
    case True
    show ?thesis
    proof (cases "l' = l \<and> i' = i")
      case eq: True
      then show ?thesis using data f True by (simp add: paged_contents_def valid find datas)
    next
      case False
      then show ?thesis using same [OF True _ _ False] True
        by (cases "find_block l' i' pk")
          (auto simp: paged_contents_def valid find block_data_def per)
    qed
  qed (simp add: paged_contents_def valid)
  ultimately show ?thesis using layer by (simp add: paged_ok_def same_cache_def)
qed

section \<open>Eviction and loading\<close>

lemma block_okI: "paged_ok pt pk \<Longrightarrow> valid_layer l pk \<Longrightarrow> find_block l i pk = Some b \<Longrightarrow> block_ok pt pk l i b"
  by (simp add: paged_ok_def blocks_ok_def)

lemma other_files:
  assumes ok: "paged_ok pt pk" and l: "valid_layer l pk" and i: "0 \<le> i"
    and "valid_layer l' pk" and "find_block l' i' pk = Some c" and "pb_on_disk c" and "\<not> (l' = l \<and> i' = i)"
  shows "pb_file c \<noteq> block_disk_path pt l i pk"
proof -
  have c: "0 \<le> i'" "pb_file c = block_disk_path pt l' i' pk"
    using block_okI [OF ok assms(4,5)] assms(6) by (simp_all add: block_ok_def)
  show ?thesis using block_disk_path_inj [of pt l' i' pk l i] c assms(4,7) l i by (auto simp: valid_layer_def)
qed

definition keeps :: "'r page_table \<Rightarrow> 'r paged_kv \<Rightarrow> 'r paged_kv \<Rightarrow> bool" where
  "keeps pt pk pk' \<longleftrightarrow> (paged_ok pt pk \<longrightarrow> paged_ok pt pk' \<and> same_cache pk pk')"

lemma keeps_refl [simp]: "keeps pt pk pk"
  by (simp add: keeps_def)

lemma keeps_trans: "keeps pt a b \<Longrightarrow> keeps pt b c \<Longrightarrow> keeps pt a c"
  unfolding keeps_def using same_cache_trans by blast

text \<open>Fields the invariant does not read.\<close>

lemma paged_ok_aux:
  "paged_ok pt (pk\<lparr>pk_ops := n\<rparr>) = paged_ok pt pk" "paged_ok pt (pk\<lparr>pk_queue := q\<rparr>) = paged_ok pt pk"
  "paged_ok pt (pk\<lparr>pk_inflight := f\<rparr>) = paged_ok pt pk" "paged_ok pt (pk\<lparr>pk_loads := m\<rparr>) = paged_ok pt pk"
  "paged_ok pt (pk\<lparr>pk_access := a\<rparr>) = paged_ok pt pk"
  by (simp_all add: paged_ok_def dims_ok_def blocks_ok_def memory_ok_def per_block_def block_bytes_def
      valid_layer_def resident_blocks_def find_block_def layer_at_def block_ok_def block_disk_path_def)

lemma same_cacheI:
  "pk_num_layers pk' = pk_num_layers pk \<Longrightarrow> pk_heads pk' = pk_heads pk \<Longrightarrow> pk_dim pk' = pk_dim pk \<Longrightarrow>
   pk_block_size pk' = pk_block_size pk \<Longrightarrow> pk_limit pk' = pk_limit pk \<Longrightarrow> pk_path pk' = pk_path pk \<Longrightarrow>
   pk_access pk' = pk_access pk \<Longrightarrow> pk_next_id pk' = pk_next_id pk \<Longrightarrow> pk_layers pk' = pk_layers pk \<Longrightarrow>
   pk_disk pk' = pk_disk pk \<Longrightarrow> same_cache pk pk'"
  using block_data_cong [of pk' pk]
  by (simp add: same_cache_def paged_contents_def valid_layer_def find_block_def layer_at_def)

lemma path_aux [simp]:
  "block_disk_path pt l i (pk\<lparr>pk_ops := n\<rparr>) = block_disk_path pt l i pk"
  "block_bytes (pk\<lparr>pk_ops := n\<rparr>) = block_bytes pk" "per_block (pk\<lparr>pk_ops := n\<rparr>) = per_block pk"
  by (simp_all add: block_disk_path_def block_bytes_def per_block_def)

lemma same_cache_aux:
  "same_cache pk (pk\<lparr>pk_ops := n\<rparr>)" "same_cache pk (pk\<lparr>pk_queue := q\<rparr>)"
  "same_cache pk (pk\<lparr>pk_inflight := f\<rparr>)" "same_cache pk (pk\<lparr>pk_loads := m\<rparr>)"
  by (simp_all add: same_cacheI)

lemma keeps_aux:
  "keeps pt pk (pk\<lparr>pk_ops := n\<rparr>)" "keeps pt pk (pk\<lparr>pk_queue := q\<rparr>)"
  "keeps pt pk (pk\<lparr>pk_inflight := f\<rparr>)" "keeps pt pk (pk\<lparr>pk_loads := m\<rparr>)"
  by (simp_all add: keeps_def paged_ok_aux same_cache_aux)

text \<open>A failed write leaves no file for a block that is still in memory.\<close>

lemma put_same_block:
  "find_block l i pk = Some b \<Longrightarrow> distinct (map fst (pl_blocks (layer_at l pk))) \<Longrightarrow> put_block l i b pk = pk"
proof -
  assume a: "find_block l i pk = Some b" "distinct (map fst (pl_blocks (layer_at l pk)))"
  have "map (\<lambda>(j, c). (j, if j = i then b else c)) (pl_blocks (layer_at l pk)) = pl_blocks (layer_at l pk)"
  proof (rule map_idI)
    fix y assume y: "y \<in> set (pl_blocks (layer_at l pk))"
    then have "map_of (pl_blocks (layer_at l pk)) (fst y) = Some (snd y)" using a(2) by simp
    then show "(case y of (j, c) \<Rightarrow> (j, if j = i then b else c)) = y"
      using a(1) by (cases y) (auto simp: find_block_def)
  qed
  then show ?thesis by (simp add: put_block_def set_layer_def layer_at_def)
qed

lemma keeps_failed_write:
  assumes l: "valid_layer l pk" and f: "find_block l i pk = Some b" and m: "\<not> pb_on_disk b"
  shows "keeps pt pk (pk\<lparr>pk_ops := n, pk_disk := (pk_disk pk)(block_disk_path pt l i pk := None)\<rparr>)"
  unfolding keeps_def
proof
  assume ok: "paged_ok pt pk"
  let ?d = "(pk_disk pk)(block_disk_path pt l i pk := None)"
  have b: "block_ok pt pk l i b" by (rule block_okI [OF ok l f])
  have b': "block_ok pt (pk\<lparr>pk_disk := ?d\<rparr>) l i b" using b m by (simp add: block_ok_def per_block_def)
  have i: "0 \<le> i" using b by (simp add: block_ok_def)
  have lim: "pk_limit pk > 0 \<longrightarrow> pk_used pk \<le> pk_limit pk" using ok unfolding paged_ok_def memory_ok_def by blast
  have "paged_ok pt (put_block l i b (pk\<lparr>pk_ops := n, pk_used := pk_used pk, pk_disk := ?d\<rparr>)) \<and>
      same_cache pk (put_block l i b (pk\<lparr>pk_ops := n, pk_used := pk_used pk, pk_disk := ?d\<rparr>))"
    using other_files [OF ok l i] m
    by (intro move_block [OF ok l f b' _ _ _ lim]) (auto simp: block_data_def)
  moreover have "put_block l i b (pk\<lparr>pk_ops := n, pk_used := pk_used pk, pk_disk := ?d\<rparr>) =
      pk\<lparr>pk_ops := n, pk_used := pk_used pk, pk_disk := ?d\<rparr>"
    using f ok l by (intro put_same_block) (simp_all add: find_block_def layer_at_def paged_ok_def blocks_ok_def)
  moreover have "pk\<lparr>pk_ops := n, pk_used := pk_used pk, pk_disk := ?d\<rparr> = pk\<lparr>pk_ops := n, pk_disk := ?d\<rparr>" by simp
  ultimately show "paged_ok pt (pk\<lparr>pk_ops := n, pk_disk := ?d\<rparr>) \<and> same_cache pk (pk\<lparr>pk_ops := n, pk_disk := ?d\<rparr>)"
    by metis
qed

lemma keeps_evict_success:
  assumes l: "valid_layer l pk" and f: "find_block l i pk = Some b" and m: "\<not> pb_on_disk b"
  shows "keeps pt pk (put_block l i (b\<lparr>pb_k := [], pb_v := [], pb_on_disk := True, pb_file := block_disk_path pt l i pk\<rparr>)
    (pk\<lparr>pk_ops := n, pk_used := (if pk_used pk \<ge> block_bytes pk then pk_used pk - block_bytes pk else 0),
       pk_disk := (pk_disk pk)(block_disk_path pt l i pk := Some (encode_block (pb_k b) (pb_v b)))\<rparr>))"
  unfolding keeps_def
proof
  assume ok: "paged_ok pt pk"
  let ?d = "(pk_disk pk)(block_disk_path pt l i pk := Some (encode_block (pb_k b) (pb_v b)))"
  let ?b = "b\<lparr>pb_k := [], pb_v := [], pb_on_disk := True, pb_file := block_disk_path pt l i pk\<rparr>"
  have b: "block_ok pt pk l i b" by (rule block_okI [OF ok l f])
  have i: "0 \<le> i" and sizes: "int (length (pb_k b)) = per_block pk" "int (length (pb_v b)) = per_block pk"
    using b m by (simp_all add: block_ok_def)
  have path: "block_disk_path pt l i (pk\<lparr>pk_disk := ?d\<rparr>) = block_disk_path pt l i pk" by (simp add: block_disk_path_def)
  have b': "block_ok pt (pk\<lparr>pk_disk := ?d\<rparr>) l i ?b"
    using b sizes by (auto simp: block_ok_def per_block_def path file_holds_def)
  have bound: "per_block pk < 2 ^ 63" using ok by (simp add: paged_ok_def dims_ok_def)
  have data: "block_data (pk\<lparr>pk_disk := ?d\<rparr>) ?b = block_data pk b"
    using decode_encode_block [OF sizes bound] m by (simp add: block_data_def per_block_def)
  have one: "0 < resident_blocks pk"
  proof -
    have "resident_blocks (put_block l i ?b pk) + resident b = resident_blocks pk + resident ?b"
      using resident_put_block [OF valid_layer_bound [OF _ l] f] ok l by (simp add: paged_ok_def blocks_ok_def)
    then show ?thesis using m by (simp add: resident_def)
  qed
  have used: "block_bytes pk \<le> pk_used pk" using ok one by (simp add: paged_ok_def memory_ok_def)
  then show "paged_ok pt (put_block l i ?b
    (pk\<lparr>pk_ops := n, pk_used := (if pk_used pk \<ge> block_bytes pk then pk_used pk - block_bytes pk else 0), pk_disk := ?d\<rparr>)) \<and>
    same_cache pk (put_block l i ?b
    (pk\<lparr>pk_ops := n, pk_used := (if pk_used pk \<ge> block_bytes pk then pk_used pk - block_bytes pk else 0), pk_disk := ?d\<rparr>))"
    using other_files [OF ok l i] m ok
    by (intro move_block [OF ok l f b' data]) (auto simp: resident_def paged_ok_def memory_ok_def)
qed

lemma keeps_evict: "keeps pt pk (evict_to_disk pt io l i pk)"
proof (cases "valid_layer l pk")
  case l: True
  show ?thesis
  proof (cases "find_block l i pk")
    case (Some b)
    show ?thesis
    proof (cases "pb_on_disk b")
      case False
      from keeps_evict_success [OF l Some False] keeps_failed_write [OF l Some False] show ?thesis
        unfolding evict_to_disk_def Let_def
        by (cases "block_bytes pk \<le> pk_used pk") (simp_all add: l Some False keeps_aux)
    qed (simp add: evict_to_disk_def Some)
  qed (simp add: evict_to_disk_def)
qed (simp add: evict_to_disk_def)

lemma keeps_evict_lru: "keeps pt pk (evict_lru pt io l pk)"
  by (simp add: evict_lru_def Let_def keeps_evict)

lemma keeps_make_room: "keeps pt pk (make_room pt io l bytes pk)"
proof (induction pt io l bytes pk rule: make_room.induct)
  case (1 pt io l bytes pk)
  let ?pk = "evict_lru pt io l pk"
  show ?case
  proof (cases "pk_used pk + bytes > pk_limit pk \<and> pk_used ?pk < pk_used pk")
    case True
    then have "keeps pt ?pk (make_room pt io l bytes ?pk)" using 1 by simp
    with keeps_evict_lru have "keeps pt pk (make_room pt io l bytes ?pk)" by (rule keeps_trans)
    with True show ?thesis by (simp add: make_room.simps [of pt io l bytes pk] Let_def)
  next
    case False
    then show ?thesis by (auto simp: make_room.simps [of pt io l bytes pk] Let_def keeps_evict_lru)
  qed
qed

text \<open>A block on disk stays as it is while others are evicted.\<close>

definition disk_stable :: "'r paged_kv \<Rightarrow> 'r paged_kv \<Rightarrow> bool" where
  "disk_stable pk pk' \<longleftrightarrow> (\<forall>l i c. valid_layer l pk \<longrightarrow> find_block l i pk = Some c \<longrightarrow> pb_on_disk c \<longrightarrow>
     find_block l i pk' = Some c)"

lemma evict_disk_stable:
  assumes "paged_ok pt pk"
  shows "disk_stable pk (evict_to_disk pt io l i pk)"
  unfolding disk_stable_def
proof (intro allI impI)
  fix l' i' c
  assume a: "valid_layer l' pk" "find_block l' i' pk = Some c" "pb_on_disk c"
  have len: "nat l < length (pk_layers pk)" if "valid_layer l pk"
    using valid_layer_bound [OF _ that] assms by (simp add: paged_ok_def)
  have fb: "find_block l' i' (pk\<lparr>pk_ops := n\<rparr>) = find_block l' i' pk"
    "find_block l' i' (pk\<lparr>pk_ops := n, pk_disk := d\<rparr>) = find_block l' i' pk"
    "find_block l' i' (pk\<lparr>pk_ops := n, pk_used := u, pk_disk := d\<rparr>) = find_block l' i' pk" for n u d
    by (simp_all add: find_block_def layer_at_def)
  show "find_block l' i' (evict_to_disk pt io l i pk) = Some c"
  proof (cases "valid_layer l pk")
    case l: True
    have ne: "\<not> (nat l' = nat l \<and> i' = i)" if "find_block l i pk = Some b" "\<not> pb_on_disk b" for b
      using that a valid_layer_nat [OF l a(1)] by auto
    have "find_block l' i' (put_block l i b' (pk\<lparr>pk_ops := n, pk_used := u, pk_disk := d\<rparr>)) = Some c"
      if "find_block l i pk = Some b" "\<not> pb_on_disk b" for b b' n u d
      by (subst find_put_block) (use len [OF l] ne [OF that] a fb in auto)
    then show ?thesis using a fb
      by (auto simp: evict_to_disk_def Let_def l split: option.split)
  qed (simp add: evict_to_disk_def a)
qed

lemma make_room_disk_stable: "paged_ok pt pk \<Longrightarrow> disk_stable pk (make_room pt io l bytes pk)"
proof (induction pt io l bytes pk rule: make_room.induct)
  case (1 pt io l bytes pk)
  let ?pk = "evict_lru pt io l pk"
  have s: "disk_stable pk ?pk" using evict_disk_stable [OF 1(2)]
    by (simp add: evict_lru_def Let_def) (simp add: disk_stable_def)
  have ok: "paged_ok pt ?pk" "same_cache pk ?pk" using keeps_evict_lru [of pt pk io l] 1(2) by (simp_all add: keeps_def)
  have tr: "disk_stable pk pk2" if "disk_stable ?pk pk2" for pk2
    using s that ok(2) by (simp add: disk_stable_def same_cache_def valid_layer_def)
  show ?case
  proof (cases "pk_used pk + bytes > pk_limit pk \<and> pk_used ?pk < pk_used pk")
    case True
    then have "disk_stable ?pk (make_room pt io l bytes ?pk)" using 1(1) ok(1) by simp
    then have "disk_stable pk (make_room pt io l bytes ?pk)" by (rule tr)
    with True show ?thesis by (simp add: make_room.simps [of pt io l bytes pk] Let_def)
  next
    case False
    have "disk_stable pk pk" by (simp add: disk_stable_def)
    with False s show ?thesis by (auto simp: make_room.simps [of pt io l bytes pk] Let_def)
  qed
qed

lemma load_step:
  assumes ok: "paged_ok pt pk" and l: "valid_layer l pk" and f: "find_block l i pk = Some b" and d: "pb_on_disk b"
    and room: "\<not> (pk_limit pk > 0 \<and> pk_used pk + block_bytes pk > pk_limit pk)"
    and bs: "pk_disk pk (pb_file b) = Some bs" and kv: "decode_block (nat (per_block pk)) bs = Some (kk, vv)"
  shows "keeps pt pk (put_block l i (b\<lparr>pb_k := kk, pb_v := vv, pb_on_disk := False, pb_file := []\<rparr>)
    (pk\<lparr>pk_ops := n, pk_used := pk_used pk + block_bytes pk, pk_disk := (pk_disk pk)(pb_file b := None)\<rparr>))"
  unfolding keeps_def
proof
  let ?d = "(pk_disk pk)(pb_file b := None)"
  let ?b = "b\<lparr>pb_k := kk, pb_v := vv, pb_on_disk := False, pb_file := []\<rparr>"
  have b: "block_ok pt pk l i b" by (rule block_okI [OF ok l f])
  have bound: "per_block pk < 2 ^ 63" using ok by (simp add: paged_ok_def dims_ok_def)
  from b d bs obtain k' v' where kv': "int (length k') = per_block pk" "int (length v') = per_block pk"
    "bs = encode_block k' v'" by (auto simp: block_ok_def file_holds_def)
  then have eq: "kk = k'" "vv = v'" using decode_encode_block [OF kv'(1,2) bound] kv by simp_all
  have file_eq: "pb_file b = block_disk_path pt l i pk" and i: "0 \<le> i" using b d by (simp_all add: block_ok_def)
  show "paged_ok pt (put_block l i ?b (pk\<lparr>pk_ops := n, pk_used := pk_used pk + block_bytes pk, pk_disk := ?d\<rparr>)) \<and>
    same_cache pk (put_block l i ?b (pk\<lparr>pk_ops := n, pk_used := pk_used pk + block_bytes pk, pk_disk := ?d\<rparr>))"
  proof (rule move_block [OF ok l f])
    show "block_ok pt (pk\<lparr>pk_disk := ?d\<rparr>) l i ?b" using b kv'(1,2) eq by (simp add: block_ok_def per_block_def)
    show "block_data (pk\<lparr>pk_disk := ?d\<rparr>) ?b = block_data pk b" using d bs kv by (simp add: block_data_def)
    show "?d (pb_file c) = pk_disk pk (pb_file c)"
      if "valid_layer l' pk" "find_block l' i' pk = Some c" "pb_on_disk c" "\<not> (l' = l \<and> i' = i)" for l' i' c
      using other_files [OF ok l i that] by (simp add: file_eq)
  qed (use d room in \<open>auto simp: resident_def\<close>)
qed

lemma keeps_load: "keeps pt pk (load_block pt io l i pk)"
  unfolding keeps_def
proof
  assume ok: "paged_ok pt pk"
  define r where "r = (if pk_limit pk > 0 then make_room pt io l (block_bytes pk) pk else pk)"
  have k: "paged_ok pt r \<and> same_cache pk r"
    using ok keeps_make_room [of pt pk io l "block_bytes pk"] by (simp add: keeps_def r_def)
  then have ok1: "paged_ok pt r" and s1: "same_cache pk r" by simp_all
  show "paged_ok pt (load_block pt io l i pk) \<and> same_cache pk (load_block pt io l i pk)"
  proof (cases "valid_layer l pk \<and> (\<exists>b. find_block l i pk = Some b \<and> pb_on_disk b)")
    case True
    then obtain b where l: "valid_layer l pk" and f: "find_block l i pk = Some b" and d: "pb_on_disk b" by blast
    have l1: "valid_layer l r" using s1 l by (simp add: same_cache_def valid_layer_def)
    have f1: "find_block l i r = Some b"
      using make_room_disk_stable [OF ok, of io l "block_bytes pk"] l f d by (auto simp: disk_stable_def r_def)
    have per: "per_block r = per_block pk" "block_bytes r = block_bytes pk" "pk_limit r = pk_limit pk"
      using s1 by (simp_all add: same_cache_def per_block_def block_bytes_def)
    have aux: "paged_ok pt (r\<lparr>pk_ops := n\<rparr>) \<and> same_cache pk (r\<lparr>pk_ops := n\<rparr>)" for n
      using ok1 same_cache_trans [OF s1 same_cache_aux(1)] by (simp add: paged_ok_aux)
    have fin: "paged_ok pt p \<and> same_cache pk p" if "keeps pt r p" for p
      using that ok1 same_cache_trans [OF s1] by (simp add: keeps_def)
    note step = fin [OF load_step [OF ok1 l1 f1 d, unfolded per]]
    show ?thesis
      unfolding load_block_def Let_def r_def [symmetric]
      by (simp add: l f d ok k per step aux split: option.split)
  next
    case False
    then show ?thesis by (auto simp: load_block_def ok split: option.split)
  qed
qed

section \<open>Everything that only moves data\<close>

lemma keeps_fold: "(\<And>x pk. keeps pt pk (f x pk)) \<Longrightarrow> keeps pt pk (fold f xs pk)"
  by (induction xs arbitrary: pk) (auto intro: keeps_trans)

lemma keeps_worker: "keeps pt pk (worker_step pt io pk)"
proof (cases "pk_queue pk")
  case (Cons req q)
  obtain l i e where req: "req = (l, i, e)" by (cases req)
  let ?a = "pk\<lparr>pk_queue := q\<rparr>"
  let ?b = "if e then evict_to_disk pt io l i ?a else load_block pt io l i ?a"
  have 1: "keeps pt pk ?b" by (rule keeps_trans [OF keeps_aux(2) [of pt pk q]]) (simp add: keeps_evict keeps_load)
  have 2: "keeps pt ?b (?b\<lparr>pk_inflight := f, pk_loads := m\<rparr>)" for f m
    by (rule keeps_trans [OF keeps_aux(3) keeps_aux(4)])
  show ?thesis using keeps_trans [OF 1 2] by (simp add: worker_step_def Cons req Let_def)
qed (simp add: worker_step_def)

lemma keeps_worker_until: "keeps pt pk (worker_until pt io n key pk)"
  by (induction n arbitrary: pk) (auto intro: keeps_trans keeps_worker)

lemma keeps_enqueue: "keeps pt pk (snd (enqueue_async l i e pk))"
  by (auto simp: enqueue_async_def intro: keeps_trans [OF keeps_aux(3) keeps_aux(2)])

lemma keeps_ensure_resident: "keeps pt pk (snd (ensure_resident pt io n l i pk))"
  by (auto simp: ensure_resident_def Let_def intro: keeps_trans [OF keeps_enqueue keeps_worker_until])

lemma keeps_prefetch: "keeps pt pk (prefetch l i pk)"
  by (simp add: prefetch_def keeps_enqueue)

lemma keeps_prefetch_range: "keeps pt pk (prefetch_range pt l a b pk)"
  unfolding prefetch_range_def Let_def by (auto intro!: keeps_fold simp: keeps_prefetch)

lemma keeps_flush: "keeps pt pk (flush_to_disk pt io pk)"
  unfolding flush_to_disk_def flush_layer_def by (intro keeps_fold keeps_evict)

lemma keeps_load_all: "keeps pt pk (load_from_disk pt io pk)"
  unfolding load_from_disk_def load_layer_def by (intro keeps_fold keeps_load)

lemma keeps_unload_layer: 
  assumes "valid_layer l pk"
  shows "keeps pt pk (unload_layer pt io l pk)"
proof -
  have step: "keeps pt pk (unload_block pt io l i pk)" if "valid_layer l pk" for i and pk :: "'a paged_kv"
  proof (cases "find_block l i pk")
    case (Some b)
    show ?thesis
    proof (cases "pb_on_disk b")
      case True
      have "unload_block pt io l i pk = pk" if ok: "paged_ok pt pk"
      proof -
        have "b\<lparr>pb_k := [], pb_v := []\<rparr> = b"
          using block_okI [OF ok \<open>valid_layer l pk\<close> Some] True by (cases b) (simp add: block_ok_def)
        moreover have "distinct (map fst (pl_blocks (layer_at l pk)))"
          using ok \<open>valid_layer l pk\<close> by (simp add: paged_ok_def blocks_ok_def)
        ultimately show ?thesis using put_same_block [OF Some] by (simp add: unload_block_def Some True)
      qed
      then show ?thesis by (simp add: keeps_def)
    qed (simp add: unload_block_def Some keeps_evict)
  qed (simp add: unload_block_def)
  have "paged_ok pt pk \<longrightarrow> paged_ok pt (fold (unload_block pt io l) xs pk) \<and> same_cache pk (fold (unload_block pt io l) xs pk)"
    if "valid_layer l pk" for xs and pk :: "'a paged_kv"
    using that
  proof (induction xs arbitrary: pk)
    case (Cons x xs)
    show ?case
    proof
      assume ok: "paged_ok pt pk"
      have 1: "paged_ok pt (unload_block pt io l x pk) \<and> same_cache pk (unload_block pt io l x pk)"
        using step [OF Cons.prems] ok by (simp add: keeps_def)
      then have "valid_layer l (unload_block pt io l x pk)" using Cons.prems by (simp add: same_cache_def valid_layer_def)
      from Cons.IH [OF this] 1 same_cache_trans
      show "paged_ok pt (fold (unload_block pt io l) (x # xs) pk) \<and> same_cache pk (fold (unload_block pt io l) (x # xs) pk)"
        by fastforce
    qed
  qed simp
  then show ?thesis using assms by (simp add: keeps_def unload_layer_def)
qed

lemma keeps_unload: "keeps pt pk (unload_memory pt io pk)"
proof -
  have "paged_ok pt p \<longrightarrow> paged_ok pt (fold (unload_layer pt io) ls p) \<and> same_cache p (fold (unload_layer pt io) ls p)"
    if "\<forall>l \<in> set ls. valid_layer l p" for ls and p :: "'a paged_kv"
    using that
  proof (induction ls arbitrary: p)
    case (Cons l ls)
    show ?case
    proof
      assume ok: "paged_ok pt p"
      have 1: "paged_ok pt (unload_layer pt io l p) \<and> same_cache p (unload_layer pt io l p)"
        using keeps_unload_layer [of l p pt io] Cons.prems ok by (simp add: keeps_def)
      then have "\<forall>l' \<in> set ls. valid_layer l' (unload_layer pt io l p)"
        using Cons.prems by (simp add: same_cache_def valid_layer_def)
      from Cons.IH [OF this] 1 same_cache_trans
      show "paged_ok pt (fold (unload_layer pt io) (l # ls) p) \<and> same_cache p (fold (unload_layer pt io) (l # ls) p)"
        by fastforce
    qed
  qed simp
  from this [of "layer_indexes pk" "flush_to_disk pt io pk"] keeps_flush [of pt pk io] same_cache_trans
  show ?thesis by (fastforce simp: keeps_def unload_memory_def layer_indexes_def valid_layer_def same_cache_def)
qed

datatype move_op =
    Evict int int
  | Evict_Lru int
  | Load int int
  | Worker_Turn
  | Ensure nat int int
  | Prefetch int int
  | Prefetch_Range int int int
  | Flush
  | Load_All
  | Unload

fun run_move :: "'r page_table \<Rightarrow> io \<Rightarrow> move_op \<Rightarrow> 'r paged_kv \<Rightarrow> 'r paged_kv" where
  "run_move pt io (Evict l i) pk = evict_to_disk pt io l i pk"
| "run_move pt io (Evict_Lru l) pk = evict_lru pt io l pk"
| "run_move pt io (Load l i) pk = load_block pt io l i pk"
| "run_move pt io Worker_Turn pk = worker_step pt io pk"
| "run_move pt io (Ensure patience l i) pk = snd (ensure_resident pt io patience l i pk)"
| "run_move pt io (Prefetch l i) pk = prefetch l i pk"
| "run_move pt io (Prefetch_Range l a b) pk = prefetch_range pt l a b pk"
| "run_move pt io Flush pk = flush_to_disk pt io pk"
| "run_move pt io Load_All pk = load_from_disk pt io pk"
| "run_move pt io Unload pk = unload_memory pt io pk"

lemma keeps_run_move: "keeps pt pk (run_move pt io op pk)"
  by (cases op) (simp_all add: keeps_evict keeps_evict_lru keeps_load keeps_worker keeps_ensure_resident
      keeps_prefetch keeps_prefetch_range keeps_flush keeps_load_all keeps_unload)

text \<open>
  C3: moving data between memory and disk is invisible. Whatever sequence of evictions, loads,
  prefetches, worker turns, flushes, reloads and unloads runs, and whichever file operations
  fail on the way, the cache stays well-formed (exact memory accounting, within its limit),
  every block keeps its data, and the page tables and positions do not change.
\<close>

theorem paged_moves_transparent:
  assumes "paged_ok pt pk"
  shows "paged_ok pt (fold (run_move pt io) ops pk) \<and> same_cache pk (fold (run_move pt io) ops pk)"
  using keeps_fold [of pt "run_move pt io"] keeps_run_move assms by (metis keeps_def)

lemma paged_new_ok:
  assumes "0 < h" "0 < d" "0 < bs" "h * bs * d < 2 ^ 63"
  shows "paged_ok pt (paged_new pt num_layers h d bs limit path)"
proof -
  have "layer_at l (paged_new pt num_layers h d bs limit path) = \<lparr>pl_root = Some (pt_empty pt), pl_blocks = [], pl_pos = 0\<rparr>"
    if "valid_layer l (paged_new pt num_layers h d bs limit path)" for l
    using that by (auto simp: layer_at_def paged_new_def valid_layer_def)
  moreover have "resident_blocks (paged_new pt num_layers h d bs limit path) = 0"
    by (simp add: resident_blocks_def paged_new_def layer_resident_def sum_list_replicate)
  ultimately show ?thesis using assms
    by (auto simp: paged_ok_def dims_ok_def blocks_ok_def memory_ok_def find_block_def per_block_def)
      (simp_all add: paged_new_def)
qed

theorem paged_moves_transparent_witness:
  "paged_ok table_4m (fold (run_move table_4m (\<lambda>n stage. odd n)) [Flush, Evict 0 3, Load_All, Unload]
     (paged_new table_4m 2 2 8 16 (10 ^ 6) ''/var/kv''))"
  using paged_moves_transparent [OF paged_new_ok, of 2 8 16 table_4m "\<lambda>n stage. odd n" "[Flush, Evict 0 3, Load_All, Unload]"]
  by simp

end
