(* ===== verification/Paged_Tokens.thy ===== *)
theory Paged_Tokens
  imports Paged_Correct
begin

text \<open>
  The token view of the paged cache: what \<open>append\<close> stores and \<open>get_range\<close> returns, position by
  position, through allocation, eviction and failures.
\<close>

section \<open>Replacing a resident block\<close>

lemma put_resident:
  assumes ok: "paged_ok pt pk" and l: "valid_layer l pk" and f: "find_block l i pk = Some b"
    and m: "\<not> pb_on_disk b" and m': "\<not> pb_on_disk b'"
    and sizes: "int (length (pb_k b')) = per_block pk" "int (length (pb_v b')) = per_block pk"
  shows "paged_ok pt (put_block l i b' pk)"
    and "paged_contents (put_block l i b' pk) l' i' =
      (if valid_layer l' pk \<and> l' = l \<and> i' = i then Some (pb_k b', pb_v b') else paged_contents pk l' i')"
proof -
  let ?pk = "put_block l i b' pk"
  have dims: "dims_ok pk" and blocks: "blocks_ok pt pk" and mem: "memory_ok pk"
    using ok by (simp_all add: paged_ok_def)
  have len: "nat l < length (pk_layers pk)" by (rule valid_layer_bound [OF dims l])
  have valid: "valid_layer l' ?pk = valid_layer l' pk" for l' by (simp add: valid_layer_def)
  have find: "find_block l' i' ?pk = (if l' = l \<and> i' = i then Some b' else find_block l' i' pk)"
    if "valid_layer l' pk" for l' i'
    using find_put_block [OF len] valid_layer_nat [OF l that] f by simp
  have per: "per_block ?pk = per_block pk" by (simp add: per_block_def)
  have path: "block_disk_path pt l' i' ?pk = block_disk_path pt l' i' pk" for l' i' by (simp add: block_disk_path_def)
  have fsts: "map fst (pl_blocks (layer_at l' ?pk)) = map fst (pl_blocks (layer_at l' pk))" for l'
    using len by (simp add: put_block_def layer_at_set_layer map_fst_put) (simp add: layer_at_def case_prod_beta)
  have b: "0 \<le> i" "i < pk_next_id pk" using block_okI [OF ok l f] by (simp_all add: block_ok_def)
  have "blocks_ok pt ?pk"
    unfolding blocks_ok_def valid
  proof (intro allI impI conjI)
    fix l' assume v: "valid_layer l' pk"
    show "distinct (map fst (pl_blocks (layer_at l' ?pk)))" using blocks v by (simp only: fsts blocks_ok_def)
    fix i' c assume c: "find_block l' i' ?pk = Some c"
    show "block_ok pt ?pk l' i' c"
    proof (cases "l' = l \<and> i' = i")
      case True
      then have "c = b'" using c find [OF v] by simp
      then show ?thesis using True b m' sizes by (simp add: block_ok_def per)
    next
      case False
      then have "find_block l' i' pk = Some c" using c find [OF v] by auto
      then have "block_ok pt pk l' i' c" using blocks v by (simp add: blocks_ok_def)
      then show ?thesis by (auto simp: block_ok_def per path)
    qed
  qed
  moreover have "resident_blocks ?pk = resident_blocks pk"
    using resident_put_block [OF len f, of b'] blocks l m m' by (simp add: blocks_ok_def resident_def)
  then have "memory_ok ?pk" using mem by (auto simp: memory_ok_def block_bytes_def per)
  ultimately show "paged_ok pt ?pk" using dims by (simp add: paged_ok_def dims_ok_def per)
  have "block_data ?pk = block_data pk" by (rule block_data_cong) simp_all
  then show "paged_contents ?pk l' i' =
      (if valid_layer l' pk \<and> l' = l \<and> i' = i then Some (pb_k b', pb_v b') else paged_contents pk l' i')"
    using m' by (simp add: paged_contents_def valid find) (simp add: block_data_def)
qed

section \<open>The token view\<close>

definition zero_token :: "'r paged_kv \<Rightarrow> u32 list" where
  "zero_token pk = replicate (nat (pk_heads pk * pk_dim pk)) 0"

definition token_size :: "'r paged_kv \<Rightarrow> nat" where
  "token_size pk = nat (pk_heads pk * pk_dim pk)"

text \<open>Position \<open>pos\<close> is row \<open>pos mod block_size\<close> of its block; unmapped positions are zero.\<close>

definition token :: "'r page_table \<Rightarrow> 'r paged_kv \<Rightarrow> int \<Rightarrow> int \<Rightarrow> u32 list \<times> u32 list" where
  "token pt pk layer pos =
     (let bid = resolve_block_id pt layer pos pk; r = nat (pos mod pk_block_size pk); d = token_size pk in
      if bid < 0 then (zero_token pk, zero_token pk)
      else case paged_contents pk layer bid of
        None \<Rightarrow> (zero_token pk, zero_token pk)
      | Some (k, v) \<Rightarrow> (row d k r, row d v r))"

text \<open>The page tables: every layer has a root, every mapped index names a block, no block twice.\<close>

definition root_ok :: "'r page_table \<Rightarrow> int set \<Rightarrow> 'r \<Rightarrow> bool" where
  "root_ok pt keys r \<longleftrightarrow>
     (\<forall>i. pt_in_range pt i \<longrightarrow> pt_find pt r i = - 1 \<or> pt_find pt r i \<in> keys \<and> 0 \<le> pt_find pt r i) \<and>
     (\<forall>i j. pt_in_range pt i \<longrightarrow> pt_in_range pt j \<longrightarrow> 0 \<le> pt_find pt r i \<longrightarrow>
        pt_find pt r i = pt_find pt r j \<longrightarrow> i = j)"

definition tables_ok :: "'r page_table \<Rightarrow> 'r paged_kv \<Rightarrow> bool" where
  "tables_ok pt pk \<longleftrightarrow> (\<forall>layer. valid_layer layer pk \<longrightarrow>
     (\<exists>r. pl_root (layer_at layer pk) = Some r \<and>
       root_ok pt (fst ` set (pl_blocks (layer_at layer pk))) r))"

lemma tables_ok_same_cache: "same_cache pk pk' \<Longrightarrow> tables_ok pt pk \<Longrightarrow> tables_ok pt pk'"
  unfolding tables_ok_def same_cache_def valid_layer_def by (metis list.set_map)

lemma resolve_same_cache: "same_cache pk pk' \<Longrightarrow> resolve_block_id pt l pos pk' = resolve_block_id pt l pos pk"
  by (simp add: resolve_block_id_def same_cache_def valid_layer_def Let_def)

lemma token_same_cache: "same_cache pk pk' \<Longrightarrow> token pt pk' l pos = token pt pk l pos"
  using resolve_same_cache [of pk pk' pt l pos]
  by (simp add: token_def zero_token_def token_size_def same_cache_def Let_def split: option.split)

lemma find_block_Some: "bid \<in> fst ` set (pl_blocks (layer_at l pk)) \<Longrightarrow> \<exists>b. find_block l bid pk = Some b"
  unfolding find_block_def by (metis domD dom_map_of_conv_image_fst)

section \<open>Allocation\<close>

lemma find_block_cong: "layer_at l pk' = layer_at l pk \<Longrightarrow> find_block l i pk' = find_block l i pk"
  by (simp add: find_block_def)

lemma paged_ok_next:
  "paged_ok pt pk \<Longrightarrow> pk_next_id pk \<le> n \<Longrightarrow> paged_ok pt (pk\<lparr>pk_next_id := n\<rparr>)"
  by (fastforce simp: paged_ok_def dims_ok_def blocks_ok_def memory_ok_def per_block_def block_bytes_def
      valid_layer_def resident_blocks_def find_block_def layer_at_def block_ok_def block_disk_path_def)

lemma contents_cong:
  "pk_layers pk' = pk_layers pk \<Longrightarrow> pk_num_layers pk' = pk_num_layers pk \<Longrightarrow> pk_disk pk' = pk_disk pk \<Longrightarrow>
   pk_heads pk' = pk_heads pk \<Longrightarrow> pk_dim pk' = pk_dim pk \<Longrightarrow> pk_block_size pk' = pk_block_size pk \<Longrightarrow>
   paged_contents pk' l i = paged_contents pk l i"
  using block_data_cong [of pk' pk] by (simp add: paged_contents_def valid_layer_def find_block_def layer_at_def)

lemma set_entry_fields [simp]:
  "pk_num_layers (set_entry pt l x i pk) = pk_num_layers pk" "pk_heads (set_entry pt l x i pk) = pk_heads pk"
  "pk_dim (set_entry pt l x i pk) = pk_dim pk" "pk_block_size (set_entry pt l x i pk) = pk_block_size pk"
  "pk_limit (set_entry pt l x i pk) = pk_limit pk" "pk_used (set_entry pt l x i pk) = pk_used pk"
  "pk_path (set_entry pt l x i pk) = pk_path pk" "pk_access (set_entry pt l x i pk) = pk_access pk"
  "pk_next_id (set_entry pt l x i pk) = pk_next_id pk" "pk_disk (set_entry pt l x i pk) = pk_disk pk"
  by (simp_all add: set_entry_def)

lemma layer_set_entry:
  assumes "nat l < length (pk_layers pk)"
  shows "layer_at l' (set_entry pt l x i pk) = (if nat l' = nat l
    then (layer_at l pk)\<lparr>pl_root := map_option (\<lambda>r. pt_set pt r x i) (pl_root (layer_at l pk))\<rparr> else layer_at l' pk)"
  using assms by (simp add: set_entry_def layer_at_set_layer)

lemma set_entry_same:
  assumes "nat l < length (pk_layers pk)"
  shows "find_block l' i' (set_entry pt l x i pk) = find_block l' i' pk"
    and "pl_blocks (layer_at l' (set_entry pt l x i pk)) = pl_blocks (layer_at l' pk)"
    and "pl_pos (layer_at l' (set_entry pt l x i pk)) = pl_pos (layer_at l' pk)"
    and "resident_blocks (set_entry pt l x i pk) = resident_blocks pk"
proof -
  show b: "pl_blocks (layer_at l' (set_entry pt l x i pk)) = pl_blocks (layer_at l' pk)" for l'
    using assms by (simp add: layer_set_entry) (simp add: layer_at_def)
  show "pl_pos (layer_at l' (set_entry pt l x i pk)) = pl_pos (layer_at l' pk)"
    using assms by (simp add: layer_set_entry) (simp add: layer_at_def)
  show "find_block l' i' (set_entry pt l x i pk) = find_block l' i' pk" by (simp add: find_block_def b)
  show "resident_blocks (set_entry pt l x i pk) = resident_blocks pk"
    using sum_list_update_nat [OF assms, of layer_resident
        "(layer_at l pk)\<lparr>pl_root := map_option (\<lambda>r. pt_set pt r x i) (pl_root (layer_at l pk))\<rparr>"]
    by (simp add: resident_blocks_def set_entry_def set_layer_def layer_resident_def layer_at_def)
qed

lemma paged_ok_set_entry:
  assumes "paged_ok pt pk" and "valid_layer l pk"
  shows "paged_ok pt (set_entry pt l x i pk)"
    and "paged_contents (set_entry pt l x i pk) l' i' = paged_contents pk l' i'"
proof -
  have len: "nat l < length (pk_layers pk)" using assms valid_layer_bound by (auto simp: paged_ok_def)
  have bd: "block_data (set_entry pt l x i pk) = block_data pk" by (rule block_data_cong) simp_all
  have v: "valid_layer l' (set_entry pt l x i pk) = valid_layer l' pk" for l' by (simp add: valid_layer_def)
  have len': "length (pk_layers (set_entry pt l x i pk)) = length (pk_layers pk)" by (simp add: set_entry_def)
  have per: "per_block (set_entry pt l x i pk) = per_block pk" "block_bytes (set_entry pt l x i pk) = block_bytes pk"
    by (simp_all add: per_block_def block_bytes_def)
  have path: "block_disk_path pt l' i' (set_entry pt l x i pk) = block_disk_path pt l' i' pk" for l' i'
    by (simp add: block_disk_path_def)
  have "paged_ok pt (set_entry pt l x i pk) = paged_ok pt pk"
    unfolding paged_ok_def dims_ok_def blocks_ok_def memory_ok_def block_ok_def
    by (simp only: v set_entry_same [OF len] per path len' set_entry_fields)
  with assms(1) show "paged_ok pt (set_entry pt l x i pk)" by simp
  show "paged_contents (set_entry pt l x i pk) l' i' = paged_contents pk l' i'"
    by (simp add: paged_contents_def v set_entry_same [OF len] bd)
qed

lemma alist_update_fresh: "k \<notin> fst ` set xs \<Longrightarrow> AList.update k v xs = xs @ [(k, v)]"
  by (induction xs) auto

lemma insert_block_ok:
  assumes ok: "paged_ok pt pk" and l: "valid_layer l pk" and fresh: "i \<notin> fst ` set (pl_blocks (layer_at l pk))"
    and i: "0 \<le> i" "i < pk_next_id pk" and m: "\<not> pb_on_disk b"
    and sizes: "int (length (pb_k b)) = per_block pk" "int (length (pb_v b)) = per_block pk"
    and room: "\<not> (pk_limit pk > 0 \<and> pk_used pk + block_bytes pk > pk_limit pk)"
  defines "pk' \<equiv> (insert_block l i b pk)\<lparr>pk_used := pk_used pk + block_bytes pk\<rparr>"
  shows "paged_ok pt pk'"
    and "paged_contents pk' l' i' = (if l' = l \<and> i' = i then Some (pb_k b, pb_v b) else paged_contents pk l' i')"
    and "layer_at l' pk' = (if nat l' = nat l then (layer_at l pk)\<lparr>pl_blocks := pl_blocks (layer_at l pk) @ [(i, b)]\<rparr>
      else layer_at l' pk)"
proof -
  have dims: "dims_ok pk" and blocks: "blocks_ok pt pk" and mem: "memory_ok pk"
    using ok by (simp_all add: paged_ok_def)
  have len: "nat l < length (pk_layers pk)" by (rule valid_layer_bound [OF dims l])
  have flds: "pk_num_layers pk' = pk_num_layers pk" "pk_heads pk' = pk_heads pk" "pk_dim pk' = pk_dim pk"
    "pk_block_size pk' = pk_block_size pk" "pk_limit pk' = pk_limit pk" "pk_path pk' = pk_path pk"
    "pk_next_id pk' = pk_next_id pk" "pk_disk pk' = pk_disk pk" "length (pk_layers pk') = length (pk_layers pk)"
    by (simp_all add: pk'_def insert_block_def)
  show layer: "layer_at l' pk' = (if nat l' = nat l then (layer_at l pk)\<lparr>pl_blocks := pl_blocks (layer_at l pk) @ [(i, b)]\<rparr>
      else layer_at l' pk)" for l'
    using layer_at_set_layer [OF len] alist_update_fresh [OF fresh, of b]
    by (simp add: pk'_def insert_block_def) (simp add: layer_at_def)
  have valid: "valid_layer l' pk' = valid_layer l' pk" for l' by (simp add: valid_layer_def flds)
  have none: "map_of (pl_blocks (layer_at l pk)) i = None" using fresh by (simp add: map_of_eq_None_iff)
  have find: "find_block l' i' pk' = (if l' = l \<and> i' = i then Some b else find_block l' i' pk)"
    if "valid_layer l' pk" for l' i'
    using valid_layer_nat [OF l that] none
    by (auto simp: find_block_def layer map_add_def split: option.split)
  have per: "per_block pk' = per_block pk" "block_bytes pk' = block_bytes pk" by (simp_all add: per_block_def block_bytes_def flds)
  have path: "block_disk_path pt l' i' pk' = block_disk_path pt l' i' pk" for l' i' by (simp add: block_disk_path_def flds)
  have blocks': "blocks_ok pt pk'"
    unfolding blocks_ok_def valid
  proof (intro allI impI conjI)
    fix l' assume v: "valid_layer l' pk"
    show "distinct (map fst (pl_blocks (layer_at l' pk')))"
      using blocks v fresh l by (simp add: layer blocks_ok_def)
    fix i' c assume c: "find_block l' i' pk' = Some c"
    show "block_ok pt pk' l' i' c"
    proof (cases "l' = l \<and> i' = i")
      case True
      then have "c = b" using c find [OF v] by simp
      then show ?thesis using True i m sizes by (simp add: block_ok_def per flds)
    next
      case False
      then have "find_block l' i' pk = Some c" using c find [OF v] by auto
      then have "block_ok pt pk l' i' c" using blocks v by (simp add: blocks_ok_def)
      then show ?thesis by (auto simp: block_ok_def per path flds)
    qed
  qed
  have "resident_blocks pk' = resident_blocks pk + 1"
    using sum_list_update_nat [OF len, of layer_resident
        "(layer_at l pk)\<lparr>pl_blocks := pl_blocks (layer_at l pk) @ [(i, b)]\<rparr>"] m alist_update_fresh [OF fresh, of b]
    by (simp add: resident_blocks_def pk'_def insert_block_def set_layer_def layer_resident_def layer_at_def resident_def)
  moreover have "pk_used pk' = pk_used pk + block_bytes pk" by (simp add: pk'_def)
  ultimately have "memory_ok pk'" using mem room by (auto simp: memory_ok_def per flds)
  then show "paged_ok pt pk'" using dims blocks' by (simp add: paged_ok_def dims_ok_def per flds)
  have "block_data pk' = block_data pk" by (rule block_data_cong) (simp_all add: flds)
  then show "paged_contents pk' l' i' = (if l' = l \<and> i' = i then Some (pb_k b, pb_v b) else paged_contents pk l' i')"
    using m l by (auto simp: paged_contents_def valid find block_data_def)
qed

text \<open>Two states with the same tokens at the same positions.\<close>

definition same_tokens :: "'r page_table \<Rightarrow> 'r paged_kv \<Rightarrow> 'r paged_kv \<Rightarrow> bool" where
  "same_tokens pt pk pk' \<longleftrightarrow>
     pk_num_layers pk' = pk_num_layers pk \<and> pk_heads pk' = pk_heads pk \<and> pk_dim pk' = pk_dim pk \<and>
     pk_block_size pk' = pk_block_size pk \<and> pk_limit pk' = pk_limit pk \<and>
     (\<forall>l. valid_layer l pk \<longrightarrow> pl_pos (layer_at l pk') = pl_pos (layer_at l pk)) \<and>
     (\<forall>l pos. valid_layer l pk \<longrightarrow> token pt pk' l pos = token pt pk l pos)"

lemma same_tokens_refl [simp]: "same_tokens pt pk pk"
  by (simp add: same_tokens_def)

lemma same_tokens_trans: "same_tokens pt a b \<Longrightarrow> same_tokens pt b c \<Longrightarrow> same_tokens pt a c"
  by (simp add: same_tokens_def valid_layer_def)

lemma same_tokens_same_cache: "same_cache pk pk' \<Longrightarrow> same_tokens pt pk pk'"
  using token_same_cache [of pk pk' pt] by (simp add: same_tokens_def) (simp add: same_cache_def)

text \<open>The token view from the resolution and the contents.\<close>

lemma same_tokensI:
  assumes "pk_num_layers pk' = pk_num_layers pk" "pk_heads pk' = pk_heads pk" "pk_dim pk' = pk_dim pk"
    "pk_block_size pk' = pk_block_size pk" "pk_limit pk' = pk_limit pk"
    and "\<And>l. valid_layer l pk \<Longrightarrow> pl_pos (layer_at l pk') = pl_pos (layer_at l pk)"
    and "\<And>l pos. valid_layer l pk \<Longrightarrow> resolve_block_id pt l pos pk' = resolve_block_id pt l pos pk"
    and "\<And>l pos. valid_layer l pk \<Longrightarrow> 0 \<le> resolve_block_id pt l pos pk \<Longrightarrow>
      paged_contents pk' l (resolve_block_id pt l pos pk) = paged_contents pk l (resolve_block_id pt l pos pk)"
  shows "same_tokens pt pk pk'"
proof -
  have z: "zero_token pk' = zero_token pk" "token_size pk' = token_size pk"
    using assms by (simp_all add: zero_token_def token_size_def)
  have "token pt pk' l pos = token pt pk l pos" if "valid_layer l pk" for l pos
    using assms(7,8) [OF that, of pos] assms(4) by (simp add: token_def Let_def z split: option.split)
  then show ?thesis using assms by (simp add: same_tokens_def)
qed

lemma resolve_root:
  "valid_layer l pk \<Longrightarrow> pl_root (layer_at l pk) = Some r \<Longrightarrow>
   resolve_block_id pt l pos pk = (if pos < 0 \<or> pk_block_size pk \<le> 0 \<or> \<not> pt_in_range pt (pos div pk_block_size pk)
     then - 1 else pt_find pt r (pos div pk_block_size pk))"
  by (simp add: resolve_block_id_def Let_def)

lemma zero_block_row:
  assumes "dims_ok pk" and "0 \<le> pos"
  shows "row (token_size pk) (replicate (nat (per_block pk)) 0) (nat (pos mod pk_block_size pk)) = zero_token pk"
proof -
  have d: "0 < pk_heads pk" "0 < pk_dim pk" "0 < pk_block_size pk" using assms(1) by (simp_all add: dims_ok_def)
  have "per_block pk = pk_block_size pk * (pk_heads pk * pk_dim pk)" by (simp add: per_block_def)
  then have "nat (per_block pk) = nat (pk_block_size pk) * token_size pk"
    using d by (simp add: token_size_def nat_mult_distrib)
  moreover have "nat (pos mod pk_block_size pk) < nat (pk_block_size pk)" using d by simp
  ultimately show ?thesis by (simp add: row_replicate zero_token_def token_size_def)
qed

context page_table_laws
begin

lemma find_set: "pt_in_range pt i \<Longrightarrow> pt_in_range pt j \<Longrightarrow> pt_find pt (pt_set pt r i x) j = (if j = i then x else pt_find pt r j)"
  using find_set_same find_set_other by auto

lemma root_ok_set:
  assumes "root_ok pt keys r" and x: "pt_in_range pt x" "pt_find pt r x = - 1" and "0 \<le> i"
    and lt: "\<And>k. k \<in> keys \<Longrightarrow> k < i"
  shows "root_ok pt (keys \<union> {i}) (pt_set pt r x i)"
proof -
  have find: "pt_find pt (pt_set pt r x i) j = (if j = x then i else pt_find pt r j)" if "pt_in_range pt j" for j
    using find_set [OF x(1) that] .
  have ne: "pt_find pt r j \<noteq> i" if "pt_in_range pt j" for j
    using assms(1,4) lt that by (fastforce simp: root_ok_def)
  have inj: "j = k" if "pt_in_range pt j" "pt_in_range pt k" "0 \<le> pt_find pt (pt_set pt r x i) j"
        "pt_find pt (pt_set pt r x i) j = pt_find pt (pt_set pt r x i) k" for j k
  proof (cases "j = x \<or> k = x")
    case True
    then show ?thesis using that(4) find [OF that(1)] find [OF that(2)] ne [OF that(1)] ne [OF that(2)]
      by (auto split: if_splits)
  next
    case False
    then have "0 \<le> pt_find pt r j" "pt_find pt r j = pt_find pt r k"
      using that(3,4) find [OF that(1)] find [OF that(2)] by simp_all
    then show ?thesis using assms(1) that(1,2) unfolding root_ok_def by blast
  qed
  have "pt_find pt (pt_set pt r x i) j = - 1 \<or> pt_find pt (pt_set pt r x i) j \<in> keys \<union> {i} \<and> 0 \<le> pt_find pt (pt_set pt r x i) j"
    if "pt_in_range pt j" for j
    using assms(1,4) find [OF that] that by (auto simp: root_ok_def)
  with inj show ?thesis unfolding root_ok_def by blast
qed

text \<open>What a failed allocation leaves: the entry was written and reset.\<close>

lemma alloc_rollback:
  assumes ok: "paged_ok pt pk" and tab: "tables_ok pt pk" and l: "valid_layer l pk"
    and r: "pl_root (layer_at l pk) = Some r" and x: "pt_in_range pt x" "pt_find pt r x = - 1"
    and ok2: "paged_ok pt p2" and s: "same_cache (set_entry pt l x i pk\<lparr>pk_next_id := n, pk_access := a\<rparr>) p2"
  shows "paged_ok pt (set_entry pt l x (- 1) p2) \<and> tables_ok pt (set_entry pt l x (- 1) p2) \<and>
    same_tokens pt pk (set_entry pt l x (- 1) p2)"
proof -
  let ?p1 = "set_entry pt l x i pk\<lparr>pk_next_id := n, pk_access := a\<rparr>"
  let ?p3 = "set_entry pt l x (- 1) p2"
  have len: "nat l < length (pk_layers pk)" using ok l valid_layer_bound by (auto simp: paged_ok_def)
  have v2: "valid_layer l' p2 = valid_layer l' pk" for l' using s by (simp add: same_cache_def valid_layer_def)
  have l2: "valid_layer l p2" using l v2 by simp
  have len2: "nat l < length (pk_layers p2)" using ok2 l2 valid_layer_bound by (auto simp: paged_ok_def)
  have la: "layer_at l' ?p1 = layer_at l' (set_entry pt l x i pk)" for l' by (simp add: layer_at_def)
  have v1: "valid_layer l' ?p1 = valid_layer l' pk" for l' by (simp add: valid_layer_def)
  have root2: "pl_root (layer_at l' p2) = (if l' = l then Some (pt_set pt r x i) else pl_root (layer_at l' pk))"
    if "valid_layer l' pk" for l'
    using s that v1 valid_layer_nat [OF l that] by (simp add: same_cache_def la layer_set_entry [OF len] r)
  have blocks2: "map fst (pl_blocks (layer_at l' p2)) = map fst (pl_blocks (layer_at l' pk))"
    and pos2: "pl_pos (layer_at l' p2) = pl_pos (layer_at l' pk)" if "valid_layer l' pk" for l'
    using s that v1 by (simp_all add: same_cache_def la set_entry_same [OF len])
  have root3: "pl_root (layer_at l' ?p3) = (if l' = l then Some (pt_set pt (pt_set pt r x i) x (- 1)) else pl_root (layer_at l' pk))"
    if "valid_layer l' pk" for l'
    using root2 [OF that] root2 [OF l] valid_layer_nat [OF l that] by (simp add: layer_set_entry [OF len2])
  have find3: "pt_find pt (pt_set pt (pt_set pt r x i) x (- 1)) j = pt_find pt r j" if "pt_in_range pt j" for j
    using x find_set that by simp
  have blocks3: "fst ` set (pl_blocks (layer_at l' ?p3)) = fst ` set (pl_blocks (layer_at l' pk))" if "valid_layer l' pk" for l'
    using blocks2 [OF that] by (simp add: set_entry_same [OF len2]) (metis list.set_map)
  have v3: "valid_layer l' ?p3 = valid_layer l' pk" for l' using v2 by (simp add: valid_layer_def)
  have "tables_ok pt ?p3"
    unfolding tables_ok_def v3
  proof (intro allI impI)
    fix l' assume v: "valid_layer l' pk"
    obtain q where q: "pl_root (layer_at l' pk) = Some q" "root_ok pt (fst ` set (pl_blocks (layer_at l' pk))) q"
      using tab v by (auto simp: tables_ok_def)
    show "\<exists>q. pl_root (layer_at l' ?p3) = Some q \<and> root_ok pt (fst ` set (pl_blocks (layer_at l' ?p3))) q"
      using q r root3 [OF v] find3 by (cases "l' = l") (simp_all add: blocks3 [OF v] blocks3 [OF l] root_ok_def)
  qed
  moreover have "same_tokens pt pk ?p3"
  proof (rule same_tokensI)
    have flds: "pk_num_layers p2 = pk_num_layers pk" "pk_heads p2 = pk_heads pk" "pk_dim p2 = pk_dim pk"
      "pk_block_size p2 = pk_block_size pk" "pk_limit p2 = pk_limit pk" using s by (simp_all add: same_cache_def)
    then show "pk_num_layers ?p3 = pk_num_layers pk" "pk_heads ?p3 = pk_heads pk" "pk_dim ?p3 = pk_dim pk"
      "pk_block_size ?p3 = pk_block_size pk" "pk_limit ?p3 = pk_limit pk" by simp_all
    fix l' pos assume v: "valid_layer l' pk"
    show "pl_pos (layer_at l' ?p3) = pl_pos (layer_at l' pk)" using pos2 [OF v] by (simp add: set_entry_same [OF len2])
    obtain q where q: "pl_root (layer_at l' pk) = Some q" using tab v by (auto simp: tables_ok_def)
    show "resolve_block_id pt l' pos ?p3 = resolve_block_id pt l' pos pk"
      using resolve_root [OF v q, of pt pos] find3 root3 [OF v] q r v v3 flds
      by (cases "l' = l") (simp_all add: resolve_block_id_def Let_def)
    have "paged_contents ?p3 l' i' = paged_contents p2 l' i'" for i' by (rule paged_ok_set_entry(2) [OF ok2 l2])
    also have "\<dots> i' = paged_contents ?p1 l' i'" for i' using s by (simp add: same_cache_def)
    also have "\<dots> i' = paged_contents (set_entry pt l x i pk) l' i'" for i' by (rule contents_cong) simp_all
    also have "\<dots> i' = paged_contents pk l' i'" for i' by (rule paged_ok_set_entry(2) [OF ok l])
    finally show "paged_contents ?p3 l' (resolve_block_id pt l' pos pk) = paged_contents pk l' (resolve_block_id pt l' pos pk)" .
  qed
  moreover have "paged_ok pt ?p3" by (rule paged_ok_set_entry(1) [OF ok2 l2])
  ultimately show ?thesis by blast
qed

text \<open>What a successful one leaves: a fresh block of zeros, named by its index.\<close>

lemma alloc_commit:
  assumes ok: "paged_ok pt pk" and tab: "tables_ok pt pk" and l: "valid_layer l pk"
    and r: "pl_root (layer_at l pk) = Some r" and x: "pt_in_range pt x" "pt_find pt r x = - 1"
    and ok2: "paged_ok pt p2" and s: "same_cache (set_entry pt l x (pk_next_id pk) pk\<lparr>pk_next_id := pk_next_id pk + 1, pk_access := a\<rparr>) p2"
    and next0: "0 \<le> pk_next_id pk"
    and room: "\<not> (pk_limit p2 > 0 \<and> pk_used p2 + block_bytes p2 > pk_limit p2)"
    and b: "\<not> pb_on_disk b" "pb_k b = replicate (nat (per_block pk)) 0" "pb_v b = replicate (nat (per_block pk)) 0"
  defines "p3 \<equiv> insert_block l (pk_next_id pk) b p2\<lparr>pk_used := pk_used p2 + block_bytes p2\<rparr>"
  shows "paged_ok pt p3 \<and> tables_ok pt p3 \<and> same_tokens pt pk p3 \<and>
    (\<forall>pos. 0 \<le> pos \<longrightarrow> pos div pk_block_size pk = x \<longrightarrow> resolve_block_id pt l pos p3 = pk_next_id pk) \<and>
    find_block l (pk_next_id pk) p3 = Some b"
proof -
  let ?i = "pk_next_id pk"
  let ?p1 = "set_entry pt l x ?i pk\<lparr>pk_next_id := ?i + 1, pk_access := a\<rparr>"
  have dims: "dims_ok pk" using ok by (simp add: paged_ok_def)
  have len: "nat l < length (pk_layers pk)" by (rule valid_layer_bound [OF dims l])
  have v2: "valid_layer l' p2 = valid_layer l' pk" for l' using s by (simp add: same_cache_def valid_layer_def)
  have l2: "valid_layer l p2" using l v2 by simp
  have la: "layer_at l' ?p1 = layer_at l' (set_entry pt l x ?i pk)" for l' by (simp add: layer_at_def)
  have v1: "valid_layer l' ?p1 = valid_layer l' pk" for l' by (simp add: valid_layer_def)
  have root2: "pl_root (layer_at l' p2) = (if l' = l then Some (pt_set pt r x ?i) else pl_root (layer_at l' pk))"
    if "valid_layer l' pk" for l'
    using s that v1 valid_layer_nat [OF l that] by (simp add: same_cache_def la layer_set_entry [OF len] r)
  have blocks2: "map fst (pl_blocks (layer_at l' p2)) = map fst (pl_blocks (layer_at l' pk))"
    and pos2: "pl_pos (layer_at l' p2) = pl_pos (layer_at l' pk)" if "valid_layer l' pk" for l'
    using s that v1 by (simp_all add: same_cache_def la set_entry_same [OF len])
  have flds: "pk_num_layers p2 = pk_num_layers pk" "pk_heads p2 = pk_heads pk" "pk_dim p2 = pk_dim pk"
      "pk_block_size p2 = pk_block_size pk" "pk_limit p2 = pk_limit pk" "pk_next_id p2 = ?i + 1"
    using s by (simp_all add: same_cache_def)
  have keys: "j < ?i" if "valid_layer l' pk" "j \<in> fst ` set (pl_blocks (layer_at l' pk))" for l' j
    using find_block_Some [OF that(2)] block_okI [OF ok that(1)] by (auto simp: block_ok_def)
  have fresh: "?i \<notin> fst ` set (pl_blocks (layer_at l p2))"
    using keys [OF l, of ?i] blocks2 [OF l] by (metis less_irrefl list.set_map)
  have sizes: "int (length (pb_k b)) = per_block p2" "int (length (pb_v b)) = per_block p2"
    using b per_block_pos [OF dims] per_block_cong [OF flds(2,3,4)] by simp_all
  have i2: "?i < pk_next_id p2" using flds(6) by simp
  note ins = insert_block_ok [OF ok2 l2 fresh next0 i2 b(1) sizes room, folded p3_def]
  have root3: "pl_root (layer_at l' p3) = (if l' = l then Some (pt_set pt r x ?i) else pl_root (layer_at l' pk))"
    and pos3: "pl_pos (layer_at l' p3) = pl_pos (layer_at l' pk)"
    and keys3: "fst ` set (pl_blocks (layer_at l' p3)) = fst ` set (pl_blocks (layer_at l' pk)) \<union> (if l' = l then {?i} else {})"
    if v: "valid_layer l' pk" for l'
  proof -
    have e: "fst ` set (pl_blocks (layer_at l' p2)) = fst ` set (pl_blocks (layer_at l' pk))"
      "fst ` set (pl_blocks (layer_at l p2)) = fst ` set (pl_blocks (layer_at l pk))"
      using blocks2 [OF v] blocks2 [OF l] by (metis list.set_map)+
    note nn = valid_layer_nat [OF l v]
    show "pl_root (layer_at l' p3) = (if l' = l then Some (pt_set pt r x ?i) else pl_root (layer_at l' pk))"
      using root2 [OF v] root2 [OF l] by (simp add: ins(3) nn)
    show "pl_pos (layer_at l' p3) = pl_pos (layer_at l' pk)"
      using pos2 [OF v] pos2 [OF l] by (simp add: ins(3) nn)
    show "fst ` set (pl_blocks (layer_at l' p3)) = fst ` set (pl_blocks (layer_at l' pk)) \<union> (if l' = l then {?i} else {})"
      using e by (simp add: ins(3) nn)
  qed
  have flds3: "pk_num_layers p3 = pk_num_layers pk" "pk_heads p3 = pk_heads pk" "pk_dim p3 = pk_dim pk"
      "pk_block_size p3 = pk_block_size pk" "pk_limit p3 = pk_limit pk"
    using flds by (simp_all add: p3_def insert_block_def)
  have v3: "valid_layer l' p3 = valid_layer l' pk" for l' by (simp add: valid_layer_def flds3)
  have find3: "pt_find pt (pt_set pt r x ?i) j = (if j = x then ?i else pt_find pt r j)" if "pt_in_range pt j" for j
    using find_set [OF x(1) that] .
  have old: "\<exists>q. pl_root (layer_at l' pk) = Some q \<and> root_ok pt (fst ` set (pl_blocks (layer_at l' pk))) q"
    if "valid_layer l' pk" for l' using tab that by (simp add: tables_ok_def)
  have tables3: "tables_ok pt p3"
    unfolding tables_ok_def v3
  proof (intro allI impI)
    fix l' assume v: "valid_layer l' pk"
    show "\<exists>q. pl_root (layer_at l' p3) = Some q \<and> root_ok pt (fst ` set (pl_blocks (layer_at l' p3))) q"
    proof (cases "l' = l")
      case True
      have "root_ok pt (fst ` set (pl_blocks (layer_at l pk))) r" using old [OF l] r by simp
      from root_ok_set [OF this x next0] keys [OF l] show ?thesis
        using True root3 [OF v] keys3 [OF v] by simp
    next
      case False
      then show ?thesis using old [OF v] root3 [OF v] keys3 [OF v] by simp
    qed
  qed
  have contents3: "paged_contents p3 l' i' = (if l' = l \<and> i' = ?i then Some (pb_k b, pb_v b) else paged_contents pk l' i')" for l' i'
  proof -
    have "paged_contents p2 l' i' = paged_contents ?p1 l' i'" using s by (simp add: same_cache_def)
    also have "\<dots> = paged_contents (set_entry pt l x ?i pk) l' i'" by (rule contents_cong) simp_all
    also have "\<dots> = paged_contents pk l' i'" by (rule paged_ok_set_entry(2) [OF ok l])
    finally show ?thesis by (simp add: ins(2))
  qed
  have resolve3: "resolve_block_id pt l' pos p3 =
      (if l' = l \<and> 0 \<le> pos \<and> pos div pk_block_size pk = x then ?i else resolve_block_id pt l' pos pk)"
    if v: "valid_layer l' pk" for l' pos
  proof -
    obtain q where q: "pl_root (layer_at l' pk) = Some q" using old [OF v] by blast
    have "0 < pk_block_size pk" using dims by (simp add: dims_ok_def)
    then show ?thesis using resolve_root [OF v q, of pt pos] root3 [OF v] q r v v3 flds3 find3 x(1)
      by (cases "l' = l") (simp_all add: resolve_block_id_def Let_def)
  qed
  have z: "zero_token p3 = zero_token pk" "token_size p3 = token_size pk"
    using flds3 by (simp_all add: zero_token_def token_size_def)
  have tokens3: "token pt p3 l' pos = token pt pk l' pos" if v: "valid_layer l' pk" for l' pos
  proof (cases "l' = l \<and> 0 \<le> pos \<and> pos div pk_block_size pk = x")
    case True
    have "resolve_block_id pt l' pos pk = - 1" using True resolve_root [OF l r, of pt pos] x by simp
    then have "token pt pk l' pos = (zero_token pk, zero_token pk)" by (simp add: token_def)
    moreover have "token pt p3 l' pos = (zero_token pk, zero_token pk)"
      using True resolve3 [OF v, of pos] contents3 [of l' ?i] b next0 zero_block_row [OF dims, of pos]
      by (simp add: token_def Let_def z flds3)
    ultimately show ?thesis by simp
  next
    case False
    have "resolve_block_id pt l' pos pk < 0 \<or> resolve_block_id pt l' pos pk < ?i"
    proof -
      obtain q where q: "pl_root (layer_at l' pk) = Some q" using old [OF v] by blast
      have "root_ok pt (fst ` set (pl_blocks (layer_at l' pk))) q" using old [OF v] q by simp
      then have "pt_find pt q j = - 1 \<or> pt_find pt q j < ?i" if "pt_in_range pt j" for j
        using keys [OF v] that unfolding root_ok_def by blast
      then show ?thesis using resolve_root [OF v q, of pt pos] by fastforce
    qed
    then show ?thesis using False resolve3 [OF v, of pos] contents3
      by (auto simp: token_def Let_def z flds3 split: option.split)
  qed
  moreover have "find_block l ?i p3 = Some b"
  proof -
    have "map_of (pl_blocks (layer_at l p2)) ?i = None" using fresh by (simp add: map_of_eq_None_iff)
    then show ?thesis by (simp add: find_block_def ins(3) map_add_def)
  qed
  ultimately show ?thesis using ins(1) pos3 flds3 resolve3 [OF l] tables3 tokens3 by (simp add: same_tokens_def)
qed

lemma alloc_guards:
  assumes ok: "paged_ok pt pk" and tab: "tables_ok pt pk" and l: "valid_layer l pk" and pos: "0 \<le> pos"
    and "pos < max_logical pt pk"
  shows "0 < pk_block_size pk" "0 < pk_heads pk" "0 < pk_dim pk" "pt_in_range pt (pos div pk_block_size pk)"
    "pos div pk_block_size pk * pk_block_size pk < max_logical pt pk" "pl_root (layer_at l pk) \<noteq> None"
proof -
  show d: "0 < pk_block_size pk" "0 < pk_heads pk" "0 < pk_dim pk" using ok by (simp_all add: paged_ok_def dims_ok_def)
  have "pos div pk_block_size pk * pk_block_size pk \<le> pos"
    using pos_mod_sign [OF d(1), of pos] div_mult_mod_eq [of pos "pk_block_size pk"] by linarith
  then show lt: "pos div pk_block_size pk * pk_block_size pk < max_logical pt pk" using assms(5) by simp
  then have "pos div pk_block_size pk < pt_entries pt" using d(1) by (simp add: max_logical_def)
  then show "pt_in_range pt (pos div pk_block_size pk)" using d(1) pos by (simp add: range_capacity pos_imp_zdiv_nonneg_iff)
  show "pl_root (layer_at l pk) \<noteq> None" using tab l by (auto simp: tables_ok_def)
qed

text \<open>
  Allocation for an unmapped position: either nothing is allocated, or the position now resolves
  to a resident block; no token changes.
\<close>

lemma alloc_spec:
  assumes ok: "paged_ok pt pk" and tab: "tables_ok pt pk" and un: "resolve_block_id pt l pos pk < 0"
    and a: "alloc_block_id pt io l pos pk = (bid, pk')"
  shows "paged_ok pt pk' \<and> tables_ok pt pk' \<and> same_tokens pt pk pk' \<and>
    (0 \<le> bid \<longrightarrow> valid_layer l pk \<and> 0 \<le> pos \<and> resolve_block_id pt l pos pk' = bid \<and>
       (\<exists>b. find_block l bid pk' = Some b \<and> \<not> pb_on_disk b)) \<and>
    (pk_limit pk = 0 \<longrightarrow> valid_layer l pk \<longrightarrow> 0 \<le> pos \<longrightarrow> pos < max_logical pt pk \<longrightarrow> 0 \<le> pk_next_id pk \<longrightarrow>
       pk_next_id pk < INT64_MAX \<longrightarrow> 0 \<le> bid)"
proof -
  let ?x = "pos div pk_block_size pk"
  show ?thesis
  proof (cases "\<not> valid_layer l pk \<or> pos < 0 \<or> pk_block_size pk \<le> 0 \<or> pk_heads pk \<le> 0 \<or> pk_dim pk \<le> 0 \<or>
      \<not> pt_in_range pt ?x \<or> pk_next_id pk < 0 \<or> pk_next_id pk = INT64_MAX \<or>
      ?x * pk_block_size pk \<ge> max_logical pt pk \<or> pl_root (layer_at l pk) = None")
    case True
    then have "alloc_block_id pt io l pos pk = (- 1, pk)"
      unfolding alloc_block_id_def Let_def by (elim disjE) simp_all
    moreover have "\<not> (valid_layer l pk \<and> 0 \<le> pos \<and> pos < max_logical pt pk \<and> 0 \<le> pk_next_id pk \<and> pk_next_id pk < INT64_MAX)"
      using True alloc_guards [OF ok tab, of l pos] by auto
    ultimately show ?thesis using ok tab a by auto
  next
    case False
    then obtain r where l: "valid_layer l pk" and pos: "0 \<le> pos" and r: "pl_root (layer_at l pk) = Some r"
      and xr: "pt_in_range pt ?x" and next0: "0 \<le> pk_next_id pk" by (auto simp: not_less)
    have bs: "0 < pk_block_size pk" using ok by (simp add: paged_ok_def dims_ok_def)
    have rok: "root_ok pt (fst ` set (pl_blocks (layer_at l pk))) r" using tab l r by (auto simp: tables_ok_def)
    have x: "pt_find pt r ?x = - 1"
      using un resolve_root [OF l r, of pt pos] pos bs xr rok unfolding root_ok_def by force
    let ?p1 = "set_entry pt l ?x (pk_next_id pk) pk\<lparr>pk_next_id := pk_next_id pk + 1, pk_access := pk_access pk + 1\<rparr>"
    have swap: "set_entry pt l ?x i (pk\<lparr>pk_next_id := n\<rparr>) = set_entry pt l ?x i pk\<lparr>pk_next_id := n\<rparr>" for i n
      by (simp add: set_entry_def set_layer_def layer_at_def)
    define p2 where "p2 = (if pk_limit pk > 0 then make_room pt io l (block_bytes pk) ?p1 else ?p1)"
    have ok1: "paged_ok pt ?p1"
      using paged_ok_set_entry(1) [OF ok l] by (simp add: paged_ok_aux paged_ok_next)
    then have ok2: "paged_ok pt p2" and s: "same_cache ?p1 p2"
      using keeps_make_room [of pt ?p1] by (auto simp: p2_def keeps_def)
    have "per_block pk > 0" by (rule per_block_pos) (use ok in \<open>simp add: paged_ok_def\<close>)
    moreover have "pk_limit p2 = pk_limit pk" "block_bytes p2 = block_bytes pk"
      using s by (simp_all add: same_cache_def block_bytes_def per_block_def)
    ultimately have flds: "pk_limit p2 = pk_limit pk" "block_bytes p2 = block_bytes pk" "per_block pk > 0" by simp_all
    have bytes1: "block_bytes ?p1 = block_bytes pk" "per_block ?p1 = per_block pk"
      "per_block (set_entry pt l ?x i pk\<lparr>pk_next_id := n\<rparr>) = per_block pk" for i n
      by (simp_all add: block_bytes_def per_block_def)
    let ?b = "\<lparr>pb_id = pk_next_id pk, pb_k = replicate (nat (per_block pk)) 0,
      pb_v = replicate (nat (per_block pk)) 0, pb_dirty = False, pb_access = pk_access pk + 1,
      pb_on_disk = False, pb_file = []\<rparr>"
    have eq: "alloc_block_id pt io l pos pk =
        (if pk_limit pk > 0 \<and> pk_used p2 + block_bytes pk > pk_limit pk then (- 1, set_entry pt l ?x (- 1) p2)
         else (pk_next_id pk, insert_block l (pk_next_id pk) ?b p2\<lparr>pk_used := pk_used p2 + block_bytes pk\<rparr>))"
    proof -
      let ?q = "set_entry pt l ?x (pk_next_id pk) pk\<lparr>pk_next_id := pk_next_id pk + 1\<rparr>"
      have q: "?q\<lparr>pk_access := pk_access ?q + 1\<rparr> = ?p1" "per_block ?q = per_block pk" by (simp_all add: per_block_def)
      have room: "(if pk_limit ?p1 > 0 then make_room pt io l (block_bytes ?p1) ?p1 else ?p1) = p2"
        by (simp add: p2_def bytes1)
      show ?thesis
        unfolding alloc_block_id_def Let_def swap q room using False l r flds(1,3) bytes1(1,2) by simp
    qed
    show ?thesis
    proof (cases "pk_limit pk > 0 \<and> pk_used p2 + block_bytes pk > pk_limit pk")
      case True
      then have "(bid, pk') = (- 1, set_entry pt l ?x (- 1) p2)" unfolding a [symmetric] eq by simp
      then show ?thesis using alloc_rollback [OF ok tab l r xr x ok2 s] True by simp
    next
      case room: False
      then have "(bid, pk') = (pk_next_id pk,
          insert_block l (pk_next_id pk) ?b p2\<lparr>pk_used := pk_used p2 + block_bytes p2\<rparr>)"
        unfolding a [symmetric] eq flds(2) by (simp only: room if_False)
      then show ?thesis
        using alloc_commit [OF ok tab l r xr x ok2 s next0, of ?b] room flds l pos next0 by simp
    qed
  qed
qed

end

section \<open>Writing tokens\<close>

text \<open>Copying whole rows into a block, as many as fit.\<close>

lemma memcpy_rows:
  assumes "length dst = n * d" and "m * d \<le> length src" and "q + m \<le> n"
  shows "\<exists>dst'. memcpy dst (q * d) src 0 (m * d) = Some dst' \<and> length dst' = n * d \<and>
    (\<forall>r<n. row d dst' r = (if q \<le> r \<and> r < q + m then row d src (r - q) else row d dst r))"
proof -
  have qm: "q * d + m * d \<le> n * d" using assms(3) by (metis add_mult_distrib mult_le_mono1)
  then obtain dst' where d': "memcpy dst (q * d) src 0 (m * d) = Some dst'"
    using assms by (simp add: memcpy_def)
  have len: "length dst' = n * d" using memcpy_length [OF d'] assms(1) by simp
  have "row d dst' r = (if q \<le> r \<and> r < q + m then row d src (r - q) else row d dst r)" if r: "r < n" for r
  proof (rule nth_equalityI)
    have b: "(r - q) * d + d \<le> m * d" if "q \<le> r" "r < q + m" using row_bound [of "r - q" m d] that by linarith
    show "length (row d dst' r) = length (if q \<le> r \<and> r < q + m then row d src (r - q) else row d dst r)"
      using row_length [OF len r] row_length [OF assms(1) r] b assms(2) by (auto simp: row_def)
    fix i assume "i < length (row d dst' r)"
    then have i: "i < d" using row_length [OF len r] by simp
    have lt: "r * d + i < length dst" using row_bound [OF r, of d] i assms(1) by simp
    have at: "dst' ! (r * d + i) = (if q * d \<le> r * d + i \<and> r * d + i < q * d + m * d
        then src ! (r * d + i - q * d) else dst ! (r * d + i))"
      using memcpy_nth [OF d' lt] by simp
    show "row d dst' r ! i = (if q \<le> r \<and> r < q + m then row d src (r - q) else row d dst r) ! i"
    proof (cases "q \<le> r \<and> r < q + m")
      case True
      then obtain e where e: "r = q + e" by (metis le_Suc_ex)
      have "e < m" using True e by simp
      from row_bound [OF this, of d] i have ed: "e * d + i < m * d" by simp
      have rd: "r * d = q * d + e * d" unfolding e by (rule add_mult_distrib)
      have "dst' ! (r * d + i) = src ! (e * d + i)" using at ed unfolding rd by simp
      moreover have "row d src e ! i = src ! (e * d + i)" using ed assms(2) i by (simp add: row_def)
      moreover have "r - q = e" using e by simp
      ultimately show ?thesis using True by (simp add: row_nth [OF len r i])
    next
      case False
      have "\<not> (q * d \<le> r * d + i \<and> r * d + i < q * d + m * d)"
      proof (cases "r < q")
        case True
        then show ?thesis using row_bound [OF True, of d] i by simp
      next
        case rq: False
        then have "q + m \<le> r" using False by simp
        then have "(q + m) * d \<le> r * d" by (rule mult_le_mono1)
        then show ?thesis by (simp add: add_mult_distrib)
      qed
      then have "dst' ! (r * d + i) = dst ! (r * d + i)" using at by (simp only: if_False)
      then show ?thesis unfolding if_not_P [OF False] by (simp only: row_nth [OF len r i] row_nth [OF assms(1) r i])
    qed
  qed
  with d' len show ?thesis by blast
qed

lemma layer_resident_pos: "layer_resident (ls\<lparr>pl_pos := p\<rparr>) = layer_resident ls"
  by (simp add: layer_resident_def)

lemma set_pos_spec:
  fixes pk :: "'r paged_kv" and p :: int
  assumes ok: "paged_ok pt pk" and l: "valid_layer l pk"
  defines "pk' \<equiv> set_layer l ((layer_at l pk)\<lparr>pl_pos := p\<rparr>) pk"
  shows "paged_ok pt pk'" and "paged_contents pk' l' i' = paged_contents pk l' i'"
    and "valid_layer l' pk \<Longrightarrow> layer_at l' pk' = (layer_at l' pk)\<lparr>pl_pos := (if l' = l then p else pl_pos (layer_at l' pk))\<rparr>"
proof -
  have len: "nat l < length (pk_layers pk)" using ok l valid_layer_bound by (auto simp: paged_ok_def)
  have at: "layer_at l' pk' = (if nat l' = nat l then (layer_at l pk)\<lparr>pl_pos := p\<rparr> else layer_at l' pk)" for l'
    unfolding pk'_def by (rule layer_at_set_layer [OF len])
  have find: "find_block l' i' pk' = find_block l' i' pk" for l' i'
    by (simp add: find_block_def at) (simp add: layer_at_def)
  have blocks: "map fst (pl_blocks (layer_at l' pk')) = map fst (pl_blocks (layer_at l' pk))" for l'
    by (simp add: at) (simp add: layer_at_def)
  have v: "valid_layer l' pk' = valid_layer l' pk" for l' by (simp add: valid_layer_def pk'_def)
  have flds: "pk_heads pk' = pk_heads pk" "pk_dim pk' = pk_dim pk" "pk_block_size pk' = pk_block_size pk"
    "pk_limit pk' = pk_limit pk" "pk_path pk' = pk_path pk" "pk_next_id pk' = pk_next_id pk" "pk_used pk' = pk_used pk"
    "pk_disk pk' = pk_disk pk" "length (pk_layers pk') = length (pk_layers pk)" "pk_num_layers pk' = pk_num_layers pk"
    by (simp_all add: pk'_def)
  have per: "per_block pk' = per_block pk" "block_bytes pk' = block_bytes pk"
    by (simp_all add: per_block_def block_bytes_def flds)
  have path: "block_disk_path pt l' i' pk' = block_disk_path pt l' i' pk" for l' i'
    by (simp add: block_disk_path_def flds)
  have "resident_blocks pk' = resident_blocks pk"
    using sum_list_update_nat [OF len, of layer_resident "(layer_at l pk)\<lparr>pl_pos := p\<rparr>"]
    by (simp add: resident_blocks_def pk'_def set_layer_def layer_resident_pos layer_at_def)
  then have "paged_ok pt pk' = paged_ok pt pk"
    unfolding paged_ok_def dims_ok_def blocks_ok_def memory_ok_def block_ok_def
    by (simp only: v find blocks flds per path)
  with ok show "paged_ok pt pk'" by simp
  have "block_data pk' = block_data pk" by (rule block_data_cong) (simp_all add: flds)
  then show "paged_contents pk' l' i' = paged_contents pk l' i'" by (simp add: paged_contents_def v find)
  show "layer_at l' pk' = (layer_at l' pk)\<lparr>pl_pos := (if l' = l then p else pl_pos (layer_at l' pk))\<rparr>" if "valid_layer l' pk"
    using valid_layer_nat [OF l that] by (simp add: at)
qed

text \<open>The arithmetic of \<open>append\<close> for \<open>n\<close> whole tokens: \<open>m\<close> rows fit after row \<open>q\<close>.\<close>

lemma append_sizes:
  fixes pk :: "'r paged_kv" and pos :: int and n :: nat
  assumes "dims_ok pk" and "0 \<le> pos" and "0 < n"
  defines "q \<equiv> nat (pos mod pk_block_size pk)" and "bs \<equiv> nat (pk_block_size pk)"
    and "ts \<equiv> token_size pk"
  defines "m \<equiv> min n (bs - q)"
  shows "q < bs" and "0 < m" and "0 < ts" and "q + m \<le> bs"
    and "pos mod pk_block_size pk * pk_heads pk * pk_dim pk = int (q * ts)"
    and "per_block pk = int (bs * ts)"
    and "min (int (n * ts)) (per_block pk - int (q * ts)) = int (m * ts)"
    and "q * ts + m * ts \<le> bs * ts"
proof -
  have d: "0 < pk_heads pk" "0 < pk_dim pk" "0 < pk_block_size pk" using assms(1) by (simp_all add: dims_ok_def)
  show q: "q < bs" using d by (simp add: q_def bs_def)
  then show "0 < m" using assms(3) by (simp add: m_def)
  show ts: "0 < ts" using d by (simp add: ts_def token_size_def)
  show qm: "q + m \<le> bs" using q by (simp add: m_def)
  have its: "int ts = pk_heads pk * pk_dim pk" using d by (simp add: ts_def token_size_def)
  have iq: "int q = pos mod pk_block_size pk" using d by (simp add: q_def)
  have ibs: "int bs = pk_block_size pk" using d by (simp add: bs_def)
  show "pos mod pk_block_size pk * pk_heads pk * pk_dim pk = int (q * ts)"
    by (simp add: its iq mult.assoc)
  show per: "per_block pk = int (bs * ts)" by (simp add: per_block_def its ibs)
  have "int (bs * ts) - int (q * ts) = int ((bs - q) * ts)" using q by (simp add: of_nat_diff left_diff_distrib)
  then have "min (int (n * ts)) (per_block pk - int (q * ts)) = int (min (n * ts) ((bs - q) * ts))"
    unfolding per of_nat_min by (simp only:)
  also have "min (n * ts) ((bs - q) * ts) = m * ts" using ts by (cases "n \<le> bs - q") (simp_all add: m_def)
  finally show "min (int (n * ts)) (per_block pk - int (q * ts)) = int (m * ts)" .
  show "q * ts + m * ts \<le> bs * ts" using qm by (metis add_mult_distrib mult_le_mono1)
qed

text \<open>A block with the rows of new tokens in place.\<close>

definition rows_written :: "nat \<Rightarrow> nat \<Rightarrow> nat \<Rightarrow> nat \<Rightarrow> u32 list \<Rightarrow> u32 list \<Rightarrow> u32 list \<Rightarrow> bool" where
  "rows_written bs ts q m src old new \<longleftrightarrow> length new = bs * ts \<and>
     (\<forall>r<bs. row ts new r = (if q \<le> r \<and> r < q + m then row ts src (r - q) else row ts old r))"

lemma write_block_spec:
  assumes ok: "paged_ok pt pk" and l: "valid_layer l pk" and f: "find_block l i pk = Some b"
    and mem: "\<not> pb_on_disk b" and pos: "0 \<le> pos" and n: "0 < n"
    and k: "length k = n * token_size pk" and v: "length v = n * token_size pk"
  defines "q \<equiv> nat (pos mod pk_block_size pk)" and "bs \<equiv> nat (pk_block_size pk)"
  defines "m \<equiv> min n (bs - q)"
  shows "\<exists>pk' kd vd. write_block l i pos k v b pk = Some pk' \<and> paged_ok pt pk' \<and>
    rows_written bs (token_size pk) q m k (pb_k b) kd \<and> rows_written bs (token_size pk) q m v (pb_v b) vd \<and>
    (\<forall>l' i'. paged_contents pk' l' i' = (if l' = l \<and> i' = i then Some (kd, vd) else paged_contents pk l' i')) \<and>
    pk_num_layers pk' = pk_num_layers pk \<and> pk_heads pk' = pk_heads pk \<and> pk_dim pk' = pk_dim pk \<and>
    pk_block_size pk' = pk_block_size pk \<and> pk_limit pk' = pk_limit pk \<and>
    (\<forall>l'. valid_layer l' pk \<longrightarrow> pl_root (layer_at l' pk') = pl_root (layer_at l' pk) \<and>
       map fst (pl_blocks (layer_at l' pk')) = map fst (pl_blocks (layer_at l' pk)) \<and>
       pl_pos (layer_at l' pk') = (if l' = l then max (pl_pos (layer_at l' pk)) (pos + int n) else pl_pos (layer_at l' pk)))"
proof -
  let ?ts = "token_size pk"
  have dims: "dims_ok pk" using ok by (simp add: paged_ok_def)
  note sz = append_sizes [OF dims pos n, folded q_def bs_def, folded m_def]
  have sizes: "int (length (pb_k b)) = per_block pk" "int (length (pb_v b)) = per_block pk"
    using block_okI [OF ok l f] mem by (simp_all add: block_ok_def)
  then have lens: "length (pb_k b) = bs * ?ts" "length (pb_v b) = bs * ?ts" unfolding sz(6) by (simp_all only: of_nat_eq_iff)
  have src: "m * ?ts \<le> length k" "m * ?ts \<le> length v" using k v by (simp_all add: m_def)
  obtain kd where kd: "memcpy (pb_k b) (q * ?ts) k 0 (m * ?ts) = Some kd" "rows_written bs ?ts q m k (pb_k b) kd"
    using memcpy_rows [OF lens(1) src(1) sz(4)] unfolding rows_written_def by blast
  obtain vd where vd: "memcpy (pb_v b) (q * ?ts) v 0 (m * ?ts) = Some vd" "rows_written bs ?ts q m v (pb_v b) vd"
    using memcpy_rows [OF lens(2) src(2) sz(4)] unfolding rows_written_def by blast
  let ?p1 = "pk\<lparr>pk_access := pk_access pk + 1\<rparr>"
  let ?b1 = "b\<lparr>pb_access := pk_access pk + 1, pb_dirty := True\<rparr>"
  let ?p2 = "put_block l i ?b1 ?p1"
  let ?b2 = "?b1\<lparr>pb_k := kd, pb_v := vd\<rparr>"
  let ?p3 = "put_block l i ?b2 ?p2"
  have ok1: "paged_ok pt ?p1" using ok by (simp add: paged_ok_aux)
  have l1: "valid_layer l ?p1" "valid_layer l ?p2" "valid_layer l ?p3" using l by (simp_all add: valid_layer_def)
  have f1: "find_block l i ?p1 = Some b" using f by (simp add: find_block_def layer_at_def)
  have per: "per_block ?p1 = per_block pk" "per_block ?p2 = per_block pk" "per_block ?p3 = per_block pk"
    by (simp_all add: per_block_def)
  have len1: "nat l < length (pk_layers ?p1)" using valid_layer_bound [OF dims l] by simp
  have f2: "find_block l i ?p2 = Some ?b1" using find_put_block [OF len1, of l i i ?b1] f1 by simp
  have s1: "int (length (pb_k ?b1)) = per_block ?p1" "int (length (pb_v ?b1)) = per_block ?p1" using sizes per by simp_all
  have m1: "\<not> pb_on_disk ?b1" "\<not> pb_on_disk ?b2" using mem by simp_all
  have ok2: "paged_ok pt ?p2" by (rule put_resident(1) [OF ok1 l1(1) f1 mem m1(1) s1])
  have s2: "int (length (pb_k ?b2)) = per_block ?p2" "int (length (pb_v ?b2)) = per_block ?p2"
    using kd(2) vd(2) per sz(6) by (simp_all add: rows_written_def)
  have ok3: "paged_ok pt ?p3" by (rule put_resident(1) [OF ok2 l1(2) f2 m1 s2])
  have c1: "paged_contents ?p1 l' i' = paged_contents pk l' i'" for l' i' by (rule contents_cong) simp_all
  have data: "paged_contents pk l i = Some (pb_k b, pb_v b)" using l f mem by (simp add: paged_contents_def block_data_def)
  have c3: "paged_contents ?p3 l' i' = (if l' = l \<and> i' = i then Some (kd, vd) else paged_contents pk l' i')" for l' i'
    using put_resident(2) [OF ok2 l1(2) f2 m1 s2] put_resident(2) [OF ok1 l1(1) f1 mem m1(1) s1] l1 data
    by (simp add: c1 del: put_block_fields)
  have layer3: "pl_root (layer_at l' ?p3) = pl_root (layer_at l' pk)" "pl_pos (layer_at l' ?p3) = pl_pos (layer_at l' pk)"
    "map fst (pl_blocks (layer_at l' ?p3)) = map fst (pl_blocks (layer_at l' pk))" for l'
    using len1 by (simp_all add: put_block_def layer_at_set_layer map_fst_put)
      (simp_all add: layer_at_def case_prod_beta)
  have d: "0 < pk_heads pk" "0 < pk_dim pk" "0 < pk_block_size pk" using dims by (simp_all add: dims_ok_def)
  have hd: "pk_heads pk * pk_dim pk = int ?ts" using d by (simp add: token_size_def)
  define p4 where "p4 = (if pos + int n > pl_pos (layer_at l pk)
    then set_layer l ((layer_at l ?p3)\<lparr>pl_pos := pos + int n\<rparr>) ?p3 else ?p3)"
  have adv: "advance_pos l pos (int (length k)) ?p3 = p4"
  proof -
    have "int (length k) div (pk_heads pk * pk_dim pk) = int n" unfolding hd k using sz(3) by simp
    then show ?thesis using d n by (simp add: advance_pos_def p4_def layer3 Let_def)
  qed
  have "write_block l i pos k v b pk = Some p4"
  proof -
    have guard: "\<not> (pos mod pk_block_size pk < 0 \<or> pos mod pk_block_size pk \<ge> pk_block_size pk)"
      using pos_mod_sign [OF d(3), of pos] pos_mod_bound [OF d(3), of pos] by linarith
    have flds: "pk_access ?p1 = pk_access pk + 1" "pb_k ?b1 = pb_k b" "pb_v ?b1 = pb_v b"
      "pk_block_size ?p2 = pk_block_size pk" "pk_heads ?p2 = pk_heads pk" "pk_dim ?p2 = pk_dim pk" by simp_all
    have "int (q * ?ts) < int (bs * ?ts)" using sz(1,3) by simp
    then have wo: "\<not> (int (q * ?ts) < 0 \<or> int (q * ?ts) \<ge> per_block pk)"
      unfolding sz(6) using of_nat_0_le_iff [of "q * ?ts", where 'a = int] by linarith
    have copy: "min (int (length k)) (per_block pk - int (q * ?ts)) = int (m * ?ts)"
      "min (int (length v)) (per_block pk - int (q * ?ts)) = int (m * ?ts)" unfolding k v by (rule sz(7))+
    have gate: "\<not> int (q * ?ts) + int (m * ?ts) > int (length (pb_k b))"
      "\<not> int (q * ?ts) + int (m * ?ts) > int (length (pb_v b))" unfolding lens using sz(8) by linarith+
    have ne: "\<not> (int (length k) \<le> 0 \<or> int (length v) \<le> 0)"
    proof -
      have "0 < n * ?ts" using n sz(3) by simp
      then show ?thesis unfolding k v by linarith
    qed
    have pos_copy: "int (m * ?ts) > 0" using sz(2,3) by simp
    have "write_block l i pos k v b pk = Some (advance_pos l pos (int (length k)) ?p3)"
      unfolding write_block_def Let_def
      by (simp only: flds per sz(5) wo copy gate ne pos_copy guard nat_int kd(1) vd(1) if_True if_False bind.bind_lunit)
    with adv show ?thesis by simp
  qed
  moreover have "paged_ok pt p4"
    using ok3 set_pos_spec(1) [OF ok3 l1(3)] by (simp add: p4_def)
  moreover have "paged_contents p4 l' i' = (if l' = l \<and> i' = i then Some (kd, vd) else paged_contents pk l' i')" for l' i'
    using c3 set_pos_spec(2) [OF ok3 l1(3)] by (simp add: p4_def)
  moreover have "pl_root (layer_at l' p4) = pl_root (layer_at l' pk) \<and>
       map fst (pl_blocks (layer_at l' p4)) = map fst (pl_blocks (layer_at l' pk)) \<and>
       pl_pos (layer_at l' p4) = (if l' = l then max (pl_pos (layer_at l' pk)) (pos + int n) else pl_pos (layer_at l' pk))"
    if "valid_layer l' pk" for l'
    using set_pos_spec(3) [OF ok3 l1(3), of l'] that layer3 [of l'] by (auto simp: p4_def valid_layer_def)
  moreover have "pk_num_layers p4 = pk_num_layers pk" "pk_heads p4 = pk_heads pk" "pk_dim p4 = pk_dim pk"
    "pk_block_size p4 = pk_block_size pk" "pk_limit p4 = pk_limit pk" by (simp_all add: p4_def)
  ultimately show ?thesis using kd(2) vd(2) by blast
qed

text \<open>The effect of an append that stores: the tokens that fit in the block of \<open>pos\<close>.\<close>

definition stored_tokens ::
  "'r page_table \<Rightarrow> int \<Rightarrow> int \<Rightarrow> nat \<Rightarrow> u32 list \<Rightarrow> u32 list \<Rightarrow> 'r paged_kv \<Rightarrow> 'r paged_kv \<Rightarrow> bool" where
  "stored_tokens pt l pos n k v pk pk' \<longleftrightarrow> valid_layer l pk \<and> 0 \<le> pos \<and>
     pk_num_layers pk' = pk_num_layers pk \<and> pk_heads pk' = pk_heads pk \<and> pk_dim pk' = pk_dim pk \<and>
     pk_block_size pk' = pk_block_size pk \<and> pk_limit pk' = pk_limit pk \<and>
     (\<forall>l' p. valid_layer l' pk \<longrightarrow> 0 \<le> p \<longrightarrow> token pt pk' l' p =
        (if l' = l \<and> pos \<le> p \<and> p < pos + int n \<and> p div pk_block_size pk = pos div pk_block_size pk
         then (row (token_size pk) k (nat (p - pos)), row (token_size pk) v (nat (p - pos)))
         else token pt pk l' p)) \<and>
     (\<forall>l'. valid_layer l' pk \<longrightarrow> pl_pos (layer_at l' pk') =
        (if l' = l then max (pl_pos (layer_at l' pk)) (pos + int n) else pl_pos (layer_at l' pk)))"

lemma stored_after_same:
  assumes "same_tokens pt a b" and "stored_tokens pt l pos n k v b c"
  shows "stored_tokens pt l pos n k v a c"
proof -
  have "token_size b = token_size a" using assms(1) by (simp add: same_tokens_def token_size_def)
  then show ?thesis using assms unfolding stored_tokens_def same_tokens_def
    by (simp add: valid_layer_def)
qed

lemma same_block_rows:
  assumes "0 < (bs :: int)" and "0 \<le> pos" and "0 \<le> p" and "p div bs = pos div bs"
  shows "pos \<le> p \<and> p < pos + int n \<longleftrightarrow>
    nat (pos mod bs) \<le> nat (p mod bs) \<and> nat (p mod bs) < nat (pos mod bs) + min n (nat bs - nat (pos mod bs))"
    and "pos \<le> p \<Longrightarrow> nat (p - pos) = nat (p mod bs) - nat (pos mod bs)"
proof -
  have e: "p - pos = p mod bs - pos mod bs" using assms(4) by (metis add_diff_cancel_left mult_div_mod_eq)
  have b: "0 \<le> p mod bs" "p mod bs < bs" "0 \<le> pos mod bs" "pos mod bs < bs" using assms(1) by simp_all
  define P Q B where "P = nat (p mod bs)" and "Q = nat (pos mod bs)" and "B = nat bs"
  have i: "int P = p mod bs" "int Q = pos mod bs" "int B = bs" "P < B" "Q < B"
    using b assms(1) by (simp_all add: P_def Q_def B_def)
  have "pos \<le> p \<and> p < pos + int n \<longleftrightarrow> Q \<le> P \<and> P < Q + n" using e i(1,2) by linarith
  also have "\<dots> \<longleftrightarrow> Q \<le> P \<and> P < Q + min n (B - Q)" using i(4,5) by (auto simp: min_def)
  finally show "pos \<le> p \<and> p < pos + int n \<longleftrightarrow>
    nat (pos mod bs) \<le> nat (p mod bs) \<and> nat (p mod bs) < nat (pos mod bs) + min n (nat bs - nat (pos mod bs))"
    unfolding P_def Q_def B_def .
  show "nat (p - pos) = nat (p mod bs) - nat (pos mod bs)" if "pos \<le> p" using e b by (simp add: nat_diff_distrib)
qed

context page_table_laws
begin

lemma resolved_root:
  assumes "tables_ok pt pk" and "0 \<le> resolve_block_id pt l p pk"
  obtains r where "valid_layer l pk" "0 \<le> p" "0 < pk_block_size pk" "pl_root (layer_at l pk) = Some r"
    "pt_in_range pt (p div pk_block_size pk)" "resolve_block_id pt l p pk = pt_find pt r (p div pk_block_size pk)"
    "root_ok pt (fst ` set (pl_blocks (layer_at l pk))) r"
proof -
  have l: "valid_layer l pk" using assms(2) by (simp add: resolve_block_id_def split: if_splits)
  then obtain r where r: "pl_root (layer_at l pk) = Some r" "root_ok pt (fst ` set (pl_blocks (layer_at l pk))) r"
    using assms(1) by (auto simp: tables_ok_def)
  show thesis using that [of r] resolve_root [OF l r(1), of pt p] assms(2) l r by (auto split: if_splits)
qed

lemma resolve_inj:
  assumes "tables_ok pt pk" and "0 \<le> resolve_block_id pt l p pk" and "resolve_block_id pt l q pk = resolve_block_id pt l p pk"
  shows "q div pk_block_size pk = p div pk_block_size pk"
proof -
  obtain r where r: "pl_root (layer_at l pk) = Some r" "pt_in_range pt (p div pk_block_size pk)"
    "resolve_block_id pt l p pk = pt_find pt r (p div pk_block_size pk)"
    "root_ok pt (fst ` set (pl_blocks (layer_at l pk))) r"
    by (rule resolved_root [OF assms(1,2)])
  have "0 \<le> resolve_block_id pt l q pk" using assms(2,3) by simp
  from resolved_root [OF assms(1) this] obtain r' where r': "pl_root (layer_at l pk) = Some r'"
    "pt_in_range pt (q div pk_block_size pk)" "resolve_block_id pt l q pk = pt_find pt r' (q div pk_block_size pk)"
    by blast
  have "r' = r" using r(1) r'(1) by simp
  then show ?thesis using r r' assms(2,3) unfolding root_ok_def by metis
qed

lemma write_stored:
  assumes ok: "paged_ok pt pk" and tab: "tables_ok pt pk" and i: "resolve_block_id pt l pos pk = i" "0 \<le> i"
    and f: "find_block l i pk = Some b" and mem: "\<not> pb_on_disk b" and n: "0 < n"
    and k: "length k = n * token_size pk" and v: "length v = n * token_size pk"
  shows "\<exists>pk'. write_block l i pos k v b pk = Some pk' \<and> paged_ok pt pk' \<and> tables_ok pt pk' \<and>
    stored_tokens pt l pos n k v pk pk'"
proof -
  obtain l: "valid_layer l pk" and pos: "0 \<le> pos" and bs: "0 < pk_block_size pk"
    using resolved_root [OF tab, of l pos] i by auto
  let ?q = "nat (pos mod pk_block_size pk)" and ?bs = "nat (pk_block_size pk)" and ?ts = "token_size pk"
  let ?m = "min n (?bs - ?q)"
  obtain pk' kd vd where w: "write_block l i pos k v b pk = Some pk'" "paged_ok pt pk'"
    "rows_written ?bs ?ts ?q ?m k (pb_k b) kd" "rows_written ?bs ?ts ?q ?m v (pb_v b) vd"
    "\<And>l' i'. paged_contents pk' l' i' = (if l' = l \<and> i' = i then Some (kd, vd) else paged_contents pk l' i')"
    and st: "pk_num_layers pk' = pk_num_layers pk" "pk_heads pk' = pk_heads pk" "pk_dim pk' = pk_dim pk"
    "pk_block_size pk' = pk_block_size pk" "pk_limit pk' = pk_limit pk"
    and la: "\<And>l'. valid_layer l' pk \<Longrightarrow> pl_root (layer_at l' pk') = pl_root (layer_at l' pk) \<and>
       map fst (pl_blocks (layer_at l' pk')) = map fst (pl_blocks (layer_at l' pk)) \<and>
       pl_pos (layer_at l' pk') = (if l' = l then max (pl_pos (layer_at l' pk)) (pos + int n) else pl_pos (layer_at l' pk))"
    using write_block_spec [OF ok l f mem pos n k v] by blast
  have v': "valid_layer l' pk' = valid_layer l' pk" for l' using st by (simp add: valid_layer_def)
  have tab': "tables_ok pt pk'"
    using tab la unfolding tables_ok_def v' by (metis list.set_map)
  have res: "resolve_block_id pt l' p pk' = resolve_block_id pt l' p pk" if "valid_layer l' pk" for l' p
    using la [OF that] st by (simp add: resolve_block_id_def v' Let_def)
  have z: "zero_token pk' = zero_token pk" "token_size pk' = ?ts" using st by (simp_all add: zero_token_def token_size_def)
  have data: "paged_contents pk l i = Some (pb_k b, pb_v b)" using l f mem by (simp add: paged_contents_def block_data_def)
  have tok: "token pt pk' l' p = (if l' = l \<and> pos \<le> p \<and> p < pos + int n \<and> p div pk_block_size pk = pos div pk_block_size pk
         then (row ?ts k (nat (p - pos)), row ?ts v (nat (p - pos))) else token pt pk l' p)"
    if l': "valid_layer l' pk" and p: "0 \<le> p" for l' p
  proof (cases "l' = l \<and> resolve_block_id pt l p pk = i")
    case True
    then have blk: "p div pk_block_size pk = pos div pk_block_size pk" using resolve_inj [OF tab, of l pos p] i by simp
    note rows = same_block_rows [OF bs pos p blk]
    have r: "nat (p mod pk_block_size pk) < ?bs" using bs by simp
    have "token pt pk' l' p = (row ?ts kd (nat (p mod pk_block_size pk)), row ?ts vd (nat (p mod pk_block_size pk)))"
      using True res [OF l', of p] i w(5) st z by (simp add: token_def Let_def)
    moreover have "token pt pk l' p = (row ?ts (pb_k b) (nat (p mod pk_block_size pk)), row ?ts (pb_v b) (nat (p mod pk_block_size pk)))"
      using True i data by (simp add: token_def Let_def)
    moreover have "row ?ts kd (nat (p mod pk_block_size pk)) =
        (if pos \<le> p \<and> p < pos + int n then row ?ts k (nat (p mod pk_block_size pk) - ?q)
         else row ?ts (pb_k b) (nat (p mod pk_block_size pk)))"
      using w(3) r unfolding rows(1) rows_written_def by blast
    moreover have "row ?ts vd (nat (p mod pk_block_size pk)) =
        (if pos \<le> p \<and> p < pos + int n then row ?ts v (nat (p mod pk_block_size pk) - ?q)
         else row ?ts (pb_v b) (nat (p mod pk_block_size pk)))"
      using w(4) r unfolding rows(1) rows_written_def by blast
    ultimately show ?thesis using rows(2) True blk by (cases "pos \<le> p"; cases "p < pos + int n") simp_all
  next
    case False
    have c: "\<not> (l' = l \<and> pos \<le> p \<and> p < pos + int n \<and> p div pk_block_size pk = pos div pk_block_size pk)"
    proof
      assume a: "l' = l \<and> pos \<le> p \<and> p < pos + int n \<and> p div pk_block_size pk = pos div pk_block_size pk"
      then have "resolve_block_id pt l p pk = resolve_block_id pt l pos pk" using pos by (simp add: resolve_block_id_def)
      with False a i show False by simp
    qed
    show ?thesis unfolding if_not_P [OF c]
      using False res [OF l', of p] w(5) st z by (auto simp: token_def Let_def split: option.split)
  qed
  show ?thesis using w(1,2) tab' tok la l pos st unfolding stored_tokens_def by blast
qed

lemma append_spec:
  assumes ok: "paged_ok pt pk" and tab: "tables_ok pt pk" and n: "0 < n"
    and k: "length k = n * token_size pk" and v: "length v = n * token_size pk"
  shows "\<exists>pk'. paged_append pt io patience l pos k v pk = Some pk' \<and> paged_ok pt pk' \<and> tables_ok pt pk' \<and>
    (same_tokens pt pk pk' \<or> stored_tokens pt l pos n k v pk pk')"
proof (cases "valid_layer l pk \<and> 0 \<le> pos")
  case False
  then have "paged_append pt io patience l pos k v pk = Some pk" by (auto simp: paged_append_def)
  then show ?thesis using ok tab by simp
next
  case lp: True
  obtain i p1 where ip: "(if resolve_block_id pt l pos pk < 0 then alloc_block_id pt io l pos pk
      else (resolve_block_id pt l pos pk, pk)) = (i, p1)" by (metis surj_pair)
  have 1: "paged_ok pt p1 \<and> tables_ok pt p1 \<and> same_tokens pt pk p1 \<and> (0 \<le> i \<longrightarrow> resolve_block_id pt l pos p1 = i)"
  proof (cases "resolve_block_id pt l pos pk < 0")
    case True
    then show ?thesis using alloc_spec [OF ok tab True, of io i p1] ip by simp
  next
    case False
    then show ?thesis using ip ok tab by auto
  qed
  have step: "paged_append pt io patience l pos k v pk =
    (if i < 0 then Some p1
     else case find_block l i p1 of
           None \<Rightarrow> Some p1
         | Some b0 \<Rightarrow>
            (let (ready, pk) = (if pb_on_disk b0 then ensure_resident pt io patience l i p1 else (True, p1)) in
             if \<not> ready then Some pk
             else case find_block l i pk of
               None \<Rightarrow> Some pk
             | Some b \<Rightarrow>
                if pb_on_disk b then Some pk
                else if \<not> block_resident_ok (pb_k b) (pb_v b) (per_block pk) then Some pk
                else write_block l i pos k v b pk))"
    using lp ip by (simp add: paged_append_def Let_def)
  have done1: ?thesis if "paged_append pt io patience l pos k v pk = Some p1" using that 1 by blast
  show ?thesis
  proof (cases "i < 0 \<or> find_block l i p1 = None")
    case True
    then show ?thesis using done1 step by (auto split: option.splits)
  next
    case False
    then obtain b0 where b0: "find_block l i p1 = Some b0" and i0: "0 \<le> i" by auto
    obtain ready p2 where rp: "(if pb_on_disk b0 then ensure_resident pt io patience l i p1 else (True, p1)) = (ready, p2)"
      by (metis surj_pair)
    have "keeps pt p1 p2" using rp keeps_ensure_resident [of pt p1 io patience l i] by (auto split: if_splits)
    then have ok2: "paged_ok pt p2" and s2: "same_cache p1 p2" using 1 by (simp_all add: keeps_def)
    have tab2: "tables_ok pt p2" using tables_ok_same_cache [OF s2] 1 by blast
    have t2: "same_tokens pt pk p2" using same_tokens_trans same_tokens_same_cache [OF s2] 1 by blast
    have r2: "resolve_block_id pt l pos p2 = i" using resolve_same_cache [OF s2] 1 i0 by simp
    have ts: "token_size p2 = token_size pk" using t2 by (simp add: same_tokens_def token_size_def)
    have done2: ?thesis if "paged_append pt io patience l pos k v pk = Some p2" using that ok2 tab2 t2 by blast
    show ?thesis
    proof (cases "ready \<and> (\<exists>b. find_block l i p2 = Some b \<and> \<not> pb_on_disk b \<and>
        block_resident_ok (pb_k b) (pb_v b) (per_block p2))")
      case True
      then obtain b where b: "find_block l i p2 = Some b" "\<not> pb_on_disk b" "ready"
        "block_resident_ok (pb_k b) (pb_v b) (per_block p2)" by blast
      obtain p3 where p3: "write_block l i pos k v b p2 = Some p3" "paged_ok pt p3" "tables_ok pt p3"
        "stored_tokens pt l pos n k v p2 p3"
        using write_stored [OF ok2 tab2 r2 i0 b(1,2) n] k v ts by auto
      have "paged_append pt io patience l pos k v pk = Some p3"
        using step b0 i0 rp b p3(1) by simp
      then show ?thesis using p3 stored_after_same [OF t2 p3(4)] by blast
    next
      case False
      then have "paged_append pt io patience l pos k v pk = Some p2"
        using step b0 i0 rp by (auto split: option.splits)
      then show ?thesis by (rule done2)
    qed
  qed
qed

end

end
