(* ===== verification/Paged_Read.thy ===== *)
theory Paged_Read
  imports Paged_Tokens
begin

text \<open>
  Reading the paged cache back, and the end-to-end statements about \<open>append\<close> and
  \<open>get_range\<close> on the two-level and the three-level tables.
\<close>

section \<open>One position\<close>

definition reliable :: "io \<Rightarrow> 'r paged_kv \<Rightarrow> bool" where
  "reliable io pk \<longleftrightarrow> pk_limit pk = 0 \<and> (\<forall>n stage. io n stage)"

text \<open>Without a memory limit and without failing file operations a load succeeds.\<close>

lemma load_reliable:
  assumes ok: "paged_ok pt pk" and rel: "reliable io pk" and l: "valid_layer l pk" and f: "find_block l i pk = Some b"
  shows "\<exists>b'. find_block l i (load_block pt io l i pk) = Some b' \<and> \<not> pb_on_disk b'"
proof (cases "pb_on_disk b")
  case True
  have dims: "dims_ok pk" using ok by (simp add: paged_ok_def)
  then have d: "0 < pk_heads pk" "0 < pk_dim pk" "0 < pk_block_size pk" "0 < per_block pk" "per_block pk < 2 ^ 63"
    using per_block_pos [OF dims] by (simp_all add: dims_ok_def)
  have b: "block_ok pt pk l i b" by (rule block_okI [OF ok l f])
  then obtain k v where kv: "int (length k) = per_block pk" "int (length v) = per_block pk"
    "pk_disk pk (pb_file b) = Some (encode_block k v)" using True by (auto simp: block_ok_def file_holds_def)
  have ne: "pb_file b \<noteq> []" using b True block_disk_path_nonempty by (auto simp: block_ok_def)
  have dec: "decode_block (nat (per_block pk)) (encode_block k v) = Some (k, v)"
    using decode_encode_block [OF kv(1,2) d(5)] .
  have io: "io n s" and lim: "pk_limit pk = 0" for n s using rel by (simp_all add: reliable_def)
  have len: "nat l < length (pk_layers pk)" by (rule valid_layer_bound [OF dims l])
  let ?b = "b\<lparr>pb_k := k, pb_v := v, pb_on_disk := False, pb_file := []\<rparr>"
  let ?pk = "pk\<lparr>pk_ops := pk_ops pk + 1, pk_used := pk_used pk + block_bytes pk, pk_disk := (pk_disk pk)(pb_file b := None)\<rparr>"
  have "load_block pt io l i pk = put_block l i ?b ?pk"
    unfolding load_block_def Let_def using l f True ne d io lim kv(3) dec by simp
  moreover have "find_block l i ?pk = Some b" using f by (simp add: find_block_def layer_at_def)
  then have "find_block l i (put_block l i ?b ?pk) = Some ?b"
    using find_put_block [of l ?pk l i i ?b] len by simp
  ultimately show ?thesis by auto
next
  case False
  then show ?thesis using f l by (simp add: load_block_def)
qed

text \<open>The state after a token was read: the same tokens, one access later.\<close>

lemma touch_block:
  fixes a :: int
  assumes ok: "paged_ok pt pk" and tab: "tables_ok pt pk" and l: "valid_layer l pk"
    and f: "find_block l i pk = Some b" and m: "\<not> pb_on_disk b"
  defines "pk' \<equiv> put_block l i (b\<lparr>pb_access := a\<rparr>) (pk\<lparr>pk_access := a\<rparr>)"
  shows "paged_ok pt pk' \<and> tables_ok pt pk' \<and> same_tokens pt pk pk'"
proof -
  let ?p1 = "pk\<lparr>pk_access := a\<rparr>" and ?b = "b\<lparr>pb_access := a\<rparr>"
  have ok1: "paged_ok pt ?p1" using ok by (simp add: paged_ok_aux)
  have l1: "valid_layer l ?p1" using l by (simp add: valid_layer_def)
  have f1: "find_block l i ?p1 = Some b" using f by (simp add: find_block_def layer_at_def)
  have sizes: "int (length (pb_k ?b)) = per_block ?p1" "int (length (pb_v ?b)) = per_block ?p1"
    using block_okI [OF ok l f] m by (simp_all add: block_ok_def per_block_def)
  have m1: "\<not> pb_on_disk ?b" using m by simp
  note put = put_resident [OF ok1 l1 f1 m m1 sizes, folded pk'_def]
  have len: "nat l < length (pk_layers ?p1)" using ok l valid_layer_bound by (auto simp: paged_ok_def)
  have v: "valid_layer l' pk' = valid_layer l' pk" for l' by (simp add: pk'_def valid_layer_def)
  have la: "pl_root (layer_at l' pk') = pl_root (layer_at l' pk) \<and> pl_pos (layer_at l' pk') = pl_pos (layer_at l' pk) \<and>
    map fst (pl_blocks (layer_at l' pk')) = map fst (pl_blocks (layer_at l' pk))" for l'
    unfolding pk'_def using len by (simp add: put_block_def layer_at_set_layer map_fst_put)
      (simp add: layer_at_def case_prod_beta)
  have bs: "pk_block_size pk' = pk_block_size pk" by (simp add: pk'_def)
  have "tables_ok pt pk'" using tab la unfolding tables_ok_def v by (metis list.set_map)
  moreover have "same_tokens pt pk pk'"
  proof (rule same_tokensI)
    show "resolve_block_id pt l' pos pk' = resolve_block_id pt l' pos pk" for l' pos
      using la bs by (simp add: resolve_block_id_def v Let_def)
    have data: "paged_contents pk l i = Some (pb_k b, pb_v b)"
      using l f m by (simp add: paged_contents_def block_data_def)
    have "paged_contents ?p1 l' i' = paged_contents pk l' i'" for l' i' by (rule contents_cong) simp_all
    then show "paged_contents pk' l' (resolve_block_id pt l' pos pk) = paged_contents pk l' (resolve_block_id pt l' pos pk)" for l' pos
      using put(2) data by auto
  qed (simp_all add: la, simp_all add: pk'_def)
  ultimately show ?thesis using put(1) by blast
qed

lemma row_memcpy_single:
  assumes "length dst = n * d" and "length src = m * d" and "j < n" and "r < m" and "0 < d"
  obtains dst' where "memcpy dst (j * d) src (r * d) d = Some dst'" and "length dst' = n * d"
    and "\<And>q. q < n \<Longrightarrow> row d dst' q = (if q = j then row d src r else row d dst q)"
  using memcpy_row_defined [OF assms(1,2,3,4)] memcpy_row [OF _ assms(1,2,3,4)] by blast

text \<open>The row of one position after its turn of the loop.\<close>

definition row_read :: "'r page_table \<Rightarrow> bool \<Rightarrow> 'r paged_kv \<Rightarrow> int \<Rightarrow> int \<Rightarrow> u32 list \<times> u32 list \<Rightarrow> u32 list \<times> u32 list \<Rightarrow> bool" where
  "row_read pt rel pk l pos old new \<longleftrightarrow>
     new = token pt pk l pos \<or> new = old \<and> (rel \<longrightarrow> token pt pk l pos = (zero_token pk, zero_token pk))"

lemma read_token_spec:
  assumes ok: "paged_ok pt pk" and tab: "tables_ok pt pk" and l: "valid_layer l pk" and start: "start \<le> pos" "0 \<le> start"
    and len: "length k_out = n * token_size pk" "length v_out = n * token_size pk" and j: "nat (pos - start) < n"
  shows "\<exists>pk' k' v'. read_token pt io l start pos (pk, k_out, v_out) = Some (pk', k', v') \<and>
    paged_ok pt pk' \<and> tables_ok pt pk' \<and> same_tokens pt pk pk' \<and>
    length k' = n * token_size pk \<and> length v' = n * token_size pk \<and>
    (\<forall>q<n. q \<noteq> nat (pos - start) \<longrightarrow> row (token_size pk) k' q = row (token_size pk) k_out q \<and>
       row (token_size pk) v' q = row (token_size pk) v_out q) \<and>
    row_read pt (reliable io pk) pk l pos
      (row (token_size pk) k_out (nat (pos - start)), row (token_size pk) v_out (nat (pos - start)))
      (row (token_size pk) k' (nat (pos - start)), row (token_size pk) v' (nat (pos - start)))"
proof -
  let ?i = "resolve_block_id pt l pos pk" and ?ts = "token_size pk" and ?j = "nat (pos - start)"
  have dims: "dims_ok pk" using ok by (simp add: paged_ok_def)
  have p0: "0 \<le> pos" using start by simp
  note sz = append_sizes [OF dims p0 zero_less_one]
  have unchanged: ?thesis
    if "read_token pt io l start pos (pk, k_out, v_out) = Some (p, k_out, v_out)" "keeps pt pk p"
      "reliable io pk \<Longrightarrow> token pt pk l pos = (zero_token pk, zero_token pk)" for p
  proof -
    have p: "paged_ok pt p" "same_cache pk p" using that(2) ok by (simp_all add: keeps_def)
    show ?thesis using that(1,3) p tables_ok_same_cache [OF p(2) tab] same_tokens_same_cache [OF p(2), of pt] len
      by (auto simp: row_read_def)
  qed
  show ?thesis
  proof (cases "?i < 0 \<or> find_block l ?i pk = None")
    case True
    have same: "read_token pt io l start pos (pk, k_out, v_out) = Some (pk, k_out, v_out)"
      using True by (auto simp: read_token_def Let_def)
    have "token pt pk l pos = (zero_token pk, zero_token pk)"
      using True by (auto simp: token_def Let_def paged_contents_def)
    then show ?thesis by (rule unchanged [OF same keeps_refl])
  next
    case False
    then obtain b0 where i0: "0 \<le> ?i" and b0: "find_block l ?i pk = Some b0" by auto
    define p1 where "p1 = (if pb_on_disk b0 then load_block pt io l ?i pk else pk)"
    have k1: "keeps pt pk p1" by (simp add: p1_def keeps_load)
    then have ok1: "paged_ok pt p1" and s1: "same_cache pk p1" using ok by (simp_all add: keeps_def)
    have tab1: "tables_ok pt p1" by (rule tables_ok_same_cache [OF s1 tab])
    have l1: "valid_layer l p1" using l s1 by (simp add: same_cache_def valid_layer_def)
    have flds: "pk_heads p1 = pk_heads pk" "pk_dim p1 = pk_dim pk" "pk_block_size p1 = pk_block_size pk"
      "per_block p1 = per_block pk" "token_size p1 = ?ts"
      using s1 by (simp_all add: same_cache_def per_block_def token_size_def)
    show ?thesis
    proof (cases "\<exists>b. find_block l ?i p1 = Some b \<and> \<not> pb_on_disk b")
      case False
      then have nrel: "\<not> reliable io pk"
      proof (cases "pb_on_disk b0")
        case True
        then show ?thesis using load_reliable [OF ok _ l b0, of io] False unfolding p1_def by auto
      next
        case mem: False
        then show ?thesis using b0 False unfolding p1_def by simp
      qed
      have "read_token pt io l start pos (pk, k_out, v_out) = Some (p1, k_out, v_out)"
      proof (cases "find_block l ?i p1")
        case None
        show ?thesis unfolding read_token_def split_beta fst_conv snd_conv Let_def b0 option.case p1_def [symmetric] None
          using i0 by simp
      next
        case (Some b)
        then have "pb_on_disk b" using False by simp
        then show ?thesis
          unfolding read_token_def split_beta fst_conv snd_conv Let_def b0 option.case p1_def [symmetric] Some
          using i0 by simp
      qed
      from unchanged [OF this k1] nrel show ?thesis by blast
    next
      case True
      then obtain b where b: "find_block l ?i p1 = Some b" "\<not> pb_on_disk b" by blast
      have sizes: "int (length (pb_k b)) = per_block pk" "int (length (pb_v b)) = per_block pk"
        using block_okI [OF ok1 l1 b(1)] b(2) flds(4) by (simp_all add: block_ok_def)
      define q bs where "q = nat (pos mod pk_block_size pk)" and "bs = nat (pk_block_size pk)"
      have q: "q < bs" "0 < ?ts" "pos mod pk_block_size pk * pk_heads pk * pk_dim pk = int (q * ?ts)"
        "per_block pk = int (bs * ?ts)" unfolding q_def bs_def by (rule sz)+
      have lens: "length (pb_k b) = bs * ?ts" "length (pb_v b) = bs * ?ts"
        using sizes unfolding q(4) by (simp_all only: of_nat_eq_iff)
      obtain k' where k': "memcpy k_out (?j * ?ts) (pb_k b) (q * ?ts) ?ts = Some k'" "length k' = n * ?ts"
        "\<And>r. r < n \<Longrightarrow> row ?ts k' r = (if r = ?j then row ?ts (pb_k b) q else row ?ts k_out r)"
        using row_memcpy_single [OF len(1) lens(1) j q(1,2)] by blast
      obtain v' where v': "memcpy v_out (?j * ?ts) (pb_v b) (q * ?ts) ?ts = Some v'" "length v' = n * ?ts"
        "\<And>r. r < n \<Longrightarrow> row ?ts v' r = (if r = ?j then row ?ts (pb_v b) q else row ?ts v_out r)"
        using row_memcpy_single [OF len(2) lens(2) j q(1,2)] by blast
      define p2 where "p2 = put_block l ?i (b\<lparr>pb_access := pk_access p1 + 1\<rparr>) (p1\<lparr>pk_access := pk_access p1 + 1\<rparr>)"
      have t: "paged_ok pt p2 \<and> tables_ok pt p2 \<and> same_tokens pt p1 p2"
        unfolding p2_def by (rule touch_block [OF ok1 tab1 l1 b])
      have step: "read_token pt io l start pos (pk, k_out, v_out) = Some (p2, k', v')"
      proof -
        have d: "0 < pk_heads pk" "0 < pk_dim pk" using dims by (simp_all add: dims_ok_def)
        then have hd: "pk_heads pk * pk_dim pk = int ?ts" by (simp add: token_size_def)
        have oo: "(pos - start) * pk_heads pk * pk_dim pk = int (?j * ?ts)"
          using start(1) by (simp add: mult.assoc hd)
        have b1: "q * ?ts + ?ts \<le> bs * ?ts" by (rule row_bound [OF q(1)])
        have b2: "?j * ?ts + ?ts \<le> n * ?ts" by (rule row_bound [OF j])
        have guard: "\<not> (int ?ts \<le> 0 \<or> int (q * ?ts) < 0 \<or> int (q * ?ts) + int ?ts > int (bs * ?ts) \<or>
          int (q * ?ts) + int ?ts > int (bs * ?ts) \<or> int (q * ?ts) + int ?ts > int (bs * ?ts) \<or>
          int (?j * ?ts) < 0 \<or> int (?j * ?ts) + int ?ts > int (n * ?ts) \<or> int (?j * ?ts) + int ?ts > int (n * ?ts))"
          using b1 b2 q(2) by linarith
        have n0: "\<not> ?i < 0" using i0 by simp
        have ok_size: "block_resident_ok (pb_k b) (pb_v b) (per_block p1)"
          using sizes flds(4) per_block_pos [OF dims] by (auto simp: block_resident_ok_def)
        have f2: "pk_heads p2 = pk_heads pk" "pk_dim p2 = pk_dim pk" "pk_block_size p2 = pk_block_size pk"
          "per_block p2 = per_block pk" "pk_access (p1\<lparr>pk_access := pk_access p1 + 1\<rparr>) = pk_access p1 + 1"
          using flds by (simp_all add: p2_def per_block_def)
        show ?thesis
          unfolding read_token_def split_beta fst_conv snd_conv Let_def b0 option.case p1_def [symmetric] b(1)
          by (simp only: n0 b(2) ok_size f2(5) p2_def [symmetric] f2 q(3,4) hd oo lens len guard nat_int k'(1) v'(1)
              if_False bind.bind_lunit not_True_eq_False option.case)
      qed
      have "paged_contents pk l ?i = Some (pb_k b, pb_v b)"
      proof -
        have "paged_contents p1 l ?i = Some (pb_k b, pb_v b)" using b l1 by (simp add: paged_contents_def block_data_def)
        then show ?thesis using s1 by (simp add: same_cache_def)
      qed
      then have "token pt pk l pos = (row ?ts (pb_k b) q, row ?ts (pb_v b) q)"
        using i0 by (simp add: token_def Let_def q_def)
      then have "row_read pt (reliable io pk) pk l pos (row ?ts k_out ?j, row ?ts v_out ?j) (row ?ts k' ?j, row ?ts v' ?j)"
        using k'(3) [OF j] v'(3) [OF j] by (simp add: row_read_def)
      then show ?thesis
        using step t same_tokens_trans [OF same_tokens_same_cache [OF s1]] k'(2,3) v'(2,3) by auto
    qed
  qed
qed

section \<open>The loop\<close>

lemma same_tokens_facts:
  assumes "same_tokens pt pk p"
  shows "token_size p = token_size pk" "zero_token p = zero_token pk" "reliable io p = reliable io pk"
    "valid_layer l p = valid_layer l pk" "valid_layer l pk \<Longrightarrow> token pt p l pos = token pt pk l pos"
    "valid_layer l pk \<Longrightarrow> row_read pt r p l pos old new = row_read pt r pk l pos old new"
  using assms by (simp_all add: same_tokens_def token_size_def zero_token_def reliable_def valid_layer_def row_read_def)

lemma read_loop:
  assumes "paged_ok pt p" and "tables_ok pt p" and "same_tokens pt pk p" and l: "valid_layer l pk" and "0 \<le> start"
    and "length k_out = n * token_size pk" and "length v_out = n * token_size pk"
    and "start \<le> a" and "b - start < int n"
  shows "\<exists>p' k' v'. fold_option (read_token pt io l start) [a..b] (p, k_out, v_out) = Some (p', k', v') \<and>
    paged_ok pt p' \<and> tables_ok pt p' \<and> same_tokens pt pk p' \<and>
    length k' = n * token_size pk \<and> length v' = n * token_size pk \<and>
    (\<forall>q<n. q \<notin> (\<lambda>pos. nat (pos - start)) ` {a..b} \<longrightarrow> row (token_size pk) k' q = row (token_size pk) k_out q \<and>
       row (token_size pk) v' q = row (token_size pk) v_out q) \<and>
    (\<forall>pos \<in> {a..b}. row_read pt (reliable io pk) pk l pos
      (row (token_size pk) k_out (nat (pos - start)), row (token_size pk) v_out (nat (pos - start)))
      (row (token_size pk) k' (nat (pos - start)), row (token_size pk) v' (nat (pos - start))))"
  using assms
proof (induction "nat (b + 1 - a)" arbitrary: a p k_out v_out)
  case 0
  then show ?case by auto
next
  case (Suc m)
  let ?ts = "token_size pk"
  have ab: "a \<le> b" using Suc.hyps(2) by simp
  then have upto_eq: "[a..b] = a # [a + 1..b]" by (rule upto_rec1)
  note facts = same_tokens_facts [OF Suc.prems(3)]
  have lp: "valid_layer l p" using l facts(4) by simp
  have j: "nat (a - start) < n" using Suc.prems(9) ab Suc.prems(8) by simp
  have lens: "length k_out = n * token_size p" "length v_out = n * token_size p" using Suc.prems(6,7) facts(1) by simp_all
  obtain p1 k1 v1 where s1: "read_token pt io l start a (p, k_out, v_out) = Some (p1, k1, v1)"
    "paged_ok pt p1" "tables_ok pt p1" "same_tokens pt p p1" "length k1 = n * ?ts" "length v1 = n * ?ts"
    "\<And>q. q < n \<Longrightarrow> q \<noteq> nat (a - start) \<Longrightarrow> row ?ts k1 q = row ?ts k_out q \<and> row ?ts v1 q = row ?ts v_out q"
    "row_read pt (reliable io pk) pk l a (row ?ts k_out (nat (a - start)), row ?ts v_out (nat (a - start)))
      (row ?ts k1 (nat (a - start)), row ?ts v1 (nat (a - start)))"
    using read_token_spec [OF Suc.prems(1,2) lp Suc.prems(8,5) lens j, of io] unfolding facts(1) facts(3) facts(6) [OF l] by blast
  have m: "m = nat (b + 1 - (a + 1))" using Suc.hyps(2) by simp
  have t1: "same_tokens pt pk p1" by (rule same_tokens_trans [OF Suc.prems(3) s1(4)])
  have sa: "start \<le> a + 1" using Suc.prems(8) by simp
  obtain p2 k2 v2 where s2: "fold_option (read_token pt io l start) [a + 1..b] (p1, k1, v1) = Some (p2, k2, v2)"
    "paged_ok pt p2" "tables_ok pt p2" "same_tokens pt pk p2" "length k2 = n * ?ts" "length v2 = n * ?ts"
    "\<forall>q<n. q \<notin> (\<lambda>pos. nat (pos - start)) ` {a + 1..b} \<longrightarrow> row ?ts k2 q = row ?ts k1 q \<and> row ?ts v2 q = row ?ts v1 q"
    "\<forall>pos \<in> {a + 1..b}. row_read pt (reliable io pk) pk l pos
      (row ?ts k1 (nat (pos - start)), row ?ts v1 (nat (pos - start)))
      (row ?ts k2 (nat (pos - start)), row ?ts v2 (nat (pos - start)))"
    using Suc.hyps(1) [OF m s1(2,3) t1 l Suc.prems(5) s1(5,6) sa Suc.prems(9)] by blast
  have na: "nat (a - start) \<notin> (\<lambda>pos. nat (pos - start)) ` {a + 1..b}" using Suc.prems(8) by auto
  have rows: "row ?ts k2 q = row ?ts k_out q \<and> row ?ts v2 q = row ?ts v_out q"
    if "q < n" "q \<notin> (\<lambda>pos. nat (pos - start)) ` {a..b}" for q
  proof -
    have "q \<noteq> nat (a - start)" using that(2) ab by auto
    moreover have "q \<notin> (\<lambda>pos. nat (pos - start)) ` {a + 1..b}" using that(2) by auto
    ultimately show ?thesis using s1(7) s2(7) that(1) by simp
  qed
  have reads: "row_read pt (reliable io pk) pk l pos
      (row ?ts k_out (nat (pos - start)), row ?ts v_out (nat (pos - start)))
      (row ?ts k2 (nat (pos - start)), row ?ts v2 (nat (pos - start)))" if "pos \<in> {a..b}" for pos
  proof (cases "pos = a")
    case True
    then show ?thesis using s1(8) s2(7) na j by simp
  next
    case False
    then have p: "pos \<in> {a + 1..b}" using that by auto
    then have "nat (pos - start) < n" "nat (pos - start) \<noteq> nat (a - start)" using Suc.prems(8,9) by auto
    from s1(7) [OF this] bspec [OF s2(8) p] show ?thesis by simp
  qed
  show ?case
    using s1(1) s2(1-6) rows reads by (simp add: upto_eq)
qed

lemma rows_replicate_zero: "q < n \<Longrightarrow> row (token_size pk) (replicate (n * token_size pk) 0) q = zero_token pk"
  by (simp add: row_replicate zero_token_def token_size_def)

lemma get_range_spec:
  assumes ok: "paged_ok pt pk" and tab: "tables_ok pt pk" and l: "valid_layer l pk"
    and se: "0 \<le> start" "start < end" "end \<le> pl_pos (layer_at l pk)"
  shows "\<exists>pk' ks vs. paged_get_range pt io l start end pk = Some (pk', ks, vs) \<and>
    paged_ok pt pk' \<and> tables_ok pt pk' \<and> same_tokens pt pk pk' \<and>
    length ks = nat (end - start) * token_size pk \<and> length vs = nat (end - start) * token_size pk \<and>
    (\<forall>pos. start \<le> pos \<and> pos < end \<longrightarrow>
       (row (token_size pk) ks (nat (pos - start)), row (token_size pk) vs (nat (pos - start))) \<in>
         {token pt pk l pos, (zero_token pk, zero_token pk)}) \<and>
    (reliable io pk \<longrightarrow> (\<forall>pos. start \<le> pos \<and> pos < end \<longrightarrow>
       (row (token_size pk) ks (nat (pos - start)), row (token_size pk) vs (nat (pos - start))) = token pt pk l pos))"
proof -
  let ?n = "nat (end - start)" and ?ts = "token_size pk"
  have dims: "dims_ok pk" using ok by (simp add: paged_ok_def)
  then have d: "0 < pk_heads pk" "0 < pk_dim pk" "0 < pk_block_size pk" by (simp_all add: dims_ok_def)
  have size: "nat ((end - start) * pk_heads pk * pk_dim pk) = ?n * ?ts"
    using d se by (simp add: token_size_def nat_mult_distrib mult.assoc)
  have eq: "paged_get_range pt io l start end pk =
      fold_option (read_token pt io l start) [start..end - 1] (pk, replicate (?n * ?ts) 0, replicate (?n * ?ts) 0)"
    using l se d by (simp add: paged_get_range_def Let_def size max_def min_def)
  have last: "end - 1 - start < int ?n" using se by simp
  obtain pk' ks vs where r: "fold_option (read_token pt io l start) [start..end - 1]
      (pk, replicate (?n * ?ts) 0, replicate (?n * ?ts) 0) = Some (pk', ks, vs)"
    "paged_ok pt pk'" "tables_ok pt pk'" "same_tokens pt pk pk'" "length ks = ?n * ?ts" "length vs = ?n * ?ts"
    and rows: "\<forall>pos \<in> {start..end - 1}. row_read pt (reliable io pk) pk l pos
      (row ?ts (replicate (?n * ?ts) 0) (nat (pos - start)), row ?ts (replicate (?n * ?ts) 0) (nat (pos - start)))
      (row ?ts ks (nat (pos - start)), row ?ts vs (nat (pos - start)))"
    using read_loop [OF ok tab same_tokens_refl l se(1) length_replicate length_replicate order_refl last, of io] by blast
  have read: "row_read pt (reliable io pk) pk l pos (zero_token pk, zero_token pk)
      (row ?ts ks (nat (pos - start)), row ?ts vs (nat (pos - start)))" if "start \<le> pos \<and> pos < end" for pos
  proof -
    have p: "pos \<in> {start..end - 1}" "nat (pos - start) < ?n" using that by auto
    from bspec [OF rows p(1)] show ?thesis unfolding rows_replicate_zero [OF p(2)] .
  qed
  have some: "(row ?ts ks (nat (pos - start)), row ?ts vs (nat (pos - start))) \<in> {token pt pk l pos, (zero_token pk, zero_token pk)}"
    if "start \<le> pos \<and> pos < end" for pos
    using read [OF that] unfolding row_read_def by blast
  have all: "(row ?ts ks (nat (pos - start)), row ?ts vs (nat (pos - start))) = token pt pk l pos"
    if "reliable io pk" "start \<le> pos \<and> pos < end" for pos
    using read [OF that(2)] that(1) unfolding row_read_def by metis
  show ?thesis unfolding eq using r some all by blast
qed

end
