(* ===== verification/Paged_Roundtrip.thy ===== *)
theory Paged_Roundtrip
  imports Paged_Read
begin

text \<open>
  End-to-end statements about \<open>append\<close> and \<open>get_range\<close> on the paged cache: what is appended
  to an idle cache whose file operations work is read back, and what an append that crosses a
  block boundary or meets a full memory leaves behind.
\<close>

section \<open>Waiting for the loader\<close>

definition idle :: "'r paged_kv \<Rightarrow> bool" where
  "idle pk \<longleftrightarrow> pk_queue pk = [] \<and> pk_inflight pk = {}"

text \<open>Loading depends on the request queue in no way.\<close>

lemma load_block_queue:
  assumes "pk_limit pk = 0"
  shows "load_block pt io l i (pk\<lparr>pk_inflight := s, pk_queue := q\<rparr>) =
    (load_block pt io l i pk)\<lparr>pk_inflight := s, pk_queue := q\<rparr>"
  unfolding load_block_def Let_def using assms
  by (simp add: valid_layer_def find_block_def layer_at_def block_bytes_def per_block_def put_block_def
      set_layer_def split: option.split)

lemma ensure_resident_reliable:
  assumes ok: "paged_ok pt pk" and rel: "reliable io pk" and idle: "idle pk" and l: "valid_layer l pk"
    and f: "find_block l i pk = Some b" and i: "0 \<le> i" and p: "0 < patience" and disk: "pb_on_disk b"
  shows "\<exists>b' pk'. ensure_resident pt io patience l i pk = (True, pk') \<and> find_block l i pk' = Some b' \<and> \<not> pb_on_disk b'"
proof -
  obtain n where n: "patience = Suc n" using p by (cases patience) auto
  obtain b' where b': "find_block l i (load_block pt io l i pk) = Some b'" "\<not> pb_on_disk b'"
    using load_reliable [OF ok rel l f] by blast
  let ?pk = "pk\<lparr>pk_inflight := {(l, i)}, pk_queue := [(l, i, False)]\<rparr>"
  let ?ld = "load_block pt io l i (pk\<lparr>pk_inflight := {(l, i)}, pk_queue := []\<rparr>)"
  let ?q = "?ld\<lparr>pk_inflight := {}, pk_loads := pk_loads ?ld + 1\<rparr>"
  have lim: "pk_limit pk = 0" using rel by (simp add: reliable_def)
  have q: "pk_queue pk = []" "pk_inflight pk = {}" using idle by (simp_all add: idle_def)
  have not: "block_is_resident l i pk = False" using l f disk by (simp add: block_is_resident_def)
  have enq: "enqueue_async l i False pk = (True, ?pk)" using l i q by (simp add: enqueue_async_def)
  have infl: "pk_inflight ?ld = {(l, i)}" by (simp add: load_block_queue [OF lim])
  have step: "worker_step pt io ?pk = ?q" using infl by (simp add: worker_step_def Let_def)
  have find: "find_block l i ?q = Some b'"
    using b'(1) by (simp add: load_block_queue [OF lim] find_block_def layer_at_def)
  have num: "pk_num_layers ?q = pk_num_layers pk"
  proof -
    have "same_cache pk (load_block pt io l i pk)" using keeps_load [of pt pk] ok by (simp add: keeps_def)
    then show ?thesis by (simp add: load_block_queue [OF lim] same_cache_def)
  qed
  have stop: "worker_until pt io n (l, i) ?q = ?q" by (cases n) simp_all
  have until: "worker_until pt io patience (l, i) ?pk = ?q"
    unfolding n worker_until.simps step stop by simp
  have res: "block_is_resident l i ?q" using find b'(2) l num by (simp add: block_is_resident_def valid_layer_def)
  have "ensure_resident pt io patience l i pk = (True, ?q)"
    unfolding ensure_resident_def not enq snd_conv Let_def until using res by simp
  then show ?thesis using find b'(2) by blast
qed

section \<open>Appending succeeds\<close>

context page_table_laws
begin

lemma append_stores:
  assumes ok: "paged_ok pt pk" and tab: "tables_ok pt pk" and rel: "reliable io pk" and idle: "idle pk"
    and l: "valid_layer l pk" and pos: "0 \<le> pos" "pos < max_logical pt pk"
    and next_id: "0 \<le> pk_next_id pk" "pk_next_id pk < INT64_MAX" and p: "0 < patience"
    and n: "0 < n" and k: "length k = n * token_size pk" and v: "length v = n * token_size pk"
  shows "\<exists>pk'. paged_append pt io patience l pos k v pk = Some pk' \<and> paged_ok pt pk' \<and> tables_ok pt pk' \<and>
    stored_tokens pt l pos n k v pk pk'"
proof (cases "resolve_block_id pt l pos pk < 0")
  case True
  obtain i p1 where al: "alloc_block_id pt io l pos pk = (i, p1)" by (metis surj_pair)
  have lim: "pk_limit pk = 0" using rel by (simp add: reliable_def)
  have i: "0 \<le> i" using alloc_spec [OF ok tab True al] lim l pos next_id by blast
  obtain b where a: "paged_ok pt p1" "tables_ok pt p1" "same_tokens pt pk p1" "resolve_block_id pt l pos p1 = i"
    "find_block l i p1 = Some b" "\<not> pb_on_disk b"
    using alloc_spec [OF ok tab True al] i by blast
  have l1: "valid_layer l p1" using same_tokens_facts(4) [OF a(3)] l by simp
  have ts: "token_size p1 = token_size pk" by (rule same_tokens_facts(1) [OF a(3)])
  have "block_resident_ok (pb_k b) (pb_v b) (per_block p1)"
    using block_okI [OF a(1) l1 a(5)] a(6) per_block_pos [of p1] a(1)
    by (auto simp: block_resident_ok_def block_ok_def paged_ok_def)
  moreover obtain p2 where w: "write_block l i pos k v b p1 = Some p2" "paged_ok pt p2" "tables_ok pt p2"
    "stored_tokens pt l pos n k v p1 p2"
    using write_stored [OF a(1,2,4) i a(5,6) n] k v ts by auto
  ultimately have "paged_append pt io patience l pos k v pk = Some p2"
    using l pos True al i a(5,6) by (simp add: paged_append_def)
  then show ?thesis using w stored_after_same [OF a(3) w(4)] by blast
next
  case False
  let ?i = "resolve_block_id pt l pos pk"
  have i: "0 \<le> ?i" using False by simp
  obtain r where r: "pt_in_range pt (pos div pk_block_size pk)" "?i = pt_find pt r (pos div pk_block_size pk)"
    "root_ok pt (fst ` set (pl_blocks (layer_at l pk))) r"
    by (rule resolved_root [OF tab i])
  have "?i = - 1 \<or> ?i \<in> fst ` set (pl_blocks (layer_at l pk))"
    using r(1,3) unfolding r(2) root_ok_def by blast
  then have "?i \<in> fst ` set (pl_blocks (layer_at l pk))" using i by (metis not_one_le_zero neg_0_le_iff_le)
  then obtain b0 where b0: "find_block l ?i pk = Some b0" using find_block_Some by blast
  obtain p1 b where s: "(if pb_on_disk b0 then ensure_resident pt io patience l ?i pk else (True, pk)) = (True, p1)"
    "find_block l ?i p1 = Some b" "\<not> pb_on_disk b"
    using ensure_resident_reliable [OF ok rel idle l b0 _ p] False b0 by (cases "pb_on_disk b0") auto
  have "keeps pt pk p1" using s(1) keeps_ensure_resident [of pt pk io patience l ?i] by (auto split: if_splits)
  then have ok1: "paged_ok pt p1" and sc: "same_cache pk p1" using ok by (simp_all add: keeps_def)
  have tab1: "tables_ok pt p1" by (rule tables_ok_same_cache [OF sc tab])
  have st: "same_tokens pt pk p1" by (rule same_tokens_same_cache [OF sc])
  have r1: "resolve_block_id pt l pos p1 = ?i" by (rule resolve_same_cache [OF sc])
  have l1: "valid_layer l p1" using same_tokens_facts(4) [OF st] l by simp
  have ts: "token_size p1 = token_size pk" by (rule same_tokens_facts(1) [OF st])
  have "block_resident_ok (pb_k b) (pb_v b) (per_block p1)"
    using block_okI [OF ok1 l1 s(2)] s(3) per_block_pos [of p1] ok1
    by (auto simp: block_resident_ok_def block_ok_def paged_ok_def)
  moreover obtain p2 where w: "write_block l ?i pos k v b p1 = Some p2" "paged_ok pt p2" "tables_ok pt p2"
    "stored_tokens pt l pos n k v p1 p2"
    using write_stored [OF ok1 tab1 r1 i s(2,3) n] k v ts by auto
  ultimately have "paged_append pt io patience l pos k v pk = Some p2"
    using l pos False s b0 by (simp add: paged_append_def)
  then show ?thesis using w stored_after_same [OF st w(4)] by blast
qed

lemma append_get_range:
  assumes ok: "paged_ok pt pk" and tab: "tables_ok pt pk" and rel: "reliable io pk" and idle: "idle pk"
    and l: "valid_layer l pk" and pos: "0 \<le> pos" "pos < max_logical pt pk"
    and next_id: "0 \<le> pk_next_id pk" "pk_next_id pk < INT64_MAX" and p: "0 < patience"
    and n: "0 < n" and k: "length k = n * token_size pk" and v: "length v = n * token_size pk"
    and fits: "pos mod pk_block_size pk + int n \<le> pk_block_size pk"
  shows "\<exists>pk' pk''. paged_append pt io patience l pos k v pk = Some pk' \<and>
    paged_get_range pt io l pos (pos + int n) pk' = Some (pk'', k, v)"
proof -
  obtain pk' where a: "paged_append pt io patience l pos k v pk = Some pk'" "paged_ok pt pk'" "tables_ok pt pk'"
    "stored_tokens pt l pos n k v pk pk'"
    using append_stores [OF assms(1-13)] by blast
  let ?ts = "token_size pk"
  have f: "token_size pk' = ?ts" "reliable io pk'" "valid_layer l pk'" "pos + int n \<le> pl_pos (layer_at l pk')"
    using a(4) rel l by (auto simp: stored_tokens_def token_size_def reliable_def valid_layer_def)
  have np: "pos < pos + int n" using n by simp
  obtain pk'' ks vs where g: "paged_get_range pt io l pos (pos + int n) pk' = Some (pk'', ks, vs)"
    "length ks = nat (pos + int n - pos) * token_size pk'" "length vs = nat (pos + int n - pos) * token_size pk'"
    "\<And>p. pos \<le> p \<Longrightarrow> p < pos + int n \<Longrightarrow>
       (row (token_size pk') ks (nat (p - pos)), row (token_size pk') vs (nat (p - pos))) = token pt pk' l p"
    using get_range_spec [OF a(2,3) f(3) pos(1) np f(4), of io] f(2) by blast
  have bs: "0 < pk_block_size pk" using ok by (simp add: paged_ok_def dims_ok_def)
  have tok: "token pt pk' l (pos + int j) = (row ?ts k j, row ?ts v j)" if j: "j < n" for j
  proof -
    have "(pos + int j) div pk_block_size pk = pos div pk_block_size pk"
    proof -
      have e: "pos + int j = pos div pk_block_size pk * pk_block_size pk + (pos mod pk_block_size pk + int j)" by simp
      have "0 \<le> pos mod pk_block_size pk + int j" "pos mod pk_block_size pk + int j < pk_block_size pk"
        using bs fits j pos_mod_sign [OF bs, of pos] by linarith+
      then show ?thesis by (metis e div_mult_self3 div_pos_pos_trivial add_0_right bs less_irrefl)
    qed
    then show ?thesis using a(4) l pos(1) j by (simp add: stored_tokens_def)
  qed
  have rows: "row ?ts ks j = row ?ts k j \<and> row ?ts vs j = row ?ts v j" if j: "j < n" for j
    using g(4) [of "pos + int j"] tok [OF j] j f(1) by simp
  have "ks = k" using rows g(2) k f(1) by (intro row_eqI [of ks n ?ts k]) auto
  moreover have "vs = v" using rows g(3) v f(1) by (intro row_eqI [of vs n ?ts v]) auto
  ultimately show ?thesis using a(1) g(1) by blast
qed

lemma new_tables_ok: "tables_ok pt (paged_new pt num_layers h d bs limit path)"
  by (auto simp: tables_ok_def paged_new_def layer_at_def valid_layer_def root_ok_def find_empty)

end

section \<open>The three-level cache\<close>

text \<open>
  C2: an append to the three-level paged cache is atomic per token and never touches memory
  outside a block. Whatever the memory limit, whichever file operations fail and however long it
  waits for the loader, it returns, keeps the cache well-formed, and either changes no token and
  no position of any layer, or stores exactly the appended tokens that lie in the block of its
  position and moves the layer's position past all of them.
\<close>

theorem paged_append_tokens:
  assumes "paged_ok table_1t pk" and "tables_ok table_1t pk" and "0 < n"
    and "length k = n * token_size pk" and "length v = n * token_size pk"
  shows "\<exists>pk'. paged_append table_1t io patience l pos k v pk = Some pk' \<and>
    paged_ok table_1t pk' \<and> tables_ok table_1t pk' \<and>
    (same_tokens table_1t pk pk' \<or> stored_tokens table_1t l pos n k v pk pk')"
  by (rule tab1t.append_spec [OF assms])

lemma small_cache_ok:
  "paged_ok table_1t (paged_new table_1t layers 1 2 4 limit ''/kv'')"
  "tables_ok table_1t (paged_new table_1t layers 1 2 4 limit ''/kv'')"
  "token_size (paged_new table_1t layers 1 2 4 limit ''/kv'') = 2"
  by (rule paged_new_ok; simp) (rule tab1t.new_tables_ok, simp add: token_size_def paged_new_def)

theorem paged_append_tokens_witness:
  "\<exists>pk'. paged_append table_1t (\<lambda>n stage. even n) 3 1 5 [1, 2, 3, 4] [5, 6, 7, 8]
     (paged_new table_1t 2 1 2 4 64 ''/kv'') = Some pk' \<and> paged_ok table_1t pk'"
  using paged_append_tokens [OF small_cache_ok(1,2), of 2 "[1, 2, 3, 4]" 2 64 "[5, 6, 7, 8]"
      "\<lambda>n stage. even n" 3 1 5] small_cache_ok(3) [of 2 64] by auto

text \<open>
  A range read from the three-level paged cache returns, per position, the token stored
  there or zeros, and leaves every token as it was; when there is no memory limit and no file
  operation fails it returns exactly the tokens.
\<close>

theorem paged_get_range_tokens:
  assumes "paged_ok table_1t pk" and "tables_ok table_1t pk" and "valid_layer l pk"
    and "0 \<le> start" and "start < end" and "end \<le> pl_pos (layer_at l pk)"
  shows "\<exists>pk' ks vs. paged_get_range table_1t io l start end pk = Some (pk', ks, vs) \<and>
    paged_ok table_1t pk' \<and> tables_ok table_1t pk' \<and> same_tokens table_1t pk pk' \<and>
    length ks = nat (end - start) * token_size pk \<and> length vs = nat (end - start) * token_size pk \<and>
    (\<forall>pos. start \<le> pos \<and> pos < end \<longrightarrow>
       (row (token_size pk) ks (nat (pos - start)), row (token_size pk) vs (nat (pos - start))) \<in>
         {token table_1t pk l pos, (zero_token pk, zero_token pk)}) \<and>
    (reliable io pk \<longrightarrow> (\<forall>pos. start \<le> pos \<and> pos < end \<longrightarrow>
       (row (token_size pk) ks (nat (pos - start)), row (token_size pk) vs (nat (pos - start))) =
         token table_1t pk l pos))"
  by (rule get_range_spec [OF assms])

text \<open>A layer with a position but no block yet, as \<open>append\<close> leaves it past a block's end.\<close>

definition gap_cache :: "leaf_table node_table node_table paged_kv" where
  "gap_cache = set_layer 0 ((layer_at 0 (paged_new table_1t 1 1 2 4 64 ''/kv''))\<lparr>pl_pos := 2\<rparr>)
     (paged_new table_1t 1 1 2 4 64 ''/kv'')"

lemma gap_cache_ok:
  "paged_ok table_1t gap_cache" "tables_ok table_1t gap_cache" "valid_layer 0 gap_cache"
  "pl_pos (layer_at 0 gap_cache) = 2" "token_size gap_cache = 2"
proof -
  have v: "valid_layer 0 (paged_new table_1t 1 1 2 4 64 ''/kv'')" by (simp add: valid_layer_def paged_new_def)
  note sp = set_pos_spec [OF small_cache_ok(1) v, where p = 2, folded gap_cache_def]
  show "paged_ok table_1t gap_cache" by (rule sp(1))
  show "valid_layer 0 gap_cache" "token_size gap_cache = 2"
    by (simp_all add: gap_cache_def token_size_def valid_layer_def paged_new_def)
  show "pl_pos (layer_at 0 gap_cache) = 2" using sp(3) [OF v] by simp
  have one: "l = 0" if "valid_layer l gap_cache" for l
    using that by (simp add: valid_layer_def gap_cache_def paged_new_def)
  have "layer_at 0 gap_cache = (layer_at 0 (paged_new table_1t 1 1 2 4 64 ''/kv''))\<lparr>pl_pos := 2\<rparr>"
    using sp(3) [OF v] by simp
  then have "pl_root (layer_at 0 gap_cache) = pl_root (layer_at 0 (paged_new table_1t 1 1 2 4 64 ''/kv''))"
    "pl_blocks (layer_at 0 gap_cache) = pl_blocks (layer_at 0 (paged_new table_1t 1 1 2 4 64 ''/kv''))" by simp_all
  moreover obtain r where "pl_root (layer_at 0 (paged_new table_1t 1 1 2 4 64 ''/kv'')) = Some r"
    "root_ok table_1t (fst ` set (pl_blocks (layer_at 0 (paged_new table_1t 1 1 2 4 64 ''/kv'')))) r"
    using small_cache_ok(2) [of 1 64] v unfolding tables_ok_def by blast
  ultimately show "tables_ok table_1t gap_cache"
    unfolding tables_ok_def by (metis one)
qed

theorem paged_get_range_tokens_witness:
  "\<exists>pk' ks vs. paged_get_range table_1t (\<lambda>n stage. even n) 0 0 2 gap_cache = Some (pk', ks, vs) \<and> length ks = 4"
  using paged_get_range_tokens [OF gap_cache_ok(1,2,3), of 0 2 "\<lambda>n stage. even n"] gap_cache_ok(4,5) by auto

text \<open>
  C1: the round trip of the three-level paged cache. With no memory limit, no failing file
  operation and no request in flight, tokens appended anywhere within one block of a layer's
  address space, whether their block is new, in memory or on disk, are read back exactly by the
  range read of their positions.
\<close>

theorem paged_append_get_range:
  assumes "paged_ok table_1t pk" and "tables_ok table_1t pk" and "reliable io pk" and "idle pk"
    and "valid_layer l pk" and "0 \<le> pos" and "pos < max_logical table_1t pk"
    and "0 \<le> pk_next_id pk" and "pk_next_id pk < INT64_MAX" and "0 < patience"
    and "0 < n" and "length k = n * token_size pk" and "length v = n * token_size pk"
    and "pos mod pk_block_size pk + int n \<le> pk_block_size pk"
  shows "\<exists>pk' pk''. paged_append table_1t io patience l pos k v pk = Some pk' \<and>
    paged_get_range table_1t io l pos (pos + int n) pk' = Some (pk'', k, v)"
  by (rule tab1t.append_get_range [OF assms])

theorem paged_append_get_range_witness:
  "\<exists>pk' pk''. paged_append table_1t (\<lambda>_ _. True) 1 1 5 [1, 2, 3, 4] [5, 6, 7, 8]
       (paged_new table_1t 2 1 2 4 0 ''/kv'') = Some pk' \<and>
     paged_get_range table_1t (\<lambda>_ _. True) 1 5 7 pk' = Some (pk'', [1, 2, 3, 4], [5, 6, 7, 8])"
proof -
  let ?pk = "paged_new table_1t 2 1 2 4 0 ''/kv''"
  have "reliable (\<lambda>_ _. True) ?pk" "idle ?pk" "valid_layer 1 ?pk" "pk_next_id ?pk = 0" "pk_block_size ?pk = 4"
    "5 < max_logical table_1t ?pk"
    by (simp_all add: reliable_def idle_def valid_layer_def paged_new_def max_logical_def table_1t_def TABLE_ENTRIES_def)
  then show ?thesis
    using paged_append_get_range [OF small_cache_ok(1,2), of "\<lambda>_ _. True" 2 0 1 5 1 2 "[1, 2, 3, 4]" "[5, 6, 7, 8]"]
      small_cache_ok(3) [of 2 0]
    by (simp add: INT64_MAX_def)
qed

section \<open>What goes wrong\<close>

text \<open>
  An append of several tokens that crosses the end of a block loses the tokens past it, yet
  counts them: with blocks of two tokens, appending three at position 0 leaves the context length
  at 3 and reads back a zero third token.
\<close>

theorem paged_append_overrun:
  "\<exists>pk' pk''. paged_append table_4m (\<lambda>_ _. True) 1 0 0 [11, 12, 13] [21, 22, 23]
       (paged_new table_4m 1 1 1 2 0 ''/kv'') = Some pk' \<and>
     paged_context_len pk' = 3 \<and>
     paged_get_range table_4m (\<lambda>_ _. True) 0 0 3 pk' = Some (pk'', [11, 12, 0], [21, 22, 0])"
proof -
  have "map_option (\<lambda>pk'. (paged_context_len pk', map_option snd (paged_get_range table_4m (\<lambda>_ _. True) 0 0 3 pk')))
      (paged_append table_4m (\<lambda>_ _. True) 1 0 0 [11, 12, 13] [21, 22, 23] (paged_new table_4m 1 1 1 2 0 ''/kv''))
    = Some (3, Some ([11, 12, 0], [21, 22, 0]))"
    by code_simp
  then show ?thesis by auto
qed

text \<open>
  Room for a block is made only by evicting blocks of the same layer. When one layer fills
  the memory limit, the first append to any other layer is silently dropped, although evicting
  would have made room: the other layer stays empty.
\<close>

theorem paged_append_starves:
  "\<exists>p1 p2. paged_append table_4m (\<lambda>_ _. True) 1 0 0 [11, 12] [21, 22]
       (paged_new table_4m 2 1 2 1 16 ''/kv'') = Some p1 \<and>
     paged_append table_4m (\<lambda>_ _. True) 1 1 0 [31, 32] [41, 42] p1 = Some p2 \<and>
     pl_pos (layer_at 1 p2) = 0 \<and> num_physical_blocks p2 = 1 \<and> num_disk_blocks p2 = 0"
proof -
  have "Option.bind (paged_append table_4m (\<lambda>_ _. True) 1 0 0 [11, 12] [21, 22] (paged_new table_4m 2 1 2 1 16 ''/kv''))
      (\<lambda>p1. map_option (\<lambda>p2. (pl_pos (layer_at 1 p2), num_physical_blocks p2, num_disk_blocks p2))
        (paged_append table_4m (\<lambda>_ _. True) 1 1 0 [31, 32] [41, 42] p1))
    = Some (0, 1, 0)"
    by code_simp
  then show ?thesis by (auto simp: bind_eq_Some_conv)
qed

end
