(* ===== verification/Json.thy ===== *)
theory Json
  imports Byte_Encoding "HOL-Library.AList"
begin

text \<open>
  The JSON values, parser and printer of \<open>src/server/json_parser.cpp\<close> and
  \<open>include/quant/json_parser.h\<close>. A double is its bit pattern; \<open>strtod\<close>, \<open>printf\<close> of a double
  and the conversions are a parameter (\<open>double_ops\<close>). An object is an association list in its
  iteration order, which the source leaves to the hash table. The parser works on the rest of
  the input; the current position is the total length less the length of the rest.
\<close>

unbundle bit_operations_syntax

section \<open>Values\<close>

record double_ops =
  strtod :: "string \<Rightarrow> u64 option"     \<comment> \<open>\<open>None\<close>: out of range, not finite or not all consumed\<close>
  fmt_g :: "u64 \<Rightarrow> string"
  d_of_int :: "int \<Rightarrow> u64"
  int_of_d :: "u64 \<Rightarrow> int"              \<comment> \<open>\<open>(int)\<close> of a double\<close>

datatype json =
    JNull
  | JBool bool
  | JInt int
  | JFloat u64
  | JString string
  | JArray "json list"
  | JObject "(string \<times> json) list"

definition is_null :: "json \<Rightarrow> bool" where
  "is_null j \<longleftrightarrow> j = JNull"

fun is_bool :: "json \<Rightarrow> bool" where
  "is_bool (JBool b) = True"
| "is_bool _ = False"

fun is_number :: "json \<Rightarrow> bool" where
  "is_number (JInt i) = True"
| "is_number (JFloat d) = True"
| "is_number _ = False"

fun is_string :: "json \<Rightarrow> bool" where
  "is_string (JString s) = True"
| "is_string _ = False"

fun is_array :: "json \<Rightarrow> bool" where
  "is_array (JArray xs) = True"
| "is_array _ = False"

fun is_object :: "json \<Rightarrow> bool" where
  "is_object (JObject kvs) = True"
| "is_object _ = False"

text \<open>The lenient accessors return the default of the field that is not in use.\<close>

fun as_bool :: "json \<Rightarrow> bool" where
  "as_bool (JBool b) = b"
| "as_bool _ = False"

fun as_int :: "json \<Rightarrow> int" where
  "as_int (JInt i) = i"
| "as_int _ = 0"

fun as_float :: "double_ops \<Rightarrow> json \<Rightarrow> u64" where
  "as_float ops (JInt i) = d_of_int ops i"
| "as_float ops (JFloat d) = d"
| "as_float ops _ = 0"

fun as_string :: "json \<Rightarrow> string" where
  "as_string (JString s) = s"
| "as_string _ = []"

fun elems :: "json \<Rightarrow> json list" where
  "elems (JArray xs) = xs"
| "elems _ = []"

fun fields :: "json \<Rightarrow> (string \<times> json) list" where
  "fields (JObject kvs) = kvs"
| "fields _ = []"

definition as_bool_checked :: "json \<Rightarrow> string + bool" where
  "as_bool_checked j = (if \<not> is_bool j then Inl ''JsonValue: not a bool'' else Inr (as_bool j))"

definition as_int_checked :: "json \<Rightarrow> string + int" where
  "as_int_checked j = (case j of JInt i \<Rightarrow> Inr i | _ \<Rightarrow> Inl ''JsonValue: not an int'')"

definition as_float_checked :: "double_ops \<Rightarrow> json \<Rightarrow> string + u64" where
  "as_float_checked ops j = (if \<not> is_number j then Inl ''JsonValue: not a number'' else Inr (as_float ops j))"

definition as_string_checked :: "json \<Rightarrow> string + string" where
  "as_string_checked j = (if \<not> is_string j then Inl ''JsonValue: not a string'' else Inr (as_string j))"

definition get_field :: "json \<Rightarrow> string \<Rightarrow> json" where
  "get_field j key = (case map_of (fields j) key of Some v \<Rightarrow> v | None \<Rightarrow> JNull)"

definition get_index :: "json \<Rightarrow> nat \<Rightarrow> string + json" where
  "get_index j i = (if i \<ge> length (elems j) then Inl ''JsonValue: array index out of range'' else Inr (elems j ! i))"

definition at_or_null :: "json \<Rightarrow> nat \<Rightarrow> json" where
  "at_or_null j i = (if i < length (elems j) then elems j ! i else JNull)"

definition has :: "json \<Rightarrow> string \<Rightarrow> bool" where
  "has j key \<longleftrightarrow> map_of (fields j) key \<noteq> None"

section \<open>Printing\<close>

abbreviation "QUOTE \<equiv> CHR 0x22"
abbreviation "BACKSLASH \<equiv> CHR 0x5C"

definition hex_char :: "nat \<Rightarrow> char" where
  "hex_char n = (if n < 10 then digit_char n else char_of (87 + n))"

definition escape_char :: "char \<Rightarrow> string" where
  "escape_char c =
     (if c = QUOTE then [BACKSLASH, QUOTE]
      else if c = BACKSLASH then [BACKSLASH, BACKSLASH]
      else if c = CHR 0x08 then [BACKSLASH, CHR ''b'']
      else if c = CHR 0x0C then [BACKSLASH, CHR ''f'']
      else if c = CHR 0x0A then [BACKSLASH, CHR ''n'']
      else if c = CHR 0x0D then [BACKSLASH, CHR ''r'']
      else if c = CHR 0x09 then [BACKSLASH, CHR ''t'']
      else if (of_char c :: nat) < 32
      then [BACKSLASH, CHR ''u'', CHR ''0'', CHR ''0'', hex_char (of_char c div 16), hex_char (of_char c mod 16)]
      else [c])"

definition json_escape_string :: "string \<Rightarrow> string" where
  "json_escape_string s = concat (map escape_char s)"

fun commas :: "string list \<Rightarrow> string" where
  "commas [] = []"
| "commas [s] = s"
| "commas (s # t # ts) = s @ '','' @ commas (t # ts)"

definition quoted :: "string \<Rightarrow> string" where
  "quoted s = [QUOTE] @ json_escape_string s @ [QUOTE]"

fun to_string :: "double_ops \<Rightarrow> json \<Rightarrow> string" where
  "to_string ops JNull = ''null''"
| "to_string ops (JBool b) = (if b then ''true'' else ''false'')"
| "to_string ops (JInt i) = dec_int i"
| "to_string ops (JFloat d) = fmt_g ops d"
| "to_string ops (JString s) = quoted s"
| "to_string ops (JArray xs) = ''['' @ commas (map (to_string ops) xs) @ '']''"
| "to_string ops (JObject kvs) =
     ''{'' @ commas (map (\<lambda>kv. quoted (fst kv) @ '':'' @ to_string ops (snd kv)) kvs) @ ''}''"

section \<open>Parsing\<close>

datatype json_error = Msg string | Out_Of_Fuel

type_synonym 'a parse_result = "json_error + 'a \<times> string"

definition peek :: "string \<Rightarrow> char" where
  "peek s = (case s of [] \<Rightarrow> CHR 0x00 | c # _ \<Rightarrow> c)"

definition is_ws :: "char \<Rightarrow> bool" where
  "is_ws c \<longleftrightarrow> c = CHR '' '' \<or> c = CHR 0x09 \<or> c = CHR 0x0A \<or> c = CHR 0x0D"

definition skip_ws :: "string \<Rightarrow> string" where
  "skip_ws s = dropWhile is_ws s"

text \<open>\<open>n\<close> is the length of the whole input.\<close>

definition expect :: "nat \<Rightarrow> char \<Rightarrow> string \<Rightarrow> json_error + string" where
  "expect n c s =
     (let s = skip_ws s in
      if peek s \<noteq> c
      then Inl (Msg (''expected '' @ [CHR 0x27, c, CHR 0x27] @ '' at position '' @ dec_nat (n - length s)))
      else Inr (drop 1 s))"

definition is_digit :: "char \<Rightarrow> bool" where
  "is_digit c \<longleftrightarrow> 48 \<le> (of_char c :: nat) \<and> (of_char c :: nat) \<le> 57"

definition hex_value :: "char \<Rightarrow> nat option" where
  "hex_value c =
     (let n = of_char c :: nat in
      if 48 \<le> n \<and> n \<le> 57 then Some (n - 48)
      else if 97 \<le> n \<and> n \<le> 102 then Some (n - 87)
      else if 65 \<le> n \<and> n \<le> 70 then Some (n - 55)
      else None)"

definition is_space :: "char \<Rightarrow> bool" where
  "is_space c \<longleftrightarrow> c = CHR '' '' \<or> 9 \<le> (of_char c :: nat) \<and> (of_char c :: nat) \<le> 13"

text \<open>\<open>std::stoul(hex, nullptr, 16)\<close>: blanks, a sign, \<open>0x\<close>, digits; \<open>None\<close> is its exception.\<close>

definition stoul16 :: "string \<Rightarrow> nat option" where
  "stoul16 h =
     (let h = dropWhile is_space h;
          neg = (h \<noteq> [] \<and> hd h = CHR ''-'');
          h = (if h \<noteq> [] \<and> (hd h = CHR ''-'' \<or> hd h = CHR ''+'') then tl h else h);
          h = (case h of z # x # d # t \<Rightarrow>
                 if z = CHR ''0'' \<and> (x = CHR ''x'' \<or> x = CHR ''X'') \<and> hex_value d \<noteq> None then d # t else h
               | _ \<Rightarrow> h);
          ds = takeWhile (\<lambda>c. hex_value c \<noteq> None) h;
          v = foldl (\<lambda>v c. v * 16 + the (hex_value c)) 0 ds in
      if ds = [] \<or> v \<ge> 2 ^ 64 then None
      else Some (if neg then (2 ^ 64 - v) mod 2 ^ 64 else v))"

definition utf8 :: "u32 \<Rightarrow> string" where
  "utf8 cp =
     (if cp < 0x80 then [char_of (unat cp)]
      else if cp < 0x800 then [char_of (192 + unat cp div 64), char_of (128 + unat cp mod 64)]
      else [char_of (unat (0xE0 OR (drop_bit 12 cp))), char_of (128 + unat cp div 64 mod 64), char_of (128 + unat cp mod 64)])"

definition unescape :: "char \<Rightarrow> char" where
  "unescape e =
     (if e = CHR ''b'' then CHR 0x08 else if e = CHR ''f'' then CHR 0x0C
      else if e = CHR ''n'' then CHR 0x0A else if e = CHR ''r'' then CHR 0x0D
      else if e = CHR ''t'' then CHR 0x09 else e)"

definition prepend :: "string \<Rightarrow> string parse_result \<Rightarrow> string parse_result" where
  "prepend t r = bind_result r (\<lambda>(u, s). Inr (t @ u, s))"

text \<open>The loop of \<open>parse_string\<close>. Its end of input is not an error.\<close>

fun string_body :: "string \<Rightarrow> string parse_result" where
  "string_body [] = Inr ([], [])"
| "string_body (c # s) =
     (if c = QUOTE then Inr ([], s)
      else if c = BACKSLASH then
        (case s of
           [] \<Rightarrow> Inr ([CHR 0x00], [])
         | e # t \<Rightarrow>
            if e = CHR ''u'' then
              (case stoul16 (take 4 t) of
                 None \<Rightarrow> Inl (Msg ''json parse error'')
               | Some v \<Rightarrow> prepend (utf8 (of_nat v)) (string_body (drop 4 t)))
            else prepend [unescape e] (string_body t))
      else prepend [c] (string_body s))"

definition parse_string :: "nat \<Rightarrow> string \<Rightarrow> string parse_result" where
  "parse_string n s = bind_result (expect n QUOTE s) string_body"

text \<open>The characters of a number, and whether it is one for \<open>strtod\<close>.\<close>

definition digits_span :: "string \<Rightarrow> string \<times> string" where
  "digits_span s = (takeWhile is_digit s, dropWhile is_digit s)"

definition number_span :: "string \<Rightarrow> bool \<times> string \<times> string" where
  "number_span s =
     (let (sign, s) = (if peek s = CHR ''-'' then (take 1 s, drop 1 s) else ([], s));
          (whole, s) = digits_span s;
          (is_frac, frac, s) =
            (if s \<noteq> [] \<and> hd s = CHR ''.''
             then (let (ds, s') = digits_span (tl s) in (True, hd s # ds, s')) else (False, [], s));
          (is_exp, ex, s) =
            (if s \<noteq> [] \<and> (hd s = CHR ''e'' \<or> hd s = CHR ''E'')
             then (let (sg, s') = (if tl s \<noteq> [] \<and> (hd (tl s) = CHR ''+'' \<or> hd (tl s) = CHR ''-'')
                                   then ([hd (tl s)], tl (tl s)) else ([], tl s));
                       (ds, s'') = digits_span s' in (True, hd s # sg @ ds, s''))
             else (False, [], s))
      in (is_frac \<or> is_exp, sign @ whole @ frac @ ex, s))"

text \<open>\<open>strtoll\<close> of an optional minus sign and digits; \<open>None\<close> is out of range.\<close>

definition strtoll :: "string \<Rightarrow> int option" where
  "strtoll t =
     (let v = (if t \<noteq> [] \<and> hd t = CHR ''-'' then - int (undec (tl t)) else int (undec t)) in
      if v < - (2 ^ 63) \<or> v > 2 ^ 63 - 1 then None else Some v)"

definition parse_number :: "double_ops \<Rightarrow> string \<Rightarrow> json parse_result" where
  "parse_number ops s =
     (let (is_float, num_str, rest) = number_span (skip_ws s) in
      if is_float then
        (case strtod ops num_str of
           None \<Rightarrow> Inl (Msg (''number out of range: '' @ num_str))
         | Some d \<Rightarrow> Inr (JFloat d, rest))
      else if num_str = [] \<or> num_str = ''-'' then Inl (Msg (''bad number: '' @ num_str))
      else
        (case strtoll num_str of
           None \<Rightarrow> Inl (Msg (''integer out of range: '' @ num_str))
         | Some v \<Rightarrow> Inr (JInt v, rest)))"

definition parse_bool :: "string \<Rightarrow> json parse_result" where
  "parse_bool s =
     (if take 4 s = ''true'' then Inr (JBool True, drop 4 s)
      else if take 5 s = ''false'' then Inr (JBool False, drop 5 s)
      else Inl (Msg ''expected boolean''))"

definition parse_null :: "string \<Rightarrow> json parse_result" where
  "parse_null s = (if take 4 s = ''null'' then Inr (JNull, drop 4 s) else Inl (Msg ''expected null''))"

text \<open>
  The loops over elements and members, with \<open>pv\<close> the parser of a value one level deeper. The
  fuel is the length of the input, which every turn shortens.
\<close>

fun elements :: "(string \<Rightarrow> json parse_result) \<Rightarrow> nat \<Rightarrow> string \<Rightarrow> json list parse_result" where
  "elements pv 0 s = Inl Out_Of_Fuel"
| "elements pv (Suc k) s =
     bind_result (pv s) (\<lambda>(x, s).
       let s = skip_ws s; c = peek s in
       if c = CHR '']'' then Inr ([x], drop 1 s)
       else if c = CHR '','' then bind_result (elements pv k (drop 1 s)) (\<lambda>(xs, s). Inr (x # xs, s))
       else Inl (Msg (''expected '' @ [CHR 0x27, CHR '','', CHR 0x27] @ '' or '' @ [CHR 0x27, CHR '']'', CHR 0x27] @ '' in array'')))"

fun members :: "nat \<Rightarrow> (string \<Rightarrow> json parse_result) \<Rightarrow> nat \<Rightarrow> string \<Rightarrow> (string \<times> json) list parse_result" where
  "members n pv 0 s = Inl Out_Of_Fuel"
| "members n pv (Suc k) s =
     bind_result (parse_string n (skip_ws s)) (\<lambda>(key, s).
     bind_result (expect n (CHR '':'') s) (\<lambda>s.
     bind_result (pv s) (\<lambda>(v, s).
       let s = skip_ws s; c = peek s in
       if c = CHR ''}'' then Inr ([(key, v)], drop 1 s)
       else if c = CHR '','' then bind_result (members n pv k (drop 1 s)) (\<lambda>(ms, s). Inr ((key, v) # ms, s))
       else Inl (Msg (''expected '' @ [CHR 0x27, CHR '','', CHR 0x27] @ '' or '' @ [CHR 0x27, CHR ''}'', CHR 0x27] @ '' in object'')))))"

text \<open>Later members replace earlier ones with the same key.\<close>

definition object_of :: "(string \<times> json) list \<Rightarrow> json" where
  "object_of ms = JObject (fold (\<lambda>(k, v). AList.update k v) ms [])"

definition parse_array :: "nat \<Rightarrow> (string \<Rightarrow> json parse_result) \<Rightarrow> string \<Rightarrow> json parse_result" where
  "parse_array n pv s =
     bind_result (expect n (CHR ''['') s) (\<lambda>s.
       let s = skip_ws s in
       if peek s = CHR '']'' then Inr (JArray [], drop 1 s)
       else bind_result (elements pv (Suc (length s)) s) (\<lambda>(xs, s). Inr (JArray xs, s)))"

definition parse_object :: "nat \<Rightarrow> (string \<Rightarrow> json parse_result) \<Rightarrow> string \<Rightarrow> json parse_result" where
  "parse_object n pv s =
     bind_result (expect n (CHR ''{'') s) (\<lambda>s.
       let s = skip_ws s in
       if peek s = CHR ''}'' then Inr (JObject [], drop 1 s)
       else bind_result (members n pv (Suc (length s)) s) (\<lambda>(ms, s). Inr (object_of ms, s)))"

definition kMaxDepth :: nat where
  "kMaxDepth = 128"

text \<open>A value with \<open>d\<close> levels of nesting left.\<close>

fun parse_value :: "double_ops \<Rightarrow> nat \<Rightarrow> nat \<Rightarrow> string \<Rightarrow> json parse_result" where
  "parse_value ops n d s0 =
     (let s = skip_ws s0; c = peek s in
      if c = QUOTE then bind_result (parse_string n s) (\<lambda>(t, s). Inr (JString t, s))
      else if c = CHR ''{'' then
        (case d of 0 \<Rightarrow> Inl (Msg ''max nesting depth exceeded'') | Suc d' \<Rightarrow> parse_object n (parse_value ops n d') s)
      else if c = CHR ''['' then
        (case d of 0 \<Rightarrow> Inl (Msg ''max nesting depth exceeded'') | Suc d' \<Rightarrow> parse_array n (parse_value ops n d') s)
      else if c = CHR ''t'' \<or> c = CHR ''f'' then parse_bool s
      else if c = CHR ''n'' then parse_null s
      else if c = CHR ''-'' \<or> is_digit c then parse_number ops s
      else Inl (Msg (''unexpected character '' @ [CHR 0x27, c, CHR 0x27])))"

declare parse_value.simps [simp del]

text \<open>The value and the error of \<open>JsonValue::parse\<close>; the text after the value is not looked at.\<close>

definition json_parse :: "double_ops \<Rightarrow> string \<Rightarrow> json \<times> string" where
  "json_parse ops s =
     (if skip_ws s = [] then (JNull, ''unexpected end of input'')
      else case parse_value ops (length s) kMaxDepth (skip_ws s) of
        Inr (j, rest) \<Rightarrow> (j, [])
      | Inl (Msg e) \<Rightarrow> (JNull, if e = [] then ''json parse error'' else e)
      | Inl Out_Of_Fuel \<Rightarrow> (JNull, ''out of fuel''))"

end
