(* ===== verification/Http_Parse.thy ===== *)
theory Http_Parse
  imports Json
begin

text \<open>
  The request parser of \<open>src/server/http_server.cpp\<close> (\<open>parse_http_request\<close>,
  \<open>parse_query_string\<close>) and the helpers of \<open>include/quant/http_parse.h\<close>. Headers and query
  parameters are only looked up and assigned, so a hash table of them is a partial map.
\<close>

section \<open>Strings\<close>

abbreviation "CR \<equiv> CHR 0x0D"
abbreviation "LF \<equiv> CHR 0x0A"
abbreviation "TAB \<equiv> CHR 0x09"

definition CRLF :: string where
  "CRLF = [CR, LF]"

fun find_sub :: "string \<Rightarrow> string \<Rightarrow> nat option" where
  "find_sub pat [] = (if pat = [] then Some 0 else None)"
| "find_sub pat (c # s) =
     (if take (length pat) (c # s) = pat then Some 0 else map_option Suc (find_sub pat s))"

definition find_from :: "string \<Rightarrow> string \<Rightarrow> nat \<Rightarrow> nat option" where
  "find_from pat s pos = map_option (\<lambda>i. pos + i) (find_sub pat (drop pos s))"

definition lower_char :: "char \<Rightarrow> char" where
  "lower_char c = (let n = of_char c :: nat in if 65 \<le> n \<and> n \<le> 90 then char_of (n + 32) else c)"

definition is_blank :: "char \<Rightarrow> bool" where
  "is_blank c \<longleftrightarrow> c = CHR '' '' \<or> c = TAB"

definition trim :: "string \<Rightarrow> string" where
  "trim s = rev (dropWhile is_blank (rev (dropWhile is_blank s)))"

text \<open>The pieces between separators, as \<open>std::getline\<close> yields them: no piece after a final separator.\<close>

function pieces :: "char \<Rightarrow> string \<Rightarrow> string list" where
  "pieces sep s =
     (case dropWhile (\<lambda>c. c \<noteq> sep) s of
        [] \<Rightarrow> if s = [] then [] else [s]
      | _ # t \<Rightarrow> takeWhile (\<lambda>c. c \<noteq> sep) s # pieces sep t)"
  by pat_completeness auto
termination
proof (relation "measure (\<lambda>(sep, s). length s)", goal_cases)
  case (2 sep s c t)
  then show ?case using length_dropWhile_le [of "\<lambda>c. c \<noteq> sep" s] by simp
qed simp

declare pieces.simps [simp del]

section \<open>Query strings\<close>

definition hex_digit :: "char \<Rightarrow> int" where
  "hex_digit c =
     (let n = int (of_char c) in
      if 48 \<le> n \<and> n \<le> 57 then n - 48
      else if 97 \<le> n \<and> n \<le> 102 then n - 97 + 10
      else if 65 \<le> n \<and> n \<le> 70 then n - 65 + 10
      else - 1)"

fun url_decode :: "string \<Rightarrow> string" where
  "url_decode [] = []"
| "url_decode (c # s) =
     (if c = CHR ''+'' then CHR '' '' # url_decode s
      else if c = CHR ''%'' then
        (case s of
           h # l # t \<Rightarrow>
             if hex_digit h \<ge> 0 \<and> hex_digit l \<ge> 0
             then char_of (nat (hex_digit h * 16 + hex_digit l)) # url_decode t
             else c # url_decode s
         | _ \<Rightarrow> c # url_decode s)
      else c # url_decode s)"

definition add_pair :: "string \<Rightarrow> (string \<rightharpoonup> string) \<Rightarrow> (string \<rightharpoonup> string)" where
  "add_pair p m =
     (if CHR ''='' \<in> set p
      then m(url_decode (takeWhile (\<lambda>c. c \<noteq> CHR ''='') p) \<mapsto> url_decode (tl (dropWhile (\<lambda>c. c \<noteq> CHR ''='') p)))
      else if p \<noteq> [] then m(url_decode p \<mapsto> [])
      else m)"

definition parse_query_string :: "string \<Rightarrow> (string \<rightharpoonup> string)" where
  "parse_query_string qs = fold add_pair (pieces (CHR ''&'') qs) Map.empty"

section \<open>Requests\<close>

record http_request =
  rq_method :: string
  rq_path :: string
  rq_body :: string
  rq_headers :: "string \<rightharpoonup> string"
  rq_query :: "string \<rightharpoonup> string"

definition empty_request :: http_request where
  "empty_request = \<lparr>rq_method = [], rq_path = [], rq_body = [], rq_headers = Map.empty, rq_query = Map.empty\<rparr>"

definition request_line :: "string \<Rightarrow> http_request \<Rightarrow> http_request" where
  "request_line line req =
     (if CHR '' '' \<notin> set line then req
      else
        (let method = takeWhile (\<lambda>c. c \<noteq> CHR '' '') line;
             rest = tl (dropWhile (\<lambda>c. c \<noteq> CHR '' '') line);
             path = takeWhile (\<lambda>c. c \<noteq> CHR '' '') rest;
             req = req\<lparr>rq_method := method, rq_path := path\<rparr> in
         if CHR ''?'' \<in> set path
         then req\<lparr>rq_query := parse_query_string (tl (dropWhile (\<lambda>c. c \<noteq> CHR ''?'') path)),
                  rq_path := takeWhile (\<lambda>c. c \<noteq> CHR ''?'') path\<rparr>
         else req))"

text \<open>A header line with the key and value found, or a continuation of the last header.\<close>

definition header_line :: "string \<Rightarrow> string \<times> http_request \<Rightarrow> string \<times> http_request" where
  "header_line line = (\<lambda>(last_key, req).
     (if is_blank (hd line) then
        (if last_key \<noteq> [] then
           (case rq_headers req last_key of
              None \<Rightarrow> (last_key, req)
            | Some v \<Rightarrow>
               if dropWhile is_blank line \<noteq> []
               then (last_key, req\<lparr>rq_headers := (rq_headers req)(last_key \<mapsto> v @ '' '' @ dropWhile is_blank line)\<rparr>)
               else (last_key, req))
         else (last_key, req))
      else if CHR '':'' \<in> set line then
        (let key = takeWhile (\<lambda>c. c \<noteq> CHR '':'') line; val = tl (dropWhile (\<lambda>c. c \<noteq> CHR '':'') line) in
         if dropWhile is_blank key \<noteq> [] \<and> dropWhile is_blank val \<noteq> []
         then (let k = map lower_char (trim key) in (k, req\<lparr>rq_headers := (rq_headers req)(k \<mapsto> trim val)\<rparr>))
         else (last_key, req))
      else (last_key, req)))"

definition handle_line :: "string \<Rightarrow> bool \<times> string \<times> http_request \<Rightarrow> bool \<times> string \<times> http_request" where
  "handle_line line = (\<lambda>(first_line, last_key, req).
     (let line = (if line \<noteq> [] \<and> last line = CR then butlast line else line) in
      if line = [] then (first_line, last_key, req)
      else if first_line then (False, last_key, request_line line req)
      else (False, header_line line (last_key, req))))"

definition parse_http_request :: "string \<Rightarrow> http_request" where
  "parse_http_request raw =
     (let (header_section, body) =
        (case find_sub (CRLF @ CRLF) raw of
           Some i \<Rightarrow> (take i raw, drop (i + 4) raw)
         | None \<Rightarrow> (raw, []))
      in snd (snd (fold handle_line (pieces LF header_section) (True, [], empty_request\<lparr>rq_body := body\<rparr>))))"

section \<open>The shared header helpers\<close>

definition status_text :: "int \<Rightarrow> string" where
  "status_text code =
     (if code = 200 then ''OK'' else if code = 201 then ''Created'' else if code = 204 then ''No Content''
      else if code = 301 then ''Moved Permanently'' else if code = 400 then ''Bad Request''
      else if code = 401 then ''Unauthorized'' else if code = 403 then ''Forbidden''
      else if code = 404 then ''Not Found'' else if code = 405 then ''Method Not Allowed''
      else if code = 408 then ''Request Timeout'' else if code = 413 then ''Payload Too Large''
      else if code = 414 then ''URI Too Long'' else if code = 415 then ''Unsupported Media Type''
      else if code = 429 then ''Too Many Requests''
      else if code = 431 then ''Request Header Fields Too Large''
      else if code = 500 then ''Internal Server Error'' else if code = 501 then ''Not Implemented''
      else if code = 502 then ''Bad Gateway'' else if code = 503 then ''Service Unavailable''
      else ''Unknown'')"

text \<open>The digits of \<open>parse_content_length\<close>, left as soon as the value exceeds the limit.\<close>

fun content_digits :: "int \<Rightarrow> string \<Rightarrow> bool \<Rightarrow> int \<Rightarrow> int" where
  "content_digits max_body [] any v = (if any then v else - 1)"
| "content_digits max_body (c # s) any v =
     (if is_digit c then
        (let v = v * 10 + (int (of_char c) - 48) in
         if v > max_body then v else content_digits max_body s True v)
      else if any then v else - 1)"

definition parse_content_length :: "string \<Rightarrow> int \<Rightarrow> int" where
  "parse_content_length header_section max_body =
     (let lower = map lower_char header_section in
      case find_sub ''content-length:'' lower of
        None \<Rightarrow> 0
      | Some pos \<Rightarrow> content_digits max_body (dropWhile is_blank (drop (pos + 15) lower)) False 0)"

end
