(* ===== verification/Http_Limits.thy ===== *)
theory Http_Limits
  imports Http_Parse
begin

text \<open>
  The two admission controls of \<open>src/server/http_server.cpp\<close>: the token bucket per address
  (\<open>RateLimiter\<close>) and the cap on concurrent requests (\<open>try_acquire_slot\<close>, \<open>release_slot\<close>,
  \<open>set_max_concurrent\<close>). Times are ticks of the steady clock in nanoseconds.
\<close>

section \<open>The token bucket\<close>

record bucket =
  bk_tokens :: int
  bk_max :: int
  bk_last :: int

record limiter =
  rl_rps :: int
  rl_burst :: int
  rl_buckets :: "string \<rightharpoonup> bucket"

definition limiter_new :: "int \<Rightarrow> int \<Rightarrow> limiter" where
  "limiter_new rps burst = \<lparr>rl_rps = rps, rl_burst = burst, rl_buckets = Map.empty\<rparr>"

definition bucket_new :: bucket where
  "bucket_new = \<lparr>bk_tokens = 0, bk_max = 0, bk_last = 0\<rparr>"

definition bucket_init :: "int \<Rightarrow> limiter \<Rightarrow> bucket \<Rightarrow> bucket" where
  "bucket_init now l b =
     (if bk_max b = 0
      then (let m = (if rl_burst l > 0 then rl_burst l else rl_rps l)
            in \<lparr>bk_tokens = m, bk_max = m, bk_last = now\<rparr>)
      else b)"

text \<open>
  Tokens, rates and the product of rate and time are \<open>int64_t\<close>. Where a sum or product leaves that
  range C++ leaves the behaviour open; here it wraps, as two's complement arithmetic does, and the
  property below is about limits and times for which nothing leaves the range.
\<close>

definition wrap64 :: "int \<Rightarrow> int" where
  "wrap64 x = signed_take_bit 63 x"

lemma wrap64_id: "- (2 ^ 63) \<le> x \<Longrightarrow> x < 2 ^ 63 \<Longrightarrow> wrap64 x = x"
  unfolding wrap64_def by (rule signed_take_bit_int_eq_self)

definition bucket_refill :: "int \<Rightarrow> int \<Rightarrow> bucket \<Rightarrow> bucket" where
  "bucket_refill now rps b =
     (let elapsed = (now - bk_last b) div 1000000; refill = wrap64 (elapsed * rps) div 1000 in
      if refill > 0 then b\<lparr>bk_tokens := min (bk_max b) (wrap64 (bk_tokens b + refill)), bk_last := now\<rparr> else b)"

definition limiter_allow :: "int \<Rightarrow> string \<Rightarrow> limiter \<Rightarrow> bool \<times> limiter" where
  "limiter_allow now ip l =
     (if rl_rps l \<le> 0 then (True, l)
      else
        (let b = (case rl_buckets l ip of Some b \<Rightarrow> b | None \<Rightarrow> bucket_new);
             b = bucket_refill now (rl_rps l) (bucket_init now l b) in
         if bk_tokens b > 0
         then (True, l\<lparr>rl_buckets := (rl_buckets l)(ip \<mapsto> b\<lparr>bk_tokens := bk_tokens b - 1\<rparr>)\<rparr>)
         else (False, l\<lparr>rl_buckets := (rl_buckets l)(ip \<mapsto> b)\<rparr>)))"

definition limiter_set_limits :: "int \<Rightarrow> int \<Rightarrow> limiter \<Rightarrow> limiter" where
  "limiter_set_limits rps burst l = l\<lparr>rl_rps := rps, rl_burst := burst\<rparr>"

text \<open>The answers to a sequence of requests, each with its time and address.\<close>

fun limiter_run :: "(int \<times> string) list \<Rightarrow> limiter \<Rightarrow> (string \<times> bool) list \<times> limiter" where
  "limiter_run [] l = ([], l)"
| "limiter_run ((now, ip) # rs) l =
     (let (ok, l) = limiter_allow now ip l; (answers, l) = limiter_run rs l in ((ip, ok) # answers, l))"

definition allowed :: "string \<Rightarrow> (string \<times> bool) list \<Rightarrow> int" where
  "allowed ip answers = int (length (filter (\<lambda>a. a = (ip, True)) answers))"

text \<open>The capacity of a bucket, and the bucket an address has or would get.\<close>

definition capacity :: "limiter \<Rightarrow> int" where
  "capacity l = (if rl_burst l > 0 then rl_burst l else rl_rps l)"

definition bucket_ok :: "limiter \<Rightarrow> bucket \<Rightarrow> bool" where
  "bucket_ok l b \<longleftrightarrow> bk_max b = capacity l \<and> 0 \<le> bk_tokens b \<and> bk_tokens b \<le> capacity l"

text \<open>No overflow between \<open>t0\<close> and \<open>now\<close>.\<close>

definition limits_fit :: "int \<Rightarrow> int \<Rightarrow> int \<Rightarrow> int \<Rightarrow> bool" where
  "limits_fit t0 now rps c \<longleftrightarrow> c + rps * ((now - t0) div 1000000) < 2 ^ 63"

lemma limits_fit_mono:
  assumes "limits_fit t0 t1 rps c" and "now \<le> t1" and "0 < rps"
  shows "limits_fit t0 now rps c"
proof -
  have "(now - t0) div 1000000 \<le> (t1 - t0) div 1000000" using assms(2) by (intro zdiv_mono1) simp_all
  then have "rps * ((now - t0) div 1000000) \<le> rps * ((t1 - t0) div 1000000)" using assms(3) by simp
  then show ?thesis using assms(1) by (simp add: limits_fit_def)
qed

lemma refill_exact:
  assumes "t0 \<le> bk_last b" and "bk_last b \<le> now" and "0 < rps" and "bucket_ok l b"
    and "limits_fit t0 now rps (capacity l)"
  shows "bucket_refill now rps b =
    (let refill = (now - bk_last b) div 1000000 * rps div 1000 in
      if refill > 0 then b\<lparr>bk_tokens := min (bk_max b) (bk_tokens b + refill), bk_last := now\<rparr> else b)"
proof -
  define p where "p = (now - bk_last b) div 1000000 * rps"
  have "(now - bk_last b) div 1000000 \<le> (now - t0) div 1000000" using assms(1) by (intro zdiv_mono1) simp_all
  then have "p \<le> rps * ((now - t0) div 1000000)" using assms(3) by (simp add: p_def mult.commute)
  moreover have "0 \<le> bk_tokens b" "bk_tokens b \<le> capacity l" using assms(4) by (simp_all add: bucket_ok_def)
  ultimately have top: "bk_tokens b + p < 2 ^ 63" "0 \<le> bk_tokens b" using assms(5) by (simp_all add: limits_fit_def)
  have p: "0 \<le> p" using assms(2,3) by (simp add: p_def)
  then have "p div 1000 \<le> p" by simp
  then have "wrap64 p = p" "wrap64 (bk_tokens b + p div 1000) = bk_tokens b + p div 1000"
    using top p by (auto intro!: wrap64_id)
  then show ?thesis by (simp add: bucket_refill_def Let_def p_def)
qed

lemma refill_bound:
  assumes "t0 \<le> bk_last b" and "bk_last b \<le> now" and "0 < rps" and "bucket_ok l b"
    and "limits_fit t0 now rps (capacity l)"
  shows "bucket_ok l (bucket_refill now rps b)" and "t0 \<le> bk_last (bucket_refill now rps b) \<and> bk_last (bucket_refill now rps b) \<le> now"
    and "10 ^ 9 * bk_tokens (bucket_refill now rps b) - rps * bk_last (bucket_refill now rps b) \<le>
      10 ^ 9 * bk_tokens b - rps * bk_last b"
    and "bk_tokens b \<le> bk_tokens (bucket_refill now rps b)"
proof -
  define e where "e = (now - bk_last b) div 1000000"
  define r where "r = e * rps div 1000"
  have e: "1000000 * e \<le> now - bk_last b" by (simp add: e_def)
  have "1000 * r \<le> e * rps" by (simp add: r_def)
  then have "1000000 * (1000 * r) \<le> 1000000 * e * rps" by simp
  also have "\<dots> \<le> (now - bk_last b) * rps" using mult_right_mono [OF e, of rps] assms(3) by simp
  finally have r: "10 ^ 9 * r \<le> rps * (now - bk_last b)" by (simp add: mult.commute)
  have eq: "bucket_refill now rps b =
      (if r > 0 then b\<lparr>bk_tokens := min (bk_max b) (bk_tokens b + r), bk_last := now\<rparr> else b)"
    unfolding refill_exact [OF assms] by (simp add: e_def r_def Let_def)
  show "bucket_ok l (bucket_refill now rps b)" "t0 \<le> bk_last (bucket_refill now rps b) \<and> bk_last (bucket_refill now rps b) \<le> now"
    "bk_tokens b \<le> bk_tokens (bucket_refill now rps b)"
    using assms unfolding eq by (auto simp: bucket_ok_def)
  have "10 ^ 9 * min (bk_max b) (bk_tokens b + r) \<le> 10 ^ 9 * bk_tokens b + 10 ^ 9 * r"
    unfolding distrib_left [symmetric] by (rule mult_left_mono) simp_all
  with r show "10 ^ 9 * bk_tokens (bucket_refill now rps b) - rps * bk_last (bucket_refill now rps b) \<le>
      10 ^ 9 * bk_tokens b - rps * bk_last b"
    unfolding eq by (simp add: right_diff_distrib)
qed

text \<open>What a bucket can still grant, in billionths, discounting the time since \<open>t0\<close>.\<close>

definition credit :: "int \<Rightarrow> limiter \<Rightarrow> string \<Rightarrow> int" where
  "credit t0 l ip =
     (case rl_buckets l ip of
        None \<Rightarrow> 10 ^ 9 * capacity l
      | Some b \<Rightarrow> 10 ^ 9 * bk_tokens b - rl_rps l * (bk_last b - t0))"

definition limiter_ok :: "int \<Rightarrow> int \<Rightarrow> limiter \<Rightarrow> bool" where
  "limiter_ok t0 now l \<longleftrightarrow> 0 < rl_rps l \<and> 0 \<le> rl_burst l \<and>
     (\<forall>ip b. rl_buckets l ip = Some b \<longrightarrow> bucket_ok l b \<and> t0 \<le> bk_last b \<and> bk_last b \<le> now)"

definition tokens_of :: "limiter \<Rightarrow> string \<Rightarrow> int" where
  "tokens_of l ip = (case rl_buckets l ip of None \<Rightarrow> capacity l | Some b \<Rightarrow> bk_tokens b)"

lemma allow_step:
  assumes ok: "limiter_ok t0 t l" and t: "t \<le> now" "t0 \<le> now" and fit: "limits_fit t0 now (rl_rps l) (capacity l)" and a: "limiter_allow now ip l = (r, l')"
  shows "limiter_ok t0 now l'" and "capacity l' = capacity l" and "rl_rps l' = rl_rps l"
    and "credit t0 l' ip + (if r then 10 ^ 9 else 0) \<le> credit t0 l ip"
    and "tokens_of l ip \<le> tokens_of l' ip + (if r then 1 else 0)" and "0 < tokens_of l ip \<Longrightarrow> r"
    and "ip' \<noteq> ip \<Longrightarrow> credit t0 l' ip' = credit t0 l ip' \<and> tokens_of l' ip' = tokens_of l ip'"
proof -
  have rps: "0 < rl_rps l" and cap: "0 < capacity l" using ok by (auto simp: limiter_ok_def capacity_def)
  define b0 where "b0 = (case rl_buckets l ip of Some b \<Rightarrow> b | None \<Rightarrow> bucket_new)"
  define b1 where "b1 = bucket_init now l b0"
  define b2 where "b2 = bucket_refill now (rl_rps l) b1"
  define b3 where "b3 = (if bk_tokens b2 > 0 then b2\<lparr>bk_tokens := bk_tokens b2 - 1\<rparr> else b2)"
  have a': "r = (bk_tokens b2 > 0)" "l' = l\<lparr>rl_buckets := (rl_buckets l)(ip \<mapsto> b3)\<rparr>"
    using a rps unfolding limiter_allow_def b3_def b2_def b1_def b0_def by (auto simp: Let_def split: if_splits)
  have b1: "bucket_ok l b1 \<and> t0 \<le> bk_last b1 \<and> bk_last b1 \<le> now \<and>
    10 ^ 9 * bk_tokens b1 - rl_rps l * (bk_last b1 - t0) \<le> credit t0 l ip \<and> bk_tokens b1 = tokens_of l ip"
  proof (cases "rl_buckets l ip")
    case None
    then have "b1 = \<lparr>bk_tokens = capacity l, bk_max = capacity l, bk_last = now\<rparr>"
      by (simp add: b1_def b0_def bucket_init_def bucket_new_def capacity_def Let_def)
    then show ?thesis using None cap rps t by (simp add: bucket_ok_def credit_def tokens_of_def)
  next
    case (Some b)
    then have b: "bucket_ok l b" "t0 \<le> bk_last b" "bk_last b \<le> t" using ok by (simp_all add: limiter_ok_def)
    then have "b1 = b" using Some cap by (simp add: b1_def b0_def bucket_init_def bucket_ok_def)
    then show ?thesis using Some b t by (simp add: credit_def tokens_of_def)
  qed
  have ref0: "t0 \<le> bk_last b1" "bk_last b1 \<le> now" "bucket_ok l b1" using b1 by simp_all
  note ref = refill_bound [OF ref0(1,2) rps ref0(3) fit, folded b2_def]
  have b2: "bucket_ok l b2" "t0 \<le> bk_last b2 \<and> bk_last b2 \<le> now" "tokens_of l ip \<le> bk_tokens b2"
    "10 ^ 9 * bk_tokens b2 - rl_rps l * (bk_last b2 - t0) \<le> credit t0 l ip"
    using ref b1 rps by (simp_all add: right_diff_distrib)
  have b3: "bucket_ok l b3" "t0 \<le> bk_last b3 \<and> bk_last b3 \<le> now" using b2 by (auto simp: b3_def bucket_ok_def)
  have same: "capacity l' = capacity l" "rl_rps l' = rl_rps l" by (simp_all add: a' capacity_def)
  show "capacity l' = capacity l" "rl_rps l' = rl_rps l" by (rule same)+
  have bo: "bucket_ok l' b = bucket_ok l b" for b by (simp add: bucket_ok_def same)
  show "limiter_ok t0 now l'"
    using ok b3 t(1) unfolding limiter_ok_def bo by (auto simp: a' intro: order_trans)
  show "credit t0 l' ip + (if r then 10 ^ 9 else 0) \<le> credit t0 l ip"
    using b2(4) by (simp add: credit_def a' b3_def)
  show "tokens_of l ip \<le> tokens_of l' ip + (if r then 1 else 0)"
  proof -
    have "tokens_of l' ip = bk_tokens b3" by (simp add: tokens_of_def a'(2))
    then show ?thesis using b2(3) by (simp add: a'(1) b3_def)
  qed
  show "r" if "0 < tokens_of l ip" using b2(3) that by (simp add: a')
  show "credit t0 l' ip' = credit t0 l ip' \<and> tokens_of l' ip' = tokens_of l ip'" if "ip' \<noteq> ip"
  proof -
    have "rl_buckets l' ip' = rl_buckets l ip'" using that by (simp add: a'(2))
    then show ?thesis unfolding credit_def tokens_of_def same by simp
  qed
qed

lemma limiter_run_bounds:
  assumes "limiter_ok t0 t l" and "sorted (map fst reqs)" and "\<forall>r \<in> set reqs. t \<le> fst r \<and> t0 \<le> fst r \<and> fst r \<le> t1"
    and "t \<le> t1" and "t0 \<le> t1" and "limiter_run reqs l = (answers, l')"
    and "limits_fit t0 t1 (rl_rps l) (capacity l)"
  shows "10 ^ 9 * allowed ip answers \<le> credit t0 l ip + rl_rps l * (t1 - t0) \<and>
    min (tokens_of l ip) (int (length (filter (\<lambda>r. snd r = ip) reqs))) \<le> allowed ip answers"
  using assms
proof (induction reqs arbitrary: t l answers)
  case Nil
  have "- (rl_rps l * (t1 - t0)) \<le> credit t0 l ip"
  proof (cases "rl_buckets l ip")
    case None
    have "0 \<le> rl_rps l * (t1 - t0)" "0 < capacity l" using Nil.prems by (auto simp: limiter_ok_def capacity_def)
    then show ?thesis using None by (simp add: credit_def)
  next
    case (Some b)
    then have "0 \<le> bk_tokens b" "bk_last b \<le> t1" "0 < rl_rps l"
      using Nil.prems by (auto simp: limiter_ok_def bucket_ok_def intro: order_trans)
    then have "rl_rps l * (bk_last b - t0) \<le> rl_rps l * (t1 - t0)" by simp
    then show ?thesis using Some \<open>0 \<le> bk_tokens b\<close> by (simp add: credit_def)
  qed
  then show ?case using Nil.prems by (simp add: allowed_def)
next
  case (Cons r reqs)
  obtain now q where r: "r = (now, q)" by (cases r)
  obtain ok l1 where a: "limiter_allow now q l = (ok, l1)" by (metis surj_pair)
  obtain as l2 where run: "limiter_run reqs l1 = (as, l2)" by (metis surj_pair)
  have ans: "answers = (q, ok) # as" "l2 = l'" using Cons.prems(6) by (simp_all add: r a run)
  have count: "allowed ip answers = (if q = ip \<and> ok then 1 else 0) + allowed ip as"
    by (simp add: allowed_def ans)
  have times: "\<forall>x \<in> set reqs. now \<le> fst x \<and> t0 \<le> fst x \<and> fst x \<le> t1" "t \<le> now" "t0 \<le> now" "now \<le> t1"
    using Cons.prems(2,3) by (auto simp: r)
  have "0 < rl_rps l" using Cons.prems(1) by (simp add: limiter_ok_def)
  note fit = limits_fit_mono [OF Cons.prems(7) times(4) this]
  note st = allow_step [OF Cons.prems(1) times(2,3) fit a]
  have fit1: "limits_fit t0 t1 (rl_rps l1) (capacity l1)" using Cons.prems(7) st(2,3) by simp
  have so: "sorted (map fst reqs)" using Cons.prems(2) by simp
  have IH: "10 ^ 9 * allowed ip as \<le> credit t0 l1 ip + rl_rps l1 * (t1 - t0)"
    "min (tokens_of l1 ip) (int (length (filter (\<lambda>r. snd r = ip) reqs))) \<le> allowed ip as"
    using Cons.IH [OF st(1) so times(1,4) Cons.prems(5) run [unfolded ans(2)] fit1] by blast+
  have "10 ^ 9 * allowed ip answers \<le> credit t0 l ip + rl_rps l * (t1 - t0)"
    using IH(1) st(3,4) st(7) [of ip] by (cases "q = ip"; cases ok) (auto simp: count)
  moreover have drained: "ok \<or> tokens_of l q \<le> 0" using st(6) by fastforce
  have "0 \<le> allowed ip as" by (simp add: allowed_def)
  then have "min (tokens_of l ip) (int (length (filter (\<lambda>r. snd r = ip) (r # reqs)))) \<le> allowed ip answers"
    using IH(2) st(5) st(7) [of ip] drained by (cases "q = ip"; cases ok) (auto simp: r count)
  ultimately show ?case by blast
qed

text \<open>
  C39: the rate limiter is a token bucket: for requests at non-decreasing times from any
  addresses, with \<open>r\<close> requests a second and burst \<open>c\<close> (\<open>r\<close> if no burst is set), each address is
  granted at most \<open>c + r * d\<close> of the requests it makes in \<open>d\<close> seconds, and never fewer than
  \<open>c\<close> of them, whatever the other addresses do, provided that \<open>c\<close> and \<open>r\<close> times the milliseconds
  between the first and the last request together stay below \<open>2 ^ 63\<close>.
\<close>

theorem limiter_token_bucket:
  assumes "0 < rps" and "0 \<le> burst" and "sorted (map fst reqs)" and "\<forall>r \<in> set reqs. t0 \<le> fst r \<and> fst r \<le> t1"
    and "t0 \<le> t1" and "limiter_run reqs (limiter_new rps burst) = (answers, l')"
  defines "c \<equiv> (if burst > 0 then burst else rps)"
  assumes "c + rps * ((t1 - t0) div 1000000) < 2 ^ 63"
  shows "10 ^ 9 * allowed ip answers \<le> 10 ^ 9 * c + rps * (t1 - t0) \<and>
    min c (int (length (filter (\<lambda>r. snd r = ip) reqs))) \<le> allowed ip answers"
proof -
  let ?l = "limiter_new rps burst"
  have ok: "limiter_ok t0 t0 ?l" using assms(1,2) by (simp add: limiter_ok_def limiter_new_def)
  have times: "\<forall>r \<in> set reqs. t0 \<le> fst r \<and> t0 \<le> fst r \<and> fst r \<le> t1" using assms(4) by simp
  have l: "credit t0 ?l ip = 10 ^ 9 * c" "tokens_of ?l ip = c" "rl_rps ?l = rps" "capacity ?l = c"
    by (simp_all add: credit_def tokens_of_def limiter_new_def capacity_def c_def)
  then have "limits_fit t0 t1 (rl_rps ?l) (capacity ?l)" using assms(8) by (simp add: limits_fit_def)
  then show ?thesis
    using limiter_run_bounds [OF ok assms(3) times assms(5,5,6), of ip] l by simp
qed

text \<open>Without the proviso the limiter refuses what it should grant: here the second request.\<close>

lemma limiter_overflows:
  "fst (limiter_run [(0, ''a''), (10000000, ''a'')] (limiter_new 1000 (2 ^ 63 - 1))) = [(''a'', True), (''a'', False)]"
  by code_simp

theorem limiter_token_bucket_witness:
  "fst (limiter_run [(0, ''a''), (0, ''a''), (10, ''b''), (600000000, ''a'')] (limiter_new 2 1)) =
     [(''a'', True), (''a'', False), (''b'', True), (''a'', True)] \<and>
   10 ^ 9 * allowed ''a'' [(''a'', True), (''a'', False), (''b'', True), (''a'', True)] \<le> 10 ^ 9 * 1 + 2 * (600000000 - 0)"
proof -
  have run: "fst (limiter_run [(0, ''a''), (0, ''a''), (10, ''b''), (600000000, ''a'')] (limiter_new 2 1)) =
     [(''a'', True), (''a'', False), (''b'', True), (''a'', True)]"
    by code_simp
  then obtain l' where "limiter_run [(0, ''a''), (0, ''a''), (10, ''b''), (600000000, ''a'')] (limiter_new 2 1) =
      ([(''a'', True), (''a'', False), (''b'', True), (''a'', True)], l')" by (metis prod.collapse)
  from limiter_token_bucket [OF _ _ _ _ _ this, of 0 600000000 "''a''"] run show ?thesis by simp
qed

section \<open>The cap on concurrent requests\<close>

text \<open>
  A request in \<open>handle_request\<close>: outside, with the cap read, in the compare-and-exchange loop with
  the count it saw, admitted, and leaving with the cap read again.
\<close>

datatype slot_pc = Away | Cap_Read int | Trying int int | Admitted | Leaving int

record slots =
  sl_cap :: int                \<comment> \<open>\<open>max_concurrent_\<close>\<close>
  sl_current :: int            \<comment> \<open>\<open>current_requests_\<close>\<close>
  sl_pc :: "nat \<Rightarrow> slot_pc"

definition set_max_concurrent :: "int \<Rightarrow> slots \<Rightarrow> slots" where
  "set_max_concurrent n s =
     (let cap = (if n > 0 then n else 0) in
      s\<lparr>sl_cap := cap, sl_current := (if cap = 0 then 0 else sl_current s)\<rparr>)"

inductive slot_step :: "slots \<Rightarrow> slots \<Rightarrow> bool" where
  read_cap: "sl_pc s t = Away \<Longrightarrow> slot_step s (s\<lparr>sl_pc := (sl_pc s)(t := Cap_Read (sl_cap s))\<rparr>)"
| unlimited: "sl_pc s t = Cap_Read cap \<Longrightarrow> cap \<le> 0 \<Longrightarrow> slot_step s (s\<lparr>sl_pc := (sl_pc s)(t := Admitted)\<rparr>)"
| load: "sl_pc s t = Cap_Read cap \<Longrightarrow> cap > 0 \<Longrightarrow>
    slot_step s (s\<lparr>sl_pc := (sl_pc s)(t := Trying cap (sl_current s))\<rparr>)"
| exchanged: "sl_pc s t = Trying cap cur \<Longrightarrow> cur < cap \<Longrightarrow> sl_current s = cur \<Longrightarrow>
    slot_step s (s\<lparr>sl_current := cur + 1, sl_pc := (sl_pc s)(t := Admitted)\<rparr>)"
| lost: "sl_pc s t = Trying cap cur \<Longrightarrow> cur < cap \<Longrightarrow>
    slot_step s (s\<lparr>sl_pc := (sl_pc s)(t := Trying cap (sl_current s))\<rparr>)"
| refused: "sl_pc s t = Trying cap cur \<Longrightarrow> \<not> cur < cap \<Longrightarrow> slot_step s (s\<lparr>sl_pc := (sl_pc s)(t := Away)\<rparr>)"
| finish: "sl_pc s t = Admitted \<Longrightarrow> slot_step s (s\<lparr>sl_pc := (sl_pc s)(t := Leaving (sl_cap s))\<rparr>)"
| leave_uncounted: "sl_pc s t = Leaving cap \<Longrightarrow> cap \<le> 0 \<Longrightarrow> slot_step s (s\<lparr>sl_pc := (sl_pc s)(t := Away)\<rparr>)"
| leave: "sl_pc s t = Leaving cap \<Longrightarrow> cap > 0 \<Longrightarrow>
    slot_step s (s\<lparr>sl_current := sl_current s - 1, sl_pc := (sl_pc s)(t := Away)\<rparr>)"

definition slots_init :: "int \<Rightarrow> slots" where
  "slots_init cap = \<lparr>sl_cap = cap, sl_current = 0, sl_pc = (\<lambda>_. Away)\<rparr>"

text \<open>With and without calls of \<open>set_max_concurrent\<close> in between.\<close>

inductive slots_reachable :: "bool \<Rightarrow> int \<Rightarrow> slots \<Rightarrow> bool" for reconfigure :: bool and cap :: int where
  init: "slots_reachable reconfigure cap (slots_init cap)"
| step: "slots_reachable reconfigure cap s \<Longrightarrow> slot_step s s' \<Longrightarrow> slots_reachable reconfigure cap s'"
| configure: "slots_reachable reconfigure cap s \<Longrightarrow> reconfigure \<Longrightarrow>
    slots_reachable reconfigure cap (set_max_concurrent n s)"

definition inside :: "slots \<Rightarrow> nat set" where
  "inside s = {t. sl_pc s t = Admitted \<or> (\<exists>cap. sl_pc s t = Leaving cap)}"

fun slot_pc_ok :: "int \<Rightarrow> slot_pc \<Rightarrow> bool" where
  "slot_pc_ok k (Cap_Read cap) = (cap = k)"
| "slot_pc_ok k (Trying cap cur) = (cap = k)"
| "slot_pc_ok k (Leaving cap) = (cap = k)"
| "slot_pc_ok k _ = True"

definition slots_inv :: "int \<Rightarrow> slots \<Rightarrow> bool" where
  "slots_inv k s \<longleftrightarrow> sl_cap s = k \<and> finite (inside s) \<and> sl_current s = int (card (inside s)) \<and>
     sl_current s \<le> k \<and> (\<forall>t. slot_pc_ok k (sl_pc s t))"

lemma inside_update:
  "inside (s\<lparr>sl_pc := (sl_pc s)(t := pc)\<rparr>) =
     (if pc = Admitted \<or> (\<exists>cap. pc = Leaving cap) then insert t (inside s) else inside s - {t})"
  by (auto simp: inside_def)

lemma inside_current [simp]: "inside (s\<lparr>sl_current := x\<rparr>) = inside s"
  "inside (s\<lparr>sl_current := x, sl_pc := p\<rparr>) = inside (s\<lparr>sl_pc := p\<rparr>)"
  by (simp_all add: inside_def)

lemma slots_inv_step:
  assumes "slot_step s s'" and "slots_inv k s" and "0 < k"
  shows "slots_inv k s'"
  using assms
proof (induction rule: slot_step.induct)
  case (exchanged s t cap cur)
  have "t \<notin> inside s" "cap = k" using exchanged by (auto simp: inside_def slots_inv_def dest: spec [of _ t])
  then show ?case using exchanged by (simp add: slots_inv_def inside_update)
next
  case (leave s t cap)
  then have t: "t \<in> inside s" by (simp add: inside_def)
  moreover have "finite (inside s)" using leave by (simp add: slots_inv_def)
  ultimately have "card (inside s) = Suc (card (inside s - {t}))" by (metis card.remove)
  then show ?case using leave by (simp add: slots_inv_def inside_update)
next
  case (unlimited s t cap)
  then have "cap = k" using spec [of "\<lambda>t. slot_pc_ok k (sl_pc s t)" t] by (simp add: slots_inv_def)
  then show ?case using unlimited by simp
next
  case (leave_uncounted s t cap)
  then have "cap = k" using spec [of "\<lambda>t. slot_pc_ok k (sl_pc s t)" t] by (simp add: slots_inv_def)
  then show ?case using leave_uncounted by simp
next
  case (finish s t)
  then have "t \<in> inside s" by (simp add: inside_def)
  then show ?case using finish by (simp add: slots_inv_def inside_update insert_absorb)
next
  case (read_cap s t)
  then have "t \<notin> inside s" by (simp add: inside_def)
  then show ?case using read_cap by (simp add: slots_inv_def inside_update)
next
  case (load s t cap)
  then have "t \<notin> inside s" "cap = k" using spec [of "\<lambda>t. slot_pc_ok k (sl_pc s t)" t] by (simp_all add: inside_def slots_inv_def)
  then show ?case using load by (simp add: slots_inv_def inside_update)
next
  case (lost s t cap cur)
  then have "t \<notin> inside s" "cap = k" using spec [of "\<lambda>t. slot_pc_ok k (sl_pc s t)" t] by (simp_all add: inside_def slots_inv_def)
  then show ?case using lost by (simp add: slots_inv_def inside_update)
next
  case (refused s t cap cur)
  then have "t \<notin> inside s" by (simp add: inside_def)
  then show ?case using refused by (simp add: slots_inv_def inside_update)
qed

text \<open>
  C40: the concurrency cap is a hard cap: while it is not reconfigured, in every interleaving of
  any number of requests the number admitted and not yet gone is exactly the counter and never
  exceeds the cap.
\<close>

theorem admission_cap:
  assumes "slots_reachable False cap s" and "0 < cap"
  shows "finite (inside s) \<and> sl_current s = int (card (inside s)) \<and> sl_current s \<le> cap"
proof -
  have "slots_inv cap s"
    using assms(1)
  proof (induction rule: slots_reachable.induct)
    case init
    then show ?case using assms(2) by (simp add: slots_inv_def slots_init_def inside_def)
  next
    case (step s s')
    then show ?case using slots_inv_step assms(2) by blast
  qed simp
  then show ?thesis by (simp add: slots_inv_def)
qed

lemma two_admitted:
  "slots_reachable True 0 \<lparr>sl_cap = 1, sl_current = 1, sl_pc = (\<lambda>_. Away)(1 := Admitted, 2 := Admitted)\<rparr>"
proof -
  let ?st = "\<lambda>cap cur pc. \<lparr>sl_cap = cap, sl_current = cur, sl_pc = pc\<rparr>"
  let ?A = "\<lambda>_. Away"
  note go = slots_reachable.step [where reconfigure = True and cap = 0]
  have "slots_reachable True 0 (?st 0 0 ?A)" using slots_reachable.init [of True 0] by (simp add: slots_init_def)
  then have "slots_reachable True 0 (?st 0 0 (?A(0 := Cap_Read 0)))"
    by (rule go) (use slot_step.read_cap [of "?st 0 0 ?A" 0] in simp)
  then have "slots_reachable True 0 (?st 0 0 (?A(0 := Admitted)))"
    by (rule go) (use slot_step.unlimited [of "?st 0 0 (?A(0 := Cap_Read 0))" 0 0] in simp)
  then have "slots_reachable True 0 (?st 1 0 (?A(0 := Admitted)))"
    using slots_reachable.configure [of True 0 "?st 0 0 (?A(0 := Admitted))" 1] by (simp add: set_max_concurrent_def)
  then have "slots_reachable True 0 (?st 1 0 (?A(0 := Leaving 1)))"
    by (rule go) (use slot_step.finish [of "?st 1 0 (?A(0 := Admitted))" 0] in simp)
  then have r: "slots_reachable True 0 (?st 1 (- 1) ?A)"
    by (rule go) (use slot_step.leave [of "?st 1 0 (?A(0 := Leaving 1))" 0 1] in \<open>simp add: fun_upd_idem\<close>)
  have enter: "slots_reachable True 0 (?st 1 (cur + 1) (pc(t := Admitted)))"
    if "slots_reachable True 0 (?st 1 cur pc)" "pc t = Away" "cur < 1" for cur pc t
  proof -
    have "slots_reachable True 0 (?st 1 cur (pc(t := Cap_Read 1)))"
      by (rule go [OF that(1)]) (use slot_step.read_cap [of "?st 1 cur pc" t] that(2) in simp)
    then have "slots_reachable True 0 (?st 1 cur (pc(t := Trying 1 cur)))"
      by (rule go) (use slot_step.load [of "?st 1 cur (pc(t := Cap_Read 1))" t 1] in simp)
    then show ?thesis
      by (rule go) (use slot_step.exchanged [of "?st 1 cur (pc(t := Trying 1 cur))" t 1 cur] that(3) in simp)
  qed
  have "slots_reachable True 0 (?st 1 0 (?A(1 := Admitted)))" using enter [OF r, of 1] by simp
  from enter [OF this, of 2] show ?thesis by simp
qed

text \<open>
  Reconfiguring breaks the count: a request admitted while there was no cap is not counted,
  but is subtracted when it leaves after a cap was set. The counter is then below zero, and with
  a cap of 1 two requests are admitted at once.
\<close>

theorem admission_cap_exceeded:
  "\<exists>s. slots_reachable True 0 s \<and> sl_cap s = 1 \<and> card (inside s) = 2"
proof -
  let ?s = "\<lparr>sl_cap = 1, sl_current = 1, sl_pc = (\<lambda>_. Away)(1 := Admitted, 2 := Admitted)\<rparr>"
  have "inside ?s = {1, 2}" by (auto simp: inside_def split: if_splits)
  then show ?thesis using two_admitted by (intro exI [of _ ?s]) simp
qed

theorem admission_cap_witness:
  "\<exists>s. slots_reachable False 3 s \<and> sl_current s \<le> 3"
  using admission_cap [OF slots_reachable.init [of False 3]] slots_reachable.init [of False 3] by auto

end
