(* ===== verification/Http_Server.thy ===== *)
theory Http_Server
  imports Http_Limits
begin

text \<open>
  The request path of \<open>src/server/http_server.cpp\<close>: settings, responses and event streams, the
  receive loop, the guards and routing of \<open>handle_request\<close>, and the endpoint handlers. The
  socket, the clock, the callbacks and the order of a hash table are parameters (\<open>env\<close>); what a
  request does to the socket and which callbacks it calls is its \<open>io\<close> state.
\<close>

section \<open>The surroundings of a request\<close>

datatype callback = Generate string int bool | Embed string

record io =
  io_sent :: string                \<comment> \<open>the bytes the socket has taken\<close>
  io_sends :: nat                  \<comment> \<open>the number of calls of \<open>send\<close>\<close>
  io_calls :: "callback list"      \<comment> \<open>the calls of callbacks so far\<close>

definition io_start :: io where
  "io_start = \<lparr>io_sent = [], io_sends = 0, io_calls = []\<rparr>"

datatype recv_event = Bytes string | Would_Block | Recv_Error

record env =
  ev_send :: "nat \<Rightarrow> nat \<Rightarrow> int"       \<comment> \<open>the result of the \<open>k\<close>-th \<open>send\<close> of so many bytes\<close>
  ev_recv :: "nat \<Rightarrow> int \<times> recv_event" \<comment> \<open>seconds elapsed before the \<open>k\<close>-th \<open>recv\<close>, and its result\<close>
  ev_clock :: int                     \<comment> \<open>the steady clock, for the rate limiter\<close>
  ev_time :: int                      \<comment> \<open>\<open>time(nullptr)\<close>\<close>
  ev_ip :: string                     \<comment> \<open>the address of the client\<close>
  ev_generate :: "(nat \<Rightarrow> string \<Rightarrow> int \<Rightarrow> bool \<Rightarrow> string) option"
                                      \<comment> \<open>the callback, by the number of earlier calls\<close>
  ev_embed :: "(nat \<Rightarrow> string \<Rightarrow> u32 list) option"
  ev_ops :: double_ops
  ev_double :: "u32 \<Rightarrow> u64"            \<comment> \<open>\<open>(double)\<close> of a float\<close>
  ev_order :: "(string \<times> json) list \<Rightarrow> (string \<times> json) list"
                                      \<comment> \<open>the order a hash table lists its members in\<close>

record server =
  sv_threads :: int
  sv_timeout :: int
  sv_max_body :: int
  sv_model :: string
  sv_requests :: int
  sv_errors :: int
  sv_auth :: string
  sv_max_header :: int
  sv_cap :: int
  sv_current :: int
  sv_limiter :: limiter

definition server_new :: server where
  "server_new = \<lparr>sv_threads = 4, sv_timeout = 30, sv_max_body = 4 * 1024 * 1024,
     sv_model = ''TransFormers-Fusion-default'', sv_requests = 0, sv_errors = 0, sv_auth = [],
     sv_max_header = 64 * 1024, sv_cap = 0, sv_current = 0,
     sv_limiter = limiter_set_limits 0 0 (limiter_new 0 0)\<rparr>"

section \<open>Settings\<close>

definition set_thread_pool_size :: "int \<Rightarrow> server \<Rightarrow> server" where
  "set_thread_pool_size n sv = sv\<lparr>sv_threads := max 1 n\<rparr>"

definition set_timeout_seconds :: "int \<Rightarrow> server \<Rightarrow> server" where
  "set_timeout_seconds sec sv = sv\<lparr>sv_timeout := max 1 sec\<rparr>"

definition set_max_body_size :: "int \<Rightarrow> server \<Rightarrow> server" where
  "set_max_body_size bytes sv = sv\<lparr>sv_max_body := bytes\<rparr>"

definition set_rate_limit :: "int \<Rightarrow> int \<Rightarrow> server \<Rightarrow> server" where
  "set_rate_limit rps burst sv = sv\<lparr>sv_limiter := limiter_set_limits rps burst (sv_limiter sv)\<rparr>"

definition set_auth_token :: "string \<Rightarrow> server \<Rightarrow> server" where
  "set_auth_token token sv = sv\<lparr>sv_auth := token\<rparr>"

definition set_max_header_bytes :: "int \<Rightarrow> server \<Rightarrow> server" where
  "set_max_header_bytes bytes sv = sv\<lparr>sv_max_header := (if bytes > 0 then bytes else 64 * 1024)\<rparr>"

definition set_server_cap :: "int \<Rightarrow> server \<Rightarrow> server" where
  "set_server_cap n sv =
     (let cap = (if n > 0 then n else 0) in
      sv\<lparr>sv_cap := cap, sv_current := (if cap = 0 then 0 else sv_current sv)\<rparr>)"

section \<open>Sending\<close>

definition send_once :: "env \<Rightarrow> string \<Rightarrow> io \<Rightarrow> int \<times> io" where
  "send_once ev data w =
     (let n = ev_send ev (io_sends w) (length data) in
      (n, w\<lparr>io_sent := io_sent w @ take (nat n) data, io_sends := io_sends w + 1\<rparr>))"

text \<open>The loop that sends all of a buffer, or stops at an error.\<close>

function send_all :: "env \<Rightarrow> string \<Rightarrow> io \<Rightarrow> bool \<times> io" where
  "send_all ev data w =
     (if data = [] then (True, w)
      else (let (n, w) = send_once ev data w in
            if n \<le> 0 then (False, w) else send_all ev (drop (nat n) data) w))"
  by pat_completeness auto
termination
  by (relation "measure (\<lambda>(ev, data, w). length data)") (auto simp: send_once_def)

declare send_all.simps [simp del]

definition header_lines :: "string list \<Rightarrow> string" where
  "header_lines ls = concat (map (\<lambda>l. l @ CRLF) ls)"

definition response_head :: "int \<Rightarrow> string \<Rightarrow> nat \<Rightarrow> string" where
  "response_head status content_type n =
     header_lines
       [''HTTP/1.1 '' @ dec_int status @ '' '' @ status_text status,
        ''Content-Type: '' @ content_type,
        ''Content-Length: '' @ dec_nat n,
        ''Connection: close'',
        ''Server: TransFormers-Fusion/'' @ dec_nat 1,
        ''Access-Control-Allow-Origin: *'',
        ''Access-Control-Allow-Methods: GET, POST, OPTIONS'',
        ''Access-Control-Allow-Headers: Content-Type, Authorization'',
        ''X-Content-Type-Options: nosniff'',
        ''X-Frame-Options: DENY'',
        ''Referrer-Policy: no-referrer''] @ CRLF"

definition BUF_SIZE :: nat where
  "BUF_SIZE = 8192"

definition send_response :: "env \<Rightarrow> int \<Rightarrow> string \<Rightarrow> string \<Rightarrow> io \<Rightarrow> io" where
  "send_response ev status content_type body w =
     (let resp = response_head status content_type (length body) in
      if length resp + length body \<le> BUF_SIZE then snd (send_all ev (resp @ body) w)
      else
        (let (ok, w) = send_all ev resp w in
         if \<not> ok then w
         else if body \<noteq> [] then snd (send_all ev body w) else w))"

definition sse_data_frame :: "string \<Rightarrow> string" where
  "sse_data_frame j = ''data: '' @ j @ [LF, LF]"

definition sse_done_frame :: string where
  "sse_done_frame = ''data: [DONE]'' @ [LF, LF]"

definition sse_head :: string where
  "sse_head =
     header_lines
       [''HTTP/1.1 200 OK'',
        ''Content-Type: text/event-stream'',
        ''Cache-Control: no-cache'',
        ''Connection: keep-alive'',
        ''Server: TransFormers-Fusion'',
        ''Access-Control-Allow-Origin: *'',
        ''Access-Control-Allow-Methods: GET, POST, OPTIONS'',
        ''Access-Control-Allow-Headers: Content-Type, Authorization''] @ CRLF"

definition send_sse_headers :: "env \<Rightarrow> io \<Rightarrow> io" where
  "send_sse_headers ev w = snd (send_all ev sse_head w)"

definition send_sse_data :: "env \<Rightarrow> string \<Rightarrow> io \<Rightarrow> io" where
  "send_sse_data ev j w = snd (send_all ev (sse_data_frame j) w)"

definition send_sse_event :: "env \<Rightarrow> string \<Rightarrow> string \<Rightarrow> io \<Rightarrow> io" where
  "send_sse_event ev event data w =
     snd (send_all ev (''event: '' @ event @ [LF] @ ''data: '' @ data @ [LF, LF]) w)"

definition send_sse_done :: "env \<Rightarrow> io \<Rightarrow> io" where
  "send_sse_done ev w = snd (send_all ev sse_done_frame w)"

section \<open>Error responses\<close>

definition object_json :: "env \<Rightarrow> (string \<times> json) list \<Rightarrow> json" where
  "object_json ev kvs = JObject (ev_order ev kvs)"

definition print_json :: "env \<Rightarrow> json \<Rightarrow> string" where
  "print_json ev j = to_string (ev_ops ev) j"

definition openai_error_json :: "env \<Rightarrow> string \<Rightarrow> string \<Rightarrow> string \<Rightarrow> string" where
  "openai_error_json ev message type code =
     print_json ev (object_json ev
       [(''error'', object_json ev
          [(''message'', JString message),
           (''type'', JString (if type = [] then ''invalid_request_error'' else type)),
           (''code'', JString code)])])"

definition send_openai_error :: "env \<Rightarrow> int \<Rightarrow> string \<Rightarrow> string \<Rightarrow> string \<Rightarrow> io \<Rightarrow> io" where
  "send_openai_error ev status message type code w =
     send_response ev status ''application/json'' (openai_error_json ev message type code) w"

definition send_error :: "env \<Rightarrow> int \<Rightarrow> string \<Rightarrow> io \<Rightarrow> io" where
  "send_error ev status message w =
     send_response ev status ''application/json''
       (print_json ev (object_json ev [(''error'', JString message)])) w"

section \<open>The guards\<close>

definition is_v1_path :: "string \<Rightarrow> bool" where
  "is_v1_path path \<longleftrightarrow> length path \<ge> 4 \<and> take 4 path = ''/v1/''"

definition check_auth :: "env \<Rightarrow> server \<Rightarrow> http_request \<Rightarrow> string \<Rightarrow> io \<Rightarrow> bool \<times> io" where
  "check_auth ev sv req path w =
     (let token = sv_auth sv in
      if token = [] then (True, w)
      else if \<not> is_v1_path path then (True, w)
      else
        (case rq_headers req ''authorization'' of
           None \<Rightarrow> (False, send_openai_error ev 401 ''Missing Authorization header''
                      ''invalid_request_error'' ''invalid_api_key'' w)
         | Some v \<Rightarrow>
            if v \<noteq> ''Bearer '' @ token
            then (False, send_openai_error ev 401 ''Incorrect API key provided''
                    ''invalid_request_error'' ''invalid_api_key'' w)
            else (True, w)))"

text \<open>Admission when no other request interferes; \<open>slot_step\<close> has the interleavings.\<close>

definition try_acquire_slot :: "env \<Rightarrow> string \<Rightarrow> server \<times> io \<Rightarrow> bool \<times> server \<times> io" where
  "try_acquire_slot ev path = (\<lambda>(sv, w).
     if \<not> is_v1_path path then (True, sv, w)
     else if sv_cap sv \<le> 0 then (True, sv, w)
     else if sv_current sv < sv_cap sv then (True, sv\<lparr>sv_current := sv_current sv + 1\<rparr>, w)
     else (False, sv, send_openai_error ev 503 ''Server is overloaded, try again later''
             ''server_error'' ''overloaded'' w))"

definition release_slot :: "string \<Rightarrow> server \<Rightarrow> server" where
  "release_slot path sv =
     (if \<not> is_v1_path path then sv
      else if sv_cap sv \<le> 0 then sv
      else sv\<lparr>sv_current := sv_current sv - 1\<rparr>)"

section \<open>The parameters of a request\<close>

definition clamp_tokens :: "int \<Rightarrow> int" where
  "clamp_tokens n = max 1 (min n 4096)"

definition requested_model :: "server \<Rightarrow> json \<Rightarrow> string" where
  "requested_model sv p =
     (if is_object p \<and> has p ''model'' \<and> is_string (get_field p ''model'') \<and> as_string (get_field p ''model'') \<noteq> []
      then as_string (get_field p ''model'') else sv_model sv)"

text \<open>The parsed body and the error of parsing it; an empty body is not parsed.\<close>

definition parse_body :: "env \<Rightarrow> string \<Rightarrow> json \<times> string" where
  "parse_body ev body = (if body \<noteq> [] then json_parse (ev_ops ev) body else (JNull, []))"

definition approx_tokens :: "int \<Rightarrow> int" where
  "approx_tokens chars = max 1 (chars div 4)"

definition usage_json :: "env \<Rightarrow> string \<Rightarrow> string \<Rightarrow> json" where
  "usage_json ev prompt result =
     (let p = approx_tokens (int (length prompt)); c = approx_tokens (int (length result)) in
      object_json ev [(''prompt_tokens'', JInt p), (''completion_tokens'', JInt c), (''total_tokens'', JInt (p + c))])"

text \<open>One completion object: its single choice holds the payload, an index and a finish reason.\<close>

definition completion_json :: "env \<Rightarrow> string \<Rightarrow> string \<Rightarrow> string \<Rightarrow> string \<times> json \<Rightarrow> json \<Rightarrow> (string \<times> json) list \<Rightarrow> json" where
  "completion_json ev cid kind model payload finish extra =
     object_json ev
       ([(''id'', JString cid), (''object'', JString kind), (''created'', JInt (ev_time ev)), (''model'', JString model),
         (''choices'', JArray [object_json ev [payload, (''index'', JInt 0), (''finish_reason'', finish)]])] @ extra)"

definition call_generate :: "(nat \<Rightarrow> string \<Rightarrow> int \<Rightarrow> bool \<Rightarrow> string) \<Rightarrow> string \<Rightarrow> int \<Rightarrow> bool \<Rightarrow> io \<Rightarrow> string \<times> io" where
  "call_generate g prompt n stream w =
     (g (length (io_calls w)) prompt n stream, w\<lparr>io_calls := io_calls w @ [Generate prompt n stream]\<rparr>)"

text \<open>
  The streaming loop with \<open>k\<close> turns left: each asks for one token, sends it as a chunk and
  appends it to the prompt; an empty token ends it.
\<close>

primrec stream_tokens ::
  "env \<Rightarrow> (nat \<Rightarrow> string \<Rightarrow> int \<Rightarrow> bool \<Rightarrow> string) \<Rightarrow> (string \<Rightarrow> json) \<Rightarrow> nat \<Rightarrow> string \<Rightarrow> io \<Rightarrow> io" where
  "stream_tokens ev g chunk 0 prompt w = w"
| "stream_tokens ev g chunk (Suc k) prompt w =
     (let (result, w) = call_generate g prompt 1 True w in
      if result = [] then w
      else stream_tokens ev g chunk k (prompt @ result) (send_sse_data ev (print_json ev (chunk result)) w))"

section \<open>The endpoints\<close>

definition handle_options :: "env \<Rightarrow> io \<Rightarrow> io" where
  "handle_options ev w =
     snd (send_once ev (header_lines
       [''HTTP/1.1 204 No Content'',
        ''Access-Control-Allow-Origin: *'',
        ''Access-Control-Allow-Methods: GET, POST, OPTIONS'',
        ''Access-Control-Allow-Headers: Content-Type, Authorization'',
        ''Access-Control-Max-Age: 86400'',
        ''Content-Length: 0''] @ CRLF) w)"

definition handle_health :: "env \<Rightarrow> server \<Rightarrow> io \<Rightarrow> io" where
  "handle_health ev sv w =
     send_response ev 200 ''application/json''
       (print_json ev (object_json ev
          [(''status'', JString ''ok''), (''model'', JString (sv_model sv)), (''version'', JString ''1.0.0''),
           (''requests'', JInt (sv_requests sv)), (''errors'', JInt (sv_errors sv))])) w"

definition handle_models :: "env \<Rightarrow> server \<Rightarrow> http_request \<Rightarrow> io \<Rightarrow> io" where
  "handle_models ev sv req w =
     (if rq_method req = ''GET'' then
        send_response ev 200 ''application/json''
          (print_json ev (object_json ev
             [(''object'', JString ''list''),
              (''data'', JArray [object_json ev
                 [(''id'', JString (sv_model sv)), (''object'', JString ''model''),
                  (''created'', JInt (ev_time ev)), (''owned_by'', JString ''TransFormers-Fusion'')]])])) w
      else send_openai_error ev 405 ''Use GET for /v1/models'' ''invalid_request_error'' ''method_not_allowed'' w)"

definition completion_prompt :: "json \<Rightarrow> string" where
  "completion_prompt p =
     (if is_object p \<and> has p ''prompt'' then
        (let q = get_field p ''prompt'' in
         if is_array q \<and> elems q \<noteq> [] \<and> is_string (elems q ! 0) then as_string (elems q ! 0)
         else if is_string q then as_string q
         else ''Hello'')
      else ''Hello'')"

definition completion_max_tokens :: "double_ops \<Rightarrow> json \<Rightarrow> int" where
  "completion_max_tokens ops p =
     (let number = (\<lambda>key n. if is_object p \<and> has p key \<and> is_number (get_field p key)
                            then int_of_d ops (as_float ops (get_field p key)) else n) in
      number ''max_completion_tokens'' (number ''max_tokens'' 64))"

definition completion_stream :: "json \<Rightarrow> bool" where
  "completion_stream p \<longleftrightarrow>
     is_object p \<and> has p ''stream'' \<and> is_bool (get_field p ''stream'') \<and> as_bool (get_field p ''stream'')"

text \<open>The answer that is not streamed.\<close>

definition completion_reply ::
  "env \<Rightarrow> string \<Rightarrow> string \<Rightarrow> string \<Rightarrow> int \<Rightarrow> (nat \<Rightarrow> string \<Rightarrow> int \<Rightarrow> bool \<Rightarrow> string) \<Rightarrow> io \<Rightarrow> io" where
  "completion_reply ev cid model prompt max_tokens g w =
     (let (result, w) = call_generate g prompt max_tokens False w in
      send_response ev 200 ''application/json''
        (print_json ev (completion_json ev cid ''text_completion'' model (''text'', JString result)
           (JString ''stop'') [(''usage'', usage_json ev prompt result)])) w)"

definition handle_completions :: "env \<Rightarrow> server \<Rightarrow> http_request \<Rightarrow> io \<Rightarrow> io" where
  "handle_completions ev sv req w =
     (if rq_method req \<noteq> ''POST'' then
        send_openai_error ev 405 ''POST required for /v1/completions'' ''invalid_request_error'' ''method_not_allowed'' w
      else
        (let (p, err) = parse_body ev (rq_body req) in
         if err \<noteq> [] then
           send_openai_error ev 400 (''Invalid JSON: '' @ err) ''invalid_request_error'' ''invalid_json'' w
         else
           (let prompt = completion_prompt p;
                model = requested_model sv p;
                max_tokens = clamp_tokens (completion_max_tokens (ev_ops ev) p);
                cid = ''cmpl-'' @ dec_int (sv_requests sv);
                chunk = (\<lambda>t finish. completion_json ev cid ''text_completion'' model (''text'', JString t) finish []) in
            if completion_stream p then
              (let w = send_sse_headers ev w in
               case ev_generate ev of
                 None \<Rightarrow>
                   send_sse_done ev
                     (send_sse_data ev
                       (openai_error_json ev ''No generate callback registered'' ''server_error'' ''no_generate_callback'') w)
               | Some g \<Rightarrow>
                   (let w = stream_tokens ev g (\<lambda>t. chunk t JNull) (nat max_tokens) prompt w;
                        w = send_sse_data ev (print_json ev (chunk [] (JString ''stop''))) w
                    in send_sse_done ev w))
            else
              (case ev_generate ev of
                 None \<Rightarrow> send_openai_error ev 503 ''No generate callback registered'' ''server_error'' ''no_generate_callback'' w
               | Some g \<Rightarrow>
                   completion_reply ev cid model prompt max_tokens g w))))"

text \<open>The transcript of a chat: one line per message that has a role or a content.\<close>

definition chat_text :: "json \<Rightarrow> string \<Rightarrow> string" where
  "chat_text msg key = (if has msg key then as_string (get_field msg key) else [])"

fun chat_transcript :: "json list \<Rightarrow> string \<Rightarrow> string" where
  "chat_transcript [] acc = acc"
| "chat_transcript (msg # msgs) acc =
     (let role = chat_text msg ''role''; content = chat_text msg ''content'' in
      if role = [] \<and> content = [] then chat_transcript msgs acc
      else chat_transcript msgs ((if acc \<noteq> [] then acc @ [LF] else acc) @ role @ '': '' @ content))"

definition chat_messages :: "json \<Rightarrow> json list" where
  "chat_messages p =
     (if is_object p \<and> has p ''messages'' \<and> is_array (get_field p ''messages'') then elems (get_field p ''messages'') else [])"

definition chat_max_tokens :: "json \<Rightarrow> int" where
  "chat_max_tokens p =
     (let int_of = (\<lambda>key n. if is_object p \<and> has p key then as_int (get_field p key) else n) in
      int_of ''max_completion_tokens'' (int_of ''max_tokens'' 1024))"

definition chat_stream :: "json \<Rightarrow> bool" where
  "chat_stream p \<longleftrightarrow> is_object p \<and> has p ''stream'' \<and> as_bool (get_field p ''stream'')"

text \<open>The answer that is not streamed.\<close>

definition chat_reply ::
  "env \<Rightarrow> string \<Rightarrow> string \<Rightarrow> string \<Rightarrow> int \<Rightarrow> (nat \<Rightarrow> string \<Rightarrow> int \<Rightarrow> bool \<Rightarrow> string) \<Rightarrow> io \<Rightarrow> io" where
  "chat_reply ev cid model prompt max_tokens g w =
     (let (result, w) = call_generate g prompt max_tokens False w in
      send_response ev 200 ''application/json''
        (print_json ev (completion_json ev cid ''chat.completion'' model
           (''message'', object_json ev [(''role'', JString ''assistant''), (''content'', JString result)])
           (JString ''stop'') [(''usage'', usage_json ev prompt result)])) w)"

definition handle_chat_completions :: "env \<Rightarrow> server \<Rightarrow> http_request \<Rightarrow> io \<Rightarrow> io" where
  "handle_chat_completions ev sv req w =
     (if rq_method req \<noteq> ''POST'' then
        send_openai_error ev 405 ''POST required for /v1/chat/completions'' ''invalid_request_error'' ''method_not_allowed'' w
      else
        (let (p, err) = parse_body ev (rq_body req) in
         if err \<noteq> [] then
           send_openai_error ev 400 (''Invalid JSON: '' @ err) ''invalid_request_error'' ''invalid_json'' w
         else
           (let model = requested_model sv p;
                prompt = chat_transcript (chat_messages p) [];
                max_tokens = clamp_tokens (chat_max_tokens p);
                cid = ''chatcmpl-'' @ dec_int (sv_requests sv);
                chunk = (\<lambda>fields finish. completion_json ev cid ''chat.completion.chunk'' model
                           (''delta'', object_json ev fields) finish []) in
            if prompt = [] then
              send_openai_error ev 400 ''messages array with at least one message is required''
                ''invalid_request_error'' ''missing_messages'' w
            else if chat_stream p then
              (let w = send_sse_headers ev w in
               case ev_generate ev of
                 None \<Rightarrow>
                   send_sse_done ev
                     (send_sse_data ev
                       (openai_error_json ev ''No generate callback registered'' ''server_error'' ''no_generate_callback'') w)
               | Some g \<Rightarrow>
                   (let w = send_sse_data ev (print_json ev
                              (chunk [(''role'', JString ''assistant''), (''content'', JString [])] JNull)) w;
                        w = stream_tokens ev g (\<lambda>t. chunk [(''content'', JString t)] JNull) (nat max_tokens) prompt w;
                        w = send_sse_data ev (print_json ev (chunk [] (JString ''stop''))) w
                    in send_sse_done ev w))
            else
              (case ev_generate ev of
                 None \<Rightarrow> send_openai_error ev 503 ''No generate callback registered'' ''server_error'' ''no_generate_callback'' w
               | Some g \<Rightarrow>
                   chat_reply ev cid model prompt max_tokens g w))))"

text \<open>The strings to embed: the input itself, or the strings among the elements of an array.\<close>

definition embedding_inputs :: "json \<Rightarrow> string list" where
  "embedding_inputs p =
     (if is_object p \<and> has p ''input'' then
        (let i = get_field p ''input'' in
         if is_string i then [as_string i]
         else if is_array i then map as_string (filter is_string (elems i))
         else [])
      else [])"

fun embed_all :: "env \<Rightarrow> (nat \<Rightarrow> string \<Rightarrow> u32 list) \<Rightarrow> nat \<Rightarrow> string list \<Rightarrow> io \<Rightarrow> json list \<times> io" where
  "embed_all ev g i [] w = ([], w)"
| "embed_all ev g i (s # ss) w =
     (let e = g (length (io_calls w)) s;
          w = w\<lparr>io_calls := io_calls w @ [Embed s]\<rparr>;
          (js, w) = embed_all ev g (Suc i) ss w in
      (object_json ev [(''object'', JString ''embedding''), (''index'', JInt (int i)),
                       (''embedding'', JArray (map (\<lambda>v. JFloat (ev_double ev v)) e))] # js, w))"

definition handle_embeddings :: "env \<Rightarrow> server \<Rightarrow> http_request \<Rightarrow> io \<Rightarrow> io" where
  "handle_embeddings ev sv req w =
     (if rq_method req \<noteq> ''POST'' then
        send_openai_error ev 405 ''POST required for /v1/embeddings'' ''invalid_request_error'' ''method_not_allowed'' w
      else
        (let (p, err) = parse_body ev (rq_body req) in
         if err \<noteq> [] then
           send_openai_error ev 400 (''Invalid JSON: '' @ err) ''invalid_request_error'' ''invalid_json'' w
         else
           (let model = requested_model sv p; inputs = embedding_inputs p in
            if inputs = [] then
              send_openai_error ev 400 ''input must be a string or array of strings''
                ''invalid_request_error'' ''missing_input'' w
            else if length inputs > 256 then
              send_openai_error ev 400 ''too many inputs (max 256)'' ''invalid_request_error'' ''too_many_inputs'' w
            else
              (case ev_embed ev of
                 None \<Rightarrow> send_openai_error ev 503 ''No embeddings callback registered''
                           ''server_error'' ''no_embeddings_callback'' w
               | Some g \<Rightarrow>
                   (let (data, w) = embed_all ev g 0 inputs w;
                        n = approx_tokens (int (length (concat inputs))) in
                    send_response ev 200 ''application/json''
                      (print_json ev (object_json ev
                         [(''object'', JString ''list''), (''model'', JString model), (''data'', JArray data),
                          (''usage'', object_json ev [(''prompt_tokens'', JInt n), (''total_tokens'', JInt n)])])) w)))))"

section \<open>Receiving a request\<close>

text \<open>What the bytes received so far call for.\<close>

datatype progress = More | Complete | Refuse int string string | Too_Large

definition chunked_request :: "string \<Rightarrow> bool" where
  "chunked_request headers =
     (let lower = map lower_char headers in
      case find_sub ''transfer-encoding:'' lower of
        None \<Rightarrow> False
      | Some te \<Rightarrow>
         (let vle = (case find_from CRLF lower te of Some e \<Rightarrow> e | None \<Rightarrow> length lower);
              teval = take (vle - (te + 18)) (drop (te + 18) lower) in
          find_sub ''chunked'' teval \<noteq> None))"

definition length_position :: "string \<Rightarrow> nat option" where
  "length_position current =
     (case find_sub ''Content-Length:'' current of
        Some p \<Rightarrow> Some p
      | None \<Rightarrow> find_sub ''content-length:'' current)"

definition check_received :: "int \<Rightarrow> string \<Rightarrow> progress" where
  "check_received max_body current =
     (case find_sub (CRLF @ CRLF) current of
        None \<Rightarrow> More
      | Some hend \<Rightarrow>
         if chunked_request (take hend current) then
           Refuse 501 ''Transfer-Encoding: chunked not supported (send Content-Length)'' ''chunked_unsupported''
         else
           (case length_position current of
              None \<Rightarrow> Complete
            | Some p \<Rightarrow>
               (let num = dropWhile (\<lambda>c. \<not> is_digit c) (drop (p + 15) current) in
                if num = [] then Complete
                else
                  (case strtoll (takeWhile is_digit num) of
                     None \<Rightarrow> Refuse 400 ''Malformed Content-Length'' ''invalid_content_length''
                   | Some n \<Rightarrow>
                      if n < 0 then Refuse 400 ''Negative Content-Length'' ''invalid_content_length''
                      else if n > max_body then Too_Large
                      else if int (length current) - int hend - 4 \<ge> n then Complete
                      else More))))"

datatype received = Refused int string string | Refused_Large | Received string bool

text \<open>The receive loop at its \<open>k\<close>-th turn; the flag tells a timeout. A \<open>recv\<close> takes at most 4095 bytes.\<close>

function receive :: "env \<Rightarrow> server \<Rightarrow> nat \<Rightarrow> string \<Rightarrow> received" where
  "receive ev sv k buf =
     (if \<not> int (length buf) < sv_max_body sv then Received buf False
      else if fst (ev_recv ev k) \<ge> sv_timeout sv then Received buf True
      else
        (case snd (ev_recv ev k) of
           Would_Block \<Rightarrow> Received buf True
         | Recv_Error \<Rightarrow> Received buf False
         | Bytes bs \<Rightarrow>
            (let bs = take 4095 bs in
             if bs = [] then Received buf False
             else
               (case check_received (sv_max_body sv) (buf @ bs) of
                  More \<Rightarrow> receive ev sv (Suc k) (buf @ bs)
                | Complete \<Rightarrow> Received (buf @ bs) False
                | Refuse status message code \<Rightarrow> Refused status message code
                | Too_Large \<Rightarrow> Refused_Large))))"
  by pat_completeness auto
termination
  by (relation "measure (\<lambda>(ev, sv, k, buf). nat (sv_max_body sv - int (length buf)))") auto

declare receive.simps [simp del]

section \<open>A whole request\<close>

definition kMaxRequestLineBytes :: int where
  "kMaxRequestLineBytes = 8192"

definition count_error :: "server \<Rightarrow> server" where
  "count_error sv = sv\<lparr>sv_errors := sv_errors sv + 1\<rparr>"

definition route :: "env \<Rightarrow> server \<Rightarrow> http_request \<Rightarrow> io \<Rightarrow> io" where
  "route ev sv req w =
     (let path = rq_path req in
      if path = ''/health'' \<or> path = ''/'' then handle_health ev sv w
      else if path = ''/v1/models'' then handle_models ev sv req w
      else if path = ''/v1/completions'' then handle_completions ev sv req w
      else if path = ''/v1/chat/completions'' then handle_chat_completions ev sv req w
      else if path = ''/v1/embeddings'' then handle_embeddings ev sv req w
      else if is_v1_path path then
        send_openai_error ev 404 (''Not found: '' @ path) ''invalid_request_error'' ''not_found'' w
      else send_error ev 404 (''Not found: '' @ path) w)"

text \<open>Authorisation, admission, the endpoint and the release.\<close>

definition admit_and_route :: "env \<Rightarrow> http_request \<Rightarrow> server \<times> io \<Rightarrow> server \<times> io" where
  "admit_and_route ev req = (\<lambda>(sv, w).
     (let (ok, w) = check_auth ev sv req (rq_path req) w in
      if \<not> ok then (count_error sv, w)
      else
        (let (ok, sv, w) = try_acquire_slot ev (rq_path req) (sv, w) in
         if \<not> ok then (count_error sv, w)
         else (release_slot (rq_path req) sv, route ev sv req w))))"

definition wrong_content_type :: "http_request \<Rightarrow> bool" where
  "wrong_content_type req \<longleftrightarrow>
     rq_method req = ''POST'' \<and> rq_body req \<noteq> [] \<and> is_v1_path (rq_path req) \<and>
     (case rq_headers req ''content-type'' of None \<Rightarrow> False | Some v \<Rightarrow> find_sub ''application/json'' v = None)"

definition dispatch :: "env \<Rightarrow> http_request \<Rightarrow> server \<times> io \<Rightarrow> server \<times> io" where
  "dispatch ev req = (\<lambda>(sv, w).
     (let (ok, sv) =
        (if rl_rps (sv_limiter sv) > 0
         then (let (ok, l) = limiter_allow (ev_clock ev) (ev_ip ev) (sv_limiter sv) in (ok, sv\<lparr>sv_limiter := l\<rparr>))
         else (True, sv)) in
      if \<not> ok then
        (sv, send_openai_error ev 429 ''Rate limit exceeded'' ''rate_limit_error'' ''rate_limit_exceeded'' w)
      else if rq_method req = ''OPTIONS'' then (sv, handle_options ev w)
      else if rq_method req \<noteq> ''GET'' \<and> rq_method req \<noteq> ''POST'' then
        (sv, send_openai_error ev 405 ''Method not allowed'' ''invalid_request_error'' ''method_not_allowed'' w)
      else if wrong_content_type req then
        (sv, send_openai_error ev 415 ''Content-Type must be application/json''
               ''invalid_request_error'' ''unsupported_media_type'' w)
      else admit_and_route ev req (sv, w)))"

definition handle_received :: "env \<Rightarrow> string \<Rightarrow> bool \<Rightarrow> server \<Rightarrow> io \<Rightarrow> server \<times> io" where
  "handle_received ev buf timeout sv w =
     (let sv = sv\<lparr>sv_requests := sv_requests sv + 1\<rparr> in
      if buf = [] then (count_error sv, send_error ev 400 ''Empty request'' w)
      else if timeout then (count_error sv, send_error ev 408 ''Request timeout'' w)
      else if (case find_sub (CRLF @ CRLF) buf of None \<Rightarrow> int (length buf) | Some hend \<Rightarrow> int hend) > sv_max_header sv then
        (count_error sv, send_openai_error ev 431 ''Request header fields too large''
                           ''invalid_request_error'' ''header_too_large'' w)
      else if (case find_sub CRLF buf of None \<Rightarrow> False | Some eol \<Rightarrow> int eol > kMaxRequestLineBytes) then
        (count_error sv, send_openai_error ev 414 ''Request line too long''
                           ''invalid_request_error'' ''request_line_too_long'' w)
      else dispatch ev (parse_http_request buf) (sv, w))"

definition handle_request :: "env \<Rightarrow> server \<Rightarrow> server \<times> io" where
  "handle_request ev sv =
     (case receive ev sv 0 [] of
        Refused status message code \<Rightarrow>
          (count_error sv, send_openai_error ev status message ''invalid_request_error'' code io_start)
      | Refused_Large \<Rightarrow> (count_error sv, send_error ev 413 ''Payload Too Large'' io_start)
      | Received buf timeout \<Rightarrow> handle_received ev buf timeout sv io_start)"

end
