(* ===== verification/Http_Parse_Correct.thy ===== *)
theory Http_Parse_Correct
  imports Http_Parse
begin

text \<open>
  Round trips of the request parser: query strings against a percent encoder, requests against
  a printer of request lines and headers; and where \<open>parse_content_length\<close> reads a header that
  is not there.
\<close>

section \<open>Pieces\<close>

lemma takeWhile_clean: "\<forall>c \<in> set p. c \<noteq> x \<Longrightarrow> takeWhile (\<lambda>c. c \<noteq> x) (p @ x # s) = p"
  by (induction p) auto

lemma dropWhile_clean: "\<forall>c \<in> set p. c \<noteq> x \<Longrightarrow> dropWhile (\<lambda>c. c \<noteq> x) (p @ x # s) = x # s"
  by (induction p) auto

lemma takeWhile_all: "\<forall>c \<in> set p. c \<noteq> x \<Longrightarrow> takeWhile (\<lambda>c. c \<noteq> x) p = p"
  by (simp add: takeWhile_eq_all_conv)

lemma dropWhile_all: "\<forall>c \<in> set p. c \<noteq> x \<Longrightarrow> dropWhile (\<lambda>c. c \<noteq> x) p = []"
  by simp

lemma pieces_sep: "\<forall>c \<in> set p. c \<noteq> x \<Longrightarrow> pieces x (p @ x # s) = p # pieces x s"
  by (subst pieces.simps) (simp add: takeWhile_clean dropWhile_clean)

lemma pieces_last: "\<forall>c \<in> set p. c \<noteq> x \<Longrightarrow> pieces x p = (if p = [] then [] else [p])"
  by (subst pieces.simps) (simp add: dropWhile_all)

text \<open>Lines joined by a separator.\<close>

fun join :: "char \<Rightarrow> string list \<Rightarrow> string" where
  "join x [] = []"
| "join x [p] = p"
| "join x (p # q # ps) = p @ x # join x (q # ps)"

lemma pieces_join: "\<forall>p \<in> set ps. p \<noteq> [] \<and> (\<forall>c \<in> set p. c \<noteq> x) \<Longrightarrow> pieces x (join x ps) = ps"
  by (induction x ps rule: join.induct) (simp_all add: pieces_sep pieces_last pieces_last [of "[]"])

section \<open>Query strings\<close>

definition hex_upper :: "nat \<Rightarrow> char" where
  "hex_upper n = (if n < 10 then char_of (48 + n) else char_of (55 + n))"

definition percent :: "char \<Rightarrow> string" where
  "percent c = [CHR ''%'', hex_upper (of_char c div 16), hex_upper (of_char c mod 16)]"

definition url_encode :: "string \<Rightarrow> string" where
  "url_encode s = concat (map percent s)"

lemma hex_upper_code: "n < 16 \<Longrightarrow> (of_char (hex_upper n) :: nat) = (if n < 10 then 48 + n else 55 + n)"
  by (simp add: hex_upper_def of_char_of)

lemma hex_digit_upper: "n < 16 \<Longrightarrow> hex_digit (hex_upper n) = int n"
  by (simp add: hex_digit_def hex_upper_code)

lemma nibbles: "of_char c div 16 < (16 :: nat)" "of_char c mod 16 < (16 :: nat)"
proof -
  have "of_char c < (16 * 16 :: nat)" by simp
  then show "of_char c div 16 < (16 :: nat)" by (rule less_mult_imp_div_less)
qed simp

lemma url_decode_percent: "url_decode (percent c @ s) = c # url_decode s"
proof -
  note b = nibbles [of c]
  have "nat (hex_digit (hex_upper (of_char c div 16)) * 16 + hex_digit (hex_upper (of_char c mod 16))) = of_char c"
  proof -
    have "nat (int x * 16 + int y) = x * 16 + y" for x y by arith
    then show ?thesis unfolding hex_digit_upper [OF b(1)] hex_digit_upper [OF b(2)] by simp
  qed
  then show ?thesis using b by (simp add: percent_def hex_digit_upper)
qed

lemma url_decode_encode: "url_decode (url_encode s) = s"
  by (induction s) (simp_all add: url_encode_def url_decode_percent)

definition reserved :: "char set" where
  "reserved = {CHR ''&'', CHR ''='', CHR '' '', CR, LF}"

lemma hex_upper_clean: "n < 16 \<Longrightarrow> hex_upper n \<notin> reserved"
proof -
  assume n: "n < 16"
  have "(of_char (hex_upper n) :: nat) \<noteq> of_char c" if "c \<in> reserved" for c
    using that hex_upper_code [OF n] n unfolding reserved_def by (elim insertE) auto
  then show ?thesis by fastforce
qed

lemma url_encode_reserved: "c \<in> set (url_encode s) \<Longrightarrow> c \<notin> reserved"
proof -
  have "CHR ''%'' \<notin> reserved" by (simp add: reserved_def)
  then have "c \<in> set (percent d) \<Longrightarrow> c \<notin> reserved" for d
    using hex_upper_clean [OF nibbles(1)] hex_upper_clean [OF nibbles(2)] unfolding percent_def by fastforce
  then show "c \<in> set (url_encode s) \<Longrightarrow> ?thesis" unfolding url_encode_def by auto
qed

lemma url_encode_clean: "c \<in> set (url_encode s) \<Longrightarrow> c \<noteq> CHR ''&'' \<and> c \<noteq> CHR ''=''"
  using url_encode_reserved unfolding reserved_def by blast

definition query_pair :: "string \<times> string \<Rightarrow> string" where
  "query_pair kv = url_encode (fst kv) @ ''='' @ url_encode (snd kv)"

lemma add_query_pair: "add_pair (query_pair kv) m = m(fst kv \<mapsto> snd kv)"
proof -
  have "\<forall>c \<in> set (url_encode (fst kv)). c \<noteq> CHR ''=''" using url_encode_clean by blast
  then show ?thesis
    by (simp add: add_pair_def query_pair_def takeWhile_clean dropWhile_clean url_decode_encode)
qed

text \<open>
  Query strings survive percent encoding: for all keys and values, with any bytes, the query
  string built from their percent-encoded pairs parses to exactly these pairs, the last one of
  a repeated key winning.
\<close>

theorem query_string_round_trip:
  "parse_query_string (join (CHR ''&'') (map query_pair kvs)) = map_of (rev kvs)"
proof -
  have "\<forall>p \<in> set (map query_pair kvs). p \<noteq> [] \<and> (\<forall>c \<in> set p. c \<noteq> CHR ''&'')"
    using url_encode_clean by (auto simp: query_pair_def)
  then have "pieces (CHR ''&'') (join (CHR ''&'') (map query_pair kvs)) = map query_pair kvs" by (rule pieces_join)
  moreover have "fold add_pair (map query_pair kvs) m = m ++ map_of (rev kvs)" for m
    by (induction kvs arbitrary: m) (simp_all add: add_query_pair map_add_def fun_eq_iff split: option.split)
  ultimately show ?thesis by (simp add: parse_query_string_def)
qed

section \<open>Requests\<close>

definition header_name_ok :: "string \<Rightarrow> bool" where
  "header_name_ok k \<longleftrightarrow> k \<noteq> [] \<and>
     (\<forall>c \<in> set k. \<not> is_blank c \<and> c \<noteq> CHR '':'' \<and> c \<noteq> LF \<and> c \<noteq> CR \<and> lower_char c = c)"

definition header_value_ok :: "string \<Rightarrow> bool" where
  "header_value_ok v \<longleftrightarrow> v \<noteq> [] \<and> \<not> is_blank (hd v) \<and> \<not> is_blank (last v) \<and> CR \<notin> set v \<and> LF \<notin> set v"

definition target_ok :: "string \<Rightarrow> bool" where
  "target_ok t \<longleftrightarrow> t \<noteq> [] \<and> (\<forall>c \<in> set t. c \<noteq> CHR '' '' \<and> c \<noteq> CHR ''?'' \<and> c \<noteq> LF \<and> c \<noteq> CR)"

text \<open>The target of a request: a path, and perhaps a query of percent-encoded pairs.\<close>

fun target_text :: "string \<Rightarrow> (string \<times> string) list option \<Rightarrow> string" where
  "target_text path None = path"
| "target_text path (Some kvs) = path @ ''?'' @ join (CHR ''&'') (map query_pair kvs)"

fun query_of :: "(string \<times> string) list option \<Rightarrow> (string \<rightharpoonup> string)" where
  "query_of None = Map.empty"
| "query_of (Some kvs) = map_of (rev kvs)"

lemma set_join: "set (join x ps) \<subseteq> insert x (\<Union> (set ` set ps))"
  by (induction x ps rule: join.induct) auto

lemma target_text_clean:
  assumes "target_ok path"
  shows "CHR '' '' \<notin> set (target_text path query) \<and> CR \<notin> set (target_text path query) \<and> LF \<notin> set (target_text path query)"
proof (cases query)
  case None
  then show ?thesis using assms by (auto simp: target_ok_def)
next
  case (Some kvs)
  have "c \<notin> {CHR '' '', CR, LF}" if "c \<in> set (join (CHR ''&'') (map query_pair kvs))" for c
  proof -
    have "c = CHR ''&'' \<or> (\<exists>kv. c \<in> set (query_pair kv))"
      using that set_join [of "CHR ''&''" "map query_pair kvs"] by auto
    then show ?thesis using url_encode_reserved [of c] unfolding reserved_def query_pair_def by auto
  qed
  then show ?thesis using Some assms unfolding target_ok_def by fastforce
qed

definition header_text :: "string \<times> string \<Rightarrow> string" where
  "header_text kv = fst kv @ '': '' @ snd kv"

text \<open>What a client sends.\<close>

definition request_text ::
    "string \<Rightarrow> string \<Rightarrow> (string \<times> string) list option \<Rightarrow> (string \<times> string) list \<Rightarrow> string \<Rightarrow> string" where
  "request_text method path query headers body =
     concat (map (\<lambda>line. line @ CRLF)
       ((method @ '' '' @ target_text path query @ '' HTTP/1.1'') # map header_text headers)) @ CRLF @ body"

lemma trim_ok: "v \<noteq> [] \<Longrightarrow> \<not> is_blank (hd v) \<Longrightarrow> \<not> is_blank (last v) \<Longrightarrow> trim v = v \<and> trim (CHR '' '' # v) = v"
proof -
  assume v: "v \<noteq> []" "\<not> is_blank (hd v)" "\<not> is_blank (last v)"
  then have "dropWhile is_blank v = v" by (cases v) auto
  moreover have "dropWhile is_blank (rev v) = rev v" using v(1,3) by (cases v rule: rev_cases) auto
  moreover have "is_blank (CHR '' '')" by (simp add: is_blank_def)
  ultimately show ?thesis by (simp add: trim_def)
qed

lemma header_line_text:
  assumes k: "header_name_ok k" and v: "header_value_ok v"
  shows "header_line (header_text (k, v)) (last_key, req) = (k, req\<lparr>rq_headers := (rq_headers req)(k \<mapsto> v)\<rparr>)"
proof -
  let ?line = "k @ CHR '':'' # CHR '' '' # v"
  have kne: "k \<noteq> []" and kb: "\<forall>c \<in> set k. \<not> is_blank c" and kc: "\<forall>c \<in> set k. c \<noteq> CHR '':''"
    and kl: "map lower_char k = k" using k by (auto simp: header_name_ok_def intro: map_idI)
  have hd: "\<not> is_blank (hd ?line)" using kne kb by (cases k) auto
  have key: "takeWhile (\<lambda>c. c \<noteq> CHR '':'') ?line = k" "dropWhile (\<lambda>c. c \<noteq> CHR '':'') ?line = CHR '':'' # CHR '' '' # v"
    using kc by (simp_all add: takeWhile_clean dropWhile_clean)
  have tk: "trim k = k" using trim_ok [OF kne] kne kb by simp
  have "trim (CHR '' '' # v) = v" "dropWhile is_blank v \<noteq> []"
    using trim_ok [of v] v by (cases v, auto simp: header_value_ok_def)+
  moreover have "dropWhile is_blank k \<noteq> []" using kne kb by (cases k) auto
  ultimately show ?thesis
    using hd by (simp add: header_line_def header_text_def key tk kl is_blank_def Let_def)
qed

lemma handle_header:
  assumes "header_name_ok (fst kv)" and "header_value_ok (snd kv)"
  shows "handle_line (header_text kv @ [CR]) (False, last_key, req) =
    (False, fst kv, req\<lparr>rq_headers := (rq_headers req)(fst kv \<mapsto> snd kv)\<rparr>)"
  using header_line_text [OF assms] by (simp add: handle_line_def) (simp add: header_text_def)

lemma handle_headers:
  assumes "\<forall>kv \<in> set hs. header_name_ok (fst kv) \<and> header_value_ok (snd kv)"
  shows "snd (snd (fold handle_line (map (\<lambda>kv. header_text kv @ [CR]) hs) (False, lk, req))) =
    req\<lparr>rq_headers := rq_headers req ++ map_of (rev hs)\<rparr>"
  using assms
proof (induction hs arbitrary: lk req)
  case (Cons kv hs)
  then show ?case by (simp add: handle_header map_add_def fun_upd_def cong: option.case_cong)
      (simp add: fun_eq_iff split: option.split)
qed simp

text \<open>The blank line that ends the headers is found where it is.\<close>

definition clean_line :: "string \<Rightarrow> bool" where
  "clean_line l \<longleftrightarrow> l \<noteq> [] \<and> CR \<notin> set l \<and> LF \<notin> set l"

text \<open>The end of the headers: lines without CR or LF, each followed by CRLF.\<close>

lemma find_header_end:
  assumes "ls \<noteq> []" and "\<forall>l \<in> set ls. clean_line l"
  shows "\<exists>i. find_sub (CRLF @ CRLF) (concat (map (\<lambda>l. l @ CRLF) ls) @ CRLF @ body) = Some i \<and>
    take i (concat (map (\<lambda>l. l @ CRLF) ls) @ CRLF @ body) = concat (map (\<lambda>l. l @ CRLF) (butlast ls)) @ last ls \<and>
    drop (i + 4) (concat (map (\<lambda>l. l @ CRLF) ls) @ CRLF @ body) = body"
  using assms
proof (induction ls)
  case (Cons l ls)
  have skip: "find_sub (CRLF @ CRLF) (x @ y) = map_option (\<lambda>i. length x + i) (find_sub (CRLF @ CRLF) y)"
    if "CR \<notin> set x" for x y :: string
    using that
  proof (induction x)
    case (Cons c x)
    then show ?case by (cases "find_sub (CRLF @ CRLF) y") (auto simp: CRLF_def)
  next
    case Nil
    show ?case by (cases "find_sub (CRLF @ CRLF) y") simp_all
  qed
  have l: "CR \<notin> set l" "l \<noteq> []" using Cons.prems by (simp_all add: clean_line_def)
  show ?case
  proof (cases ls)
    case Nil
    have "find_sub (CRLF @ CRLF) (CRLF @ CRLF @ body) = Some 0" by (simp add: CRLF_def)
    then have "find_sub (CRLF @ CRLF) (l @ CRLF @ CRLF @ body) = Some (length l)" using skip [OF l(1)] by simp
    then show ?thesis using Nil by (simp add: CRLF_def)
  next
    case (Cons m ms)
    let ?t = "concat (map (\<lambda>l. l @ CRLF) ls) @ CRLF @ body"
    have ne: "ls \<noteq> []" using Cons by simp
    obtain i where i: "find_sub (CRLF @ CRLF) ?t = Some i"
      "take i ?t = concat (map (\<lambda>l. l @ CRLF) (butlast ls)) @ last ls" "drop (i + 4) ?t = body"
      using Cons.IH [OF ne] Cons.prems(2) by auto
    obtain c t where c: "?t = c # t" "c \<noteq> CR"
    proof -
      have "clean_line m" using Cons.prems(2) Cons by simp
      then obtain c m' where "m = c # m'" "c \<noteq> CR" by (cases m) (auto simp: clean_line_def)
      then show thesis using that [of c] Cons by simp
    qed
    have "find_sub (CRLF @ CRLF) (CRLF @ ?t) = Some (2 + i)"
      unfolding c(1) using i(1) [unfolded c(1)] c(2) by (simp add: CRLF_def)
    then have f: "find_sub (CRLF @ CRLF) (l @ CRLF @ ?t) = Some (length (l @ CRLF) + i)"
      using skip [OF l(1)] by (simp add: CRLF_def)
    have d: "take (length (l @ CRLF) + i) ((l @ CRLF) @ u) = (l @ CRLF) @ take i u"
      "drop (length (l @ CRLF) + i + 4) ((l @ CRLF) @ u) = drop (i + 4) u" for u
      unfolding take_append drop_append by simp_all
    have "concat (map (\<lambda>l. l @ CRLF) (l # ls)) @ CRLF @ body = (l @ CRLF) @ ?t" by simp
    moreover have "concat (map (\<lambda>l. l @ CRLF) (butlast (l # ls))) @ last (l # ls) =
        (l @ CRLF) @ concat (map (\<lambda>l. l @ CRLF) (butlast ls)) @ last ls" using ne by simp
    ultimately show ?thesis using f d [of ?t] i(2,3) by (simp only: append_assoc) blast
  qed
qed simp

lemma pieces_lines:
  assumes "ls \<noteq> []" and "\<forall>l \<in> set ls. clean_line l"
  shows "pieces LF (concat (map (\<lambda>l. l @ CRLF) (butlast ls)) @ last ls) = map (\<lambda>l. l @ [CR]) (butlast ls) @ [last ls]"
  using assms
proof (induction ls)
  case (Cons l ls)
  have l: "l \<noteq> []" "\<forall>c \<in> set l. c \<noteq> LF" "\<forall>c \<in> set (l @ [CR]). c \<noteq> LF"
    using Cons.prems by (auto simp: clean_line_def)
  show ?case
  proof (cases ls)
    case Nil
    then show ?thesis using pieces_last [OF l(2)] l(1) by simp
  next
    case (Cons m ms)
    then show ?thesis using Cons.IH Cons.prems pieces_sep [OF l(3)] by (simp add: CRLF_def)
  qed
qed simp

lemma handle_line_CR: "line \<noteq> [] \<Longrightarrow> last line \<noteq> CR \<Longrightarrow> handle_line (line @ [CR]) st = handle_line line st"
  by (simp add: handle_line_def case_prod_beta Let_def)

lemma fold_lines:
  assumes "ls \<noteq> []" and "\<forall>l \<in> set ls. clean_line l"
  shows "fold handle_line (map (\<lambda>l. l @ [CR]) (butlast ls) @ [last ls]) st = fold handle_line (map (\<lambda>l. l @ [CR]) ls) st"
proof -
  have "clean_line (last ls)" using assms by simp
  then have "last ls \<noteq> []" "last (last ls) \<noteq> CR" unfolding clean_line_def by (blast, metis last_in_set)
  then have "fold handle_line (map (\<lambda>l. l @ [CR]) (butlast ls) @ [last ls]) st =
      fold handle_line (map (\<lambda>l. l @ [CR]) (butlast ls @ [last ls])) st"
    by (simp add: handle_line_CR)
  then show ?thesis using assms(1) by simp
qed

lemma request_line_text:
  assumes "target_ok method" and "target_ok path"
  shows "handle_line ((method @ '' '' @ target_text path query @ '' HTTP/1.1'') @ [CR]) (True, [], empty_request\<lparr>rq_body := body\<rparr>) =
    (False, [], empty_request\<lparr>rq_body := body, rq_method := method, rq_path := path, rq_query := query_of query\<rparr>)"
proof -
  let ?t = "target_text path query" and ?req = "empty_request\<lparr>rq_body := body\<rparr>"
  let ?line = "method @ CHR '' '' # ?t @ CHR '' '' # ''HTTP/1.1''"
  have c: "\<forall>c \<in> set method. c \<noteq> CHR '' ''" "\<forall>c \<in> set ?t. c \<noteq> CHR '' ''" "\<forall>c \<in> set path. c \<noteq> CHR ''?''"
    using assms target_text_clean [OF assms(2), of query] by (auto simp: target_ok_def)
  have "request_line ?line ?req = (let req = ?req\<lparr>rq_method := method, rq_path := ?t\<rparr> in
      if CHR ''?'' \<in> set ?t
      then req\<lparr>rq_query := parse_query_string (tl (dropWhile (\<lambda>c. c \<noteq> CHR ''?'') ?t)),
               rq_path := takeWhile (\<lambda>c. c \<noteq> CHR ''?'') ?t\<rparr> else req)"
    by (simp add: request_line_def takeWhile_clean [OF c(1)] dropWhile_clean [OF c(1)] takeWhile_clean [OF c(2)] Let_def)
  also have "\<dots> = ?req\<lparr>rq_method := method, rq_path := path, rq_query := query_of query\<rparr>"
  proof (cases query)
    case None
    have "CHR ''?'' \<notin> set path" using c(3) by blast
    then show ?thesis using None by (simp add: empty_request_def)
  next
    case (Some kvs)
    then show ?thesis
      by (simp add: takeWhile_clean [OF c(3)] dropWhile_clean [OF c(3)] query_string_round_trip empty_request_def)
  qed
  finally have "handle_line ?line (True, [], ?req) =
      (False, [], ?req\<lparr>rq_method := method, rq_path := path, rq_query := query_of query\<rparr>)"
    by (simp add: handle_line_def)
  then show ?thesis using handle_line_CR [of ?line "(True, [], ?req)"] by simp
qed

text \<open>
  C38: a request parses to what the client sent: for a method and a path without spaces and
  question marks, no query or a query of percent-encoded pairs of any keys and values, any headers
  with lower-case names and trimmed values, and any body at all, the parsed request has exactly
  that method, path and body, the decoded query and the headers, the last one of a repeated key or
  name winning.
\<close>

theorem request_round_trip:
  assumes "target_ok method" and "target_ok path"
    and "\<forall>kv \<in> set headers. header_name_ok (fst kv) \<and> header_value_ok (snd kv)"
  shows "parse_http_request (request_text method path query headers body) =
    \<lparr>rq_method = method, rq_path = path, rq_body = body, rq_headers = map_of (rev headers), rq_query = query_of query\<rparr>"
proof -
  let ?line = "method @ '' '' @ target_text path query @ '' HTTP/1.1''"
  let ?ls = "?line # map header_text headers" and ?text = "request_text method path query headers body"
  have "clean_line (header_text kv)" if "kv \<in> set headers" for kv
  proof -
    have "CR \<notin> set (fst kv)" "LF \<notin> set (fst kv)" "CR \<notin> set (snd kv)" "LF \<notin> set (snd kv)"
      using assms(3) that unfolding header_name_ok_def header_value_ok_def by blast+
    then show ?thesis by (simp add: clean_line_def header_text_def)
  qed
  moreover have "CR \<notin> set method" "LF \<notin> set method"
    using assms(1) unfolding target_ok_def by blast+
  then have "clean_line ?line" using target_text_clean [OF assms(2), of query] by (simp add: clean_line_def)
  ultimately have clean: "\<forall>l \<in> set ?ls. clean_line l" by simp
  obtain i where i: "find_sub (CRLF @ CRLF) ?text = Some i"
    "take i ?text = concat (map (\<lambda>l. l @ CRLF) (butlast ?ls)) @ last ?ls" "drop (i + 4) ?text = body"
    using find_header_end [of ?ls body] clean unfolding request_text_def by blast
  let ?req = "empty_request\<lparr>rq_body := body\<rparr>"
  let ?out = "?req\<lparr>rq_method := method, rq_path := path, rq_query := query_of query, rq_headers := map_of (rev headers)\<rparr>"
  have "fold handle_line (map (\<lambda>l. l @ [CR]) ?ls) (True, [], ?req) =
      fold handle_line (map (\<lambda>kv. header_text kv @ [CR]) headers) (handle_line (?line @ [CR]) (True, [], ?req))"
    by (simp only: list.map fold_simps map_map o_def)
  also have "snd (snd \<dots>) = ?out"
    unfolding request_line_text [OF assms(1,2)] handle_headers [OF assms(3)] by (simp add: empty_request_def)
  finally have lines: "snd (snd (fold handle_line (map (\<lambda>l. l @ [CR]) ?ls) (True, [], ?req))) = ?out" .
  have ne: "?ls \<noteq> []" by simp
  show ?thesis
    unfolding parse_http_request_def i(1) option.case Let_def split i(2,3) pieces_lines [OF ne clean] fold_lines [OF ne clean] lines
    by (simp add: empty_request_def)
qed

theorem request_round_trip_witness:
  "parse_http_request (request_text ''POST'' ''/v1/models'' (Some [(''a b'', ''&''), (''c'', [])])
      [(''host'', ''a b''), (''x'', ''1'')] (CRLF @ ''{}'')) =
    \<lparr>rq_method = ''POST'', rq_path = ''/v1/models'', rq_body = CRLF @ ''{}'',
      rq_headers = map_of [(''x'', ''1''), (''host'', ''a b'')], rq_query = map_of [(''c'', []), (''a b'', ''&'')]\<rparr>"
  using request_round_trip [of "''POST''" "''/v1/models''" "[(''host'', ''a b''), (''x'', ''1'')]"
      "Some [(''a b'', ''&''), (''c'', [])]" "CRLF @ ''{}''"]
  by (simp add: target_ok_def header_name_ok_def header_value_ok_def is_blank_def lower_char_def
      del: target_text.simps)

section \<open>Content-Length\<close>

text \<open>
  \<open>parse_content_length\<close> finds its name inside other header names: with the headers
  \<open>X-Content-Length: 7\<close> and \<open>Content-Length: 2\<close>, in this order, it answers 7, and without any
  \<open>Content-Length\<close> header it answers 7 and not 0.
\<close>

theorem content_length_substring:
  "parse_content_length (''X-Content-Length: 7'' @ CRLF @ ''Content-Length: 2'') 1000 = 7 \<and>
   parse_content_length ''X-Content-Length: 7'' 1000 = 7"
  by code_simp

end
