(* ===== verification/Json_Correct.thy ===== *)
theory Json_Correct
  imports Json
begin

text \<open>
  What the JSON code promises: the parser returns on every input, within its depth bound; what
  \<open>to_string\<close> prints, \<open>parse\<close> reads back; and the inputs it accepts although they are not JSON.
\<close>

section \<open>The parser does not run out of fuel\<close>

definition fuelled :: "'a parse_result \<Rightarrow> string \<Rightarrow> bool" where
  "fuelled r s \<longleftrightarrow> r \<noteq> Inl Out_Of_Fuel \<and> (\<forall>x t. r = Inr (x, t) \<longrightarrow> length t \<le> length s)"

lemma fuelled_simps [simp]:
  "fuelled (Inl (Msg e)) s"
  "fuelled (Inr (x, t)) s \<longleftrightarrow> length t \<le> length s"
  by (simp_all add: fuelled_def)

lemma fuelled_bind:
  "fuelled r s \<Longrightarrow> (\<And>x t. r = Inr (x, t) \<Longrightarrow> length t \<le> length s \<Longrightarrow> fuelled (f (x, t)) s) \<Longrightarrow>
   fuelled (bind_result r f) s"
  by (cases r) (auto simp: fuelled_def)

lemma fuelled_mono: "fuelled r s \<Longrightarrow> length s \<le> length t \<Longrightarrow> fuelled r t"
  unfolding fuelled_def using order_trans by blast

lemma skip_ws_length: "length (skip_ws s) \<le> length s"
  by (simp add: skip_ws_def length_dropWhile_le)

lemma expect_cases:
  obtains e where "expect n c s = Inl (Msg e)"
  | t where "expect n c s = Inr t" "length t \<le> length s"
proof (cases "peek (skip_ws s) = c")
  case True
  have "length (drop 1 (skip_ws s)) \<le> length s" using skip_ws_length [of s] by simp
  then show ?thesis using that(2) True by (simp add: expect_def Let_def)
next
  case False
  then show ?thesis using that(1) by (simp add: expect_def Let_def)
qed

lemma prepend_fuelled: "fuelled r s \<Longrightarrow> fuelled (prepend t r) s"
  unfolding prepend_def by (rule fuelled_bind) auto

lemma string_body_fuelled: "fuelled (string_body s) s"
proof (induction s rule: string_body.induct)
  case (2 c s)
  show ?case
  proof (cases "c = QUOTE \<or> c \<noteq> BACKSLASH \<or> s = []")
    case True
    have "fuelled (prepend [c] (string_body s)) (c # s)" if "c \<noteq> QUOTE" "c \<noteq> BACKSLASH"
      using prepend_fuelled [OF 2(3) [OF that]] by (rule fuelled_mono) simp
    then show ?thesis using True by (cases "c = QUOTE"; cases "c = BACKSLASH") simp_all
  next
    case False
    then obtain e t where s: "s = e # t" "c \<noteq> QUOTE" "c = BACKSLASH" by (cases s) auto
    show ?thesis
    proof (cases "e = CHR ''u''")
      case True
      show ?thesis
      proof (cases "stoul16 (take 4 t)")
        case (Some v)
        have "fuelled (string_body (drop 4 t)) (drop 4 t)" using 2(1) [OF s(2,3,1) True Some] .
        then show ?thesis using s True Some by (auto intro!: prepend_fuelled fuelled_mono [of _ "drop 4 t"])
      qed (use s True in simp)
    next
      case False
      have "fuelled (string_body t) t" using 2(2) [OF s(2,3,1) False] .
      then show ?thesis using s False by (auto intro!: prepend_fuelled fuelled_mono [of _ t])
    qed
  qed
qed simp

lemma parse_string_fuelled: "fuelled (parse_string n s) s"
  using string_body_fuelled fuelled_mono
  by (cases rule: expect_cases [of n QUOTE s]) (auto simp: parse_string_def)

lemma digits_span_length: "digits_span s = (a, b) \<Longrightarrow> length b \<le> length s"
  by (auto simp: digits_span_def length_dropWhile_le)

lemma number_span_length: "number_span s = (f, t, r) \<Longrightarrow> length r \<le> length s"
proof -
  have tl: "length (dropWhile is_digit (tl x)) \<le> length x" for x
    using length_dropWhile_le [of is_digit "tl x"] by simp
  have ttl: "length (dropWhile is_digit (tl (tl x))) \<le> length x" for x
    using length_dropWhile_le [of is_digit "tl (tl x)"] by simp
  assume "number_span s = (f, t, r)"
  moreover have "length (dropWhile is_digit (drop 1 s)) \<le> length s"
    using length_dropWhile_le [of is_digit "drop 1 s"] by simp
  moreover have "length (dropWhile is_digit s) \<le> length s" by (rule length_dropWhile_le)
  ultimately show ?thesis
    by (auto simp: number_span_def digits_span_def Let_def split: if_splits prod.splits
        intro: order_trans [OF tl] order_trans [OF ttl])
qed

lemma parse_number_fuelled: "fuelled (parse_number ops s) s"
  using number_span_length skip_ws_length [of s] order_trans
  by (fastforce simp: parse_number_def Let_def split: prod.split option.split)

lemma elements_fuelled:
  assumes "\<And>t. fuelled (pv t) t" and "length s < k"
  shows "fuelled (elements pv k s) s"
  using assms(2)
proof (induction k arbitrary: s)
  case (Suc k)
  have step: "fuelled (elements pv k (drop 1 (skip_ws t))) s"
    if "length t \<le> length s" "peek (skip_ws t) = CHR '',''" for t
  proof -
    have "skip_ws t \<noteq> []" using that(2) by (auto simp: peek_def)
    then have "length (drop 1 (skip_ws t)) < length s"
      using skip_ws_length [of t] that(1) by (cases "skip_ws t") auto
    with Suc show ?thesis by (metis fuelled_mono less_Suc_eq_le less_imp_le_nat less_le_trans)
  qed
  show ?case
    unfolding elements.simps
  proof (rule fuelled_bind [OF assms(1)], goal_cases)
    case (1 x t)
    have "length (drop 1 (skip_ws t)) \<le> length s" using skip_ws_length [of t] 1(2) by simp
    then show ?case using step [OF 1(2)] by (auto simp: Let_def intro!: fuelled_bind)
  qed
qed simp

lemma members_fuelled:
  assumes "\<And>t. fuelled (pv t) t" and "length s < k"
  shows "fuelled (members n pv k s) s"
  using assms(2)
proof (induction k arbitrary: s)
  case (Suc k)
  have step: "fuelled (members n pv k (drop 1 (skip_ws t))) s"
    if "length t \<le> length s" "peek (skip_ws t) = CHR '',''" for t
  proof -
    have "skip_ws t \<noteq> []" using that(2) by (auto simp: peek_def)
    then have "length (drop 1 (skip_ws t)) < length s"
      using skip_ws_length [of t] that(1) by (cases "skip_ws t") auto
    with Suc show ?thesis by (metis fuelled_mono less_Suc_eq_le less_imp_le_nat less_le_trans)
  qed
  have val: "fuelled (bind_result (pv t) (\<lambda>(v, s).
       let s = skip_ws s; c = peek s in
       if c = CHR ''}'' then Inr ([(key, v)], drop 1 s)
       else if c = CHR '','' then bind_result (members n pv k (drop 1 s)) (\<lambda>(ms, s). Inr ((key, v) # ms, s))
       else Inl (Msg (''expected '' @ [CHR 0x27, CHR '','', CHR 0x27] @ '' or '' @ [CHR 0x27, CHR ''}'', CHR 0x27] @ '' in object'')))) s"
    if "length t \<le> length s" for t key
  proof (rule fuelled_bind [OF fuelled_mono [OF assms(1) that]], goal_cases)
    case (1 v t)
    have "length (drop 1 (skip_ws t)) \<le> length s" using skip_ws_length [of t] 1(2) by simp
    then show ?case using step [OF 1(2)] by (auto simp: Let_def intro!: fuelled_bind)
  qed
  show ?case
    unfolding members.simps
  proof (rule fuelled_bind [OF fuelled_mono [OF parse_string_fuelled skip_ws_length]], goal_cases)
    case (1 key t)
    show ?case
    proof (cases rule: expect_cases [of n "CHR '':''" t])
      case (2 u)
      then show ?thesis using val [of u key] 1(2) by simp
    qed simp
  qed
qed simp

lemma parse_value_fuelled: "fuelled (parse_value ops n d s) s"
proof (induction d arbitrary: s)
  case 0
  let ?s = "skip_ws s"
  have "fuelled (parse_value ops n 0 s) ?s"
    using parse_string_fuelled [of n ?s] parse_number_fuelled [of ops ?s]
    by (auto simp: parse_value.simps [of ops n 0] Let_def parse_bool_def parse_null_def intro!: fuelled_bind)
  then show ?case by (rule fuelled_mono) (rule skip_ws_length)
next
  case (Suc d)
  let ?s = "skip_ws s" and ?pv = "parse_value ops n d"
  have arr: "fuelled (parse_array n ?pv ?s) ?s"
  proof (cases rule: expect_cases [of n "CHR ''[''" ?s])
    case (2 t)
    have l: "length (skip_ws t) \<le> length ?s" using skip_ws_length [of t] 2(2) by simp
    have "fuelled (elements ?pv (Suc (length (skip_ws t))) (skip_ws t)) ?s"
      using elements_fuelled [OF Suc] fuelled_mono l by blast
    then show ?thesis using l 2 by (auto simp: parse_array_def Let_def intro!: fuelled_bind)
  qed (simp add: parse_array_def)
  have obj: "fuelled (parse_object n ?pv ?s) ?s"
  proof (cases rule: expect_cases [of n "CHR ''{''" ?s])
    case (2 t)
    have l: "length (skip_ws t) \<le> length ?s" using skip_ws_length [of t] 2(2) by simp
    have "fuelled (members n ?pv (Suc (length (skip_ws t))) (skip_ws t)) ?s"
      using members_fuelled [OF Suc] fuelled_mono l by blast
    then show ?thesis using l 2 by (auto simp: parse_object_def Let_def intro!: fuelled_bind)
  qed (simp add: parse_object_def)
  have "fuelled (parse_value ops n (Suc d) s) ?s"
    using parse_string_fuelled [of n ?s] parse_number_fuelled [of ops ?s] arr obj
    by (auto simp: parse_value.simps [of ops n "Suc d"] Let_def parse_bool_def parse_null_def intro!: fuelled_bind)
  then show ?case by (rule fuelled_mono) (rule skip_ws_length)
qed

section \<open>Nesting\<close>

fun json_depth :: "json \<Rightarrow> nat" where
  "json_depth (JArray xs) = Suc (Max (insert 0 (set (map json_depth xs))))"
| "json_depth (JObject kvs) = Suc (Max (insert 0 (set (map (\<lambda>kv. json_depth (snd kv)) kvs))))"
| "json_depth _ = 0"

lemma depth_array: "json_depth (JArray xs) \<le> Suc d \<longleftrightarrow> (\<forall>x \<in> set xs. json_depth x \<le> d)"
  by simp

lemma depth_object: "json_depth (JObject kvs) \<le> Suc d \<longleftrightarrow> (\<forall>kv \<in> set kvs. json_depth (snd kv) \<le> d)"
  by simp

lemma elements_depth:
  assumes "\<And>t x r. pv t = Inr (x, r) \<Longrightarrow> json_depth x \<le> d"
  shows "elements pv k s = Inr (xs, r) \<Longrightarrow> x \<in> set xs \<Longrightarrow> json_depth x \<le> d"
proof (induction k arbitrary: s xs r x)
  case (Suc k)
  then show ?case
    using assms by (auto simp: bind_result_eq_Inr Let_def split: if_splits)
qed simp

lemma members_depth:
  assumes "\<And>t x r. pv t = Inr (x, r) \<Longrightarrow> json_depth x \<le> d"
  shows "members n pv k s = Inr (ms, r) \<Longrightarrow> kv \<in> set ms \<Longrightarrow> json_depth (snd kv) \<le> d"
proof (induction k arbitrary: s ms r kv)
  case (Suc k)
  from Suc.prems(1) obtain key s1 s2 v s3 where 1: "pv s2 = Inr (v, s3)"
    and p: "parse_string n (skip_ws s) = Inr (key, s1)" "expect n (CHR '':'') s1 = Inr s2"
    by (auto simp: bind_result_eq_Inr)
  have 2: "ms = [(key, v)] \<or> (\<exists>ms'. members n pv k (drop 1 (skip_ws s3)) = Inr (ms', r) \<and> ms = (key, v) # ms')"
    using Suc.prems(1) 1 p by (auto simp: bind_result_eq_Inr Let_def split: if_splits)
  from 2 show ?case
  proof
    assume "\<exists>ms'. members n pv k (drop 1 (skip_ws s3)) = Inr (ms', r) \<and> ms = (key, v) # ms'"
    then obtain ms' where m: "members n pv k (drop 1 (skip_ws s3)) = Inr (ms', r)" "ms = (key, v) # ms'" by blast
    from Suc.IH [OF m(1)] Suc.prems(2) m(2) assms [OF 1] show ?thesis by (metis set_ConsD snd_conv)
  qed (use Suc.prems(2) assms [OF 1] in simp)
qed simp

lemma set_update: "set (AList.update k v xs) \<subseteq> insert (k, v) (set xs)"
  by (induction xs) auto

lemma fold_update_subset: "set (fold (\<lambda>(k, v). AList.update k v) ms xs) \<subseteq> set ms \<union> set xs"
proof (induction ms arbitrary: xs)
  case (Cons m ms)
  show ?case using Cons [of "AList.update (fst m) (snd m) xs"] set_update [of "fst m" "snd m" xs]
    by (auto simp: case_prod_beta)
qed simp

lemma parse_value_depth: "parse_value ops n d s = Inr (j, r) \<Longrightarrow> json_depth j \<le> d"
proof (induction d arbitrary: s j r)
  case 0
  then show ?case
    by (auto simp: parse_value.simps [of ops n 0] Let_def bind_result_eq_Inr parse_bool_def parse_null_def
        parse_number_def split: if_splits prod.splits option.splits)
next
  case (Suc d)
  let ?s = "skip_ws s" and ?pv = "parse_value ops n d"
  have arr: "json_depth j \<le> Suc d" if "parse_array n ?pv t = Inr (j, r)" for t
  proof -
    from that consider "j = JArray []" | k u xs where "elements ?pv k u = Inr (xs, r)" "j = JArray xs"
      by (auto simp: parse_array_def Let_def bind_result_eq_Inr simp del: elements.simps split: if_splits)
    then show ?thesis
    proof cases
      case 2
      have "\<forall>x \<in> set xs. json_depth x \<le> d" using elements_depth [of ?pv d] Suc.IH 2(1) by blast
      then show ?thesis unfolding 2(2) depth_array .
    qed simp
  qed
  have obj: "json_depth j \<le> Suc d" if "parse_object n ?pv t = Inr (j, r)" for t
  proof -
    from that consider "j = JObject []" | k u ms where "members n ?pv k u = Inr (ms, r)" "j = object_of ms"
      by (auto simp: parse_object_def Let_def bind_result_eq_Inr simp del: members.simps split: if_splits)
    then show ?thesis
    proof cases
      case 2
      have "json_depth (snd kv) \<le> d" if "kv \<in> set (fold (\<lambda>(k, v). AList.update k v) ms [])" for kv
      proof -
        have "kv \<in> set ms" using fold_update_subset [of ms "[]"] that by auto
        with members_depth [of ?pv d, OF _ 2(1)] Suc.IH show ?thesis by blast
      qed
      then show ?thesis unfolding 2(2) object_of_def depth_object by blast
    qed simp
  qed
  show ?case using Suc.prems arr obj
    by (auto simp: parse_value.simps [of ops n "Suc d"] Let_def bind_result_eq_Inr parse_bool_def parse_null_def
        parse_number_def split: if_splits prod.splits option.splits)
qed

text \<open>
  C37: the JSON parser returns on every input: its loops never exhaust the fuel given by the
  input's length, and the value it returns nests at most 128 levels, whatever the input.
\<close>

theorem json_parse_total:
  "parse_value ops (length s) kMaxDepth (skip_ws s) \<noteq> Inl Out_Of_Fuel \<and>
   json_depth (fst (json_parse ops s)) \<le> kMaxDepth"
proof
  show "parse_value ops (length s) kMaxDepth (skip_ws s) \<noteq> Inl Out_Of_Fuel"
    using parse_value_fuelled by (metis fuelled_def)
  show "json_depth (fst (json_parse ops s)) \<le> kMaxDepth"
    using parse_value_depth [of ops "length s" kMaxDepth "skip_ws s"]
    by (auto simp: json_parse_def split: sum.split json_error.split)
qed

section \<open>Printing and reading back\<close>

lemma hex_value_char: "n < 16 \<Longrightarrow> hex_value (hex_char n) = Some n"
proof -
  assume n: "n < 16"
  have "(of_char (hex_char n) :: nat) = (if n < 10 then 48 + n else 87 + n)"
    using n by (simp add: hex_char_def digit_char_def of_char_of)
  then show ?thesis using n by (simp add: hex_value_def)
qed

lemma stoul16_control:
  assumes "n < 256"
  shows "stoul16 [CHR ''0'', CHR ''0'', hex_char (n div 16), hex_char (n mod 16)] = Some n"
proof -
  have h: "hex_value (hex_char (n div 16)) = Some (n div 16)" "hex_value (hex_char (n mod 16)) = Some (n mod 16)"
    using assms by (simp_all add: hex_value_char)
  have z: "hex_value (CHR ''0'') = Some 0" by (simp add: hex_value_def)
  have sp: "\<not> is_space (CHR ''0'')" by (simp add: is_space_def)
  have "n div 16 * 16 + n mod 16 = n" by simp
  moreover have "n < 2 ^ 64" using assms by simp
  ultimately show ?thesis by (simp add: stoul16_def sp h z)
qed

lemma utf8_ascii:
  assumes "n < 128"
  shows "utf8 (of_nat n) = [char_of n]"
proof -
  have "unat (of_nat n :: u32) = n" using assms by (simp add: unat_of_nat)
  moreover from this have "(of_nat n :: u32) < 0x80" using assms by (simp add: word_less_nat_alt)
  ultimately show ?thesis by (simp add: utf8_def)
qed

lemma prepend_prepend [simp]: "prepend a (prepend b r) = prepend (a @ b) r"
  by (cases r) (auto simp: prepend_def)

lemma prepend_Inr [simp]: "prepend a (Inr (b, t)) = Inr (a @ b, t)"
  by (simp add: prepend_def)

lemma string_body_escape: "string_body (escape_char c @ t) = prepend [c] (string_body t)"
proof (cases "c \<in> {QUOTE, BACKSLASH, CHR 0x08, CHR 0x0C, CHR 0x0A, CHR 0x0D, CHR 0x09}")
  case True
  then show ?thesis by (elim insertE emptyE) (simp_all add: escape_char_def unescape_def)
next
  case False
  then have ne: "c \<noteq> QUOTE" "c \<noteq> BACKSLASH" "c \<noteq> CHR 0x08" "c \<noteq> CHR 0x0C" "c \<noteq> CHR 0x0A" "c \<noteq> CHR 0x0D" "c \<noteq> CHR 0x09"
    by simp_all
  show ?thesis
  proof (cases "(of_char c :: nat) < 32")
    case True
    let ?h = "[CHR ''0'', CHR ''0'', hex_char (of_char c div 16), hex_char (of_char c mod 16)]"
    have e: "escape_char c = BACKSLASH # CHR ''u'' # ?h" using ne True by (simp only: escape_char_def if_False if_True)
    have s: "stoul16 (take 4 (?h @ t)) = Some (of_char c)" using stoul16_control [of "of_char c"] True by simp
    have d: "drop 4 (?h @ t) = t" by simp
    have u: "utf8 (of_nat (of_char c)) = [c]" using utf8_ascii [of "of_char c"] True by simp
    have "string_body (BACKSLASH # CHR ''u'' # (?h @ t)) = prepend (utf8 (of_nat (of_char c))) (string_body (drop 4 (?h @ t)))"
      using s by (subst string_body.simps) (simp del: append_Cons take_append)
    then show ?thesis unfolding e d u by (simp only: append_Cons append_Nil)
  next
    case big: False
    then have "escape_char c = [c]" using ne by (simp only: escape_char_def if_False)
    then show ?thesis using ne by simp
  qed
qed
lemma string_body_quoted: "string_body (json_escape_string s @ QUOTE # rest) = Inr (s, rest)"
proof (induction s)
  case Nil
  show ?case by (simp add: json_escape_string_def)
next
  case (Cons c s)
  have "string_body (json_escape_string (c # s) @ QUOTE # rest) =
      string_body (escape_char c @ (json_escape_string s @ QUOTE # rest))"
    by (simp only: json_escape_string_def list.map concat.simps append_assoc)
  also have "\<dots> = prepend [c] (Inr (s, rest))" by (simp only: string_body_escape Cons)
  finally show ?case by simp
qed

lemma parse_string_quoted: "parse_string n (quoted s @ rest) = Inr (s, rest)"
proof -
  have "expect n QUOTE (quoted s @ rest) = Inr (json_escape_string s @ QUOTE # rest)"
    by (simp add: quoted_def expect_def skip_ws_def is_ws_def peek_def)
  then show ?thesis by (simp only: parse_string_def bind_result_simps string_body_quoted)
qed

section \<open>Numbers\<close>

definition number_end :: "string \<Rightarrow> bool" where
  "number_end s \<longleftrightarrow> s = [] \<or> \<not> is_digit (hd s) \<and> hd s \<noteq> CHR ''.'' \<and> hd s \<noteq> CHR ''e'' \<and> hd s \<noteq> CHR ''E''"

lemma is_digit_iff: "is_digit c \<longleftrightarrow> c \<in> set ''0123456789''"
proof
  assume "is_digit c"
  then have "of_char c \<in> set [48..<58 :: nat]" unfolding is_digit_def set_upt atLeastLessThan_iff by linarith
  moreover have "list_all (\<lambda>n. char_of n \<in> set ''0123456789'') [48..<58 :: nat]" by code_simp
  ultimately have "char_of (of_char c :: nat) \<in> set ''0123456789''" unfolding list_all_iff by blast
  then show "c \<in> set ''0123456789''" by simp
qed (auto simp: is_digit_def)

lemma dec_nat_all_digits: "\<forall>c \<in> set (dec_nat n). is_digit c"
  using dec_nat_digits is_digit_iff by blast

lemma dec_nat_nonempty: "dec_nat n \<noteq> []"
  by (subst dec_nat.simps) simp

lemma digits_span_end:
  "\<forall>c \<in> set ds. is_digit c \<Longrightarrow> number_end rest \<Longrightarrow> digits_span (ds @ rest) = (ds, rest)"
  by (cases rest) (auto simp: digits_span_def number_end_def takeWhile_append2 dropWhile_append2)

lemma number_span_int:
  assumes "number_end rest"
  shows "number_span (dec_int i @ rest) = (False, dec_int i, rest)"
proof -
  have tail: "\<not> (rest \<noteq> [] \<and> hd rest = CHR ''.'')"
    "\<not> (rest \<noteq> [] \<and> (hd rest = CHR ''e'' \<or> hd rest = CHR ''E''))"
    using assms by (auto simp: number_end_def)
  show ?thesis
  proof (cases "i < 0")
    case True
    then have "dec_int i = CHR ''-'' # dec_nat (nat (- i))" by (simp add: dec_int_def)
    then show ?thesis
      using digits_span_end [OF dec_nat_all_digits assms, of "nat (- i)"]
      by (simp add: number_span_def peek_def Let_def if_not_P [OF tail(1)] if_not_P [OF tail(2)] del: if_split)
  next
    case False
    obtain c ds where d: "dec_nat (nat i) = c # ds" using dec_nat_nonempty by (cases "dec_nat (nat i)") auto
    then have "is_digit c" using dec_nat_all_digits [of "nat i"] by simp
    then have "c \<noteq> CHR ''-''" by (auto simp: is_digit_def)
    then show ?thesis
      using digits_span_end [OF dec_nat_all_digits assms, of "nat i"] False d
      by (simp add: number_span_def peek_def Let_def dec_int_def if_not_P [OF tail(1)] if_not_P [OF tail(2)] del: if_split)
  qed
qed

lemma strtoll_dec: "- (2 ^ 63) \<le> i \<Longrightarrow> i < 2 ^ 63 \<Longrightarrow> strtoll (dec_int i) = Some i"
proof (cases "i < 0")
  case False
  assume "- (2 ^ 63) \<le> i" "i < 2 ^ 63"
  obtain c ds where d: "dec_nat (nat i) = c # ds" using dec_nat_nonempty by (cases "dec_nat (nat i)") auto
  then have "is_digit c" using dec_nat_all_digits [of "nat i"] by simp
  then have "hd (dec_nat (nat i)) \<noteq> CHR ''-''" using d by (auto simp: is_digit_def)
  then show ?thesis using False \<open>i < 2 ^ 63\<close> by (simp add: strtoll_def dec_int_def undec_dec)
qed (simp add: strtoll_def dec_int_def undec_dec)

lemma dec_int_head:
  obtains c t where "dec_int i = c # t" "c = CHR ''-'' \<or> is_digit c"
proof (cases "i < 0")
  case True
  then show ?thesis using that by (simp add: dec_int_def)
next
  case False
  obtain c ds where d: "dec_nat (nat i) = c # ds" using dec_nat_nonempty by (cases "dec_nat (nat i)") auto
  then have "is_digit c" using dec_nat_all_digits [of "nat i"] by simp
  then show ?thesis using that d False by (simp add: dec_int_def)
qed

lemma not_ws_digit: "c = CHR ''-'' \<or> is_digit c \<Longrightarrow> \<not> is_ws c"
  by (auto simp: is_ws_def is_digit_def)

lemma skip_ws_cons: "\<not> is_ws c \<Longrightarrow> skip_ws (c # s) = c # s"
  by (simp add: skip_ws_def)

lemma dec_int_not_minus: "dec_int i \<noteq> ''-''"
  using dec_nat_nonempty dec_nat_all_digits [of "nat i"] by (auto simp: dec_int_def is_digit_def)

lemma parse_number_int:
  assumes "number_end rest" and "- (2 ^ 63) \<le> i" and "i < 2 ^ 63"
  shows "parse_number ops (dec_int i @ rest) = Inr (JInt i, rest)"
proof -
  obtain c t where d: "dec_int i = c # t" "c = CHR ''-'' \<or> is_digit c" by (rule dec_int_head)
  have "skip_ws (dec_int i @ rest) = dec_int i @ rest" using d not_ws_digit skip_ws_cons by simp
  moreover have "dec_int i \<noteq> []" using d by simp
  ultimately show ?thesis
    using number_span_int [OF assms(1)] strtoll_dec [OF assms(2,3)] dec_int_not_minus
    by (simp add: parse_number_def)
qed

section \<open>The round trip\<close>

text \<open>The values \<open>to_string\<close> prints without loss: no doubles, integers of 64 bits, distinct keys.\<close>

fun json_exact :: "json \<Rightarrow> bool" where
  "json_exact (JFloat d) = False"
| "json_exact (JInt i) = (- (2 ^ 63) \<le> i \<and> i < 2 ^ 63)"
| "json_exact (JArray xs) = (\<forall>x \<in> set xs. json_exact x)"
| "json_exact (JObject kvs) = (distinct (map fst kvs) \<and> (\<forall>kv \<in> set kvs. json_exact (snd kv)))"
| "json_exact _ = True"

definition reads_back :: "double_ops \<Rightarrow> (string \<Rightarrow> json parse_result) \<Rightarrow> json \<Rightarrow> bool" where
  "reads_back ops pv j \<longleftrightarrow> (\<forall>rest. number_end rest \<longrightarrow> pv (to_string ops j @ rest) = Inr (j, rest))"

lemma number_end_sep: "c \<in> {CHR '','', CHR '']'', CHR ''}''} \<Longrightarrow> number_end (c # s)"
  by (auto simp: number_end_def is_digit_def)

lemma elements_commas:
  assumes "xs \<noteq> []" and "\<And>x. x \<in> set xs \<Longrightarrow> reads_back ops pv x" and "length xs \<le> k"
  shows "elements pv k (commas (map (to_string ops) xs) @ '']'' @ rest) = Inr (xs, rest)"
  using assms
proof (induction xs arbitrary: k)
  case (Cons x xs)
  obtain k' where k: "k = Suc k'" using Cons.prems(3) by (cases k) auto
  have rb: "pv (to_string ops x @ s) = Inr (x, s)" if "number_end s" for s
    using Cons.prems(2) [of x] that by (simp add: reads_back_def)
  show ?case
  proof (cases xs)
    case Nil
    then show ?thesis
      using rb [OF number_end_sep, of "CHR '']''" rest] by (simp add: k Let_def peek_def skip_ws_cons is_ws_def)
  next
    case (Cons y ys)
    then have "elements pv k' (commas (map (to_string ops) xs) @ '']'' @ rest) = Inr (xs, rest)"
      using Cons.IH [of k'] Cons.prems k by simp
    then show ?thesis
      using rb [OF number_end_sep, of "CHR '',''" "commas (map (to_string ops) xs) @ '']'' @ rest"] Cons
      by (simp add: k Let_def peek_def skip_ws_cons is_ws_def)
  qed
qed simp

definition member_text :: "double_ops \<Rightarrow> string \<times> json \<Rightarrow> string" where
  "member_text ops kv = quoted (fst kv) @ '':'' @ to_string ops (snd kv)"

lemma skip_ws_quoted: "skip_ws (quoted k @ s) = quoted k @ s"
  by (simp add: quoted_def skip_ws_cons is_ws_def)

lemma expect_here: "\<not> is_ws c \<Longrightarrow> expect n c (c # s) = Inr s"
  by (simp add: expect_def skip_ws_cons peek_def)

lemma members_commas:
  assumes "kvs \<noteq> []" and "\<And>kv. kv \<in> set kvs \<Longrightarrow> reads_back ops pv (snd kv)" and "length kvs \<le> k"
  shows "members n pv k (commas (map (member_text ops) kvs) @ ''}'' @ rest) = Inr (kvs, rest)"
  using assms
proof (induction kvs arbitrary: k)
  case (Cons kv kvs)
  obtain k' where k: "k = Suc k'" using Cons.prems(3) by (cases k) auto
  have rb: "pv (to_string ops (snd kv) @ s) = Inr (snd kv, s)" if "number_end s" for s
    using Cons.prems(2) [of kv] that by (simp add: reads_back_def)
  have col: "expect n (CHR '':'') (CHR '':'' # s) = Inr s" for s by (simp add: expect_here is_ws_def)
  show ?case
  proof (cases kvs)
    case Nil
    then show ?thesis
      using rb [OF number_end_sep, of "CHR ''}''" rest]
      by (simp add: k member_text_def skip_ws_quoted parse_string_quoted col Let_def peek_def skip_ws_cons is_ws_def)
  next
    case (Cons y ys)
    define t where "t = commas (map (member_text ops) kvs) @ ''}'' @ rest"
    have shape: "commas (map (member_text ops) (kv # kvs)) @ ''}'' @ rest =
        quoted (fst kv) @ CHR '':'' # to_string ops (snd kv) @ CHR '','' # t"
      using Cons by (simp add: t_def member_text_def)
    have "members n pv k' t = Inr (kvs, rest)"
      using Cons.IH [of k'] Cons.prems k Cons unfolding t_def by simp
    then show ?thesis
      unfolding shape using rb [OF number_end_sep, of "CHR '',''" t]
      by (simp add: k skip_ws_quoted parse_string_quoted col Let_def peek_def skip_ws_cons is_ws_def)
  qed
qed simp

lemma update_distinct: "distinct (map fst (xs @ ms)) \<Longrightarrow> fold (\<lambda>(k, v). AList.update k v) ms xs = xs @ ms"
proof (induction ms arbitrary: xs)
  case (Cons m ms)
  have "AList.update (fst m) (snd m) xs = xs @ [m]"
    using Cons.prems by (induction xs) auto
  then show ?case using Cons.IH [of "xs @ [m]"] Cons.prems by (simp add: case_prod_beta)
qed simp

lemma commas_length: "length xs \<le> Suc (length (commas xs))"
  by (induction xs rule: commas.induct) auto

lemma text_head:
  assumes "json_exact j"
  obtains c t where "to_string ops j = c # t" "\<not> is_ws c" "c \<noteq> CHR '']''"
proof (cases j)
  case (JInt i)
  obtain c t where d: "dec_int i = c # t" "c = CHR ''-'' \<or> is_digit c" by (rule dec_int_head)
  then have "\<not> is_ws c" "c \<noteq> CHR '']''" by (auto simp: is_digit_def is_ws_def)
  with that [of c t] show thesis using JInt d by simp
next
  case (JBool b)
  then show thesis using that by (cases b) (simp_all add: is_ws_def)
qed (use assms that in \<open>simp_all add: is_ws_def quoted_def\<close>)

lemma commas_append: "\<exists>u. commas (x # xs) @ s = x @ u"
  by (cases xs) auto

lemma reads_back_value:
  assumes "json_exact j" and "json_depth j \<le> d"
  shows "reads_back ops (parse_value ops n d) j"
  using assms
proof (induction j arbitrary: d)
  case JNull
  show ?case by (simp add: reads_back_def parse_value.simps skip_ws_cons is_ws_def peek_def parse_null_def)
next
  case (JBool b)
  show ?case
    by (cases b) (simp_all add: reads_back_def parse_value.simps skip_ws_cons is_ws_def peek_def parse_bool_def)
next
  case (JInt i)
  have "parse_value ops n d (dec_int i @ rest) = Inr (JInt i, rest)" if "number_end rest" for rest
  proof -
    obtain c t where d: "dec_int i = c # t" "c = CHR ''-'' \<or> is_digit c" by (rule dec_int_head)
    then have "c \<noteq> QUOTE" "c \<noteq> CHR ''{''" "c \<noteq> CHR ''[''" "c \<noteq> CHR ''t''" "c \<noteq> CHR ''f''" "c \<noteq> CHR ''n''" "\<not> is_ws c"
      by (auto simp: is_digit_def is_ws_def)
    then have "parse_value ops n d (dec_int i @ rest) = parse_number ops (dec_int i @ rest)"
      using d by (simp add: parse_value.simps skip_ws_cons peek_def Let_def)
    then show ?thesis using parse_number_int [OF that] JInt.prems(1) by simp
  qed
  then show ?case by (simp add: reads_back_def)
next
  case (JFloat f)
  then show ?case by simp
next
  case (JString s)
  have "parse_value ops n d (quoted s @ rest) = Inr (JString s, rest)" for rest
  proof -
    have "peek (quoted s @ rest) = QUOTE" by (simp add: quoted_def peek_def)
    then show ?thesis by (simp add: parse_value.simps skip_ws_quoted parse_string_quoted Let_def)
  qed
  then show ?case by (simp add: reads_back_def)
next
  case (JArray xs)
  obtain d' where d': "d = Suc d'" using JArray.prems(2) by (cases d) auto
  have rb: "reads_back ops (parse_value ops n d') x" if "x \<in> set xs" for x
    using JArray.IH [OF that] JArray.prems that unfolding d' depth_array by simp
  have "parse_value ops n d (to_string ops (JArray xs) @ rest) = Inr (JArray xs, rest)" for rest
  proof (cases xs)
    case Nil
    then show ?thesis
      by (simp add: d' parse_value.simps parse_array_def skip_ws_cons is_ws_def peek_def Let_def expect_here)
  next
    case (Cons x ys)
    let ?t = "commas (map (to_string ops) xs) @ '']'' @ rest"
    have ne: "xs \<noteq> []" using Cons by simp
    have "json_exact x" using JArray.prems(1) Cons by simp
    then obtain c t where c: "to_string ops x = c # t" "\<not> is_ws c" "c \<noteq> CHR '']''" by (rule text_head)
    obtain u where "?t = to_string ops x @ u" using commas_append [of "to_string ops x" "map (to_string ops) ys" "'']'' @ rest"] Cons by auto
    then have "?t = c # t @ u" using c by simp
    then have head: "peek ?t \<noteq> CHR '']'' \<and> skip_ws ?t = ?t" using c(2,3) by (simp only: skip_ws_cons peek_def list.case simp_thms)
    have "elements (parse_value ops n d') (Suc (length ?t)) ?t = Inr (xs, rest)"
      using elements_commas [OF ne rb, of "Suc (length ?t)"] commas_length [of "map (to_string ops) xs"] by simp
    then have "parse_array n (parse_value ops n d') (CHR ''['' # ?t) = Inr (JArray xs, rest)"
      using head by (simp add: parse_array_def expect_here is_ws_def)
    then show ?thesis
      by (simp add: d' parse_value.simps [of ops n "Suc d'"] skip_ws_cons is_ws_def peek_def)
  qed
  then show ?case by (simp add: reads_back_def)
next
  case (JObject kvs)
  obtain d' where d': "d = Suc d'" using JObject.prems(2) by (cases d) auto
  have rb: "reads_back ops (parse_value ops n d') (snd kv)" if "kv \<in> set kvs" for kv
  proof -
    have "json_exact (snd kv)" "json_depth (snd kv) \<le> d'"
      using JObject.prems that unfolding d' depth_object by simp_all
    moreover have "snd kv \<in> Basic_BNFs.snds kv" by (cases kv) simp
    ultimately show ?thesis using JObject.IH [OF that] by blast
  qed
  have "parse_value ops n d (to_string ops (JObject kvs) @ rest) = Inr (JObject kvs, rest)" for rest
  proof (cases kvs)
    case Nil
    then show ?thesis
      by (simp add: d' parse_value.simps parse_object_def skip_ws_cons is_ws_def peek_def Let_def expect_here)
  next
    case (Cons x ys)
    let ?t = "commas (map (member_text ops) kvs) @ ''}'' @ rest"
    have ne: "kvs \<noteq> []" using Cons by simp
    obtain u where "?t = member_text ops x @ u"
      using commas_append [of "member_text ops x" "map (member_text ops) ys" "''}'' @ rest"] Cons by auto
    then obtain v where "?t = QUOTE # v" by (simp add: member_text_def quoted_def)
    then have head: "peek ?t \<noteq> CHR ''}'' \<and> skip_ws ?t = ?t"
      by (simp only: skip_ws_cons peek_def list.case) (simp add: skip_ws_cons is_ws_def)
    have "members n (parse_value ops n d') (Suc (length ?t)) ?t = Inr (kvs, rest)"
      using members_commas [OF ne rb, of "Suc (length ?t)"] commas_length [of "map (member_text ops) kvs"] by simp
    moreover have "object_of kvs = JObject kvs"
      using update_distinct [of "[]" kvs] JObject.prems(1) by (simp add: object_of_def)
    ultimately have "parse_object n (parse_value ops n d') (CHR ''{'' # ?t) = Inr (JObject kvs, rest)"
      using head by (simp add: parse_object_def expect_here is_ws_def)
    moreover have "to_string ops (JObject kvs) @ rest = CHR ''{'' # ?t"
      by (simp add: member_text_def cong: map_cong)
    ultimately show ?thesis
      by (simp add: d' parse_value.simps [of ops n "Suc d'"] skip_ws_cons is_ws_def peek_def)
  qed
  then show ?case by (simp add: reads_back_def)
qed

lemma print_parse_exact:
  assumes "json_exact j" and "json_depth j \<le> kMaxDepth"
  shows "json_parse ops (to_string ops j) = (j, [])"
proof -
  obtain c t where c: "to_string ops j = c # t" "\<not> is_ws c" by (rule text_head [OF assms(1)])
  then have "skip_ws (to_string ops j) = to_string ops j" by (simp add: skip_ws_cons)
  moreover have "parse_value ops n kMaxDepth (to_string ops j) = Inr (j, [])" for n
    using reads_back_value [OF assms, of ops n] by (simp add: reads_back_def number_end_def)
  ultimately show ?thesis using c by (simp add: json_parse_def)
qed

text \<open>
  C36: what the server prints as JSON, its parser reads back: for every value without doubles
  whose integers fit 64 bits, whose objects have distinct keys and that nests at most 128
  levels, with any bytes whatever in its strings, \<open>parse(to_string(v))\<close> is \<open>v\<close> with no error.
\<close>

theorem json_print_parse:
  assumes "json_exact j" and "json_depth j \<le> kMaxDepth"
  shows "json_parse ops (to_string ops j) = (j, [])"
  using assms by (rule print_parse_exact)

theorem json_print_parse_witness:
  "\<forall>ops. json_parse ops (to_string ops (JObject [(''a'', JArray [JInt (- 5), JBool True]), ([CHR 0x0A, QUOTE], JString [CHR 0x01])])) =
     (JObject [(''a'', JArray [JInt (- 5), JBool True]), ([CHR 0x0A, QUOTE], JString [CHR 0x01])], [])"
proof
  fix ops
  show "json_parse ops (to_string ops (JObject [(''a'', JArray [JInt (- 5), JBool True]), ([CHR 0x0A, QUOTE], JString [CHR 0x01])])) =
     (JObject [(''a'', JArray [JInt (- 5), JBool True]), ([CHR 0x0A, QUOTE], JString [CHR 0x01])], [])"
    by (rule json_print_parse) (simp_all add: kMaxDepth_def)
qed

section \<open>What is accepted although it is not JSON\<close>

lemma json_parse_string:
  assumes "string_body s = Inr (t, r)"
  shows "json_parse ops (QUOTE # s) = (JString t, [])"
proof -
  have "skip_ws (QUOTE # s) = QUOTE # s" by (simp add: skip_ws_cons is_ws_def)
  then show ?thesis using assms
    by (simp add: json_parse_def parse_value.simps parse_string_def expect_here is_ws_def peek_def)
qed

lemma string_body_u:
  assumes "stoul16 [a, b, c, d] = Some v" and "utf8 (of_nat v) = w"
  shows "string_body (BACKSLASH # CHR ''u'' # a # b # c # d # t) = prepend w (string_body t)"
proof -
  have "take 4 (a # b # c # d # t) = [a, b, c, d]" "drop 4 (a # b # c # d # t) = t" by simp_all
  then show ?thesis using assms by (subst string_body.simps) simp
qed

text \<open>
  The parser accepts text that is not JSON without reporting an error: a string whose closing
  quote is missing ends at the end of the input, and anything after the value is ignored.
\<close>

theorem json_accepts_non_json:
  "json_parse ops [QUOTE, CHR ''a'', CHR ''b''] = (JString ''ab'', []) \<and>
   json_parse ops ''null garbage'' = (JNull, []) \<and> json_parse ops ''[]{'' = (JArray [], [])"
proof -
  have "json_parse ops [QUOTE, CHR ''a'', CHR ''b''] = (JString ''ab'', [])"
    by (rule json_parse_string [where r = "[]"]) simp
  then show ?thesis
    by (simp add: json_parse_def parse_value.simps skip_ws_cons is_ws_def peek_def parse_null_def kMaxDepth_def
      parse_array_def expect_here numeral_eq_Suc)
qed

text \<open>
  The two halves of a surrogate pair are encoded one by one: the escape of U+1F600 becomes
  six bytes (ED A0 BD ED B8 80), which is not UTF-8, instead of the four bytes F0 9F 98 80.
\<close>

theorem json_surrogates_split:
  "json_parse ops (QUOTE # BACKSLASH # ''uD83D'' @ BACKSLASH # ''uDE00'' @ [QUOTE]) =
     (JString [CHR 0xED, CHR 0xA0, CHR 0xBD, CHR 0xED, CHR 0xB8, CHR 0x80], [])"
proof (rule json_parse_string [where r = "[]"])
  have d: "stoul16 ''D83D'' = Some 0xD83D" "stoul16 ''DE00'' = Some 0xDE00"
    by (simp_all add: stoul16_def is_space_def hex_value_def)
  have u: "utf8 (of_nat 0xD83D) = [CHR 0xED, CHR 0xA0, CHR 0xBD]" "utf8 (of_nat 0xDE00) = [CHR 0xED, CHR 0xB8, CHR 0x80]"
    by (simp add: utf8_def, code_simp)+
  have "string_body (BACKSLASH # CHR ''u'' # ''D83D'' @ BACKSLASH # CHR ''u'' # ''DE00'' @ [QUOTE]) =
      prepend [CHR 0xED, CHR 0xA0, CHR 0xBD] (prepend [CHR 0xED, CHR 0xB8, CHR 0x80] (string_body [QUOTE]))"
    unfolding append_Cons append_Nil string_body_u [OF d(1) u(1)] string_body_u [OF d(2) u(2)] ..
  then show "string_body (BACKSLASH # ''uD83D'' @ BACKSLASH # ''uDE00'' @ [QUOTE]) =
      Inr ([CHR 0xED, CHR 0xA0, CHR 0xBD, CHR 0xED, CHR 0xB8, CHR 0x80], [])"
    by simp
qed

end
