(* ===== verification/Http_Server_Correct.thy ===== *)
theory Http_Server_Correct
  imports Http_Server Http_Parse_Correct Json_Correct
begin

text \<open>
  What a request is answered with and which callbacks it may reach: framing of the responses,
  the guards, the streaming loop, the reassembly of a request from its segments.
\<close>

section \<open>Sending\<close>

text \<open>A socket that always takes at least one byte; it may take fewer than offered.\<close>

definition reliable :: "env \<Rightarrow> bool" where
  "reliable ev \<longleftrightarrow> (\<forall>k n. 0 < ev_send ev k n)"

text \<open>The state after some bytes were taken: the callbacks called are untouched.\<close>

definition delivers :: "io \<Rightarrow> string \<Rightarrow> io \<Rightarrow> bool" where
  "delivers w out w' \<longleftrightarrow> io_sent w' = io_sent w @ out \<and> io_calls w' = io_calls w"

lemma delivers_trans: "delivers w a w' \<Longrightarrow> delivers w' b w'' \<Longrightarrow> delivers w (a @ b) w''"
  by (simp add: delivers_def)

lemma send_all_delivers:
  assumes "reliable ev"
  shows "fst (send_all ev data w) \<and> delivers w data (snd (send_all ev data w))"
proof (induction "length data" arbitrary: data w rule: less_induct)
  case less
  show ?case
  proof (cases "data = []")
    case True
    then show ?thesis by (simp add: send_all.simps [of _ "[]"] delivers_def)
  next
    case False
    obtain n w' where s: "send_once ev data w = (n, w')" by (metis surj_pair)
    then have n: "0 < n" "n = ev_send ev (io_sends w) (length data)"
      and w': "io_sent w' = io_sent w @ take (nat n) data" "io_calls w' = io_calls w"
      using assms by (auto simp: send_once_def reliable_def Let_def)
    have "length (drop (nat n) data) < length data" using n False by (cases data) auto
    note IH = less.hyps [OF this, of w']
    have eq: "send_all ev data w = send_all ev (drop (nat n) data) w'"
      using False n(1) by (simp add: send_all.simps [of ev data w] s)
    show ?thesis using IH w' unfolding eq by (simp add: delivers_def)
  qed
qed

lemma send_all_calls: "io_calls (snd (send_all ev data w)) = io_calls w"
proof (induction "length data" arbitrary: data w rule: less_induct)
  case less
  obtain n w' where s: "send_once ev data w = (n, w')" by (metis surj_pair)
  then have w': "io_calls w' = io_calls w" by (auto simp: send_once_def Let_def)
  show ?case
  proof (cases "data = [] \<or> n \<le> 0")
    case True
    then show ?thesis using w' by (auto simp: send_all.simps [of ev data w] s)
  next
    case False
    then have "length (drop (nat n) data) < length data" by (cases data) auto
    note IH = less.hyps [OF this, of w']
    have eq: "send_all ev data w = send_all ev (drop (nat n) data) w'"
      using False by (simp add: send_all.simps [of ev data w] s)
    show ?thesis using IH w' unfolding eq by simp
  qed
qed

definition response :: "int \<Rightarrow> string \<Rightarrow> string \<Rightarrow> string" where
  "response status content_type body = response_head status content_type (length body) @ body"

lemma send_response_delivers:
  assumes "reliable ev"
  shows "delivers w (response status ctype body) (send_response ev status ctype body w)"
proof -
  let ?h = "response_head status ctype (length body)"
  note sends = send_all_delivers [OF assms]
  show ?thesis
  proof (cases "length ?h + length body \<le> BUF_SIZE")
    case True
    then show ?thesis using sends [of "?h @ body" w] by (simp add: send_response_def response_def Let_def)
  next
    case False
    obtain w1 where w1: "send_all ev ?h w = (True, w1)" using sends [of ?h w] by (metis prod.collapse)
    then have d1: "delivers w ?h w1" using sends [of ?h w] by simp
    have d2: "delivers w1 body (snd (send_all ev body w1))" using sends by blast
    have "send_response ev status ctype body w = (if body \<noteq> [] then snd (send_all ev body w1) else w1)"
      using False by (simp add: send_response_def Let_def w1)
    then show ?thesis using d1 delivers_trans [OF d1 d2] by (cases "body = []") (simp_all add: response_def)
  qed
qed

lemma send_response_calls [simp]: "io_calls (send_response ev status ctype body w) = io_calls w"
  using send_all_calls by (simp add: send_response_def Let_def split: prod.split) (metis snd_conv)

lemma send_sse_delivers:
  assumes "reliable ev"
  shows "delivers w sse_head (send_sse_headers ev w)" and "delivers w (sse_data_frame j) (send_sse_data ev j w)"
    and "delivers w sse_done_frame (send_sse_done ev w)"
  using send_all_delivers [OF assms] by (simp_all add: send_sse_headers_def send_sse_data_def send_sse_done_def)

lemma send_sse_calls [simp]:
  "io_calls (send_sse_headers ev w) = io_calls w" "io_calls (send_sse_data ev j w) = io_calls w"
  "io_calls (send_sse_done ev w) = io_calls w"
  by (simp_all add: send_sse_headers_def send_sse_data_def send_sse_done_def send_all_calls)

lemma send_error_calls [simp]:
  "io_calls (send_openai_error ev status m t c w) = io_calls w" "io_calls (send_error ev status m w) = io_calls w"
  by (simp_all add: send_openai_error_def send_error_def)

section \<open>Tokens of a stream\<close>

text \<open>The tokens the streaming loop obtains in at most \<open>k\<close> calls, the first of them the \<open>c\<close>-th.\<close>

primrec stream_results :: "(nat \<Rightarrow> string \<Rightarrow> int \<Rightarrow> bool \<Rightarrow> string) \<Rightarrow> nat \<Rightarrow> nat \<Rightarrow> string \<Rightarrow> string list" where
  "stream_results g c 0 prompt = []"
| "stream_results g c (Suc k) prompt =
     (let r = g c prompt 1 True in if r = [] then [] else r # stream_results g (Suc c) k (prompt @ r))"

text \<open>The calls it makes: the prompt grows by every token, and an empty token costs a last call.\<close>

definition stream_calls :: "nat \<Rightarrow> string \<Rightarrow> string list \<Rightarrow> callback list" where
  "stream_calls k prompt toks =
     map (\<lambda>i. Generate (prompt @ concat (take i toks)) 1 True) [0..<min k (Suc (length toks))]"

lemma stream_calls_Cons:
  "stream_calls (Suc k) prompt (r # toks) = Generate prompt 1 True # stream_calls k (prompt @ r) toks"
proof -
  have "[0..<Suc n] = 0 # map Suc [0..<n]" for n by (simp only: map_Suc_upt upt_conv_Cons [OF zero_less_Suc])
  then have "[0..<min (Suc k) (Suc (Suc (length toks)))] = 0 # map Suc [0..<min k (Suc (length toks))]"
    by (simp only: min_Suc_Suc)
  then show ?thesis by (simp add: stream_calls_def)
qed

lemma stream_results_length: "length (stream_results g c k prompt) \<le> k"
  by (induction k arbitrary: c prompt) (simp_all add: Let_def)

lemma stream_tokens_calls:
  "io_calls (stream_tokens ev g chunk k prompt w) =
   io_calls w @ stream_calls k prompt (stream_results g (length (io_calls w)) k prompt)"
proof (induction k arbitrary: prompt w)
  case 0
  then show ?case by (simp add: stream_calls_def)
next
  case (Suc k)
  let ?r = "g (length (io_calls w)) prompt 1 True"
  show ?case
  proof (cases "?r = []")
    case True
    then show ?thesis by (simp add: call_generate_def stream_calls_def)
  next
    case False
    then show ?thesis by (simp add: call_generate_def Suc.IH stream_calls_Cons Let_def)
  qed
qed

lemma stream_tokens_sent:
  assumes "reliable ev"
  shows "io_sent (stream_tokens ev g chunk k prompt w) =
    io_sent w @ concat (map (\<lambda>t. sse_data_frame (print_json ev (chunk t))) (stream_results g (length (io_calls w)) k prompt))"
proof (induction k arbitrary: prompt w)
  case 0
  then show ?case by simp
next
  case (Suc k)
  let ?r = "g (length (io_calls w)) prompt 1 True"
  let ?w = "w\<lparr>io_calls := io_calls w @ [Generate prompt 1 True]\<rparr>"
  have sent: "io_sent (send_sse_data ev j ?w) = io_sent w @ sse_data_frame j" for j
    using send_sse_delivers(2) [OF assms, of ?w j] by (simp add: delivers_def)
  show ?case
  proof (cases "?r = []")
    case True
    then show ?thesis by (simp add: call_generate_def)
  next
    case False
    then show ?thesis by (simp add: call_generate_def Suc.IH sent Let_def)
  qed
qed

section \<open>Framing\<close>

lemma find_sub_cut:
  assumes "pat \<noteq> []" and "c \<notin> set pat"
  shows "find_sub pat (x @ c # y) =
    (case find_sub pat x of Some i \<Rightarrow> Some i | None \<Rightarrow> map_option (\<lambda>i. Suc (length x + i)) (find_sub pat y))"
proof (induction x)
  case Nil
  obtain p ps where "pat = p # ps" using assms(1) by (cases pat) auto
  then show ?case using assms(2) by (cases "find_sub pat y") auto
next
  case (Cons d x)
  have "take (length pat) (d # x @ c # y) = pat \<longleftrightarrow> take (length pat) (d # x) = pat"
  proof (cases "length pat \<le> Suc (length x)")
    case True
    then show ?thesis by (cases "length pat") simp_all
  next
    case False
    then have "c \<in> set (take (length pat) (d # x @ c # y))"
      by (cases "length pat"; cases "length pat - Suc (length x)") (auto simp: take_Cons')
    moreover have "length (take (length pat) (d # x)) < length pat" using False by simp
    ultimately show ?thesis using assms(2) by (metis less_irrefl)
  qed
  then show ?case using Cons.IH by (cases "find_sub pat x"; cases "find_sub pat y") simp_all
qed

lemma find_sub_bound: "find_sub pat s = Some i \<Longrightarrow> i + length pat \<le> length s"
proof (induction s arbitrary: i)
  case (Cons c s)
  show ?case
  proof (cases "take (length pat) (c # s) = pat")
    case True
    then have "length pat \<le> length (c # s)" by (metis length_take min.cobounded1)
    then show ?thesis using Cons.prems True by simp
  next
    case False
    then show ?thesis using Cons by auto
  qed
qed (simp split: if_splits)

lemma find_sub_absent: "p \<notin> set s \<Longrightarrow> p \<in> set pat \<Longrightarrow> find_sub pat s = None"
proof (induction s)
  case (Cons d s)
  have "p \<notin> set (take (length pat) (d # s))" using Cons.prems(1) set_take_subset by fast
  then have "take (length pat) (d # s) \<noteq> pat" using Cons.prems(2) by metis
  then show ?case using Cons by simp
qed auto

lemma content_digits_step:
  assumes "\<forall>c \<in> set ds. is_digit c" and "\<not> is_digit c" and "0 \<le> v"
    and "foldl (\<lambda>n c. n * 10 + (of_char c - 48)) (nat v) ds \<le> m"
  shows "content_digits (int m) (ds @ c # t) any v =
    (if ds = [] \<and> \<not> any then - 1 else int (foldl (\<lambda>n c. n * 10 + (of_char c - 48)) (nat v) ds))"
  using assms(1,3,4)
proof (induction ds arbitrary: v any)
  case Nil
  then show ?case using assms(2) by simp
next
  case (Cons d ds)
  have d: "48 \<le> (of_char d :: nat)" using Cons.prems(1) by (simp add: is_digit_def)
  have grow: "n \<le> foldl (\<lambda>n c. n * 10 + (of_char c - 48)) n xs" for n :: nat and xs
    by (induction xs arbitrary: n) (simp, metis (no_types, lifting) add.commute foldl_Cons le_add_same_cancel1
        le_trans mult_le_mono2 nat_mult_1_right one_le_numeral trans_le_add1 zero_le)
  let ?v = "v * 10 + (int (of_char d) - 48)"
  have nv: "nat ?v = nat v * 10 + (of_char d - 48)" using d Cons.prems(2) by (simp add: nat_add_distrib nat_diff_distrib nat_mult_distrib)
  then have "nat ?v \<le> m" using grow [of "nat ?v" ds] Cons.prems(3) by simp
  then have le: "\<not> ?v > int m" by simp
  have pos: "0 \<le> ?v" using d Cons.prems(2) by simp
  have "content_digits (int m) (ds @ c # t) True ?v = int (foldl (\<lambda>n c. n * 10 + (of_char c - 48)) (nat ?v) ds)"
    using Cons.IH [of ?v True] Cons.prems pos nv by simp
  then show ?case using Cons.prems(1) le nv by (simp add: Let_def)
qed

lemma content_digits_dec:
  "n \<le> m \<Longrightarrow> \<not> is_digit c \<Longrightarrow> content_digits (int m) (dec_nat n @ c # t) False 0 = int n"
  using content_digits_step [OF dec_nat_all_digits, of c 0 n m t False] dec_nat_nonempty [of n] undec_dec [of n]
  by (simp add: undec_def)

text \<open>How a client finds the end of a response: the first blank line, then as many bytes as promised.\<close>

definition framed :: "string \<Rightarrow> bool" where
  "framed out \<longleftrightarrow>
     (case find_sub (CRLF @ CRLF) out of
        None \<Rightarrow> False
      | Some i \<Rightarrow> parse_content_length (take i out) (int (length out)) = int (length out) - int i - 4)"

definition response_lines :: "int \<Rightarrow> nat \<Rightarrow> string list" where
  "response_lines status n =
     [''HTTP/1.1 '' @ dec_int status @ '' '' @ status_text status,
      ''Content-Type: application/json'', ''Content-Length: '' @ dec_nat n] @
     [''Connection: close'',
        ''Server: TransFormers-Fusion/'' @ dec_nat 1,
        ''Access-Control-Allow-Origin: *'',
        ''Access-Control-Allow-Methods: GET, POST, OPTIONS'',
        ''Access-Control-Allow-Headers: Content-Type, Authorization'',
        ''X-Content-Type-Options: nosniff'',
        ''X-Frame-Options: DENY'',
        ''Referrer-Policy: no-referrer'']"

lemma head_lines: "response_head status ''application/json'' n = header_lines (response_lines status n) @ CRLF"
  by (simp add: response_head_def response_lines_def)

lemma dec_int_chars: "c \<in> set (dec_int i) \<Longrightarrow> c = CHR ''-'' \<or> is_digit c"
  using dec_nat_all_digits by (auto simp: dec_int_def split: if_splits)

lemma status_text_chars: "c \<in> set (status_text st) \<Longrightarrow> c \<noteq> CR \<and> c \<noteq> LF \<and> c \<noteq> CHR '':''"
proof -
  have "list_all (\<lambda>st. list_all (\<lambda>c. c \<noteq> CR \<and> c \<noteq> LF \<and> c \<noteq> CHR '':'') (status_text st))
      [200, 201, 204, 301, 400, 401, 403, 404, 405, 408, 413, 414, 415, 429, 431, 500, 501, 502, 503, 0]"
    by code_simp
  moreover have "status_text st = status_text 0"
    if "st \<notin> set [200, 201, 204, 301, 400, 401, 403, 404, 405, 408, 413, 414, 415, 429, 431, 500, 501, 502, 503, 0]"
    using that by (simp add: status_text_def)
  ultimately show "c \<in> set (status_text st) \<Longrightarrow> ?thesis"
    unfolding list_all_iff by (metis list.set_intros(1) list.set_intros(2))
qed

lemma not_digit: "\<not> is_digit CR" "\<not> is_digit LF" "\<not> is_digit (CHR '':'')"
  by (simp_all add: is_digit_def)

lemma response_lines_clean: "\<forall>l \<in> set (response_lines status n). clean_line l"
proof -
  have d: "CR \<notin> set (dec_nat k)" "LF \<notin> set (dec_nat k)" for k
    using dec_nat_all_digits [of k] not_digit by blast+
  have i: "CR \<notin> set (dec_int status)" "LF \<notin> set (dec_int status)"
    using dec_int_chars [of CR status] dec_int_chars [of LF status] not_digit by auto
  have s: "CR \<notin> set (status_text status)" "LF \<notin> set (status_text status)" using status_text_chars by blast+
  show ?thesis using d i s by (simp add: response_lines_def clean_line_def)
qed

lemma lower_digits: "map lower_char (dec_nat n) = dec_nat n"
proof (rule map_idI)
  fix c assume "c \<in> set (dec_nat n)"
  then show "lower_char c = c" using dec_nat_all_digits [of n] by (auto simp: lower_char_def is_digit_def Let_def)
qed

lemma lower_char_same: "lower_char c = d \<Longrightarrow> \<not> (97 \<le> (of_char d :: nat) \<and> (of_char d :: nat) \<le> 122) \<Longrightarrow> c = d"
proof -
  assume a: "lower_char c = d" and d: "\<not> (97 \<le> (of_char d :: nat) \<and> (of_char d :: nat) \<le> 122)"
  show "c = d"
  proof (rule ccontr)
    assume "c \<noteq> d"
    then have "65 \<le> (of_char c :: nat)" "(of_char c :: nat) \<le> 90" "d = char_of (of_char c + 32 :: nat)"
      using a by (auto simp: lower_char_def Let_def split: if_splits)
    then have "(of_char d :: nat) = of_char c + 32" by (simp add: of_char_of)
    then show False using d \<open>65 \<le> _\<close> \<open>_ \<le> 90\<close> by simp
  qed
qed

lemma response_framed:
  "framed (response status ''application/json'' body)"
proof -
  let ?n = "length body" and ?ls = "response_lines status (length body)"
  let ?out = "response status ''application/json'' body"
  let ?x = "''HTTP/1.1 '' @ dec_int status @ '' '' @ status_text status"
  have out: "?out = concat (map (\<lambda>l. l @ CRLF) ?ls) @ CRLF @ body"
    by (simp add: response_def head_lines header_lines_def)
  have "?ls \<noteq> []" by (simp add: response_lines_def)
  then obtain i where i: "find_sub (CRLF @ CRLF) ?out = Some i"
    "take i ?out = concat (map (\<lambda>l. l @ CRLF) (butlast ?ls)) @ last ?ls" "drop (i + 4) ?out = body"
    using find_header_end [OF _ response_lines_clean, of status ?n body] unfolding out by blast
  obtain z where z: "take i ?out = ?x @ CR # LF # ''Content-Type: application/json'' @ CR # LF # ''Content-Length: '' @ dec_nat ?n @ CR # z"
    unfolding i(2) by (simp add: response_lines_def CRLF_def)
  define lower where "lower = map lower_char (take i ?out)"
  have lower: "lower = map lower_char ?x @ CR # (LF # ''content-type: application/json'') @ CR # LF #
      ''content-length: '' @ dec_nat ?n @ CR # map lower_char z"
    unfolding lower_def z by (simp add: lower_digits) (simp add: lower_char_def, code_simp)
  have "CHR '':'' \<notin> set ?x"
    using dec_int_chars [of "CHR '':''" status] status_text_chars not_digit by auto
  then have "CHR '':'' \<notin> set (map lower_char ?x)"
    using lower_char_same [of _ "CHR '':''"] by fastforce
  then have x: "find_sub ''content-length:'' (map lower_char ?x) = None" by (rule find_sub_absent) simp
  have y: "find_sub ''content-length:'' (LF # ''content-type: application/json'') = None" by code_simp
  have l: "find_sub ''content-length:'' (LF # ''content-length: '' @ t) = Some 1" for t by simp
  have cr: "''content-length:'' \<noteq> []" "CR \<notin> set ''content-length:''" by simp_all
  let ?p = "length (map lower_char ?x @ CR # (LF # ''content-type: application/json'') @ [CR, LF])"
  have f: "find_sub ''content-length:'' lower = Some ?p"
    unfolding lower find_sub_cut [OF cr, of "map lower_char ?x"] x option.case
      find_sub_cut [OF cr, of "LF # ''content-type: application/json''"] y l by simp
  have "lower = (map lower_char ?x @ CR # (LF # ''content-type: application/json'') @ [CR, LF]) @
      ''content-length:'' @ CHR '' '' # dec_nat ?n @ CR # map lower_char z" unfolding lower by simp
  then have d: "drop (?p + 15) lower = CHR '' '' # dec_nat ?n @ CR # map lower_char z"
    by (simp only: drop_append) simp
  have len: "length ?out = i + 4 + ?n"
  proof -
    have "i + 4 \<le> length ?out" using find_sub_bound [OF i(1)] by (simp add: CRLF_def)
    moreover have "length (drop (i + 4) ?out) = ?n" by (simp only: i(3))
    ultimately show ?thesis unfolding length_drop by linarith
  qed
  obtain c t where c: "dec_nat ?n = c # t" "is_digit c" using dec_nat_nonempty dec_nat_all_digits
    by (metis list.exhaust list.set_intros(1))
  then have blank: "\<not> is_blank c" by (auto simp: is_blank_def is_digit_def)
  have "parse_content_length (take i ?out) (int (length ?out)) = content_digits (int (length ?out)) (dec_nat ?n @ CR # map lower_char z) False 0"
    unfolding parse_content_length_def lower_def [symmetric] Let_def f option.case d using blank c(1)
    by (simp add: is_blank_def)
  also have "\<dots> = int ?n" by (rule content_digits_dec) (simp_all add: len not_digit)
  finally show ?thesis unfolding framed_def i(1) option.case by (simp add: len)
qed

end
