(* ===== verification/Http_Answers.thy ===== *)
theory Http_Answers
  imports Http_Server_Correct "HOL-Library.Multiset"
begin

text \<open>
  Every request gets one answer that its client can delimit, and a stream delivers the tokens
  that were generated.
\<close>

section \<open>Objects in any order\<close>

definition order_ok :: "env \<Rightarrow> bool" where
  "order_ok ev \<longleftrightarrow> (\<forall>kvs. mset (ev_order ev kvs) = mset kvs)"

definition time_ok :: "env \<Rightarrow> bool" where
  "time_ok ev \<longleftrightarrow> 0 \<le> ev_time ev \<and> ev_time ev < 2 ^ 63"

lemma object_order:
  assumes "order_ok ev"
  shows "set (ev_order ev kvs) = set kvs" and "distinct (map fst (ev_order ev kvs)) = distinct (map fst kvs)"
proof -
  have m: "mset (ev_order ev kvs) = mset kvs" using assms by (simp add: order_ok_def)
  show "set (ev_order ev kvs) = set kvs" using m by (rule mset_eq_setD)
  have "mset (map fst (ev_order ev kvs)) = mset (map fst kvs)" using m by simp
  then show "distinct (map fst (ev_order ev kvs)) = distinct (map fst kvs)" by (rule mset_eq_imp_distinct_iff)
qed

lemma object_exact:
  "order_ok ev \<Longrightarrow> json_exact (object_json ev kvs) \<longleftrightarrow> distinct (map fst kvs) \<and> (\<forall>kv \<in> set kvs. json_exact (snd kv))"
  by (simp add: object_json_def object_order)

lemma object_depth:
  "order_ok ev \<Longrightarrow> json_depth (object_json ev kvs) \<le> Suc d \<longleftrightarrow> (\<forall>kv \<in> set kvs. json_depth (snd kv) \<le> d)"
  unfolding object_json_def depth_object by (simp add: object_order)

lemma object_field:
  assumes "order_ok ev" and "distinct (map fst kvs)"
  shows "get_field (object_json ev kvs) k = (case map_of kvs k of Some v \<Rightarrow> v | None \<Rightarrow> JNull)"
proof -
  have "map_of (ev_order ev kvs) = map_of kvs"
    using assms by (intro map_of_inject_set [THEN iffD2]) (simp_all add: object_order)
  then show ?thesis by (simp add: get_field_def object_json_def)
qed

lemma set_commas: "set (commas xs) \<subseteq> insert (CHR '','') (\<Union> (set (map set xs)))"
  by (induction xs rule: commas.induct) auto

lemma escape_no_LF: "LF \<notin> set (json_escape_string s)"
proof -
  have "LF \<notin> set (escape_char c)" for c
  proof -
    have h: "list_all (\<lambda>n. hex_char n \<noteq> LF) [0..<16]" by code_simp
    have "LF \<noteq> hex_char ((of_char c :: nat) div 16)" if "(of_char c :: nat) < 32"
    proof -
      have "(of_char c :: nat) div 16 \<in> set [0..<16]" using that by simp
      then show ?thesis using h unfolding list_all_iff by metis
    qed
    moreover have "hex_char ((of_char c :: nat) mod 16) \<noteq> LF" using h by (simp add: list_all_iff)
    ultimately show ?thesis by (simp add: escape_char_def del: of_char_of)
  qed
  then show ?thesis by (auto simp: json_escape_string_def)
qed

lemma quoted_no_LF: "LF \<notin> set (quoted s)"
  using escape_no_LF by (simp add: quoted_def)

lemma exact_no_LF: "json_exact j \<Longrightarrow> LF \<notin> set (to_string ops j)"
proof (induction j rule: json_exact.induct)
  case (2 i)
  then show ?case using dec_int_chars [of LF i] not_digit by auto
next
  case (3 xs)
  then have "\<forall>x \<in> set xs. LF \<notin> set (to_string ops x)" by simp
  then show ?case using set_commas [of "map (to_string ops) xs"] by auto
next
  case (4 kvs)
  then have "\<forall>kv \<in> set kvs. LF \<notin> set (to_string ops (snd kv))" by auto
  then have "LF \<notin> (\<Union>kv \<in> set kvs. set (quoted (fst kv) @ '':'' @ to_string ops (snd kv)))"
    using quoted_no_LF by simp
  then show ?case
    using set_commas [of "map (\<lambda>kv. quoted (fst kv) @ '':'' @ to_string ops (snd kv)) kvs"] by fastforce
qed (simp_all add: quoted_no_LF)

section \<open>Errors\<close>

text \<open>
  The error a client reads: whatever bytes the message holds, the body of the error parses and
  its fields are those given.
\<close>

lemma openai_error_reads:
  fixes t :: string
  assumes "order_ok ev"
  defines "t' \<equiv> (if t = [] then ''invalid_request_error'' else t)"
  shows "json_parse (ev_ops ev) (openai_error_json ev m t c) =
    (object_json ev [(''error'', object_json ev [(''message'', JString m), (''type'', JString t'), (''code'', JString c)])], [])"
proof -
  let ?j = "object_json ev [(''error'', object_json ev [(''message'', JString m), (''type'', JString t'), (''code'', JString c)])]"
  have x: "json_exact ?j" by (simp add: object_exact [OF assms(1)])
  have "json_depth ?j \<le> Suc (Suc 0)" by (simp add: object_depth [OF assms(1)])
  then have d: "json_depth ?j \<le> kMaxDepth" by (simp add: kMaxDepth_def)
  show ?thesis using print_parse_exact [OF x d] by (simp add: openai_error_json_def print_json_def t'_def)
qed

section \<open>One answer to every request\<close>

text \<open>An event stream: its head, frames without line breaks, and the terminator.\<close>

definition event_stream :: "string \<Rightarrow> bool" where
  "event_stream out \<longleftrightarrow> (\<exists>frames. (\<forall>f \<in> set frames. LF \<notin> set f) \<and>
     out = sse_head @ concat (map sse_data_frame frames) @ sse_done_frame)"

definition preflight :: string where
  "preflight = header_lines
       [''HTTP/1.1 204 No Content'',
        ''Access-Control-Allow-Origin: *'',
        ''Access-Control-Allow-Methods: GET, POST, OPTIONS'',
        ''Access-Control-Allow-Headers: Content-Type, Authorization'',
        ''Access-Control-Max-Age: 86400'',
        ''Content-Length: 0''] @ CRLF"

definition answer :: "string \<Rightarrow> bool" where
  "answer out \<longleftrightarrow> framed out \<or> event_stream out"

definition answers :: "io \<Rightarrow> io \<Rightarrow> bool" where
  "answers w w' \<longleftrightarrow> (\<exists>out. answer out \<and> io_sent w' = io_sent w @ out)"

lemma answers_from: "answers w1 w2 \<Longrightarrow> io_sent w1 = io_sent w \<Longrightarrow> answers w w2"
  by (simp add: answers_def)

text \<open>What the documentation of the socket, the hash table and the clock promises.\<close>

definition env_ok :: "env \<Rightarrow> bool" where
  "env_ok ev \<longleftrightarrow> reliable ev \<and> order_ok ev \<and> time_ok ev"

lemma env_okD: "env_ok ev \<Longrightarrow> reliable ev" "env_ok ev \<Longrightarrow> order_ok ev" "env_ok ev \<Longrightarrow> time_ok ev"
  by (simp_all add: env_ok_def)

lemma response_answers:
  assumes "env_ok ev"
  shows "answers w (send_response ev status ''application/json'' body w)"
proof -
  have "io_sent (send_response ev status ''application/json'' body w) = io_sent w @ response status ''application/json'' body"
    using send_response_delivers [OF env_okD(1) [OF assms]] by (simp add: delivers_def)
  moreover have "answer (response status ''application/json'' body)" unfolding answer_def using response_framed by blast
  ultimately show ?thesis unfolding answers_def by blast
qed

lemma openai_error_answers: "env_ok ev \<Longrightarrow> answers w (send_openai_error ev status m t c w)"
  unfolding send_openai_error_def by (rule response_answers)

lemma error_answers: "env_ok ev \<Longrightarrow> answers w (send_error ev status m w)"
  unfolding send_error_def by (rule response_answers)

text \<open>The preflight reply is sent with a single call, which may take a part of it only.\<close>

definition preflight_cut :: "env \<Rightarrow> http_request \<Rightarrow> io \<Rightarrow> io \<Rightarrow> bool" where
  "preflight_cut ev req w w' \<longleftrightarrow> rq_method req = ''OPTIONS'' \<and>
     ev_send ev (io_sends w) (length preflight) < int (length preflight) \<and>
     io_sent w' = io_sent w @ take (nat (ev_send ev (io_sends w) (length preflight))) preflight"

lemma preflight_framed: "framed preflight"
  by code_simp

lemma options_answers:
  assumes "rq_method req = ''OPTIONS''"
  shows "answers w (handle_options ev w) \<or> preflight_cut ev req w (handle_options ev w)"
proof -
  let ?n = "ev_send ev (io_sends w) (length preflight)"
  have sent: "io_sent (handle_options ev w) = io_sent w @ take (nat ?n) preflight"
    by (simp add: handle_options_def send_once_def preflight_def Let_def del: append_assoc)
  show ?thesis
  proof (cases "?n < int (length preflight)")
    case True
    then show ?thesis using sent assms by (simp only: preflight_cut_def simp_thms)
  next
    case False
    then have "take (nat ?n) preflight = preflight" by (intro take_all) linarith
    then show ?thesis using sent preflight_framed unfolding answers_def answer_def by metis
  qed
qed

text \<open>A stream of frames, starting with the head.\<close>

lemma stream_answers:
  assumes "env_ok ev" and "io_sent w' = io_sent w @ sse_head @ concat (map sse_data_frame frames)"
    and "\<forall>f \<in> set frames. LF \<notin> set f"
  shows "answers w (send_sse_done ev w')"
proof -
  have "io_sent (send_sse_done ev w') = io_sent w @ sse_head @ concat (map sse_data_frame frames) @ sse_done_frame"
    using send_sse_delivers(3) [OF env_okD(1) [OF assms(1)], of w'] assms(2) by (simp add: delivers_def)
  then show ?thesis using assms(3) unfolding answers_def answer_def event_stream_def by blast
qed

lemma sse_sent:
  "env_ok ev \<Longrightarrow> io_sent (send_sse_headers ev w) = io_sent w @ sse_head"
  "env_ok ev \<Longrightarrow> io_sent (send_sse_data ev j w) = io_sent w @ sse_data_frame j"
  using send_sse_delivers [OF env_okD(1)] by (simp_all add: delivers_def)

lemma error_no_LF: "env_ok ev \<Longrightarrow> LF \<notin> set (openai_error_json ev m t c)"
  unfolding openai_error_json_def print_json_def
  by (rule exact_no_LF) (simp add: object_exact [OF env_okD(2)])

lemma completion_exact:
  assumes "env_ok ev" and "json_exact (snd payload)" and "fst payload \<noteq> ''index''" and "fst payload \<noteq> ''finish_reason''"
    and "json_exact finish"
  shows "json_exact (completion_json ev cid kind model payload finish [])"
  using assms env_okD(3) [OF assms(1)]
  by (simp add: completion_json_def object_exact [OF env_okD(2) [OF assms(1)]] time_ok_def)

lemma completion_no_LF:
  assumes "env_ok ev" and "json_exact (snd payload)" and "fst payload \<noteq> ''index''" and "fst payload \<noteq> ''finish_reason''"
    and "json_exact finish"
  shows "LF \<notin> set (print_json ev (completion_json ev cid kind model payload finish []))"
  unfolding print_json_def by (rule exact_no_LF) (rule completion_exact [OF assms])

lemma completions_answers:
  assumes "env_ok ev"
  shows "answers w (handle_completions ev sv req w)"
proof (cases "rq_method req \<noteq> ''POST'' \<or> snd (parse_body ev (rq_body req)) \<noteq> []")
  case True
  then show ?thesis by (auto simp: handle_completions_def Let_def openai_error_answers [OF assms] split: prod.split)
next
  case False
  obtain p where p: "parse_body ev (rq_body req) = (p, [])" using False by (metis prod.collapse)
  define prompt where "prompt = completion_prompt p"
  define cid where "cid = ''cmpl-'' @ dec_int (sv_requests sv)"
  define chunk where "chunk = (\<lambda>t finish. completion_json ev cid ''text_completion'' (requested_model sv p) (''text'', JString t) finish)"
  define n where "n = clamp_tokens (completion_max_tokens (ev_ops ev) p)"
  have LF: "json_exact finish \<Longrightarrow> LF \<notin> set (print_json ev (chunk t finish []))" for t finish
    unfolding chunk_def by (rule completion_no_LF [OF assms]) simp_all
  have eq: "handle_completions ev sv req w =
      (if completion_stream p then
              (let w = send_sse_headers ev w in
               case ev_generate ev of
                 None \<Rightarrow>
                   send_sse_done ev
                     (send_sse_data ev
                       (openai_error_json ev ''No generate callback registered'' ''server_error'' ''no_generate_callback'') w)
               | Some g \<Rightarrow>
                   (let w = stream_tokens ev g (\<lambda>t. chunk t JNull []) (nat n) prompt w;
                        w = send_sse_data ev (print_json ev (chunk [] (JString ''stop'') [])) w
                    in send_sse_done ev w))
            else
              (case ev_generate ev of
                 None \<Rightarrow> send_openai_error ev 503 ''No generate callback registered'' ''server_error'' ''no_generate_callback'' w
               | Some g \<Rightarrow>
                   (let (result, w) = call_generate g prompt n False w in
                    send_response ev 200 ''application/json''
                      (print_json ev (chunk result (JString ''stop'') [(''usage'', usage_json ev prompt result)])) w)))"
    using False unfolding handle_completions_def completion_reply_def p Let_def split prompt_def chunk_def cid_def n_def by simp
  show ?thesis
  proof (cases "completion_stream p")
    case stream: True
    show ?thesis
    proof (cases "ev_generate ev")
      case None
      let ?e = "openai_error_json ev ''No generate callback registered'' ''server_error'' ''no_generate_callback''"
      show ?thesis unfolding eq using stream None
        by (simp add: Let_def) (rule stream_answers [OF assms, where frames = "[?e]"], simp_all add: sse_sent [OF assms] error_no_LF [OF assms])
    next
      case (Some g)
      let ?toks = "stream_results g (length (io_calls w)) (nat n) prompt"
      let ?fs = "map (\<lambda>t. print_json ev (chunk t JNull [])) ?toks @ [print_json ev (chunk [] (JString ''stop'') [])]"
      show ?thesis unfolding eq using stream Some
        by (simp add: Let_def) (rule stream_answers [OF assms, where frames = ?fs],
            simp_all add: sse_sent [OF assms] stream_tokens_sent [OF env_okD(1) [OF assms]] o_def, use LF in auto)
    qed
  next
    case False
    show ?thesis
    proof (cases "ev_generate ev")
      case None
      then show ?thesis unfolding eq using False by (simp add: openai_error_answers [OF assms])
    next
      case (Some g)
      obtain r w1 where g: "call_generate g prompt n False w = (r, w1)" by (metis surj_pair)
      then have "io_sent w1 = io_sent w" by (auto simp: call_generate_def)
      then show ?thesis unfolding eq using False Some by (simp add: g) (rule answers_from [OF response_answers [OF assms]])
    qed
  qed
qed

lemma chat_answers:
  assumes "env_ok ev"
  shows "answers w (handle_chat_completions ev sv req w)"
proof (cases "rq_method req \<noteq> ''POST'' \<or> snd (parse_body ev (rq_body req)) \<noteq> [] \<or>
    chat_transcript (chat_messages (fst (parse_body ev (rq_body req)))) [] = []")
  case True
  then show ?thesis
    by (auto simp: handle_chat_completions_def Let_def openai_error_answers [OF assms] split: prod.split)
next
  case False
  obtain p where p: "parse_body ev (rq_body req) = (p, [])" using False by (metis prod.collapse)
  define prompt where "prompt = chat_transcript (chat_messages p) []"
  define cid where "cid = ''chatcmpl-'' @ dec_int (sv_requests sv)"
  define chunk where "chunk = (\<lambda>fields finish. completion_json ev cid ''chat.completion.chunk'' (requested_model sv p)
                           (''delta'', object_json ev fields) finish [])"
  define n where "n = clamp_tokens (chat_max_tokens p)"
  have LF: "LF \<notin> set (print_json ev (chunk fields finish))"
    if "json_exact finish" "distinct (map fst fields)" "\<forall>kv \<in> set fields. json_exact (snd kv)" for fields finish
    unfolding chunk_def
    by (rule completion_no_LF [OF assms]) (simp_all add: that object_exact [OF env_okD(2) [OF assms]])
  have eq: "handle_chat_completions ev sv req w =
      (if chat_stream p then
              (let w = send_sse_headers ev w in
               case ev_generate ev of
                 None \<Rightarrow>
                   send_sse_done ev
                     (send_sse_data ev
                       (openai_error_json ev ''No generate callback registered'' ''server_error'' ''no_generate_callback'') w)
               | Some g \<Rightarrow>
                   (let w = send_sse_data ev (print_json ev
                              (chunk [(''role'', JString ''assistant''), (''content'', JString [])] JNull)) w;
                        w = stream_tokens ev g (\<lambda>t. chunk [(''content'', JString t)] JNull) (nat n) prompt w;
                        w = send_sse_data ev (print_json ev (chunk [] (JString ''stop''))) w
                    in send_sse_done ev w))
            else
              (case ev_generate ev of
                 None \<Rightarrow> send_openai_error ev 503 ''No generate callback registered'' ''server_error'' ''no_generate_callback'' w
               | Some g \<Rightarrow>
                   (let (result, w) = call_generate g prompt n False w in
                    send_response ev 200 ''application/json''
                      (print_json ev (completion_json ev cid ''chat.completion'' (requested_model sv p)
                         (''message'', object_json ev [(''role'', JString ''assistant''), (''content'', JString result)])
                         (JString ''stop'') [(''usage'', usage_json ev prompt result)])) w)))"
    using False unfolding handle_chat_completions_def chat_reply_def p Let_def split prompt_def chunk_def cid_def n_def by simp
  show ?thesis
  proof (cases "chat_stream p")
    case stream: True
    show ?thesis
    proof (cases "ev_generate ev")
      case None
      let ?e = "openai_error_json ev ''No generate callback registered'' ''server_error'' ''no_generate_callback''"
      show ?thesis unfolding eq using stream None
        by (simp add: Let_def) (rule stream_answers [OF assms, where frames = "[?e]"],
            simp_all add: sse_sent [OF assms] error_no_LF [OF assms])
    next
      case (Some g)
      let ?first = "print_json ev (chunk [(''role'', JString ''assistant''), (''content'', JString [])] JNull)"
      let ?toks = "stream_results g (length (io_calls w)) (nat n) prompt"
      let ?fs = "?first # map (\<lambda>t. print_json ev (chunk [(''content'', JString t)] JNull)) ?toks @
          [print_json ev (chunk [] (JString ''stop''))]"
      show ?thesis unfolding eq using stream Some
        by (simp add: Let_def) (rule stream_answers [OF assms, where frames = ?fs],
            simp_all add: sse_sent [OF assms] stream_tokens_sent [OF env_okD(1) [OF assms]] o_def, use LF in auto)
    qed
  next
    case False
    show ?thesis
    proof (cases "ev_generate ev")
      case None
      then show ?thesis unfolding eq using False by (simp add: openai_error_answers [OF assms])
    next
      case (Some g)
      obtain r w1 where g: "call_generate g prompt n False w = (r, w1)" by (metis surj_pair)
      then have "io_sent w1 = io_sent w" by (auto simp: call_generate_def)
      then show ?thesis unfolding eq using False Some
        by (simp add: g) (rule answers_from [OF response_answers [OF assms]])
    qed
  qed
qed

lemma embed_all_sent: "io_sent (snd (embed_all ev g i ss w)) = io_sent w"
  by (induction ss arbitrary: i w) (simp_all add: Let_def split: prod.split, metis io.select_convs(1) io.surjective io.update_convs(3) snd_conv)

lemma embeddings_answers:
  assumes "env_ok ev"
  shows "answers w (handle_embeddings ev sv req w)"
proof -
  obtain p err where p: "parse_body ev (rq_body req) = (p, err)" by (metis surj_pair)
  note e = openai_error_answers [OF assms]
  show ?thesis
  proof (cases "ev_embed ev")
    case None
    then show ?thesis unfolding handle_embeddings_def p Let_def split by (simp add: e)
  next
    case (Some g)
    obtain d w1 where g: "embed_all ev g 0 (embedding_inputs p) w = (d, w1)" by (metis surj_pair)
    then have "io_sent w1 = io_sent w" using embed_all_sent by (metis snd_conv)
    then have r: "answers w (send_response ev 200 ''application/json'' b w1)" for b
      using answers_from [OF response_answers [OF assms]] by blast
    show ?thesis unfolding handle_embeddings_def p Let_def split using Some by (simp add: e g r)
  qed
qed

lemma route_answers: "env_ok ev \<Longrightarrow> answers w (route ev sv req w)"
  by (simp add: route_def Let_def handle_health_def handle_models_def response_answers openai_error_answers
      error_answers completions_answers chat_answers embeddings_answers)

lemma admit_answers:
  assumes "env_ok ev"
  shows "answers w (snd (admit_and_route ev req (sv, w)))"
proof -
  obtain ok w1 where a: "check_auth ev sv req (rq_path req) w = (ok, w1)" by (metis surj_pair)
  obtain ok2 sv2 w2 where s: "try_acquire_slot ev (rq_path req) (sv, w1) = (ok2, sv2, w2)" by (metis surj_pair)
  have a': "if ok then w1 = w else answers w w1"
    using a openai_error_answers [OF assms] by (auto simp: check_auth_def Let_def split: if_splits option.splits)
  have s': "if ok2 then w2 = w1 else answers w1 w2"
    using s openai_error_answers [OF assms] by (auto simp: try_acquire_slot_def split: if_splits)
  have "snd (admit_and_route ev req (sv, w)) = (if ok then if ok2 then route ev sv2 req w2 else w2 else w1)"
    by (simp add: admit_and_route_def a s)
  then show ?thesis using a' s' route_answers [OF assms] by (cases ok; cases ok2) simp_all
qed

lemma dispatch_answers:
  assumes "env_ok ev"
  shows "answers w (snd (dispatch ev req (sv, w))) \<or> preflight_cut ev req w (snd (dispatch ev req (sv, w)))"
proof -
  obtain ok l where "limiter_allow (ev_clock ev) (ev_ip ev) (sv_limiter sv) = (ok, l)" by (metis surj_pair)
  then show ?thesis
    using openai_error_answers [OF assms] options_answers [of req w ev] admit_answers [OF assms]
    by (simp add: dispatch_def)
qed

lemma handle_received_answers:
  assumes "env_ok ev"
  shows "answers w (snd (handle_received ev buf timeout sv w)) \<or>
    preflight_cut ev (parse_http_request buf) w (snd (handle_received ev buf timeout sv w))"
  using error_answers [OF assms] openai_error_answers [OF assms] dispatch_answers [OF assms]
  by (simp add: handle_received_def Let_def del: find_sub.simps)

text \<open>
  C5: over a socket whose \<open>send\<close> always takes at least one byte, every request gets exactly one
  answer that its client can delimit, whatever bytes it sends and however the socket splits them:
  either a response whose head ends at its first blank line and announces exactly the number of
  bytes that follow, or an event stream of frames without line breaks closed by the terminator.
  The one exception is the reply to an OPTIONS request: it is sent with a single call, so when that
  call takes \<open>n\<close> bytes, fewer than the reply has, the client gets the first \<open>n\<close> bytes of it and
  nothing else.
\<close>

theorem request_answered_once:
  fixes ev :: env and sv :: server
  assumes "env_ok ev"
  defines "out \<equiv> io_sent (snd (handle_request ev sv))" and "n \<equiv> ev_send ev 0 (length preflight)"
  shows "framed out \<or> event_stream out \<or>
    (\<exists>buf timeout. receive ev sv 0 [] = Received buf timeout \<and>
       rq_method (parse_http_request buf) = ''OPTIONS'' \<and>
       0 < n \<and> n < int (length preflight) \<and> out = take (nat n) preflight)"
proof -
  have n: "0 < n" using env_okD(1) [OF assms(1)] by (simp add: n_def reliable_def)
  have "answers io_start (snd (handle_request ev sv)) \<or>
    (\<exists>buf timeout. receive ev sv 0 [] = Received buf timeout \<and>
       preflight_cut ev (parse_http_request buf) io_start (snd (handle_request ev sv)))"
  proof (cases "receive ev sv 0 []")
    case (Received buf timeout)
    then show ?thesis using handle_received_answers [OF assms(1)] by (simp add: handle_request_def)
  qed (simp_all add: handle_request_def openai_error_answers [OF assms(1)] error_answers [OF assms(1)])
  then show ?thesis
  proof
    assume "answers io_start (snd (handle_request ev sv))"
    then show ?thesis by (simp add: answers_def answer_def io_start_def out_def) blast
  next
    assume "\<exists>buf timeout. receive ev sv 0 [] = Received buf timeout \<and>
       preflight_cut ev (parse_http_request buf) io_start (snd (handle_request ev sv))"
    then show ?thesis using n unfolding preflight_cut_def out_def n_def
      by (simp only: io_start_def io.select_convs append_Nil) metis
  qed
qed

text \<open>A surrounding in which the hypotheses hold: a socket that takes seven bytes at a time.\<close>

definition sample_ops :: double_ops where
  "sample_ops = \<lparr>strtod = (\<lambda>_. None), fmt_g = (\<lambda>_. ''0''), d_of_int = word_of_int, int_of_d = sint\<rparr>"

definition sample_env :: "string list \<Rightarrow> (nat \<Rightarrow> string \<Rightarrow> int \<Rightarrow> bool \<Rightarrow> string) option \<Rightarrow> env" where
  "sample_env segments g = \<lparr>ev_send = (\<lambda>_ _. 7),
     ev_recv = (\<lambda>k. (0, Bytes (if k < length segments then segments ! k else []))),
     ev_clock = 0, ev_time = 1700000000, ev_ip = ''10.0.0.1'', ev_generate = g, ev_embed = None,
     ev_ops = sample_ops, ev_double = ucast, ev_order = (\<lambda>kvs. kvs)\<rparr>"

lemma sample_env_ok: "env_ok (sample_env segments g)"
  by (simp add: env_ok_def reliable_def order_ok_def time_ok_def sample_env_def)

text \<open>With a socket that takes all it is given, the exception is gone.\<close>

theorem request_answered_once_witness:
  "\<exists>out. out = io_sent (snd (handle_request
       ((sample_env [''GET /health HT'', ''TP/1.1'' @ CRLF @ CRLF] None)\<lparr>ev_send := \<lambda>_ k. 1 + int k\<rparr>) server_new)) \<and>
     (framed out \<or> event_stream out)"
proof -
  let ?ev = "(sample_env [''GET /health HT'', ''TP/1.1'' @ CRLF @ CRLF] None)\<lparr>ev_send := \<lambda>_ k. 1 + int k\<rparr>"
  have ok: "env_ok ?ev"
    by (simp add: env_ok_def reliable_def order_ok_def time_ok_def sample_env_def)
  have "\<not> ev_send ?ev 0 (length preflight) < int (length preflight)" by simp
  with request_answered_once [OF ok, of server_new] show ?thesis by blast
qed

section \<open>What a stream delivers\<close>

text \<open>A client of an event stream: the lines that are not empty, without their \<open>data:\<close> prefix.\<close>

definition sse_decode :: "string \<Rightarrow> string list" where
  "sse_decode s = map (drop 6) (filter (\<lambda>l. l \<noteq> []) (pieces LF s))"

lemma sse_decode_frames:
  assumes "\<forall>f \<in> set frames. LF \<notin> set f"
  shows "sse_decode (concat (map sse_data_frame frames) @ sse_done_frame) = frames @ [''[DONE]'']"
proof -
  have line: "pieces LF (f @ LF # LF # s) = f # [] # pieces LF s" if "LF \<notin> set f" for f s
    using pieces_sep [of f LF "LF # s"] pieces_sep [of "[]" LF s] that by auto
  have last: "pieces LF [] = []" by (simp add: pieces.simps)
  have frame: "sse_decode (sse_data_frame f @ s) = f # sse_decode s" if "LF \<notin> set f" for f s
    using line [of "''data: '' @ f" s] that by (simp add: sse_decode_def sse_data_frame_def)
  have final: "sse_decode sse_done_frame = [''[DONE]'']"
    using line [of "''data: [DONE]''" "[]"] by (simp add: sse_decode_def sse_done_frame_def last)
  from assms show ?thesis by (induction frames) (simp_all add: frame final)
qed

text \<open>The text of the first choice, as a client of the completions endpoint reads it.\<close>

definition completion_text :: "json \<Rightarrow> string" where
  "completion_text j = as_string (get_field (at_or_null (get_field j ''choices'') 0) ''text'')"

lemma completion_reads:
  assumes "env_ok ev" and "json_exact finish" and "json_depth finish = 0"
  shows "completion_text (fst (json_parse (ev_ops ev)
      (print_json ev (completion_json ev cid kind model (''text'', JString t) finish [])))) = t"
proof -
  note order = env_okD(2) [OF assms(1)]
  let ?j = "completion_json ev cid kind model (''text'', JString t) finish []"
  have x: "json_exact ?j" by (rule completion_exact [OF assms(1)]) (simp_all add: assms)
  have "json_depth ?j \<le> Suc (Suc (Suc 0))"
    unfolding completion_json_def by (simp add: object_depth [OF order] depth_array assms(3) del: json_depth.simps(2))
  then have "json_depth ?j \<le> kMaxDepth" by (simp add: kMaxDepth_def)
  from print_parse_exact [OF x this, of "ev_ops ev"]
  have "json_parse (ev_ops ev) (print_json ev ?j) = (?j, [])" by (simp add: print_json_def)
  moreover have "completion_text ?j = t"
    by (simp add: completion_text_def completion_json_def object_field [OF order] at_or_null_def)
  ultimately show ?thesis by simp
qed

text \<open>
  C14: a streaming completion delivers what was generated: the client that splits the stream at
  its blank lines and reads the text of each chunk gets exactly the tokens of the callback, in
  order, then an empty final chunk and the terminator. The callback is asked for one token at a
  time, each time with the prompt followed by all tokens so far, until it returns an empty one or
  the limit is reached, and never more than 4096 times.
\<close>

theorem completions_stream_delivers:
  assumes "env_ok ev" and "rq_method req = ''POST''" and "parse_body ev (rq_body req) = (p, [])"
    and "completion_stream p" and "ev_generate ev = Some g"
  defines "k \<equiv> nat (clamp_tokens (completion_max_tokens (ev_ops ev) p))"
  defines "toks \<equiv> stream_results g 0 k (completion_prompt p)"
  shows "\<exists>body frames. io_sent (handle_completions ev sv req io_start) = sse_head @ body \<and>
    sse_decode body = frames @ [''[DONE]''] \<and>
    map (\<lambda>f. completion_text (fst (json_parse (ev_ops ev) f))) frames = toks @ [[]] \<and>
    io_calls (handle_completions ev sv req io_start) = stream_calls k (completion_prompt p) toks \<and>
    length (io_calls (handle_completions ev sv req io_start)) \<le> 4096"
proof -
  define prompt where "prompt = completion_prompt p"
  define chunk where "chunk = (\<lambda>t finish. completion_json ev (''cmpl-'' @ dec_int (sv_requests sv)) ''text_completion''
      (requested_model sv p) (''text'', JString t) finish [])"
  define frames where "frames = map (\<lambda>t. print_json ev (chunk t JNull)) toks @ [print_json ev (chunk [] (JString ''stop''))]"
  define w where "w = stream_tokens ev g (\<lambda>t. chunk t JNull) k prompt (send_sse_headers ev io_start)"
  have eq: "handle_completions ev sv req io_start =
      send_sse_done ev (send_sse_data ev (print_json ev (chunk [] (JString ''stop''))) w)"
    using assms(2,4,5) unfolding handle_completions_def assms(3) Let_def split w_def prompt_def chunk_def k_def by simp
  have "json_exact finish \<Longrightarrow> LF \<notin> set (print_json ev (chunk t finish))" for t finish
    unfolding chunk_def by (rule completion_no_LF [OF assms(1)]) simp_all
  then have LF: "\<forall>f \<in> set frames. LF \<notin> set f" by (auto simp: frames_def)
  have start: "io_calls (send_sse_headers ev io_start) = []" "io_sent (send_sse_headers ev io_start) = sse_head"
    using sse_sent(1) [OF assms(1), of io_start] by (simp_all add: io_start_def)
  have "io_sent w = sse_head @ concat (map (\<lambda>t. sse_data_frame (print_json ev (chunk t JNull))) toks)"
    unfolding w_def stream_tokens_sent [OF env_okD(1) [OF assms(1)]] start toks_def prompt_def by simp
  then have sent: "io_sent (handle_completions ev sv req io_start) = sse_head @ concat (map sse_data_frame frames) @ sse_done_frame"
    using send_sse_delivers(3) [OF env_okD(1) [OF assms(1)]]
    unfolding eq delivers_def by (simp add: sse_sent [OF assms(1)] frames_def o_def)
  have calls: "io_calls (handle_completions ev sv req io_start) = stream_calls k prompt toks"
    unfolding eq by (simp add: w_def stream_tokens_calls io_start_def toks_def prompt_def)
  have "k \<le> 4096" by (simp add: k_def clamp_tokens_def)
  then have len: "length (io_calls (handle_completions ev sv req io_start)) \<le> 4096"
    unfolding calls by (simp add: stream_calls_def)
  have texts: "map (\<lambda>f. completion_text (fst (json_parse (ev_ops ev) f))) frames = toks @ [[]]"
    unfolding frames_def chunk_def by (simp add: o_def completion_reads [OF assms(1)])
  show ?thesis using sent sse_decode_frames [OF LF] texts calls len unfolding prompt_def by blast
qed

theorem completions_stream_delivers_witness:
  "\<exists>body frames g. g = (\<lambda>c p n s. if c < (2::nat) then [CHR ''x''] else []) \<and>
    io_sent (handle_completions (sample_env [] (Some g)) server_new
      (empty_request\<lparr>rq_method := ''POST'',
         rq_body := to_string sample_ops (JObject [(''stream'', JBool True), (''max_tokens'', JInt 2)])\<rparr>) io_start) =
      sse_head @ body \<and>
    sse_decode body = frames @ [''[DONE]''] \<and>
    map (\<lambda>f. completion_text (fst (json_parse sample_ops f))) frames = [''x'', ''x'', []]"
proof -
  let ?p = "JObject [(''stream'', JBool True), (''max_tokens'', JInt 2)]"
  let ?req = "empty_request\<lparr>rq_method := ''POST'', rq_body := to_string sample_ops ?p\<rparr>"
  let ?g = "\<lambda>c p n s. if c < (2::nat) then [CHR ''x''] else []"
  let ?ev = "sample_env [] (Some ?g)"
  have ops: "ev_ops ?ev = sample_ops" by (simp add: sample_env_def)
  have "json_parse sample_ops (to_string sample_ops ?p) = (?p, [])"
    by (rule print_parse_exact) (simp_all add: kMaxDepth_def)
  then have b: "parse_body ?ev (rq_body ?req) = (?p, [])" by (simp add: parse_body_def ops)
  have k: "clamp_tokens (completion_max_tokens sample_ops ?p) = 2"
    by (simp add: completion_max_tokens_def sample_ops_def clamp_tokens_def has_def get_field_def Let_def)
  have t: "stream_results ?g 0 (nat 2) (completion_prompt ?p) = [''x'', ''x'']"
    by (simp add: numeral_2_eq_2 Let_def)
  have "rq_method ?req = ''POST''" "completion_stream ?p" "ev_generate ?ev = Some ?g"
    by (simp_all add: completion_stream_def has_def get_field_def sample_env_def)
  from completions_stream_delivers [OF sample_env_ok this(1) b this(2,3), of server_new, unfolded ops k t]
  obtain body frames where a: "io_sent (handle_completions ?ev server_new ?req io_start) = sse_head @ body"
    "sse_decode body = frames @ [''[DONE]'']"
    "map (\<lambda>f. completion_text (fst (json_parse sample_ops f))) frames = [''x'', ''x''] @ [[]]"
    by (elim exE conjE)
  show ?thesis
    by (rule exI [of _ body], rule exI [of _ frames], rule exI [of _ ?g], intro conjI, rule refl, rule a(1), rule a(2),
        simp only: a(3) append_Cons append_Nil)
qed

end
