(* ===== verification/Http_Guards.thy ===== *)
theory Http_Guards
  imports Http_Answers
begin

text \<open>
  The guards of \<open>handle_request\<close>: what must hold before a callback runs, and that a request gives
  back the slot it took; how the receive loop puts a request together, and where it goes wrong.
\<close>

section \<open>Reaching a callback\<close>

lemma options_calls [simp]: "io_calls (handle_options ev w) = io_calls w"
  by (simp add: handle_options_def send_once_def Let_def)

lemma route_calls:
  assumes "io_calls (route ev sv req w) \<noteq> io_calls w"
  shows "rq_method req = ''POST'' \<and>
    rq_path req \<in> {''/v1/completions'', ''/v1/chat/completions'', ''/v1/embeddings''}"
proof (rule ccontr)
  assume n: "\<not> ?thesis"
  have c: "io_calls (handle_completions ev sv req w) = io_calls w"
    "io_calls (handle_chat_completions ev sv req w) = io_calls w"
    "io_calls (handle_embeddings ev sv req w) = io_calls w" if "rq_method req \<noteq> ''POST''"
    using that by (simp_all add: handle_completions_def handle_chat_completions_def handle_embeddings_def)
  have "io_calls (route ev sv req w) = io_calls w"
    using n c by (cases "rq_method req = ''POST''") (simp_all add: route_def Let_def handle_health_def handle_models_def)
  with assms show False by simp
qed

definition authorised :: "server \<Rightarrow> http_request \<Rightarrow> bool" where
  "authorised sv req \<longleftrightarrow> sv_auth sv = [] \<or> rq_headers req ''authorization'' = Some (''Bearer '' @ sv_auth sv)"

lemma admit_calls:
  assumes "io_calls (snd (admit_and_route ev req (sv, w))) \<noteq> io_calls w"
  shows "rq_method req = ''POST'' \<and>
    rq_path req \<in> {''/v1/completions'', ''/v1/chat/completions'', ''/v1/embeddings''} \<and>
    authorised sv req \<and> (sv_cap sv \<le> 0 \<or> sv_current sv < sv_cap sv)"
proof -
  obtain ok w1 where a: "check_auth ev sv req (rq_path req) w = (ok, w1)" by (metis surj_pair)
  obtain ok2 sv2 w2 where s: "try_acquire_slot ev (rq_path req) (sv, w1) = (ok2, sv2, w2)" by (metis surj_pair)
  have eq: "snd (admit_and_route ev req (sv, w)) = (if ok then if ok2 then route ev sv2 req w2 else w2 else w1)"
    by (simp add: admit_and_route_def a s)
  have a': "io_calls w1 = io_calls w" "ok \<Longrightarrow> \<not> is_v1_path (rq_path req) \<or> authorised sv req"
    using a by (auto simp: check_auth_def Let_def authorised_def split: if_splits option.splits)
  have s': "io_calls w2 = io_calls w1"
    "ok2 \<Longrightarrow> \<not> is_v1_path (rq_path req) \<or> sv_cap sv \<le> 0 \<or> sv_current sv < sv_cap sv"
    using s by (auto simp: try_acquire_slot_def split: if_splits)
  have "ok \<and> ok2 \<and> io_calls (route ev sv2 req w2) \<noteq> io_calls w2"
    using assms a'(1) s'(1) unfolding eq by (cases ok; cases ok2) simp_all
  moreover from this have r: "rq_method req = ''POST''"
    "rq_path req \<in> {''/v1/completions'', ''/v1/chat/completions'', ''/v1/embeddings''}"
    using route_calls by blast+
  moreover have "is_v1_path (rq_path req)" using r(2) by (auto simp: is_v1_path_def)
  ultimately show ?thesis using a'(2) s'(2) by blast
qed

definition rate_allowed :: "env \<Rightarrow> server \<Rightarrow> bool" where
  "rate_allowed ev sv \<longleftrightarrow> rl_rps (sv_limiter sv) \<le> 0 \<or> fst (limiter_allow (ev_clock ev) (ev_ip ev) (sv_limiter sv))"

lemma dispatch_calls:
  assumes "io_calls (snd (dispatch ev req (sv, w))) \<noteq> io_calls w"
  shows "rq_method req = ''POST'' \<and>
    rq_path req \<in> {''/v1/completions'', ''/v1/chat/completions'', ''/v1/embeddings''} \<and>
    authorised sv req \<and> (sv_cap sv \<le> 0 \<or> sv_current sv < sv_cap sv) \<and> rate_allowed ev sv \<and> \<not> wrong_content_type req"
proof -
  obtain ok l where l: "limiter_allow (ev_clock ev) (ev_ip ev) (sv_limiter sv) = (ok, l)" by (metis surj_pair)
  define sv1 where "sv1 = (if rl_rps (sv_limiter sv) > 0 then sv\<lparr>sv_limiter := l\<rparr> else sv)"
  have "io_calls (snd (admit_and_route ev req (sv1, w))) \<noteq> io_calls w \<and> rate_allowed ev sv \<and> \<not> wrong_content_type req"
    using assms unfolding dispatch_def rate_allowed_def sv1_def by (auto simp: l Let_def split: if_splits)
  moreover have "authorised sv1 req = authorised sv req" "sv_cap sv1 = sv_cap sv" "sv_current sv1 = sv_current sv"
    by (simp_all add: authorised_def sv1_def)
  ultimately show ?thesis using admit_calls [of ev req sv1 w] by auto
qed

definition header_fits :: "server \<Rightarrow> string \<Rightarrow> bool" where
  "header_fits sv buf \<longleftrightarrow>
     int (case find_sub (CRLF @ CRLF) buf of None \<Rightarrow> length buf | Some hend \<Rightarrow> hend) \<le> sv_max_header sv"

definition request_line_fits :: "string \<Rightarrow> bool" where
  "request_line_fits buf \<longleftrightarrow> (\<forall>eol. find_sub CRLF buf = Some eol \<longrightarrow> int eol \<le> kMaxRequestLineBytes)"

text \<open>
  C6: a callback runs only for a request that passed every guard of \<open>handle_request\<close>: the receive
  loop did not refuse it and did not time out, it is not empty, its header section and its request
  line are within their limits, its address is within its rate, it is a POST to one of the three
  endpoints with an acceptable content type, it carries the configured token, and a slot was
  free. In every other case no callback is called.
\<close>

theorem callbacks_guarded:
  assumes "io_calls (snd (handle_request ev sv)) \<noteq> []"
  shows "\<exists>buf. receive ev sv 0 [] = Received buf False \<and> buf \<noteq> [] \<and> header_fits sv buf \<and>
    request_line_fits buf \<and> rate_allowed ev sv \<and>
    rq_method (parse_http_request buf) = ''POST'' \<and>
    rq_path (parse_http_request buf) \<in> {''/v1/completions'', ''/v1/chat/completions'', ''/v1/embeddings''} \<and>
    \<not> wrong_content_type (parse_http_request buf) \<and> authorised sv (parse_http_request buf) \<and>
    (sv_cap sv \<le> 0 \<or> sv_current sv < sv_cap sv)"
proof -
  obtain buf timeout where r: "receive ev sv 0 [] = Received buf timeout"
    using assms by (cases "receive ev sv 0 []") (auto simp: handle_request_def io_start_def)
  let ?sv = "sv\<lparr>sv_requests := sv_requests sv + 1\<rparr>" and ?req = "parse_http_request buf"
  have h: "io_calls (snd (handle_received ev buf timeout sv io_start)) \<noteq> io_calls io_start"
    using assms by (simp add: handle_request_def r) (simp add: io_start_def)
  then have t: "\<not> timeout" "buf \<noteq> []" and fits: "header_fits sv buf" "request_line_fits buf"
    and d: "io_calls (snd (dispatch ev ?req (?sv, io_start))) \<noteq> io_calls io_start"
    unfolding handle_received_def header_fits_def request_line_fits_def Let_def
    by (auto simp del: find_sub.simps simp: not_less split: if_splits option.splits)
  have "rate_allowed ev ?sv = rate_allowed ev sv" "authorised ?sv ?req = authorised sv ?req"
    by (simp_all add: rate_allowed_def authorised_def)
  then show ?thesis using dispatch_calls [OF d] t fits r by auto
qed

text \<open>A request that passes: the token of the server is \<open>k\<close>.\<close>

definition sample_request :: string where
  "sample_request = ''POST /v1/completions HTTP/1.1'' @ CRLF @ ''Content-Length: 2'' @ CRLF @
     ''Authorization: Bearer k'' @ CRLF @ CRLF @ ''{}''"

theorem callbacks_guarded_witness:
  "authorised (set_auth_token ''k'' server_new) (parse_http_request sample_request) \<and>
   rq_method (parse_http_request sample_request) = ''POST''"
proof -
  let ?ev = "sample_env [sample_request] (Some (\<lambda>c p n s. ''x''))" and ?sv = "set_auth_token ''k'' server_new"
  let ?q = "parse_http_request sample_request"
  have t: "sample_request \<noteq> []" "length sample_request \<le> 4095" by code_simp+
  have c: "check_received (4 * 1024 * 1024) sample_request = Complete" by code_simp
  have r: "receive ?ev ?sv 0 [] = Received sample_request False"
    using t c by (subst receive.simps) (simp add: sample_env_def server_new_def set_auth_token_def)
  have q: "rq_method ?q = ''POST''" "rq_path ?q = ''/v1/completions''" "rq_body ?q = ''{}''"
    "rq_headers ?q ''content-type'' = None" "rq_headers ?q ''authorization'' = Some ''Bearer k''"
    by code_simp+
  have g: "find_sub (CRLF @ CRLF) sample_request = Some 73" "find_sub CRLF sample_request = Some 29" by code_simp+
  have p: "parse_body ?ev ''{}'' = (JObject [], [])" by code_simp
  have e: "ev_generate ?ev = Some (\<lambda>c p n s. ''x'')" by (simp add: sample_env_def)
  have "io_calls (handle_completions ?ev sv ?q w) \<noteq> []" for sv w
    unfolding handle_completions_def q p by (simp add: completion_reply_def completion_stream_def has_def call_generate_def e Let_def)
  then have route: "io_calls (route ?ev sv ?q w) \<noteq> []" for sv w by (simp add: route_def q)
  have "io_calls (snd (admit_and_route ?ev ?q (s, w))) \<noteq> []" if "sv_auth s = ''k''" "sv_cap s = 0" for s w
    using that route by (simp add: admit_and_route_def check_auth_def try_acquire_slot_def q is_v1_path_def)
  then have "io_calls (snd (handle_received ?ev sample_request False ?sv io_start)) \<noteq> []"
    using t unfolding handle_received_def g dispatch_def
    by (simp add: server_new_def kMaxRequestLineBytes_def limiter_new_def limiter_set_limits_def set_auth_token_def
        wrong_content_type_def q)
  then have calls: "io_calls (snd (handle_request ?ev ?sv)) \<noteq> []" by (simp add: handle_request_def r)
  obtain buf where b: "receive ?ev ?sv 0 [] = Received buf False" "authorised ?sv (parse_http_request buf)"
    "rq_method (parse_http_request buf) = ''POST''"
    using callbacks_guarded [OF calls] by (elim exE conjE)
  have "buf = sample_request" using b(1) r by simp
  then show ?thesis using b(2,3) by simp
qed

section \<open>Bookkeeping\<close>

lemma acquire_release:
  assumes "try_acquire_slot ev path (sv, w) = (ok, sv', w')"
  shows "(if ok then release_slot path sv' else sv') = sv"
  using assms by (auto simp: try_acquire_slot_def release_slot_def split: if_splits)

lemma admit_server:
  "fst (admit_and_route ev req (sv, w)) = sv \<or> fst (admit_and_route ev req (sv, w)) = count_error sv"
proof -
  obtain ok w1 where a: "check_auth ev sv req (rq_path req) w = (ok, w1)" by (metis surj_pair)
  obtain ok2 sv2 w2 where s: "try_acquire_slot ev (rq_path req) (sv, w1) = (ok2, sv2, w2)" by (metis surj_pair)
  show ?thesis using acquire_release [OF s] by (cases ok; cases ok2) (simp_all add: admit_and_route_def a s)
qed

text \<open>
  C15: a request gives back what it took: whatever happens to it, afterwards the number of
  requests in flight and all settings are as before; only the counters moved, each by at most
  one, and the rate limiter.
\<close>

theorem request_bookkeeping:
  "\<exists>r e l. r \<in> {0, 1} \<and> e \<in> {0, 1} \<and>
    fst (handle_request ev sv) = sv\<lparr>sv_requests := sv_requests sv + r, sv_errors := sv_errors sv + e, sv_limiter := l\<rparr>"
proof -
  define moved where "moved = (\<lambda>s s' :: server. \<exists>r e l. r \<in> {0, 1} \<and> e \<in> {0, 1} \<and>
    s' = s\<lparr>sv_requests := sv_requests s + r, sv_errors := sv_errors s + e, sv_limiter := l\<rparr>)"
  have err: "moved s (count_error s)" for s
    unfolding moved_def count_error_def by (intro exI [of _ 0] exI [of _ 1] exI [of _ "sv_limiter s"]) simp
  let ?s = "sv\<lparr>sv_requests := sv_requests sv + 1\<rparr>"
  have one: "moved sv (?s\<lparr>sv_limiter := l\<rparr>)" "moved sv (count_error (?s\<lparr>sv_limiter := l\<rparr>))" for l
    unfolding moved_def count_error_def
    by (intro exI [of _ 1] exI [of _ 0] exI [of _ l], simp)
      (intro exI [of _ 1] exI [of _ l], simp)
  have same: "?s\<lparr>sv_limiter := sv_limiter sv\<rparr> = ?s" by simp
  have one': "moved sv ?s" "moved sv (count_error ?s)" using one [of "sv_limiter sv"] unfolding same .
  have dispatch: "moved sv (fst (dispatch ev req (?s, w)))" for req w
  proof -
    obtain ok l where l: "limiter_allow (ev_clock ev) (ev_ip ev) (sv_limiter sv) = (ok, l)" by (metis surj_pair)
    show ?thesis using one one' admit_server [of ev req "?s\<lparr>sv_limiter := l\<rparr>" w] admit_server [of ev req ?s w]
      unfolding dispatch_def by (auto simp: l Let_def)
  qed
  have "moved sv (fst (handle_received ev buf timeout sv w))" for buf timeout w
    using dispatch one' unfolding handle_received_def Let_def by (simp del: find_sub.simps)
  then have "moved sv (fst (handle_request ev sv))"
    using err by (simp add: handle_request_def split: received.split)
  then show ?thesis by (simp add: moved_def)
qed

end
