(* ===== verification/Http_Receive.thy ===== *)
theory Http_Receive
  imports Http_Guards
begin

text \<open>
  The receive loop: a request is put together from its segments whatever their sizes; and the
  headers it misreads.
\<close>

section \<open>Reassembly\<close>

lemma find_sub_append: "find_sub pat p = Some j \<Longrightarrow> find_sub pat (p @ q) = Some j"
proof (induction p arbitrary: j)
  case Nil
  then have "pat = [] \<and> j = 0" by (simp split: if_splits)
  then show ?case by (cases q) simp_all
next
  case (Cons c p)
  show ?case
  proof (cases "take (length pat) (c # p) = pat")
    case True
    then have "length pat \<le> length (c # p)" by (metis length_take min.cobounded1)
    then have "take (length pat) (c # p @ q) = pat" using True by (simp add: take_Cons' split: if_splits)
    then show ?thesis using Cons.prems True by simp
  next
    case False
    then obtain k where k: "find_sub pat p = Some k" "j = Suc k" using Cons.prems by auto
    have "take (length pat) (c # p @ q) \<noteq> pat"
    proof
      assume a: "take (length pat) (c # p @ q) = pat"
      have "k + length pat \<le> length p" using find_sub_bound [OF k(1)] .
      then have "length pat - length (c # p) = 0" by simp
      then have "take (length pat) ((c # p) @ q) = take (length pat) (c # p)" by (simp only: take_append take_0 append_Nil2)
      then show False using a False by simp
    qed
    then show ?thesis using Cons.IH [OF k(1)] k by simp
  qed
qed

lemma find_sub_append_None: "find_sub pat (p @ q) = None \<Longrightarrow> find_sub pat p = None"
  using find_sub_append [of pat p _ q] by (cases "find_sub pat p") auto

lemma find_sub_too_short:
  assumes "find_sub pat (p @ q) = Some i" and "length p < i + length pat"
  shows "find_sub pat p = None"
  using assms find_sub_append [of pat p _ q] find_sub_bound [of pat p] by (cases "find_sub pat p") fastforce+

text \<open>
  A request that announces the length of its body: some lines, the first of which is the request
  line, then the announcing header, then any others. The loop knows two spellings of the name
  and takes the first place where it finds one of them, the capitalised one first; \<open>announces\<close>
  says that this place is the announcing header.
\<close>

definition announced_lines :: "string list \<Rightarrow> string \<Rightarrow> string \<Rightarrow> nat \<Rightarrow> string list \<Rightarrow> string list" where
  "announced_lines before key gap n after = before @ (key @ gap @ dec_nat n) # after"

definition announced_head :: "string list \<Rightarrow> string \<Rightarrow> string \<Rightarrow> nat \<Rightarrow> string list \<Rightarrow> string" where
  "announced_head before key gap n after = header_lines (announced_lines before key gap n after) @ CRLF"

definition plain_line :: "string \<Rightarrow> bool" where
  "plain_line l \<longleftrightarrow> clean_line l \<and> find_sub ''transfer-encoding:'' (map lower_char l) = None"

definition announces :: "string list \<Rightarrow> string \<Rightarrow> string \<Rightarrow> string list \<Rightarrow> string \<Rightarrow> bool" where
  "announces before key gap after body \<longleftrightarrow>
     set gap \<subseteq> {CHR '' '', TAB} \<and> list_all plain_line (before @ after) \<and>
     list_all (\<lambda>l. find_sub key l = None) before \<and>
     (key = ''Content-Length:'' \<or>
      key = ''content-length:'' \<and>
        list_all (\<lambda>l. find_sub ''Content-Length:'' l = None) (before @ after @ [body]))"

lemma announcesD:
  assumes "announces before key gap after body"
  shows "set gap \<subseteq> {CHR '' '', TAB}" and "list_all plain_line (before @ after)"
    and "list_all (\<lambda>l. find_sub key l = None) before" and "key \<in> {''Content-Length:'', ''content-length:''}"
    and "key = ''content-length:'' \<Longrightarrow> list_all (\<lambda>l. find_sub ''Content-Length:'' l = None) (before @ after @ [body])"
  using assms unfolding announces_def by (blast, blast, blast, blast, auto simp del: find_sub.simps)

lemma announces_less:
  "announces before key gap after (rest @ q) \<Longrightarrow> announces before key gap after rest"
  using find_sub_append_None [of "''Content-Length:''" rest q]
  unfolding announces_def by (auto simp del: find_sub.simps)

lemma blank_chars: "c \<in> {CHR '' '', TAB} \<Longrightarrow> c \<noteq> CR \<and> c \<noteq> LF \<and> c \<noteq> CHR '':'' \<and> \<not> is_digit c \<and> lower_char c = c \<and> c \<noteq> CHR ''C''"
  by (elim insertE) (simp_all add: is_digit_def lower_char_def, (code_simp)?)

lemma not_digit_C: "\<not> is_digit (CHR ''C'')"
  by (simp add: is_digit_def)

lemma announced_clean:
  assumes "announces before key gap after body"
  shows "\<forall>l \<in> set (announced_lines before key gap n after). clean_line l"
proof -
  note a = announcesD [OF assms]
  have "CR \<notin> set (dec_nat n)" "LF \<notin> set (dec_nat n)" using dec_nat_all_digits [of n] not_digit by blast+
  moreover have "CR \<notin> set gap" "LF \<notin> set gap" using a(1) blank_chars by blast+
  moreover have "key \<noteq> []" "CR \<notin> set key" "LF \<notin> set key" using a(4) by auto
  ultimately show ?thesis using a(2)
    by (auto simp: announced_lines_def clean_line_def plain_line_def list_all_iff simp del: find_sub.simps)
qed

lemma lower_CR [simp]: "lower_char CR = CR" "lower_char LF = LF"
  by (simp_all add: lower_char_def)

lemma lines_without:
  assumes "pat \<noteq> []" and "CR \<notin> set pat" and "LF \<noteq> hd pat" and "\<forall>l \<in> set ls. find_sub pat (map lower_char l) = None"
  shows "find_sub pat (map lower_char (concat (map (\<lambda>l. l @ CRLF) ls))) = None"
  using assms(4)
proof (induction ls)
  case (Cons l ls)
  obtain p ps where p: "pat = p # ps" "p \<noteq> LF" using assms(1,3) by (cases pat) auto
  have "map lower_char (concat (map (\<lambda>l. l @ CRLF) (l # ls))) =
      map lower_char l @ CR # LF # map lower_char (concat (map (\<lambda>l. l @ CRLF) ls))" by (simp add: CRLF_def)
  then show ?case using Cons p find_sub_cut [OF assms(1,2)] by simp
qed (use assms(1) in simp)

lemma length_line_without:
  assumes "announces before key gap after body"
  shows "find_sub ''transfer-encoding:'' (map lower_char (key @ gap @ dec_nat n)) = None"
proof -
  note a = announcesD [OF assms]
  have k: "map lower_char key = ''content-length:''" using a(4) by (elim insertE) (simp, code_simp, simp, code_simp, simp)
  have g: "map lower_char gap = gap" using a(1) blank_chars by (intro map_idI) blast
  have "CHR '':'' \<notin> set (gap @ dec_nat n)" using dec_nat_all_digits [of n] not_digit a(1) blank_chars by auto
  then have n: "find_sub ''transfer-encoding:'' (gap @ dec_nat n) = None" by (rule find_sub_absent) simp
  have "map lower_char (key @ gap @ dec_nat n) = ''content-length:'' @ gap @ dec_nat n"
    unfolding map_append k g lower_digits ..
  then show ?thesis using n by simp
qed

lemma concat_last: "ls \<noteq> [] \<Longrightarrow> concat (map (\<lambda>l. l @ x) ls) = concat (map (\<lambda>l. l @ x) (butlast ls)) @ last ls @ x"
  by (cases ls rule: rev_cases) simp_all

lemma announced_not_chunked:
  assumes "announces before key gap after body"
    and "find_sub (CRLF @ CRLF) (announced_head before key gap n after @ rest) = Some i"
  shows "\<not> chunked_request (take i (announced_head before key gap n after @ rest))"
proof -
  let ?te = "''transfer-encoding:''" and ?ls = "announced_lines before key gap n after"
  let ?text = "announced_head before key gap n after @ rest"
  have ne: "?ls \<noteq> []" by (simp add: announced_lines_def)
  have "?text = concat (map (\<lambda>l. l @ CRLF) ?ls) @ CRLF @ rest"
    by (simp add: announced_head_def header_lines_def)
  then obtain j where j: "find_sub (CRLF @ CRLF) ?text = Some j"
    "take j ?text = concat (map (\<lambda>l. l @ CRLF) (butlast ?ls)) @ last ?ls"
    using find_header_end [OF ne announced_clean [OF assms(1)], of rest] by auto
  have all: "\<forall>l \<in> set ?ls. find_sub ?te (map lower_char l) = None"
    using announcesD(2) [OF assms(1)] length_line_without [OF assms(1)]
    by (auto simp: announced_lines_def plain_line_def list_all_iff simp del: find_sub.simps)
  define X where "X = concat (map (\<lambda>l. l @ CRLF) (butlast ?ls)) @ last ?ls"
  have c: "concat (map (\<lambda>l. l @ CRLF) ?ls) = X @ CRLF"
    unfolding X_def append_assoc by (rule concat_last [OF ne])
  have "find_sub ?te (map lower_char (concat (map (\<lambda>l. l @ CRLF) ?ls))) = None"
    by (rule lines_without [OF _ _ _ all]) (simp_all del: find_sub.simps)
  then have "find_sub ?te (map lower_char X @ map lower_char CRLF) = None" unfolding c map_append .
  moreover have "take i ?text = X"
    using option.inject [THEN iffD1, OF trans [OF assms(2) [symmetric] j(1)]] j(2) unfolding X_def by (rule ssubst)
  ultimately have "find_sub ?te (map lower_char (take i ?text) @ map lower_char CRLF) = None"
    by (rule ssubst [where P = "\<lambda>x. find_sub ?te (map lower_char x @ map lower_char CRLF) = None", rotated])
  then have "find_sub ?te (map lower_char (take i ?text)) = None"
    by (rule find_sub_append_None)
  then show ?thesis by (simp add: chunked_request_def del: find_sub.simps)
qed

text \<open>A search skips whole lines that do not hold the pattern.\<close>

lemma find_sub_lines:
  assumes "pat \<noteq> []" and "CR \<notin> set pat" and "LF \<noteq> hd pat" and "list_all (\<lambda>l. find_sub pat l = None) ls"
  shows "find_sub pat (concat (map (\<lambda>l. l @ CRLF) ls) @ y) =
    map_option (\<lambda>i. length (concat (map (\<lambda>l. l @ CRLF) ls)) + i) (find_sub pat y)"
  using assms(4)
proof (induction ls)
  case Nil
  then show ?case by (simp add: option.map_ident)
next
  case (Cons l ls)
  obtain q qs where q: "pat = q # qs" "q \<noteq> LF" using assms(1,3) by (cases pat) auto
  have "find_sub pat (LF # z) = map_option Suc (find_sub pat z)" for z using q by simp
  moreover have "concat (map (\<lambda>l. l @ CRLF) (l # ls)) @ y = l @ CR # LF # concat (map (\<lambda>l. l @ CRLF) ls) @ y"
    by (simp add: CRLF_def)
  ultimately show ?case using Cons find_sub_cut [OF assms(1,2)]
    by (cases "find_sub pat y") (simp_all add: CRLF_def del: find_sub.simps)
qed

lemma find_sub_here: "pat \<noteq> [] \<Longrightarrow> find_sub pat (pat @ z) = Some 0"
  by (cases pat) simp_all

lemma announced_position:
  assumes "announces before key gap after rest"
  shows "\<exists>p. length_position (announced_head before key gap n after @ rest) = Some p \<and>
    (\<exists>t. drop (p + 15) (announced_head before key gap n after @ rest) = gap @ dec_nat n @ CR # t)"
proof -
  note a = announcesD [OF assms]
  let ?B = "concat (map (\<lambda>l. l @ CRLF) before)" and ?text = "announced_head before key gap n after @ rest"
  let ?big = "''Content-Length:''" and ?ls = "announced_lines before key gap n after"
  define t where "t = LF # header_lines after @ CRLF @ rest"
  have txt_eq: "?text = ?B @ key @ gap @ dec_nat n @ CR # t"
    by (simp add: announced_head_def announced_lines_def header_lines_def t_def CRLF_def)
  have key: "key \<noteq> []" "CR \<notin> set key" "LF \<noteq> hd key" "length key = 15" using a(4) by auto
  have found: "find_sub key ?text = Some (length ?B)"
    unfolding txt_eq find_sub_lines [OF key(1-3) a(3)] find_sub_here [OF key(1)] by simp
  have "length_position ?text = Some (length ?B)"
  proof (cases "key = ?big")
    case True
    then show ?thesis using found by (simp add: length_position_def del: find_sub.simps)
  next
    case False
    then have small: "key = ''content-length:''" using a(4) by blast
    note none = a(5) [OF small]
    have "CHR ''C'' \<notin> set key" unfolding small by simp
    moreover have "CHR ''C'' \<notin> set gap" using a(1) blank_chars [of "CHR ''C''"] by blast
    moreover have "CHR ''C'' \<notin> set (dec_nat n)" using dec_nat_all_digits [of n] not_digit_C by blast
    ultimately have "CHR ''C'' \<notin> set (key @ gap @ dec_nat n)" by simp
    then have "find_sub ?big (key @ gap @ dec_nat n) = None" by (rule find_sub_absent) simp
    then have "list_all (\<lambda>l. find_sub ?big l = None) (?ls @ [[]])"
      using none by (simp add: announced_lines_def del: find_sub.simps) simp
    then have "find_sub ?big (concat (map (\<lambda>l. l @ CRLF) (?ls @ [[]])) @ rest) = None"
      using none by (subst find_sub_lines) (simp_all del: find_sub.simps)
    moreover have "?text = concat (map (\<lambda>l. l @ CRLF) (?ls @ [[]])) @ rest"
      by (simp add: announced_head_def header_lines_def)
    ultimately have "find_sub ?big ?text = None" by simp
    then show ?thesis using found small by (simp add: length_position_def del: find_sub.simps)
  qed
  moreover have "drop (length ?B + 15) ?text = gap @ dec_nat n @ CR # t"
    unfolding txt_eq key(4) [symmetric] by simp
  ultimately show ?thesis by blast
qed

lemma check_announced:
  assumes "announces before key gap after rest" and "int n \<le> max_body" and "n < 2 ^ 63"
  shows "check_received max_body (announced_head before key gap n after @ rest) =
    (if length rest \<ge> n then Complete else More)"
proof -
  let ?cur = "announced_head before key gap n after @ rest" and ?ls = "announced_lines before key gap n after"
  have ne: "?ls \<noteq> []" by (simp add: announced_lines_def)
  have "?cur = concat (map (\<lambda>l. l @ CRLF) ?ls) @ CRLF @ rest" by (simp add: announced_head_def header_lines_def)
  then obtain i where i: "find_sub (CRLF @ CRLF) ?cur = Some i" "drop (i + 4) ?cur = rest"
    using find_header_end [OF ne announced_clean [OF assms(1)], of rest] by auto
  have "i + 4 \<le> length ?cur" using find_sub_bound [OF i(1)] by (simp add: CRLF_def)
  then have len: "int (length ?cur) - int i - 4 = int (length rest)"
    using arg_cong [OF i(2), of length] unfolding length_drop by linarith
  obtain p t where p: "length_position ?cur = Some p" "drop (p + 15) ?cur = gap @ dec_nat n @ CR # t"
    using announced_position [OF assms(1)] by blast
  obtain c ds where c: "dec_nat n = c # ds" "is_digit c"
    using dec_nat_nonempty dec_nat_all_digits by (metis list.exhaust list.set_intros(1))
  have "dropWhile (\<lambda>c. \<not> is_digit c) (gap @ y) = dropWhile (\<lambda>c. \<not> is_digit c) y" for y
    using announcesD(1) [OF assms(1)] blank_chars by (intro dropWhile_append2) blast
  then have num: "dropWhile (\<lambda>c. \<not> is_digit c) (drop (p + 15) ?cur) = dec_nat n @ CR # t"
    using c unfolding p(2) by simp
  have digits: "takeWhile is_digit (dec_nat n @ CR # t) = dec_nat n"
    using dec_nat_all_digits [of n] not_digit by (simp add: takeWhile_append2)
  have v: "strtoll (dec_nat n) = Some (int n)" using strtoll_dec [of "int n"] assms(3) by (simp add: dec_int_def)
  have nonempty: "dec_nat n @ CR # t \<noteq> []" by simp
  show ?thesis
    unfolding check_received_def i(1) option.case if_not_P [OF announced_not_chunked [OF assms(1) i(1)]] p(1) num Let_def
      if_not_P [OF nonempty] digits v len
    using assms(2) by simp
qed

lemma check_announced_early:
  assumes "announces before key gap after body" and "announced_head before key gap n after = p @ q" and "q \<noteq> []"
  shows "check_received max_body p = More"
proof -
  let ?ls = "announced_lines before key gap n after"
  have ne: "?ls \<noteq> []" by (simp add: announced_lines_def)
  have h: "announced_head before key gap n after = concat (map (\<lambda>l. l @ CRLF) ?ls) @ CRLF @ []"
    by (simp add: announced_head_def header_lines_def)
  then obtain i where i: "find_sub (CRLF @ CRLF) (p @ q) = Some i" "drop (i + 4) (p @ q) = []"
    using find_header_end [OF ne announced_clean [OF assms(1)], of "[]"]
    unfolding h [symmetric] assms(2) by blast
  have "i + 4 \<le> length (p @ q)" using find_sub_bound [OF i(1)] by (simp add: CRLF_def)
  moreover have "length (p @ q) \<le> i + 4" using i(2) unfolding drop_eq_Nil .
  ultimately have "length p < i + length (CRLF @ CRLF)" using assms(3) by (cases q) (auto simp: CRLF_def)
  then show ?thesis using find_sub_too_short [OF i(1)] by (simp add: check_received_def)
qed

text \<open>Bytes arrive in time, segment by segment.\<close>

definition arrives :: "env \<Rightarrow> server \<Rightarrow> nat \<Rightarrow> string list \<Rightarrow> bool" where
  "arrives ev sv k segs \<longleftrightarrow>
     (\<forall>i < length segs. ev_recv ev (k + i) = (fst (ev_recv ev (k + i)), Bytes (segs ! i)) \<and>
        fst (ev_recv ev (k + i)) < sv_timeout sv \<and> segs ! i \<noteq> [] \<and> length (segs ! i) \<le> 4095)"

lemma receive_segments:
  assumes "arrives ev sv k segs" and "segs \<noteq> []" and "int (length (buf @ concat segs)) \<le> sv_max_body sv"
    and "check_received (sv_max_body sv) (buf @ concat segs) = Complete"
    and "\<And>p q. buf @ concat segs = p @ q \<Longrightarrow> q \<noteq> [] \<Longrightarrow> check_received (sv_max_body sv) p = More"
  shows "receive ev sv k buf = Received (buf @ concat segs) False"
  using assms
proof (induction segs arbitrary: k buf)
  case (Cons s segs)
  have s: "ev_recv ev k = (fst (ev_recv ev k), Bytes s)" "fst (ev_recv ev k) < sv_timeout sv" "s \<noteq> []" "length s \<le> 4095"
    using Cons.prems(1) unfolding arrives_def by (auto dest: spec [of _ 0])
  have rest: "arrives ev sv (Suc k) segs"
    using Cons.prems(1) unfolding arrives_def by (auto dest: spec [of _ "Suc _"])
  have room: "int (length buf) < sv_max_body sv" using Cons.prems(3) s(3) by (cases s) auto
  have step: "receive ev sv k buf =
      (case check_received (sv_max_body sv) (buf @ s) of
         More \<Rightarrow> receive ev sv (Suc k) (buf @ s) | Complete \<Rightarrow> Received (buf @ s) False
       | Refuse status message code \<Rightarrow> Refused status message code | Too_Large \<Rightarrow> Refused_Large)"
    using room s(2,3,4) by (subst receive.simps) (simp add: s(1) [THEN arg_cong, of snd, simplified] Let_def)
  show ?case
  proof (cases segs)
    case Nil
    then show ?thesis using Cons.prems(4) by (simp add: step)
  next
    case (Cons t ts)
    have "t \<noteq> []" using rest Cons unfolding arrives_def by (auto dest: spec [of _ 0])
    then have ne: "concat segs \<noteq> []" using Cons by simp
    have "check_received (sv_max_body sv) (buf @ s) = More" by (rule Cons.prems(5) [OF _ ne]) simp
    moreover have "receive ev sv (Suc k) (buf @ s) = Received ((buf @ s) @ concat segs) False"
      using Cons.prems(3-5) Cons by (intro Cons.IH [OF rest]) simp_all
    ultimately show ?thesis by (simp add: step)
  qed
qed simp

lemma handle_line_body: "rq_body (snd (snd (handle_line l st))) = rq_body (snd (snd st))"
  by (auto simp: handle_line_def request_line_def header_line_def Let_def split: prod.splits option.splits)

lemma fold_body: "rq_body (snd (snd (fold handle_line ls st))) = rq_body (snd (snd st))"
  by (induction ls arbitrary: st) (simp_all add: handle_line_body)

lemma announced_body:
  assumes "announces before key gap after body"
  shows "rq_body (parse_http_request (announced_head before key gap n after @ body)) = body"
proof -
  let ?ls = "announced_lines before key gap n after"
  have ne: "?ls \<noteq> []" by (simp add: announced_lines_def)
  have "announced_head before key gap n after @ body = concat (map (\<lambda>l. l @ CRLF) ?ls) @ CRLF @ body"
    by (simp add: announced_head_def header_lines_def)
  then obtain i where i: "find_sub (CRLF @ CRLF) (announced_head before key gap n after @ body) = Some i"
    "drop (i + 4) (announced_head before key gap n after @ body) = body"
    using find_header_end [OF ne announced_clean [OF assms], of body] by auto
  show ?thesis unfolding parse_http_request_def i(1) option.case Let_def split fold_body i(2) by simp
qed


lemma sample_arrives:
  "\<forall>s \<in> set segs. s \<noteq> [] \<and> length s \<le> 4095 \<Longrightarrow> arrives (sample_env segs g) server_new 0 segs"
  by (simp add: arrives_def sample_env_def server_new_def)


section \<open>Headers that are misread\<close>

lemma length_never_negative:
  "check_received max_body cur \<noteq> Refuse 400 ''Negative Content-Length'' ''invalid_content_length''"
proof -
  have "\<not> v < 0" if "strtoll (takeWhile is_digit num) = Some v" for num v
  proof -
    have "takeWhile is_digit num = [] \<or> hd (takeWhile is_digit num) \<noteq> CHR ''-''"
      by (cases num) (auto simp: is_digit_def)
    then show ?thesis using that by (auto simp: strtoll_def Let_def split: if_splits)
  qed
  then show ?thesis
    unfolding check_received_def Let_def by (auto split: option.splits if_splits simp del: find_sub.simps)
qed

text \<open>
  The receive loop misreads \<open>Content-Length\<close>. The check for a negative length never fires: the
  sign is skipped with everything else before the first digit, so \<open>-2\<close> is 2, and a value without
  digits takes them from the next header. In any other spelling of its name the header is not
  seen, so the body is cut off where the first segment ends; and with the name in lower case, a
  body that contains the capitalised name is searched first, so a complete request is waited for.
\<close>

theorem content_length_misread:
  "check_received max_body cur \<noteq> Refuse 400 ''Negative Content-Length'' ''invalid_content_length'' \<and>
   check_received 100 (''POST / HTTP/1.1'' @ CRLF @ ''Content-Length: -2'' @ CRLF @ CRLF @ ''x'') = More \<and>
   check_received 100 (''POST / HTTP/1.1'' @ CRLF @ ''Content-Length: -2'' @ CRLF @ CRLF @ ''xx'') = Complete \<and>
   check_received 100 (''POST / HTTP/1.1'' @ CRLF @ ''Content-Length: none'' @ CRLF @ ''Host: h7'' @ CRLF @ CRLF @ ''xx'') = More \<and>
   check_received 100 (''POST / HTTP/1.1'' @ CRLF @ ''CONTENT-LENGTH: 2'' @ CRLF @ CRLF @ ''x'') = Complete \<and>
   check_received 100 (''POST / HTTP/1.1'' @ CRLF @ ''content-length: 19'' @ CRLF @ CRLF @ ''Content-Length: 99 '') = More"
  by (rule conjI [OF length_never_negative]) code_simp

section \<open>A client that is gone\<close>

text \<open>
  A streaming request keeps generating for a client that is gone: the results of \<open>send\<close> are not
  looked at, so when every \<open>send\<close> fails and the model does not stop by itself, the callback is
  still called for every token up to the limit.
\<close>

theorem stream_ignores_disconnect:
  assumes "\<And>k n. ev_send ev k n \<le> 0" and "rq_method req = ''POST''" and "parse_body ev (rq_body req) = (p, [])"
    and "completion_stream p" and "ev_generate ev = Some g" and "\<And>c prompt n s. g c prompt n s \<noteq> []"
  shows "io_sent (handle_completions ev sv req io_start) = [] \<and>
    int (length (io_calls (handle_completions ev sv req io_start))) = clamp_tokens (completion_max_tokens (ev_ops ev) p)"
proof -
  define k where "k = nat (clamp_tokens (completion_max_tokens (ev_ops ev) p))"
  have lost: "io_sent (snd (send_all ev data w)) = io_sent w" for data w
    using assms(1) by (subst send_all.simps) (simp add: send_once_def Let_def)
  have sse: "io_sent (send_sse_data ev j w) = io_sent w" "io_sent (send_sse_headers ev w) = io_sent w"
    "io_sent (send_sse_done ev w) = io_sent w" for j w
    by (simp_all add: send_sse_data_def send_sse_headers_def send_sse_done_def lost)
  have stream: "io_sent (stream_tokens ev g chunk m prompt w) = io_sent w" for chunk m prompt w
    by (induction m arbitrary: prompt w) (simp_all add: call_generate_def sse)
  have all: "length (stream_results g c m prompt) = m" for c m prompt
    using assms(6) by (induction m arbitrary: c prompt) (simp_all add: Let_def)
  have "1 \<le> clamp_tokens (completion_max_tokens (ev_ops ev) p)" by (simp add: clamp_tokens_def)
  then show ?thesis
    using assms(2,4,5) unfolding handle_completions_def assms(3) Let_def split
    by (simp add: sse stream stream_tokens_calls stream_calls_def all io_start_def)
qed

theorem stream_ignores_disconnect_witness:
  "length (io_calls (handle_completions ((sample_env [] (Some (\<lambda>c p n s. ''x'')))\<lparr>ev_send := \<lambda>_ _. - 1\<rparr>) server_new
      (empty_request\<lparr>rq_method := ''POST'',
         rq_body := to_string sample_ops (JObject [(''stream'', JBool True), (''max_tokens'', JInt 4096)])\<rparr>) io_start)) = 4096"
proof -
  let ?p = "JObject [(''stream'', JBool True), (''max_tokens'', JInt 4096)]"
  let ?req = "empty_request\<lparr>rq_method := ''POST'', rq_body := to_string sample_ops ?p\<rparr>"
  let ?ev = "(sample_env [] (Some (\<lambda>c p n s. ''x'')))\<lparr>ev_send := \<lambda>_ _. - 1\<rparr>"
  have ops: "ev_ops ?ev = sample_ops" by (simp add: sample_env_def)
  have "json_parse sample_ops (to_string sample_ops ?p) = (?p, [])"
    by (rule print_parse_exact) (simp_all add: kMaxDepth_def)
  then have b: "parse_body ?ev (rq_body ?req) = (?p, [])" by (simp add: parse_body_def ops)
  have k: "clamp_tokens (completion_max_tokens sample_ops ?p) = 4096"
    by (simp add: completion_max_tokens_def sample_ops_def clamp_tokens_def has_def get_field_def Let_def)
  have h: "rq_method ?req = ''POST''" "completion_stream ?p" "ev_generate ?ev = Some (\<lambda>c p n s. ''x'')"
    by (simp_all add: completion_stream_def has_def get_field_def sample_env_def)
  have "int (length (io_calls (handle_completions ?ev server_new ?req io_start))) = clamp_tokens (completion_max_tokens (ev_ops ?ev) ?p)"
    by (rule stream_ignores_disconnect [OF _ h(1) b h(2,3), THEN conjunct2]) simp_all
  then show ?thesis unfolding ops k by linarith
qed

end
