(* ===== verification/Sha1.thy ===== *)
theory Sha1
  imports Prelude
begin

text \<open>
  The streaming SHA-1 of \<open>include/quant/sha1.h\<close>, and its refinement of the definition of the
  standard: pad the whole message, then compress it block by block. \<open>init\<close> leaves the buffer as
  it is, so a fresh context has an arbitrary one.
\<close>

unbundle bit_operations_syntax

section \<open>The context and the compression function\<close>

type_synonym sha_state = "u32 \<times> u32 \<times> u32 \<times> u32 \<times> u32"

record sha1_ctx =
  sha_state :: sha_state
  sha_count :: u64
  sha_buffer :: "u8 list"

definition sha_init :: "sha1_ctx \<Rightarrow> sha1_ctx" where
  "sha_init ctx = ctx\<lparr>sha_state := (0x67452301, 0xEFCDAB89, 0x98BADCFE, 0x10325476, 0xC3D2E1F0), sha_count := 0\<rparr>"

definition rotl32 :: "u32 \<Rightarrow> nat \<Rightarrow> u32" where
  "rotl32 x n = push_bit n x OR drop_bit (32 - n) x"

definition block_word :: "u8 list \<Rightarrow> nat \<Rightarrow> u32" where
  "block_word block i =
     push_bit 24 (ucast (block ! (i * 4))) OR push_bit 16 (ucast (block ! (i * 4 + 1))) OR
     push_bit 8 (ucast (block ! (i * 4 + 2))) OR ucast (block ! (i * 4 + 3))"

definition sha_schedule :: "u8 list \<Rightarrow> u32 list" where
  "sha_schedule block =
     fold (\<lambda>i w. w @ [rotl32 (w ! (i - 3) XOR w ! (i - 8) XOR w ! (i - 14) XOR w ! (i - 16)) 1])
       [16..<80] (map (block_word block) [0..<16])"

definition sha_round :: "u32 list \<Rightarrow> nat \<Rightarrow> sha_state \<Rightarrow> sha_state" where
  "sha_round w t = (\<lambda>(a, b, c, d, e).
     let (f, k) =
       (if t < 20 then ((b AND c) OR (NOT b AND d), 0x5A827999)
        else if t < 40 then (b XOR c XOR d, 0x6ED9EBA1)
        else if t < 60 then ((b AND c) OR (b AND d) OR (c AND d), 0x8F1BBCDC)
        else (b XOR c XOR d, 0xCA62C1D6));
       temp = rotl32 a 5 + f + e + k + w ! t
     in (temp, a, rotl32 b 30, c, d))"

definition compress :: "u8 list \<Rightarrow> sha_state \<Rightarrow> sha_state" where
  "compress block st =
     (let w = sha_schedule block;
          (a, b, c, d, e) = fold (sha_round w) [0..<80] st;
          (h0, h1, h2, h3, h4) = st
      in (h0 + a, h1 + b, h2 + c, h3 + d, h4 + e))"

definition process_block :: "u8 list \<Rightarrow> sha1_ctx \<Rightarrow> sha1_ctx" where
  "process_block block ctx = ctx\<lparr>sha_state := compress block (sha_state ctx)\<rparr>"

section \<open>Streaming\<close>

definition overwrite :: "nat \<Rightarrow> u8 list \<Rightarrow> u8 list \<Rightarrow> u8 list" where
  "overwrite i xs buf = take i buf @ xs @ drop (i + length xs) buf"

text \<open>The loop over the whole blocks of the data, which yields the rest.\<close>

function whole_blocks :: "u8 list \<Rightarrow> sha1_ctx \<Rightarrow> u8 list \<times> sha1_ctx" where
  "whole_blocks data ctx =
     (if 64 \<le> length data then whole_blocks (drop 64 data) (process_block (take 64 data) ctx) else (data, ctx))"
  by pat_completeness auto
termination
  by (relation "measure (\<lambda>(data, ctx). length data)") auto

declare whole_blocks.simps [simp del]

definition sha_update :: "u8 list \<Rightarrow> sha1_ctx \<Rightarrow> sha1_ctx" where
  "sha_update data ctx =
     (let idx = unat (sha_count ctx AND 63);
          ctx = ctx\<lparr>sha_count := sha_count ctx + of_nat (length data)\<rparr>;
          part = 64 - idx in
      if length data \<ge> part then
        (let buf = overwrite idx (take part data) (sha_buffer ctx);
             (rest, ctx) = whole_blocks (drop part data) (process_block buf (ctx\<lparr>sha_buffer := buf\<rparr>)) in
         if rest = [] then ctx else ctx\<lparr>sha_buffer := overwrite 0 rest (sha_buffer ctx)\<rparr>)
      else if data = [] then ctx
      else ctx\<lparr>sha_buffer := overwrite idx data (sha_buffer ctx)\<rparr>)"

lemma count_and_63: "unat ((c :: u64) AND 63) = unat c mod 64"
proof -
  have "c AND 63 = take_bit 6 c" by (simp only: take_bit_eq_mask mask_eq_exp_minus_1) simp
  then have "unat (c AND 63) = take_bit 6 (unat c)" by (simp only: unsigned_take_bit_eq)
  then show ?thesis by (simp add: take_bit_eq_mod)
qed

lemma whole_blocks_keeps:
  "sha_count (snd (whole_blocks data ctx)) = sha_count ctx \<and> sha_buffer (snd (whole_blocks data ctx)) = sha_buffer ctx"
proof (induction data ctx rule: whole_blocks.induct)
  case (1 data ctx)
  then show ?case by (cases "64 \<le> length data") (simp_all add: whole_blocks.simps [of data ctx] process_block_def)
qed

lemma update_count [simp]: "sha_count (sha_update data ctx) = sha_count ctx + of_nat (length data)"
proof -
  define idx where "idx = unat (sha_count ctx AND 63)"
  define buf where "buf = overwrite idx (take (64 - idx) data) (sha_buffer ctx)"
  define ctx1 where "ctx1 = process_block buf (ctx\<lparr>sha_count := sha_count ctx + of_nat (length data), sha_buffer := buf\<rparr>)"
  obtain rest ctx2 where w: "whole_blocks (drop (64 - idx) data) ctx1 = (rest, ctx2)" by (metis surj_pair)
  then have "sha_count ctx2 = sha_count ctx + of_nat (length data)"
    using whole_blocks_keeps [of "drop (64 - idx) data" ctx1] by (simp add: ctx1_def process_block_def)
  then show ?thesis
    using w unfolding sha_update_def Let_def idx_def [symmetric] buf_def ctx1_def by simp
qed

lemma mod_64_pred: "(x :: int) mod 64 \<noteq> 0 \<Longrightarrow> (x - 1) mod 64 = x mod 64 - 1"
proof -
  assume "x mod 64 \<noteq> 0"
  then have "0 \<le> x mod 64 - 1" "x mod 64 - 1 < 64" using pos_mod_bound [of 64 x] pos_mod_sign [of 64 x] by linarith+
  then have "(x mod 64 - 1) mod 64 = x mod 64 - 1" by (rule mod_pos_pos_trivial)
  then show ?thesis by (simp only: mod_diff_left_eq)
qed

text \<open>The bytes missing to 56 in the last block.\<close>

definition missing :: "sha1_ctx \<Rightarrow> nat" where
  "missing ctx = nat ((56 - int (unat (sha_count ctx))) mod 64)"

lemma missing_update:
  assumes "unat (sha_count ctx AND 63) \<noteq> 56"
  shows "missing (sha_update [0] ctx) < missing ctx"
proof -
  define c where "c = unat (sha_count ctx)"
  have "unat (sha_count ctx + 1) mod 64 = (c + 1) mod 64" by (simp add: c_def unat_word_ariths mod_mod_cancel)
  then have "int (unat (sha_count ctx + 1)) mod 64 = (int c + 1) mod 64"
    by (metis of_nat_1 of_nat_add of_nat_numeral zmod_int)
  then have step: "(56 - int (unat (sha_count ctx + 1))) mod 64 = (56 - (int c + 1)) mod 64"
    by (rule mod_diff_cong [OF refl])
  have "c mod 64 \<noteq> 56" using assms by (simp add: count_and_63 c_def)
  moreover have "(56 - int c) mod 64 = 0 \<longrightarrow> c mod 64 = 56" by presburger
  ultimately have ne: "(56 - int c) mod 64 \<noteq> 0" by linarith
  have "56 - (int c + 1) = (56 - int c) - 1" by simp
  then have "(56 - int (unat (sha_count ctx + 1))) mod 64 = (56 - int c) mod 64 - 1"
    unfolding step by (simp only: mod_64_pred [OF ne])
  moreover have "0 < (56 - int c) mod 64" using ne pos_mod_sign [of 64 "56 - int c"] by linarith
  moreover have u: "sha_count (sha_update [0] ctx) = sha_count ctx + 1" by simp
  ultimately show ?thesis unfolding missing_def u c_def [symmetric] by linarith
qed

text \<open>The zero bytes of \<open>final\<close>, one at a time until 56 bytes are in the last block.\<close>

function pad_zeros :: "sha1_ctx \<Rightarrow> sha1_ctx" where
  "pad_zeros ctx = (if unat (sha_count ctx AND 63) \<noteq> 56 then pad_zeros (sha_update [0] ctx) else ctx)"
  by pat_completeness auto
termination
  by (relation "measure missing", rule wf_measure, unfold in_measure, rule missing_update)

declare pad_zeros.simps [simp del]

definition word_bytes_be :: "nat \<Rightarrow> 'a::len word \<Rightarrow> u8 list" where
  "word_bytes_be n w = map (\<lambda>i. ucast (drop_bit (8 * i) w)) (rev [0..<n])"

definition sha_final :: "sha1_ctx \<Rightarrow> u8 list" where
  "sha_final ctx =
     (let bits = sha_count ctx * 8;
          ctx = pad_zeros (sha_update [0x80] ctx);
          ctx = fold (\<lambda>byte. sha_update [byte]) (word_bytes_be 8 bits) ctx;
          (a, b, c, d, e) = sha_state ctx
      in concat (map (word_bytes_be 4) [a, b, c, d, e]))"

section \<open>The definition of the standard\<close>

function blocks :: "u8 list \<Rightarrow> u8 list list" where
  "blocks m = (if 64 \<le> length m then take 64 m # blocks (drop 64 m) else [])"
  by pat_completeness auto
termination
  by (relation "measure length") auto

declare blocks.simps [simp del]

definition initial_state :: sha_state where
  "initial_state = (0x67452301, 0xEFCDAB89, 0x98BADCFE, 0x10325476, 0xC3D2E1F0)"

definition zero_bytes :: "nat \<Rightarrow> nat" where
  "zero_bytes n = (if n mod 64 \<le> 56 then 56 - n mod 64 else 120 - n mod 64)"

lemma zero_bytes_Suc: "n mod 64 \<noteq> 56 \<Longrightarrow> zero_bytes n = Suc (zero_bytes (Suc n))"
  using mod_less_divisor [of 64 n] by (auto simp: zero_bytes_def mod_Suc)

lemma zero_bytes_fill: "(n + zero_bytes n + 8) mod 64 = 0"
proof -
  have "n + zero_bytes n + 8 = 64 * (n div 64) + (if n mod 64 \<le> 56 then 64 else 128)"
  proof -
    have d: "n = 64 * (n div 64) + n mod 64" "n mod 64 < 64" by simp_all
    show ?thesis
    proof (cases "n mod 64 \<le> 56")
      case True
      then show ?thesis using d unfolding zero_bytes_def if_P [OF True] by linarith
    next
      case False
      then show ?thesis using d unfolding zero_bytes_def if_not_P [OF False] by linarith
    qed
  qed
  then show ?thesis by simp
qed

definition padded :: "u8 list \<Rightarrow> u8 list" where
  "padded m = m @ [0x80] @ replicate (zero_bytes (length m + 1)) 0 @ word_bytes_be 8 (of_nat (8 * length m) :: u64)"

definition sha1_spec :: "u8 list \<Rightarrow> u8 list" where
  "sha1_spec m =
     (let (a, b, c, d, e) = fold compress (blocks (padded m)) initial_state
      in concat (map (word_bytes_be 4) [a, b, c, d, e]))"

section \<open>Refinement\<close>

lemma blocks_append: "64 dvd length a \<Longrightarrow> blocks (a @ b) = blocks a @ blocks b"
proof (induction a rule: blocks.induct)
  case (1 a)
  show ?case
  proof (cases "a = []")
    case False
    then have l: "64 \<le> length a" using 1(2) by (simp add: dvd_imp_le)
    then have "64 dvd length (drop 64 a)" using 1(2) by simp
    then show ?thesis using 1(1) l by (simp add: blocks.simps [of a] blocks.simps [of "a @ b"])
  qed (simp add: blocks.simps [of "[]"])
qed

lemma blocks_short: "length m < 64 \<Longrightarrow> blocks m = []"
  by (simp add: blocks.simps)

lemma blocks_one: "length m = 64 \<Longrightarrow> blocks m = [m]"
  by (simp add: blocks.simps [of m] blocks_short)

text \<open>What a context stands for: the message so far, of which the whole blocks are compressed.\<close>

definition holds :: "sha1_ctx \<Rightarrow> u8 list \<Rightarrow> bool" where
  "holds ctx m \<longleftrightarrow>
     sha_count ctx = of_nat (length m) \<and> length (sha_buffer ctx) = 64 \<and>
     (\<exists>body tail. m = body @ tail \<and> 64 dvd length body \<and> length tail < 64 \<and>
        take (length tail) (sha_buffer ctx) = tail \<and> sha_state ctx = fold compress (blocks body) initial_state)"

lemma whole_blocks_result:
  "whole_blocks data ctx = (rest, ctx') \<Longrightarrow>
    \<exists>full. data = full @ rest \<and> 64 dvd length full \<and> length rest < 64 \<and>
      ctx' = ctx\<lparr>sha_state := fold compress (blocks full) (sha_state ctx)\<rparr>"
proof (induction data ctx rule: whole_blocks.induct)
  case (1 data ctx)
  show ?case
  proof (cases "64 \<le> length data")
    case True
    then have "whole_blocks (drop 64 data) (process_block (take 64 data) ctx) = (rest, ctx')"
      using 1(2) by (simp add: whole_blocks.simps [of data])
    from 1(1) [OF True this] obtain full where f: "drop 64 data = full @ rest" "64 dvd length full" "length rest < 64"
      "ctx' = (process_block (take 64 data) ctx)\<lparr>sha_state := fold compress (blocks full) (sha_state (process_block (take 64 data) ctx))\<rparr>"
      by blast
    have t: "length (take 64 data) = 64" using True by simp
    then have "blocks (take 64 data @ full) = take 64 data # blocks full"
      using blocks_append [of "take 64 data" full] blocks_one [of "take 64 data"] by simp
    moreover have "data = (take 64 data @ full) @ rest" using f(1) by (metis append_assoc append_take_drop_id)
    moreover have "64 dvd length (take 64 data @ full)" using f(2) t by simp
    ultimately show ?thesis using f(3,4) by (intro exI [of _ "take 64 data @ full"]) (simp add: process_block_def)
  next
    case False
    then show ?thesis using 1(2)
      by (intro exI [of _ "[]"]) (simp add: whole_blocks.simps [of data] blocks_short)
  qed
qed

lemma holds_index:
  assumes "m = body @ tail" and "64 dvd length body" and "length tail < 64"
  shows "unat ((of_nat (length m) :: u64) AND 63) = length tail"
proof -
  have "unat (of_nat (length m) :: u64) mod 64 = length m mod 64" by (simp add: unat_of_nat mod_mod_cancel)
  also have "\<dots> = length tail" using assms by (simp add: mod_add_eq dvd_imp_mod_0 flip: mod_add_left_eq)
  finally show ?thesis by (simp add: count_and_63)
qed

lemma overwrite_within: "i + length xs \<le> length buf \<Longrightarrow> length (overwrite i xs buf) = length buf"
  by (simp add: overwrite_def)

lemma holds_update:
  assumes "holds ctx m"
  shows "holds (sha_update data ctx) (m @ data)"
proof -
  obtain body tail where m: "m = body @ tail" "64 dvd length body" "length tail < 64"
    "take (length tail) (sha_buffer ctx) = tail" "sha_state ctx = fold compress (blocks body) initial_state"
    and c: "sha_count ctx = of_nat (length m)" "length (sha_buffer ctx) = 64"
    using assms unfolding holds_def by blast
  have idx: "unat (sha_count ctx AND 63) = length tail" unfolding c(1) by (rule holds_index [OF m(1-3)])
  let ?part = "64 - length tail" and ?ctx = "ctx\<lparr>sha_count := sha_count ctx + of_nat (length data)\<rparr>"
  have count: "sha_count ctx + of_nat (length data) = of_nat (length (m @ data))" by (simp add: c(1))
  show ?thesis
  proof (cases "?part \<le> length data")
    case True
    define buf where "buf = tail @ take ?part data"
    have buf: "overwrite (length tail) (take ?part data) (sha_buffer ctx) = buf" "length buf = 64"
      using True m(3,4) c(2) by (simp_all add: overwrite_def buf_def min_def)
    define ctx1 where "ctx1 = process_block buf (?ctx\<lparr>sha_buffer := buf\<rparr>)"
    obtain rest ctx2 where w: "whole_blocks (drop ?part data) ctx1 = (rest, ctx2)" by (metis surj_pair)
    from whole_blocks_result [OF w] obtain full where full: "drop ?part data = full @ rest" "64 dvd length full"
      "length rest < 64" "ctx2 = ctx1\<lparr>sha_state := fold compress (blocks full) (sha_state ctx1)\<rparr>" by blast
    have eq: "sha_update data ctx = (if rest = [] then ctx2 else ctx2\<lparr>sha_buffer := overwrite 0 rest (sha_buffer ctx2)\<rparr>)"
      using True w unfolding sha_update_def Let_def idx by (simp add: buf(1) ctx1_def)
    have b2: "sha_buffer ctx2 = buf" "sha_count ctx2 = of_nat (length (m @ data))"
      using count by (simp_all add: full(4) ctx1_def process_block_def)
    have s2: "sha_state ctx2 = fold compress (blocks (body @ buf @ full)) initial_state"
    proof -
      have "blocks (body @ buf @ full) = blocks body @ [buf] @ blocks full"
        using blocks_append [OF m(2)] blocks_append [of buf full] blocks_one [OF buf(2)] buf(2) by simp
      then show ?thesis by (simp add: full(4) ctx1_def process_block_def m(5))
    qed
    have "m @ data = (body @ buf @ full) @ rest"
      using full(1) by (simp add: m(1) buf_def) (metis append.assoc append_take_drop_id)
    moreover have "64 dvd length (body @ buf @ full)" using m(2) full(2) buf(2) by simp
    moreover have "sha_state (sha_update data ctx) = fold compress (blocks (body @ buf @ full)) initial_state"
      "sha_count (sha_update data ctx) = of_nat (length (m @ data))"
      using s2 b2 by (simp_all add: eq)
    moreover have "length (sha_buffer (sha_update data ctx)) = 64"
      "take (length rest) (sha_buffer (sha_update data ctx)) = rest"
      using full(3) buf(2) b2(1) by (simp_all add: eq overwrite_def)
    ultimately show ?thesis using full(3) unfolding holds_def by blast
  next
    case False
    then have eq: "sha_update data ctx = (if data = [] then ?ctx else ?ctx\<lparr>sha_buffer := overwrite (length tail) data (sha_buffer ctx)\<rparr>)"
      unfolding sha_update_def Let_def idx by simp
    have "length (sha_buffer (sha_update data ctx)) = 64"
      "take (length (tail @ data)) (sha_buffer (sha_update data ctx)) = tail @ data"
      using False m(3,4) c(2) by (simp_all add: eq overwrite_def)
    moreover have "sha_count (sha_update data ctx) = of_nat (length (m @ data))"
      "sha_state (sha_update data ctx) = fold compress (blocks body) initial_state"
      using count m(5) by (simp_all add: eq)
    moreover have "m @ data = body @ (tail @ data)" "length (tail @ data) < 64" using False m(1) by simp_all
    ultimately show ?thesis using m(2) unfolding holds_def by blast
  qed
qed

lemma holds_fold: "holds ctx m \<Longrightarrow> holds (fold sha_update chunks ctx) (m @ concat chunks)"
  by (induction chunks arbitrary: ctx m) (simp_all add: holds_update flip: append_assoc)

lemma holds_bytes: "holds ctx m \<Longrightarrow> holds (fold (\<lambda>byte. sha_update [byte]) bs ctx) (m @ bs)"
proof (induction bs arbitrary: ctx m)
  case (Cons b bs)
  from Cons.IH [OF holds_update [OF Cons.prems, of "[b]"]] show ?case by simp
qed simp

lemma holds_zeros: "holds ctx m \<Longrightarrow> holds (pad_zeros ctx) (m @ replicate (zero_bytes (length m)) 0)"
proof (induction ctx arbitrary: m rule: pad_zeros.induct)
  case (1 ctx)
  have "unat (sha_count ctx AND 63) = length m mod 64"
    using 1(2) by (simp add: holds_def count_and_63 unat_of_nat mod_mod_cancel)
  then have eq: "pad_zeros ctx = (if length m mod 64 \<noteq> 56 then pad_zeros (sha_update [0] ctx) else ctx)"
    and g: "unat (sha_count ctx AND 63) \<noteq> 56 \<longleftrightarrow> length m mod 64 \<noteq> 56"
    by (simp_all add: pad_zeros.simps [of ctx])
  show ?case
  proof (cases "length m mod 64 = 56")
    case True
    then show ?thesis using 1(2) by (simp add: eq zero_bytes_def)
  next
    case False
    have z: "zero_bytes (length m) = Suc (zero_bytes (length (m @ [0])))" using zero_bytes_Suc [OF False] by simp
    have "holds (pad_zeros (sha_update [0] ctx)) ((m @ [0]) @ replicate (zero_bytes (length (m @ [0]))) 0)"
      by (rule 1(1) [OF _ holds_update [OF 1(2)]]) (simp add: g False)
    then show ?thesis using False unfolding eq z by simp
  qed
qed

text \<open>
  C17: the streaming digest is SHA-1: a message hashed in any number of pieces of any lengths,
  from a context with any buffer contents, gives the digest the standard defines on the whole
  message, padded and compressed block by block.
\<close>

theorem sha1_streaming:
  assumes "length (sha_buffer ctx) = 64"
  shows "sha_final (fold sha_update chunks (sha_init ctx)) = sha1_spec (concat chunks)"
proof -
  let ?m = "concat chunks" and ?c = "fold sha_update chunks (sha_init ctx)"
  have "holds (sha_init ctx) []"
    using assms unfolding holds_def sha_init_def by (auto simp: initial_state_def blocks_short)
  then have c: "holds ?c ?m" using holds_fold [of "sha_init ctx" "[]" chunks] by simp
  then have bits: "sha_count ?c * 8 = of_nat (8 * length ?m)" by (simp add: holds_def)
  define ctx' where "ctx' = fold (\<lambda>byte. sha_update [byte]) (word_bytes_be 8 (sha_count ?c * 8)) (pad_zeros (sha_update [0x80] ?c))"
  have "holds (pad_zeros (sha_update [0x80] ?c)) ((?m @ [0x80]) @ replicate (zero_bytes (length (?m @ [0x80]))) 0)"
    by (rule holds_zeros) (rule holds_update [OF c])
  from holds_bytes [OF this, of "word_bytes_be 8 (sha_count ?c * 8)"]
  have h: "holds ctx' (padded ?m)" unfolding ctx'_def bits by (simp add: padded_def)
  have "length (padded ?m) = length ?m + 1 + zero_bytes (length ?m + 1) + 8" by (simp add: padded_def word_bytes_be_def)
  then have "length (padded ?m) mod 64 = 0" using zero_bytes_fill [of "length ?m + 1"] by (simp only:)
  moreover obtain body tail where t: "padded ?m = body @ tail" "64 dvd length body" "length tail < 64"
    "sha_state ctx' = fold compress (blocks body) initial_state" using h unfolding holds_def by blast
  ultimately have "tail = []" by (auto simp: mod_add_eq dvd_imp_mod_0 simp flip: mod_add_left_eq)
  then have "sha_state ctx' = fold compress (blocks (padded ?m)) initial_state" using t by simp
  then show ?thesis unfolding sha_final_def Let_def ctx'_def [symmetric] sha1_spec_def by simp
qed

theorem sha1_streaming_witness:
  "\<forall>st c. sha_final (fold sha_update [[0x61], [], [0x62, 0x63]] (sha_init \<lparr>sha_state = st, sha_count = c, sha_buffer = replicate 64 7\<rparr>)) =
     sha1_spec [0x61, 0x62, 0x63]"
  using sha1_streaming [of "\<lparr>sha_state = _, sha_count = _, sha_buffer = replicate 64 7\<rparr>" "[[0x61], [], [0x62, 0x63]]"] by simp

end
