(* ===== verification/Websocket.thy ===== *)
theory Websocket
  imports Sha1 Http_Parse
begin

text \<open>
  The WebSocket endpoint of \<open>src/server/production_gen.cpp\<close>: the handshake with its accept key,
  base64, the frames it writes and reads, the loop that serves one client, and the broadcast.
  A buffer and a \<open>std::string\<close> of bytes are lists of bytes; the HTTP text of the handshake is a string.
\<close>

unbundle bit_operations_syntax

section \<open>Base64\<close>

definition base64_table :: string where
  "base64_table = ''ABCDEFGHIJKLMNOPQRSTUVWXYZabcdefghijklmnopqrstuvwxyz0123456789+/''"

definition base64_digit :: "u32 \<Rightarrow> nat \<Rightarrow> char" where
  "base64_digit val k = base64_table ! unat (drop_bit k val AND 0x3F)"

fun base64_encode :: "u8 list \<Rightarrow> string" where
  "base64_encode [] = []"
| "base64_encode [a] =
     (let val = push_bit 16 (ucast a) in [base64_digit val 18, base64_digit val 12, CHR ''='', CHR ''=''])"
| "base64_encode [a, b] =
     (let val = push_bit 16 (ucast a) OR push_bit 8 (ucast b) in
      [base64_digit val 18, base64_digit val 12, base64_digit val 6, CHR ''=''])"
| "base64_encode (a # b # c # data) =
     (let val = push_bit 16 (ucast a) OR push_bit 8 (ucast b) OR ucast c in
      [base64_digit val 18, base64_digit val 12, base64_digit val 6, base64_digit val 0] @ base64_encode data)"

section \<open>The handshake\<close>

definition ws_sha1 :: "u8 list \<Rightarrow> sha1_ctx \<Rightarrow> u8 list" where
  "ws_sha1 data ctx = sha_final (sha_update data (sha_init ctx))"

definition bytes_of :: "string \<Rightarrow> u8 list" where
  "bytes_of s = map of_char s"

text \<open>\<open>ctx\<close> is the context the function declares without initialising it.\<close>

definition compute_accept_key :: "sha1_ctx \<Rightarrow> string \<Rightarrow> string" where
  "compute_accept_key ctx client_key =
     base64_encode (ws_sha1 (bytes_of (client_key @ ''258EAFA5-E914-47DA-95CA-C5AB0DC85B11'')) ctx)"

definition ws_key :: "string \<Rightarrow> string" where
  "ws_key req =
     (let key_pos = (case find_sub ''Sec-WebSocket-Key:'' req of
                       Some p \<Rightarrow> Some p | None \<Rightarrow> find_sub ''sec-websocket-key:'' req);
          key = (case key_pos of
                   None \<Rightarrow> []
                 | Some p \<Rightarrow>
                    (let v = dropWhile is_blank (drop (p + 18) req) in
                     case find_sub CRLF v of None \<Rightarrow> [] | Some e \<Rightarrow> take e v)) in
      if key = [] then ''dGhlIHNhbXBsZSBub25jZQ=='' else key)"

text \<open>The answer to a connection: refused, or accepted with the reply sent.\<close>

datatype handshake = Reject string | Accept string

definition handle_upgrade :: "sha1_ctx \<Rightarrow> string \<Rightarrow> handshake" where
  "handle_upgrade ctx received =
     (let req = takeWhile (\<lambda>c. c \<noteq> CHR 0x00) received in
      if find_sub ''Upgrade: websocket'' req = None \<and> find_sub ''upgrade: websocket'' req = None
      then Reject (''HTTP/1.1 400 Bad Request'' @ CRLF @ CRLF)
      else Accept
        (''HTTP/1.1 101 Switching Protocols'' @ CRLF @
         ''Upgrade: websocket'' @ CRLF @
         ''Connection: Upgrade'' @ CRLF @
         ''Sec-WebSocket-Accept: '' @ compute_accept_key ctx (ws_key req) @ CRLF @ CRLF))"

section \<open>Frames\<close>

definition create_frame :: "u8 list \<Rightarrow> u8 \<Rightarrow> u8 list" where
  "create_frame data opcode =
     (let len = length data in
      [0x80 OR opcode] @
      (if len < 126 then [of_nat len]
       else if len < 65536 then [126, of_nat (len div 256), of_nat (len mod 256)]
       else 127 # word_bytes_be 8 (of_nat len :: u64)) @
      data)"

text \<open>\<open>Throws\<close> is the exception of \<open>assign\<close> when the length exceeds \<open>max_size\<close>.\<close>

datatype ws_frame = Incomplete | Throws | Frame "u8 list" u8 bool

definition max_string :: u64 where
  "max_string = 0x7FFFFFFFFFFFFFFF"

definition payload_length :: "u8 list \<Rightarrow> (u64 \<times> u64) option" where
  "payload_length buf =
     (let payload_len = ucast (buf ! 1 AND 0x7F) :: u64 in
      if payload_len = 126 then
        (if length buf < 4 then None else Some (push_bit 8 (ucast (buf ! 2)) OR ucast (buf ! 3), 4))
      else if payload_len = 127 then
        (if length buf < 10 then None
         else Some (fold (\<lambda>i p. push_bit 8 p OR ucast (buf ! (2 + i))) [0..<8] 0, 10))
      else Some (payload_len, 2))"

definition parse_frame :: "u8 list \<Rightarrow> ws_frame" where
  "parse_frame buf =
     (if length buf < 2 then Incomplete
      else
        (let fin = (buf ! 0 AND 0x80 \<noteq> 0); opcode = buf ! 0 AND 0x0F; masked = (buf ! 1 AND 0x80 \<noteq> 0) in
         case payload_length buf of
           None \<Rightarrow> Incomplete
         | Some (payload_len, offset) \<Rightarrow>
            if masked \<and> (of_nat (length buf) :: u64) < offset + 4 then Incomplete
            else
              (let mask_key = (if masked then take 4 (drop (unat offset) buf) else [0, 0, 0, 0]);
                   offset = (if masked then offset + 4 else offset) in
               if (of_nat (length buf) :: u64) < offset + payload_len then Incomplete
               else if payload_len > max_string then Throws
               else
                 (let payload = take (unat payload_len) (drop (unat offset) buf) in
                  Frame (if masked then map (\<lambda>i. payload ! i XOR mask_key ! (i mod 4)) [0..<length payload] else payload)
                    opcode fin))))"

section \<open>Serving a client\<close>

datatype ws_end = Disconnected | Crashed

text \<open>
  The loop over what each \<open>recv\<close> returns (an empty list is a closed connection): the frames sent,
  and how it ended. An exception in this thread ends the process.
\<close>

fun client_loop :: "u8 list list \<Rightarrow> u8 list list \<times> ws_end" where
  "client_loop [] = ([], Disconnected)"
| "client_loop (buf # bufs) =
     (if buf = [] then ([], Disconnected)
      else
        (case parse_frame buf of
           Incomplete \<Rightarrow> ([], Disconnected)
         | Throws \<Rightarrow> ([], Crashed)
         | Frame payload opcode fin \<Rightarrow>
            if opcode = 0x8 then ([create_frame [] 0x8], Disconnected)
            else
              (let (sent, e) = client_loop bufs in
               if opcode = 0x9 then (create_frame payload 0xA # sent, e)
               else if opcode = 0x1 \<or> opcode = 0x2 then (create_frame payload opcode # sent, e)
               else (sent, e))))"

section \<open>Broadcast\<close>

text \<open>One client: what it gets of the frame, and whether all of it; \<open>net k n\<close> is the result of its \<open>k\<close>-th \<open>send\<close>.\<close>

function send_frame :: "(nat \<Rightarrow> nat \<Rightarrow> int) \<Rightarrow> nat \<Rightarrow> u8 list \<Rightarrow> bool \<times> u8 list" where
  "send_frame net k data =
     (if data = [] then (True, [])
      else
        (let sent = net k (length data) in
         if sent \<le> 0 then (False, [])
         else (let (ok, got) = send_frame net (Suc k) (drop (nat sent) data) in (ok, take (nat sent) data @ got))))"
  by pat_completeness auto
termination
  by (relation "measure (\<lambda>(net, k, data). length data)") auto

declare send_frame.simps [simp del]

text \<open>The clients left, and what every client of before was sent.\<close>

fun broadcast_to :: "(nat \<Rightarrow> nat \<Rightarrow> nat \<Rightarrow> int) \<Rightarrow> u8 list \<Rightarrow> nat list \<Rightarrow> nat list \<times> (nat \<times> u8 list) list" where
  "broadcast_to net frame [] = ([], [])"
| "broadcast_to net frame (client # clients) =
     (let (ok, got) = send_frame (net client) 0 frame; (left, log) = broadcast_to net frame clients in
      (if ok then client # left else left, (client, got) # log))"

definition broadcast :: "(nat \<Rightarrow> nat \<Rightarrow> nat \<Rightarrow> int) \<Rightarrow> u8 list \<Rightarrow> nat list \<Rightarrow> nat list \<times> (nat \<times> u8 list) list" where
  "broadcast net msg clients = broadcast_to net (create_frame msg 0x1) clients"

definition remove_client :: "nat \<Rightarrow> nat list \<Rightarrow> nat list" where
  "remove_client fd clients = remove1 fd clients"

end
