(* ===== verification/Websocket_Correct.thy ===== *)
theory Websocket_Correct
  imports Websocket
begin

text \<open>
  Frames and base64 against independent encoders and decoders, the delivery of a broadcast, and
  the input that ends the process.
\<close>

section \<open>Big-endian numbers\<close>

definition be_word :: "u8 list \<Rightarrow> u64" where
  "be_word bs = foldl (\<lambda>p b. push_bit 8 p OR ucast b) 0 bs"

lemma word_bytes_be_Suc: "word_bytes_be (Suc n) (w :: u64) = word_bytes_be n (drop_bit 8 w) @ [ucast w]"
proof -
  have "[0..<Suc n] = 0 # map Suc [0..<n]" by (simp only: map_Suc_upt upt_conv_Cons [OF zero_less_Suc])
  then show ?thesis by (simp add: word_bytes_be_def rev_map o_def add.commute)
qed

lemma be_word_bytes: "be_word (word_bytes_be n w) = take_bit (8 * n) w"
proof (induction n arbitrary: w)
  case 0
  then show ?case by (simp add: be_word_def word_bytes_be_def)
next
  case (Suc n)
  have "be_word (word_bytes_be (Suc n) w) = push_bit 8 (be_word (word_bytes_be n (drop_bit 8 w))) OR ucast (ucast w :: u8)"
    by (simp add: word_bytes_be_Suc be_word_def)
  also have "\<dots> = take_bit (8 * Suc n) w" unfolding Suc.IH by (rule bit_eqI) (auto simp: bit_simps)
  finally show ?case .
qed

lemma length_word_bytes_be [simp]: "length (word_bytes_be n w) = n"
  by (simp add: word_bytes_be_def)

lemma be_word_8: "be_word (word_bytes_be 8 w) = w"
  by (simp add: be_word_bytes take_bit_word_eq_self)

lemma two_bytes:
  assumes "n < 65536"
  shows "push_bit 8 (ucast (of_nat (n div 256) :: u8)) OR ucast (of_nat (n mod 256) :: u8) = (of_nat n :: u64)"
proof -
  have u: "unat (of_nat n :: u64) = n" using assms by (simp add: unat_of_nat)
  have "unat (drop_bit 8 (of_nat n :: u64)) = n div 256" 
    by (simp only: unsigned_drop_bit_eq u) (use assms in \<open>simp add: drop_bit_eq_div take_bit_nat_eq_self\<close>)
  then have "unat (ucast (drop_bit 8 (of_nat n :: u64)) :: u8) = unat (of_nat (n div 256) :: u8)"
    by (simp only: unsigned_ucast_eq) (simp add: unat_of_nat take_bit_eq_mod)
  then have hi: "ucast (drop_bit 8 (of_nat n :: u64)) = (of_nat (n div 256) :: u8)" by (rule word_unat_eq_iff [THEN iffD2])
  have "unat (ucast (of_nat n :: u64) :: u8) = unat (of_nat (n mod 256) :: u8)"
    using assms by (simp add: unsigned_ucast_eq take_bit_eq_mod u unat_of_nat)
  then have lo: "ucast (of_nat n :: u64) = (of_nat (n mod 256) :: u8)" by (rule word_unat_eq_iff [THEN iffD2])
  have "be_word (word_bytes_be 2 (of_nat n :: u64)) = take_bit 16 (of_nat n :: u64)" by (simp add: be_word_bytes)
  also have "\<dots> = of_nat n" using assms by (simp add: take_bit_of_nat take_bit_nat_eq_self)
  finally show ?thesis by (simp add: numeral_2_eq_2 word_bytes_be_Suc be_word_def hi lo) (simp add: word_bytes_be_def hi lo)
qed

section \<open>Frames\<close>

text \<open>The frame of a client, with its masking key; the server's own frames carry no key.\<close>

definition length_bytes :: "bool \<Rightarrow> nat \<Rightarrow> u8 list" where
  "length_bytes masked n =
     (let m = (if masked then 0x80 else 0) in
      if n < 126 then [m OR of_nat n]
      else if n < 65536 then [m OR 126, of_nat (n div 256), of_nat (n mod 256)]
      else (m OR 127) # word_bytes_be 8 (of_nat n :: u64))"

definition mask_bytes :: "u8 list \<Rightarrow> u8 list \<Rightarrow> u8 list" where
  "mask_bytes key data = map (\<lambda>i. data ! i XOR key ! (i mod 4)) [0..<length data]"

definition client_frame :: "u8 list \<Rightarrow> u8 list \<Rightarrow> u8 \<Rightarrow> u8 list" where
  "client_frame key data opcode = [0x80 OR opcode] @ length_bytes True (length data) @ key @ mask_bytes key data"

lemma create_frame_bytes: "create_frame data opcode = [0x80 OR opcode] @ length_bytes False (length data) @ data"
  by (simp add: create_frame_def length_bytes_def Let_def)

lemma small_length_table:
  "list_all (\<lambda>n. (0x80 OR of_nat n :: u8) AND 0x7F = of_nat n \<and> (of_nat n :: u8) AND 0x7F = of_nat n \<and>
     (0x80 OR of_nat n :: u8) AND 0x80 \<noteq> 0 \<and> (of_nat n :: u8) AND 0x80 = 0) [0..<126]"
  by code_simp

lemma small_length:
  assumes "n < 126"
  shows "((if masked then 0x80 else 0) OR of_nat n :: u8) AND 0x7F = of_nat n"
    and "ucast (of_nat n :: u8) = (of_nat n :: u64)" and "(of_nat n :: u64) \<noteq> 126" and "(of_nat n :: u64) \<noteq> 127"
    and "((if masked then 0x80 else 0) OR of_nat n :: u8) AND 0x80 \<noteq> 0 \<longleftrightarrow> masked"
proof -
  have u: "unat (of_nat n :: u8) = n" "unat (of_nat n :: u64) = n" using assms by (simp_all add: unat_of_nat)
  have "n \<in> set [0..<126]" using assms by simp
  then show "((if masked then 0x80 else 0) OR of_nat n :: u8) AND 0x7F = of_nat n"
    "((if masked then 0x80 else 0) OR of_nat n :: u8) AND 0x80 \<noteq> 0 \<longleftrightarrow> masked"
    using small_length_table unfolding list_all_iff by simp_all
  show "ucast (of_nat n :: u8) = (of_nat n :: u64)"
    using u assms by (intro word_unat_eq_iff [THEN iffD2]) (simp add: unsigned_ucast_eq take_bit_nat_eq_self)
  show "(of_nat n :: u64) \<noteq> 126" "(of_nat n :: u64) \<noteq> 127" using u(2) assms by auto
qed

lemma fold_bytes:
  "length bs = 8 \<Longrightarrow> fold (\<lambda>i p. push_bit 8 p OR ucast ((x # y # bs @ rest) ! (2 + i))) [0..<8] 0 = be_word bs"
proof -
  assume l: "length bs = 8"
  have "be_word bs = foldl (\<lambda>p b. push_bit 8 p OR ucast b) 0 (map ((!) bs) [0..<length bs])" by (simp add: be_word_def map_nth)
  also have "\<dots> = foldl (\<lambda>p i. push_bit 8 p OR ucast (bs ! i)) 0 [0..<8]" by (simp add: foldl_map l)
  also have "\<dots> = fold (\<lambda>i p. push_bit 8 p OR ucast (bs ! i)) [0..<8] 0" by (simp only: foldl_conv_fold)
  also have "\<dots> = fold (\<lambda>i p. push_bit 8 p OR ucast ((x # y # bs @ rest) ! (2 + i))) [0..<8] 0"
    by (rule fold_cong) (auto simp: nth_append l)
  finally show ?thesis by simp
qed

text \<open>The length of a frame is read back, with the place where the rest begins.\<close>

lemma length_bytes_read:
  assumes "n < 2 ^ 64"
  shows "\<exists>k \<in> {2, 4, 10}. payload_length (b0 # length_bytes masked n @ rest) = Some (of_nat n, of_nat k) \<and>
    length (b0 # length_bytes masked n) = k \<and>
    ((b0 # length_bytes masked n @ rest) ! 1 AND 0x80 \<noteq> 0 \<longleftrightarrow> masked)"
proof -
  define m where "m = (if masked then 0x80 else 0 :: u8)"
  have bits: "(m OR 126) AND 0x7F = 126" "(m OR 127) AND 0x7F = 127"
    "(m OR 126) AND 0x80 \<noteq> 0 \<longleftrightarrow> masked" "(m OR 127) AND 0x80 \<noteq> 0 \<longleftrightarrow> masked"
    by (simp_all add: m_def)
  consider "n < 126" | "126 \<le> n" "n < 65536" | "65536 \<le> n" by linarith
  then show ?thesis
  proof cases
    case 1
    note s = small_length(1) [OF 1, of masked, folded m_def] small_length(2-4) [OF 1] small_length(5) [OF 1, of masked, folded m_def]
    have "payload_length (b0 # length_bytes masked n @ rest) = Some (of_nat n, 2)"
      using 1 s unfolding payload_length_def length_bytes_def m_def [symmetric] by (simp add: Let_def)
    then show ?thesis using 1 s(5) unfolding length_bytes_def m_def [symmetric] by (simp add: Let_def)
  next
    case 2
    let ?hi = "of_nat (n div 256) :: u8" and ?lo = "of_nat (n mod 256) :: u8"
    have l: "length_bytes masked n = [m OR 126, ?hi, ?lo]" using 2 by (simp add: length_bytes_def m_def Let_def)
    have nth: "(b0 # (m OR 126) # ?hi # ?lo # rest) ! 1 = m OR 126" "(b0 # (m OR 126) # ?hi # ?lo # rest) ! 2 = ?hi"
      "(b0 # (m OR 126) # ?hi # ?lo # rest) ! 3 = ?lo" by simp_all
    have u: "(ucast (126 :: u8) :: u64) = 126" by simp
    have long: "\<not> length (b0 # (m OR 126) # ?hi # ?lo # rest) < 4" by simp
    have "payload_length (b0 # (m OR 126) # ?hi # ?lo # rest) = Some (of_nat n, 4)"
      unfolding payload_length_def nth bits(1) u Let_def if_P [OF refl] if_not_P [OF long] two_bytes [OF 2(2)] ..
    then show ?thesis using bits(3) nth(1) unfolding l by simp
  next
    case 3
    let ?bs = "word_bytes_be 8 (of_nat n :: u64)"
    have f: "fold (\<lambda>i p. push_bit 8 p OR ucast ((b0 # (m OR 127) # ?bs @ rest) ! (2 + i))) [0..<8] 0 = (of_nat n :: u64)"
      by (subst fold_bytes) (simp_all add: be_word_8)
    have "payload_length (b0 # (m OR 127) # ?bs @ rest) = Some (of_nat n, 10)"
      unfolding payload_length_def f using bits(2) by (simp add: Let_def)
    moreover have "length_bytes masked n = (m OR 127) # ?bs" using 3 by (simp add: length_bytes_def m_def Let_def)
    ultimately show ?thesis using bits(4) by simp
  qed
qed

lemma opcode_table:
  "list_all (\<lambda>n. (0x80 OR of_nat n :: u8) AND 0x0F = of_nat n \<and> (0x80 OR of_nat n :: u8) AND 0x80 \<noteq> 0) [0..<16]"
  by code_simp

lemma opcode_bits:
  assumes "opcode < (16 :: u8)"
  shows "(0x80 OR opcode) AND 0x0F = opcode" and "(0x80 OR opcode) AND 0x80 \<noteq> 0"
proof -
  have "unat opcode < 16" using assms by (simp add: word_less_nat_alt)
  moreover define n where "n = unat opcode"
  ultimately have n: "opcode = of_nat n" "n \<in> set [0..<16]" by simp_all
  show "(0x80 OR opcode) AND 0x0F = opcode" "(0x80 OR opcode) AND 0x80 \<noteq> 0"
    using opcode_table n(2) unfolding list_all_iff n(1) by blast+
qed

lemma length_mask [simp]: "length (mask_bytes key data) = length data"
  by (simp add: mask_bytes_def)

lemma mask_mask: "length data = n \<Longrightarrow>
  map (\<lambda>i. mask_bytes key data ! i XOR key ! (i mod 4)) [0..<n] = data"
  by (rule nth_equalityI) (simp_all add: mask_bytes_def xor.assoc)

text \<open>What the reader makes of a header, a key and a payload, whatever follows them.\<close>

lemma parse_layout:
  assumes op: "opcode < 16" and n: "length body = n" "n < 2 ^ 63" "length rest < 2 ^ 62"
    and key: "length key = (if masked then 4 else 0)"
  defines "buf \<equiv> (0x80 OR opcode) # length_bytes masked n @ key @ body @ rest"
  shows "parse_frame buf =
    Frame (if masked then map (\<lambda>i. body ! i XOR key ! (i mod 4)) [0..<n] else body) opcode True"
proof -
  have n': "n < 2 ^ 64" using n(2) by simp
  obtain k where k: "k \<in> {2, 4, 10}" "payload_length buf = Some (of_nat n, of_nat k)"
    "length ((0x80 OR opcode) # length_bytes masked n) = k" "buf ! 1 AND 0x80 \<noteq> 0 \<longleftrightarrow> masked"
    using length_bytes_read [OF n', of "0x80 OR opcode" masked "key @ body @ rest"]
    unfolding buf_def by (elim bexE conjE)
  define h where "h = (0x80 OR opcode) # length_bytes masked n"
  have buf: "buf = h @ key @ body @ rest" by (simp add: buf_def h_def)
  have h: "length h = k" using k(3) by (simp add: h_def)
  have len: "length buf = k + length key + n + length rest" by (simp add: buf h n(1))
  define off where "off = k + length key"
  have small: "k \<le> 10" "off \<le> 14" "off = (if masked then k + 4 else k)" using k(1) key by (auto simp: off_def)
  have lt: "length buf < 2 ^ 64" "off + n < 2 ^ 64" using len small(1,2) n(2,3) key by (auto simp: off_def)
  have u: "unat (of_nat (length buf) :: u64) = length buf" "unat (of_nat n :: u64) = n"
    "unat (of_nat off :: u64) = off" "unat (of_nat k :: u64) = k"
    using lt small n(2) by (simp_all add: unat_of_nat)
  have o: "(if masked then of_nat k + 4 else of_nat k) = (of_nat off :: u64)" using small(3) by simp
  have "unat (of_nat off + of_nat n :: u64) = off + n" using lt(2) u by (subst unat_add_no_wrap) simp_all
  then have room: "\<not> (of_nat (length buf) :: u64) < of_nat off + of_nat n"
    using u(1) len by (simp add: word_less_nat_alt off_def)
  have short: "\<not> (masked \<and> (of_nat (length buf) :: u64) < of_nat k + 4)"
  proof
    assume a: "masked \<and> (of_nat (length buf) :: u64) < of_nat k + 4"
    then have "(of_nat (length buf) :: u64) < of_nat off" using small(3) by simp
    then show False using u(1,3) len by (simp add: word_less_nat_alt off_def)
  qed
  have max: "\<not> (of_nat n :: u64) > max_string"
    using u(2) n(2) by (simp add: word_less_nat_alt max_string_def)
  have two: "\<not> length buf < 2" using len k(1) by auto
  have payload: "take n (drop off buf) = body" using n(1) by (simp add: buf off_def flip: h)
  have mkey: "(if masked then take 4 (drop k buf) else [0, 0, 0, 0]) = (if masked then key else [0, 0, 0, 0])"
    using key by (simp add: buf flip: h)
  have b0: "buf ! 0 = 0x80 OR opcode" by (simp add: buf_def)
  show ?thesis
    unfolding parse_frame_def if_not_P [OF two] Let_def k(2) option.case split b0 opcode_bits(1) [OF op] k(4)
      u(4) o if_not_P [OF short] if_not_P [OF room] if_not_P [OF max] u(2,3) payload mkey
    using opcode_bits(2) [OF op] n(1) by simp
qed

text \<open>
  Frames are read back: for every opcode and every payload of less than \<open>2 ^ 63\<close> bytes, the
  reader returns exactly the payload and opcode that the server wrote into a frame, and those
  that a client wrote into a masked frame with any key, whatever bytes follow.
\<close>

theorem frame_round_trip:
  assumes "opcode < 16" and "length data < 2 ^ 63" and "length rest < 2 ^ 62" and "length key = 4"
  shows "parse_frame (create_frame data opcode @ rest) = Frame data opcode True \<and>
    parse_frame (client_frame key data opcode @ rest) = Frame data opcode True"
proof -
  have "parse_frame (create_frame data opcode @ rest) = Frame data opcode True"
    using parse_layout [of opcode data "length data" rest "[]" False] assms by (simp add: create_frame_bytes)
  moreover have "parse_frame (client_frame key data opcode @ rest) = Frame data opcode True"
    using parse_layout [of opcode "mask_bytes key data" "length data" rest key True] assms mask_mask [OF refl, of key data]
    by (simp add: client_frame_def)
  ultimately show ?thesis ..
qed

theorem frame_round_trip_witness:
  "parse_frame (create_frame (replicate 126 7) 2 @ [9]) = Frame (replicate 126 7) 2 True \<and>
   parse_frame (client_frame [1, 2, 3, 4] (replicate 126 7) 2 @ [9]) = Frame (replicate 126 7) 2 True"
  by (rule frame_round_trip) simp_all

section \<open>Input that is mishandled\<close>

text \<open>
  Ten bytes end the process: the bound check adds the offset to the announced length, the sum
  wraps for a length near \<open>2 ^ 64\<close>, and the copy of that many bytes throws in a thread that does
  not catch it. And two frames that arrive in one segment are served as one: the second ping is
  never answered.
\<close>

theorem websocket_frames_mishandled:
  "client_loop [[0x81, 0x7F, 0xFF, 0xFF, 0xFF, 0xFF, 0xFF, 0xFF, 0xFF, 0xFF]] = ([], Crashed) \<and>
   client_loop [create_frame [1] 0x9, create_frame [2] 0x9] = ([create_frame [1] 0xA, create_frame [2] 0xA], Disconnected) \<and>
   client_loop [create_frame [1] 0x9 @ create_frame [2] 0x9] = ([create_frame [1] 0xA], Disconnected)"
proof -
  have "parse_frame [0x81, 0x7F, 0xFF, 0xFF, 0xFF, 0xFF, 0xFF, 0xFF, 0xFF, 0xFF] = Throws" by code_simp
  moreover have "parse_frame (create_frame data 0x9 @ rest) = Frame data 0x9 True"
    if "length data = 1" "length rest < 4" for data rest
    using parse_layout [of "0x9" data 1 rest "[]" False] that by (simp add: create_frame_bytes)
  from this [of _ "[]"] this [of "[1]" "create_frame [2] 0x9"]
  have "parse_frame (create_frame [1] 0x9) = Frame [1] 0x9 True" "parse_frame (create_frame [2] 0x9) = Frame [2] 0x9 True"
    "parse_frame (create_frame [1] 0x9 @ create_frame [2] 0x9) = Frame [1] 0x9 True"
    by (simp_all add: create_frame_def)
  moreover have "create_frame d op \<noteq> []" for d op by (simp add: create_frame_def Let_def)
  ultimately show ?thesis by simp
qed

section \<open>Broadcast\<close>

lemma send_frame_complete: "send_frame net k data = (True, got) \<Longrightarrow> got = data"
proof (induction "length data" arbitrary: k data got rule: less_induct)
  case less
  show ?case
  proof (cases "data = []")
    case True
    then show ?thesis using less.prems by (simp add: send_frame.simps)
  next
    case False
    let ?s = "net k (length data)"
    obtain ok rest where r: "send_frame net (Suc k) (drop (nat ?s) data) = (ok, rest)" by (metis surj_pair)
    have s: "0 < ?s" "ok" "got = take (nat ?s) data @ rest"
      using less.prems False r by (simp_all add: send_frame.simps [of net k data] Let_def split: if_splits)
    have "length (drop (nat ?s) data) < length data" using s(1) False by (cases data) simp_all
    from less.hyps [OF this] r s(2) have "rest = drop (nat ?s) data" by simp
    then show ?thesis using s(3) by simp
  qed
qed

text \<open>Every client that is kept has been sent the whole frame; the others got a part and are dropped.\<close>

lemma broadcast_complete:
  assumes "broadcast net msg clients = (left, log)" and "distinct clients"
  shows "map fst log = clients \<and> (\<forall>(c, got) \<in> set log. c \<in> set left \<longrightarrow> got = create_frame msg 0x1)"
proof -
  have "broadcast_to net frame clients = (left, log) \<Longrightarrow> distinct clients \<Longrightarrow>
      map fst log = clients \<and> set left \<subseteq> set clients \<and> (\<forall>(c, got) \<in> set log. c \<in> set left \<longrightarrow> got = frame)" for frame
  proof (induction clients arbitrary: left log)
    case (Cons c cs)
    obtain ok got where s: "send_frame (net c) 0 frame = (ok, got)" by (metis surj_pair)
    obtain l lg where b: "broadcast_to net frame cs = (l, lg)" by (metis surj_pair)
    have IH: "map fst lg = cs" "set l \<subseteq> set cs" "\<forall>(c, got) \<in> set lg. c \<in> set l \<longrightarrow> got = frame"
      using Cons.IH [OF b] Cons.prems(2) by auto
    have eq: "left = (if ok then c # l else l)" "log = (c, got) # lg" using Cons.prems(1) by (simp_all add: s b)
    have "c \<notin> set l" using IH(2) Cons.prems(2) by auto
    moreover have "c \<notin> fst ` set lg" using IH(1) Cons.prems(2) by (metis distinct.simps(2) set_map)
    then have "\<forall>x \<in> set lg. fst x \<noteq> c" by force
    ultimately have cs: "c \<notin> set l" "\<forall>x \<in> set lg. fst x \<noteq> c" by blast+
    show ?case using cs IH send_frame_complete [of "net c" 0 frame got] s unfolding eq by (cases ok) auto
  qed simp
  from this [OF assms(1) [unfolded broadcast_def] assms(2)] show ?thesis by blast
qed

end
