(* ===== verification/Tensor.thy ===== *)
theory Tensor
  imports Byte_Encoding
begin

text \<open>
  The tensor of \<open>include/quant/tensor.h\<close> and \<open>src/core/tensor.cpp\<close>: a shape, strides and an offset
  into a buffer that several tensors share. The buffers are an explicit store of byte lists, so
  that aliasing shows. Sizes and indices are \<open>int64_t\<close>: an operation whose \<open>numel\<close>, strides or
  index sum leaves that range is undefined behaviour, as is an access outside a buffer and a negative
  axis, and a value of the error type. A byte count is a \<open>size_t\<close>, which wraps; the model stops
  where it would. Not modelled: the gradient pointer and the autograd hook.
\<close>

section \<open>Shapes\<close>

datatype dtype = I64 | I32 | U8 | U4 | U16 | F16 | F32 | Other u8

fun dtype_size :: "dtype \<Rightarrow> nat" where
  "dtype_size I64 = 8"
| "dtype_size I32 = 4"
| "dtype_size U8 = 1"
| "dtype_size U4 = 1"
| "dtype_size U16 = 2"
| "dtype_size F16 = 2"
| "dtype_size F32 = 4"
| "dtype_size (Other _) = 0"

fun dtype_code :: "dtype \<Rightarrow> u8" where
  "dtype_code I64 = 0"
| "dtype_code I32 = 1"
| "dtype_code U8 = 2"
| "dtype_code U4 = 3"
| "dtype_code U16 = 4"
| "dtype_code F16 = 5"
| "dtype_code F32 = 6"
| "dtype_code (Other c) = c"

definition dtype_of :: "u8 \<Rightarrow> dtype" where
  "dtype_of c = (if c = 0 then I64 else if c = 1 then I32 else if c = 2 then U8 else if c = 3 then U4
     else if c = 4 then U16 else if c = 5 then F16 else if c = 6 then F32 else Other c)"

type_synonym shape = "int list"

definition int64_fits :: "int \<Rightarrow> bool" where
  "int64_fits x \<longleftrightarrow> - (2 ^ 63) \<le> x \<and> x < 2 ^ 63"

text \<open>\<open>numel\<close> multiplies the axes from the first on; no product may overflow.\<close>

definition numel :: "shape \<Rightarrow> int" where
  "numel dims = prod_list dims"

definition numel_fits :: "shape \<Rightarrow> bool" where
  "numel_fits dims \<longleftrightarrow> list_all (\<lambda>k. int64_fits (prod_list (take k dims))) [0..<Suc (length dims)]"

text \<open>The loop over the axes from the last to the first; again no product may overflow.\<close>

definition compute_strides :: "shape \<Rightarrow> int list" where
  "compute_strides dims = fst (foldr (\<lambda>d (ss, s). (s # ss, s * d)) dims ([], 1))"

definition strides_fit :: "shape \<Rightarrow> bool" where
  "strides_fit dims \<longleftrightarrow> list_all (\<lambda>k. int64_fits (prod_list (drop k dims))) [0..<Suc (length dims)]"

section \<open>Tensors and buffers\<close>

record tensor =
  tn_shape :: shape
  tn_dtype :: dtype
  tn_buffer :: "nat option"
  tn_offset :: nat
  tn_strides :: "int list"
  tn_transposed :: bool
  tn_requires_grad :: bool

type_synonym buffers = "u8 list list"

text \<open>
  \<open>Wrapped_Size\<close>: a byte count that no \<open>size_t\<close> holds. The code goes on with its remainder.
\<close>

datatype tensor_error = Check_Failed string | Bad_Alloc | Undefined | Wrapped_Size

definition tensor_default :: tensor where
  "tensor_default = \<lparr>tn_shape = [], tn_dtype = F32, tn_buffer = None, tn_offset = 0, tn_strides = [],
     tn_transposed = False, tn_requires_grad = False\<rparr>"

text \<open>The size in bytes; a negative one stands for a huge \<open>size_t\<close>.\<close>

definition bytes_of :: "shape \<Rightarrow> dtype \<Rightarrow> tensor_error + int" where
  "bytes_of dims dt =
     (let bytes = numel dims * int (dtype_size dt) in
      if \<not> numel_fits dims then Inl Undefined
      else if bytes < - (2 ^ 63) \<or> 2 ^ 64 \<le> bytes then Inl Wrapped_Size
      else Inr bytes)"

text \<open>
  The constructor allocates and clears. No allocation of \<open>2 ^ 63\<close> bytes or more succeeds; every
  smaller one does here.
\<close>

definition tensor_new :: "shape \<Rightarrow> dtype \<Rightarrow> buffers \<Rightarrow> tensor_error + tensor \<times> buffers" where
  "tensor_new dims dt st =
     bind_result (bytes_of dims dt) (\<lambda>bytes.
      if bytes < 0 \<or> 2 ^ 63 \<le> bytes then Inl Bad_Alloc
      else if \<not> strides_fit dims then Inl Undefined
      else Inr (tensor_default\<lparr>tn_shape := dims, tn_dtype := dt, tn_buffer := Some (length st),
                  tn_strides := compute_strides dims\<rparr>,
                st @ [replicate (nat bytes) 0]))"

text \<open>The constructor on an existing buffer; that the strides fit is part of \<open>tensor_ok\<close> below.\<close>

definition tensor_of_buffer :: "shape \<Rightarrow> nat \<Rightarrow> dtype \<Rightarrow> tensor" where
  "tensor_of_buffer dims b dt =
     tensor_default\<lparr>tn_shape := dims, tn_dtype := dt, tn_buffer := Some b, tn_strides := compute_strides dims\<rparr>"

definition tensor_move :: "tensor \<Rightarrow> tensor \<times> tensor" where
  "tensor_move other = (other, other\<lparr>tn_buffer := None, tn_offset := 0, tn_transposed := False, tn_strides := []\<rparr>)"

definition size_bytes :: "tensor \<Rightarrow> int" where
  "size_bytes t = numel (tn_shape t) * int (dtype_size (tn_dtype t))"

text \<open>Reading and writing bytes from \<open>data()\<close> on; no bytes are no access.\<close>

definition load :: "buffers \<Rightarrow> tensor \<Rightarrow> int \<Rightarrow> int \<Rightarrow> tensor_error + u8 list" where
  "load st t pos n =
     (if n = 0 then Inr []
      else
        (case tn_buffer t of
           None \<Rightarrow> Inl Undefined
         | Some b \<Rightarrow>
            (let p = int (tn_offset t) + pos in
             if 0 < n \<and> 0 \<le> p \<and> p + n \<le> int (length (st ! b)) then Inr (take (nat n) (drop (nat p) (st ! b)))
             else Inl Undefined)))"

definition store :: "buffers \<Rightarrow> tensor \<Rightarrow> int \<Rightarrow> u8 list \<Rightarrow> tensor_error + buffers" where
  "store st t pos bs =
     (if bs = [] then Inr st
      else
        (case tn_buffer t of
           None \<Rightarrow> Inl Undefined
         | Some b \<Rightarrow>
            (let p = int (tn_offset t) + pos in
             if 0 \<le> p \<and> p + int (length bs) \<le> int (length (st ! b))
             then Inr (st[b := take (nat p) (st ! b) @ bs @ drop (nat p + length bs) (st ! b)])
             else Inl Undefined)))"

section \<open>Views\<close>

definition tensor_view :: "tensor \<Rightarrow> shape \<Rightarrow> tensor_error + tensor" where
  "tensor_view t dims =
     (if \<not> (numel_fits dims \<and> numel_fits (tn_shape t)) then Inl Undefined
      else if numel dims \<noteq> numel (tn_shape t) then Inl (Check_Failed ''view: size mismatch'')
      else if \<not> strides_fit dims then Inl Undefined
      else Inr (t\<lparr>tn_shape := dims, tn_strides := compute_strides dims, tn_transposed := False\<rparr>))"

definition tensor_reshape :: "tensor \<Rightarrow> shape \<Rightarrow> tensor_error + tensor" where
  "tensor_reshape t dims =
     (if \<not> (numel_fits dims \<and> numel_fits (tn_shape t)) then Inl Undefined
      else if numel dims \<noteq> numel (tn_shape t) then Inl (Check_Failed ''reshape: size mismatch'')
      else tensor_view t dims)"

definition tensor_slice :: "tensor \<Rightarrow> int \<Rightarrow> int \<Rightarrow> int \<Rightarrow> tensor_error + tensor" where
  "tensor_slice t dim start stop =
     (if \<not> dim < int (length (tn_shape t)) then Inl (Check_Failed ''slice: dim out of range'')
      else if dim < 0 then Inl Undefined
      else if \<not> (start \<ge> 0 \<and> stop \<le> tn_shape t ! nat dim) then Inl (Check_Failed ''slice: bounds'')
      else
        (let dims = (tn_shape t)[nat dim := stop - start] in
         if \<not> (int64_fits (stop - start) \<and> int64_fits (start * tn_strides t ! nat dim) \<and> strides_fit dims) then Inl Undefined
         else Inr (t\<lparr>tn_shape := dims,
                tn_offset := tn_offset t + nat (start * tn_strides t ! nat dim) * dtype_size (tn_dtype t),
                tn_strides := compute_strides dims, tn_transposed := False\<rparr>)))"

definition swap_at :: "nat \<Rightarrow> nat \<Rightarrow> 'a list \<Rightarrow> 'a list" where
  "swap_at i j xs = xs[i := xs ! j, j := xs ! i]"

text \<open>The place of the \<open>i\<close>-th element in row-major order, axis by axis from the last.\<close>

definition strided_offset :: "shape \<Rightarrow> int list \<Rightarrow> int \<Rightarrow> int" where
  "strided_offset dims strides i =
     snd (foldr (\<lambda>(d, s) (rem, off). (rem div d, off + rem mod d * s)) (zip dims strides) (i, 0))"

fun collect :: "('e + 'a list) list \<Rightarrow> 'e + 'a list" where
  "collect [] = Inr []"
| "collect (r # rs) = bind_result r (\<lambda>xs. bind_result (collect rs) (\<lambda>ys. Inr (xs @ ys)))"

text \<open>Transposing the last two axes of a square keeps the buffer; everything else is copied.\<close>

definition tensor_transpose :: "tensor \<Rightarrow> int \<Rightarrow> int \<Rightarrow> buffers \<Rightarrow> tensor_error + tensor \<times> buffers" where
  "tensor_transpose t dim1 dim2 st =
     (let rank = int (length (tn_shape t)) in
      if \<not> (dim1 < rank \<and> dim2 < rank) then Inl (Check_Failed ''transpose: dim out of range'')
      else if dim1 = dim2 then Inr (t, st)
      else if dim1 < 0 \<or> dim2 < 0 then Inl Undefined
      else
        (let u = t\<lparr>tn_shape := swap_at (nat dim1) (nat dim2) (tn_shape t),
                   tn_strides := swap_at (nat dim1) (nat dim2) (tn_strides t), tn_transposed := False\<rparr> in
         if dim1 = rank - 1 \<and> dim2 = rank - 2 \<and> tn_shape t ! nat dim1 = tn_shape t ! nat dim2 then Inr (u, st)
         else
           bind_result (tensor_new (tn_shape u) (tn_dtype u) st) (\<lambda>(copy, st').
           bind_result
             (collect (map (\<lambda>i. load st u (strided_offset (tn_shape u) (tn_strides u) (int i) * int (dtype_size (tn_dtype u)))
                                  (int (dtype_size (tn_dtype u))))
                        [0..<nat (numel (tn_shape u))])) (\<lambda>bytes.
           bind_result (store st' copy 0 bytes) (\<lambda>st'.
             Inr (copy\<lparr>tn_requires_grad := tn_requires_grad t\<rparr>, st'))))))"

section \<open>Elements\<close>

fun flat_loop :: "shape \<Rightarrow> int list \<Rightarrow> int list \<Rightarrow> int \<Rightarrow> tensor_error + int" where
  "flat_loop (d # ds) (s # ss) (i # is) acc =
     (if \<not> (i \<ge> 0 \<and> i < d) then Inl (Check_Failed ''index out of bounds'')
      else if \<not> (int64_fits (i * s) \<and> int64_fits (acc + i * s)) then Inl Undefined
      else flat_loop ds ss is (acc + i * s))"
| "flat_loop _ _ _ acc = Inr acc"

definition offset_to_flat :: "tensor \<Rightarrow> int list \<Rightarrow> tensor_error + int" where
  "offset_to_flat t idx =
     (if length idx \<noteq> length (tn_shape t) then Inl (Check_Failed ''index arity mismatch'')
      else flat_loop (tn_shape t) (tn_strides t) idx 0)"

definition tensor_at :: "buffers \<Rightarrow> tensor \<Rightarrow> int list \<Rightarrow> tensor_error + u32" where
  "tensor_at st t idx =
     bind_result (offset_to_flat t idx) (\<lambda>i. bind_result (load st t (i * 4) 4) (\<lambda>bs. Inr (bytes_word bs)))"

definition tensor_set :: "tensor \<Rightarrow> int list \<Rightarrow> u32 \<Rightarrow> buffers \<Rightarrow> tensor_error + buffers" where
  "tensor_set t idx v st = bind_result (offset_to_flat t idx) (\<lambda>i. store st t (i * 4) (word_bytes 4 v))"

section \<open>Contents\<close>

text \<open>The conversions of a float to the other element types are a parameter.\<close>

record float_casts =
  to_half :: "u32 \<Rightarrow> u16"
  to_i64 :: "u32 \<Rightarrow> u64"
  to_i32 :: "u32 \<Rightarrow> u32"
  to_u8 :: "u32 \<Rightarrow> u8"

fun fill_bytes :: "float_casts \<Rightarrow> dtype \<Rightarrow> u32 \<Rightarrow> u8 list" where
  "fill_bytes fc F32 v = word_bytes 4 v"
| "fill_bytes fc F16 v = word_bytes 2 (to_half fc v)"
| "fill_bytes fc I64 v = word_bytes 8 (to_i64 fc v)"
| "fill_bytes fc I32 v = word_bytes 4 (to_i32 fc v)"
| "fill_bytes fc U8 v = [to_u8 fc v]"
| "fill_bytes fc U4 v = (let nib = to_u8 fc v AND 0xF in [nib OR push_bit 4 nib])"
| "fill_bytes fc _ v = []"

definition tensor_fill :: "float_casts \<Rightarrow> u32 \<Rightarrow> tensor \<Rightarrow> buffers \<Rightarrow> tensor_error + buffers" where
  "tensor_fill fc v t st =
     (if \<not> numel_fits (tn_shape t) then Inl Undefined
      else store st t 0 (concat (replicate (nat (numel (tn_shape t))) (fill_bytes fc (tn_dtype t) v))))"

definition tensor_zero :: "tensor \<Rightarrow> buffers \<Rightarrow> tensor_error + buffers" where
  "tensor_zero t st =
     (if tn_buffer t = None then Inr st
      else
        bind_result (bytes_of (tn_shape t) (tn_dtype t)) (\<lambda>n.
          if n < 0 then Inl Undefined else store st t 0 (replicate (nat n) 0)))"

definition tensor_copy_from :: "tensor \<Rightarrow> tensor \<Rightarrow> buffers \<Rightarrow> tensor_error + buffers" where
  "tensor_copy_from t src st =
     (if \<not> (numel_fits (tn_shape t) \<and> numel_fits (tn_shape src)) then Inl Undefined
      else if numel (tn_shape t) \<noteq> numel (tn_shape src) then Inl (Check_Failed ''copy_from: size mismatch'')
      else
        bind_result (bytes_of (tn_shape t) (tn_dtype t)) (\<lambda>n.
        bind_result (load st src 0 n) (\<lambda>bs. store st t 0 bs)))"

definition tensor_clone :: "tensor \<Rightarrow> buffers \<Rightarrow> tensor_error + tensor \<times> buffers" where
  "tensor_clone t st =
     bind_result (tensor_new (tn_shape t) (tn_dtype t) st) (\<lambda>(c, st').
       (let c = c\<lparr>tn_requires_grad := tn_requires_grad t\<rparr> in
        if tn_buffer t = None then Inr (c, st')
        else
          bind_result (load st t 0 (size_bytes t)) (\<lambda>bs.
          bind_result (store st' c 0 bs) (\<lambda>st'. Inr (c, st')))))"

definition tensor_is_contiguous :: "tensor \<Rightarrow> bool" where
  "tensor_is_contiguous t \<longleftrightarrow>
     \<not> tn_transposed t \<and> tn_offset t = 0 \<and> tn_strides t = compute_strides (tn_shape t)"

section \<open>Serialisation\<close>

definition serialized_size :: "tensor \<Rightarrow> int" where
  "serialized_size t = 4 + int (length (tn_shape t)) * 8 + 1 + size_bytes t"

text \<open>
  What is written to the destination. For a tensor without a buffer the code skips the bytes of the
  contents without writing them; then the result here ends with the header.
\<close>

definition tensor_serialize :: "buffers \<Rightarrow> tensor \<Rightarrow> tensor_error + u8 list" where
  "tensor_serialize st t =
     bind_result (bytes_of (tn_shape t) (tn_dtype t)) (\<lambda>n.
     bind_result (if tn_buffer t = None then Inr [] else load st t 0 n) (\<lambda>bytes.
       Inr (word_bytes 4 (word_of_nat (length (tn_shape t)) :: u32) @
            concat (map encode_int64 (tn_shape t)) @ [dtype_code (tn_dtype t)] @ bytes)))"

definition read_bytes :: "nat \<Rightarrow> u8 list \<Rightarrow> tensor_error + u8 list \<times> u8 list" where
  "read_bytes n src = (if n \<le> length src then Inr (take n src, drop n src) else Inl Undefined)"

fun read_dims :: "nat \<Rightarrow> u8 list \<Rightarrow> tensor_error + shape \<times> u8 list" where
  "read_dims 0 src = Inr ([], src)"
| "read_dims (Suc r) src =
     bind_result (read_bytes 8 src) (\<lambda>(bs, src).
     bind_result (read_dims r src) (\<lambda>(ds, src). Inr (decode_int64 bs # ds, src)))"

text \<open>Reading from the rest of the input; the rest after it stands for the new offset.\<close>

definition tensor_deserialize :: "u8 list \<Rightarrow> buffers \<Rightarrow> tensor_error + tensor \<times> buffers \<times> u8 list" where
  "tensor_deserialize src st =
     bind_result (read_bytes 4 src) (\<lambda>(bs, src).
       (let r = sint (bytes_word bs :: u32) in
        if \<not> (r \<ge> 0 \<and> r \<le> 8) then Inl (Check_Failed ''deserialize: invalid rank'')
        else
          bind_result (read_dims (nat r) src) (\<lambda>(dims, src).
          bind_result (read_bytes 1 src) (\<lambda>(dt, src).
          bind_result (tensor_new dims (dtype_of (hd dt)) st) (\<lambda>(t, st).
          bind_result (read_bytes (nat (size_bytes t)) src) (\<lambda>(bytes, src).
          bind_result (store st t 0 bytes) (\<lambda>st. Inr (t, st, src))))))))"

end
