(* ===== verification/Tensor_Index.thy ===== *)
theory Tensor_Index
  imports Tensor "HOL-Library.Multiset"
begin

text \<open>
  The index arithmetic of tensors: row-major strides, the place an index tuple addresses, the loop
  that visits a strided tensor in row-major order, and the bytes such a loop collects.
\<close>

section \<open>Addresses\<close>

text \<open>The element an index tuple addresses; every component has to be in range.\<close>

fun dot :: "int list \<Rightarrow> int list \<Rightarrow> int" where
  "dot (i # is) (s # ss) = i * s + dot is ss"
| "dot _ _ = 0"

definition in_shape :: "int list \<Rightarrow> shape \<Rightarrow> bool" where
  "in_shape is dims \<longleftrightarrow> list_all2 (\<lambda>i d. 0 \<le> i \<and> i < d) is dims"

text \<open>The largest address.\<close>

fun span :: "shape \<Rightarrow> int list \<Rightarrow> int" where
  "span (d # ds) (s # ss) = (d - 1) * s + span ds ss"
| "span _ _ = 0"

lemma numel_simps [simp]: "numel [] = 1" "numel (d # ds) = d * numel ds"
  by (simp_all add: numel_def)

lemma numel_nonneg: "\<forall>d \<in> set ds. 0 \<le> d \<Longrightarrow> 0 \<le> numel ds"
  by (induction ds) simp_all

lemma numel_pos: "\<forall>d \<in> set ds. 0 < d \<Longrightarrow> 0 < numel ds"
  by (induction ds) simp_all

lemma numel_pos_dims: "\<forall>d \<in> set ds. 0 \<le> d \<Longrightarrow> 0 < numel ds \<Longrightarrow> \<forall>d \<in> set ds. 0 < d"
proof (induction ds)
  case (Cons d ds)
  then have "0 \<le> d" "0 \<le> numel ds" by (simp_all add: numel_nonneg)
  with Cons.prems(2) have "0 < d" "0 < numel ds" by (simp_all add: zero_less_mult_iff)
  with Cons show ?case by simp
qed simp

lemma stride_loop_total: "snd (foldr (\<lambda>d (ss, s). (s # ss, s * d)) ds ([], 1)) = numel ds"
  by (induction ds) (simp_all add: case_prod_beta mult.commute)

lemma compute_strides_simps [simp]:
  "compute_strides [] = []" "compute_strides (d # ds) = numel ds # compute_strides ds"
  by (simp_all add: compute_strides_def stride_loop_total case_prod_beta)

lemma length_compute_strides [simp]: "length (compute_strides ds) = length ds"
  by (induction ds) simp_all

lemma in_shape_simps [simp]:
  "in_shape [] ds \<longleftrightarrow> ds = []" "in_shape is [] \<longleftrightarrow> is = []"
  "in_shape (i # is) (d # ds) \<longleftrightarrow> 0 \<le> i \<and> i < d \<and> in_shape is ds"
  by (auto simp: in_shape_def)

lemma in_shape_Cons: "in_shape is (d # ds) \<longleftrightarrow> (\<exists>i js. is = i # js \<and> 0 \<le> i \<and> i < d \<and> in_shape js ds)"
  by (cases "is") simp_all

lemma in_shape_length: "in_shape is ds \<Longrightarrow> length is = length ds"
  by (simp add: in_shape_def list_all2_lengthD)

lemma in_shape_pos: "in_shape is ds \<Longrightarrow> \<forall>d \<in> set ds. 0 < d"
  by (induction ds arbitrary: "is") (auto simp: in_shape_Cons)

lemma span_contiguous: "\<forall>d \<in> set ds. 0 < d \<Longrightarrow> span ds (compute_strides ds) = numel ds - 1"
  by (induction ds) (simp_all add: algebra_simps)

lemma dot_bounds:
  "in_shape is ds \<Longrightarrow> \<forall>s \<in> set ss. 0 \<le> s \<Longrightarrow> length ss = length ds \<Longrightarrow> 0 \<le> dot is ss \<and> dot is ss \<le> span ds ss"
proof (induction ds arbitrary: "is" ss)
  case (Cons d ds)
  from Cons.prems obtain i js s ts where e: "is = i # js" "ss = s # ts" "0 \<le> i" "i < d" "in_shape js ds"
    "0 \<le> s" "\<forall>s \<in> set ts. 0 \<le> s" "length ts = length ds"
    by (auto simp: in_shape_Cons length_Suc_conv)
  have "0 \<le> i * s" "i * s \<le> (d - 1) * s" using e by (simp_all add: mult_right_mono)
  moreover have "0 \<le> dot js ts \<and> dot js ts \<le> span ds ts" using Cons.IH e by blast
  ultimately show ?case by (simp add: e)
qed simp

lemma strides_nonneg: "\<forall>d \<in> set ds. 0 \<le> d \<Longrightarrow> \<forall>s \<in> set (compute_strides ds). 0 \<le> s"
  by (induction ds) (simp_all add: numel_nonneg)

lemma row_major_bounds:
  "in_shape is ds \<Longrightarrow> 0 \<le> dot is (compute_strides ds) \<and> dot is (compute_strides ds) < numel ds"
proof -
  assume i: "in_shape is ds"
  then have p: "\<forall>d \<in> set ds. 0 < d" by (rule in_shape_pos)
  then have "\<forall>d \<in> set ds. 0 \<le> d" by (simp add: order_less_imp_le)
  then show ?thesis
    using dot_bounds [OF i strides_nonneg] span_contiguous [OF p] by fastforce
qed

section \<open>Sizes that fit\<close>

text \<open>
  A shape with every empty axis counted as one element. When this has fewer than \<open>2 ^ 60\<close> elements,
  no product of axes, no address and no number of bytes overflows, in whatever order it is computed.
\<close>

abbreviation lift :: "shape \<Rightarrow> shape" where
  "lift ds \<equiv> map (max 1) ds"

definition sized :: "shape \<Rightarrow> bool" where
  "sized ds \<longleftrightarrow> numel (lift ds) < 2 ^ 60"

lemma lift_pos: "\<forall>d \<in> set (lift ds). 0 < d"
  by auto

lemma lift_ge_1: "1 \<le> numel (lift ds)"
  using numel_pos [OF lift_pos, of ds] by simp

lemma lift_same: "\<forall>d \<in> set ds. 0 < d \<Longrightarrow> lift ds = ds"
  by (rule map_idI) fastforce

lemma numel_le_lift: "\<forall>d \<in> set ds. 0 \<le> d \<Longrightarrow> numel ds \<le> numel (lift ds)"
proof (induction ds)
  case (Cons d ds)
  then have "d * numel ds \<le> max 1 d * numel (lift ds)"
    using lift_ge_1 [of ds] by (intro mult_mono) (simp_all add: numel_nonneg)
  then show ?case by simp
qed simp

lemma numel_append: "numel (xs @ ys) = numel xs * numel ys"
  by (simp add: numel_def)

lemma lift_part: "numel (lift (take k ds)) \<le> numel (lift ds)" "numel (lift (drop k ds)) \<le> numel (lift ds)"
proof -
  have e: "numel (lift ds) = numel (lift (take k ds)) * numel (lift (drop k ds))"
    by (simp only: numel_append [symmetric] map_append [symmetric] append_take_drop_id)
  show "numel (lift (take k ds)) \<le> numel (lift ds)" "numel (lift (drop k ds)) \<le> numel (lift ds)"
    unfolding e using lift_ge_1 [of "take k ds"] lift_ge_1 [of "drop k ds"] by simp_all
qed

lemma int64_fits_small: "0 \<le> x \<Longrightarrow> x < 2 ^ 60 \<Longrightarrow> int64_fits x"
  by (simp add: int64_fits_def)

lemma part_fits:
  assumes "\<forall>d \<in> set ds. 0 \<le> d" and "sized ds"
  shows "int64_fits (numel (take k ds))" "int64_fits (numel (drop k ds))"
proof -
  have "\<forall>d \<in> set (take k ds). 0 \<le> d" "\<forall>d \<in> set (drop k ds). 0 \<le> d"
    using assms(1) by (auto dest: in_set_takeD in_set_dropD)
  then show "int64_fits (numel (take k ds))" "int64_fits (numel (drop k ds))"
    using assms(2) lift_part [where k = k and ds = ds] numel_le_lift [of "take k ds"] numel_le_lift [of "drop k ds"]
    by (auto intro!: int64_fits_small numel_nonneg simp: sized_def)
qed

lemma sized_fits:
  assumes "\<forall>d \<in> set ds. 0 \<le> d" and "sized ds"
  shows "numel_fits ds" and "strides_fit ds"
  using part_fits [OF assms] by (simp_all add: numel_fits_def strides_fit_def numel_def list_all_iff)

lemma sized_numel: "\<forall>d \<in> set ds. 0 \<le> d \<Longrightarrow> sized ds \<Longrightarrow> numel ds < 2 ^ 60"
  using numel_le_lift [of ds] by (simp add: sized_def)

lemma dtype_size_le: "dtype_size dt \<le> 8"
  by (cases dt) simp_all

lemma sized_bytes:
  assumes "\<forall>d \<in> set ds. 0 \<le> d" and "sized ds"
  shows "bytes_of ds dt = Inr (numel ds * int (dtype_size dt))" and "numel ds * int (dtype_size dt) < 2 ^ 63"
    and "0 \<le> numel ds * int (dtype_size dt)"
proof -
  have n: "0 \<le> numel ds" "numel ds \<le> 2 ^ 60 - 1" using numel_nonneg [OF assms(1)] sized_numel [OF assms] by simp_all
  have "numel ds * int (dtype_size dt) \<le> (2 ^ 60 - 1) * 8"
    using n dtype_size_le [of dt] by (intro mult_mono) simp_all
  then show "numel ds * int (dtype_size dt) < 2 ^ 63" "0 \<le> numel ds * int (dtype_size dt)" using n by simp_all
  then show "bytes_of ds dt = Inr (numel ds * int (dtype_size dt))"
    using sized_fits [OF assms] by (simp add: bytes_of_def Let_def)
qed

lemma span_contiguous_lift:
  "\<forall>d \<in> set ds. 0 \<le> d \<Longrightarrow> span (lift ds) (compute_strides ds) < numel (lift ds)"
proof (induction ds)
  case (Cons d ds)
  have "(max 1 d - 1) * numel ds \<le> (max 1 d - 1) * numel (lift ds)"
    using numel_le_lift [of ds] Cons.prems by (intro mult_left_mono) simp_all
  then show ?case using Cons by (simp add: algebra_simps)
qed simp

lemma product_contiguous_lift:
  "\<forall>d \<in> set ds. 0 \<le> d \<Longrightarrow> k < length ds \<Longrightarrow> lift ds ! k * compute_strides ds ! k \<le> numel (lift ds)"
proof (induction ds arbitrary: k)
  case (Cons d ds)
  show ?case
  proof (cases k)
    case 0
    have "max 1 d * numel ds \<le> max 1 d * numel (lift ds)"
      using numel_le_lift [of ds] Cons.prems by (intro mult_left_mono) simp_all
    then show ?thesis using 0 by simp
  next
    case (Suc m)
    with Cons have "lift ds ! m * compute_strides ds ! m \<le> numel (lift ds)" by simp
    also have "\<dots> \<le> max 1 d * numel (lift ds)" using lift_ge_1 [of ds] by simp
    finally show ?thesis by (simp add: Suc)
  qed
qed simp

text \<open>An index sum that cannot overflow is the address.\<close>

lemma span_nonneg: "\<forall>s \<in> set ss. 0 \<le> s \<Longrightarrow> 0 \<le> span (lift ds) ss"
  by (induction "lift ds" ss arbitrary: ds rule: span.induct) auto

lemma flat_loop_dot:
  "length is = length ds \<Longrightarrow> length ss = length ds \<Longrightarrow> \<forall>s \<in> set ss. 0 \<le> s \<Longrightarrow> 0 \<le> acc \<Longrightarrow>
     acc + span (lift ds) ss < 2 ^ 60 \<Longrightarrow>
     flat_loop ds ss is acc = (if in_shape is ds then Inr (acc + dot is ss) else Inl (Check_Failed ''index out of bounds''))"
proof (induction ds arbitrary: "is" ss acc)
  case (Cons d ds)
  from Cons.prems obtain i js s ts where e: "is = i # js" "ss = s # ts" "length js = length ds" "length ts = length ds"
    by (auto simp: length_Suc_conv)
  show ?case
  proof (cases "0 \<le> i \<and> i < d")
    case True
    have s: "0 \<le> s" "\<forall>s \<in> set ts. 0 \<le> s" using Cons.prems(3) by (simp_all add: e)
    have "i * s \<le> (max 1 d - 1) * s" using True s by (intro mult_right_mono) simp_all
    then have acc: "acc + i * s + span (lift ds) ts < 2 ^ 60" using Cons.prems(5) by (simp add: e)
    moreover have pos: "0 \<le> i * s" using True s by simp
    ultimately have "int64_fits (i * s)" "int64_fits (acc + i * s)"
      using span_nonneg [OF s(2), of ds] Cons.prems(4) by (auto intro!: int64_fits_small)
    moreover have "0 \<le> acc + i * s" using pos Cons.prems(4) by simp
    ultimately show ?thesis using Cons.IH [OF e(3,4) s(2) _ acc] True by (simp add: e add.assoc)
  qed (auto simp add: e)
qed simp

section \<open>The row-major loop\<close>

lemma strided_step:
  assumes "0 \<le> i" and "i < d"
  shows "(i + q * d) div d = q" and "(i + q * d) mod (d :: int) = i"
  using assms by simp_all

text \<open>Unfolding the \<open>k\<close>-th place into an index tuple and addressing it.\<close>

lemma strided_offset_aux:
  "in_shape is ds \<Longrightarrow> length ss = length ds \<Longrightarrow>
     foldr (\<lambda>(d, s) (rem, off). (rem div d, off + rem mod d * s)) (zip ds ss)
       (dot is (compute_strides ds) + q * numel ds, 0) = (q, dot is ss)"
proof (induction ds arbitrary: "is" ss q)
  case (Cons d ds)
  from Cons.prems obtain i js s ts where e: "is = i # js" "ss = s # ts" "0 \<le> i" "i < d" "in_shape js ds"
    "length ts = length ds"
    by (auto simp: in_shape_Cons length_Suc_conv)
  have "dot is (compute_strides (d # ds)) + q * numel (d # ds) = dot js (compute_strides ds) + (i + q * d) * numel ds"
    by (simp add: e algebra_simps)
  then show ?case
    unfolding e(2) zip_Cons_Cons foldr_Cons o_apply \<open>dot is _ + _ = _\<close>
    by (simp add: Cons.IH [OF e(5,6)] e(1) strided_step [OF e(3,4)] mod_pos_pos_trivial [OF e(3,4)] add.commute)
qed simp

lemma strided_offset_dot:
  "in_shape is ds \<Longrightarrow> length ss = length ds \<Longrightarrow> strided_offset ds ss (dot is (compute_strides ds)) = dot is ss"
  using strided_offset_aux [of "is" ds ss 0] by (simp add: strided_offset_def)

lemma strided_offset_bounds:
  "\<forall>d \<in> set ds. 0 < d \<Longrightarrow> \<forall>s \<in> set ss. 0 \<le> s \<Longrightarrow> length ss = length ds \<Longrightarrow>
     0 \<le> strided_offset ds ss i \<and> strided_offset ds ss i \<le> span ds ss"
proof (induction ds arbitrary: ss)
  case (Cons d ds)
  from Cons.prems obtain s ts where e: "ss = s # ts" "0 \<le> s" "\<forall>s \<in> set ts. 0 \<le> s" "length ts = length ds"
    by (auto simp: length_Suc_conv)
  obtain r off where f: "foldr (\<lambda>(d, s) (rem, off). (rem div d, off + rem mod d * s)) (zip ds ts) (i, 0) = (r, off)"
    by (rule prod.exhaust)
  have "0 \<le> off \<and> off \<le> span ds ts" using Cons.IH [OF _ e(3,4)] Cons.prems(1) f by (simp add: strided_offset_def)
  moreover have "0 \<le> r mod d" "r mod d \<le> d - 1" using Cons.prems(1) pos_mod_bound [of d r] by simp_all
  then have "0 \<le> r mod d * s" "r mod d * s \<le> (d - 1) * s" using e(2) by (simp_all add: mult_right_mono)
  ultimately show ?case using f by (simp add: e(1) strided_offset_def)
qed (simp add: strided_offset_def)

section \<open>Collected chunks\<close>

lemma collect_map:
  "(\<And>x. x \<in> set xs \<Longrightarrow> f x = Inr (g x)) \<Longrightarrow> collect (map f xs) = Inr (concat (map g xs))"
  by (induction xs) simp_all

lemma length_chunks: "(\<And>x. x \<in> set xs \<Longrightarrow> length (g x) = n) \<Longrightarrow> length (concat (map g xs)) = length xs * n"
  by (induction xs) simp_all

lemma chunk_at:
  "(\<And>x. x \<in> set xs \<Longrightarrow> length (g x) = n) \<Longrightarrow> k < length xs \<Longrightarrow>
     take n (drop (k * n) (concat (map g xs))) = g (xs ! k)"
proof (induction xs arbitrary: k)
  case (Cons x xs)
  show ?case
  proof (cases k)
    case 0
    then show ?thesis using Cons.prems(1) by simp
  next
    case (Suc m)
    have "drop (k * n) (g x @ concat (map g xs)) = drop (m * n) (concat (map g xs))"
      using Cons.prems(1) [of x] Suc by (simp add: drop_append)
    then show ?thesis using Cons Suc by simp
  qed
qed simp

section \<open>Swapped axes\<close>

lemma length_swap_at [simp]: "length (swap_at i j xs) = length xs"
  by (simp add: swap_at_def)

lemma set_swap_at: "i < length xs \<Longrightarrow> j < length xs \<Longrightarrow> set (swap_at i j xs) = set xs"
  unfolding swap_at_def by (rule set_swap)

lemma swap_at_swap_at: "i < length xs \<Longrightarrow> j < length xs \<Longrightarrow> swap_at i j (swap_at i j xs) = xs"
  by (rule nth_equalityI) (auto simp: swap_at_def nth_list_update)

lemma in_shape_nth: "in_shape is ds \<longleftrightarrow> length is = length ds \<and> (\<forall>k < length ds. 0 \<le> is ! k \<and> is ! k < ds ! k)"
  unfolding in_shape_def list_all2_conv_all_nth by auto

lemma in_shape_swap:
  assumes "i < length ds" and "j < length ds" and "in_shape is (swap_at i j ds)"
  shows "in_shape (swap_at i j is) ds"
  using assms unfolding in_shape_nth by (auto simp: swap_at_def nth_list_update)

lemma dot_sum: "length is = length ss \<Longrightarrow> dot is ss = (\<Sum>k < length ss. is ! k * ss ! k)"
proof (induction ss arbitrary: "is")
  case (Cons s ss)
  then obtain i js where "is = i # js" "length js = length ss" by (auto simp: length_Suc_conv)
  with Cons.IH show ?case by (simp add: sum.lessThan_Suc_shift del: sum.lessThan_Suc)
qed simp

lemma swap_nth: "i < length xs \<Longrightarrow> j < length xs \<Longrightarrow> k < length xs \<Longrightarrow>
    swap_at i j xs ! k = xs ! (if k = i then j else if k = j then i else k)"
  by (auto simp: swap_at_def nth_list_update)

lemma dot_swap:
  assumes "length is = length ss" and "i < length ss" and "j < length ss"
  shows "dot (swap_at i j is) ss = dot is (swap_at i j ss)"
proof -
  let ?p = "\<lambda>k. if k = i then j else if k = j then i else k"
  have "dot is (swap_at i j ss) = (\<Sum>k < length ss. is ! k * ss ! ?p k)"
    using assms by (simp add: dot_sum swap_nth cong: sum.cong_simp)
  also have "\<dots> = (\<Sum>k < length ss. is ! ?p k * ss ! k)"
    by (rule sum.reindex_bij_witness [where i = ?p and j = ?p]) (use assms in \<open>auto split: if_splits\<close>)
  also have "\<dots> = dot (swap_at i j is) ss"
    using assms by (simp add: dot_sum swap_nth cong: sum.cong_simp)
  finally show ?thesis by simp
qed

lemma prod_list_swap: "i < length xs \<Longrightarrow> j < length xs \<Longrightarrow> numel (swap_at i j xs) = numel xs"
proof -
  assume "i < length xs" "j < length xs"
  then have "mset (swap_at i j xs) = mset xs" by (simp add: swap_at_def mset_swap)
  then show ?thesis unfolding numel_def by (metis prod_mset_prod_list)
qed

end
