(* ===== verification/Tensor_Correct.thy ===== *)
theory Tensor_Correct
  imports Tensor_Index
begin

text \<open>
  Tensors that share buffers: what keeps every access inside its buffer, the elements of transposed,
  sliced and reshaped tensors, and the serialised form.
\<close>

section \<open>Well-formed tensors\<close>

text \<open>A shape and strides that address no more than \<open>numel\<close> elements, empty axes counted as one.\<close>

definition fits :: "shape \<Rightarrow> int list \<Rightarrow> bool" where
  "fits ds ss \<longleftrightarrow>
     length ss = length ds \<and> (\<forall>d \<in> set ds. 0 \<le> d) \<and> (\<forall>s \<in> set ss. 0 \<le> s) \<and>
     span (lift ds) ss < numel (lift ds) \<and> (\<forall>k < length ds. lift ds ! k * ss ! k \<le> numel (lift ds))"

definition tensor_ok :: "buffers \<Rightarrow> tensor \<Rightarrow> bool" where
  "tensor_ok st t \<longleftrightarrow>
     fits (tn_shape t) (tn_strides t) \<and> sized (tn_shape t) \<and>
     (\<exists>b. tn_buffer t = Some b \<and> b < length st \<and>
       (0 < numel (tn_shape t) \<longrightarrow> int (tn_offset t) + size_bytes t \<le> int (length (st ! b))))"

lemma fitsD:
  assumes "fits ds ss"
  shows "length ss = length ds" "\<forall>d \<in> set ds. 0 \<le> d" "\<forall>s \<in> set ss. 0 \<le> s" "0 \<le> numel ds"
    "0 < numel ds \<Longrightarrow> span ds ss < numel ds" "0 < numel ds \<Longrightarrow> k < length ds \<Longrightarrow> ds ! k * ss ! k \<le> numel ds"
proof -
  show n: "length ss = length ds" "\<forall>d \<in> set ds. 0 \<le> d" "\<forall>s \<in> set ss. 0 \<le> s" "0 \<le> numel ds"
    using assms by (simp_all add: fits_def numel_nonneg)
  have same: "lift ds = ds" if "0 < numel ds" by (rule lift_same [OF numel_pos_dims [OF n(2) that]])
  show "0 < numel ds \<Longrightarrow> span ds ss < numel ds" "0 < numel ds \<Longrightarrow> k < length ds \<Longrightarrow> ds ! k * ss ! k \<le> numel ds"
    using assms same unfolding fits_def by metis+
qed

lemma fits_lift:
  assumes "fits ds ss"
  shows "span (lift ds) ss < numel (lift ds)" and "k < length ds \<Longrightarrow> lift ds ! k * ss ! k \<le> numel (lift ds)"
  using assms by (simp_all add: fits_def)

lemma tensor_ok_sized: "tensor_ok st t \<Longrightarrow> sized (tn_shape t)"
  by (simp add: tensor_ok_def)

lemma tensor_ok_fits: "tensor_ok st t \<Longrightarrow> fits (tn_shape t) (tn_strides t)"
  by (simp add: tensor_ok_def)

lemma load_cong: "tn_buffer t = tn_buffer u \<Longrightarrow> tn_offset t = tn_offset u \<Longrightarrow> load st t = load st u"
  by (intro ext) (simp only: load_def)

lemma load_shift:
  "tn_buffer t = tn_buffer u \<Longrightarrow> int (tn_offset t) + pos = int (tn_offset u) + pos' \<Longrightarrow> load st t pos n = load st u pos' n"
  by (simp only: load_def)

lemma fits_contiguous: "\<forall>d \<in> set ds. 0 \<le> d \<Longrightarrow> fits ds (compute_strides ds)"
  using span_contiguous_lift [of ds] product_contiguous_lift [of ds]
  by (simp add: fits_def strides_nonneg)

text \<open>What a well-formed tensor computes about its size is exact.\<close>

lemma tensor_ok_sizes:
  assumes "tensor_ok st t"
  shows "numel_fits (tn_shape t)" "strides_fit (tn_shape t)" "bytes_of (tn_shape t) (tn_dtype t) = Inr (size_bytes t)"
    "0 \<le> size_bytes t" "size_bytes t < 2 ^ 63"
proof -
  note s = fitsD(2) [OF tensor_ok_fits [OF assms]] tensor_ok_sized [OF assms]
  show "numel_fits (tn_shape t)" "strides_fit (tn_shape t)" by (rule sized_fits [OF s])+
  show "bytes_of (tn_shape t) (tn_dtype t) = Inr (size_bytes t)" "0 \<le> size_bytes t" "size_bytes t < 2 ^ 63"
    unfolding size_bytes_def by (rule sized_bytes [OF s])+
qed

lemma span_dot: "length ss = length ds \<Longrightarrow> span ds ss = dot (map (\<lambda>d. d - 1) ds) ss"
proof (induction ds arbitrary: ss)
  case (Cons d ds)
  then show ?case by (cases ss) simp_all
qed simp

lemma map_swap_at: "i < length xs \<Longrightarrow> j < length xs \<Longrightarrow> map f (swap_at i j xs) = swap_at i j (map f xs)"
  by (simp add: swap_at_def map_update)

lemma fits_swap:
  assumes "fits ds ss" and ij: "i < length ds" "j < length ds"
  shows "fits (swap_at i j ds) (swap_at i j ss)"
proof -
  have l: "length ss = length ds" using assms(1) by (rule fitsD)
  have lift: "lift (swap_at i j ds) = swap_at i j (lift ds)" using ij by (rule map_swap_at)
  have n: "numel (swap_at i j (lift ds)) = numel (lift ds)" using ij by (simp add: prod_list_swap)
  have "span (swap_at i j (lift ds)) (swap_at i j ss) = span (lift ds) ss"
    using ij l by (simp add: span_dot map_swap_at dot_swap [symmetric] swap_at_swap_at)
  moreover have "swap_at i j (lift ds) ! k * swap_at i j ss ! k \<le> numel (lift ds)" if "k < length ds" for k
    using that ij l fits_lift(2) [OF assms(1)] by (simp add: swap_nth del: nth_map) 
  ultimately show ?thesis
    using assms(1) l ij unfolding fits_def lift n by (simp add: set_swap_at del: nth_map)
qed

lemma sized_swap: "i < length ds \<Longrightarrow> j < length ds \<Longrightarrow> sized (swap_at i j ds) = sized ds"
  by (simp add: sized_def map_swap_at prod_list_swap)

section \<open>Reads and writes\<close>

text \<open>Buffers only ever come to be; their sizes stay.\<close>

definition extends :: "buffers \<Rightarrow> buffers \<Rightarrow> bool" where
  "extends st st' \<longleftrightarrow> length st \<le> length st' \<and> (\<forall>b < length st. length (st' ! b) = length (st ! b))"

lemma extends_refl [simp]: "extends st st"
  by (simp add: extends_def)

lemma extends_trans: "extends st st' \<Longrightarrow> extends st' st'' \<Longrightarrow> extends st st''"
  by (simp add: extends_def)

lemma extends_append [simp]: "extends st (st @ xs)"
  by (simp add: extends_def nth_append)

lemma tensor_ok_extends: "tensor_ok st t \<Longrightarrow> extends st st' \<Longrightarrow> tensor_ok st' t"
  by (auto simp: tensor_ok_def extends_def)

lemma splice_length:
  "0 \<le> p \<Longrightarrow> p + int (length bs) \<le> int (length xs) \<Longrightarrow>
     length (take (nat p) xs @ bs @ drop (nat p + length bs) xs) = length xs"
  by simp

lemma store_extends:
  assumes "store st t pos bs = Inr st'"
  shows "extends st st' \<and> length st' = length st"
proof (cases "bs = []")
  case False
  define p where "p = int (tn_offset t) + pos"
  from assms False obtain b where b: "0 \<le> p" "p + int (length bs) \<le> int (length (st ! b))"
      "st' = st[b := take (nat p) (st ! b) @ bs @ drop (nat p + length bs) (st ! b)]"
    by (auto simp: store_def Let_def p_def split: option.splits if_splits)
  have "length (st' ! k) = length (st ! k)" if "k < length st" for k
    using that splice_length [OF b(1,2)]
    by (cases "b = k") (simp_all only: b(3) nth_list_update_eq nth_list_update_neq not_False_eq_True)
  then show ?thesis by (simp add: extends_def b(3))
qed (use assms in \<open>simp add: store_def\<close>)

lemma tensor_okE:
  assumes "tensor_ok st t"
  obtains b where "tn_buffer t = Some b" "b < length st"
    "0 < numel (tn_shape t) \<Longrightarrow> int (tn_offset t) + size_bytes t \<le> int (length (st ! b))"
  using assms by (auto simp: tensor_ok_def)

text \<open>Any piece of the tensor's bytes can be read, and written.\<close>

lemma piece_bound:
  assumes "tensor_ok st t" and "0 \<le> pos" and "pos + n \<le> size_bytes t" and "0 < n"
  obtains b where "tn_buffer t = Some b" "b < length st" "int (tn_offset t) + pos + n \<le> int (length (st ! b))"
proof -
  have "0 < size_bytes t" using assms by simp
  moreover have "0 \<le> numel (tn_shape t)" using assms(1) fitsD(4) unfolding tensor_ok_def by blast
  ultimately have "0 < numel (tn_shape t)" by (simp add: size_bytes_def zero_less_mult_iff)
  then obtain b where b: "tn_buffer t = Some b" "b < length st" "int (tn_offset t) + size_bytes t \<le> int (length (st ! b))"
    using tensor_okE [OF assms(1)] by blast
  then have "int (tn_offset t) + pos + n \<le> int (length (st ! b))" using assms(3) by linarith
  then show thesis using that b by blast
qed

lemma load_piece:
  assumes "tensor_ok st t" and "0 \<le> pos" and "0 \<le> n" and "pos + n \<le> size_bytes t"
  shows "\<exists>bs. load st t pos n = Inr bs \<and> length bs = nat n"
proof (cases "n = 0")
  case False
  then have "0 < n" using assms(3) by simp
  from assms(1,2,4) this obtain b where "tn_buffer t = Some b" "int (tn_offset t) + pos + n \<le> int (length (st ! b))"
    by (rule piece_bound)
  then show ?thesis using assms False by (simp add: load_def Let_def)
qed (simp add: load_def)

lemma store_piece:
  assumes "tensor_ok st t" and "0 \<le> pos" and "pos + int (length bs) \<le> size_bytes t"
  shows "\<exists>st'. store st t pos bs = Inr st'"
proof (cases "bs = []")
  case False
  then have "0 < int (length bs)" by simp
  from assms this obtain b where "tn_buffer t = Some b" "int (tn_offset t) + pos + int (length bs) \<le> int (length (st ! b))"
    by (rule piece_bound)
  then show ?thesis using assms False by (simp add: store_def Let_def)
qed (simp add: store_def)

lemma element_in_tensor:
  assumes "fits (tn_shape t) (tn_strides t)" and "in_shape is (tn_shape t)"
  shows "0 \<le> dot is (tn_strides t)" and "dot is (tn_strides t) < numel (tn_shape t)"
proof -
  have "0 < numel (tn_shape t)" using assms(2) by (rule numel_pos [OF in_shape_pos])
  then show "0 \<le> dot is (tn_strides t)" "dot is (tn_strides t) < numel (tn_shape t)"
    using dot_bounds [OF assms(2) fitsD(3) [OF assms(1)] fitsD(1) [OF assms(1)]] fitsD(5) [OF assms(1)] by linarith+
qed

lemma piece_of_element:
  assumes "0 \<le> k" and "k < numel (tn_shape t)"
  shows "0 \<le> k * int (dtype_size (tn_dtype t))" and "k * int (dtype_size (tn_dtype t)) + int (dtype_size (tn_dtype t)) \<le> size_bytes t"
proof -
  have "(k + 1) * int (dtype_size (tn_dtype t)) \<le> numel (tn_shape t) * int (dtype_size (tn_dtype t))"
    using assms(2) by (intro mult_right_mono) simp_all
  then show "k * int (dtype_size (tn_dtype t)) + int (dtype_size (tn_dtype t)) \<le> size_bytes t"
    by (simp add: size_bytes_def algebra_simps)
qed (use assms in simp)

lemma tensor_new_ok:
  assumes "\<forall>d \<in> set ds. 0 \<le> d" and "sized ds"
  shows "\<exists>t. tensor_new ds dt st = Inr (t, st @ [replicate (nat (size_bytes t)) 0]) \<and> tn_shape t = ds \<and> tn_dtype t = dt \<and>
    tn_buffer t = Some (length st) \<and> tn_offset t = 0 \<and> tn_strides t = compute_strides ds \<and>
    tensor_ok (st @ [replicate (nat (size_bytes t)) 0]) t"
  using fits_contiguous [OF assms(1)] sized_fits [OF assms] sized_bytes [OF assms, of dt] assms(2)
  by (simp add: tensor_new_def tensor_default_def tensor_ok_def size_bytes_def nth_append not_less [symmetric])

section \<open>Views\<close>

lemma tensor_view_ok:
  assumes "tensor_ok st t" and "\<forall>d \<in> set ds. 0 \<le> d" and "sized ds" and "tensor_view t ds = Inr t'"
  shows "tensor_ok st t'"
  using assms fits_contiguous [OF assms(2)]
  by (auto simp: tensor_view_def tensor_ok_def size_bytes_def split: if_splits)

lemma tensor_reshape_view: "tensor_reshape t ds = Inr t' \<Longrightarrow> tensor_view t ds = Inr t'"
  by (simp add: tensor_reshape_def split: if_splits)

lemma numel_update: "k < length ds \<Longrightarrow> numel (ds[k := x]) = x * numel (ds[k := 1])"
proof (induction ds arbitrary: k)
  case (Cons d ds)
  then show ?case by (cases k) simp_all
qed simp

lemma lift_update: "lift (ds[k := x]) = (lift ds)[k := max 1 x]"
  by (rule map_update)

lemma sized_update:
  assumes "sized ds" and "k < length ds" and "x \<le> ds ! k"
  shows "sized (ds[k := x])"
proof -
  have l: "k < length (lift ds)" using assms(2) by simp
  have "1 \<le> numel (lift (ds[k := 1]))" by (rule lift_ge_1)
  then have p: "0 \<le> numel ((lift ds)[k := 1])" by (simp add: lift_update)
  have "numel (lift (ds[k := x])) = max 1 x * numel ((lift ds)[k := 1])"
    unfolding lift_update by (rule numel_update [OF l])
  also have "\<dots> \<le> max 1 (ds ! k) * numel ((lift ds)[k := 1])" using assms(3) p by (intro mult_right_mono) simp_all
  also have "\<dots> = numel ((lift ds)[k := max 1 (ds ! k)])" by (rule numel_update [OF l, symmetric])
  also have "(lift ds)[k := max 1 (ds ! k)] = lift ds" using assms(2) by (metis list_update_id nth_map)
  finally show ?thesis using assms(1) by (simp add: sized_def)
qed

lemma slice_bound:
  fixes a b d s p :: int
  assumes "0 \<le> a" and "a \<le> b" and "b \<le> d" and "0 < d" and "d * s \<le> d * p" and "0 \<le> p"
  shows "a * s + (b - a) * p \<le> d * p"
proof -
  have "s \<le> p" using assms(4,5) by simp
  then have "a * s \<le> a * p" using assms(1) by (rule mult_left_mono)
  moreover have "b * p \<le> d * p" using assms(3,6) by (rule mult_right_mono)
  ultimately show ?thesis by (simp add: algebra_simps)
qed

lemma tensor_slice_ok:
  assumes ok: "tensor_ok st t" and "0 \<le> start" and "start \<le> stop" and sl: "tensor_slice t dim start stop = Inr t'"
  shows "tensor_ok st t'"
proof -
  define k where "k = nat dim"
  define ds where "ds = tn_shape t"
  define z where "z = int (dtype_size (tn_dtype t))"
  from sl have k: "k < length ds" "stop \<le> ds ! k" and t': "t' = t\<lparr>tn_shape := ds[k := stop - start],
      tn_offset := tn_offset t + nat (start * tn_strides t ! k) * dtype_size (tn_dtype t),
      tn_strides := compute_strides (ds[k := stop - start]), tn_transposed := False\<rparr>"
    by (auto simp: tensor_slice_def k_def ds_def Let_def split: if_splits)
  have f: "fits ds (tn_strides t)" using ok by (simp add: tensor_ok_def ds_def)
  have nn: "\<forall>d \<in> set (ds[k := stop - start]). 0 \<le> d"
    using fitsD(2) [OF f] assms(3) set_update_subset_insert [of ds k "stop - start"] by fastforce
  have "stop - start \<le> ds ! k" using k(2) assms(2) by simp
  then have sized: "sized (ds[k := stop - start])"
    using sized_update k(1) tensor_ok_sized [OF ok] by (simp add: ds_def)
  have s0: "0 \<le> tn_strides t ! k" using fitsD(1,3) [OF f] k(1) by simp
  obtain b where b: "tn_buffer t = Some b" "b < length st"
      "0 < numel ds \<Longrightarrow> int (tn_offset t) + size_bytes t \<le> int (length (st ! b))"
    using tensor_okE [OF ok] unfolding ds_def by blast
  define p where "p = numel (ds[k := 1])"
  have n: "numel ds = ds ! k * p" "numel (ds[k := stop - start]) = (stop - start) * p"
    unfolding p_def using numel_update [OF k(1)] by (metis list_update_id)+
  have "int (tn_offset t') + size_bytes t' \<le> int (length (st ! b))" if pos: "0 < numel (tn_shape t')"
  proof -
    have "0 < (stop - start) * p" using pos by (simp add: t' n)
    then have "0 < p" "start < stop" using assms(3) by (simp_all add: zero_less_mult_iff)
    then have d: "0 < ds ! k" "0 < numel ds" using k(2) assms(2) by (simp_all add: n)
    have "start * tn_strides t ! k + (stop - start) * p \<le> ds ! k * p"
      using slice_bound [OF assms(2,3) k(2) d(1)] fitsD(6) [OF f d(2) k(1)] \<open>0 < p\<close> by (simp add: n)
    then have "(start * tn_strides t ! k + (stop - start) * p) * z \<le> ds ! k * p * z"
      by (rule mult_right_mono) (simp add: z_def)
    then show ?thesis
      using b(3) [OF d(2)] assms(2) s0 by (simp add: t' size_bytes_def n z_def ds_def [symmetric] algebra_simps)
  qed
  then show ?thesis
    unfolding tensor_ok_def using b(1,2) fits_contiguous [OF nn] sized
    by (auto simp: t')
qed

section \<open>Transposition\<close>

text \<open>The bytes of an element.\<close>

definition element :: "buffers \<Rightarrow> tensor \<Rightarrow> int list \<Rightarrow> tensor_error + u8 list" where
  "element st t is = load st t (dot is (tn_strides t) * int (dtype_size (tn_dtype t))) (int (dtype_size (tn_dtype t)))"

definition swapped :: "nat \<Rightarrow> nat \<Rightarrow> tensor \<Rightarrow> tensor" where
  "swapped i j t = t\<lparr>tn_shape := swap_at i j (tn_shape t), tn_strides := swap_at i j (tn_strides t), tn_transposed := False\<rparr>"

lemma swapped_ok:
  assumes "tensor_ok st t" and "i < length (tn_shape t)" and "j < length (tn_shape t)"
  shows "tensor_ok st (swapped i j t)"
  using assms fits_swap [of "tn_shape t" "tn_strides t" i j]
  by (simp add: tensor_ok_def swapped_def size_bytes_def prod_list_swap sized_swap)

lemma element_swapped:
  assumes "tensor_ok st t" and "i < length (tn_shape t)" and "j < length (tn_shape t)"
    and "length is = length (tn_shape t)"
  shows "element st (swapped i j t) is = element st t (swap_at i j is)"
proof -
  have "length (tn_strides t) = length (tn_shape t)" using assms(1) by (simp add: tensor_ok_def fitsD(1))
  then show ?thesis using assms by (simp add: element_def swapped_def dot_swap load_cong [of "swapped i j t" t, unfolded swapped_def])
qed

lemma store_fresh:
  assumes "tn_buffer c = Some (length st)" and "tn_offset c = 0" and "length bs = n"
  shows "store (st @ [replicate n 0]) c 0 bs = Inr (st @ [bs])"
  using assms by (cases bs) (simp_all add: store_def Let_def)

lemma load_chunk:
  assumes "tn_buffer c = Some (length st)" and "tn_offset c = 0"
    and "\<And>x. x \<in> set xs \<Longrightarrow> length (g x) = n" and "k < length xs"
  shows "load (st @ [concat (map g xs)]) c (int k * int n) (int n) = Inr (g (xs ! k))"
proof (cases "n = 0")
  case True
  then show ?thesis using assms(3) [of "xs ! k"] assms(4) by (simp add: load_def)
next
  case False
  have "k * n + n \<le> length xs * n" using assms(4) by (metis Suc_leI add.commute mult_Suc mult_le_mono1)
  then have "int k * int n + int n \<le> int (length (concat (map g xs)))"
    using length_chunks [of xs g n] assms(3) by (metis of_nat_add of_nat_le_iff of_nat_mult)
  moreover have "nat (int k * int n) = k * n" by (simp add: nat_mult_distrib)
  ultimately show ?thesis
    using assms(1,2) False chunk_at [of xs g n k] assms(3,4) by (simp add: load_def Let_def)
qed

text \<open>The copy made of a strided tensor: its bytes, and its elements.\<close>

definition gathered :: "buffers \<Rightarrow> tensor \<Rightarrow> u8 list list" where
  "gathered st u =
     map (\<lambda>i. projr (load st u (strided_offset (tn_shape u) (tn_strides u) (int i) * int (dtype_size (tn_dtype u)))
                       (int (dtype_size (tn_dtype u)))))
       [0..<nat (numel (tn_shape u))]"

text \<open>All that reading a strided tensor needs: its largest address is inside the buffer.\<close>

definition addressable :: "buffers \<Rightarrow> tensor \<Rightarrow> bool" where
  "addressable st u \<longleftrightarrow>
     length (tn_strides u) = length (tn_shape u) \<and> (\<forall>d \<in> set (tn_shape u). 0 \<le> d) \<and> (\<forall>s \<in> set (tn_strides u). 0 \<le> s) \<and>
     (\<exists>b. tn_buffer u = Some b \<and> b < length st \<and>
       (0 < numel (tn_shape u) \<longrightarrow>
         int (tn_offset u) + (span (tn_shape u) (tn_strides u) + 1) * int (dtype_size (tn_dtype u)) \<le> int (length (st ! b))))"

lemma tensor_ok_addressable:
  assumes "tensor_ok st u"
  shows "addressable st u"
proof -
  note f = fitsD [OF tensor_ok_fits [OF assms]]
  have "(span (tn_shape u) (tn_strides u) + 1) * int (dtype_size (tn_dtype u)) \<le> size_bytes u" if "0 < numel (tn_shape u)"
    unfolding size_bytes_def using f(5) [OF that] by (intro mult_right_mono) simp_all
  then show ?thesis using assms f(1-3) unfolding addressable_def tensor_ok_def by (meson add_left_mono order_trans)
qed

lemma address_load:
  assumes "addressable st u" and "0 \<le> k" and "k \<le> span (tn_shape u) (tn_strides u)" and "0 < numel (tn_shape u)"
  shows "\<exists>bs. load st u (k * int (dtype_size (tn_dtype u))) (int (dtype_size (tn_dtype u))) = Inr bs \<and>
    length bs = dtype_size (tn_dtype u)"
proof -
  define z where "z = int (dtype_size (tn_dtype u))"
  obtain b where b: "tn_buffer u = Some b"
      "int (tn_offset u) + (span (tn_shape u) (tn_strides u) + 1) * z \<le> int (length (st ! b))"
    using assms(1,4) unfolding addressable_def z_def by blast
  have "(k + 1) * z \<le> (span (tn_shape u) (tn_strides u) + 1) * z"
    using assms(3) by (intro mult_right_mono) (simp_all add: z_def)
  then have "int (tn_offset u) + k * z + z \<le> int (length (st ! b))" using b(2) by (simp add: algebra_simps)
  moreover have "0 \<le> k * z" using assms(2) by (simp add: z_def)
  ultimately show ?thesis using b(1) by (simp add: load_def Let_def z_def nat_add_distrib)
qed

lemma strided_load:
  assumes "addressable st u" and "i < nat (numel (tn_shape u))"
  shows "\<exists>bs. load st u (strided_offset (tn_shape u) (tn_strides u) (int i) * int (dtype_size (tn_dtype u)))
            (int (dtype_size (tn_dtype u))) = Inr bs \<and> length bs = dtype_size (tn_dtype u)"
proof -
  have p: "0 < numel (tn_shape u)" using assms(2) by simp
  with assms(1) show ?thesis
    using strided_offset_bounds [OF numel_pos_dims] address_load [OF assms(1) _ _ p] unfolding addressable_def by blast
qed

lemma strided_piece:
  assumes "addressable st u" and "i < nat (numel (tn_shape u))"
  shows "length (projr (load st u (strided_offset (tn_shape u) (tn_strides u) (int i) * int (dtype_size (tn_dtype u)))
            (int (dtype_size (tn_dtype u))))) = dtype_size (tn_dtype u)"
  using strided_load [OF assms] by force

lemma gathered_length:
  assumes "addressable st u"
  shows "length (concat (gathered st u)) = nat (size_bytes u)"
proof -
  have "length (concat (gathered st u)) = length [0..<nat (numel (tn_shape u))] * dtype_size (tn_dtype u)"
    unfolding gathered_def by (rule length_chunks) (use strided_piece [OF assms] in simp)
  then show ?thesis by (simp add: size_bytes_def mult.commute [of "numel _"] nat_mult_distrib)
qed

lemma transpose_copies:
  assumes ok: "tensor_ok st t" and i: "i < length (tn_shape t)" and j: "j < length (tn_shape t)" and "i \<noteq> j"
    and not_last: "\<not> (Suc i = length (tn_shape t) \<and> Suc (Suc j) = length (tn_shape t) \<and> tn_shape t ! i = tn_shape t ! j)"
  shows "\<exists>c. tensor_transpose t (int i) (int j) st = Inr (c, st @ [concat (gathered st (swapped i j t))]) \<and>
    tn_shape c = swap_at i j (tn_shape t) \<and> tn_dtype c = tn_dtype t \<and> tn_buffer c = Some (length st) \<and> tn_offset c = 0 \<and>
    tn_strides c = compute_strides (tn_shape c) \<and> tensor_ok (st @ [concat (gathered st (swapped i j t))]) c"
proof -
  define u where "u = swapped i j t"
  have u: "tensor_ok st u" unfolding u_def using ok i j by (rule swapped_ok)
  then have nn: "\<forall>d \<in> set (tn_shape u). 0 \<le> d" by (rule fitsD(2) [OF tensor_ok_fits])
  obtain c where c: "tensor_new (tn_shape u) (tn_dtype u) st = Inr (c, st @ [replicate (nat (size_bytes c)) 0])"
      "tn_shape c = tn_shape u" "tn_dtype c = tn_dtype u" "tn_buffer c = Some (length st)" "tn_offset c = 0"
      "tn_strides c = compute_strides (tn_shape u)" "tensor_ok (st @ [replicate (nat (size_bytes c)) 0]) c"
    using tensor_new_ok [OF nn tensor_ok_sized [OF u]] by blast
  note ad = tensor_ok_addressable [OF u]
  have g: "collect (map (\<lambda>i. load st u (strided_offset (tn_shape u) (tn_strides u) (int i) * int (dtype_size (tn_dtype u)))
      (int (dtype_size (tn_dtype u)))) [0..<nat (numel (tn_shape u))]) = Inr (concat (gathered st u))"
    unfolding gathered_def by (rule collect_map) (use strided_load [OF ad] in fastforce)
  have n: "length (concat (gathered st u)) = nat (size_bytes c)"
    using gathered_length [OF ad] by (simp add: size_bytes_def c)
  have "tensor_transpose t (int i) (int j) st =
      Inr (c\<lparr>tn_requires_grad := tn_requires_grad t\<rparr>, st @ [concat (gathered st u)])"
    using g c(1) store_fresh [OF c(4,5) n] i j \<open>i \<noteq> j\<close> not_last
    unfolding tensor_transpose_def Let_def u_def swapped_def by (auto simp: of_nat_eq_iff)
  moreover have "extends (st @ [replicate (nat (size_bytes c)) 0]) (st @ [concat (gathered st u)])"
    by (simp add: extends_def nth_append n)
  with c(7) have "tensor_ok (st @ [concat (gathered st u)]) c" by (rule tensor_ok_extends)
  then have "tensor_ok (st @ [concat (gathered st u)]) (c\<lparr>tn_requires_grad := tn_requires_grad t\<rparr>)"
    by (simp add: tensor_ok_def size_bytes_def)
  ultimately show ?thesis using c by (auto simp: u_def swapped_def)
qed

end
