(* ===== verification/Tensor_Views.thy ===== *)
theory Tensor_Views
  imports Tensor_Correct
begin

text \<open>
  What the views of \<open>src/core/tensor.cpp\<close> show: a transposed tensor is the tensor read with two indices
  swapped, whether it shares the buffer or is a copy; rows are shared by a slice of the first axis;
  where a slice of another axis and a reader of flat data go wrong.
\<close>

section \<open>Reading by index\<close>

lemma in_shape_swap_iff:
  assumes "i < length ds" and "j < length ds" and "length is = length ds"
  shows "in_shape is (swap_at i j ds) \<longleftrightarrow> in_shape (swap_at i j is) ds"
proof
  show "in_shape is (swap_at i j ds) \<Longrightarrow> in_shape (swap_at i j is) ds"
    using assms(1,2) by (rule in_shape_swap)
  assume "in_shape (swap_at i j is) ds"
  then show "in_shape is (swap_at i j ds)"
    using in_shape_swap [of i "swap_at i j ds" j "swap_at i j is"] assms by (simp add: swap_at_swap_at)
qed

lemma flat_loop_ok:
  assumes "tensor_ok st t" and "length is = length (tn_shape t)"
  shows "flat_loop (tn_shape t) (tn_strides t) is 0 =
    (if in_shape is (tn_shape t) then Inr (dot is (tn_strides t)) else Inl (Check_Failed ''index out of bounds''))"
proof -
  note f = tensor_ok_fits [OF assms(1)]
  have "0 + span (lift (tn_shape t)) (tn_strides t) < 2 ^ 60"
    using fits_lift(1) [OF f] tensor_ok_sized [OF assms(1)] by (simp add: sized_def)
  from flat_loop_dot [OF assms(2) fitsD(1) [OF f] fitsD(3) [OF f] _ this] show ?thesis by simp
qed

lemma tensor_at_element:
  assumes "tensor_ok st' t" and "dtype_size (tn_dtype t) = 4"
  shows "tensor_at st t is =
    (if length is \<noteq> length (tn_shape t) then Inl (Check_Failed ''index arity mismatch'')
     else if \<not> in_shape is (tn_shape t) then Inl (Check_Failed ''index out of bounds'')
     else bind_result (element st t is) (\<lambda>bs. Inr (bytes_word bs)))"
  using assms(2) flat_loop_ok [OF assms(1)]
  by (simp add: tensor_at_def offset_to_flat_def element_def)

lemma element_copied:
  assumes ok: "addressable st u" and "in_shape is (tn_shape u)"
    and c: "tn_buffer c = Some (length st)" "tn_offset c = 0" "tn_shape c = tn_shape u" "tn_dtype c = tn_dtype u"
      "tn_strides c = compute_strides (tn_shape u)"
  shows "element (st @ [concat (gathered st u)]) c is = element st u is"
proof -
  define z where "z = dtype_size (tn_dtype u)"
  define k where "k = nat (dot is (compute_strides (tn_shape u)))"
  have k: "int k = dot is (compute_strides (tn_shape u))" "k < nat (numel (tn_shape u))"
    using row_major_bounds [OF assms(2)] by (simp_all add: k_def)
  have "element (st @ [concat (gathered st u)]) c is =
      Inr (projr (load st u (strided_offset (tn_shape u) (tn_strides u) (int ([0..<nat (numel (tn_shape u))] ! k)) * int z) (int z)))"
    unfolding element_def c(4,5) gathered_def z_def [symmetric] k(1) [symmetric]
    by (rule load_chunk [OF c(1,2)]) (use strided_piece [OF ok] k(2) in \<open>simp_all add: z_def\<close>)
  also have "\<dots> = load st u (strided_offset (tn_shape u) (tn_strides u) (int k) * int z) (int z)"
    using strided_load [OF ok k(2)] k(2) by (auto simp: z_def)
  also have "\<dots> = element st u is"
    using strided_offset_dot [OF assms(2)] ok
    by (simp only: k(1) element_def z_def addressable_def)
  finally show ?thesis .
qed

text \<open>Both branches of \<open>transpose\<close> at once.\<close>

lemma transpose_elements:
  assumes ok: "tensor_ok st t" and i: "i < length (tn_shape t)" and j: "j < length (tn_shape t)"
  shows "\<exists>t' new. tensor_transpose t (int i) (int j) st = Inr (t', st @ new) \<and> tensor_ok (st @ new) t' \<and>
    tn_shape t' = swap_at i j (tn_shape t) \<and> tn_dtype t' = tn_dtype t \<and>
    (\<forall>is. in_shape is (tn_shape t') \<longrightarrow> element (st @ new) t' is = element st t (swap_at i j is))"
proof (cases "i = j")
  case True
  then have "tensor_transpose t (int i) (int j) st = Inr (t, st @ [])"
    using i by (simp add: tensor_transpose_def)
  moreover have "swap_at i j xs = xs" for xs :: "int list" using True by (simp add: swap_at_def)
  ultimately show ?thesis using ok by (intro exI [of _ t] exI [of _ "[]"]) simp
next
  case False
  let ?u = "swapped i j t"
  have u: "tensor_ok st ?u" using ok i j by (rule swapped_ok)
  have el: "element st ?u is = element st t (swap_at i j is)" if "in_shape is (tn_shape ?u)" for "is"
    using element_swapped [OF ok i j] in_shape_length [OF that] by (simp add: swapped_def)
  show ?thesis
  proof (cases "Suc i = length (tn_shape t) \<and> Suc (Suc j) = length (tn_shape t) \<and> tn_shape t ! i = tn_shape t ! j")
    case True
    then have "int i = int (length (tn_shape t)) - 1" "int j = int (length (tn_shape t)) - 2" by linarith+
    then have "tensor_transpose t (int i) (int j) st = Inr (?u, st @ [])"
      using True i j False unfolding tensor_transpose_def Let_def swapped_def by simp
    then show ?thesis using u el by (intro exI [of _ ?u] exI [of _ "[]"]) (simp add: swapped_def)
  next
    case n: False
    obtain c where c: "tensor_transpose t (int i) (int j) st = Inr (c, st @ [concat (gathered st ?u)])"
        "tn_shape c = swap_at i j (tn_shape t)" "tn_dtype c = tn_dtype t" "tn_buffer c = Some (length st)" "tn_offset c = 0"
        "tn_strides c = compute_strides (tn_shape c)" "tensor_ok (st @ [concat (gathered st ?u)]) c"
      using transpose_copies [OF ok i j False n] by blast
    have "tn_shape c = tn_shape ?u" "tn_dtype c = tn_dtype ?u" using c(2,3) by (simp_all add: swapped_def)
    then have "\<forall>is. in_shape is (tn_shape c) \<longrightarrow> element (st @ [concat (gathered st ?u)]) c is = element st t (swap_at i j is)"
      using element_copied [OF tensor_ok_addressable [OF u] _ c(4,5)] c(6) el by simp
    with c show ?thesis by blast
  qed
qed

text \<open>
  C22: Transposing a well-formed float tensor succeeds, leaves every existing buffer alone, and reading the
  result at any index (in range, out of range or of the wrong arity) is reading the original with the two
  components swapped. This holds for the branch that shares the buffer and for the one that copies.
\<close>

theorem transpose_swaps_indices:
  assumes "tensor_ok st t" and "tn_dtype t = F32" and "i < length (tn_shape t)" and "j < length (tn_shape t)"
  shows "\<exists>t' new. tensor_transpose t (int i) (int j) st = Inr (t', st @ new) \<and> tensor_ok (st @ new) t' \<and>
    tn_shape t' = swap_at i j (tn_shape t) \<and>
    (\<forall>is. tensor_at (st @ new) t' is =
       (if length is = length (tn_shape t) then tensor_at st t (swap_at i j is)
        else Inl (Check_Failed ''index arity mismatch'')))"
proof -
  obtain t' new where t': "tensor_transpose t (int i) (int j) st = Inr (t', st @ new)" "tensor_ok (st @ new) t'"
      "tn_shape t' = swap_at i j (tn_shape t)" "tn_dtype t' = F32"
      "\<And>is. in_shape is (tn_shape t') \<Longrightarrow> element (st @ new) t' is = element st t (swap_at i j is)"
    using transpose_elements [OF assms(1,3,4)] assms(2) by metis
  have "tensor_at (st @ new) t' is =
       (if length is = length (tn_shape t) then tensor_at st t (swap_at i j is)
        else Inl (Check_Failed ''index arity mismatch''))" for "is"
    using t'(3,5) assms(2) tensor_at_element [OF t'(2)]
      tensor_at_element [OF assms(1)] in_shape_swap_iff [OF assms(3,4)] t'(4)
    by simp
  with t'(1-3) show ?thesis by blast
qed

definition sample_store :: buffers where
  "sample_store = [concat (map (word_bytes 4) [10, 11, 12, 13, 14, 15 :: u32])]"

definition sample_tensor :: tensor where
  "sample_tensor = tensor_of_buffer [2, 3] 0 F32"

lemma sample_ok: "tensor_ok sample_store sample_tensor"
proof -
  have "fits [2, 3] (compute_strides [2, 3])" by (rule fits_contiguous) simp
  moreover have "length sample_store = 1" "length (sample_store ! 0) = 24" by code_simp+
  moreover have "sized [2, 3]" by (simp add: sized_def)
  ultimately show ?thesis by (simp add: tensor_ok_def sample_tensor_def tensor_of_buffer_def tensor_default_def size_bytes_def)
qed

theorem transpose_swaps_indices_witness:
  "\<exists>t' new. tensor_transpose sample_tensor 0 1 sample_store = Inr (t', sample_store @ new) \<and> tn_shape t' = [3, 2] \<and>
    tensor_at (sample_store @ new) t' [2, 1] = Inr 15 \<and> tensor_at (sample_store @ new) t' [1, 2] = Inl (Check_Failed ''index out of bounds'')"
proof -
  have s: "tn_shape sample_tensor = [2, 3]" "tn_dtype sample_tensor = F32" by code_simp+
  have r: "tensor_at sample_store sample_tensor [1, 2] = Inr 15"
    "tensor_at sample_store sample_tensor [2, 1] = Inl (Check_Failed ''index out of bounds'')" by code_simp+
  obtain t' new where t': "tensor_transpose sample_tensor (int 0) (int 1) sample_store = Inr (t', sample_store @ new)"
      "tn_shape t' = swap_at 0 1 [2, 3]"
      "\<forall>is. tensor_at (sample_store @ new) t' is =
         (if length is = length (tn_shape sample_tensor) then tensor_at sample_store sample_tensor (swap_at 0 1 is)
          else Inl (Check_Failed ''index arity mismatch''))"
    using transpose_swaps_indices [OF sample_ok s(2), of 0 1] by (auto simp: s(1))
  have "swap_at 0 1 [2, 1 :: int] = [1, 2]" "swap_at 0 1 [1, 2 :: int] = [2, 1]" "swap_at 0 1 [2, 3 :: int] = [3, 2]"
    by (simp_all add: swap_at_def)
  with t' r show ?thesis by (intro exI [of _ t'] exI [of _ new]) (simp add: s(1))
qed

section \<open>Slices\<close>

text \<open>The numbers a slice inside the bounds computes are exact.\<close>

lemma axis_small:
  assumes "tensor_ok st t" and "k < length (tn_shape t)"
  shows "max 1 (tn_shape t ! k) \<le> numel (lift (tn_shape t))" and "tn_shape t ! k < 2 ^ 60"
proof -
  let ?ds = "tn_shape t"
  have p: "1 \<le> numel (lift (take k ?ds))" and d: "1 \<le> numel (lift (drop (Suc k) ?ds))" by (rule lift_ge_1)+
  have "1 * max 1 (?ds ! k) \<le> numel (lift (take k ?ds)) * max 1 (?ds ! k)"
    using p by (rule mult_right_mono) simp
  then have "max 1 (?ds ! k) * 1 \<le> (numel (lift (take k ?ds)) * max 1 (?ds ! k)) * numel (lift (drop (Suc k) ?ds))"
    using d by (intro mult_mono) simp_all
  also have "\<dots> = numel (lift (take k ?ds @ ?ds ! k # drop (Suc k) ?ds))"
    by (simp only: map_append list.map numel_append numel_simps mult.assoc)
  also have "take k ?ds @ ?ds ! k # drop (Suc k) ?ds = ?ds" using assms(2) by (rule id_take_nth_drop [symmetric])
  finally show "max 1 (?ds ! k) \<le> numel (lift ?ds)" by simp
  then show "?ds ! k < 2 ^ 60" using tensor_ok_sized [OF assms(1)] by (simp add: sized_def)
qed

lemma slice_fits:
  assumes ok: "tensor_ok st t" and k: "k < length (tn_shape t)" and ab: "0 \<le> a" "a \<le> b" "b \<le> tn_shape t ! k"
  shows "int64_fits (b - a)" "int64_fits (a * tn_strides t ! k)" "strides_fit ((tn_shape t)[k := b - a])"
proof -
  let ?ds = "tn_shape t"
  note f = tensor_ok_fits [OF ok]
  have s: "0 \<le> tn_strides t ! k" using fitsD(1,3) [OF f] k by simp
  show "int64_fits (b - a)" using axis_small(2) [OF ok k] ab by (intro int64_fits_small) simp_all
  have "a * tn_strides t ! k \<le> lift ?ds ! k * tn_strides t ! k" using ab s k by (intro mult_right_mono) simp_all
  also have "\<dots> \<le> numel (lift ?ds)" using fits_lift(2) [OF f k] .
  also have "\<dots> < 2 ^ 60" using tensor_ok_sized [OF ok] by (simp add: sized_def)
  finally show "int64_fits (a * tn_strides t ! k)" using ab s by (intro int64_fits_small) simp_all
  have "\<forall>d \<in> set (?ds[k := b - a]). 0 \<le> d"
    using fitsD(2) [OF f] ab set_update_subset_insert [of ?ds k "b - a"] by fastforce
  moreover have "sized (?ds[k := b - a])" using sized_update [OF tensor_ok_sized [OF ok] k] ab by simp
  ultimately show "strides_fit (?ds[k := b - a])" by (rule sized_fits)
qed

text \<open>
  A slice of the first axis of a contiguous float tensor shares its rows: it succeeds, keeps the
  buffer, and its element at an index is the original's element with the first component shifted by
  the start of the slice.
\<close>

theorem slice_shares_rows:
  assumes ok: "tensor_ok st t" and dt: "tn_dtype t = F32" and shape: "tn_shape t = d # ds"
    and strides: "tn_strides t = compute_strides (d # ds)" and ab: "0 \<le> a" "a \<le> b" "b \<le> d"
  shows "\<exists>s. tensor_slice t 0 a b = Inr s \<and> tensor_ok st s \<and> tn_buffer s = tn_buffer t \<and> tn_shape s = (b - a) # ds \<and>
    (\<forall>i is. 0 \<le> i \<and> i < b - a \<longrightarrow> tensor_at st s (i # is) = tensor_at st t ((a + i) # is))"
proof -
  let ?s = "t\<lparr>tn_shape := (b - a) # ds, tn_offset := tn_offset t + nat (a * numel ds) * 4,
    tn_strides := compute_strides ((b - a) # ds), tn_transposed := False\<rparr>"
  have fits: "int64_fits (b - a)" "int64_fits (a * numel ds)" "strides_fit ((b - a) # ds)"
    using slice_fits [OF ok, of 0 a b] ab by (simp_all add: shape strides)
  have s: "tensor_slice t 0 a b = Inr ?s"
    using ab fits by (simp add: tensor_slice_def shape strides dt Let_def)
  then have sok: "tensor_ok st ?s" by (rule tensor_slice_ok [OF ok ab(1,2)])
  have n: "0 \<le> a * numel ds"
    using fitsD(2) [OF tensor_ok_fits [OF ok]] ab(1) by (simp add: shape numel_nonneg)
  have "element st ?s (i # is) = element st t ((a + i) # is)" for i "is"
  proof -
    have "int (tn_offset ?s) + dot (i # is) (tn_strides ?s) * 4 = int (tn_offset t) + dot ((a + i) # is) (tn_strides t) * 4"
      using n by (simp add: strides algebra_simps)
    then have "load st ?s (dot (i # is) (tn_strides ?s) * 4) 4 = load st t (dot ((a + i) # is) (tn_strides t) * 4) 4"
      by (intro load_shift) simp_all
    then show ?thesis by (simp add: element_def dt)
  qed
  then have "tensor_at st ?s (i # is) = tensor_at st t ((a + i) # is)" if "0 \<le> i \<and> i < b - a" for i "is"
    using that ab dt shape tensor_at_element [OF sok] tensor_at_element [OF ok]
    by simp
  with s sok show ?thesis by (intro exI [of _ ?s]) simp
qed

theorem slice_shares_rows_witness:
  "\<exists>s. tensor_slice sample_tensor 0 1 2 = Inr s \<and> tn_shape s = [1, 3] \<and>
    tensor_at sample_store s [0, 2] = Inr 15"
proof -
  have s: "tn_shape sample_tensor = [2, 3]" "tn_dtype sample_tensor = F32" "tn_strides sample_tensor = compute_strides [2, 3]"
    "tensor_at sample_store sample_tensor [1, 2] = Inr 15" by code_simp+
  show ?thesis using slice_shares_rows [OF sample_ok s(2,1,3), of 1 2] s(4) by fastforce
qed

text \<open>
  Where views show the wrong elements. A slice of an inner axis recomputes contiguous strides, so
  the second row of the first two columns starts at the third column of the first row. Swapping the
  last two axes of a square with the last one named first only swaps the strides, and \<open>clone\<close>, like every
  reader of flat data, then sees the tensor untransposed; naming them in the other order copies it.
  A slice whose end is before its start passes the checks, and clearing it writes outside the buffer.
\<close>

theorem views_misread:
  "tensor_at sample_store sample_tensor [1, 0] = Inr 13 \<and>
   bind_result (tensor_slice sample_tensor 1 0 2) (\<lambda>s. tensor_at sample_store s [1, 0]) = Inr 12 \<and>
   (let t = tensor_of_buffer [2, 2] 0 F32 in
    bind_result (tensor_transpose t 1 0 sample_store) (\<lambda>(u, st). tensor_at st u [0, 1]) = Inr 12 \<and>
    bind_result (tensor_transpose t 1 0 sample_store) (\<lambda>(u, st).
      bind_result (tensor_clone u st) (\<lambda>(c, st). tensor_at st c [0, 1])) = Inr 11 \<and>
    bind_result (tensor_transpose t 0 1 sample_store) (\<lambda>(u, st).
      bind_result (tensor_clone u st) (\<lambda>(c, st). tensor_at st c [0, 1])) = Inr 12) \<and>
   bind_result (tensor_slice sample_tensor 0 2 1) (\<lambda>s. tensor_zero s sample_store) = Inl Undefined"
  by code_simp

end
