(* ===== verification/Tensor_Programs.thy ===== *)
theory Tensor_Programs
  imports Tensor_Views
begin

text \<open>
  Programs over tensors: any sequence of the operations of \<open>src/core/tensor.cpp\<close> on tensors that share
  buffers. Programs that respect the operations' stated preconditions never reach undefined
  behaviour. The second part is the serialised form.
\<close>

section \<open>Programs\<close>

datatype tensor_op =
  New shape dtype | View nat shape | Reshape nat shape | Slice nat int int int | Transpose nat int int |
  Clone nat | Fill nat u32 | Zero nat | Copy_From nat nat | Set_At nat "int list" u32

type_synonym world = "tensor list \<times> buffers"

definition with_tensor :: "tensor list \<Rightarrow> buffers \<Rightarrow> tensor_error + tensor \<Rightarrow> tensor_error + world" where
  "with_tensor ts st r = bind_result r (\<lambda>t. Inr (ts @ [t], st))"

definition with_result :: "tensor list \<Rightarrow> tensor_error + tensor \<times> buffers \<Rightarrow> tensor_error + world" where
  "with_result ts r = bind_result r (\<lambda>(t, st). Inr (ts @ [t], st))"

definition with_store :: "tensor list \<Rightarrow> tensor_error + buffers \<Rightarrow> tensor_error + world" where
  "with_store ts r = bind_result r (\<lambda>st. Inr (ts, st))"

fun run_op :: "float_casts \<Rightarrow> tensor_op \<Rightarrow> world \<Rightarrow> tensor_error + world" where
  "run_op fc (New dims dt) (ts, st) = with_result ts (tensor_new dims dt st)"
| "run_op fc (View k dims) (ts, st) = with_tensor ts st (tensor_view (ts ! k) dims)"
| "run_op fc (Reshape k dims) (ts, st) = with_tensor ts st (tensor_reshape (ts ! k) dims)"
| "run_op fc (Slice k dim start stop) (ts, st) = with_tensor ts st (tensor_slice (ts ! k) dim start stop)"
| "run_op fc (Transpose k dim1 dim2) (ts, st) = with_result ts (tensor_transpose (ts ! k) dim1 dim2 st)"
| "run_op fc (Clone k) (ts, st) = with_result ts (tensor_clone (ts ! k) st)"
| "run_op fc (Fill k v) (ts, st) = with_store ts (tensor_fill fc v (ts ! k) st)"
| "run_op fc (Zero k) (ts, st) = with_store ts (tensor_zero (ts ! k) st)"
| "run_op fc (Copy_From k l) (ts, st) = with_store ts (tensor_copy_from (ts ! k) (ts ! l) st)"
| "run_op fc (Set_At k idx v) (ts, st) = with_store ts (tensor_set (ts ! k) idx v st)"

text \<open>What the operations leave to their callers; everything else they check.\<close>

fun proper :: "tensor_op \<Rightarrow> tensor list \<Rightarrow> bool" where
  "proper (New dims dt) ts \<longleftrightarrow> (\<forall>d \<in> set dims. 0 \<le> d) \<and> sized dims"
| "proper (View k dims) ts \<longleftrightarrow> k < length ts \<and> (\<forall>d \<in> set dims. 0 \<le> d) \<and> sized dims"
| "proper (Reshape k dims) ts \<longleftrightarrow> k < length ts \<and> (\<forall>d \<in> set dims. 0 \<le> d) \<and> sized dims"
| "proper (Slice k dim start stop) ts \<longleftrightarrow> k < length ts \<and> 0 \<le> dim \<and> start \<le> stop"
| "proper (Transpose k dim1 dim2) ts \<longleftrightarrow> k < length ts \<and> 0 \<le> dim1 \<and> 0 \<le> dim2"
| "proper (Clone k) ts \<longleftrightarrow> k < length ts"
| "proper (Fill k v) ts \<longleftrightarrow> k < length ts"
| "proper (Zero k) ts \<longleftrightarrow> k < length ts"
| "proper (Copy_From k l) ts \<longleftrightarrow> k < length ts \<and> l < length ts \<and>
     dtype_size (tn_dtype (ts ! k)) \<le> dtype_size (tn_dtype (ts ! l))"
| "proper (Set_At k idx v) ts \<longleftrightarrow> k < length ts \<and> tn_dtype (ts ! k) = F32"

fun run_ops :: "float_casts \<Rightarrow> tensor_op list \<Rightarrow> world \<Rightarrow> tensor_error + world" where
  "run_ops fc [] w = Inr w"
| "run_ops fc (op # ops) w = bind_result (run_op fc op w) (run_ops fc ops)"

text \<open>A program is proper when each operation is in the world it runs in; a failed check ends it.\<close>

fun proper_run :: "float_casts \<Rightarrow> tensor_op list \<Rightarrow> world \<Rightarrow> bool" where
  "proper_run fc [] w \<longleftrightarrow> True"
| "proper_run fc (op # ops) w \<longleftrightarrow>
     proper op (fst w) \<and> (case run_op fc op w of Inl _ \<Rightarrow> True | Inr w' \<Rightarrow> proper_run fc ops w')"

section \<open>Proper programs stay defined\<close>

definition world_ok :: "world \<Rightarrow> bool" where
  "world_ok w \<longleftrightarrow> (\<forall>t \<in> set (fst w). tensor_ok (snd w) t)"

text \<open>An outcome without undefined behaviour: a failed check or a well-formed result.\<close>

definition defined_as :: "('a \<Rightarrow> bool) \<Rightarrow> tensor_error + 'a \<Rightarrow> bool" where
  "defined_as ok r \<longleftrightarrow> (case r of Inl e \<Rightarrow> \<exists>msg. e = Check_Failed msg | Inr x \<Rightarrow> ok x)"

lemma defined_as_simps [simp]:
  "defined_as ok (Inl (Check_Failed msg))" "defined_as ok (Inr x) \<longleftrightarrow> ok x"
  "\<not> defined_as ok (Inl Undefined)" "\<not> defined_as ok (Inl Bad_Alloc)" "\<not> defined_as ok (Inl Wrapped_Size)"
  by (simp_all add: defined_as_def)

lemma defined_asI: "r = Inr x \<Longrightarrow> ok x \<Longrightarrow> defined_as ok r"
  by simp

lemma defined_bind: "defined_as ok r \<Longrightarrow> (\<And>x. r = Inr x \<Longrightarrow> ok x \<Longrightarrow> defined_as ok' (f x)) \<Longrightarrow> defined_as ok' (bind_result r f)"
  by (cases r) (auto simp: defined_as_def)

lemma with_tensor_ok:
  assumes "world_ok (ts, st)" and "defined_as (tensor_ok st) r"
  shows "defined_as world_ok (with_tensor ts st r)"
  unfolding with_tensor_def using assms(2) by (rule defined_bind) (use assms(1) in \<open>simp add: world_ok_def\<close>)

lemma world_ok_extends: "world_ok (ts, st) \<Longrightarrow> extends st st' \<Longrightarrow> t \<in> set ts \<Longrightarrow> tensor_ok st' t"
  using tensor_ok_extends [of st t st'] by (simp add: world_ok_def)

lemma with_result_ok:
  assumes "world_ok (ts, st)" and "defined_as (\<lambda>(t, st'). tensor_ok st' t \<and> extends st st') r"
  shows "defined_as world_ok (with_result ts r)"
  unfolding with_result_def using assms(2)
  by (rule defined_bind) (use world_ok_extends [OF assms(1)] in \<open>auto simp: world_ok_def\<close>)

lemma with_store_ok:
  assumes "world_ok (ts, st)" and "defined_as (extends st) r"
  shows "defined_as world_ok (with_store ts r)"
  unfolding with_store_def using assms(2)
  by (rule defined_bind) (use world_ok_extends [OF assms(1)] in \<open>auto simp: world_ok_def\<close>)

lemma view_defined:
  assumes "tensor_ok st t" and "\<forall>d \<in> set ds. 0 \<le> d" and "sized ds"
  shows "defined_as (tensor_ok st) (tensor_view t ds)"
  using tensor_view_ok [OF assms] sized_fits [OF assms(2,3)] tensor_ok_sizes(1) [OF assms(1)]
  by (auto simp: tensor_view_def split: if_splits)

lemma reshape_defined:
  "tensor_ok st t \<Longrightarrow> \<forall>d \<in> set ds. 0 \<le> d \<Longrightarrow> sized ds \<Longrightarrow> defined_as (tensor_ok st) (tensor_reshape t ds)"
  using view_defined [of st t ds] sized_fits(1) [of ds] tensor_ok_sizes(1) [of st t] by (simp add: tensor_reshape_def)

lemma slice_defined:
  assumes "tensor_ok st t" and "0 \<le> dim" and "start \<le> stop"
  shows "defined_as (tensor_ok st) (tensor_slice t dim start stop)"
proof (cases "dim < int (length (tn_shape t)) \<and> 0 \<le> start \<and> stop \<le> tn_shape t ! nat dim")
  case True
  then have k: "nat dim < length (tn_shape t)" using assms(2) by (simp add: nat_less_iff)
  obtain t' where t': "tensor_slice t dim start stop = Inr t'"
    using True assms(2) slice_fits [OF assms(1) k _ assms(3)] by (simp add: tensor_slice_def Let_def)
  then show ?thesis using tensor_slice_ok [OF assms(1) _ assms(3)] True by (intro defined_asI) auto
next
  case False
  then show ?thesis using assms(2) by (auto simp: tensor_slice_def)
qed

lemma transpose_defined:
  assumes "tensor_ok st t" and "0 \<le> dim1" and "0 \<le> dim2"
  shows "defined_as (\<lambda>(t', st'). tensor_ok st' t' \<and> extends st st') (tensor_transpose t dim1 dim2 st)"
proof (cases "nat dim1 < length (tn_shape t) \<and> nat dim2 < length (tn_shape t)")
  case True
  then obtain t' new where "tensor_transpose t (int (nat dim1)) (int (nat dim2)) st = Inr (t', st @ new)" "tensor_ok (st @ new) t'"
    using transpose_elements [OF assms(1)] by blast
  then show ?thesis using assms(2,3) by (intro defined_asI [of _ "(t', st @ new)"]) simp_all
next
  case False
  then have "\<not> (dim1 < int (length (tn_shape t)) \<and> dim2 < int (length (tn_shape t)))"
    using assms(2,3) by (simp add: nat_less_iff)
  then have "tensor_transpose t dim1 dim2 st = Inl (Check_Failed ''transpose: dim out of range'')"
    unfolding tensor_transpose_def Let_def by (rule if_P)
  then show ?thesis by simp
qed

lemma store_defined:
  assumes "tensor_ok st t" and "0 \<le> pos" and "pos + int (length bs) \<le> size_bytes t"
  shows "defined_as (extends st) (store st t pos bs)"
  using store_piece [OF assms] store_extends by fastforce

lemma size_bytes_nonneg: "tensor_ok st t \<Longrightarrow> 0 \<le> size_bytes t"
  using fitsD(4) [OF tensor_ok_fits] by (simp add: size_bytes_def)

lemma clone_defined:
  assumes "tensor_ok st t"
  shows "\<exists>c bs. tensor_clone t st = Inr (c, st @ [bs]) \<and> tensor_ok (st @ [bs]) c \<and> load st t 0 (size_bytes t) = Inr bs \<and>
    tn_shape c = tn_shape t \<and> tn_dtype c = tn_dtype t \<and> tn_strides c = compute_strides (tn_shape t) \<and>
    tn_buffer c = Some (length st) \<and> tn_offset c = 0"
proof -
  obtain c where c: "tensor_new (tn_shape t) (tn_dtype t) st = Inr (c, st @ [replicate (nat (size_bytes c)) 0])"
      "tn_shape c = tn_shape t" "tn_dtype c = tn_dtype t" "tn_buffer c = Some (length st)" "tn_offset c = 0"
      "tn_strides c = compute_strides (tn_shape t)" "tensor_ok (st @ [replicate (nat (size_bytes c)) 0]) c"
    using tensor_new_ok [OF fitsD(2) [OF tensor_ok_fits [OF assms]] tensor_ok_sized [OF assms]] by blast
  have z: "size_bytes c = size_bytes t" by (simp add: size_bytes_def c)
  obtain bs where bs: "load st t 0 (size_bytes t) = Inr bs" "length bs = nat (size_bytes t)"
    using load_piece [OF assms, of 0 "size_bytes t"] size_bytes_nonneg [OF assms] by auto
  let ?c = "c\<lparr>tn_requires_grad := tn_requires_grad t\<rparr>"
  obtain b where "tn_buffer t = Some b" using assms by (auto simp: tensor_ok_def)
  moreover have "store (st @ [replicate (nat (size_bytes c)) 0]) ?c 0 bs = Inr (st @ [bs])"
    by (rule store_fresh) (simp_all add: c bs z)
  moreover have "tensor_ok (st @ [bs]) ?c"
    using tensor_ok_fits [OF c(7)] tensor_ok_sized [OF c(7)] by (simp add: tensor_ok_def c size_bytes_def nth_append bs(2))
  ultimately show ?thesis
    using c bs by (intro exI [of _ ?c] exI [of _ bs]) (simp add: tensor_clone_def Let_def)
qed

lemma fill_bytes_length: "length (fill_bytes fc dt v) \<le> dtype_size dt"
  by (cases dt) (simp_all add: Let_def)

lemma fill_defined:
  assumes "tensor_ok st t"
  shows "defined_as (extends st) (tensor_fill fc v t st)"
proof -
  let ?bs = "concat (replicate (nat (numel (tn_shape t))) (fill_bytes fc (tn_dtype t) v))"
  have "length ?bs = nat (numel (tn_shape t)) * length (fill_bytes fc (tn_dtype t) v)"
    by (simp add: length_concat sum_list_replicate)
  also have "\<dots> \<le> nat (numel (tn_shape t)) * dtype_size (tn_dtype t)" by (simp add: fill_bytes_length)
  finally have "int (length ?bs) \<le> int (nat (numel (tn_shape t)) * dtype_size (tn_dtype t))" by (simp only: of_nat_le_iff)
  also have "\<dots> = size_bytes t" using fitsD(4) [OF tensor_ok_fits [OF assms]] by (simp add: size_bytes_def)
  finally have "int (length ?bs) \<le> size_bytes t" .
  then show ?thesis using tensor_ok_sizes(1) [OF assms] unfolding tensor_fill_def
    by (simp only: simp_thms if_False) (intro store_defined [OF assms], simp_all)
qed

lemma zero_defined: "tensor_ok st t \<Longrightarrow> defined_as (extends st) (tensor_zero t st)"
  using store_defined [of st t 0 "replicate (nat (size_bytes t)) 0"] tensor_ok_sizes(3,4) [of st t]
  by (simp add: tensor_zero_def)

lemma copy_from_defined:
  assumes "tensor_ok st t" and "tensor_ok st src" and "dtype_size (tn_dtype t) \<le> dtype_size (tn_dtype src)"
  shows "defined_as (extends st) (tensor_copy_from t src st)"
proof (cases "numel (tn_shape t) = numel (tn_shape src)")
  case True
  have "numel (tn_shape src) * int (dtype_size (tn_dtype t)) \<le> numel (tn_shape src) * int (dtype_size (tn_dtype src))"
    using assms(3) fitsD(4) [OF tensor_ok_fits [OF assms(2)]] by (intro mult_left_mono) simp_all
  then have "size_bytes t \<le> size_bytes src" by (simp add: size_bytes_def True)
  then obtain bs where "load st src 0 (size_bytes t) = Inr bs" "length bs = nat (size_bytes t)"
    using load_piece [OF assms(2), of 0 "size_bytes t"] size_bytes_nonneg [OF assms(1)] by auto
  then show ?thesis
    using store_defined [OF assms(1), of 0 bs] tensor_ok_sizes [OF assms(1)] tensor_ok_sizes(1) [OF assms(2)] True
    by (simp add: tensor_copy_from_def)
qed (use tensor_ok_sizes(1) [OF assms(1)] tensor_ok_sizes(1) [OF assms(2)] in \<open>simp add: tensor_copy_from_def\<close>)

lemma element_address:
  assumes "tensor_ok st t" and "dtype_size (tn_dtype t) = 4"
  shows "defined_as (\<lambda>i. 0 \<le> i * 4 \<and> i * 4 + 4 \<le> size_bytes t) (offset_to_flat t idx)"
proof (cases "length idx = length (tn_shape t) \<and> in_shape idx (tn_shape t)")
  case True
  note f = tensor_ok_fits [OF assms(1)]
  have "offset_to_flat t idx = Inr (dot idx (tn_strides t))"
    using True flat_loop_ok [OF assms(1)] by (simp add: offset_to_flat_def)
  then show ?thesis
    using piece_of_element [OF element_in_tensor [OF f]] True assms(2) by (intro defined_asI) auto
next
  case False
  then show ?thesis
    using flat_loop_ok [OF assms(1), of idx] by (auto simp: offset_to_flat_def)
qed

lemma set_defined:
  assumes "tensor_ok st t" and "tn_dtype t = F32"
  shows "defined_as (extends st) (tensor_set t idx v st)"
  unfolding tensor_set_def
  by (rule defined_bind [OF element_address [OF assms(1)]]) (use assms store_defined [OF assms(1)] in simp_all)

lemma at_defined:
  assumes "tensor_ok st t" and "tn_dtype t = F32"
  shows "defined_as (\<lambda>_. True) (tensor_at st t idx)"
  unfolding tensor_at_def
proof (rule defined_bind [OF element_address [OF assms(1)]])
  fix i assume "0 \<le> i * 4 \<and> i * 4 + 4 \<le> size_bytes t"
  then show "defined_as (\<lambda>_. True) (bind_result (load st t (i * 4) 4) (\<lambda>bs. Inr (bytes_word bs :: u32)))"
    using load_piece [OF assms(1), of "i * 4" 4] by auto
qed (simp add: assms)

lemma op_defined:
  assumes "world_ok (ts, st)" and "proper op ts"
  shows "defined_as world_ok (run_op fc op (ts, st))"
proof -
  have ok: "tensor_ok st (ts ! k)" if "k < length ts" for k
    using assms(1) that by (simp add: world_ok_def)
  show ?thesis
  proof (cases op)
    case (New dims dt)
    obtain t where t: "tensor_new dims dt st = Inr (t, st @ [replicate (nat (size_bytes t)) 0])"
        "tensor_ok (st @ [replicate (nat (size_bytes t)) 0]) t"
      using tensor_new_ok [of dims dt st] assms(2) New by auto
    then show ?thesis unfolding New run_op.simps
      by (intro with_result_ok [OF assms(1)] defined_asI [OF t(1)]) simp
  next
    case (Clone k)
    obtain c bs where c: "tensor_clone (ts ! k) st = Inr (c, st @ [bs])" "tensor_ok (st @ [bs]) c"
      using clone_defined [OF ok, of k] assms(2) unfolding Clone proper.simps by blast
    then show ?thesis unfolding Clone run_op.simps
      by (intro with_result_ok [OF assms(1)] defined_asI [OF c(1)]) simp
  qed (use assms ok in \<open>auto intro!: with_tensor_ok with_result_ok with_store_ok view_defined reshape_defined slice_defined
    transpose_defined fill_defined zero_defined copy_from_defined set_defined\<close>)
qed

lemma run_defined: "world_ok w \<Longrightarrow> proper_run fc ops w \<Longrightarrow> defined_as world_ok (run_ops fc ops w)"
proof (induction ops arbitrary: w)
  case (Cons op ops)
  obtain ts st where w: "w = (ts, st)" by (rule prod.exhaust)
  have "defined_as world_ok (run_op fc op w)" using Cons.prems op_defined by (simp add: w)
  then show ?case using Cons by (cases "run_op fc op w") (simp_all add: defined_as_def)
qed simp


definition sample_program :: "tensor_op list" where
  "sample_program = [New [2, 3] F32, Set_At 0 [1, 2] 7, Transpose 0 0 1, Slice 1 0 1 3, Reshape 2 [4], Zero 2, Clone 0]"

definition sample_casts :: float_casts where
  "sample_casts = \<lparr>to_half = ucast, to_i64 = ucast, to_i32 = (\<lambda>v. v), to_u8 = ucast\<rparr>"


end
