(* ===== verification/Tensor_Serial.thy ===== *)
theory Tensor_Serial
  imports Tensor_Programs
begin

text \<open>
  The serialised form of a tensor: \<open>deserialize\<close> undoes \<open>serialize\<close>, and what is read back is a
  contiguous copy.
\<close>

lemma read_bytes_append: "length bs = n \<Longrightarrow> read_bytes n (bs @ rest) = Inr (bs, rest)"
  by (auto simp: read_bytes_def)

lemma read_byte_Cons: "read_bytes (Suc 0) (b # rest) = Inr ([b], rest)"
  by (simp add: read_bytes_def)

lemma read_dims_append:
  "\<forall>d \<in> set ds. 0 \<le> d \<and> d < 2 ^ 63 \<Longrightarrow>
     read_dims (length ds) (concat (map encode_int64 ds) @ rest) = Inr (ds, rest)"
proof (induction ds)
  case (Cons d ds)
  have "decode_int64 (encode_int64 d) = d" using Cons.prems by (intro decode_encode_int64) simp_all
  with Cons show ?case by (simp add: read_bytes_append [OF length_encode_int64])
qed simp

lemma rank_round_trip: "r \<le> 8 \<Longrightarrow> sint (bytes_word (word_bytes 4 (word_of_nat r :: u32)) :: u32) = int r"
proof -
  have "list_all (\<lambda>r. sint (bytes_word (word_bytes 4 (word_of_nat r :: u32)) :: u32) = int r) [0..<9]" by code_simp
  then show "r \<le> 8 \<Longrightarrow> ?thesis" by (simp add: list_all_iff)
qed

text \<open>
  C23: Serialising a well-formed tensor and deserialising the bytes, with anything after them, yields a
  fresh contiguous tensor of the same shape and element type that holds the same bytes, leaves what
  follows unread, and touches no other buffer. The number of bytes is the one \<open>serialized_size\<close> states.
\<close>

theorem tensor_serialize_round_trip:
  assumes ok: "tensor_ok st t" and "\<forall>d \<in> set (tn_shape t). d < 2 ^ 63" and "length (tn_shape t) \<le> 8"
    and "\<And>c. tn_dtype t \<noteq> Other c"
  shows "\<exists>bs content t'. tensor_serialize st t = Inr bs \<and> int (length bs) = serialized_size t \<and>
    load st t 0 (size_bytes t) = Inr content \<and>
    tensor_deserialize (bs @ rest) st' = Inr (t', st' @ [content], rest) \<and>
    tn_shape t' = tn_shape t \<and> tn_dtype t' = tn_dtype t \<and> tensor_is_contiguous t' \<and>
    tensor_ok (st' @ [content]) t' \<and> load (st' @ [content]) t' 0 (size_bytes t) = Inr content"
proof -
  obtain content where content: "load st t 0 (size_bytes t) = Inr content" "int (length content) = size_bytes t"
    using load_piece [OF ok, of 0 "size_bytes t"] size_bytes_nonneg [OF ok] by auto
  obtain b where buf: "tn_buffer t = Some b" using ok by (auto simp: tensor_ok_def)
  define dims where "dims = concat (map encode_int64 (tn_shape t))"
  define rank where "rank = word_bytes 4 (word_of_nat (length (tn_shape t)) :: u32)"
  define bs where "bs = rank @ dims @ [dtype_code (tn_dtype t)] @ content"
  have bs: "tensor_serialize st t = Inr bs"
    using buf content tensor_ok_sizes(3) [OF ok] by (simp add: tensor_serialize_def bs_def rank_def dims_def)
  have "length dims = length (tn_shape t) * 8"
    unfolding dims_def by (rule length_chunks) simp
  then have size: "int (length bs) = serialized_size t"
    by (simp add: bs_def serialized_size_def rank_def content)
  have dt: "dtype_of (dtype_code (tn_dtype t)) = tn_dtype t"
    using assms(4) by (cases "tn_dtype t") (simp_all add: dtype_of_def)
  obtain t' where t': "tensor_new (tn_shape t) (tn_dtype t) st' = Inr (t', st' @ [replicate (nat (size_bytes t')) 0])"
      "tn_shape t' = tn_shape t" "tn_dtype t' = tn_dtype t" "tn_buffer t' = Some (length st')" "tn_offset t' = 0"
      "tn_strides t' = compute_strides (tn_shape t)" "tensor_ok (st' @ [replicate (nat (size_bytes t')) 0]) t'"
    using tensor_new_ok [OF fitsD(2) [OF tensor_ok_fits [OF ok]] tensor_ok_sized [OF ok]] by blast
  have z: "size_bytes t' = size_bytes t" "nat (size_bytes t) = length content"
    using content(2) by (simp_all add: size_bytes_def t')
  have rank: "read_bytes 4 (bs @ rest) = Inr (rank, dims @ [dtype_code (tn_dtype t)] @ content @ rest)"
    using read_bytes_append [of rank 4] by (simp add: bs_def rank_def)
  have r: "sint (bytes_word rank :: u32) = int (length (tn_shape t))"
    unfolding rank_def using assms(3) by (rule rank_round_trip)
  have dims: "read_dims (length (tn_shape t)) (dims @ x) = Inr (tn_shape t, x)" for x
    unfolding dims_def using fitsD(2) [OF tensor_ok_fits [OF ok]] assms(2) by (intro read_dims_append) simp
  have s: "store (st' @ [replicate (length content) 0]) t' 0 content = Inr (st' @ [content])"
    by (rule store_fresh) (simp_all add: t')
  have new: "tensor_new (tn_shape t) (tn_dtype t) st' = Inr (t', st' @ [replicate (length content) 0])"
    using t'(1) z by simp
  have "tensor_deserialize (bs @ rest) st' = Inr (t', st' @ [content], rest)"
    unfolding tensor_deserialize_def rank bind_result_simps prod.case Let_def r
    using dims assms(3) by (simp add: read_byte_Cons read_bytes_append dt new z s)
  moreover have "tensor_ok (st' @ [content]) t'"
    using tensor_ok_fits [OF t'(7)] tensor_ok_sized [OF t'(7)] z content(2) by (simp add: tensor_ok_def t' nth_append)
  moreover have "tensor_is_contiguous t'"
    using t' new by (auto simp: tensor_is_contiguous_def tensor_new_def bind_result_eq_Inr tensor_default_def split: if_splits)
  moreover have "load (st' @ [content]) t' 0 (size_bytes t) = Inr content"
    using content(2) [symmetric] by (simp add: load_def t' nth_append)
  ultimately show ?thesis using bs size content(1) t'(2,3) by blast
qed

theorem tensor_serialize_round_trip_witness:
  "\<exists>bs t'. tensor_serialize sample_store sample_tensor = Inr bs \<and> length bs = 45 \<and>
    tensor_deserialize (bs @ [1, 2, 3]) [] = Inr (t', sample_store, [1, 2, 3]) \<and> tn_shape t' = [2, 3]"
proof -
  have s: "tn_shape sample_tensor = [2, 3]" "tn_dtype sample_tensor = F32"
    "load sample_store sample_tensor 0 (size_bytes sample_tensor) = Inr (hd sample_store)"
    "serialized_size sample_tensor = 45" by code_simp+
  have "sample_store = [hd sample_store]" by (simp add: sample_store_def)
  moreover obtain bs content t' where "tensor_serialize sample_store sample_tensor = Inr bs"
      "int (length bs) = serialized_size sample_tensor"
      "load sample_store sample_tensor 0 (size_bytes sample_tensor) = Inr content"
      "tensor_deserialize (bs @ [1, 2, 3]) [] = Inr (t', [] @ [content], [1, 2, 3])" "tn_shape t' = tn_shape sample_tensor"
    using tensor_serialize_round_trip [OF sample_ok, of "[1, 2, 3]" "[]"] s(1,2) by auto
  ultimately show ?thesis using s by (intro exI [of _ bs] exI [of _ t']) auto
qed

end
