(* ===== verification/Tensor_View.thy ===== *)
theory Tensor_View
  imports Tensor_Views
begin

text \<open>
  The views of \<open>include/quant/tensor_view.h\<close>: a pointer, a shape and strides, without a share in the buffer.
  The pointer is a buffer and an offset in bytes. A failed \<open>assert\<close> ends a debug build and is no check
  in a release build, so it counts as undefined. Addresses are those of a buffer, so their arithmetic is
  assumed to stay within \<open>int64_t\<close>.
\<close>

section \<open>Views and their operations\<close>

record tview =
  vw_buffer :: nat
  vw_pos :: int
  vw_shape :: shape
  vw_strides :: "int list"
  vw_dtype :: dtype

definition view_new :: "nat \<Rightarrow> int \<Rightarrow> shape \<Rightarrow> dtype \<Rightarrow> tview" where
  "view_new b pos dims dt =
     \<lparr>vw_buffer = b, vw_pos = pos, vw_shape = dims, vw_strides = compute_strides dims, vw_dtype = dt\<rparr>"

definition asserts :: "bool \<Rightarrow> 'a \<Rightarrow> tensor_error + 'a" where
  "asserts c x = (if c then Inr x else Inl Undefined)"

definition valid_axis :: "tview \<Rightarrow> int \<Rightarrow> bool" where
  "valid_axis v dim \<longleftrightarrow> 0 \<le> dim \<and> dim < int (length (vw_shape v))"

definition view_slice :: "tview \<Rightarrow> int \<Rightarrow> int \<Rightarrow> int \<Rightarrow> tensor_error + tview" where
  "view_slice v dim start stop =
     asserts (valid_axis v dim \<and> 0 \<le> start \<and> stop \<le> vw_shape v ! nat dim)
       (v\<lparr>vw_shape := (vw_shape v)[nat dim := stop - start],
          vw_pos := vw_pos v + start * vw_strides v ! nat dim * int (dtype_size (vw_dtype v))\<rparr>)"

definition view_transpose :: "tview \<Rightarrow> int \<Rightarrow> int \<Rightarrow> tensor_error + tview" where
  "view_transpose v dim1 dim2 =
     asserts (valid_axis v dim1 \<and> valid_axis v dim2)
       (v\<lparr>vw_shape := swap_at (nat dim1) (nat dim2) (vw_shape v),
          vw_strides := swap_at (nat dim1) (nat dim2) (vw_strides v)\<rparr>)"

definition view_is_contiguous :: "tview \<Rightarrow> bool" where
  "view_is_contiguous v \<longleftrightarrow> vw_strides v = compute_strides (vw_shape v)"

definition view_reshape :: "tview \<Rightarrow> shape \<Rightarrow> tensor_error + tview" where
  "view_reshape v dims = asserts (view_is_contiguous v) (view_new (vw_buffer v) (vw_pos v) dims (vw_dtype v))"

definition view_narrow :: "tview \<Rightarrow> int \<Rightarrow> int \<Rightarrow> int \<Rightarrow> tensor_error + tview" where
  "view_narrow v dim start n =
     asserts (valid_axis v dim \<and> 0 \<le> start \<and> start + n \<le> vw_shape v ! nat dim)
       (v\<lparr>vw_shape := (vw_shape v)[nat dim := n],
          vw_pos := vw_pos v + start * vw_strides v ! nat dim * int (dtype_size (vw_dtype v))\<rparr>)"

text \<open>The stride of the new axis is computed from the axis it is put before; at the end there is none to read.\<close>

definition view_unsqueeze :: "tview \<Rightarrow> int \<Rightarrow> tensor_error + tview" where
  "view_unsqueeze v dim =
     (let k = nat dim; ds = vw_shape v; ss = vw_strides v in
      asserts (0 \<le> dim \<and> dim \<le> int (length ds) \<and> length ds + 1 \<le> 8 \<and> k < length ss)
        (v\<lparr>vw_shape := take k ds @ [1] @ drop k ds, vw_strides := take k ss @ [ss ! k * ds ! k] @ drop k ss\<rparr>))"

definition view_squeeze :: "tview \<Rightarrow> int \<Rightarrow> tensor_error + tview" where
  "view_squeeze v dim =
     (let k = nat dim in
      asserts (valid_axis v dim \<and> vw_shape v ! k = 1)
        (v\<lparr>vw_shape := take k (vw_shape v) @ drop (Suc k) (vw_shape v),
           vw_strides := take k (vw_strides v) @ drop (Suc k) (vw_strides v)\<rparr>))"

text \<open>Reading \<open>n\<close> bytes at an offset from the pointer.\<close>

definition view_load :: "buffers \<Rightarrow> tview \<Rightarrow> int \<Rightarrow> int \<Rightarrow> tensor_error + u8 list" where
  "view_load st v off n = load st (tensor_of_buffer [] (vw_buffer v) U8) (vw_pos v + off) n"

fun view_loop :: "shape \<Rightarrow> int list \<Rightarrow> int list \<Rightarrow> int \<Rightarrow> tensor_error + int" where
  "view_loop (d # ds) (s # ss) (i # is) acc =
     (if i < 0 \<or> i \<ge> d then Inl (Check_Failed ''TensorView::at: index out of bounds'') else view_loop ds ss is (acc + i * s))"
| "view_loop _ _ _ acc = Inr acc"

definition view_at :: "buffers \<Rightarrow> int \<Rightarrow> tview \<Rightarrow> int list \<Rightarrow> tensor_error + u8 list" where
  "view_at st n v idx =
     (if length idx \<noteq> length (vw_shape v) then Inl (Check_Failed ''TensorView::at: index arity mismatch'')
      else bind_result (view_loop (vw_shape v) (vw_strides v) idx 0)
             (\<lambda>off. view_load st v (off * int (dtype_size (vw_dtype v))) n))"

definition view_data_at :: "buffers \<Rightarrow> int \<Rightarrow> tview \<Rightarrow> int \<Rightarrow> tensor_error + u8 list" where
  "view_data_at st n v flat =
     (if flat < 0 \<or> flat \<ge> numel (vw_shape v) then Inl (Check_Failed ''TensorView::data_at: flat offset out of bounds'')
      else view_load st v (flat * int (dtype_size (vw_dtype v))) n)"

definition view_to_tensor :: "tview \<Rightarrow> buffers \<Rightarrow> tensor_error + tensor \<times> buffers" where
  "view_to_tensor v st =
     bind_result (tensor_new (vw_shape v) (vw_dtype v) st) (\<lambda>(result, st').
     bind_result
       (collect (map (\<lambda>i. view_load st v (strided_offset (vw_shape v) (vw_strides v) (int i) * int (dtype_size (vw_dtype v)))
                            (int (dtype_size (vw_dtype v))))
                  [0..<nat (numel (vw_shape v))])) (\<lambda>bytes.
     bind_result (store st' result 0 bytes) (\<lambda>st'. Inr (result, st'))))"

section \<open>Operations are changes of index\<close>

lemma view_loop_dot:
  "length is = length ds \<Longrightarrow> length ss = length ds \<Longrightarrow>
     view_loop ds ss is acc =
       (if in_shape is ds then Inr (acc + dot is ss) else Inl (Check_Failed ''TensorView::at: index out of bounds''))"
proof (induction ds arbitrary: "is" ss acc)
  case (Cons d ds)
  then show ?case by (auto simp: length_Suc_conv add.assoc)
qed simp

lemma view_at_dot:
  assumes "length (vw_strides v) = length (vw_shape v)" and "in_shape is (vw_shape v)"
  shows "view_at st n v is = view_load st v (dot is (vw_strides v) * int (dtype_size (vw_dtype v))) n"
  using assms in_shape_length [OF assms(2)] by (simp add: view_at_def view_loop_dot)

lemma dot_append: "length is = length ss \<Longrightarrow> dot (is @ js) (ss @ ts) = dot is ss + dot js ts"
  by (induction "is" ss rule: list_induct2) simp_all

lemma in_shape_append: "length is = length ds \<Longrightarrow> in_shape (is @ js) (ds @ es) \<longleftrightarrow> in_shape is ds \<and> in_shape js es"
  by (simp add: in_shape_def list_all2_append)

lemma asserts_Inr [simp]: "asserts c x = Inr y \<longleftrightarrow> c \<and> y = x"
  by (auto simp: asserts_def)

lemma split_at: "k < length xs \<Longrightarrow> xs = take k xs @ xs ! k # drop (Suc k) xs"
  by (rule id_take_nth_drop)

lemma dot_update: "k < length is \<Longrightarrow> length ss = length is \<Longrightarrow> dot (is[k := is ! k + a]) ss = dot is ss + a * ss ! k"
proof (induction "is" arbitrary: k ss)
  case (Cons i js)
  then obtain s ts where "ss = s # ts" by (cases ss) simp_all
  with Cons show ?case by (cases k) (simp_all add: algebra_simps)
qed simp

lemma slice_reindex:
  assumes wf: "length (vw_strides v) = length (vw_shape v)" and w: "view_slice v dim start stop = Inr w"
    and i: "in_shape is (vw_shape w)"
  shows "view_at st n w is = view_at st n v (is[nat dim := is ! nat dim + start])"
proof -
  define k where "k = nat dim"
  have k: "k < length (vw_shape v)" "0 \<le> start" "stop \<le> vw_shape v ! k"
    and w': "vw_shape w = (vw_shape v)[k := stop - start]" "vw_strides w = vw_strides v" "vw_dtype w = vw_dtype v"
      "vw_buffer w = vw_buffer v" "vw_pos w = vw_pos v + start * vw_strides v ! k * int (dtype_size (vw_dtype v))"
    using w by (auto simp: view_slice_def valid_axis_def k_def)
  define js where "js = is[k := is ! k + start]"
  have len: "length is = length (vw_shape v)" using in_shape_length [OF i] by (simp add: w')
  have "in_shape js (vw_shape v)"
    using i k unfolding in_shape_nth js_def w' by (auto simp: nth_list_update split: if_splits)
  moreover have "dot js (vw_strides v) = dot is (vw_strides v) + start * vw_strides v ! k"
    unfolding js_def using k(1) len wf by (intro dot_update) simp_all
  ultimately show ?thesis
    using view_at_dot [of w "is"] view_at_dot [of v js] wf i
    unfolding js_def [symmetric] k_def [symmetric] by (simp add: w' view_load_def k_def [symmetric] js_def [symmetric] algebra_simps)
qed

lemma insert_reindex:
  assumes "length is = length ds" and "length ss = length ds" and "k \<le> length ds"
  shows "dot (take k is @ i # drop k is) (take k ss @ s # drop k ss) = dot is ss + i * s"
    and "in_shape (take k is @ i # drop k is) (take k ds @ d # drop k ds) \<longleftrightarrow> in_shape is ds \<and> 0 \<le> i \<and> i < d"
proof -
  have d: "dot is ss = dot (take k is) (take k ss) + dot (drop k is) (drop k ss)"
    using dot_append [of "take k is" "take k ss" "drop k is" "drop k ss"] assms by simp
  then show "dot (take k is @ i # drop k is) (take k ss @ s # drop k ss) = dot is ss + i * s"
    using assms by (simp add: dot_append)
  have "in_shape is ds \<longleftrightarrow> in_shape (take k is) (take k ds) \<and> in_shape (drop k is) (drop k ds)"
    using in_shape_append [of "take k is" "take k ds" "drop k is" "drop k ds"] assms by simp
  then show "in_shape (take k is @ i # drop k is) (take k ds @ d # drop k ds) \<longleftrightarrow> in_shape is ds \<and> 0 \<le> i \<and> i < d"
    using assms by (auto simp: in_shape_append)
qed

text \<open>What a view denotes: the bytes at each index in its shape.\<close>

definition denotes :: "buffers \<Rightarrow> int \<Rightarrow> tview \<Rightarrow> (int list \<Rightarrow> tensor_error + u8 list) \<Rightarrow> bool" where
  "denotes st n v f \<longleftrightarrow> (\<forall>is. in_shape is (vw_shape v) \<longrightarrow> view_at st n v is = f is)"

text \<open>
  C26: The operations of a view implement the changes of index they stand for, on a view with any strides:
  a slice (and \<open>narrow\<close>, the same operation given a length) shifts one component of the index, a
  transposed view exchanges two, squeezing inserts a zero and unsqueezing drops a component.
\<close>

theorem view_operations_reindex:
  assumes wf: "length (vw_strides v) = length (vw_shape v)"
  shows "(view_slice v dim start stop = Inr w \<longrightarrow>
       denotes st n w (\<lambda>is. view_at st n v (is[nat dim := is ! nat dim + start]))) \<and>
    view_narrow v dim start (stop - start) = view_slice v dim start stop \<and>
    (view_transpose v dim dim' = Inr w \<longrightarrow> denotes st n w (\<lambda>is. view_at st n v (swap_at (nat dim) (nat dim') is))) \<and>
    (view_squeeze v dim = Inr w \<longrightarrow> denotes st n w (\<lambda>is. view_at st n v (take (nat dim) is @ 0 # drop (nat dim) is))) \<and>
    (view_unsqueeze v dim = Inr w \<longrightarrow> denotes st n w (\<lambda>is. view_at st n v (take (nat dim) is @ drop (Suc (nat dim)) is)))"
proof (intro conjI impI)
  show "view_slice v dim start stop = Inr w \<Longrightarrow> denotes st n w (\<lambda>is. view_at st n v (is[nat dim := is ! nat dim + start]))"
    unfolding denotes_def using slice_reindex [OF wf] by blast
  show "view_narrow v dim start (stop - start) = view_slice v dim start stop"
    by (simp add: view_narrow_def view_slice_def)
  show "denotes st n w (\<lambda>is. view_at st n v (swap_at (nat dim) (nat dim') is))" if "view_transpose v dim dim' = Inr w"
    unfolding denotes_def
  proof (intro allI impI)
    fix "is" assume i: "in_shape is (vw_shape w)"
    have w: "nat dim < length (vw_shape v)" "nat dim' < length (vw_shape v)"
        "vw_shape w = swap_at (nat dim) (nat dim') (vw_shape v)" "vw_strides w = swap_at (nat dim) (nat dim') (vw_strides v)"
        "vw_dtype w = vw_dtype v" "vw_buffer w = vw_buffer v" "vw_pos w = vw_pos v"
      using that by (auto simp: view_transpose_def valid_axis_def)
    have len: "length is = length (vw_strides v)" using in_shape_length [OF i] wf by (simp add: w)
    have "in_shape (swap_at (nat dim) (nat dim') is) (vw_shape v)" using in_shape_swap w(1,2) i by (simp add: w(3))
    then show "view_at st n w is = view_at st n v (swap_at (nat dim) (nat dim') is)"
      using view_at_dot [of w "is"] view_at_dot [OF wf] wf i dot_swap [OF len] w(1,2) by (simp add: w(3-7) view_load_def)
  qed
  show "denotes st n w (\<lambda>is. view_at st n v (take (nat dim) is @ 0 # drop (nat dim) is))" if "view_squeeze v dim = Inr w"
    unfolding denotes_def
  proof (intro allI impI)
    fix "is" assume i: "in_shape is (vw_shape w)"
    define k where "k = nat dim"
    have w: "k < length (vw_shape v)" "vw_shape v ! k = 1" "vw_shape w = take k (vw_shape v) @ drop (Suc k) (vw_shape v)"
        "vw_strides w = take k (vw_strides v) @ drop (Suc k) (vw_strides v)"
        "vw_dtype w = vw_dtype v" "vw_buffer w = vw_buffer v" "vw_pos w = vw_pos v"
      using that by (auto simp: view_squeeze_def valid_axis_def k_def Let_def)
    have rest: "vw_shape v = take k (vw_shape w) @ 1 # drop k (vw_shape w)"
        "vw_strides v = take k (vw_strides w) @ vw_strides v ! k # drop k (vw_strides w)"
      using split_at [OF w(1)] split_at [of k "vw_strides v"] w(1,2) wf by (simp_all add: w(3,4))
    have len: "length is = length (vw_shape w)" "length (vw_strides w) = length (vw_shape w)" "k \<le> length (vw_shape w)"
      using in_shape_length [OF i] w(1) wf by (simp_all add: w(3,4))
    have "in_shape (take k is @ 0 # drop k is) (vw_shape v)"
      unfolding rest(1) using insert_reindex(2) [OF len] i by simp
    moreover have "dot (take k is @ 0 # drop k is) (vw_strides v) = dot is (vw_strides w)"
      by (subst rest(2)) (simp add: insert_reindex(1) [OF len])
    ultimately show "view_at st n w is = view_at st n v (take (nat dim) is @ 0 # drop (nat dim) is)"
      using view_at_dot [OF len(2) i] view_at_dot [OF wf] by (simp add: k_def [symmetric] w(5-7) view_load_def)
  qed
  show "denotes st n w (\<lambda>is. view_at st n v (take (nat dim) is @ drop (Suc (nat dim)) is))" if "view_unsqueeze v dim = Inr w"
    unfolding denotes_def
  proof (intro allI impI)
    fix "is" assume i: "in_shape is (vw_shape w)"
    define k where "k = nat dim"
    have w: "k < length (vw_shape v)" "vw_shape w = take k (vw_shape v) @ 1 # drop k (vw_shape v)"
        "vw_strides w = take k (vw_strides v) @ (vw_strides v ! k * vw_shape v ! k) # drop k (vw_strides v)"
        "vw_dtype w = vw_dtype v" "vw_buffer w = vw_buffer v" "vw_pos w = vw_pos v"
      using that wf by (auto simp: view_unsqueeze_def k_def Let_def)
    define js where "js = take k is @ drop (Suc k) is"
    have "length is = Suc (length (vw_shape v))" using in_shape_length [OF i] w(1) by (simp add: w(2))
    then have len: "length js = length (vw_shape v)" "is = take k js @ is ! k # drop k js"
      using w(1) split_at [of k "is"] by (simp_all add: js_def)
    note ins = insert_reindex [OF len(1) wf order_less_imp_le [OF w(1)]]
    have z: "in_shape js (vw_shape v)" "is ! k = 0"
      using i ins(2) [of "is ! k" 1] unfolding w(2) len(2) [symmetric] by simp_all
    have "dot is (vw_strides w) = dot js (vw_strides v)"
    proof -
      have e: "take k js @ 0 # drop k js = is" using len(2) z(2) by simp
      show ?thesis using ins(1) [of 0] unfolding w(3) e by simp
    qed
    moreover have "length (vw_strides w) = length (vw_shape w)" using wf by (simp add: w(2,3))
    ultimately show "view_at st n w is = view_at st n v (take (nat dim) is @ drop (Suc (nat dim)) is)"
      using view_at_dot [OF _ i] view_at_dot [OF wf z(1)] by (simp add: k_def [symmetric] js_def [symmetric] w(4-6) view_load_def)
  qed
qed

theorem view_operations_reindex_witness:
  "bind_result (view_slice (view_new 0 0 [2, 3] F32) 1 1 3) (\<lambda>w. view_at sample_store 4 w [1, 0]) = Inr (word_bytes 4 (14 :: u32))"
proof -
  have wf: "length (vw_strides (view_new 0 0 [2, 3] F32)) = length (vw_shape (view_new 0 0 [2, 3] F32))" by code_simp
  define w where "w = \<lparr>vw_buffer = 0, vw_pos = 4, vw_shape = [2, 2], vw_strides = [3, 1], vw_dtype = F32\<rparr>"
  have w: "view_slice (view_new 0 0 [2, 3] F32) 1 1 3 = Inr w" "vw_shape w = [2, 2]" unfolding w_def by code_simp+
  then have "denotes sample_store 4 w (\<lambda>is. view_at sample_store 4 (view_new 0 0 [2, 3] F32) (is[nat 1 := is ! nat 1 + 1]))"
    using view_operations_reindex [OF wf] by blast
  moreover have "in_shape [1, 0] (vw_shape w)" by (simp add: w(2))
  moreover have "view_at sample_store 4 (view_new 0 0 [2, 3] F32) [1, 1] = Inr (word_bytes 4 (14 :: u32))" by code_simp
  ultimately show ?thesis by (simp add: w(1) denotes_def)
qed

section \<open>Copying a view\<close>

text \<open>The tensor that aliases a view, so that the loop of \<open>to_tensor\<close> is the one of \<open>transpose\<close>.\<close>

definition aliased :: "tview \<Rightarrow> tensor" where
  "aliased v = tensor_default\<lparr>tn_shape := vw_shape v, tn_dtype := vw_dtype v, tn_buffer := Some (vw_buffer v),
     tn_offset := nat (vw_pos v), tn_strides := vw_strides v\<rparr>"

lemma view_load_aliased: "0 \<le> vw_pos v \<Longrightarrow> view_load st v off n = load st (aliased v) off n"
  unfolding view_load_def by (rule load_shift) (simp_all add: tensor_of_buffer_def aliased_def tensor_default_def)

lemma aliased_fields [simp]:
  "tn_shape (aliased v) = vw_shape v" "tn_strides (aliased v) = vw_strides v" "tn_dtype (aliased v) = vw_dtype v"
  by (simp_all add: aliased_def)

text \<open>
  Materialising a view of fewer than 2^60 elements (\<open>sized\<close>) whose addresses lie in its
  buffer succeeds, and the tensor has at every index what the view has there, for any strides.
\<close>

theorem view_materialize:
  assumes ok: "addressable st (aliased v)" and "0 \<le> vw_pos v" and dt: "vw_dtype v = F32" and small: "sized (vw_shape v)"
  shows "\<exists>t new. view_to_tensor v st = Inr (t, st @ new) \<and> tensor_ok (st @ new) t \<and> tn_shape t = vw_shape v \<and>
    (\<forall>is. in_shape is (vw_shape v) \<longrightarrow>
       tensor_at (st @ new) t is = bind_result (view_at st 4 v is) (\<lambda>bs. Inr (bytes_word bs)))"
proof -
  let ?u = "aliased v"
  have nn: "\<forall>d \<in> set (vw_shape v). 0 \<le> d" and len: "length (vw_strides v) = length (vw_shape v)"
    using ok by (simp_all add: addressable_def)
  obtain c where c: "tensor_new (vw_shape v) (vw_dtype v) st = Inr (c, st @ [replicate (nat (size_bytes c)) 0])"
      "tn_shape c = vw_shape v" "tn_dtype c = vw_dtype v" "tn_buffer c = Some (length st)" "tn_offset c = 0"
      "tn_strides c = compute_strides (vw_shape v)" "tensor_ok (st @ [replicate (nat (size_bytes c)) 0]) c"
    using tensor_new_ok [OF nn small] by blast
  have n: "length (concat (gathered st ?u)) = nat (size_bytes c)"
    using gathered_length [OF ok] by (simp add: size_bytes_def c)
  have "collect (map (\<lambda>i. view_load st v (strided_offset (vw_shape v) (vw_strides v) (int i) * int (dtype_size (vw_dtype v)))
      (int (dtype_size (vw_dtype v)))) [0..<nat (numel (vw_shape v))]) = Inr (concat (gathered st ?u))"
    unfolding gathered_def view_load_aliased [OF assms(2)] aliased_fields
    by (rule collect_map) (use strided_load [OF ok] in fastforce)
  then have t: "view_to_tensor v st = Inr (c, st @ [concat (gathered st ?u)])"
    using c(1) store_fresh [OF c(4,5) n] by (simp add: view_to_tensor_def)
  have "extends (st @ [replicate (nat (size_bytes c)) 0]) (st @ [concat (gathered st ?u)])"
    by (simp add: extends_def nth_append n)
  then have tok: "tensor_ok (st @ [concat (gathered st ?u)]) c" using tensor_ok_extends c(7) by blast
  have "tensor_at (st @ [concat (gathered st ?u)]) c is = bind_result (view_at st 4 v is) (\<lambda>bs. Inr (bytes_word bs))"
    if i: "in_shape is (vw_shape v)" for "is"
  proof -
    have "element (st @ [concat (gathered st ?u)]) c is = element st ?u is"
      by (rule element_copied [OF ok]) (use i c in simp_all)
    also have "\<dots> = view_at st 4 v is"
      using view_at_dot [OF len i] by (simp add: element_def view_load_aliased [OF assms(2)] dt)
    finally show ?thesis
      using tensor_at_element [OF tok, of "st @ [concat (gathered st ?u)]" "is"] i in_shape_length [OF i] by (simp add: c dt)
  qed
  with t tok c(2) show ?thesis by blast
qed

text \<open>Unsqueezing at the end, which the assertions allow, reads a stride that is not there.\<close>

theorem view_unsqueeze_end: "length (vw_strides v) = length (vw_shape v) \<Longrightarrow>
    view_unsqueeze v (int (length (vw_shape v))) = Inl Undefined"
  by (simp add: view_unsqueeze_def asserts_def)

end
