(* ===== verification/Half.thy ===== *)
theory Half
  imports Prelude
begin

text \<open>
  The conversions between IEEE single and half precision: the ones of \<open>src/codec/block_codec.cpp\<close>, which
  every block format stores its scales with, and those of \<open>src/core/tensor.cpp\<close>,
  \<open>include/quant/detail/fp16.h\<close>, \<open>src/codec/codebook.cpp\<close> and \<open>src/codec/vector_quantizer.cpp\<close>. Floats are
  their bit patterns; the fields the code takes out of them are integers, none of which overflows.
\<close>

unbundle bit_operations_syntax

section \<open>The block codec\<close>

definition f32_to_f16 :: "u32 \<Rightarrow> u16" where
  "f32_to_f16 v =
     (let bits = uint v;
          sign = drop_bit 31 bits AND 1;
          exp = (drop_bit 23 bits AND 0xFF) - 127;
          mant = bits AND 0x7FFFFF in
      if exp > 15 then word_of_int (push_bit 15 sign OR 0x7C00)
      else if exp \<ge> - 14 then
        (let m = drop_bit 13 mant OR 0x400;
             round_bit = drop_bit 12 mant AND 1;
             sticky = (mant AND 0xFFF \<noteq> 0);
             lsb = m AND 1;
             m = (if round_bit \<noteq> 0 \<and> (sticky \<or> lsb \<noteq> 0) then m + 1 else m) in
         if m \<ge> 0x800 then
           (let m = drop_bit 1 m; exp = exp + 1 in
            if exp > 15 then word_of_int (push_bit 15 sign OR 0x7C00)
            else word_of_int (push_bit 15 sign OR push_bit 10 (exp + 15) OR (m AND 0x3FF)))
         else word_of_int (push_bit 15 sign OR push_bit 10 (exp + 15) OR (m AND 0x3FF)))
      else if exp < - 24 then word_of_int (push_bit 15 sign)
      else
        (let m = mant OR 0x800000;
             shift = nat (- exp - 14 + 13);
             mf = drop_bit shift m;
             round_bit = drop_bit (shift - 1) m AND 1;
             sticky = (m AND (push_bit (shift - 1) 1 - 1) \<noteq> 0);
             lsb = mf AND 1;
             mf = (if round_bit \<noteq> 0 \<and> (sticky \<or> lsb \<noteq> 0) then mf + 1 else mf) in
         if mf \<ge> 0x400 then word_of_int (push_bit 15 sign OR push_bit 10 1 OR (mf AND 0x3FF))
         else word_of_int (push_bit 15 sign OR mf)))"

text \<open>
  The loop that normalises a subnormal, at most ten turns for \<open>0 < m < 1024\<close>; \<open>fuel\<close> bounds it.
\<close>

fun normalize :: "nat \<Rightarrow> int \<Rightarrow> int \<Rightarrow> int \<times> int" where
  "normalize 0 m e = (m, e)"
| "normalize (Suc fuel) m e = (if m AND 0x400 = 0 then normalize fuel (push_bit 1 m) (e - 1) else (m, e))"

definition f16_to_f32 :: "u16 \<Rightarrow> u32" where
  "f16_to_f32 h =
     (let bits = uint h;
          sign = drop_bit 15 bits AND 1;
          exp = drop_bit 10 bits AND 0x1F;
          mant = bits AND 0x3FF in
      if exp = 0 then
        (if mant = 0 then word_of_int (push_bit 31 sign)
         else
           (let (m, e) = normalize 10 mant (- 14); m = m AND 0x3FF in
            word_of_int (push_bit 31 sign OR push_bit 23 (e + 127) OR push_bit 13 m)))
      else if exp = 31 then word_of_int (push_bit 31 sign OR 0x7F800000 OR push_bit 13 mant)
      else word_of_int (push_bit 31 sign OR push_bit 23 (exp - 15 + 127) OR push_bit 13 mant))"

section \<open>The other converters\<close>

definition tensor_float_to_half :: "u32 \<Rightarrow> u16" where
  "tensor_float_to_half f =
     (let u = uint f;
          sign = drop_bit 31 u AND 1;
          exp = drop_bit 23 u AND 0xFF;
          mant = u AND 0x7FFFFF in
      if exp = 0 then word_of_int (push_bit 15 sign)
      else if exp = 0xFF then word_of_int (push_bit 15 sign OR 0x7C00 OR (if mant \<noteq> 0 then 0x200 else 0))
      else
        (let newexp = exp - 127 + 15 in
         if newexp \<ge> 31 then word_of_int (push_bit 15 sign OR 0x7C00)
         else if newexp \<le> 0 then
           (if newexp < - 10 then word_of_int (push_bit 15 sign)
            else
              (let mant = drop_bit (nat (14 - newexp)) (mant OR 0x800000) in
               word_of_int (push_bit 15 sign OR drop_bit 1 mant)))
         else word_of_int (push_bit 15 sign OR push_bit 10 newexp OR drop_bit 13 mant)))"

text \<open>
  The product of a small integer and the float \<open>2 ^ - 24\<close>, which is exact: the leading bit of the
  integer becomes the hidden one.
\<close>

definition small_float :: "int \<Rightarrow> int" where
  "small_float m =
     (if m = 0 then 0
      else (let (n, e) = normalize 10 m (- 14) in push_bit 23 (e + 127) OR push_bit 13 (n AND 0x3FF)))"

definition fp16_to_float :: "u16 \<Rightarrow> u32" where
  "fp16_to_float h =
     (let bits = uint h;
          sign = drop_bit 15 bits AND 1;
          exp = drop_bit 10 bits AND 0x1F;
          mant = bits AND 0x3FF in
      if exp = 0 then word_of_int (push_bit 31 sign OR small_float mant)
      else if exp = 31 then
        (if mant = 0 then word_of_int (push_bit 31 sign OR 0x7F800000) else 0x7FC00000)
      else word_of_int (push_bit 31 sign OR push_bit 23 (exp + 112) OR push_bit 13 mant))"

definition codebook_float_to_half :: "u32 \<Rightarrow> u16" where
  "codebook_float_to_half f =
     (let u = uint f;
          sign = drop_bit 16 u AND 0x8000;
          exp = (drop_bit 23 u AND 0xFF) - 127 + 15;
          mant = u AND 0x7FFFFF in
      if exp \<le> 0 then
        (if exp < - 10 then word_of_int sign
         else word_of_int (sign OR drop_bit 13 (drop_bit (nat (1 - exp)) (mant OR 0x800000))))
      else if exp \<ge> 31 then word_of_int (sign OR 0x7C00 OR (if mant \<noteq> 0 then 0x200 else 0))
      else word_of_int (sign OR push_bit 10 exp OR drop_bit 13 mant))"

text \<open>The normalising loop counts its shifts down from 10. The mantissa is shifted in a 16-bit variable.\<close>

definition codebook_half_to_float :: "u16 \<Rightarrow> u32" where
  "codebook_half_to_float h =
     (let bits = uint h;
          sign = bits AND 0x8000;
          exp = drop_bit 10 bits AND 0x1F;
          mant = bits AND 0x3FF in
      if exp = 0 then
        (if mant = 0 then word_of_int (push_bit 16 sign)
         else
           (let (m, shift) = normalize 10 mant 10; exp = 1 - shift + 127 - 15 in
            word_of_int (push_bit 16 sign OR push_bit 23 exp OR take_bit 16 (push_bit 13 (m AND 0x3FF)))))
      else if exp = 31 then word_of_int (push_bit 16 sign OR 0x7F800000 OR push_bit 13 mant)
      else word_of_int (push_bit 16 sign OR push_bit 23 (exp - 15 + 127) OR push_bit 13 mant))"

definition vq_fp16_to_float :: "u16 \<Rightarrow> u32" where
  "vq_fp16_to_float h =
     (let bits = uint h;
          sign = drop_bit 15 bits AND 1;
          exp = drop_bit 10 bits AND 0x1F;
          frac = bits AND 0x3FF in
      if exp = 0 then word_of_int (push_bit 31 sign OR push_bit 13 frac)
      else if exp = 31 then word_of_int (push_bit 31 sign OR 0x7F800000 OR push_bit 13 frac)
      else word_of_int (push_bit 31 sign OR push_bit 23 (exp + 127 - 15) OR push_bit 13 frac))"

definition vq_float_to_fp16 :: "u32 \<Rightarrow> u16" where
  "vq_float_to_fp16 f =
     (let bits = uint f;
          sign = drop_bit 31 bits AND 1;
          exp = (drop_bit 23 bits AND 0xFF) - 127 + 15;
          frac = drop_bit 13 bits AND 0x3FF in
      if exp \<le> 0 then word_of_int (push_bit 15 sign)
      else if exp \<ge> 31 then word_of_int (push_bit 15 sign OR 0x7C00)
      else word_of_int (push_bit 15 sign OR push_bit 10 exp OR frac))"

end
