(* ===== verification/Half_Correct.thy ===== *)
theory Half_Correct
  imports Half
begin

text \<open>
  The fields of a float and of a half as quotients and remainders, the numbers they stand for, and what the
  converters do to them.
\<close>

section \<open>Fields\<close>

lemma push_or: "0 \<le> b \<Longrightarrow> b < 2 ^ k \<Longrightarrow> push_bit k a OR b = a * 2 ^ k + (b :: int)"
proof -
  assume "0 \<le> b" "b < 2 ^ k"
  then have b: "take_bit k b = b" by (simp add: take_bit_int_eq_self)
  have "\<not> bit (push_bit k a) n \<or> \<not> bit (take_bit k b) n" for n by (simp add: bit_simps)
  then have "push_bit k a + b = push_bit k a OR b" by (simp only: b disjunctive_add)
  then show ?thesis by (simp add: push_bit_eq_mult)
qed

lemma and_mask: "(x :: int) AND (2 ^ k - 1) = x mod 2 ^ k"
  by (simp only: mask_eq_exp_minus_1 [symmetric] take_bit_eq_mask [symmetric] take_bit_eq_mod)

lemma and_masks:
  "(x :: int) AND 1 = x mod 2" "x AND 0x1F = x mod 32" "x AND 0xFF = x mod 256" "x AND 0x3FF = x mod 1024"
  "x AND 0xFFF = x mod 4096" "x AND 0x7FFFFF = x mod 8388608"
  using and_mask [of x 1] and_mask [of x 5] and_mask [of x 8] and_mask [of x 10] and_mask [of x 12] and_mask [of x 23]
  by simp_all

text \<open>A half and a float made of sign, exponent and mantissa.\<close>

definition half_of :: "int \<Rightarrow> int \<Rightarrow> int \<Rightarrow> u16" where
  "half_of s e m = word_of_int (push_bit 15 s OR push_bit 10 e OR m)"

definition float_of :: "int \<Rightarrow> int \<Rightarrow> int \<Rightarrow> u32" where
  "float_of s e m = word_of_int (push_bit 31 s OR push_bit 23 e OR m)"

definition half_fields :: "int \<Rightarrow> int \<Rightarrow> int \<Rightarrow> bool" where
  "half_fields s e m \<longleftrightarrow> 0 \<le> s \<and> s < 2 \<and> 0 \<le> e \<and> e < 32 \<and> 0 \<le> m \<and> m < 1024"

definition float_fields :: "int \<Rightarrow> int \<Rightarrow> int \<Rightarrow> bool" where
  "float_fields s e m \<longleftrightarrow> 0 \<le> s \<and> s < 2 \<and> 0 \<le> e \<and> e < 256 \<and> 0 \<le> m \<and> m < 8388608"

lemma fields3:
  assumes "0 \<le> m" "m < M" "0 \<le> e" "e < E"
  shows "(s * (E * M) + e * M + m) mod M = (m :: int)" "(s * (E * M) + e * M + m) div M = s * E + e"
    "(s * (E * M) + e * M + m) div (E * M) = s"
proof -
  have x: "s * (E * M) + e * M + m = m + (s * E + e) * M" by (simp add: algebra_simps)
  show m: "(s * (E * M) + e * M + m) mod M = m" "(s * (E * M) + e * M + m) div M = s * E + e"
    unfolding x using assms by simp_all
  have "(s * (E * M) + e * M + m) div (M * E) = (s * E + e) div E"
    using assms m(2) by (simp add: zdiv_zmult2_eq)
  also have "\<dots> = s" using assms by simp
  finally show "(s * (E * M) + e * M + m) div (E * M) = s" by (simp only: mult.commute [of E M])
qed

lemma half_sum:
  assumes "half_fields s e m"
  shows "(s * 32768 + e * 1024 + m) mod 1024 = m" "(s * 32768 + e * 1024 + m) div 1024 = s * 32 + e"
    "(s * 32768 + e * 1024 + m) div 32768 = s"
  using fields3 [of m 1024 e 32 s] assms by (simp_all add: half_fields_def)

lemma float_sum:
  assumes "float_fields s e m"
  shows "(s * 2147483648 + e * 8388608 + m) mod 8388608 = m" "(s * 2147483648 + e * 8388608 + m) div 8388608 = s * 256 + e"
    "(s * 2147483648 + e * 8388608 + m) div 2147483648 = s"
  using fields3 [of m 8388608 e 256 s] assms by (simp_all add: float_fields_def)

lemma uint_of_int_small: "0 \<le> x \<Longrightarrow> x < 2 ^ LENGTH('a) \<Longrightarrow> uint (word_of_int x :: 'a::len word) = x"
  by (simp only: unsigned_of_int take_bit_int_eq_self)

lemma uint_half_of: "half_fields s e m \<Longrightarrow> uint (half_of s e m) = s * 32768 + e * 1024 + m"
proof -
  assume f: "half_fields s e m"
  then have "push_bit 15 s OR (push_bit 10 e OR m) = s * 32768 + e * 1024 + m"
    by (simp add: push_or half_fields_def)
  then have "half_of s e m = word_of_int (s * 32768 + e * 1024 + m)" by (simp only: half_of_def)
  moreover have "uint (word_of_int (s * 32768 + e * 1024 + m) :: u16) = s * 32768 + e * 1024 + m"
    by (rule uint_of_int_small) (use f in \<open>simp_all add: half_fields_def\<close>)
  ultimately show ?thesis by (simp only:)
qed

lemma uint_float_of: "float_fields s e m \<Longrightarrow> uint (float_of s e m) = s * 2147483648 + e * 8388608 + m"
proof -
  assume f: "float_fields s e m"
  then have "push_bit 31 s OR (push_bit 23 e OR m) = s * 2147483648 + e * 8388608 + m"
    by (simp add: push_or float_fields_def)
  then have "float_of s e m = word_of_int (s * 2147483648 + e * 8388608 + m)" by (simp only: float_of_def)
  moreover have "uint (word_of_int (s * 2147483648 + e * 8388608 + m) :: u32) = s * 2147483648 + e * 8388608 + m"
    by (rule uint_of_int_small) (use f in \<open>simp_all add: float_fields_def\<close>)
  ultimately show ?thesis by (simp only:)
qed

lemma half_parts:
  assumes "half_fields s e m"
  shows "drop_bit 15 (uint (half_of s e m)) AND 1 = s" "drop_bit 10 (uint (half_of s e m)) AND 0x1F = e"
    "uint (half_of s e m) AND 0x3FF = m"
  unfolding uint_half_of [OF assms] and_masks drop_bit_eq_div
  using half_sum [OF assms] assms by (simp_all add: half_fields_def)

lemma float_parts:
  assumes "float_fields s e m"
  shows "drop_bit 31 (uint (float_of s e m)) AND 1 = s" "drop_bit 23 (uint (float_of s e m)) AND 0xFF = e"
    "uint (float_of s e m) AND 0x7FFFFF = m"
  unfolding uint_float_of [OF assms] and_masks drop_bit_eq_div
  using float_sum [OF assms] assms by (simp_all add: float_fields_def)

lemma split3: "(x :: int) = x div (E * M) * (E * M) + x div M mod E * M + x mod M" if "0 < M" "0 < E"
proof -
  have "x = x div M * M + x mod M" by simp
  also have "x div M = x div M div E * E + x div M mod E" by simp
  also have "x div M div E = x div (E * M)" using that zdiv_zmult2_eq [of E x M] by (simp only: mult.commute [of E M] order_less_imp_le)
  finally show ?thesis by (simp add: algebra_simps)
qed

lemma half_cases:
  obtains s e m where "h = half_of s e m" and "half_fields s e m"
proof -
  have "0 \<le> uint h" "uint h < 65536" using unsigned_less [of h, where ?'a = int] by simp_all
  then have "0 \<le> uint h div 32768" "uint h div 32768 < 2" by (simp_all add: pos_imp_zdiv_nonneg_iff div_less_iff_less_mult)
  then have f: "half_fields (uint h div 32768) (uint h div 1024 mod 32) (uint h mod 1024)" by (simp add: half_fields_def)
  then have "uint (half_of (uint h div 32768) (uint h div 1024 mod 32) (uint h mod 1024)) = uint h"
    using split3 [of 1024 32 "uint h"] by (simp add: uint_half_of)
  then show thesis using that f by (metis unsigned_word_eqI)
qed

lemma float_cases:
  obtains s e m where "f = float_of s e m" and "float_fields s e m"
proof -
  have "0 \<le> uint f" "uint f < 4294967296" using unsigned_less [of f, where ?'a = int] by simp_all
  then have "0 \<le> uint f div 2147483648" "uint f div 2147483648 < 2" by (simp_all add: pos_imp_zdiv_nonneg_iff div_less_iff_less_mult)
  then have fs: "float_fields (uint f div 2147483648) (uint f div 8388608 mod 256) (uint f mod 8388608)" by (simp add: float_fields_def)
  then have "uint (float_of (uint f div 2147483648) (uint f div 8388608 mod 256) (uint f mod 8388608)) = uint f"
    using split3 [of 8388608 256 "uint f"] by (simp add: uint_float_of)
  then show thesis using that fs by (metis unsigned_word_eqI)
qed

section \<open>Numbers\<close>

text \<open>A finite half in units of \<open>2 ^ - 24\<close>, a finite float in units of \<open>2 ^ - 149\<close>.\<close>

definition half_value :: "u16 \<Rightarrow> int" where
  "half_value h =
     (let s = uint h div 32768; e = uint h div 1024 mod 32; m = uint h mod 1024 in
      (if s = 0 then 1 else - 1) * (if e = 0 then m else (1024 + m) * 2 ^ nat (e - 1)))"

definition float_value :: "u32 \<Rightarrow> int" where
  "float_value f =
     (let s = uint f div 2147483648; e = uint f div 8388608 mod 256; m = uint f mod 8388608 in
      (if s = 0 then 1 else - 1) * (if e = 0 then m else (8388608 + m) * 2 ^ nat (e - 1)))"

lemma half_value_of: "half_fields s e m \<Longrightarrow>
    half_value (half_of s e m) = (if s = 0 then 1 else - 1) * (if e = 0 then m else (1024 + m) * 2 ^ nat (e - 1))"
  unfolding half_value_def uint_half_of half_sum Let_def by (simp add: half_fields_def)

lemma float_value_of: "float_fields s e m \<Longrightarrow>
    float_value (float_of s e m) = (if s = 0 then 1 else - 1) * (if e = 0 then m else (8388608 + m) * 2 ^ nat (e - 1))"
  unfolding float_value_def uint_float_of float_sum Let_def by (simp add: float_fields_def)

section \<open>Decoding\<close>

lemma bit_10: "0 \<le> m \<Longrightarrow> m < 2048 \<Longrightarrow> (m :: int) AND 0x400 = 0 \<longleftrightarrow> m < 1024"
proof -
  assume m: "0 \<le> m" "m < 2048"
  have "m AND 2 ^ 10 = 0 \<longleftrightarrow> \<not> bit m 10" by (rule and_exp_eq_0_iff_not_bit)
  moreover have "bit m 10 \<longleftrightarrow> odd (m div 1024)" by (simp add: bit_iff_odd)
  moreover have "m div 1024 = (if m < 1024 then 0 else 1)" using m by (auto intro: int_div_pos_eq [of _ _ _ "m - 1024"])
  ultimately show ?thesis by simp
qed

lemma normalize_result:
  "0 < m \<Longrightarrow> m < 2048 \<Longrightarrow> 1024 \<le> m * 2 ^ fuel \<Longrightarrow>
     \<exists>k \<le> fuel. normalize fuel m e = (m * 2 ^ k, e - int k) \<and> 1024 \<le> m * 2 ^ k \<and> m * 2 ^ k < 2048"
proof (induction fuel arbitrary: m e)
  case (Suc fuel)
  show ?case
  proof (cases "m < 1024")
    case True
    then obtain k where "k \<le> fuel" "normalize fuel (m * 2) (e - 1) = (m * 2 * 2 ^ k, e - 1 - int k)"
        "1024 \<le> m * 2 * 2 ^ k" "m * 2 * 2 ^ k < 2048"
      using Suc.IH [of "m * 2" "e - 1"] Suc.prems by auto
    then show ?thesis
      using True Suc.prems bit_10 [of m] by (intro exI [of _ "Suc k"]) (simp add: push_bit_eq_mult algebra_simps)
  qed (use Suc.prems bit_10 [of m] in \<open>auto intro!: exI [of _ 0]\<close>)
qed auto

lemma normalize_subnormal:
  assumes "0 < m" and "m < 1024"
  obtains k where "1 \<le> k" "k \<le> 10" "\<And>e. normalize 10 m e = (m * 2 ^ k, e - int k)" "1024 \<le> m * 2 ^ k" "m * 2 ^ k < 2048"
proof -
  obtain k where k: "k \<le> 10" "normalize 10 m 0 = (m * 2 ^ k, - int k)" "1024 \<le> m * 2 ^ k" "m * 2 ^ k < 2048"
    using normalize_result [of m 10 0] assms by auto
  have uniform: "normalize fuel m (e + d) = (fst (normalize fuel m e), snd (normalize fuel m e) + d)" for fuel m e d
  proof (induction fuel arbitrary: m e)
    case (Suc fuel)
    then show ?case using Suc.IH [of "push_bit 1 m" "e - 1"] by (simp add: algebra_simps)
  qed simp
  have "1 \<le> k" using k(3) assms(2) by (cases k) simp_all
  then show thesis using that k uniform [of 10 m 0] by simp
qed

lemma normal_mod: "1024 \<le> x \<Longrightarrow> x < 2048 \<Longrightarrow> (x :: int) mod 1024 = x - 1024"
  using mod_pos_geq [of 1024 x] mod_pos_pos_trivial [of "x - 1024" 1024] by simp

lemma push_13: "push_bit 13 (m :: int) = m * 8192"
  by (simp add: push_bit_eq_mult)

text \<open>The decoder of the block codec, field by field.\<close>

lemma decode_fields:
  assumes f: "half_fields s e m"
  shows "e = 0 \<Longrightarrow> m = 0 \<Longrightarrow> f16_to_f32 (half_of s e m) = float_of s 0 0"
    and "e = 31 \<Longrightarrow> f16_to_f32 (half_of s e m) = float_of s 255 (m * 8192)"
    and "0 < e \<Longrightarrow> e < 31 \<Longrightarrow> f16_to_f32 (half_of s e m) = float_of s (e + 112) (m * 8192)"
    and "e = 0 \<Longrightarrow> 0 < m \<Longrightarrow> 1 \<le> k \<Longrightarrow> (\<And>e. normalize 10 m e = (m * 2 ^ k, e - int k)) \<Longrightarrow>
      1024 \<le> m * 2 ^ k \<Longrightarrow> m * 2 ^ k < 2048 \<Longrightarrow> f16_to_f32 (half_of s e m) = float_of s (113 - int k) ((m * 2 ^ k - 1024) * 8192)"
  unfolding f16_to_f32_def Let_def half_parts [OF f] float_of_def
  by (simp_all add: push_13 push_bit_eq_mult and_masks normal_mod algebra_simps)

lemma decode_fp16:
  assumes f: "half_fields s e m" and "e < 31"
  shows "fp16_to_float (half_of s e m) = f16_to_f32 (half_of s e m)"
  using assms(2) unfolding fp16_to_float_def f16_to_f32_def Let_def half_parts [OF f] small_float_def
  by (simp add: push_bit_eq_mult case_prod_beta algebra_simps)

lemma float_value_scaled:
  assumes "half_fields s e m" and "e < 31"
  shows "float_value (f16_to_f32 (half_of s e m)) = half_value (half_of s e m) * 2 ^ 125"
proof -
  have m: "0 \<le> s" "s < 2" "0 \<le> m" "m < 1024" "0 \<le> e" using assms(1) by (simp_all add: half_fields_def)
  consider "e = 0" "m = 0" | "e = 0" "0 < m" | "0 < e" using m by linarith
  then show ?thesis
  proof cases
    case 1
    have "float_fields s 0 0" using m by (simp add: float_fields_def)
    then show ?thesis using 1 decode_fields(1) [OF assms(1)] float_value_of half_value_of [OF assms(1)] by simp
  next
    case 2
    obtain k where k: "1 \<le> k" "k \<le> 10" "\<And>e. normalize 10 m e = (m * 2 ^ k, e - int k)" "1024 \<le> m * 2 ^ k" "m * 2 ^ k < 2048"
      using normalize_subnormal 2(2) m(4) by blast
    have ff: "float_fields s (113 - int k) ((m * 2 ^ k - 1024) * 8192)" using m k by (simp add: float_fields_def)
    have "(2 :: int) ^ 125 = 2 ^ k * 2 ^ 13 * 2 ^ (112 - k)" using k(2) by (simp add: power_add [symmetric])
    moreover have "nat (113 - int k - 1) = 112 - k" by simp
    ultimately show ?thesis
      using 2 k(2) decode_fields(4) [OF assms(1) 2 k(1,3-5)] float_value_of [OF ff] half_value_of [OF assms(1)]
      by (simp add: algebra_simps)
  next
    case 3
    have ff: "float_fields s (e + 112) (m * 8192)" using m assms(2) by (simp add: float_fields_def)
    have "nat (e + 112 - 1) = nat (e - 1) + 112" using 3 by simp
    then have "(2 :: int) ^ nat (e + 112 - 1) = 2 ^ nat (e - 1) * 2 ^ 112" by (simp only: power_add)
    then show ?thesis
      using 3 assms(2) decode_fields(3) [OF assms(1) 3 assms(2)] float_value_of [OF ff] half_value_of [OF assms(1)]
      by (simp add: algebra_simps)
  qed
qed

text \<open>
  The half decoders of the block codec and of \<open>fp16.h\<close> agree on every finite half and are exact: the
  float has the value of the half, subnormals and both zeros included.
\<close>

theorem half_decoders_exact:
  assumes "uint h div 1024 mod 32 < 31"
  shows "float_value (f16_to_f32 h) = half_value h * 2 ^ 125 \<and> fp16_to_float h = f16_to_f32 h"
proof -
  obtain s e m where h: "h = half_of s e m" "half_fields s e m" by (rule half_cases)
  have "uint h div 1024 mod 32 = e" unfolding h(1) uint_half_of [OF h(2)] half_sum(2) [OF h(2)] using h(2) by (simp add: half_fields_def)
  then show ?thesis using assms float_value_scaled [OF h(2)] decode_fp16 [OF h(2)] by (simp add: h(1))
qed

theorem half_decoders_exact_witness:
  "float_value (f16_to_f32 0x8203) = - 515 * 2 ^ 125 \<and> fp16_to_float 0x8203 = f16_to_f32 0x8203"
proof -
  have "uint (0x8203 :: u16) div 1024 mod 32 < 31" "half_value 0x8203 = - 515" by code_simp+
  then show ?thesis using half_decoders_exact [of "0x8203"] by simp
qed

section \<open>Encoding\<close>

definition round_even :: "nat \<Rightarrow> int \<Rightarrow> int" where
  "round_even k x =
     x div 2 ^ k + (if x div 2 ^ (k - 1) mod 2 \<noteq> 0 \<and> (x mod 2 ^ (k - 1) \<noteq> 0 \<or> x div 2 ^ k mod 2 \<noteq> 0) then 1 else 0)"

lemma round_even_near:
  assumes "0 < k"
  shows "2 * \<bar>round_even k x * 2 ^ k - x\<bar> < 2 ^ k \<or> 2 * \<bar>round_even k x * 2 ^ k - x\<bar> = 2 ^ k \<and> even (round_even k x)"
proof -
  define a where "a = x div 2 ^ (k - 1)"
  define r where "r = x mod 2 ^ (k - 1)"
  define p where "p = (2 :: int) ^ (k - 1)"
  have k: "(2 :: int) ^ k = 2 * p" using assms by (simp add: p_def power_eq_if)
  have r: "0 \<le> r" "r < p" "x = a * p + r"
    unfolding r_def p_def a_def by (simp, simp, simp only: div_mult_mod_eq)
  have q: "x div 2 ^ k = a div 2" by (simp add: k a_def p_def zdiv_zmult2_eq mult.commute [of 2])
  define b where "b = a div 2"
  have "a = 2 * b + a mod 2" by (simp add: b_def)
  moreover have "a mod 2 = 0 \<or> a mod 2 = 1" by presburger
  ultimately have "a = 2 * b \<and> a mod 2 = 0 \<or> a = 2 * b + 1 \<and> a mod 2 = 1" by linarith
  then have x: "a mod 2 = 0 \<and> x = b * (2 * p) + r \<or> a mod 2 = 1 \<and> x = b * (2 * p) + p + r"
    using r(3) by (auto simp: algebra_simps)
  have e: "round_even k x = b + (if a mod 2 \<noteq> 0 \<and> (r \<noteq> 0 \<or> b mod 2 \<noteq> 0) then 1 else 0)"
    unfolding round_even_def q by (simp only: a_def [symmetric] r_def [symmetric] b_def [symmetric])
  consider "a mod 2 = 0" | "a mod 2 = 1" "r \<noteq> 0" | "a mod 2 = 1" "r = 0" "odd b" | "a mod 2 = 1" "r = 0" "even b"
    using x by blast
  then show ?thesis
  proof cases
    case 1
    then have re: "round_even k x = b" by (simp add: e)
    have d: "round_even k x * 2 ^ k - x = - r" unfolding re k using x 1 by simp
    show ?thesis unfolding d unfolding k using r(1,2) by simp
  next
    case 2
    then have re: "round_even k x = b + 1" by (simp add: e)
    have d: "round_even k x * 2 ^ k - x = p - r" unfolding re k using x 2 by (simp add: algebra_simps)
    show ?thesis unfolding d unfolding k using r(1,2) 2 by simp
  next
    case 3
    then have "b mod 2 \<noteq> 0" by presburger
    then have re: "round_even k x = b + 1" using 3 by (simp add: e)
    have d: "round_even k x * 2 ^ k - x = p" unfolding re k using x 3 by (simp add: algebra_simps)
    show ?thesis unfolding d unfolding k re using r(1,2) 3 by simp
  next
    case 4
    then have re: "round_even k x = b" by (simp add: e)
    have d: "round_even k x * 2 ^ k - x = - p" unfolding re k using x 4 by (simp add: algebra_simps)
    show ?thesis unfolding d unfolding k re using r(1,2) 4 by simp
  qed
qed

text \<open>An error is at most half a unit, and a tie goes to the even neighbour.\<close>

definition nearest :: "int \<Rightarrow> int \<Rightarrow> bool \<Rightarrow> bool" where
  "nearest err unit ev \<longleftrightarrow> 2 * err < unit \<or> 2 * err = unit \<and> ev"

lemma round_even_nearest: "0 < k \<Longrightarrow> nearest \<bar>round_even k x * 2 ^ k - x\<bar> (2 ^ k) (even (round_even k x))"
  unfolding nearest_def by (rule round_even_near)

lemma nearest_scale: "nearest err unit ev \<Longrightarrow> 0 < c \<Longrightarrow> nearest (err * c) (unit * c) ev"
  unfolding nearest_def by (metis mult.assoc mult_less_cancel_right_disj)

lemma nearest_le: "nearest err unit ev \<Longrightarrow> 2 * err \<le> unit"
  unfolding nearest_def by linarith

lemma round_even_bounds:
  assumes "0 < k" and "a * 2 ^ k \<le> x" and "x < b * 2 ^ k"
  shows "a \<le> round_even k x" "round_even k x \<le> b"
proof -
  have "a \<le> x div 2 ^ k" using assms(2) zdiv_mono1 [of "a * 2 ^ k" x "2 ^ k"] by simp
  moreover have "x div 2 ^ k * 2 ^ k \<le> x" by (simp add: minus_mod_eq_div_mult [symmetric])
  then have "x div 2 ^ k * 2 ^ k < b * 2 ^ k" using assms(3) by linarith
  then have "x div 2 ^ k < b" by simp
  ultimately show "a \<le> round_even k x" "round_even k x \<le> b" by (simp_all add: round_even_def)
qed

lemma drop_bits: "drop_bit n (x :: int) = x div 2 ^ n"
  by (rule drop_bit_eq_div)

lemma or_hidden: "0 \<le> m \<Longrightarrow> m < 2 ^ k \<Longrightarrow> m OR 2 ^ k = (m :: int) + 2 ^ k"
  using push_or [of m k 1] by (simp add: or.commute push_bit_eq_mult)

text \<open>Rounding a mantissa as the code does is rounding to even of the mantissa with its hidden bit.\<close>

lemma normal_rounding:
  assumes "0 \<le> M" and "M < 8388608"
  shows "(let m = drop_bit 13 M OR 0x400;
             round_bit = drop_bit 12 M AND 1;
             sticky = (M AND 0xFFF \<noteq> 0);
             lsb = m AND 1
         in if round_bit \<noteq> 0 \<and> (sticky \<or> lsb \<noteq> 0) then m + 1 else m) = round_even 13 (8388608 + M)"
proof -
  have m: "drop_bit 13 M OR 0x400 = (8388608 + M) div 2 ^ 13"
    using or_hidden [of "M div 8192" 10] assms by (simp add: drop_bits div_less_iff_less_mult pos_imp_zdiv_nonneg_iff)
  have r: "drop_bit 12 M AND 1 = (8388608 + M) div 2 ^ (13 - 1) mod 2"
  proof -
    have "(8388608 + M) div 4096 = 2048 + M div 4096" by simp
    moreover have "(2048 + y) mod 2 = y mod 2" for y :: int by presburger
    ultimately show ?thesis by (simp add: drop_bits and_masks)
  qed
  have s: "M AND 0xFFF = (8388608 + M) mod 2 ^ (13 - 1)" by (simp add: and_masks mod_add_left_eq [symmetric])
  show ?thesis unfolding Let_def m r s unfolding and_masks(1) round_even_def by simp
qed

lemma subnormal_rounding:
  assumes "0 \<le> M" and "M < 8388608" and "0 < k"
  shows "(let m = M OR 0x800000;
             mf = drop_bit k m;
             round_bit = drop_bit (k - 1) m AND 1;
             sticky = (m AND (push_bit (k - 1) 1 - 1) \<noteq> 0);
             lsb = mf AND 1
         in if round_bit \<noteq> 0 \<and> (sticky \<or> lsb \<noteq> 0) then mf + 1 else mf) = round_even k (8388608 + M)"
proof -
  have m: "M OR 0x800000 = 8388608 + M" using or_hidden [of M 23] assms by simp
  have s: "(8388608 + M) AND (push_bit (k - 1) 1 - 1) = (8388608 + M) mod 2 ^ (k - 1)"
    by (simp add: push_bit_eq_mult and_mask)
  show ?thesis unfolding Let_def m s drop_bits and_masks(1) round_even_def by simp
qed

lemma encode_normal:
  assumes f: "float_fields s E M" and "113 \<le> E" and "E \<le> 142"
  shows "f32_to_f16 (float_of s E M) =
    (let m = round_even 13 (8388608 + M) in
     if m \<ge> 2048 then (if E = 142 then half_of s 31 0 else half_of s (E - 111) (m div 2 mod 1024))
     else half_of s (E - 112) (m mod 1024))"
proof -
  have M: "0 \<le> M" "M < 8388608" using f by (simp_all add: float_fields_def)
  note r = normal_rounding [OF M, unfolded Let_def]
  show ?thesis
    unfolding f32_to_f16_def Let_def float_parts [OF f] r
    using assms(2,3) by (simp add: half_of_def drop_bits and_masks push_bit_eq_mult)
qed

lemma encode_subnormal:
  assumes f: "float_fields s E M" and "103 \<le> E" and "E \<le> 112"
  shows "f32_to_f16 (float_of s E M) =
    (let m = round_even (nat (126 - E)) (8388608 + M) in
     if m \<ge> 1024 then half_of s 1 (m mod 1024) else half_of s 0 m)"
proof -
  have M: "0 \<le> M" "M < 8388608" using f by (simp_all add: float_fields_def)
  have k: "nat (- (E - 127) - 14 + 13) = nat (126 - E)" by simp
  have "0 < nat (126 - E)" using assms(3) by simp
  note r = subnormal_rounding [OF M this, unfolded Let_def]
  show ?thesis
    unfolding f32_to_f16_def Let_def float_parts [OF f] k r
    using assms(2,3) by (simp add: half_of_def and_masks)
qed

lemma encode_rest:
  assumes f: "float_fields s E M"
  shows "E \<ge> 143 \<Longrightarrow> f32_to_f16 (float_of s E M) = half_of s 31 0"
    and "E < 103 \<Longrightarrow> f32_to_f16 (float_of s E M) = half_of s 0 0"
  unfolding f32_to_f16_def Let_def float_parts [OF f] by (simp_all add: half_of_def push_bit_eq_mult)

lemma round_even_exact: "0 < k \<Longrightarrow> round_even k (a * 2 ^ k) = a"
proof -
  assume "0 < k"
  then have k: "(2 :: int) ^ k = 2 * 2 ^ (k - 1)" by (simp add: power_eq_if)
  have "a * 2 ^ k div 2 ^ (k - 1) = 2 * a" by (simp only: k) simp
  then show ?thesis by (simp add: round_even_def)
qed

section \<open>Round trip and rounding\<close>

lemma encode_decode_fields:
  assumes f: "half_fields s e m" and "e = 31 \<longrightarrow> m = 0"
  shows "f32_to_f16 (f16_to_f32 (half_of s e m)) = half_of s e m"
proof -
  have m: "0 \<le> s" "s < 2" "0 \<le> m" "m < 1024" "0 \<le> e" "e < 32" using f by (simp_all add: half_fields_def)
  consider "e = 0" "m = 0" | "e = 0" "0 < m" | "0 < e" "e < 31" | "e = 31" "m = 0" using m assms(2) by linarith
  then show ?thesis
  proof cases
    case 1
    have "float_fields s 0 0" using m by (simp add: float_fields_def)
    then show ?thesis using 1 decode_fields(1) [OF f] encode_rest(2) by simp
  next
    case 2
    obtain k where k: "1 \<le> k" "k \<le> 10" "\<And>e. normalize 10 m e = (m * 2 ^ k, e - int k)" "1024 \<le> m * 2 ^ k" "m * 2 ^ k < 2048"
      using normalize_subnormal 2(2) m(4) by blast
    have ff: "float_fields s (113 - int k) ((m * 2 ^ k - 1024) * 8192)" using m k by (simp add: float_fields_def)
    have n: "nat (126 - (113 - int k)) = 13 + k" by simp
    have "8388608 + (m * 2 ^ k - 1024) * 8192 = m * 2 ^ (13 + k)" by (simp add: power_add algebra_simps)
    then have r: "round_even (nat (126 - (113 - int k))) (8388608 + (m * 2 ^ k - 1024) * 8192) = m"
      by (simp only: n) (simp add: round_even_exact)
    have "f32_to_f16 (float_of s (113 - int k) ((m * 2 ^ k - 1024) * 8192)) = half_of s 0 m"
      unfolding encode_subnormal [OF ff] using k(1,2) m(4) encode_subnormal [OF ff] r by simp
    then show ?thesis using 2 decode_fields(4) [OF f 2 k(1,3-5)] by simp
  next
    case 3
    have ff: "float_fields s (e + 112) (m * 8192)" using m 3 by (simp add: float_fields_def)
    have "8388608 + m * 8192 = (1024 + m) * 2 ^ 13" by simp
    then have "round_even 13 (8388608 + m * 8192) = 1024 + m" by (simp only: round_even_exact zero_less_numeral)
    then have "f32_to_f16 (float_of s (e + 112) (m * 8192)) = half_of s e m"
      using encode_normal [OF ff] 3 m normal_mod [of "1024 + m"] by simp
    then show ?thesis using decode_fields(3) [OF f 3] by simp
  next
    case 4
    have "float_fields s 255 0" using m by (simp add: float_fields_def)
    then show ?thesis using 4 decode_fields(2) [OF f] encode_rest(1) by simp
  qed
qed

text \<open>
  Every half that is not a NaN survives the block codec's conversions: decoded to a float and
  encoded again it is the same half, zeros of both signs, subnormals and infinities included.
\<close>

theorem half_round_trip:
  assumes "uint h div 1024 mod 32 = 31 \<longrightarrow> uint h mod 1024 = 0"
  shows "f32_to_f16 (f16_to_f32 h) = h"
proof -
  obtain s e m where h: "h = half_of s e m" "half_fields s e m" by (rule half_cases)
  have "uint h div 1024 mod 32 = e" "uint h mod 1024 = m"
    unfolding h(1) uint_half_of [OF h(2)] half_sum [OF h(2)] using h(2) by (simp_all add: half_fields_def)
  then have "e = 31 \<longrightarrow> m = 0" using assms by (simp only:)
  then show ?thesis unfolding h(1) by (rule encode_decode_fields [OF h(2)])
qed

theorem half_round_trip_witness: "f32_to_f16 (f16_to_f32 0x83FF) = 0x83FF"
proof -
  have "uint (0x83FF :: u16) div 1024 mod 32 = 31 \<longrightarrow> uint (0x83FF :: u16) mod 1024 = 0" by code_simp
  then show ?thesis by (rule half_round_trip)
qed

lemma normal_step:
  fixes x m d :: int
  assumes "nearest \<bar>m * 2 ^ 13 - x\<bar> (2 ^ 13) ev" and "113 \<le> E"
  shows "nearest \<bar>m * 2 ^ nat (E - 113) * 2 ^ 125 - x * 2 ^ nat (E - 1)\<bar> (2 ^ nat (E + 12)) ev"
proof -
  have "nat (E - 113) + 125 = 13 + nat (E - 1)" using assms(2) by simp
  then have "(2 :: int) ^ nat (E - 113) * 2 ^ 125 = 2 ^ 13 * 2 ^ nat (E - 1)" by (simp only: power_add [symmetric])
  then have "m * 2 ^ nat (E - 113) * 2 ^ 125 - x * 2 ^ nat (E - 1) = (m * 2 ^ 13 - x) * 2 ^ nat (E - 1)"
    by (simp only: mult.assoc) (simp add: algebra_simps)
  then have err: "\<bar>m * 2 ^ nat (E - 113) * 2 ^ 125 - x * 2 ^ nat (E - 1)\<bar> = \<bar>m * 2 ^ 13 - x\<bar> * 2 ^ nat (E - 1)"
    by (simp only: abs_mult) simp
  have "13 + nat (E - 1) = nat (E + 12)" using assms(2) by simp
  then have unit: "(2 :: int) ^ nat (E + 12) = 2 ^ 13 * 2 ^ nat (E - 1)" by (simp only: power_add [symmetric])
  show ?thesis unfolding err unit by (rule nearest_scale [OF assms(1)]) simp
qed

lemma half_exponent: "half_fields s e m \<Longrightarrow> uint (half_of s e m) div 1024 mod 32 = e"
  unfolding uint_half_of half_sum by (simp add: half_fields_def)

lemma signed_error:
  "\<bar>(if s = 0 then 1 else - 1) * a * c - (if s = 0 then 1 else - 1) * b\<bar> = \<bar>a * c - (b :: int)\<bar>"
  by auto

lemma half_parity: "half_fields s e m \<Longrightarrow> even (uint (half_of s e m)) = even m"
  unfolding uint_half_of by simp

definition half_near :: "u16 \<Rightarrow> int \<Rightarrow> int \<Rightarrow> bool" where
  "half_near h v unit \<longleftrightarrow> uint h div 1024 mod 32 < 31 \<and> nearest \<bar>half_value h * 2 ^ 125 - v\<bar> unit (even (uint h))"

lemma round_normal:
  assumes f: "float_fields s E M" and E: "113 \<le> E" "E \<le> 142"
  shows "let h = f32_to_f16 (float_of s E M); v = float_value (float_of s E M) in
    (if 65520 * 2 ^ 149 \<le> \<bar>v\<bar> then h = half_of s 31 0 else half_near h v (2 ^ nat (E + 12)))"
proof -
  have b: "0 \<le> s" "s < 2" "0 \<le> M" "M < 8388608" using f by (simp_all add: float_fields_def)
  define x where "x = 8388608 + M"
  define m where "m = round_even 13 x"
  have m: "1024 \<le> m" "m \<le> 2048" using round_even_bounds [of 13 1024 x 2048] b by (simp_all add: m_def x_def)
  have nearest: "nearest \<bar>m * 2 ^ 13 - x\<bar> (2 ^ 13) (even m)" unfolding m_def by (rule round_even_nearest) simp
  note near = nearest_le [OF nearest]
  have v: "float_value (float_of s E M) = (if s = 0 then 1 else - 1) * (x * 2 ^ nat (E - 1))"
    using float_value_of [OF f] E by (simp add: x_def)
  have abs: "\<bar>float_value (float_of s E M)\<bar> = x * 2 ^ nat (E - 1)" unfolding v by (simp add: abs_mult x_def b)
  have enc: "f32_to_f16 (float_of s E M) =
    (if m \<ge> 2048 then (if E = 142 then half_of s 31 0 else half_of s (E - 111) (m div 2 mod 1024)) else half_of s (E - 112) (m mod 1024))"
    using encode_normal [OF f E] by (simp only: Let_def x_def m_def)
  have close: "nearest \<bar>half_value h * 2 ^ 125 - float_value (float_of s E M)\<bar> (2 ^ nat (E + 12)) (even m)"
    if "half_value h = (if s = 0 then 1 else - 1) * (m * 2 ^ nat (E - 113))" for h
    using normal_step [OF nearest E(1)] unfolding that v signed_error by (simp only: mult.assoc [symmetric] signed_error)
  have big: "65520 * 2 ^ 149 \<le> x * 2 ^ nat (E - 1) \<longleftrightarrow> E = 142 \<and> m = 2048"
  proof (cases "E = 142")
    case True
    have "65520 * 2 ^ 149 = (16773120 :: int) * 2 ^ nat (E - 1)" using True by simp
    then have "65520 * 2 ^ 149 \<le> x * 2 ^ nat (E - 1) \<longleftrightarrow> 16773120 \<le> x" by simp
    moreover have "round_even 13 16773120 = 2048" by (simp add: round_even_def)
    ultimately show ?thesis using near m True by (cases "x = 16773120") (auto simp: m_def)
  next
    case False
    then have "(2 :: int) ^ nat (E - 1) \<le> 2 ^ 140" using E by (intro power_increasing) simp_all
    moreover have "x < 2 ^ 24" using b by (simp add: x_def)
    ultimately have "x * 2 ^ nat (E - 1) < 2 ^ 24 * 2 ^ 140" by (intro mult_less_le_imp_less) (simp_all add: x_def b)
    then show ?thesis using False by simp
  qed
  consider "m = 2048" "E = 142" | "m = 2048" "E < 142" | "m < 2048" using m(2) E(2) by linarith
  then show ?thesis
  proof cases
    case 1
    then have h: "f32_to_f16 (float_of s E M) = half_of s 31 0" using enc by simp
    have "65520 * 2 ^ 149 \<le> \<bar>float_value (float_of s E M)\<bar>" unfolding abs using big 1 by blast
    then show ?thesis unfolding Let_def by (simp only: if_True h)
  next
    case 2
    have ff: "half_fields s (E - 111) 0" using b E 2 by (simp add: half_fields_def)
    have "nat (E - 111 - 1) = Suc (nat (E - 113))" using E by simp
    then have "half_value (half_of s (E - 111) 0) = (if s = 0 then 1 else - 1) * (m * 2 ^ nat (E - 113))"
      using half_value_of [OF ff] E 2 by simp
    moreover have "f32_to_f16 (float_of s E M) = half_of s (E - 111) 0" "even m" using enc 2 by simp_all
    moreover have "\<not> 65520 * 2 ^ 149 \<le> x * 2 ^ nat (E - 1)" using big 2 by simp
    ultimately show ?thesis
      using 2 close half_exponent [OF ff] half_parity [OF ff] unfolding Let_def abs half_near_def by simp
  next
    case 3
    have ff: "half_fields s (E - 112) (m - 1024)" using b E 3 m by (simp add: half_fields_def)
    have "nat (E - 112 - 1) = nat (E - 113)" by simp
    then have "half_value (half_of s (E - 112) (m - 1024)) = (if s = 0 then 1 else - 1) * (m * 2 ^ nat (E - 113))"
      using half_value_of [OF ff] E by simp
    moreover have "f32_to_f16 (float_of s E M) = half_of s (E - 112) (m - 1024)" using enc 3 normal_mod [OF m(1) 3] by simp
    moreover have "even (m - 1024) = even m" by simp
    moreover have "\<not> 65520 * 2 ^ 149 \<le> x * 2 ^ nat (E - 1)" using big 3 by simp
    ultimately show ?thesis
      using close half_exponent [OF ff] half_parity [OF ff] E unfolding Let_def abs half_near_def by simp
  qed
qed

lemma round_subnormal:
  assumes f: "float_fields s E M" and E: "103 \<le> E" "E \<le> 112"
  shows "half_near (f32_to_f16 (float_of s E M)) (float_value (float_of s E M)) (2 ^ 125)"
proof -
  have b: "0 \<le> s" "s < 2" "0 \<le> M" "M < 8388608" using f by (simp_all add: float_fields_def)
  define x where "x = 8388608 + M"
  define k where "k = nat (126 - E)"
  have k: "14 \<le> k" "int k = 126 - E" using E by (simp_all add: k_def)
  define m where "m = round_even k x"
  have "(2 :: int) ^ 24 \<le> 2 ^ (k + 10)" using k by (intro power_increasing) simp_all
  then have m: "0 \<le> m" "m \<le> 1024" using round_even_bounds [of k 0 x 1024] b k by (simp_all add: m_def x_def power_add)
  have near: "nearest \<bar>m * 2 ^ k - x\<bar> (2 ^ k) (even m)" unfolding m_def by (rule round_even_nearest) (use k in simp)
  have v: "float_value (float_of s E M) = (if s = 0 then 1 else - 1) * (x * 2 ^ nat (E - 1))"
    using float_value_of [OF f] E by (simp add: x_def)
  have p: "k + nat (E - 1) = 125" using k E by simp
  then have unit: "(2 :: int) ^ 125 = 2 ^ k * 2 ^ nat (E - 1)" by (simp only: power_add [symmetric])
  then have "\<bar>m * 2 ^ 125 - x * 2 ^ nat (E - 1)\<bar> = \<bar>(m * 2 ^ k - x) * 2 ^ nat (E - 1)\<bar>" by (simp only:) (simp add: algebra_simps)
  also have "\<dots> = \<bar>m * 2 ^ k - x\<bar> * 2 ^ nat (E - 1)" by (simp add: abs_mult)
  finally have "\<bar>m * 2 ^ 125 - x * 2 ^ nat (E - 1)\<bar> = \<bar>m * 2 ^ k - x\<bar> * 2 ^ nat (E - 1)" .
  then have err: "nearest \<bar>m * 2 ^ 125 - x * 2 ^ nat (E - 1)\<bar> (2 ^ 125) (even m)"
    using nearest_scale [OF near, of "2 ^ nat (E - 1)"] unfolding unit by simp
  have enc: "f32_to_f16 (float_of s E M) = (if m \<ge> 1024 then half_of s 1 (m mod 1024) else half_of s 0 m)"
    using encode_subnormal [OF f E] by (simp only: Let_def x_def m_def k_def)
  obtain e' m' where h: "f32_to_f16 (float_of s E M) = half_of s e' m'" "half_fields s e' m'" "e' \<le> 1"
      "half_value (half_of s e' m') = (if s = 0 then 1 else - 1) * m" "even m' = even m"
  proof (cases "m = 1024")
    case True
    have "half_fields s 1 0" using b by (simp add: half_fields_def)
    then show ?thesis using that [of 1 0] half_value_of [of s 1 0] enc True by simp
  next
    case False
    then have "half_fields s 0 m" using b m by (simp add: half_fields_def)
    then show ?thesis using that [of 0 m] half_value_of [of s 0 m] enc False m by simp
  qed
  show ?thesis
    using err half_exponent [OF h(2)] h(3) unfolding h(1) half_near_def v h(4) signed_error half_parity [OF h(2)] h(5) by simp
qed

text \<open>The magnitude of a float tells its exponent field.\<close>

lemma float_magnitude:
  assumes "float_fields s E M"
  shows "\<bar>float_value (float_of s E M)\<bar> < 2 ^ 125 \<longleftrightarrow> E < 103"
    and "143 \<le> E \<Longrightarrow> 65520 * 2 ^ 149 \<le> \<bar>float_value (float_of s E M)\<bar>"
    and "E \<le> 112 \<Longrightarrow> \<bar>float_value (float_of s E M)\<bar> < 65520 * 2 ^ 149"
proof -
  have b: "0 \<le> s" "s < 2" "0 \<le> M" "M < 8388608" "0 \<le> E" using assms by (simp_all add: float_fields_def)
  let ?v = "\<bar>float_value (float_of s E M)\<bar>"
  have v: "?v = (if E = 0 then M else (8388608 + M) * 2 ^ nat (E - 1))"
    unfolding float_value_of [OF assms] using b by (simp add: abs_mult)
  have low: "2 ^ (23 + n) \<le> ?v" if "int n < E" for n
  proof -
    have "(2 :: int) ^ 23 * 2 ^ n \<le> (8388608 + M) * 2 ^ nat (E - 1)"
      using that b by (intro mult_mono power_increasing) simp_all
    then show ?thesis unfolding v power_add using that by simp
  qed
  have high: "?v < 2 ^ (24 + n)" if "E \<le> int n + 1" for n
  proof (cases "E = 0")
    case True
    have "(2 :: int) ^ 24 \<le> 2 ^ (24 + n)" by (rule power_increasing) simp_all
    then show ?thesis unfolding v using b True by simp
  next
    case False
    have "(8388608 + M) * 2 ^ nat (E - 1) < 2 ^ 24 * (2 :: int) ^ n"
      using that b by (intro mult_less_le_imp_less power_increasing) simp_all
    then show ?thesis unfolding v power_add using False by simp
  qed
  show "?v < 2 ^ 125 \<longleftrightarrow> E < 103"
    using low [of 102] high [of 101] by (cases "E < 103") simp_all
  show "143 \<le> E \<Longrightarrow> 65520 * 2 ^ 149 \<le> ?v" using low [of 142] by simp
  show "E \<le> 112 \<Longrightarrow> ?v < 65520 * 2 ^ 149" using high [of 111] by simp
qed

lemma float_exponent: "float_fields s E M \<Longrightarrow> uint (float_of s E M) div 8388608 mod 256 = E"
  unfolding uint_float_of float_sum by (simp add: float_fields_def)

text \<open>
  C25: What encoding does to every float. From \<open>2 ^ - 24\<close> up to, and without, 65520 the half is finite and
  nearest: it differs from the float by less than half a unit in its last place (the unit of a
  subnormal half being \<open>2 ^ - 24\<close>), or by exactly half a unit and its last bit is 0. From 65520 on,
  the tie with the first power of two out of range included, it is the infinity of the float's
  sign; infinities and NaNs are among these floats. Below \<open>2 ^ - 24\<close> it is the zero of the float's
  sign, also between \<open>2 ^ - 25\<close> and \<open>2 ^ - 24\<close>, where the smallest subnormal would be nearer.
\<close>

theorem half_rounds_to_nearest:
  fixes f :: u32
  defines "E \<equiv> uint f div 8388608 mod 256" and "sign \<equiv> uint f div 2147483648" and "h \<equiv> f32_to_f16 f"
  shows "if \<bar>float_value f\<bar> < 2 ^ 125 then uint h = sign * 32768
    else if 65520 * 2 ^ 149 \<le> \<bar>float_value f\<bar> then uint h = sign * 32768 + 31744
    else uint h div 1024 mod 32 < 31 \<and>
      (2 * \<bar>half_value h * 2 ^ 125 - float_value f\<bar> < 2 ^ nat (max 125 (E + 12)) \<or>
       2 * \<bar>half_value h * 2 ^ 125 - float_value f\<bar> = 2 ^ nat (max 125 (E + 12)) \<and> even (uint h))"
proof -
  obtain s E' M where f: "f = float_of s E' M" "float_fields s E' M" by (rule float_cases)
  have E: "E = E'" unfolding E_def f(1) by (rule float_exponent [OF f(2)])
  have s: "sign = s" unfolding sign_def f(1) uint_float_of [OF f(2)] float_sum [OF f(2)] by (rule refl)
  have b: "half_fields s 31 0" "half_fields s 0 0" using f(2) by (simp_all add: half_fields_def float_fields_def)
  have special: "uint (half_of s 31 0) = sign * 32768 + 31744" "uint (half_of s 0 0) = sign * 32768"
    using uint_half_of [OF b(1)] uint_half_of [OF b(2)] by (simp_all add: s)
  note magnitude = float_magnitude [OF f(2), folded f(1) E]
  note rest = encode_rest [OF f(2), folded f(1) E]
  consider "E < 103" | "103 \<le> E" "E \<le> 112" | "113 \<le> E" "E \<le> 142" | "143 \<le> E" by linarith
  then show ?thesis
  proof cases
    case 1
    then show ?thesis using magnitude(1) rest(2) special(2) by (simp add: h_def)
  next
    case 2
    have n: "nat (max 125 (E + 12)) = 125" using 2 by simp
    show ?thesis using round_subnormal [OF f(2), folded f(1) E h_def, OF 2] magnitude(1) magnitude(3) [OF 2(2)] 2
      unfolding n half_near_def nearest_def by simp
  next
    case 3
    have n: "nat (max 125 (E + 12)) = nat (E + 12)" using 3 by simp
    have low: "\<not> \<bar>float_value f\<bar> < 2 ^ 125" using magnitude(1) 3 by linarith
    note r = round_normal [OF f(2), folded f(1) E h_def, OF 3, unfolded Let_def half_near_def nearest_def]
    show ?thesis
    proof (cases "65520 * 2 ^ 149 \<le> \<bar>float_value f\<bar>")
      case True
      then show ?thesis using r special(1) unfolding if_not_P [OF low] if_P [OF True] by (simp only:)
    next
      case False
      then show ?thesis using r unfolding if_not_P [OF low] if_not_P [OF False] n by blast
    qed
  next
    case 4
    then show ?thesis using magnitude(1) magnitude(2) rest(1) special(1) by (simp add: h_def)
  qed
qed

theorem half_rounds_to_nearest_witness:
  "2 * \<bar>half_value (f32_to_f16 0x3DCCCCCD) * 2 ^ 125 - float_value 0x3DCCCCCD\<bar> \<le> 2 ^ 135"
proof -
  have e: "uint (0x3DCCCCCD :: u32) div 8388608 mod 256 = 123" by code_simp
  have n: "nat (max 125 (123 + 12)) = 135" by simp
  have range: "\<not> \<bar>float_value 0x3DCCCCCD\<bar> < 2 ^ 125" "\<not> 65520 * 2 ^ 149 \<le> \<bar>float_value 0x3DCCCCCD\<bar>" by code_simp+
  show ?thesis using half_rounds_to_nearest [of "0x3DCCCCCD"]
    unfolding e n if_not_P [OF range(1)] if_not_P [OF range(2)] by linarith
qed

text \<open>
  Where the other converters differ. The encoder of \<open>tensor.cpp\<close> halves every subnormal, since it shifts the
  mantissa once too often; the decoder of \<open>codebook.cpp\<close> counts the exponent of a subnormal in the wrong
  direction and keeps the mantissa in 16 bits; the one of \<open>vector_quantizer.cpp\<close> does not normalise
  subnormals; the encoders of \<open>block_codec.cpp\<close> and \<open>vector_quantizer.cpp\<close> turn a NaN into an infinity; and the one of
  \<open>block_codec.cpp\<close> flushes what rounds up to the smallest subnormal.
\<close>

theorem half_converters_diverge:
  "tensor_float_to_half 0x38000000 = 0x100 \<and> half_value 0x100 * 2 ^ 126 = float_value 0x38000000 \<and>
   codebook_half_to_float 0x200 = 0x34000000 \<and> float_value 0x34000000 * 2 ^ 8 = half_value 0x200 * 2 ^ 125 \<and>
   vq_fp16_to_float 0x200 = 0x400000 \<and> float_value 0x400000 * 2 ^ 112 = half_value 0x200 * 2 ^ 125 \<and>
   f32_to_f16 0x7FC00000 = 0x7C00 \<and> vq_float_to_fp16 0x7FC00000 = 0x7C00 \<and>
   f32_to_f16 0x33400000 = 0 \<and> float_value 0x33400000 * 4 = 3 * 2 ^ 125"
  by code_simp

end
