(* ===== verification/Bit_Packing.thy ===== *)
theory Bit_Packing
  imports Prelude
begin

text \<open>
  The bit streams of \<open>src/codec/block_codec.cpp\<close>: the writer that puts values least significant bit first
  into a buffer of a fixed size, the reader that takes them out a window of eight bytes at a time, and
  the slots of a group that pay for its scale. The specification is the sequence of bits of the buffer.
\<close>

unbundle bit_operations_syntax

section \<open>The writer and the reader\<close>

record bit_writer =
  bw_bytes :: "u8 list"
  bw_bit :: nat

text \<open>The loop of \<open>put\<close> from bit \<open>i\<close> on; a failed check is \<open>None\<close>. A shift of 32 or more is undefined.\<close>

fun put_bits :: "u32 \<Rightarrow> nat \<Rightarrow> nat \<Rightarrow> bit_writer \<Rightarrow> bit_writer option" where
  "put_bits v i 0 bw = Some bw"
| "put_bits v i (Suc n) bw =
     (if \<not> bw_bit bw < length (bw_bytes bw) * 8 then None
      else
        (let k = bw_bit bw;
             bytes = (if v AND push_bit i 1 \<noteq> 0
                      then (bw_bytes bw)[k div 8 := bw_bytes bw ! (k div 8) OR push_bit (k mod 8) 1] else bw_bytes bw) in
         put_bits v (Suc i) n \<lparr>bw_bytes = bytes, bw_bit = Suc k\<rparr>))"

definition bit_put :: "u32 \<Rightarrow> nat \<Rightarrow> bit_writer \<Rightarrow> bit_writer option" where
  "bit_put v n bw = put_bits v 0 n bw"

record bit_reader =
  br_bytes :: "u8 list"
  br_bit :: nat

text \<open>Eight bytes in memory order, short ones padded with zeros.\<close>

definition window :: "u8 list \<Rightarrow> u64" where
  "window bs = fold (\<lambda>i w. w OR push_bit (8 * i) (ucast (bs ! i))) [0..<min 8 (length bs)] 0"

definition bit_get :: "nat \<Rightarrow> bit_reader \<Rightarrow> u32 \<times> bit_reader" where
  "bit_get n br =
     (let size = length (br_bytes br) in
      if br_bit br \<ge> size * 8 then (0, br)
      else
        (let byte = br_bit br div 8;
             off = br_bit br mod 8;
             w = window (drop byte (br_bytes br));
             msk = (if n \<ge> 64 then NOT 0 else push_bit n 1 - 1);
             stop = br_bit br + n in
         (ucast (drop_bit off w AND msk), br\<lparr>br_bit := if stop \<le> size * 8 then stop else size * 8\<rparr>)))"

definition is_slot :: "int \<Rightarrow> int \<Rightarrow> int \<Rightarrow> bool" where
  "is_slot local_index group_size slot_count =
     (if slot_count \<le> 0 \<or> group_size \<le> 0 then False
      else ((local_index + 1) * slot_count) div group_size \<noteq> (local_index * slot_count) div group_size)"

section \<open>The bits of a buffer\<close>

definition stream :: "u8 list \<Rightarrow> nat \<Rightarrow> bool" where
  "stream bytes j \<longleftrightarrow> j < length bytes * 8 \<and> bit (bytes ! (j div 8)) (j mod 8)"

lemma and_push_bit_1: "(v :: 'a::len word) AND push_bit i 1 \<noteq> 0 \<longleftrightarrow> bit v i"
  by (simp add: push_bit_eq_mult and_exp_eq_0_iff_not_bit)

lemma stream_set:
  assumes "k < length bytes * 8"
  shows "stream (bytes[k div 8 := bytes ! (k div 8) OR push_bit (k mod 8) 1]) j \<longleftrightarrow> stream bytes j \<or> j = k"
proof -
  have k: "k div 8 < length bytes" using assms by (simp add: div_less_iff_less_mult)
  have jk: "j = k \<longleftrightarrow> j div 8 = k div 8 \<and> j mod 8 = k mod 8" by (metis div_mult_mod_eq)
  have b: "bit (2 ^ (k mod 8) :: u8) (j mod 8) \<longleftrightarrow> j mod 8 = k mod 8" by (auto simp: bit_simps)
  show ?thesis
  proof (cases "j div 8 = k div 8")
    case True
    then have "j < length bytes * 8" using k by (simp add: div_less_iff_less_mult [symmetric])
    then show ?thesis using True k by (simp add: stream_def jk bit_or_iff b)
  qed (simp add: stream_def jk)
qed

text \<open>Writing adds the bits of the value at the position and keeps every other bit.\<close>

lemma put_bits_stream:
  "bw_bit bw + n \<le> length (bw_bytes bw) * 8 \<Longrightarrow>
     \<exists>bw'. put_bits v i n bw = Some bw' \<and> bw_bit bw' = bw_bit bw + n \<and> length (bw_bytes bw') = length (bw_bytes bw) \<and>
       (\<forall>j. stream (bw_bytes bw') j \<longleftrightarrow>
          stream (bw_bytes bw) j \<or> bw_bit bw \<le> j \<and> j < bw_bit bw + n \<and> bit v (i + (j - bw_bit bw)))"
proof (induction n arbitrary: i bw)
  case (Suc n)
  define k where "k = bw_bit bw"
  define bytes where "bytes = (if v AND push_bit i 1 \<noteq> 0
      then (bw_bytes bw)[k div 8 := bw_bytes bw ! (k div 8) OR push_bit (k mod 8) 1] else bw_bytes bw)"
  have k: "k < length (bw_bytes bw) * 8" using Suc.prems by (simp add: k_def)
  have s: "stream bytes j \<longleftrightarrow> stream (bw_bytes bw) j \<or> j = k \<and> bit v i" for j
    using stream_set [OF k] unfolding bytes_def and_push_bit_1 by (cases "bit v i") simp_all
  have "length bytes = length (bw_bytes bw)" by (simp add: bytes_def)
  then obtain bw' where bw': "put_bits v (Suc i) n \<lparr>bw_bytes = bytes, bw_bit = Suc k\<rparr> = Some bw'" "bw_bit bw' = Suc k + n"
      "length (bw_bytes bw') = length (bw_bytes bw)"
      "\<And>j. stream (bw_bytes bw') j \<longleftrightarrow> stream bytes j \<or> Suc k \<le> j \<and> j < Suc k + n \<and> bit v (Suc i + (j - Suc k))"
    using Suc.IH [of "\<lparr>bw_bytes = bytes, bw_bit = Suc k\<rparr>" "Suc i"] Suc.prems by (auto simp: k_def)
  have "stream (bw_bytes bw') j \<longleftrightarrow> stream (bw_bytes bw) j \<or> k \<le> j \<and> j < k + Suc n \<and> bit v (i + (j - k))" for j
  proof -
    consider "j < k" | "j = k" | "Suc k \<le> j" by linarith
    then show ?thesis
    proof cases
      case 3
      then have "Suc i + (j - Suc k) = i + (j - k)" by simp
      with 3 show ?thesis using bw'(4) [of j] s [of j] by auto
    qed (use bw'(4) [of j] s [of j] in auto)
  qed
  moreover have "put_bits v i (Suc n) bw = put_bits v (Suc i) n \<lparr>bw_bytes = bytes, bw_bit = Suc k\<rparr>"
    using k unfolding k_def bytes_def put_bits.simps Let_def by (simp only: not_True_eq_False if_False)
  then have "put_bits v i (Suc n) bw = Some bw'" by (simp only: bw'(1))
  ultimately show ?case using bw'(2,3) by (simp add: k_def)
qed auto

lemma bit_fold_window:
  fixes bs :: "u8 list"
  shows "n \<le> length bs \<Longrightarrow> n \<le> 8 \<Longrightarrow>
     bit (fold (\<lambda>i w. w OR push_bit (8 * i) (ucast (bs ! i))) [0..<n] (0 :: u64)) j \<longleftrightarrow> j < 8 * n \<and> bit (bs ! (j div 8)) (j mod 8)"
proof (induction n)
  case (Suc n)
  have "bit (push_bit (8 * n) (ucast (bs ! n)) :: u64) j \<longleftrightarrow> 8 * n \<le> j \<and> j < 8 * n + 8 \<and> bit (bs ! n) (j - 8 * n)"
    using Suc.prems(2) bit_imp_le_length [of "bs ! n" "j - 8 * n"] by (auto simp: bit_simps)
  moreover have "j div 8 = n \<and> j mod 8 = j - 8 * n" if "8 * n \<le> j" "j < 8 * n + 8"
  proof -
    have "j div 8 = n" using that by (intro div_nat_eqI) simp_all
    then show ?thesis using div_mult_mod_eq [of j 8] by linarith
  qed
  ultimately show ?case using Suc by (auto simp: bit_or_iff)
qed simp

lemma window_stream: "bit (window bs) j \<longleftrightarrow> j < 64 \<and> stream bs j"
proof -
  have "bit (window bs) j \<longleftrightarrow> j < 8 * min 8 (length bs) \<and> bit (bs ! (j div 8)) (j mod 8)"
    unfolding window_def by (rule bit_fold_window) simp_all
  then show ?thesis by (auto simp: stream_def)
qed

lemma stream_drop: "stream (drop b bytes) j \<longleftrightarrow> stream bytes (8 * b + j)"
  by (auto simp: stream_def add.commute)

text \<open>Reading up to 32 bits takes them off the stream; behind its end there are zeros.\<close>

lemma bit_get_stream:
  assumes "n \<le> 32"
  shows "bit (fst (bit_get n br)) i \<longleftrightarrow> i < n \<and> stream (br_bytes br) (br_bit br + i)"
    and "br_bit (snd (bit_get n br)) = (if br_bit br \<ge> length (br_bytes br) * 8 then br_bit br else min (br_bit br + n) (length (br_bytes br) * 8))"
    and "br_bytes (snd (bit_get n br)) = br_bytes br"
proof -
  have past: "\<not> stream (br_bytes br) (br_bit br + i)" if "br_bit br \<ge> length (br_bytes br) * 8"
    using that by (simp add: stream_def)
  have m: "bit ((push_bit n 1 - 1) :: u64) i \<longleftrightarrow> i < n"
  proof -
    have "bit ((push_bit n 1 - 1) :: u64) i \<longleftrightarrow> i < 64 \<and> i < n"
      by (simp add: mask_eq_exp_minus_1 [symmetric] bit_mask_iff)
    then show ?thesis using assms by linarith
  qed
  have "br_bit br = 8 * (br_bit br div 8) + br_bit br mod 8" by simp
  then have st: "stream (br_bytes br) (8 * (br_bit br div 8) + (br_bit br mod 8 + i)) \<longleftrightarrow> stream (br_bytes br) (br_bit br + i)"
    by (metis add.assoc)
  have "br_bit br mod 8 < 8" by simp
  then have "i < n \<Longrightarrow> br_bit br mod 8 + i < 64 \<and> i < 32" using assms by linarith
  then have "bit (ucast (drop_bit (br_bit br mod 8) (window (drop (br_bit br div 8) (br_bytes br))) AND (push_bit n 1 - 1)) :: u32) i
      \<longleftrightarrow> i < n \<and> stream (br_bytes br) (br_bit br + i)"
    unfolding bit_ucast_iff bit_and_iff bit_drop_bit_eq o_apply window_stream stream_drop st m by auto
  then show "bit (fst (bit_get n br)) i \<longleftrightarrow> i < n \<and> stream (br_bytes br) (br_bit br + i)"
    using assms past by (auto simp: bit_get_def Let_def)
qed (auto simp: bit_get_def Let_def)

section \<open>Round trip\<close>

fun put_all :: "(u32 \<times> nat) list \<Rightarrow> bit_writer \<Rightarrow> bit_writer option" where
  "put_all [] bw = Some bw"
| "put_all ((v, n) # vs) bw = Option.bind (bit_put v n bw) (put_all vs)"

fun get_all :: "nat list \<Rightarrow> bit_reader \<Rightarrow> u32 list" where
  "get_all [] br = []"
| "get_all (n # ns) br = (let (v, br) = bit_get n br in v # get_all ns br)"

text \<open>The bits of a sequence of values, and their number.\<close>

fun bits_of_values :: "(u32 \<times> nat) list \<Rightarrow> nat \<Rightarrow> bool" where
  "bits_of_values [] i \<longleftrightarrow> False"
| "bits_of_values ((v, n) # vs) i \<longleftrightarrow> (if i < n then bit v i else bits_of_values vs (i - n))"

definition total_bits :: "(u32 \<times> nat) list \<Rightarrow> nat" where
  "total_bits vs = sum_list (map snd vs)"

lemma bits_of_values_end: "total_bits vs \<le> i \<Longrightarrow> \<not> bits_of_values vs i"
  by (induction vs i rule: bits_of_values.induct) (simp_all add: total_bits_def)

lemma put_all_stream:
  "bw_bit bw + total_bits vs \<le> length (bw_bytes bw) * 8 \<Longrightarrow>
     \<exists>bw'. put_all vs bw = Some bw' \<and> length (bw_bytes bw') = length (bw_bytes bw) \<and> bw_bit bw' = bw_bit bw + total_bits vs \<and>
       (\<forall>j. stream (bw_bytes bw') j \<longleftrightarrow> stream (bw_bytes bw) j \<or> bw_bit bw \<le> j \<and> bits_of_values vs (j - bw_bit bw))"
proof (induction vs arbitrary: bw)
  case (Cons p vs)
  obtain v n where p: "p = (v, n)" by (rule prod.exhaust)
  have t: "total_bits (p # vs) = n + total_bits vs" by (simp add: p total_bits_def)
  obtain bw1 where bw1: "put_bits v 0 n bw = Some bw1" "bw_bit bw1 = bw_bit bw + n" "length (bw_bytes bw1) = length (bw_bytes bw)"
      "\<And>j. stream (bw_bytes bw1) j \<longleftrightarrow> stream (bw_bytes bw) j \<or> bw_bit bw \<le> j \<and> j < bw_bit bw + n \<and> bit v (0 + (j - bw_bit bw))"
    using put_bits_stream [of bw n v 0] Cons.prems t by auto
  then obtain bw2 where bw2: "put_all vs bw1 = Some bw2" "length (bw_bytes bw2) = length (bw_bytes bw)"
      "bw_bit bw2 = bw_bit bw1 + total_bits vs"
      "\<And>j. stream (bw_bytes bw2) j \<longleftrightarrow> stream (bw_bytes bw1) j \<or> bw_bit bw1 \<le> j \<and> bits_of_values vs (j - bw_bit bw1)"
    using Cons.IH [of bw1] Cons.prems t by auto
  have "stream (bw_bytes bw2) j \<longleftrightarrow> stream (bw_bytes bw) j \<or> bw_bit bw \<le> j \<and> bits_of_values (p # vs) (j - bw_bit bw)" for j
  proof -
    consider "j < bw_bit bw" | "bw_bit bw \<le> j" "j < bw_bit bw + n" | "bw_bit bw + n \<le> j" by linarith
    then show ?thesis
    proof cases
      case 3
      then have "j - bw_bit bw1 = j - bw_bit bw - n" "\<not> j - bw_bit bw < n" by (simp_all add: bw1(2))
      with 3 show ?thesis using bw1(2,4) bw2(4) by (simp add: p)
    qed (use bw1(2,4) bw2(4) in \<open>auto simp: p\<close>)
  qed
  then show ?case using bw1(1,2) bw2(1-3) t by (simp add: p bit_put_def)
qed (simp add: total_bits_def)

lemma get_all_values:
  "\<forall>(v, n) \<in> set vs. n \<le> 32 \<Longrightarrow> br_bit br + total_bits vs \<le> length (br_bytes br) * 8 \<Longrightarrow>
     \<forall>i < total_bits vs. stream (br_bytes br) (br_bit br + i) \<longleftrightarrow> bits_of_values vs i \<Longrightarrow>
     get_all (map snd vs) br = map (\<lambda>(v, n). take_bit n v) vs"
proof (induction vs arbitrary: br)
  case (Cons p vs)
  obtain v n where p: "p = (v, n)" by (rule prod.exhaust)
  have t: "total_bits (p # vs) = n + total_bits vs" by (simp add: p total_bits_def)
  have n: "n \<le> 32" using Cons.prems(1) by (simp add: p)
  obtain r br' where r: "bit_get n br = (r, br')" by (rule prod.exhaust)
  have bits: "bit r i \<longleftrightarrow> i < n \<and> stream (br_bytes br) (br_bit br + i)" for i
    using bit_get_stream(1) [OF n, of br i] by (simp add: r)
  have "stream (br_bytes br) (br_bit br + i) \<longleftrightarrow> bit v i" if "i < n" for i
    using Cons.prems(3) that unfolding t by (simp add: p)
  then have "r = take_bit n v" using bits by (intro bit_eqI) (auto simp: bit_take_bit_iff)
  moreover have br': "br_bytes br' = br_bytes br" "br_bit br' = br_bit br + n"
    using bit_get_stream(2,3) [OF n, of br] Cons.prems(2) t by (auto simp: r)
  have "stream (br_bytes br') (br_bit br' + i) \<longleftrightarrow> bits_of_values vs i" if "i < total_bits vs" for i
    using Cons.prems(3) [rule_format, of "n + i"] that unfolding t by (simp add: p br' add.assoc)
  then have "get_all (map snd vs) br' = map (\<lambda>(v, n). take_bit n v) vs"
    using Cons.prems(1,2) t by (intro Cons.IH) (simp_all add: br')
  ultimately show ?case by (simp add: p r)
qed simp

text \<open>
  C24: Packed values read back. A sequence of values, each with a width of at most 32 bits, written to a
  cleared buffer that has room for all of them passes every budget check, and reading the same
  widths from the start of the buffer yields the low bits of each value in order, wherever the byte
  boundaries and the windows of the reader fall.
\<close>

theorem packed_values_round_trip:
  assumes "\<forall>(v, n) \<in> set vs. n \<le> 32" and "sum_list (map snd vs) \<le> nbytes * 8"
  shows "\<exists>bw. put_all vs \<lparr>bw_bytes = replicate nbytes 0, bw_bit = 0\<rparr> = Some bw \<and> length (bw_bytes bw) = nbytes \<and>
    get_all (map snd vs) \<lparr>br_bytes = bw_bytes bw, br_bit = 0\<rparr> = map (\<lambda>(v, n). take_bit n v) vs"
proof -
  let ?bw = "\<lparr>bw_bytes = replicate nbytes 0, bw_bit = 0\<rparr>"
  have z: "\<not> stream (replicate nbytes 0) j" for j
    by (cases "j div 8 < nbytes") (auto simp: stream_def)
  obtain bw where bw: "put_all vs ?bw = Some bw" "length (bw_bytes bw) = nbytes"
      "\<And>j. stream (bw_bytes bw) j \<longleftrightarrow> bits_of_values vs j"
    using put_all_stream [of ?bw vs] assms(2) z by (auto simp: total_bits_def)
  have "get_all (map snd vs) \<lparr>br_bytes = bw_bytes bw, br_bit = 0\<rparr> = map (\<lambda>(v, n). take_bit n v) vs"
    using get_all_values [of vs "\<lparr>br_bytes = bw_bytes bw, br_bit = 0\<rparr>"] assms bw(2,3) by (simp add: total_bits_def)
  with bw(1,2) show ?thesis by blast
qed

theorem packed_values_round_trip_witness:
  "\<exists>bw. put_all [(5, 3), (0xFFFFFFFF, 32), (0x12345, 12)] \<lparr>bw_bytes = replicate 6 0, bw_bit = 0\<rparr> = Some bw \<and>
    get_all [3, 32, 12] \<lparr>br_bytes = bw_bytes bw, br_bit = 0\<rparr> = [5, 0xFFFFFFFF, 0x345]"
proof -
  have "map (\<lambda>(v, n). take_bit n v) [(5, 3), (0xFFFFFFFF, 32), (0x12345, 12)] = [5, 0xFFFFFFFF, 0x345 :: u32]" by code_simp
  then show ?thesis
    using packed_values_round_trip [of "[(5, 3), (0xFFFFFFFF, 32), (0x12345, 12)]" 6] by auto
qed

section \<open>Slots\<close>

lemma slot_steps:
  fixes s g :: int
  assumes "0 < s" and "s \<le> g"
  shows "(\<Sum>l < n. of_bool (is_slot (int l) g s)) = int n * s div g"
proof (induction n)
  case (Suc n)
  have "int n * s div g \<le> (int n * s + s) div g" using assms by (intro zdiv_mono1) simp_all
  moreover have "(int n * s + s) div g \<le> (int n * s + g) div g" using assms by (intro zdiv_mono1) simp_all
  moreover have "(int n * s + g) div g = int n * s div g + 1" using assms div_add_self2 [of g "int n * s"] by simp
  ultimately have "of_bool (is_slot (int n) g s) = (int n * s + s) div g - int n * s div g"
    using assms by (auto simp: is_slot_def algebra_simps)
  then show ?case using Suc.IH by (simp add: algebra_simps)
qed simp

text \<open>
  The slots of a group are as many as asked for: of the indices of a group, exactly \<open>slot_count\<close> are
  slots, and the first \<open>n\<close> indices hold a proportional share of them.
\<close>

theorem slots_counted:
  assumes "0 < s" and "s \<le> g"
  shows "card {l. l < nat g \<and> is_slot (int l) g s} = nat s" and
    "int (card {l. l < n \<and> is_slot (int l) g s}) = int n * s div g"
proof -
  have c: "int (card {l. l < n \<and> is_slot (int l) g s}) = int n * s div g" for n
  proof -
    have "{l. l < n \<and> is_slot (int l) g s} = {l \<in> {..<n}. is_slot (int l) g s}" by auto
    then have "int (card {l. l < n \<and> is_slot (int l) g s}) = (\<Sum>l < n. of_bool (is_slot (int l) g s))"
      by (simp add: sum.If_cases of_bool_def Int_def)
    then show ?thesis using slot_steps [OF assms] by simp
  qed
  have "int (nat g) * s div g = s" using assms by simp
  then show "card {l. l < nat g \<and> is_slot (int l) g s} = nat s" using c [of "nat g"] by linarith
  show "int (card {l. l < n \<and> is_slot (int l) g s}) = int n * s div g" by (rule c)
qed

end
