(* ===== verification/Batching.thy ===== *)
theory Batching
  imports Byte_Encoding "HOL-Library.Multiset"
begin

text \<open>
  Continuous batching of \<open>src/inference/inference_paging.cpp\<close>: a queue of requests, the lanes that
  decode together one token a step, and the response of the first lane that is done. The model's
  forward pass, the key/value cache it updates and the comparison of floats are parameters. The
  theorems show that a lane decodes as if it were alone, that every request is answered once, and
  what two lanes that are done in the same step do to each other.
\<close>

section \<open>The batcher\<close>

record batch_request =
  br_tokens :: "int list"
  br_max_tokens :: int
  br_id :: int

record batch_response =
  rs_text :: string
  rs_id :: int

text \<open>
  \<open>forward token pos cache\<close> is the logits of one token at one position, and the cache after it. A
  batcher without a model has zero logits of 32000 entries.
\<close>

record 'kv batch_env =
  be_model :: "(int \<Rightarrow> int \<Rightarrow> 'kv \<Rightarrow> u32 list \<times> 'kv) option"
  be_new_cache :: 'kv
  be_greater :: "u32 \<Rightarrow> u32 \<Rightarrow> bool"
  be_max_batch :: int

text \<open>The entries of \<open>active_\<close>, \<open>outputs_\<close> and \<open>kv_caches_\<close> at one index.\<close>

record 'kv lane =
  ln_request :: batch_request
  ln_output :: "int list"
  ln_cache :: 'kv

record 'kv batcher =
  cb_queue :: "batch_request list"
  cb_lanes :: "'kv lane list"

definition add_request :: "batch_request \<Rightarrow> 'kv batcher \<Rightarrow> 'kv batcher" where
  "add_request req cb = cb\<lparr>cb_queue := cb_queue cb @ [req]\<rparr>"

definition new_lane :: "'kv batch_env \<Rightarrow> batch_request \<Rightarrow> 'kv lane" where
  "new_lane ev req = \<lparr>ln_request = req, ln_output = [], ln_cache = be_new_cache ev\<rparr>"

fun admit :: "'kv batch_env \<Rightarrow> batch_request list \<Rightarrow> 'kv lane list \<Rightarrow> batch_request list \<times> 'kv lane list" where
  "admit ev [] lanes = ([], lanes)"
| "admit ev (req # queue) lanes =
     (if int (length lanes) < be_max_batch ev then admit ev queue (lanes @ [new_lane ev req])
      else (req # queue, lanes))"

text \<open>One lane's forward pass; \<open>back()\<close> of an empty vector is undefined.\<close>

definition lane_logits :: "'kv batch_env \<Rightarrow> 'kv lane \<Rightarrow> (u32 list \<times> 'kv) option" where
  "lane_logits ev ln =
     (case be_model ev of
        None \<Rightarrow> Some (replicate 32000 0, ln_cache ln)
      | Some forward \<Rightarrow>
         (let tokens = br_tokens (ln_request ln) in
          if tokens = [] then None
          else Some (forward (last tokens) (int (length tokens) - 1) (ln_cache ln))))"

fun all_logits :: "'kv batch_env \<Rightarrow> 'kv lane list \<Rightarrow> (u32 list \<times> 'kv) list option" where
  "all_logits ev [] = Some []"
| "all_logits ev (ln # lanes) =
     Option.bind (lane_logits ev ln) (\<lambda>r. Option.bind (all_logits ev lanes) (\<lambda>rs. Some (r # rs)))"

definition best_token :: "(u32 \<Rightarrow> u32 \<Rightarrow> bool) \<Rightarrow> nat \<Rightarrow> u32 list \<Rightarrow> nat" where
  "best_token gt V row = fold (\<lambda>v best. if gt (row ! v) (row ! best) then v else best) [1..<V] 0"

definition push_token :: "'kv batch_env \<Rightarrow> nat \<Rightarrow> u32 list \<times> 'kv \<Rightarrow> 'kv lane \<Rightarrow> 'kv lane" where
  "push_token ev V r ln =
     (let best = int (best_token (be_greater ev) V (fst r)); req = ln_request ln in
      ln\<lparr>ln_request := req\<lparr>br_tokens := br_tokens req @ [best]\<rparr>, ln_output := ln_output ln @ [best], ln_cache := snd r\<rparr>)"

definition lane_done :: "'kv lane \<Rightarrow> bool" where
  "lane_done ln \<longleftrightarrow> int (length (br_tokens (ln_request ln))) \<ge> br_max_tokens (ln_request ln)"

definition lane_response :: "'kv lane \<Rightarrow> batch_response" where
  "lane_response ln = \<lparr>rs_text = concat (map (\<lambda>t. dec_int t @ '' '') (ln_output ln)), rs_id = br_id (ln_request ln)\<rparr>"

text \<open>The first lane that is done leaves.\<close>

fun finish_first :: "'kv lane list \<Rightarrow> ('kv lane \<times> 'kv lane list) option" where
  "finish_first [] = None"
| "finish_first (ln # lanes) =
     (if lane_done ln then Some (ln, lanes)
      else map_option (\<lambda>(l, ls). (l, ln # ls)) (finish_first lanes))"

definition batch_step :: "'kv batch_env \<Rightarrow> 'kv batcher \<Rightarrow> (batch_response \<times> 'kv batcher) option" where
  "batch_step ev cb =
     (let (queue, lanes) = admit ev (cb_queue cb) (cb_lanes cb) in
      if lanes = [] then Some (\<lparr>rs_text = [], rs_id = 0\<rparr>, \<lparr>cb_queue = queue, cb_lanes = lanes\<rparr>)
      else
        Option.bind (all_logits ev lanes) (\<lambda>rs.
          (let V = length (fst (hd rs)) in
           if \<exists>r \<in> set rs. length (fst r) < V then None
           else
             (let lanes = map2 (push_token ev V) rs lanes in
              case finish_first lanes of
                Some (ln, lanes) \<Rightarrow> Some (lane_response ln, \<lparr>cb_queue = queue, cb_lanes = lanes\<rparr>)
              | None \<Rightarrow> Some (\<lparr>rs_text = [], rs_id = br_id (ln_request (hd lanes))\<rparr>, \<lparr>cb_queue = queue, cb_lanes = lanes\<rparr>)))))"

definition has_pending :: "'kv batcher \<Rightarrow> bool" where
  "has_pending cb \<longleftrightarrow> cb_queue cb \<noteq> [] \<or> cb_lanes cb \<noteq> []"

section \<open>A lane on its own\<close>

definition advance :: "'kv batch_env \<Rightarrow> 'kv lane \<Rightarrow> 'kv lane" where
  "advance ev ln =
     (case lane_logits ev ln of None \<Rightarrow> ln | Some r \<Rightarrow> push_token ev (length (fst r)) r ln)"

text \<open>The request after \<open>n\<close> steps of decoding with no other request present.\<close>

definition alone :: "'kv batch_env \<Rightarrow> batch_request \<times> nat \<Rightarrow> 'kv lane" where
  "alone ev = (\<lambda>(req, n). (advance ev ^^ n) (new_lane ev req))"

text \<open>The model has one vocabulary: what the forward pass documents of its output.\<close>

definition fixed_vocabulary :: "nat \<Rightarrow> 'kv batch_env \<Rightarrow> bool" where
  "fixed_vocabulary V ev \<longleftrightarrow>
     (case be_model ev of
        None \<Rightarrow> V = 32000
      | Some forward \<Rightarrow> \<forall>token pos kv. length (fst (forward token pos kv)) = V)"

definition needed :: "batch_request \<Rightarrow> nat" where
  "needed req = max 1 (nat (br_max_tokens req - int (length (br_tokens req))))"

lemma lane_logits_defined:
  assumes "fixed_vocabulary V ev" and "br_tokens (ln_request ln) \<noteq> []"
  obtains r where "lane_logits ev ln = Some r" and "length (fst r) = V"
  using assms by (cases "be_model ev") (auto simp: lane_logits_def fixed_vocabulary_def Let_def)

lemma push_token_request [simp]:
  "br_max_tokens (ln_request (push_token ev V r ln)) = br_max_tokens (ln_request ln)"
  "br_id (ln_request (push_token ev V r ln)) = br_id (ln_request ln)"
  "length (br_tokens (ln_request (push_token ev V r ln))) = Suc (length (br_tokens (ln_request ln)))"
  "length (ln_output (push_token ev V r ln)) = Suc (length (ln_output ln))"
  by (simp_all add: push_token_def Let_def)

lemma alone_Suc: "alone ev (req, Suc n) = advance ev (alone ev (req, n))"
  by (simp add: alone_def)

lemma alone_facts:
  assumes "fixed_vocabulary V ev" and "br_tokens req \<noteq> []"
  shows "length (br_tokens (ln_request (alone ev (req, n)))) = length (br_tokens req) + n \<and>
    length (ln_output (alone ev (req, n))) = n \<and>
    br_max_tokens (ln_request (alone ev (req, n))) = br_max_tokens req \<and> br_id (ln_request (alone ev (req, n))) = br_id req"
proof (induction n)
  case (Suc n)
  then have "br_tokens (ln_request (alone ev (req, n))) \<noteq> []" using assms(2) by auto
  then obtain r where "lane_logits ev (alone ev (req, n)) = Some r" using lane_logits_defined [OF assms(1)] by blast
  then show ?case using Suc by (simp add: alone_Suc advance_def)
qed (simp add: alone_def new_lane_def)

lemma lane_done_alone:
  assumes "fixed_vocabulary V ev" and "br_tokens req \<noteq> []" and "0 < n"
  shows "lane_done (alone ev (req, n)) \<longleftrightarrow> needed req \<le> n"
  using alone_facts [OF assms(1,2), of n] assms(3) by (auto simp: lane_done_def needed_def)

lemma response_text:
  assumes "fixed_vocabulary V ev" and "br_tokens req \<noteq> []" and "0 < n"
  shows "rs_text (lane_response (alone ev (req, n))) \<noteq> []"
  using alone_facts [OF assms(1,2), of n] assms(3) by (cases "ln_output (alone ev (req, n))") (auto simp: lane_response_def)

section \<open>One step of the batch\<close>

abbreviation lanes_of :: "'kv batch_env \<Rightarrow> (batch_request \<times> nat) list \<Rightarrow> 'kv lane list" where
  "lanes_of ev ps \<equiv> map (alone ev) ps"

lemma admit_lanes:
  "\<exists>adm queue'. queue = adm @ queue' \<and> admit ev queue (lanes_of ev ps) = (queue', lanes_of ev (ps @ map (\<lambda>r. (r, 0)) adm)) \<and>
     int (length adm) \<le> max 0 (be_max_batch ev - int (length ps)) \<and>
     (queue' = [] \<or> be_max_batch ev \<le> int (length ps + length adm))"
proof (induction queue arbitrary: ps)
  case (Cons req queue)
  show ?case
  proof (cases "int (length ps) < be_max_batch ev")
    case True
    have "lanes_of ev ps @ [new_lane ev req] = lanes_of ev (ps @ [(req, 0)])" by (simp add: alone_def)
    then have a: "admit ev (req # queue) (lanes_of ev ps) = admit ev queue (lanes_of ev (ps @ [(req, 0)]))"
      using True by simp
    obtain adm queue' where ih: "queue = adm @ queue'"
        "admit ev queue (lanes_of ev (ps @ [(req, 0)])) = (queue', lanes_of ev ((ps @ [(req, 0)]) @ map (\<lambda>r. (r, 0)) adm))"
        "int (length adm) \<le> max 0 (be_max_batch ev - int (length (ps @ [(req, 0)])))"
        "queue' = [] \<or> be_max_batch ev \<le> int (length (ps @ [(req, 0)]) + length adm)"
      using Cons.IH [of "ps @ [(req, 0)]"] by blast
    have "int (length (req # adm)) \<le> max 0 (be_max_batch ev - int (length ps))" using ih(3) True by simp
    moreover have "queue' = [] \<or> be_max_batch ev \<le> int (length ps + length (req # adm))" using ih(4) by simp
    ultimately show ?thesis using a ih(1,2) by (intro exI [of _ "req # adm"] exI [of _ queue']) simp
  qed (intro exI [of _ "[]"] exI [of _ "req # queue"], simp)
qed simp

text \<open>All lanes advance by one token, each as it would alone.\<close>

lemma push_lanes:
  assumes "fixed_vocabulary V ev" and "\<forall>p \<in> set ps. br_tokens (fst p) \<noteq> []"
  shows "\<exists>rs. all_logits ev (lanes_of ev ps) = Some rs \<and> length rs = length ps \<and> (\<forall>r \<in> set rs. length (fst r) = V) \<and>
    map2 (push_token ev V) rs (lanes_of ev ps) = lanes_of ev (map (\<lambda>(r, n). (r, Suc n)) ps)"
  using assms(2)
proof (induction ps)
  case (Cons p ps)
  obtain req n where p: "p = (req, n)" by (rule prod.exhaust)
  then have "br_tokens (ln_request (alone ev p)) \<noteq> []"
    using alone_facts [OF assms(1), of req n] Cons.prems by auto
  then obtain r where r: "lane_logits ev (alone ev p) = Some r" "length (fst r) = V"
    using lane_logits_defined [OF assms(1)] by blast
  then have "push_token ev V r (alone ev p) = alone ev (req, Suc n)" by (simp add: p alone_Suc advance_def)
  moreover obtain rs where "all_logits ev (lanes_of ev ps) = Some rs" "length rs = length ps" "\<forall>r \<in> set rs. length (fst r) = V"
      "map2 (push_token ev V) rs (lanes_of ev ps) = lanes_of ev (map (\<lambda>(r, n). (r, Suc n)) ps)"
    using Cons by auto
  ultimately show ?case using r p by (intro exI [of _ "r # rs"]) simp
qed simp

lemma finish_first_None: "finish_first lanes = None \<Longrightarrow> ln \<in> set lanes \<Longrightarrow> \<not> lane_done ln"
  by (induction lanes) (auto split: if_splits)

lemma finish_first_map:
  "finish_first (map f ps) = Some (ln, lanes) \<Longrightarrow>
     \<exists>xs p ys. ps = xs @ p # ys \<and> ln = f p \<and> lanes = map f (xs @ ys) \<and> lane_done (f p) \<and> (\<forall>x \<in> set xs. \<not> lane_done (f x))"
proof (induction ps arbitrary: lanes)
  case (Cons p ps)
  show ?case
  proof (cases "lane_done (f p)")
    case True
    with Cons.prems show ?thesis by (intro exI [of _ "[]"] exI [of _ p] exI [of _ ps]) simp
  next
    case False
    with Cons.prems obtain ls where l: "finish_first (map f ps) = Some (ln, ls)" "lanes = f p # ls" by auto
    then obtain xs q ys where "ps = xs @ q # ys \<and> ln = f q \<and> ls = map f (xs @ ys) \<and> lane_done (f q) \<and> (\<forall>x \<in> set xs. \<not> lane_done (f x))"
      using Cons.IH by blast
    then show ?thesis using False l(2) by (intro exI [of _ "p # xs"] exI [of _ q] exI [of _ ys]) simp
  qed
qed simp

text \<open>
  Between steps a lane at index \<open>i\<close> has at most \<open>needed + max_batch - 2 - i\<close> tokens: what lets a lane
  that is done wait is a lane before it that leaves.
\<close>

definition lanes_ok :: "'kv batch_env \<Rightarrow> (batch_request \<times> nat) list \<Rightarrow> bool" where
  "lanes_ok ev ps \<longleftrightarrow>
     int (length ps) \<le> be_max_batch ev \<and> (\<forall>p \<in> set ps. br_tokens (fst p) \<noteq> []) \<and>
     (\<forall>i < length ps. int (snd (ps ! i)) + int i + 2 \<le> int (needed (fst (ps ! i))) + be_max_batch ev)"

definition work :: "(batch_request \<times> nat) list \<Rightarrow> nat" where
  "work ps = (\<Sum>(req, n) \<leftarrow> ps. Suc (needed req - n))"

definition tick :: "(batch_request \<times> nat) list \<Rightarrow> (batch_request \<times> nat) list" where
  "tick ps = map (\<lambda>(r, n). (r, Suc n)) ps"

lemma work_simps [simp]:
  "work [] = 0" "work ((req, n) # ps) = Suc (needed req - n) + work ps" "work (ps @ qs) = work ps + work qs"
  by (simp_all add: work_def)

lemma tick_simps [simp]: "length (tick ps) = length ps" "tick (ps @ qs) = tick ps @ tick qs"
  "i < length ps \<Longrightarrow> tick ps ! i = (fst (ps ! i), Suc (snd (ps ! i)))"
  by (simp_all add: tick_def case_prod_beta)

lemma tick_set: "p \<in> set (tick ps) \<longleftrightarrow> (\<exists>n. p = (fst p, Suc n) \<and> (fst p, n) \<in> set ps)"
  by (force simp: tick_def)

lemma work_tick: "work (tick ps) \<le> work ps"
  by (induction ps) (auto simp: tick_def)

lemma work_tick_less: "ps \<noteq> [] \<Longrightarrow> \<forall>p \<in> set (tick ps). snd p < needed (fst p) \<Longrightarrow> work (tick ps) < work ps"
proof (cases ps)
  case (Cons p qs)
  obtain req n where p: "p = (req, n)" by (rule prod.exhaust)
  assume "\<forall>p \<in> set (tick ps). snd p < needed (fst p)"
  then have "Suc n < needed req" by (simp add: Cons p tick_def)
  moreover have "work (tick ps) = Suc (needed req - Suc n) + work (tick qs)" "work ps = Suc (needed req - n) + work qs"
    by (simp_all add: Cons p tick_def)
  ultimately show ?thesis using work_tick [of qs] by linarith
qed simp

text \<open>A step either answers one lane or brings every lane closer to its end.\<close>

lemma step_lanes:
  assumes vocab: "fixed_vocabulary V ev" and mb: "1 \<le> be_max_batch ev"
    and ok: "lanes_ok ev ps" and queue: "\<forall>r \<in> set queue. br_tokens r \<noteq> []" and pending: "queue \<noteq> [] \<or> ps \<noteq> []"
  shows "\<exists>adm queue' ps' resp. queue = adm @ queue' \<and>
    batch_step ev \<lparr>cb_queue = queue, cb_lanes = lanes_of ev ps\<rparr> = Some (resp, \<lparr>cb_queue = queue', cb_lanes = lanes_of ev ps'\<rparr>) \<and>
    lanes_ok ev ps' \<and>
    ((rs_text resp = [] \<and> ps' = tick (ps @ map (\<lambda>r. (r, 0)) adm) \<and> work ps' < work (ps @ map (\<lambda>r. (r, 0)) adm)) \<or>
     (\<exists>req n. mset (tick (ps @ map (\<lambda>r. (r, 0)) adm)) = add_mset (req, n) (mset ps') \<and> resp = lane_response (alone ev (req, n)) \<and>
        rs_text resp \<noteq> [] \<and> needed req \<le> n \<and> int n < int (needed req) + be_max_batch ev \<and>
        work ps' < work (ps @ map (\<lambda>r. (r, 0)) adm)))"
proof -
  obtain adm queue' where a: "queue = adm @ queue'"
      "admit ev queue (lanes_of ev ps) = (queue', lanes_of ev (ps @ map (\<lambda>r. (r, 0)) adm))"
      "int (length adm) \<le> max 0 (be_max_batch ev - int (length ps))" "queue' = [] \<or> be_max_batch ev \<le> int (length ps + length adm)"
    using admit_lanes [of queue ev ps] by blast
  define qs where "qs = ps @ map (\<lambda>r. (r, 0 :: nat)) adm"
  have len: "int (length qs) \<le> be_max_batch ev" using a(3) ok by (simp add: qs_def lanes_ok_def)
  have ne: "qs \<noteq> []" using a(1,4) mb pending by (auto simp: qs_def)
  have tok: "\<forall>p \<in> set qs. br_tokens (fst p) \<noteq> []" using ok queue a(1) by (auto simp: qs_def lanes_ok_def)
  have bound: "int (snd (qs ! i)) + int i + 2 \<le> int (needed (fst (qs ! i))) + be_max_batch ev" if "i < length qs" for i
  proof (cases "i < length ps")
    case False
    then have "fst (qs ! i) = adm ! (i - length ps)" "snd (qs ! i) = 0" using that by (simp_all add: qs_def nth_append)
    then show ?thesis using that len by (simp add: needed_def)
  qed (use ok in \<open>simp add: qs_def nth_append lanes_ok_def\<close>)
  obtain rs where rs: "all_logits ev (lanes_of ev qs) = Some rs" "length rs = length qs" "\<forall>r \<in> set rs. length (fst r) = V"
      "map2 (push_token ev V) rs (lanes_of ev qs) = lanes_of ev (tick qs)"
    using push_lanes [OF vocab tok] unfolding tick_def by blast
  have V: "length (fst (hd rs)) = V" "\<not> (\<exists>r \<in> set rs. length (fst r) < V)" using rs(2,3) ne by (cases rs; auto)+
  have nonempty: "lanes_of ev qs \<noteq> []" using ne by simp
  have step: "batch_step ev \<lparr>cb_queue = queue, cb_lanes = lanes_of ev ps\<rparr> =
      (case finish_first (lanes_of ev (tick qs)) of
         Some (ln, lanes) \<Rightarrow> Some (lane_response ln, \<lparr>cb_queue = queue', cb_lanes = lanes\<rparr>)
       | None \<Rightarrow> Some (\<lparr>rs_text = [], rs_id = br_id (ln_request (hd (lanes_of ev (tick qs))))\<rparr>,
                   \<lparr>cb_queue = queue', cb_lanes = lanes_of ev (tick qs)\<rparr>))"
    unfolding batch_step_def batcher.simps a(2) qs_def [symmetric] Let_def prod.case if_not_P [OF nonempty] rs(1) bind.bind_lunit
      V(1) if_not_P [OF V(2)] rs(4) by (rule refl)
  have done_iff: "lane_done (alone ev p) \<longleftrightarrow> needed (fst p) \<le> snd p" if "p \<in> set (tick qs)" for p
  proof -
    obtain n where n: "p = (fst p, Suc n)" "(fst p, n) \<in> set qs" using \<open>p \<in> set (tick qs)\<close> unfolding tick_set by blast
    then have "br_tokens (fst p) \<noteq> []" using tok by force
    then show ?thesis using lane_done_alone [OF vocab, of "fst p" "Suc n"] n(1) by (metis snd_conv zero_less_Suc)
  qed
  show ?thesis
  proof (cases "finish_first (lanes_of ev (tick qs))")
    case None
    have less: "snd p < needed (fst p)" if "p \<in> set (tick qs)" for p
      using finish_first_None [OF None, of "alone ev p"] that done_iff [OF that] by simp
    have "int (snd (tick qs ! i)) + int i + 2 \<le> int (needed (fst (tick qs ! i))) + be_max_batch ev" if "i < length qs" for i
      using less [of "tick qs ! i"] that len nth_mem [of i "tick qs"] by simp
    moreover have "\<forall>p \<in> set (tick qs). br_tokens (fst p) \<noteq> []" using tok by (force simp: tick_def)
    ultimately have "lanes_ok ev (tick qs)" using len by (simp add: lanes_ok_def)
    moreover have "work (tick qs) < work qs" using work_tick_less [OF ne] less by blast
    ultimately show ?thesis using a(1) step None unfolding qs_def by fastforce
  next
    case (Some r)
    obtain ln lanes where r: "r = (ln, lanes)" by (rule prod.exhaust)
    obtain xs p ys where f: "tick qs = xs @ p # ys" "ln = alone ev p" "lanes = lanes_of ev (xs @ ys)" "lane_done (alone ev p)"
        "\<forall>x \<in> set xs. \<not> lane_done (alone ev x)"
      using finish_first_map [OF Some [unfolded r]] by blast
    obtain req n where p: "p = (req, n)" by (rule prod.exhaust)
    have in_tick: "(req, n) \<in> set (tick qs)" "\<And>x. x \<in> set xs \<Longrightarrow> x \<in> set (tick qs)" "\<And>x. x \<in> set ys \<Longrightarrow> x \<in> set (tick qs)"
      using f(1) p by auto
    have enough: "needed req \<le> n" using done_iff [OF in_tick(1)] f(4) p by simp
    have size: "length qs = length xs + Suc (length ys)" using arg_cong [OF f(1), of length] by simp
    have at: "tick qs ! i = (if i < length xs then xs ! i else if i = length xs then (req, n) else ys ! (i - Suc (length xs)))" for i
      by (simp add: f(1) p nth_append nth_Cons')
    have few: "int n < int (needed req) + be_max_batch ev"
      using at [of "length xs"] bound [of "length xs"] size by (cases "qs ! length xs") simp
    have "int (snd ((xs @ ys) ! i)) + int i + 2 \<le> int (needed (fst ((xs @ ys) ! i))) + be_max_batch ev"
      if i: "i < length (xs @ ys)" for i
    proof (cases "i < length xs")
      case True
      then have "snd (xs ! i) < needed (fst (xs ! i))"
        using f(5) done_iff [OF in_tick(2)] nth_mem [OF True] by (meson not_le)
      then show ?thesis using True len size by (simp add: nth_append)
    next
      case False
      then have "(xs @ ys) ! i = tick qs ! Suc i" using at [of "Suc i"] by (simp add: nth_append)
      then show ?thesis using bound [of "Suc i"] i size by simp
    qed
    moreover have "\<forall>p \<in> set (xs @ ys). br_tokens (fst p) \<noteq> []"
      using tok in_tick unfolding tick_set by (metis Un_iff fst_conv set_append)
    ultimately have ok': "lanes_ok ev (xs @ ys)" using len size by (simp add: lanes_ok_def)
    have "work (xs @ ys) < work (tick qs)" by (simp add: f(1) p)
    then have w: "work (xs @ ys) < work qs" using work_tick [of qs] by linarith
    have "rs_text (lane_response (alone ev (req, n))) \<noteq> []"
      using response_text [OF vocab, of req n] tok in_tick(1) unfolding tick_set by fastforce
    moreover have "mset (tick qs) = add_mset (req, n) (mset (xs @ ys))" by (simp add: f(1) p)
    ultimately have answer: "mset (tick qs) = add_mset (req, n) (mset (xs @ ys)) \<and>
        lane_response (alone ev (req, n)) = lane_response (alone ev (req, n)) \<and>
        rs_text (lane_response (alone ev (req, n))) \<noteq> [] \<and> needed req \<le> n \<and> int n < int (needed req) + be_max_batch ev \<and>
        work (xs @ ys) < work qs"
      using w enough few by blast
    show ?thesis
    proof (intro exI conjI)
      show "queue = adm @ queue'" by (rule a(1))
      show "batch_step ev \<lparr>cb_queue = queue, cb_lanes = lanes_of ev ps\<rparr> =
          Some (lane_response (alone ev (req, n)), \<lparr>cb_queue = queue', cb_lanes = lanes_of ev (xs @ ys)\<rparr>)"
        unfolding step Some r f(2,3) p by simp
      show "lanes_ok ev (xs @ ys)" by (rule ok')
    qed (rule disjI2, rule exI, rule exI, rule answer [unfolded qs_def])
  qed
qed

section \<open>Every request is answered\<close>

text \<open>The client's loop: the responses of \<open>k\<close> steps. The ones with a text answer a request.\<close>

fun run_steps :: "'kv batch_env \<Rightarrow> nat \<Rightarrow> 'kv batcher \<Rightarrow> (batch_response list \<times> 'kv batcher) option" where
  "run_steps ev 0 cb = Some ([], cb)"
| "run_steps ev (Suc k) cb =
     Option.bind (batch_step ev cb) (\<lambda>(r, cb). Option.bind (run_steps ev k cb) (\<lambda>(rs, cb). Some (r # rs, cb)))"

definition answers :: "batch_response list \<Rightarrow> batch_response list" where
  "answers rs = filter (\<lambda>r. rs_text r \<noteq> []) rs"

definition fresh :: "batch_request list \<Rightarrow> (batch_request \<times> nat) list" where
  "fresh queue = map (\<lambda>r. (r, 0)) queue"

text \<open>What is answered in the end: each request after enough, and not too many, of its own steps.\<close>

definition answered :: "'kv batch_env \<Rightarrow> batch_request multiset \<Rightarrow> batch_response list \<Rightarrow> bool" where
  "answered ev reqs rs \<longleftrightarrow>
     (\<exists>M. image_mset fst M = reqs \<and> mset (answers rs) = image_mset (\<lambda>p. lane_response (alone ev p)) M \<and>
       (\<forall>(req, n) \<in># M. needed req \<le> n \<and> int n < int (needed req) + be_max_batch ev))"

lemma fst_tick: "mset (map fst (tick ps)) = mset (map fst ps)"
  by (simp add: tick_def case_prod_beta comp_def)

lemma run_answers:
  assumes "fixed_vocabulary V ev" and "1 \<le> be_max_batch ev"
  shows "lanes_ok ev ps \<Longrightarrow> \<forall>r \<in> set queue. br_tokens r \<noteq> [] \<Longrightarrow>
    \<exists>k rs cb. k \<le> work (ps @ fresh queue) \<and> run_steps ev k \<lparr>cb_queue = queue, cb_lanes = lanes_of ev ps\<rparr> = Some (rs, cb) \<and>
      \<not> has_pending cb \<and> answered ev (mset (map fst ps @ queue)) rs"
proof (induction "work (ps @ fresh queue)" arbitrary: ps queue rule: less_induct)
  case less
  show ?case
  proof (cases "queue \<noteq> [] \<or> ps \<noteq> []")
    case False
    have "run_steps ev 0 \<lparr>cb_queue = queue, cb_lanes = lanes_of ev ps\<rparr> = Some ([], \<lparr>cb_queue = queue, cb_lanes = lanes_of ev ps\<rparr>)"
      by simp
    moreover have "answered ev (mset (map fst ps @ queue)) []" using False by (simp add: answered_def answers_def)
    ultimately show ?thesis using False by (intro exI [of _ 0] exI [of _ "[]"] exI [of _ "\<lparr>cb_queue = [], cb_lanes = []\<rparr>"])
        (simp add: has_pending_def)
  next
    case True
    obtain adm queue' ps' resp where s: "queue = adm @ queue'"
        "batch_step ev \<lparr>cb_queue = queue, cb_lanes = lanes_of ev ps\<rparr> = Some (resp, \<lparr>cb_queue = queue', cb_lanes = lanes_of ev ps'\<rparr>)"
        "lanes_ok ev ps'" and
      alt: "(rs_text resp = [] \<and> ps' = tick (ps @ fresh adm) \<and> work ps' < work (ps @ fresh adm)) \<or>
        (\<exists>req n. mset (tick (ps @ fresh adm)) = add_mset (req, n) (mset ps') \<and> resp = lane_response (alone ev (req, n)) \<and>
          rs_text resp \<noteq> [] \<and> needed req \<le> n \<and> int n < int (needed req) + be_max_batch ev \<and> work ps' < work (ps @ fresh adm))"
      using step_lanes [OF assms less.prems True] unfolding fresh_def by blast
    have w: "work (ps' @ fresh queue') < work (ps @ fresh queue)" using alt by (auto simp: s(1) fresh_def)
    obtain k rs cb where ih: "k \<le> work (ps' @ fresh queue')" "run_steps ev k \<lparr>cb_queue = queue', cb_lanes = lanes_of ev ps'\<rparr> = Some (rs, cb)"
        "\<not> has_pending cb" "answered ev (mset (map fst ps' @ queue')) rs"
      using less.hyps [OF w s(3)] less.prems(2) s(1) by auto
    obtain M where M: "image_mset fst M = mset (map fst ps' @ queue')"
        "mset (answers rs) = image_mset (\<lambda>p. lane_response (alone ev p)) M"
        "\<forall>(req, n) \<in># M. needed req \<le> n \<and> int n < int (needed req) + be_max_batch ev"
      using ih(4) unfolding answered_def by blast
    have all: "mset (map fst ps @ queue) = mset (map fst (tick (ps @ fresh adm))) + mset queue'"
      by (simp only: fst_tick) (simp add: s(1) fresh_def comp_def)
    have "answered ev (mset (map fst ps @ queue)) (resp # rs)"
      using alt
    proof (elim disjE exE conjE)
      assume "rs_text resp = []" "ps' = tick (ps @ fresh adm)"
      then show ?thesis using M unfolding answered_def all by (intro exI [of _ M]) (simp add: answers_def)
    next
      fix req n
      assume r: "mset (tick (ps @ fresh adm)) = add_mset (req, n) (mset ps')" "resp = lane_response (alone ev (req, n))"
        "rs_text resp \<noteq> []" "needed req \<le> n" "int n < int (needed req) + be_max_batch ev"
      have "mset (map fst (tick (ps @ fresh adm))) = add_mset req (mset (map fst ps'))"
        using arg_cong [OF r(1), of "image_mset fst"] by simp
      then show ?thesis using M r(2-5) unfolding answered_def all by (intro exI [of _ "add_mset (req, n) M"]) (simp add: answers_def)
    qed
    then show ?thesis
      using s(2) ih w by (intro exI [of _ "Suc k"] exI [of _ "resp # rs"] exI [of _ cb]) simp
  qed
qed

text \<open>
  C13: Every request is answered. Whatever requests with a prompt are queued, and whatever the model
  computes, stepping the batcher as long as it has something pending ends, after at most one step per
  token still needed plus one per request. Each request is answered exactly once, with the tokens it would
  generate on its own with its own cache: at least as many as it asked for (and one), and fewer than
  \<open>max_batch\<close> more, which lanes that are done before it can cost.
\<close>

theorem batch_answers_all:
  assumes "fixed_vocabulary V ev" and "1 \<le> be_max_batch ev" and "\<forall>r \<in> set queue. br_tokens r \<noteq> []"
  shows "\<exists>k rs cb. k \<le> (\<Sum>req \<leftarrow> queue. Suc (needed req)) \<and>
    run_steps ev k (fold add_request queue \<lparr>cb_queue = [], cb_lanes = []\<rparr>) = Some (rs, cb) \<and> \<not> has_pending cb \<and>
    (\<exists>M. image_mset fst M = mset queue \<and> mset (answers rs) = image_mset (\<lambda>p. lane_response (alone ev p)) M \<and>
       (\<forall>(req, n) \<in># M. needed req \<le> n \<and> int n < int (needed req) + be_max_batch ev))"
proof -
  have q: "fold add_request queue \<lparr>cb_queue = xs, cb_lanes = ls\<rparr> = \<lparr>cb_queue = xs @ queue, cb_lanes = ls\<rparr>" for xs and ls :: "'a lane list"
    by (induction queue arbitrary: xs) (simp_all add: add_request_def)
  have "lanes_ok ev []" using assms(2) by (simp add: lanes_ok_def)
  moreover have "work (fresh queue) = (\<Sum>req \<leftarrow> queue. Suc (needed req))" by (simp add: work_def fresh_def comp_def)
  ultimately show ?thesis
    using run_answers [OF assms(1,2), of "[]" queue] assms(3) unfolding q answered_def by auto
qed

text \<open>A model of three tokens that counts its calls in the cache.\<close>

definition sample_model :: "int \<Rightarrow> int \<Rightarrow> nat \<Rightarrow> u32 list \<times> nat" where
  "sample_model token pos cache = ([0, of_nat cache, 1], Suc cache)"

definition sample_env :: "nat batch_env" where
  "sample_env = \<lparr>be_model = Some sample_model, be_new_cache = 0, be_greater = (\<lambda>x y. y < x), be_max_batch = 2\<rparr>"

definition sample_request :: "int \<Rightarrow> batch_request" where
  "sample_request i = \<lparr>br_tokens = [7], br_max_tokens = 3, br_id = i\<rparr>"

lemma sample_vocabulary: "fixed_vocabulary 3 sample_env"
  by (simp add: fixed_vocabulary_def sample_env_def sample_model_def)

theorem batch_answers_all_witness:
  "\<exists>k rs cb. k \<le> 6 \<and>
    run_steps sample_env k (fold add_request [sample_request 1, sample_request 2] \<lparr>cb_queue = [], cb_lanes = []\<rparr>) = Some (rs, cb) \<and>
    \<not> has_pending cb \<and> length (answers rs) = 2"
proof -
  have env: "1 \<le> be_max_batch sample_env" "\<forall>r \<in> set [sample_request 1, sample_request 2]. br_tokens r \<noteq> []"
    "(\<Sum>req \<leftarrow> [sample_request 1, sample_request 2]. Suc (needed req)) = 6" by code_simp+
  obtain k rs cb M where k: "k \<le> (\<Sum>req \<leftarrow> [sample_request 1, sample_request 2]. Suc (needed req))"
      "run_steps sample_env k (fold add_request [sample_request 1, sample_request 2] \<lparr>cb_queue = [], cb_lanes = []\<rparr>) = Some (rs, cb)"
      "\<not> has_pending cb"
      "image_mset fst M = mset [sample_request 1, sample_request 2]"
      "mset (answers rs) = image_mset (\<lambda>p. lane_response (alone sample_env p)) M"
    using batch_answers_all [OF sample_vocabulary env(1,2)] by blast
  have "length (answers rs) = size M" using arg_cong [OF k(5), of size] by simp
  also have "\<dots> = 2" using arg_cong [OF k(4), of size] by simp
  finally show ?thesis using k(1-3) env(3) by (intro exI [of _ k] exI [of _ rs] exI [of _ cb]) simp
qed

text \<open>
  What waiting costs. Two requests that need two tokens each are done in the same step; only the first
  leaves, and the second is answered one step later with a third token beyond its limit.
\<close>

theorem batch_overshoots:
  "map_option (\<lambda>(rs, cb). map (\<lambda>r. (rs_id r, rs_text r)) rs)
      (run_steps sample_env 3 (fold add_request [sample_request 1, sample_request 2] \<lparr>cb_queue = [], cb_lanes = []\<rparr>)) =
    Some [(1, []), (1, ''2 1 ''), (2, ''2 1 1 '')]"
  by code_simp

section \<open>The scheduler\<close>

record sched_request =
  sr_id :: int
  sr_tokens :: "int list"
  sr_priority :: int
  sr_deadline :: int

text \<open>The comparison of the priority queue: \<open>a\<close> is less urgent than \<open>b\<close>.\<close>

definition sched_before :: "sched_request \<Rightarrow> sched_request \<Rightarrow> bool" where
  "sched_before a b =
     (if sr_priority a \<noteq> sr_priority b then sr_priority a < sr_priority b else sr_deadline a > sr_deadline b)"

definition sched_add :: "sched_request \<Rightarrow> sched_request list \<Rightarrow> sched_request list" where
  "sched_add req queue = queue @ [req]"

text \<open>
  The top of the priority queue; of several that are equally urgent the library may take any, here the one
  added first. The top of an empty queue is undefined.
\<close>

definition sched_top :: "sched_request list \<Rightarrow> sched_request" where
  "sched_top queue = fold (\<lambda>r best. if sched_before best r then r else best) (tl queue) (hd queue)"

definition sched_next :: "sched_request list \<Rightarrow> (sched_request \<times> sched_request list) option" where
  "sched_next queue = (if queue = [] then None else Some (sched_top queue, remove1 (sched_top queue) queue))"

fun drain :: "nat \<Rightarrow> sched_request list \<Rightarrow> sched_request list" where
  "drain 0 queue = []"
| "drain (Suc n) queue = (case sched_next queue of None \<Rightarrow> [] | Some (r, queue) \<Rightarrow> r # drain n queue)"

lemma sched_not_before_trans: "\<not> sched_before a b \<Longrightarrow> \<not> sched_before b c \<Longrightarrow> \<not> sched_before a c"
  by (auto simp: sched_before_def split: if_splits)

lemma sched_fold:
  "fold (\<lambda>r best. if sched_before best r then r else best) rs x \<in> set (x # rs) \<and>
   (\<forall>r \<in> set (x # rs). \<not> sched_before (fold (\<lambda>r best. if sched_before best r then r else best) rs x) r)"
proof (induction rs arbitrary: x)
  case (Cons r rs)
  show ?case
  proof (cases "sched_before x r")
    case True
    then have "\<not> sched_before r x" by (auto simp: sched_before_def split: if_splits)
    then show ?thesis using Cons.IH [of r] True sched_not_before_trans [of _ r x] by auto
  next
    case False
    then show ?thesis using Cons.IH [of x] sched_not_before_trans [of _ x r] by auto
  qed
qed (simp add: sched_before_def)

lemma sched_top_urgent: "queue \<noteq> [] \<Longrightarrow> sched_top queue \<in> set queue \<and> (\<forall>r \<in> set queue. \<not> sched_before (sched_top queue) r)"
  using sched_fold [of "tl queue" "hd queue"] by (simp add: sched_top_def)

lemma drain_sorted:
  "length queue \<le> n \<Longrightarrow> mset (drain n queue) = mset queue \<and> sorted_wrt (\<lambda>a b. \<not> sched_before a b) (drain n queue)"
proof (induction n arbitrary: queue)
  case (Suc n)
  show ?case
  proof (cases "queue = []")
    case False
    note top = sched_top_urgent [OF False]
    have ih: "mset (drain n (remove1 (sched_top queue) queue)) = mset (remove1 (sched_top queue) queue) \<and>
        sorted_wrt (\<lambda>a b. \<not> sched_before a b) (drain n (remove1 (sched_top queue) queue))"
      using Suc top by (intro Suc.IH) (simp add: length_remove1)
    then have "set (drain n (remove1 (sched_top queue) queue)) \<subseteq> set queue"
      using set_remove1_subset by (metis set_mset_mset)
    then show ?thesis using ih top False by (auto simp: sched_next_def)
  qed (simp add: sched_next_def)
qed simp

text \<open>
  The scheduler serves by priority and then by deadline: draining a queue hands out exactly its
  requests, none after a less urgent one.
\<close>

theorem scheduler_serves_urgent_first:
  "mset (drain (length reqs) (fold sched_add reqs [])) = mset reqs \<and>
   sorted_wrt (\<lambda>a b. sr_priority b < sr_priority a \<or> sr_priority b = sr_priority a \<and> sr_deadline a \<le> sr_deadline b)
     (drain (length reqs) (fold sched_add reqs []))"
proof -
  have "fold sched_add reqs xs = xs @ reqs" for xs by (induction reqs arbitrary: xs) (simp_all add: sched_add_def)
  then have q: "fold sched_add reqs [] = reqs" by simp
  have "(\<lambda>a b. sr_priority b < sr_priority a \<or> sr_priority b = sr_priority a \<and> sr_deadline a \<le> sr_deadline b) =
      (\<lambda>a b. \<not> sched_before a b)"
    by (intro ext) (auto simp: sched_before_def)
  then show ?thesis using drain_sorted [of reqs "length reqs"] q by simp
qed

end
