(* ===== verification/Speculative.thy ===== *)
theory Speculative
  imports Kv_Cache
begin

text \<open>
  \<open>SpeculativeDecoder\<close> of src/src/inference/speculative_decoder.cpp: the draft-and-verify step with its
  checkpoint of the key/value cache (the model of theory Kv_Cache), the tuner of the draft length,
  and the generation loop. The draft and the target model are parameters, the latter together with
  \<open>sample_token\<close>, whose arithmetic is on floats: a context and a state of the random generator give
  a token and the next state. The comparison of the acceptance rate with its target is a parameter
  too. The counters of the telemetry hooks are left out, and the hooks are taken to be compiled in.
\<close>

record 'r models =
  propose :: "int list \<Rightarrow> int \<Rightarrow> int list"
  next_token :: "int list \<Rightarrow> 'r \<Rightarrow> int \<times> 'r"
  rate_verdict :: "int \<Rightarrow> int \<Rightarrow> int"

text \<open>\<open>rate_verdict accepted proposed\<close> is positive when the rate is above the target by the margin of the
  tuner, negative when it is below, zero in between.\<close>

record decoder =
  draft_k :: int
  min_draft_k :: int
  max_draft_k :: int
  total_accepted :: int
  total_proposed :: int

record step_result =
  accepted :: "int list"
  rejected :: int
  proposed :: int

section \<open>The cache\<close>

definition checkpoint_kv :: "kv_cache option \<Rightarrow> nat option" where
  "checkpoint_kv cache = map_option kv_context_len cache"

text \<open>Rewinding is clamped to the checkpoint. An access outside the cache is the outer \<open>None\<close>.\<close>

definition rewind_kv :: "kv_cache option \<Rightarrow> nat option \<Rightarrow> nat \<Rightarrow> kv_cache option option" where
  "rewind_kv cache ckpt new_len =
    (case (cache, ckpt) of
       (Some kv, Some saved) \<Rightarrow>
         map_option Some (kv_truncate (int (if saved < new_len then saved else new_len)) kv)
     | _ \<Rightarrow> Some cache)"

section \<open>One step\<close>

text \<open>The verification loop at the draft tokens \<open>seen @ rest\<close>, of which \<open>seen\<close> were accepted and are in the
  context already. The model is asked about the context followed by all draft tokens up to the
  current one.\<close>

fun verify :: "'r models \<Rightarrow> int list \<Rightarrow> int list \<Rightarrow> int list \<Rightarrow> 'r \<Rightarrow> int list \<times> step_result \<times> 'r" where
  "verify m seen [] ctx r = (ctx, \<lparr>accepted = [], rejected = 0, proposed = 0\<rparr>, r)"
| "verify m seen (d # rest) ctx r =
    (let (tok, r') = next_token m (ctx @ seen @ [d]) r in
     if d = tok then
       (let (ctx', res, r'') = verify m (seen @ [d]) rest (ctx @ [d]) r'
        in (ctx', res\<lparr>accepted := d # accepted res, proposed := proposed res + 1\<rparr>, r''))
     else (ctx @ [tok], \<lparr>accepted = [], rejected = 1, proposed = 1\<rparr>, r'))"

definition tune_draft_k :: "'r models \<Rightarrow> decoder \<Rightarrow> int" where
  "tune_draft_k m dec =
    (let verdict = rate_verdict m (total_accepted dec) (total_proposed dec);
         k1 = (if 0 < verdict then draft_k dec + 1 else if verdict < 0 then draft_k dec - 1 else draft_k dec);
         k2 = (if k1 < min_draft_k dec then min_draft_k dec else k1)
     in if max_draft_k dec < k2 then max_draft_k dec else k2)"

definition update_draft_k :: "decoder \<Rightarrow> int \<Rightarrow> decoder" where
  "update_draft_k dec new_k = dec\<lparr>draft_k := max (min_draft_k dec) (min (max_draft_k dec) new_k)\<rparr>"

definition decode_step :: "'r models \<Rightarrow> decoder \<Rightarrow> int list \<Rightarrow> kv_cache option \<Rightarrow> 'r
    \<Rightarrow> (step_result \<times> decoder \<times> int list \<times> kv_cache option \<times> 'r) option" where
  "decode_step m dec ctx cache r =
    (let ckpt = checkpoint_kv cache;
         drafts = propose m ctx (draft_k dec);
         (ctx', res, r') = verify m [] drafts ctx r;
         dec' = dec\<lparr>total_accepted := total_accepted dec + int (length (accepted res)),
                    total_proposed := total_proposed dec + proposed res\<rparr>;
         dec'' = dec'\<lparr>draft_k := tune_draft_k m dec'\<rparr>
     in case (if rejected res = 0 then Some cache
              else rewind_kv cache ckpt (length ctx + length (accepted res))) of
          None \<Rightarrow> None
        | Some cache' \<Rightarrow> Some (res, dec'', ctx', cache', r'))"

section \<open>Generation\<close>

lemma verify_spec:
  "verify m seen drafts ctx r = (ctx', res, r') \<Longrightarrow>
    ctx' = ctx @ accepted res @ (if rejected res = 0 then [] else [last ctx']) \<and>
    accepted res = take (length (accepted res)) drafts \<and>
    (rejected res = 0 \<or> rejected res = 1) \<and> (rejected res = 0 \<longrightarrow> accepted res = drafts) \<and>
    proposed res = int (length (accepted res)) + rejected res"
proof (induction drafts arbitrary: seen ctx r ctx' res r')
  case (Cons d rest)
  obtain tok r1 where t: "next_token m (ctx @ seen @ [d]) r = (tok, r1)" by force
  show ?case
  proof (cases "d = tok")
    case False
    with Cons.prems t show ?thesis by auto
  next
    case True
    obtain ctx1 res1 r2 where v: "verify m (seen @ [d]) rest (ctx @ [d]) r1 = (ctx1, res1, r2)"
      by (metis surj_pair)
    with Cons.prems t True have "ctx' = ctx1"
      "res = res1\<lparr>accepted := d # accepted res1, proposed := proposed res1 + 1\<rparr>" by auto
    with Cons.IH [OF v] show ?thesis by (auto split: if_splits)
  qed
qed auto

lemma verify_progress:
  "verify m seen drafts ctx r = (ctx', res, r') \<Longrightarrow>
    (rejected res = 0 \<or> rejected res = 1) \<and> (accepted res = [] \<and> rejected res = 0 \<longrightarrow> proposed res = 0)"
  by (drule verify_spec) simp

lemma decode_step_progress:
  "decode_step m dec ctx cache r = Some (res, dec', ctx', cache', r') \<Longrightarrow>
    (rejected res = 0 \<or> rejected res = 1) \<and> (accepted res = [] \<and> rejected res = 0 \<longrightarrow> proposed res = 0)"
  by (auto simp: decode_step_def Let_def dest!: verify_progress split: prod.splits option.splits)

text \<open>\<open>n\<close> tokens are still wanted; the accepted ones are taken until they are there, then a rejected
  step adds the last token of the context.\<close>

function generate_loop :: "'r models \<Rightarrow> nat \<Rightarrow> decoder \<Rightarrow> int list \<Rightarrow> kv_cache option \<Rightarrow> 'r \<Rightarrow> int list option" where
  "generate_loop m n dec ctx cache r =
    (if n = 0 then Some []
     else (case decode_step m dec ctx cache r of
             None \<Rightarrow> None
           | Some (res, dec', ctx', cache', r') \<Rightarrow>
               let taken = take n (accepted res) @ (if 0 < rejected res then [last ctx'] else []) in
               if proposed res = 0 then Some taken
               else map_option ((@) taken) (generate_loop m (n - length taken) dec' ctx' cache' r')))"
  by pat_completeness auto
termination
proof (relation "measure (\<lambda>(m, n, _). n)")
  fix m :: "'r models" and n dec ctx cache r x res y dec' z ctx' u cache' r' taken
  assume a: "n \<noteq> 0" "decode_step m dec ctx cache r = Some x" "(res, y) = x" "(dec', z) = y"
    "(ctx', u) = z" "(cache', r') = u"
    "taken = take n (accepted res) @ (if 0 < rejected res then [last ctx'] else [])" "proposed res \<noteq> 0"
  then have "decode_step m dec ctx cache r = Some (res, dec', ctx', cache', r')" by simp
  from decode_step_progress [OF this] a have "accepted res \<noteq> [] \<or> 0 < rejected res" by auto
  then have "0 < length taken"
    using a(1,7) by auto
  with a(1) show "((m, n - length taken, dec', ctx', cache', r'), m, n, dec, ctx, cache, r)
      \<in> measure (\<lambda>(m, n, _). n)" by simp
qed simp

declare generate_loop.simps [simp del]

definition generate :: "'r models \<Rightarrow> decoder \<Rightarrow> int list \<Rightarrow> nat \<Rightarrow> kv_cache option \<Rightarrow> 'r \<Rightarrow> int list option" where
  "generate m dec prompt max_tokens cache r = generate_loop m max_tokens dec prompt cache r"

section \<open>Small-batch verification\<close>

text \<open>\<open>token_match\<close> compares the positions of the first maxima of two rows of logits; the row type is
  any linear order (floats that are not NaN).\<close>

fun argmax_from :: "nat \<Rightarrow> nat \<Rightarrow> 'a::linorder \<Rightarrow> 'a list \<Rightarrow> nat" where
  "argmax_from i best m [] = best"
| "argmax_from i best m (x # xs) =
    (if m < x then argmax_from (i + 1) i x xs else argmax_from (i + 1) best m xs)"

definition token_match :: "'a::linorder list \<Rightarrow> 'a list \<Rightarrow> bool" where
  "token_match draft target =
    (if draft = [] \<or> target = [] then False
     else if length draft \<noteq> length target then False
     else argmax_from 1 0 (hd draft) (tl draft) = argmax_from 1 0 (hd target) (tl target))"

record verification =
  v_accepted :: "bool list"
  v_total :: nat
  v_first_rejection :: nat

function verify_rows :: "nat \<Rightarrow> nat \<Rightarrow> 'a::linorder list list \<Rightarrow> 'a list list \<Rightarrow> verification \<Rightarrow> verification" where
  "verify_rows i n ds ts res =
    (if i < n then
       (if token_match (ds ! i) (ts ! i) then
          verify_rows (i + 1) n ds ts
            (res\<lparr>v_accepted := (v_accepted res)[i := True], v_total := v_total res + 1\<rparr>)
        else res\<lparr>v_first_rejection := i\<rparr>)
     else res)"
  by pat_completeness auto
termination
  by (relation "measure (\<lambda>(i, n, _). n - i)") auto

declare verify_rows.simps [simp del]

definition verify_batch :: "nat \<Rightarrow> 'a::linorder list list \<Rightarrow> 'a list list \<Rightarrow> verification" where
  "verify_batch max_batch draft_logits target_logits =
    (let n = min max_batch (min (length draft_logits) (length target_logits)) in
     verify_rows 0 n draft_logits target_logits
       \<lparr>v_accepted = replicate n False, v_total = 0, v_first_rejection = n\<rparr>)"

end
