(* ===== verification/Speculative_Correct.thy ===== *)
theory Speculative_Correct
  imports Speculative
begin

text \<open>
  What the speculative decoder does. A step appends the accepted draft tokens and at most one token of
  the target, keeps the cache well-formed and the draft length within its limits; generation returns.
  The last section is about what it should not do: each token is drawn for the wrong context.
\<close>

section \<open>The cache\<close>

lemma layer_truncate_ok:
  "layer_ok h d m c \<Longrightarrow> \<exists>c'. layer_truncate h d m n c = Some c' \<and> layer_ok h d m c' \<and> lc_pos c' \<le> lc_pos c"
proof (cases "n < lc_pos c")
  case True
  assume "layer_ok h d m c"
  from layer_truncate_spec [OF this True] True show ?thesis by (metis less_imp_le)
qed (simp add: layer_truncate_def)

lemma map_layers_ok:
  "\<forall>c \<in> set cs. \<exists>c'. f c = Some c' \<and> P c' \<and> lc_pos c' \<le> lc_pos c \<Longrightarrow>
    \<exists>cs'. map_layers f cs = Some cs' \<and> list_all2 (\<lambda>c' c. P c' \<and> lc_pos c' \<le> lc_pos c) cs' cs"
  by (induction cs) auto

lemma kv_truncate_ok:
  assumes "kv_ok kv"
  shows "\<exists>kv'. kv_truncate n kv = Some kv' \<and> kv_ok kv' \<and> kv_context_len kv' \<le> kv_context_len kv"
proof -
  let ?ok = "layer_ok (kv_heads kv) (kv_dim kv) (kv_max kv)"
  have "\<forall>c \<in> set (kv_caches kv). \<exists>c'. layer_truncate (kv_heads kv) (kv_dim kv) (kv_max kv) (nat n) c = Some c'
      \<and> ?ok c' \<and> lc_pos c' \<le> lc_pos c"
    using assms layer_truncate_ok by (auto simp: kv_ok_def)
  from map_layers_ok [OF this] obtain cs where
    cs: "map_layers (layer_truncate (kv_heads kv) (kv_dim kv) (kv_max kv) (nat n)) (kv_caches kv) = Some cs"
      "list_all2 (\<lambda>c' c. ?ok c' \<and> lc_pos c' \<le> lc_pos c) cs (kv_caches kv)" by blast
  have "length cs = length (kv_caches kv)" "\<forall>c \<in> set cs. ?ok c"
    using cs(2) by (auto simp: list_all2_conv_all_nth in_set_conv_nth)
  moreover have "kv_context_len (kv\<lparr>kv_caches := cs\<rparr>) \<le> kv_context_len kv"
    using cs(2) by (cases cs; cases "kv_caches kv") (auto simp: kv_context_len_def)
  ultimately show ?thesis
    using assms cs(1) by (auto simp: kv_truncate_def kv_ok_def)
qed

definition cache_ok :: "kv_cache option \<Rightarrow> bool" where
  "cache_ok cache = (case cache of None \<Rightarrow> True | Some kv \<Rightarrow> kv_ok kv)"

lemma rewind_kv_ok: "cache_ok cache \<Longrightarrow> \<exists>cache'. rewind_kv cache ckpt n = Some cache' \<and> cache_ok cache'"
  using kv_truncate_ok by (fastforce simp: rewind_kv_def cache_ok_def split: option.splits)

section \<open>One step\<close>

text \<open>
  With a well-formed cache, or none, a step is defined. It extends the context by a prefix of the
  draft, all of it unless a token was rejected, and then by one token of the target; it leaves a
  well-formed cache and a draft length within the configured limits.
\<close>

lemma decode_step_ok:
  assumes "cache_ok cache" "min_draft_k dec \<le> max_draft_k dec"
  shows "\<exists>res dec' ctx' cache' r'. decode_step m dec ctx cache r = Some (res, dec', ctx', cache', r') \<and>
    accepted res = take (length (accepted res)) (propose m ctx (draft_k dec)) \<and>
    ctx' = ctx @ accepted res @ (if rejected res = 0 then [] else [last ctx']) \<and>
    (rejected res = 0 \<and> accepted res = propose m ctx (draft_k dec) \<or> rejected res = 1) \<and>
    cache_ok cache' \<and> min_draft_k dec' \<le> draft_k dec' \<and> draft_k dec' \<le> max_draft_k dec' \<and>
    min_draft_k dec' = min_draft_k dec \<and> max_draft_k dec' = max_draft_k dec"
proof -
  obtain ctx' res r' where v: "verify m [] (propose m ctx (draft_k dec)) ctx r = (ctx', res, r')"
    by (metis surj_pair)
  obtain cache' where c: "(if rejected res = 0 then Some cache
      else rewind_kv cache (checkpoint_kv cache) (length ctx + length (accepted res))) = Some cache'"
    "cache_ok cache'"
    using rewind_kv_ok [OF assms(1)] assms(1) by (cases "rejected res = 0") auto
  define dec1 where "dec1 = dec\<lparr>total_accepted := total_accepted dec + int (length (accepted res)),
    total_proposed := total_proposed dec + proposed res\<rparr>"
  have "decode_step m dec ctx cache r = Some (res, dec1\<lparr>draft_k := tune_draft_k m dec1\<rparr>, ctx', cache', r')"
    using c(1) by (simp add: decode_step_def v Let_def dec1_def)
  moreover have "min_draft_k dec \<le> tune_draft_k m dec1" "tune_draft_k m dec1 \<le> max_draft_k dec"
    using assms(2) by (auto simp: tune_draft_k_def Let_def dec1_def)
  moreover have "rejected res = 0 \<and> accepted res = propose m ctx (draft_k dec) \<or> rejected res = 1"
    using verify_spec [OF v] by (cases "rejected res = 0") simp_all
  moreover have "accepted res = take (length (accepted res)) (propose m ctx (draft_k dec))"
    "ctx' = ctx @ accepted res @ (if rejected res = 0 then [] else [last ctx'])"
    using verify_spec [OF v] by blast+
  ultimately show ?thesis
    using c(2)
    by (intro exI [of _ res] exI [of _ "dec1\<lparr>draft_k := tune_draft_k m dec1\<rparr>"] exI [of _ ctx']
        exI [of _ cache'] exI [of _ r'] conjI) (simp_all add: dec1_def)
qed

section \<open>Generation\<close>

lemma generate_loop_ok:
  assumes "cache_ok cache" "min_draft_k dec \<le> max_draft_k dec"
  shows "\<exists>toks. generate_loop m n dec ctx cache r = Some toks \<and> length toks \<le> n + 1"
  using assms
proof (induction n arbitrary: dec ctx cache r rule: less_induct)
  case (less n)
  show ?case
  proof (cases "n = 0")
    case False
    obtain res dec' ctx' cache' r' where s: "decode_step m dec ctx cache r = Some (res, dec', ctx', cache', r')"
      and ok: "cache_ok cache'" "min_draft_k dec' \<le> max_draft_k dec'"
      using decode_step_ok [OF less.prems, of m ctx r] by (metis order_trans)
    define taken where "taken = take n (accepted res) @ (if 0 < rejected res then [last ctx'] else [])"
    have unfold: "generate_loop m n dec ctx cache r =
        (if proposed res = 0 then Some taken
         else map_option ((@) taken) (generate_loop m (n - length taken) dec' ctx' cache' r'))"
      using False by (subst generate_loop.simps) (simp add: s taken_def Let_def)
    have len: "length taken \<le> n + 1" by (auto simp: taken_def)
    show ?thesis
    proof (cases "proposed res = 0")
      case True
      with unfold len show ?thesis by simp
    next
      case more_left: False
      with decode_step_progress [OF s] False have pos: "0 < length taken"
        by (auto simp: taken_def)
      then have "n - length taken < n" using False by simp
      from less.IH [OF this ok] obtain toks where
        t: "generate_loop m (n - length taken) dec' ctx' cache' r' = Some toks" "length toks \<le> n - length taken + 1"
        by blast
      have z: "toks = []" if "n \<le> length taken"
        using t(1) that by (subst (asm) generate_loop.simps) simp
      have "length taken + length toks \<le> n + 1"
        using t(2) len z by (cases "n \<le> length taken") auto
      with unfold more_left t(1) show ?thesis by simp
    qed
  qed (simp add: generate_loop.simps)
qed

text \<open>
  C21: With a well-formed cache, or none, and a lower limit of the draft length not above the upper one,
  generation returns, whatever the models answer: every step takes at least one token or ends the loop.
  The result has at most one token more than was asked for.
\<close>

theorem speculative_generation_returns:
  assumes "cache_ok cache" "min_draft_k dec \<le> max_draft_k dec"
  shows "\<exists>toks. generate m dec prompt max_tokens cache r = Some toks \<and> length toks \<le> max_tokens + 1"
  unfolding generate_def by (rule generate_loop_ok [OF assms])

text \<open>A target that counts on from the last token, and a draft that says the same (or, with an offset,
  something else).\<close>

definition counting_models :: "(nat \<Rightarrow> int) \<Rightarrow> nat models" where
  "counting_models off =
    \<lparr>propose = (\<lambda>ctx k. map (\<lambda>i. last ctx + int i + 1 + off i) [0..<nat k]),
     next_token = (\<lambda>ctx r. (last ctx + 1, r)),
     rate_verdict = (\<lambda>a p. 0)\<rparr>"

definition small_decoder :: decoder where
  "small_decoder = \<lparr>draft_k = 2, min_draft_k = 1, max_draft_k = 4, total_accepted = 0, total_proposed = 0\<rparr>"

theorem speculative_generation_returns_witness:
  "\<exists>toks. generate (counting_models (\<lambda>_. 0)) small_decoder [5] 3 (Some (kv_new 1 4 1 1 False)) 0 = Some toks \<and>
    length toks \<le> 3 + 1"
  by (rule speculative_generation_returns) (simp_all add: small_decoder_def cache_ok_def kv_new_ok)

section \<open>Which token is compared\<close>

lemma verify_first:
  assumes "verify m [] (d # ds) ctx r = (ctx', res, r')"
  shows "\<exists>rest. ctx' = ctx @ fst (next_token m (ctx @ [d]) r) # rest"
proof -
  obtain tok r1 where t: "next_token m (ctx @ [d]) r = (tok, r1)" by force
  show ?thesis
  proof (cases "d = tok")
    case True
    obtain ctx1 res1 r2 where v: "verify m [d] ds (ctx @ [d]) r1 = (ctx1, res1, r2)"
      by (metis surj_pair)
    from verify_spec [OF v] obtain rest where "ctx1 = (ctx @ [d]) @ rest" by blast
    with assms t True v show ?thesis by auto
  qed (use assms t in auto)
qed

text \<open>
  C11: The first token a step adds is the target's answer to the context and the first draft token,
  never its answer to the context alone: the draft token is compared with its successor. So a
  target that counts, and a draft that predicts it, generate every second number, rejecting each
  draft (the target alone would say 6, 7, 8).
\<close>

theorem speculative_skips_a_token:
  assumes "decode_step m dec ctx cache r = Some (res, dec', ctx', cache', r')"
    and "propose m ctx (draft_k dec) = d # ds"
  shows "ctx' ! length ctx = fst (next_token m (ctx @ [d]) r)"
proof -
  obtain c1 res1 r1 where v: "verify m [] (d # ds) ctx r = (c1, res1, r1)" by (metis surj_pair)
  with assms have "ctx' = c1"
    by (auto simp: decode_step_def Let_def split: option.splits)
  with verify_first [OF v] show ?thesis by auto
qed

theorem speculative_skips_a_token_witness:
  "map_option (\<lambda>(res, dec', ctx', cache', r'). ctx' ! 1)
      (decode_step (counting_models (\<lambda>_. 0)) small_decoder [5] None 0) = Some 7 \<and>
   generate (counting_models (\<lambda>_. 0)) small_decoder [5] 3 None 0 = Some [7, 9, 11]"
proof
  let ?m = "counting_models (\<lambda>_. 0)"
  have p: "propose ?m [5] (draft_k small_decoder) = 6 # [7]"
    by (simp add: counting_models_def small_decoder_def upt_rec)
  obtain x where x: "decode_step ?m small_decoder [5] None 0 = Some x"
    using decode_step_ok [of None small_decoder ?m "[5]" 0] by (auto simp: cache_ok_def small_decoder_def)
  obtain res dec' ctx' cache' r' where e: "x = (res, dec', ctx', cache', r')" by (metis surj_pair)
  from speculative_skips_a_token [OF x [unfolded e] p]
  show "map_option (\<lambda>(res, dec', ctx', cache', r'). ctx' ! 1) (decode_step ?m small_decoder [5] None 0) = Some 7"
    by (simp add: x e) (simp add: counting_models_def)
  show "generate ?m small_decoder [5] 3 None 0 = Some [7, 9, 11]"
    by code_simp
qed

end
