(* ===== verification/Std_Map.thy ===== *)
theory Std_Map
  imports Prelude "HOL-Library.Product_Lexorder"
begin

text \<open>
  The two map containers of the sources. A \<open>std::map\<close> is the list of its entries in key order, so
  that iterating it is walking the list; a \<open>std::unordered_map\<close> is a partial function. The locale
  \<open>map_container\<close> is the contract both give their clients, who only use \<open>operator[]\<close> and \<open>find\<close>; it
  is interpreted on both.
\<close>

section \<open>\<open>std::map\<close>\<close>

type_synonym ('k, 'v) std_map = "('k \<times> 'v) list"

fun map_put :: "'k::linorder \<Rightarrow> 'v \<Rightarrow> ('k, 'v) std_map \<Rightarrow> ('k, 'v) std_map" where
  "map_put k v [] = [(k, v)]"
| "map_put k v ((k', v') # m) =
    (if k < k' then (k, v) # (k', v') # m
     else if k = k' then (k, v) # m
     else (k', v') # map_put k v m)"

definition map_ok :: "('k::linorder, 'v) std_map \<Rightarrow> bool" where
  "map_ok m = sorted_wrt (<) (map fst m)"

lemma std_map_of_put: "map_of (map_put k v m) = (map_of m)(k \<mapsto> v)"
  by (induction m) (auto simp: fun_eq_iff)

lemma keys_put: "fst ` set (map_put k v m) = insert k (fst ` set m)"
  by (induction k v m rule: map_put.induct) (simp_all add: insert_commute)

lemma map_ok_simps [simp]:
  "map_ok []"
  "map_ok ((k, v) # m) \<longleftrightarrow> (\<forall>k' \<in> fst ` set m. k < k') \<and> map_ok m"
  by (auto simp: map_ok_def)

lemma map_ok_put: "map_ok m \<Longrightarrow> map_ok (map_put k v m)"
  by (induction k v m rule: map_put.induct) (simp_all add: keys_put, force+)

lemma map_put_append:
  "\<forall>k' \<in> fst ` set m. k' < k \<Longrightarrow> map_put k v m = m @ [(k, v)]"
  by (induction m) auto

lemma map_ok_rebuild:
  "map_ok m \<Longrightarrow> foldl (\<lambda>acc (k, v). map_put k v acc) [] m = m"
proof (induction m rule: rev_induct)
  case (snoc e m)
  obtain k v where e: "e = (k, v)" by force
  with snoc.prems have "map_ok m" "\<forall>k' \<in> fst ` set m. k' < k"
    by (auto simp: map_ok_def sorted_wrt_append)
  with snoc.IH e show ?case by (simp add: map_put_append)
qed simp

section \<open>The contract\<close>

locale map_container =
  fixes get :: "'m \<Rightarrow> 'k \<Rightarrow> 'v option"
    and put :: "'k \<Rightarrow> 'v \<Rightarrow> 'm \<Rightarrow> 'm"
    and fresh :: "'m"
    and ok :: "'m \<Rightarrow> bool"
  assumes get_put: "ok m \<Longrightarrow> get (put k v m) = (get m)(k \<mapsto> v)"
    and get_fresh: "get fresh = Map.empty"
    and ok_put: "ok m \<Longrightarrow> ok (put k v m)"
    and ok_fresh: "ok fresh"
begin

lemma ok_fold: "ok m \<Longrightarrow> ok (foldl (\<lambda>m (k, v). put k v m) m kvs)"
  by (induction kvs arbitrary: m) (auto simp: ok_put)

lemma get_fold: "ok m \<Longrightarrow> get (foldl (\<lambda>m (k, v). put k v m) m kvs) = get m ++ map_of (rev kvs)"
  by (induction kvs arbitrary: m) (auto simp: get_put ok_put map_add_def fun_eq_iff split: option.splits)

end

text \<open>Tallying: what \<open>m[k]++\<close> over a list leaves in the map, for integer values.\<close>

locale tally_container = map_container get put fresh ok
  for get :: "'m \<Rightarrow> 'k \<Rightarrow> int option" and put fresh ok
begin

lemma tally:
  assumes "ok m"
  shows "ok (foldl (\<lambda>m k. put k ((case get m k of None \<Rightarrow> 0 | Some n \<Rightarrow> n) + 1) m) m ks)"
    and "get (foldl (\<lambda>m k. put k ((case get m k of None \<Rightarrow> 0 | Some n \<Rightarrow> n) + 1) m) m ks) k
      = (if k \<in> set ks then Some ((case get m k of None \<Rightarrow> 0 | Some n \<Rightarrow> n) + int (count_list ks k))
         else get m k)"
  using assms by (induction ks arbitrary: m) (auto simp: get_put ok_put split: option.splits)

lemma tally_fresh:
  "get (foldl (\<lambda>m k. put k ((case get m k of None \<Rightarrow> 0 | Some n \<Rightarrow> n) + 1) m) fresh ks) k
    = (if k \<in> set ks then Some (int (count_list ks k)) else None)"
  by (simp add: tally(2) [OF ok_fresh] get_fresh)

end

interpretation std_map: map_container map_of map_put "[]" map_ok
  by unfold_locales (simp_all add: std_map_of_put map_ok_put)

interpretation hash_map: map_container "\<lambda>m. m" "\<lambda>k v m. m(k \<mapsto> v)" Map.empty "\<lambda>_. True"
  by unfold_locales simp_all

interpretation std_tally: tally_container map_of map_put "[]" map_ok ..

end
