(* ===== verification/Unicode_Util.thy ===== *)
theory Unicode_Util
  imports Prelude
begin

text \<open>
  \<open>UnicodeUtil\<close> of src/src/tokenizer/bpe_tokenizer_unicode.cpp: the UTF-8 coder, the character
  classes, and the three scanners built on them (whitespace splitting, pre-tokenisation, the
  reduced NFKC pass). A \<open>std::string\<close> is its list of bytes; a code point is an \<open>int\<close>, modelled by
  the mathematical integer, since no operation here leaves 32 bits. A \<open>size_t& pos\<close> argument is
  returned updated. \<open>s[pos+1] & 0x3F\<close> reads a signed \<open>char\<close>; the mask keeps the same six bits of
  the unsigned byte, which is what the model masks.
\<close>

type_synonym bytes = "u8 list"

section \<open>UTF-8\<close>

definition utf8_encode :: "int \<Rightarrow> bytes" where
  "utf8_encode cp =
    (if cp < 0x80 then [word_of_int cp]
     else if cp < 0x800 then
       [word_of_int (0xC0 OR drop_bit 6 cp),
        word_of_int (0x80 OR (cp AND 0x3F))]
     else if cp < 0x10000 then
       [word_of_int (0xE0 OR drop_bit 12 cp),
        word_of_int (0x80 OR (drop_bit 6 cp AND 0x3F)),
        word_of_int (0x80 OR (cp AND 0x3F))]
     else if cp < 0x110000 then
       [word_of_int (0xF0 OR drop_bit 18 cp),
        word_of_int (0x80 OR (drop_bit 12 cp AND 0x3F)),
        word_of_int (0x80 OR (drop_bit 6 cp AND 0x3F)),
        word_of_int (0x80 OR (cp AND 0x3F))]
     else [])"

definition utf8_decode :: "bytes \<Rightarrow> nat \<Rightarrow> int \<times> nat" where
  "utf8_decode s pos =
    (if length s \<le> pos then (- 1, pos)
     else let c = uint (s ! pos) in
       if c < 0x80 then (c, pos + 1)
       else if c < 0xE0 \<and> pos + 1 < length s then
         (push_bit 6 (c AND 0x1F) OR (uint (s ! (pos + 1)) AND 0x3F), pos + 2)
       else if c < 0xF0 \<and> pos + 2 < length s then
         (push_bit 12 (c AND 0x0F) OR push_bit 6 (uint (s ! (pos + 1)) AND 0x3F)
            OR (uint (s ! (pos + 2)) AND 0x3F), pos + 3)
       else if pos + 3 < length s then
         (push_bit 18 (c AND 0x07) OR push_bit 12 (uint (s ! (pos + 1)) AND 0x3F)
            OR push_bit 6 (uint (s ! (pos + 2)) AND 0x3F)
            OR (uint (s ! (pos + 3)) AND 0x3F), pos + 4)
       else (c, pos + 1))"

lemma utf8_decode_advances:
  assumes "pos < length s"
  shows "pos < snd (utf8_decode s pos)" "snd (utf8_decode s pos) \<le> length s"
  using assms by (simp_all add: utf8_decode_def Let_def)

lemma utf8_decode_nonneg: "pos < length s \<Longrightarrow> 0 \<le> fst (utf8_decode s pos)"
  by (simp add: utf8_decode_def Let_def)

lemma utf8_decode_measure:
  "pos < length s \<Longrightarrow> (cp, p) = utf8_decode s pos \<Longrightarrow> length s - p < length s - pos"
  using utf8_decode_advances [of pos s] by (metis diff_less_mono2 snd_conv)

function codepoints_from :: "bytes \<Rightarrow> nat \<Rightarrow> int list" where
  "codepoints_from s pos =
    (if pos < length s then
       let (cp, p) = utf8_decode s pos in
       if 0 \<le> cp then cp # codepoints_from s p else codepoints_from s p
     else [])"
  by pat_completeness auto
termination
  by (relation "measure (\<lambda>(s, pos). length s - pos)")
     (auto intro: utf8_decode_measure)

declare codepoints_from.simps [simp del]

definition utf8_to_codepoints :: "bytes \<Rightarrow> int list" where
  "utf8_to_codepoints s = codepoints_from s 0"

definition codepoints_to_utf8 :: "int list \<Rightarrow> bytes" where
  "codepoints_to_utf8 cps = concat (map utf8_encode cps)"

section \<open>Character classes\<close>

definition in_ranges :: "(int \<times> int) list \<Rightarrow> int \<Rightarrow> bool" where
  "in_ranges rs cp = list_ex (\<lambda>(lo, hi). lo \<le> cp \<and> cp \<le> hi) rs"

definition is_cjk :: "int \<Rightarrow> bool" where
  "is_cjk cp = (in_ranges [
    (0x4E00, 0x9FFF), (0x3400, 0x4DBF), (0x2E80, 0x2EFF), (0x3000, 0x303F), (0xFF00, 0xFFEF),
    (0xF900, 0xFAFF), (0xAC00, 0xD7AF), (0x1100, 0x11FF), (0x3130, 0x318F), (0xA000, 0xA4CF),
    (0x20000, 0x2A6DF), (0x2F800, 0x2FA1F)] cp)"

definition is_whitespace :: "int \<Rightarrow> bool" where
  "is_whitespace cp = (in_ranges [
    (0x0020, 0x0020), (0x0009, 0x0009), (0x000A, 0x000A), (0x000D, 0x000D), (0x00A0, 0x00A0),
    (0x1680, 0x1680), (0x2000, 0x2000), (0x2001, 0x2001), (0x2002, 0x2002), (0x2003, 0x2003),
    (0x2004, 0x2004), (0x2005, 0x2005), (0x2006, 0x2006), (0x2007, 0x2007), (0x2008, 0x2008),
    (0x2009, 0x2009), (0x200A, 0x200A), (0x2028, 0x2028), (0x2029, 0x2029), (0x202F, 0x202F),
    (0x205F, 0x205F), (0x3000, 0x3000), (0x200B, 0x200B), (0xFEFF, 0xFEFF), (0x180E, 0x180E)] cp)"

definition is_punctuation :: "int \<Rightarrow> bool" where
  "is_punctuation cp = (in_ranges [
    (0x0021, 0x002F), (0x003A, 0x0040), (0x005B, 0x0060), (0x007B, 0x007E), (0x2000, 0x206F),
    (0x3000, 0x303F), (0x00A1, 0x00A1), (0x00A7, 0x00A7), (0x00AB, 0x00AB), (0x00B6, 0x00B6),
    (0x00B7, 0x00B7), (0x00BB, 0x00BB), (0x00BF, 0x00BF), (0x037E, 0x037E), (0x0387, 0x0387),
    (0x055A, 0x055A), (0x055B, 0x055B), (0x055C, 0x055C), (0x055D, 0x055D), (0x055E, 0x055E),
    (0x055F, 0x055F), (0x0589, 0x058A), (0x05BE, 0x05BE), (0x05C0, 0x05C0), (0x05C3, 0x05C3),
    (0x05C6, 0x05C6), (0x05F3, 0x05F3), (0x05F4, 0x05F4), (0x0609, 0x060A), (0x060C, 0x060C),
    (0x060D, 0x060D), (0x061B, 0x061B), (0x061E, 0x061E), (0x061F, 0x061F), (0x066A, 0x066A),
    (0x066B, 0x066B), (0x066C, 0x066C), (0x066D, 0x066D), (0x06D4, 0x06D4), (0x0700, 0x0700),
    (0x0701, 0x0701), (0x0702, 0x0702), (0x0703, 0x0703), (0x0704, 0x0704), (0x0705, 0x0705),
    (0x0706, 0x0706), (0x0707, 0x0707), (0x0708, 0x0708), (0x0709, 0x0709), (0x070A, 0x070A),
    (0x070B, 0x070B), (0x070C, 0x070C), (0x070D, 0x070D), (0x07F7, 0x07F7), (0x07F8, 0x07F8),
    (0x07F9, 0x07F9), (0x0830, 0x083E), (0x085E, 0x085E), (0x0964, 0x0965), (0x0970, 0x0970),
    (0x09FD, 0x09FD), (0x0A76, 0x0A76), (0x0AF0, 0x0AF0), (0x0C77, 0x0C77), (0x0C78, 0x0C78),
    (0x0C79, 0x0C79), (0x0C7A, 0x0C7A), (0x0C7B, 0x0C7B), (0x0C7C, 0x0C7C), (0x0C7D, 0x0C7D),
    (0x0C7E, 0x0C7E), (0x0C7F, 0x0C7F), (0x0DF4, 0x0DF4), (0x0E4F, 0x0E4F), (0x0E5A, 0x0E5A),
    (0x0E5B, 0x0E5B), (0x0F04, 0x0F04), (0x0F05, 0x0F05), (0x0F06, 0x0F06), (0x0F07, 0x0F07),
    (0x0F08, 0x0F08), (0x0F09, 0x0F09), (0x0F0A, 0x0F0A), (0x0F0B, 0x0F0B), (0x0F0C, 0x0F0C),
    (0x0F0D, 0x0F0D), (0x0F0E, 0x0F0E), (0x0F0F, 0x0F0F), (0x0F10, 0x0F10), (0x0F11, 0x0F11),
    (0x0F12, 0x0F12), (0x0F14, 0x0F14), (0x0F3A, 0x0F3A), (0x0F3B, 0x0F3B), (0x0F3C, 0x0F3C),
    (0x0F3D, 0x0F3D), (0x0F85, 0x0F85), (0x0FD0, 0x0FD0), (0x0FD1, 0x0FD1), (0x0FD2, 0x0FD2),
    (0x0FD3, 0x0FD3), (0x0FD4, 0x0FD4), (0x0FD5, 0x0FD5), (0x0FD6, 0x0FD6), (0x0FD7, 0x0FD7),
    (0x0FD8, 0x0FD8), (0x0FD9, 0x0FD9), (0x104A, 0x104A), (0x104B, 0x104B), (0x104C, 0x104C),
    (0x104D, 0x104D), (0x104E, 0x104E), (0x104F, 0x104F), (0x10FB, 0x10FB), (0x1361, 0x1361),
    (0x1362, 0x1362), (0x1363, 0x1363), (0x1364, 0x1364), (0x1365, 0x1365), (0x1366, 0x1366),
    (0x1367, 0x1367), (0x1368, 0x1368)] cp)"

definition is_letter :: "int \<Rightarrow> bool" where
  "is_letter cp = (in_ranges [
    (0x0041, 0x005A), (0x0061, 0x007A), (0x00C0, 0x024F), (0x0370, 0x03FF), (0x0400, 0x04FF),
    (0x0500, 0x052F), (0x0530, 0x058F), (0x0590, 0x05FF), (0x0600, 0x06FF), (0x0700, 0x074F),
    (0x0750, 0x077F), (0x0780, 0x07BF), (0x0900, 0x097F), (0x0980, 0x09FF), (0x0A00, 0x0A7F),
    (0x0A80, 0x0AFF), (0x0B00, 0x0B7F), (0x0B80, 0x0BFF), (0x0C00, 0x0C7F), (0x0C80, 0x0CFF),
    (0x0D00, 0x0D7F), (0x0D80, 0x0DFF), (0x0E00, 0x0E7F), (0x0E80, 0x0EFF), (0x0F00, 0x0FFF),
    (0x1000, 0x109F), (0x10A0, 0x10FF), (0x1100, 0x11FF), (0x1200, 0x137F), (0x13A0, 0x13FF),
    (0x1400, 0x167F), (0x1680, 0x169F), (0x16A0, 0x16FF), (0x1700, 0x171F), (0x1720, 0x173F),
    (0x1740, 0x175F), (0x1760, 0x177F), (0x1780, 0x17FF), (0x1800, 0x18AF), (0x1900, 0x194F),
    (0x1950, 0x197F), (0x1980, 0x19DF), (0x1A00, 0x1A1F), (0x1B00, 0x1B7F), (0x1C00, 0x1C4F),
    (0x1C50, 0x1C7F), (0x1D00, 0x1D7F), (0x1E00, 0x1EFF), (0x2C00, 0x2C5F), (0x2D00, 0x2D2F),
    (0x2D30, 0x2D7F), (0x2DE0, 0x2DFF), (0xA000, 0xA4CF), (0xA4D0, 0xA4FF), (0xA500, 0xA63F),
    (0xA640, 0xA69F), (0xA700, 0xA71F), (0xA720, 0xA7FF), (0xA800, 0xA82F), (0xA840, 0xA87F),
    (0xA880, 0xA8DF), (0xA900, 0xA92F), (0xA930, 0xA95F), (0xAA00, 0xAA5F), (0xAA60, 0xAA7F),
    (0xAA80, 0xAADF), (0xAB00, 0xAB2F), (0xABC0, 0xABFF), (0xD7B0, 0xD7FF)] cp \<or> is_cjk cp)"

definition is_digit :: "int \<Rightarrow> bool" where
  "is_digit cp = (in_ranges [
    (0x0030, 0x0039), (0x0660, 0x0669), (0x06F0, 0x06F9), (0x0966, 0x096F), (0x09E6, 0x09EF),
    (0x0A66, 0x0A6F), (0x0AE6, 0x0AEF), (0x0B66, 0x0B6F), (0x0BE6, 0x0BEF), (0x0C66, 0x0C6F),
    (0x0CE6, 0x0CEF), (0x0D66, 0x0D6F), (0x0E50, 0x0E59), (0x0ED0, 0x0ED9), (0x0F20, 0x0F29),
    (0x1040, 0x1049), (0x17E0, 0x17E9), (0x1810, 0x1819), (0x1946, 0x194F), (0x19D0, 0x19D9),
    (0x1A80, 0x1A89), (0x1A90, 0x1A99), (0x1B50, 0x1B59), (0x1BB0, 0x1BB9), (0x1C40, 0x1C49),
    (0x1C50, 0x1C59), (0xA620, 0xA629), (0xA8D0, 0xA8D9), (0xA900, 0xA909), (0xA9D0, 0xA9D9),
    (0xAA50, 0xAA59), (0xABF0, 0xABF9), (0xFF10, 0xFF19)] cp)"

definition is_control :: "int \<Rightarrow> bool" where
  "is_control cp = (cp < 0x0020 \<or> in_ranges [
    (0x007F, 0x009F)] cp)"

definition is_math_symbol :: "int \<Rightarrow> bool" where
  "is_math_symbol cp = (in_ranges [
    (0x2200, 0x22FF), (0x2A00, 0x2AFF), (0x27C0, 0x27EF), (0x2980, 0x29FF)] cp)"

definition is_currency :: "int \<Rightarrow> bool" where
  "is_currency cp = (in_ranges [
    (0x0024, 0x0024), (0x00A2, 0x00A2), (0x00A3, 0x00A3), (0x00A4, 0x00A4), (0x00A5, 0x00A5),
    (0x058F, 0x058F), (0x060B, 0x060B), (0x07FE, 0x07FE), (0x07FF, 0x07FF), (0x09F2, 0x09F2),
    (0x09F3, 0x09F3), (0x09FB, 0x09FB), (0x0AF1, 0x0AF1), (0x0BF9, 0x0BF9), (0x0E3F, 0x0E3F),
    (0x17DB, 0x17DB), (0x20A0, 0x20A0), (0x20A1, 0x20A1), (0x20A2, 0x20A2), (0x20A3, 0x20A3),
    (0x20A4, 0x20A4), (0x20A5, 0x20A5), (0x20A6, 0x20A6), (0x20A7, 0x20A7), (0x20A8, 0x20A8),
    (0x20A9, 0x20A9), (0x20AA, 0x20AA), (0x20AB, 0x20AB), (0x20AC, 0x20AC), (0x20AD, 0x20AD),
    (0x20AE, 0x20AE), (0x20AF, 0x20AF), (0x20B0, 0x20B0), (0x20B1, 0x20B1), (0x20B2, 0x20B2),
    (0x20B3, 0x20B3), (0x20B4, 0x20B4), (0x20B5, 0x20B5), (0x20B6, 0x20B6), (0x20B7, 0x20B7),
    (0x20B8, 0x20B8), (0x20B9, 0x20B9), (0x20BA, 0x20BA), (0x20BB, 0x20BB), (0x20BC, 0x20BC),
    (0x20BD, 0x20BD), (0x20BE, 0x20BE), (0x20BF, 0x20BF), (0xA838, 0xA838), (0xFDFC, 0xFDFC),
    (0xFE69, 0xFE69), (0xFF04, 0xFF04), (0xFFE0, 0xFFE0), (0xFFE1, 0xFFE1), (0xFFE5, 0xFFE5),
    (0xFFE6, 0xFFE6)] cp)"

definition is_combining_mark :: "int \<Rightarrow> bool" where
  "is_combining_mark cp = (in_ranges [
    (0x0300, 0x036F), (0x1AB0, 0x1AFF), (0x1DC0, 0x1DFF), (0x20D0, 0x20FF), (0xFE20, 0xFE2F),
    (0x0483, 0x0489), (0x0591, 0x05BD), (0x05BF, 0x05BF), (0x05C1, 0x05C2), (0x05C4, 0x05C5),
    (0x05C7, 0x05C7), (0x0610, 0x061A), (0x064B, 0x065F), (0x0670, 0x0670), (0x06D6, 0x06DC),
    (0x06DF, 0x06E4), (0x06E7, 0x06E8), (0x06EA, 0x06ED), (0x0711, 0x0711), (0x0730, 0x074A),
    (0x07A6, 0x07B0), (0x0901, 0x0903), (0x093C, 0x093C), (0x093E, 0x094D), (0x0951, 0x0954),
    (0x0962, 0x0963), (0x0981, 0x0983), (0x09BC, 0x09BC), (0x09BE, 0x09BE), (0x09BF, 0x09BF),
    (0x09C1, 0x09C4), (0x09CD, 0x09CD), (0x0A01, 0x0A03), (0x0A3C, 0x0A3C), (0x0A3E, 0x0A42),
    (0x0A47, 0x0A48), (0x0A4B, 0x0A4D)] cp)"

definition is_variation_selector :: "int \<Rightarrow> bool" where
  "is_variation_selector cp = (in_ranges [
    (0xFE00, 0xFE0F), (0xE0100, 0xE01EF)] cp)"

definition is_emoji :: "int \<Rightarrow> bool" where
  "is_emoji cp = (in_ranges [
    (0x00A9, 0x00A9), (0x00AE, 0x00AE), (0x203C, 0x203C), (0x2049, 0x2049), (0x2122, 0x2122),
    (0x2139, 0x2139), (0x2194, 0x2199), (0x21A9, 0x21AA), (0x231A, 0x231B), (0x2328, 0x2328),
    (0x23CF, 0x23CF), (0x23E9, 0x23F3), (0x23F8, 0x23FA), (0x24C2, 0x24C2), (0x25AA, 0x25AA),
    (0x25AB, 0x25AB), (0x25B6, 0x25B6), (0x25C0, 0x25C0), (0x25FB, 0x25FE), (0x2600, 0x27BF),
    (0x2934, 0x2934), (0x2935, 0x2935), (0x2B00, 0x2BFF), (0x2E80, 0x2FFF), (0x3000, 0x303F),
    (0x3200, 0x33FF), (0x4DC0, 0x4DFF), (0xFE00, 0xFE0F), (0xFEFF, 0xFEFF), (0x1F000, 0x1F9FF),
    (0x20000, 0x2FA1F)] cp)"

definition is_emoji_modifier :: "int \<Rightarrow> bool" where
  "is_emoji_modifier cp = (in_ranges [
    (0x1F3FB, 0x1F3FF)] cp)"

definition is_regional_indicator :: "int \<Rightarrow> bool" where
  "is_regional_indicator cp = (in_ranges [
    (0x1F1E6, 0x1F1FF)] cp)"

definition width :: "int \<Rightarrow> nat" where
  "width cp =
    (if cp < 0x80 then 1
     else if is_cjk cp then 2
     else if is_emoji cp \<and> 0x1F000 \<le> cp then 2
     else 1)"

section \<open>Scanners\<close>

function split_ws_loop :: "bytes \<Rightarrow> nat \<Rightarrow> bytes list \<Rightarrow> bytes \<Rightarrow> bytes list" where
  "split_ws_loop s pos result current =
    (if pos < length s then
       let (cp, p) = utf8_decode s pos in
       if cp < 0 then (if current \<noteq> [] then result @ [current] else result)
       else if is_whitespace cp then
         (if current \<noteq> [] then split_ws_loop s p (result @ [current]) []
          else split_ws_loop s p result current)
       else split_ws_loop s p result (current @ utf8_encode cp)
     else if current \<noteq> [] then result @ [current] else result)"
  by pat_completeness auto
termination
  by (relation "measure (\<lambda>(s, pos, _). length s - pos)")
     (auto intro: utf8_decode_measure)

declare split_ws_loop.simps [simp del]

definition split_on_whitespace :: "bytes \<Rightarrow> bytes list" where
  "split_on_whitespace s = split_ws_loop s 0 [] []"

function pretokenize_loop :: "bytes \<Rightarrow> nat \<Rightarrow> bytes list \<Rightarrow> bytes \<Rightarrow> bytes list" where
  "pretokenize_loop s pos result current =
    (if pos < length s then
       let (cp, p) = utf8_decode s pos;
           flushed = (if current \<noteq> [] then result @ [current] else result) in
       if cp < 0 then flushed
       else if is_whitespace cp then pretokenize_loop s p flushed []
       else if is_punctuation cp then pretokenize_loop s p (flushed @ [utf8_encode cp]) []
       else pretokenize_loop s p result (current @ utf8_encode cp)
     else if current \<noteq> [] then result @ [current] else result)"
  by pat_completeness auto
termination
  by (relation "measure (\<lambda>(s, pos, _). length s - pos)")
     (auto intro: utf8_decode_measure)

declare pretokenize_loop.simps [simp del]

definition pretokenize :: "bytes \<Rightarrow> bytes list" where
  "pretokenize s = pretokenize_loop s 0 [] []"

text \<open>One round of the \<open>nfkc_normalize\<close> loop: what the code point adds to the output.\<close>

definition nfkc_piece :: "int \<Rightarrow> bytes" where
  "nfkc_piece cp =
    (if is_control cp \<and> cp \<noteq> 0x000A \<and> cp \<noteq> 0x000D \<and> cp \<noteq> 0x0009 then []
     else if cp = 0x00B7 then utf8_encode 0x002E
     else if cp = 0x2126 then utf8_encode 0x03A9
     else if cp = 0x212B then utf8_encode 0x00C5
     else if cp = 0x00AA then utf8_encode 0x0061
     else if cp = 0x00BA then utf8_encode 0x006F
     else if cp = 0x212A then utf8_encode 0x004B
     else utf8_encode cp)"

function nfkc_loop :: "bytes \<Rightarrow> nat \<Rightarrow> bytes \<Rightarrow> bytes" where
  "nfkc_loop s pos result =
    (if pos < length s then
       let (cp, p) = utf8_decode s pos in
       if cp < 0 then nfkc_loop s p result else nfkc_loop s p (result @ nfkc_piece cp)
     else result)"
  by pat_completeness auto
termination
  by (relation "measure (\<lambda>(s, pos, _). length s - pos)")
     (auto intro: utf8_decode_measure)

declare nfkc_loop.simps [simp del]

definition nfkc_normalize :: "bytes \<Rightarrow> bytes" where
  "nfkc_normalize s = nfkc_loop s 0 []"

text \<open>The counters of \<open>detect_language\<close>: each code point increases the first class it belongs to.\<close>

datatype script = Han | Hangul | Arabic | Devanagari | Latin | Other

definition script_of :: "int \<Rightarrow> script" where
  "script_of cp =
    (if 0x4E00 \<le> cp \<and> cp \<le> 0x9FFF then Han
     else if 0xAC00 \<le> cp \<and> cp \<le> 0xD7AF then Hangul
     else if 0x0600 \<le> cp \<and> cp \<le> 0x06FF then Arabic
     else if 0x0900 \<le> cp \<and> cp \<le> 0x097F then Devanagari
     else if 0x0041 \<le> cp \<and> cp \<le> 0x005A \<or> 0x0061 \<le> cp \<and> cp \<le> 0x007A then Latin
     else Other)"

definition detect_language :: "bytes \<Rightarrow> string" where
  "detect_language segment =
    (let cps = utf8_to_codepoints segment;
         n = length cps;
         tally = (\<lambda>sc. length (filter (\<lambda>cp. script_of cp = sc) cps)) in
     if n = 0 then ''unknown''
     else if n div 2 < tally Han then (if tally Han < tally Hangul then ''ko'' else ''zh'')
     else if n div 2 < tally Hangul then ''ko''
     else if n div 2 < tally Arabic then ''ar''
     else if n div 2 < tally Devanagari then ''hi''
     else if n div 2 < tally Latin then ''en''
     else ''unknown'')"

end
