(* ===== verification/Merge_Coder.thy ===== *)
theory Merge_Coder
  imports Std_Map Unicode_Util
begin

text \<open>
  The pair-merging code the byte-pair tokenizers repeat word for word: finding the first mergeable
  pair of a sequence of ids, the pass that replaces every occurrence of a pair, the loop of the two,
  and the pair statistics of training. Ids are C++ \<open>int\<close>s. The locale \<open>merge_coder\<close> states what a
  tokenizer owes its decoder (a merged id spells what its two halves spell) and proves once that
  merging never changes what the ids spell.
\<close>

type_synonym merge_map = "(int \<times> int, int) std_map"

section \<open>Merging\<close>

fun first_pair :: "merge_map \<Rightarrow> int list \<Rightarrow> ((int \<times> int) \<times> int) option" where
  "first_pair m (a # b # ids) =
    (case map_of m (a, b) of Some c \<Rightarrow> Some ((a, b), c) | None \<Rightarrow> first_pair m (b # ids))"
| "first_pair m ids = None"

fun merge_pass :: "int \<Rightarrow> int \<Rightarrow> int \<Rightarrow> int list \<Rightarrow> int list" where
  "merge_pass l r c (a # b # ids) =
    (if a = l \<and> b = r then c # merge_pass l r c ids else a # merge_pass l r c (b # ids))"
| "merge_pass l r c ids = ids"

lemma length_merge_pass: "length (merge_pass l r c ids) \<le> length ids"
  by (induction l r c ids rule: merge_pass.induct) auto

lemma merge_pass_shrinks:
  "first_pair m ids = Some ((l, r), c) \<Longrightarrow> length (merge_pass l r d ids) < length ids"
proof (induction m ids rule: first_pair.induct)
  case (1 m a b ids)
  then show ?case
    using length_merge_pass [of l r d ids]
    by (auto split: option.splits simp: le_imp_less_Suc less_Suc_eq_le)
qed simp_all

text \<open>The loop of \<open>BPETokenizer\<close> and \<open>ByteLevelBPETokenizer\<close> stops when no pair was found or when
  the merged id is the sentinel -1; that of \<open>MultiLingualTokenizer\<close> stops only when none was found.\<close>

function merge_loop :: "merge_map \<Rightarrow> int list \<Rightarrow> int list" where
  "merge_loop m ids =
    (case first_pair m ids of
       None \<Rightarrow> ids
     | Some ((l, r), c) \<Rightarrow> if c = - 1 then ids else merge_loop m (merge_pass l r c ids))"
  by pat_completeness auto
termination
  by (relation "measure (\<lambda>(m, ids). length ids)") (auto intro: merge_pass_shrinks)

function merge_all_loop :: "merge_map \<Rightarrow> int list \<Rightarrow> int list" where
  "merge_all_loop m ids =
    (case first_pair m ids of
       None \<Rightarrow> ids
     | Some ((l, r), c) \<Rightarrow> merge_all_loop m (merge_pass l r c ids))"
  by pat_completeness auto
termination
  by (relation "measure (\<lambda>(m, ids). length ids)") (auto intro: merge_pass_shrinks)

declare merge_loop.simps [simp del] merge_all_loop.simps [simp del]

lemma first_pair_in_map: "first_pair m ids = Some (p, c) \<Longrightarrow> map_of m p = Some c"
  by (induction m ids rule: first_pair.induct) (auto split: option.splits)

lemma merge_loop_done:
  "- 1 \<notin> snd ` set m \<Longrightarrow> first_pair m (merge_loop m ids) = None"
proof (induction m ids rule: merge_loop.induct)
  case (1 m ids)
  show ?case
  proof (cases "first_pair m ids")
    case (Some e)
    obtain l r c where e: "e = ((l, r), c)" by (metis surj_pair)
    have "c \<noteq> - 1"
      using first_pair_in_map [of m ids "(l, r)" c] Some e 1(2) by (force dest: map_of_SomeD)
    with 1 Some e show ?thesis
      by (subst merge_loop.simps) simp
  qed (simp add: merge_loop.simps)
qed

lemma first_pair_no_merges: "first_pair [] ids = None"
  by (induction "[] :: merge_map" ids rule: first_pair.induct) simp_all

lemma merge_loop_no_merges: "merge_loop [] ids = ids"
  by (subst merge_loop.simps) (simp add: first_pair_no_merges)

lemma set_merge_pass: "set (merge_pass l r c ids) \<subseteq> insert c (set ids)"
  by (induction l r c ids rule: merge_pass.induct) auto

section \<open>Spelling\<close>

locale merge_coder =
  fixes merges :: "'t \<Rightarrow> merge_map"
    and spell :: "'t \<Rightarrow> int \<Rightarrow> bytes"
    and consistent :: "'t \<Rightarrow> bool"
  assumes spell_merged:
    "consistent t \<Longrightarrow> map_of (merges t) (a, b) = Some c \<Longrightarrow> spell t c = spell t a @ spell t b"
begin

lemma spell_pass:
  "spell t c = spell t l @ spell t r \<Longrightarrow>
    concat (map (spell t) (merge_pass l r c ids)) = concat (map (spell t) ids)"
  by (induction l r c ids rule: merge_pass.induct) auto

lemma spell_first:
  "consistent t \<Longrightarrow> first_pair (merges t) ids = Some ((l, r), c) \<Longrightarrow>
    concat (map (spell t) (merge_pass l r c ids)) = concat (map (spell t) ids)"
  by (intro spell_pass spell_merged first_pair_in_map)

lemma spell_merge_loop:
  "consistent t \<Longrightarrow> concat (map (spell t) (merge_loop (merges t) ids)) = concat (map (spell t) ids)"
proof (induction "merges t" ids rule: merge_loop.induct)
  case (1 ids)
  then show ?case
    by (subst merge_loop.simps) (auto split: option.splits simp: spell_first)
qed

lemma spell_merge_all_loop:
  "consistent t \<Longrightarrow> concat (map (spell t) (merge_all_loop (merges t) ids)) = concat (map (spell t) ids)"
proof (induction "merges t" ids rule: merge_all_loop.induct)
  case (1 ids)
  then show ?case
    by (subst merge_all_loop.simps) (auto split: option.splits simp: spell_first)
qed

end

section \<open>Pair statistics of training\<close>

fun adjacent :: "int list \<Rightarrow> (int \<times> int) list" where
  "adjacent (a # b # ids) = (a, b) # adjacent (b # ids)"
| "adjacent ids = []"

definition pair_counts :: "int list \<Rightarrow> merge_map" where
  "pair_counts ids =
    foldl (\<lambda>m p. map_put p ((case map_of m p of None \<Rightarrow> 0 | Some n \<Rightarrow> n) + 1) m) [] (adjacent ids)"

text \<open>The scan that keeps the first entry with the largest count: \<open>begin()\<close>, then every entry
  whose count is strictly larger than the best so far.\<close>

definition keep_best :: "(int \<times> int) \<times> int \<Rightarrow> (int \<times> int) \<times> int \<Rightarrow> (int \<times> int) \<times> int" where
  "keep_best best it = (if snd best < snd it then it else best)"

fun best_entry :: "merge_map \<Rightarrow> ((int \<times> int) \<times> int) option" where
  "best_entry [] = None"
| "best_entry (e # m) = Some (foldl keep_best e (e # m))"

lemma pair_counts_get:
  "map_of (pair_counts ids) p
    = (if p \<in> set (adjacent ids) then Some (int (count_list (adjacent ids) p)) else None)"
  unfolding pair_counts_def by (rule std_tally.tally_fresh)

lemma pair_counts_ok: "map_ok (pair_counts ids)"
  unfolding pair_counts_def by (rule std_tally.tally(1)) simp

definition dominates :: "(int \<times> int) \<times> int \<Rightarrow> (int \<times> int) \<times> int \<Rightarrow> bool" where
  "dominates best x = (snd x < snd best \<or> snd x = snd best \<and> fst best \<le> fst x)"

lemma keep_best_dominates:
  assumes "\<forall>x \<in> S. dominates best x" "\<forall>x \<in> S. fst x < fst it" "best \<in> S"
  shows "\<forall>x \<in> insert it S. dominates (keep_best best it) x"
proof (cases "snd best < snd it")
  case True
  with assms(1) show ?thesis
    by (auto simp: keep_best_def dominates_def)
next
  case False
  with assms show ?thesis
    by (auto simp: keep_best_def dominates_def less_imp_le)
qed

lemma scan_best:
  "map_ok (e # m) \<Longrightarrow>
    foldl keep_best e m \<in> set (e # m) \<and> (\<forall>x \<in> set (e # m). dominates (foldl keep_best e m) x)"
proof (induction m rule: rev_induct)
  case (snoc x m)
  have ok: "map_ok (e # m)" and before: "\<forall>y \<in> set (e # m). fst y < fst x"
    using snoc.prems by (auto simp: map_ok_def sorted_wrt_append)
  note IH = snoc.IH [OF ok]
  have "\<forall>y \<in> insert x (set (e # m)). dominates (keep_best (foldl keep_best e m) x) y"
    using IH before by (intro keep_best_dominates) blast+
  moreover have "keep_best (foldl keep_best e m) x \<in> insert x (set (e # m))"
    using IH unfolding keep_best_def [of "foldl keep_best e m" x] by simp
  ultimately show ?case
    by (simp add: insert_commute disj_commute) blast?
qed (simp add: dominates_def)

lemma best_entry_counts:
  assumes best: "best_entry (pair_counts ids) = Some (p, n)"
  shows "p \<in> set (adjacent ids)"
    and "count_list (adjacent ids) q < count_list (adjacent ids) p
      \<or> count_list (adjacent ids) q = count_list (adjacent ids) p \<and> (q \<in> set (adjacent ids) \<longrightarrow> p \<le> q)"
proof -
  obtain e m where m: "pair_counts ids = e # m"
    using best by (cases "pair_counts ids") simp_all
  have pn: "foldl keep_best e m = (p, n)"
    using best by (simp add: m) (simp add: keep_best_def)
  have dom: "(p, n) \<in> set (pair_counts ids)" "\<forall>x \<in> set (pair_counts ids). dominates (p, n) x"
    using scan_best [of e m] pair_counts_ok [of ids] pn by (simp_all add: m)
  have get: "map_of (pair_counts ids) x = Some y \<longleftrightarrow> (x, y) \<in> set (pair_counts ids)" for x y
    using pair_counts_ok [of ids] by (intro map_of_eq_Some_iff)
      (simp add: map_ok_def strict_sorted_iff)
  have p: "p \<in> set (adjacent ids)" "n = int (count_list (adjacent ids) p)"
    using get [of p n] dom(1) pair_counts_get [of ids p] by (simp_all split: if_splits)
  then show "p \<in> set (adjacent ids)" by simp
  show "count_list (adjacent ids) q < count_list (adjacent ids) p
      \<or> count_list (adjacent ids) q = count_list (adjacent ids) p \<and> (q \<in> set (adjacent ids) \<longrightarrow> p \<le> q)"
  proof (cases "q \<in> set (adjacent ids)")
    case True
    then have "(q, int (count_list (adjacent ids) q)) \<in> set (pair_counts ids)"
      using get pair_counts_get [of ids q] by simp
    with dom(2) p show ?thesis by (auto simp: dominates_def)
  next
    case False
    then have "count_list (adjacent ids) q = 0"
      by (simp add: count_list_0_iff)
    then show ?thesis using False by linarith
  qed
qed

lemma best_entry_none: "best_entry (pair_counts ids) = None \<longleftrightarrow> length ids < 2"
proof -
  have "best_entry (pair_counts ids) = None \<longleftrightarrow> pair_counts ids = []"
    by (cases "pair_counts ids") simp_all
  also have "\<dots> \<longleftrightarrow> (\<forall>p. map_of (pair_counts ids) p = None)"
    by (metis (no_types) fun_upd_idem_iff map_of_eq_empty_iff ext)
  also have "\<dots> \<longleftrightarrow> adjacent ids = []"
    by (cases "adjacent ids") (auto simp: pair_counts_get)
  also have "\<dots> \<longleftrightarrow> length ids < 2"
    by (cases ids rule: adjacent.cases) simp_all
  finally show ?thesis .
qed

lemma adjacent_set: "(a, b) \<in> set (adjacent ids) \<Longrightarrow> a \<in> set ids \<and> b \<in> set ids"
  by (induction ids rule: adjacent.induct) auto

end
