(* ===== verification/Bpe.thy ===== *)
theory Bpe
  imports Merge_Coder Byte_Encoding
begin

text \<open>
  \<open>BPETokenizer\<close> of src/src/tokenizer/bpe_tokenizer_bpe.cpp: its vocabulary and merge table,
  training, encoding, decoding, and the binary file it is saved to. \<open>operator[]\<close> on the vocabulary
  outside its bounds is undefined behaviour and is the value \<open>None\<close>. Counts of pairs are unbounded
  (the code's \<open>int\<close> counts up to 2^31 - 1 occurrences).
\<close>

record bpe =
  bpe_vocab :: "bytes list"
  bpe_merges :: merge_map
  bpe_bos :: int
  bpe_eos :: int
  bpe_unk :: int

definition bpe_new :: bpe where
  "bpe_new = \<lparr>bpe_vocab = map (\<lambda>i. [word_of_nat i]) [0..<256], bpe_merges = [],
    bpe_bos = 1, bpe_eos = 2, bpe_unk = 0\<rparr>"

definition bpe_add_token :: "bpe \<Rightarrow> bytes \<Rightarrow> bpe" where
  "bpe_add_token t tok = t\<lparr>bpe_vocab := bpe_vocab t @ [tok]\<rparr>"

fun token_index :: "bytes list \<Rightarrow> bytes \<Rightarrow> int option" where
  "token_index [] tok = None"
| "token_index (v # vs) tok = (if v = tok then Some 0 else map_option ((+) 1) (token_index vs tok))"

definition bpe_get_token_id :: "bpe \<Rightarrow> bytes \<Rightarrow> int" where
  "bpe_get_token_id t tok =
    (case token_index (bpe_vocab t) tok of Some i \<Rightarrow> i | None \<Rightarrow> bpe_unk t)"

definition token_at :: "'a list \<Rightarrow> int \<Rightarrow> 'a option" where
  "token_at v i = (if 0 \<le> i \<and> i < int (length v) then Some (v ! nat i) else None)"

section \<open>Encoding and decoding\<close>

definition text_ids :: "bytes \<Rightarrow> int list" where
  "text_ids text = map uint text"

definition bpe_encode :: "bpe \<Rightarrow> bytes \<Rightarrow> int list" where
  "bpe_encode t text = merge_loop (bpe_merges t) (text_ids text)"

text \<open>What one round of \<open>decode\<close> appends: the token, when the id is within the vocabulary.\<close>

definition bpe_spell :: "bpe \<Rightarrow> int \<Rightarrow> bytes" where
  "bpe_spell t i = (case token_at (bpe_vocab t) i of Some tok \<Rightarrow> tok | None \<Rightarrow> [])"

definition bpe_decode :: "bpe \<Rightarrow> int list \<Rightarrow> bytes" where
  "bpe_decode t ids = concat (map (bpe_spell t) ids)"

section \<open>Training\<close>

function bpe_train_loop :: "bpe \<Rightarrow> int list \<Rightarrow> int \<Rightarrow> int \<Rightarrow> bpe option" where
  "bpe_train_loop t ids current vocab_size =
    (if current < vocab_size then
       (case best_entry (pair_counts ids) of
          None \<Rightarrow> Some t
        | Some ((l, r), _) \<Rightarrow>
            (case (token_at (bpe_vocab t) l, token_at (bpe_vocab t) r) of
               (Some a, Some b) \<Rightarrow>
                 bpe_train_loop
                   (bpe_add_token (t\<lparr>bpe_merges := map_put (l, r) current (bpe_merges t)\<rparr>) (a @ b))
                   (merge_pass l r current ids) (current + 1) vocab_size
             | _ \<Rightarrow> None))
     else Some t)"
  by pat_completeness auto
termination
  by (relation "measure (\<lambda>(t, ids, current, vocab_size). nat (vocab_size - current))") auto

declare bpe_train_loop.simps [simp del]

definition bpe_train :: "bpe \<Rightarrow> bytes list \<Rightarrow> int \<Rightarrow> bpe option" where
  "bpe_train t texts vocab_size = bpe_train_loop t (concat (map text_ids texts)) 256 vocab_size"

section \<open>The file\<close>

definition encode_int32 :: "int \<Rightarrow> bytes" where
  "encode_int32 i = word_bytes 4 (word_of_int i :: u32)"

definition save_tokens :: "bytes list \<Rightarrow> bytes" where
  "save_tokens v = concat (map (\<lambda>tok. encode_int32 (int (length tok)) @ tok) v)"

definition save_merges :: "merge_map \<Rightarrow> bytes" where
  "save_merges m = concat (map (\<lambda>((a, b), c). encode_int32 a @ encode_int32 b @ encode_int32 c) m)"

definition bpe_save :: "bpe \<Rightarrow> bytes" where
  "bpe_save t =
    encode_int32 (int (length (bpe_vocab t))) @ save_tokens (bpe_vocab t) @
    encode_int32 (int (length (bpe_merges t))) @ save_merges (bpe_merges t)"

text \<open>\<open>f.read(p, n)\<close> on a stream with the given bytes left; \<open>None\<close> when the stream then tests false.\<close>

definition stream_read :: "nat \<Rightarrow> bytes \<Rightarrow> (bytes \<times> bytes) option" where
  "stream_read n bs = (if n \<le> length bs then Some (take n bs, drop n bs) else None)"

definition read_int32 :: "bytes \<Rightarrow> (int \<times> bytes) option" where
  "read_int32 bs =
    (case stream_read 4 bs of
       None \<Rightarrow> None
     | Some (b, rest) \<Rightarrow> Some (sint (bytes_word b :: u32), rest))"

definition read_count :: "int \<Rightarrow> bytes \<Rightarrow> (nat \<times> bytes) option" where
  "read_count most bs =
    (case read_int32 bs of
       None \<Rightarrow> None
     | Some (n, rest) \<Rightarrow> if n < 0 \<or> most < n then None else Some (nat n, rest))"

fun load_tokens :: "nat \<Rightarrow> bytes \<Rightarrow> (bytes list \<times> bytes) option" where
  "load_tokens 0 bs = Some ([], bs)"
| "load_tokens (Suc n) bs =
    (case read_count (2 ^ 16) bs of
       None \<Rightarrow> None
     | Some (len, bs) \<Rightarrow>
         (case stream_read len bs of
            None \<Rightarrow> None
          | Some (tok, bs) \<Rightarrow>
              (case load_tokens n bs of None \<Rightarrow> None | Some (toks, bs) \<Rightarrow> Some (tok # toks, bs))))"

fun load_merges :: "nat \<Rightarrow> merge_map \<Rightarrow> bytes \<Rightarrow> (merge_map \<times> bytes) option" where
  "load_merges 0 m bs = Some (m, bs)"
| "load_merges (Suc n) m bs =
    (case read_int32 bs of
       None \<Rightarrow> None
     | Some (a, bs) \<Rightarrow>
         (case read_int32 bs of
            None \<Rightarrow> None
          | Some (b, bs) \<Rightarrow>
              (case read_int32 bs of
                 None \<Rightarrow> None
               | Some (c, bs) \<Rightarrow> load_merges n (map_put (a, b) c m) bs)))"

definition load_tables :: "bytes \<Rightarrow> ((bytes list \<times> merge_map) \<times> bytes) option" where
  "load_tables bs =
    (case read_count (2 ^ 20) bs of
       None \<Rightarrow> None
     | Some (vs, bs) \<Rightarrow>
         (case load_tokens vs bs of
            None \<Rightarrow> None
          | Some (vocab, bs) \<Rightarrow>
              (case read_count (2 ^ 24) bs of
                 None \<Rightarrow> None
               | Some (ms, bs) \<Rightarrow>
                   (case load_merges ms [] bs of
                      None \<Rightarrow> None
                    | Some (m, bs) \<Rightarrow> Some ((vocab, m), bs)))))"

text \<open>\<open>load\<close> commits both tables or, after any failed read or rejected count, neither. The argument
  is the content of the file, or \<open>None\<close> when it cannot be opened.\<close>

definition bpe_load :: "bpe \<Rightarrow> bytes option \<Rightarrow> bpe" where
  "bpe_load t f =
    (case f of
       None \<Rightarrow> t
     | Some bs \<Rightarrow>
         (case load_tables bs of
            None \<Rightarrow> t
          | Some ((vocab, m), _) \<Rightarrow> t\<lparr>bpe_vocab := vocab, bpe_merges := m\<rparr>))"

end
