(* ===== verification/Byte_Level_Correct.thy ===== *)
theory Byte_Level_Correct
  imports Byte_Level
begin

text \<open>
  The byte-level tokenizer: lossless before it has merged anything, lossy on every text to which a
  merge applies.
\<close>

lemma byte_to_token_inject: "byte_to_token b = byte_to_token c \<Longrightarrow> b = c"
  by (metis token_byte_inverse)

lemma length_byte_to_token: "0 < length (byte_to_token b)" "length (byte_to_token b) \<le> 2"
  by (simp_all add: byte_to_token_def)

lemma bl_push_fields [simp]:
  "bl_vocab (bl_push t tok) = bl_vocab t @ [tok]"
  "bl_merges (bl_push t tok) = bl_merges t"
  "bl_id_to_token (bl_push t tok) = bl_id_to_token t @ [tok]"
  "bl_token_to_id (bl_push t tok) = (bl_token_to_id t)(tok \<mapsto> int (length (bl_vocab t)))"
  by (simp_all add: bl_push_def)

text \<open>Every registered token is where the table says.\<close>

definition bl_registered :: "byte_level \<Rightarrow> bytes set \<Rightarrow> bool" where
  "bl_registered t toks \<longleftrightarrow> bl_id_to_token t = bl_vocab t \<and>
    (\<forall>tok \<in> toks. \<exists>i. bl_token_to_id t tok = Some i) \<and>
    (\<forall>tok i. bl_token_to_id t tok = Some i \<longrightarrow> token_at (bl_id_to_token t) i = Some tok)"

lemma token_at_append: "token_at v i = Some x \<Longrightarrow> token_at (v @ w) i = Some x"
  by (auto simp: token_at_def nth_append nat_less_iff split: if_splits)

lemma token_at_length: "token_at (v @ [x]) (int (length v)) = Some x"
  by (simp add: token_at_def)

lemma bl_registered_push: "bl_registered t toks \<Longrightarrow> bl_registered (bl_push t tok) (insert tok toks)"
  by (auto simp: bl_registered_def token_at_append token_at_length split: if_splits)

lemma bl_registered_fold:
  "bl_registered t toks \<Longrightarrow> bl_registered (foldl bl_push t ts) (toks \<union> set ts)"
proof (induction ts arbitrary: t toks)
  case (Cons tok ts)
  from Cons.IH [OF bl_registered_push [OF Cons.prems, of tok]] show ?case by simp
qed simp

lemma bl_registered_update:
  "bl_registered (t\<lparr>bl_bos := i\<rparr>) toks = bl_registered t toks"
  "bl_registered (t\<lparr>bl_eos := i\<rparr>) toks = bl_registered t toks"
  by (simp_all add: bl_registered_def)

lemma bl_registered_mono: "bl_registered t toks \<Longrightarrow> s \<subseteq> toks \<Longrightarrow> bl_registered t s"
  by (auto simp: bl_registered_def)

lemma bl_new_registered: "bl_registered bl_new (range byte_to_token)"
proof -
  have start: "bl_registered \<lparr>bl_vocab = [], bl_merges = [], bl_token_to_id = Map.empty,
      bl_id_to_token = [], bl_bos = 3, bl_eos = 4, bl_unk = 0\<rparr> {}"
    by (simp add: bl_registered_def)
  define ts where "ts = map (\<lambda>i. byte_to_token (word_of_nat i)) [0..<256]"
  have "byte_to_token b \<in> set ts" for b
    unfolding ts_def using unsigned_less [of b, where ?'a = nat]
    by (auto intro!: rev_image_eqI [of "unat b"])
  then have "range byte_to_token \<subseteq> set ts" by blast
  moreover have "bl_registered bl_new
      (insert eos_token (insert bos_token (insert unk_token {} \<union> set ts)))"
    unfolding bl_new_def Let_def ts_def [symmetric]
    by (intro bl_registered_push bl_registered_fold start
        | subst bl_registered_update)+
  ultimately show ?thesis
    by (elim bl_registered_mono) blast
qed

lemma bl_merges_new: "bl_merges bl_new = []"
proof -
  have "bl_merges (foldl bl_push t ts) = bl_merges t" for t ts
    by (induction ts arbitrary: t) simp_all
  then show ?thesis by (simp add: bl_new_def Let_def del: upt.simps)
qed

lemma bl_spell_byte:
  assumes "bl_registered t (range byte_to_token)"
  shows "bl_spell t (case bl_token_to_id t (byte_to_token c) of Some i \<Rightarrow> i | None \<Rightarrow> 0) = [c]"
proof -
  obtain i where i: "bl_token_to_id t (byte_to_token c) = Some i"
    using assms unfolding bl_registered_def by blast
  then have at: "token_at (bl_id_to_token t) i = Some (byte_to_token c)"
    using assms unfolding bl_registered_def by blast
  have "byte_to_token c \<noteq> unk_token" "byte_to_token c \<noteq> bos_token" "byte_to_token c \<noteq> eos_token"
    using length_byte_to_token(2) [of c] by (auto simp: unk_token_def bos_token_def eos_token_def)
  then show ?thesis
    by (simp add: bl_spell_def i at token_byte_inverse)
qed

text \<open>
  Before any training the byte-level tokenizer is lossless: every byte has its own token and
  decoding gives the bytes back.
\<close>

theorem byte_level_untrained_lossless: "bl_decode bl_new (bl_encode bl_new s) = s"
proof -
  have "bl_encode bl_new s = byte_encode bl_new s"
    by (simp add: bl_encode_def bl_merge_tokens_def bl_merges_new merge_loop_no_merges)
  moreover have "bl_decode bl_new (byte_encode bl_new s) = s"
    by (induction s) (simp_all add: bl_decode_def byte_encode_def bl_spell_byte [OF bl_new_registered])
  ultimately show ?thesis by simp
qed

text \<open>
  \<open>decode\<close> gives at most one byte for an id, whatever the id spells; so on every text that
  \<open>encode\<close> shortened by a merge, decoding does not give the text back.
\<close>

theorem byte_level_decode_loses_merges:
  assumes "length (bl_encode t s) < length s"
  shows "bl_decode t (bl_encode t s) \<noteq> s"
proof -
  have "length (bl_decode t ids) \<le> length ids" for ids
    by (induction ids) (auto simp: bl_decode_def bl_spell_def split: option.splits)
  from this [of "bl_encode t s"] assms show ?thesis by auto
qed


text \<open>A training that merges once: after the single merge of "ab", the text "abab" decodes to two NUL
  bytes.\<close>

lemma bl_new_tokens:
  "bl_id_to_token bl_new
    = unk_token # map (\<lambda>i. byte_to_token (word_of_nat i)) [0..<256] @ [bos_token, eos_token]"
  "bl_vocab bl_new = bl_id_to_token bl_new"
proof -
  have "bl_id_to_token (foldl bl_push t ts) = bl_id_to_token t @ ts" for t ts
    by (induction ts arbitrary: t) simp_all
  then show "bl_id_to_token bl_new
      = unk_token # map (\<lambda>i. byte_to_token (word_of_nat i)) [0..<256] @ [bos_token, eos_token]"
    by (simp add: bl_new_def Let_def del: upt.simps)
  show "bl_vocab bl_new = bl_id_to_token bl_new"
    using bl_new_registered by (simp add: bl_registered_def)
qed

lemma byte_to_token_plain:
  "byte_to_token b \<noteq> unk_token" "byte_to_token b \<noteq> bos_token" "byte_to_token b \<noteq> eos_token"
  using length_byte_to_token(2) [of b] by (auto simp: unk_token_def bos_token_def eos_token_def)

lemma nth_new_token:
  assumes "k < 259" "(unk_token # map (\<lambda>i. byte_to_token (word_of_nat i)) [0..<256] @ [bos_token, eos_token]) ! k
    = byte_to_token b"
  shows "k = unat b + 1"
proof -
  from assms(1) consider "k = 0" | j where "k = Suc j" "j < 256" | "k = 257" | "k = 258"
    by (cases k) (auto, linarith)
  then show ?thesis
  proof cases
    case 2
    with assms(2) have "byte_to_token (word_of_nat j) = byte_to_token b"
      by (simp add: nth_append del: upt.simps)
    then have "word_of_nat j = b" by (rule byte_to_token_inject)
    with 2 show ?thesis by (auto simp: unat_of_nat take_bit_nat_eq_self)
  qed (use assms(2) byte_to_token_plain [of b] in \<open>simp_all add: nth_append del: upt.simps\<close>)
qed

lemma bl_new_id: "bl_token_to_id bl_new (byte_to_token b) = Some (int (unat b) + 1)"
proof -
  obtain i where i: "bl_token_to_id bl_new (byte_to_token b) = Some i"
    using bl_new_registered unfolding bl_registered_def by blast
  then have at: "token_at (bl_id_to_token bl_new) i = Some (byte_to_token b)"
    using bl_new_registered unfolding bl_registered_def by blast
  have len: "length (bl_id_to_token bl_new) = 259"
    by (simp add: bl_new_tokens del: upt.simps)
  from at have "0 \<le> i" "nat i < 259" "bl_id_to_token bl_new ! nat i = byte_to_token b"
    by (auto simp: token_at_def len split: if_splits)
  then have "nat i = unat b + 1"
    by (intro nth_new_token) (simp_all only: bl_new_tokens(1))
  with \<open>0 \<le> i\<close> have "i = int (unat b) + 1" by linarith
  with i show ?thesis by simp
qed

lemma byte_encode_new: "byte_encode bl_new s = map (\<lambda>c. int (unat c) + 1) s"
  by (simp add: byte_encode_def bl_new_id)

definition bl_after_ab :: byte_level where
  "bl_after_ab = bl_push (bl_new\<lparr>bl_merges := [((98, 99), 259)]\<rparr>) [97, 98]"

lemma length_bl_new: "length (bl_vocab bl_new) = 259" "length (bl_id_to_token bl_new) = 259"
  by (simp_all add: bl_new_tokens del: upt.simps)

lemma token_at_byte:
  "token_at (bl_id_to_token bl_new) (int (unat b) + 1) = Some (byte_to_token b)"
  using bl_new_id [of b] bl_new_registered unfolding bl_registered_def by blast

lemma ab_not_new: "bl_token_to_id bl_new [97, 98] = None"
proof (rule ccontr)
  assume "bl_token_to_id bl_new [97, 98] \<noteq> None"
  then obtain i where "bl_token_to_id bl_new [97, 98] = Some i" by auto
  then have "token_at (bl_id_to_token bl_new) i = Some [97, 98]"
    using bl_new_registered unfolding bl_registered_def by blast
  then have "[97, 98] \<in> set (bl_id_to_token bl_new)"
    by (auto simp: token_at_def in_set_conv_nth nat_less_iff split: if_splits intro!: exI [of _ "nat i"])
  then have "\<exists>b. byte_to_token b = [97, 98]"
    by (auto simp: bl_new_tokens unk_token_def bos_token_def eos_token_def simp del: upt.simps intro: sym)
  then obtain b where "byte_to_token b = [97, 98]" by blast
  then have "token_to_byte [97, 98] = b" "byte_to_token b = [97, 98]"
    using token_byte_inverse [of b] by simp_all
  then show False by (simp add: token_to_byte_def byte_to_token_def)
qed

lemma bl_train_ab: "bl_train bl_new [[97, 98, 97, 98]] 260 = Some bl_after_ab"
proof -
  have ids: "concat (map (byte_encode bl_new) [[97, 98, 97, 98]]) = [98, 99, 98, 99]"
    by (simp add: byte_encode_new)
  have best: "best_entry (bl_pair_counts [98, 99, 98, 99]) = Some ((98, 99), 2)"
    by (simp add: bl_pair_counts_def keep_best_def)
  have at: "token_at (bl_id_to_token bl_new) 98 = Some [97]"
    "token_at (bl_id_to_token bl_new) 99 = Some [98]"
    using token_at_byte [of 97] token_at_byte [of 98] by (simp_all add: byte_to_token_def)
  show ?thesis
    unfolding bl_train_def ids length_bl_new
    by (simp add: best at length_bl_new numeral_eq_Suc [of "num.One"] bl_new_id bl_add_token_def ab_not_new
        bl_after_ab_def bl_merges_new)
qed

lemma bl_encode_ab: "bl_encode bl_after_ab [97, 98, 97, 98] = [259, 259]"
proof -
  have "byte_encode bl_after_ab [97, 98, 97, 98] = [98, 99, 98, 99]"
    using bl_new_id [of 97] bl_new_id [of 98]
    by (simp add: byte_encode_def bl_after_ab_def byte_to_token_def)
  moreover have "merge_loop [((98, 99), 259)] [98, 99, 98, 99] = [259, 259]"
    by (simp add: merge_loop.simps)
  ultimately show ?thesis
    by (simp add: bl_encode_def bl_merge_tokens_def bl_after_ab_def)
qed

text \<open>After one merge of "ab", learnt from "abab", that very text does not survive the round trip.\<close>

theorem byte_level_decode_loses_merges_witness:
  "\<exists>t. bl_train bl_new [[97, 98, 97, 98]] 260 = Some t \<and>
    bl_decode t (bl_encode t [97, 98, 97, 98]) \<noteq> [97, 98, 97, 98]"
proof -
  have "length (bl_encode bl_after_ab [97, 98, 97, 98]) < length [97, 98, 97, 98 :: u8]"
    by (simp add: bl_encode_ab)
  from byte_level_decode_loses_merges [OF this] bl_train_ab show ?thesis by blast
qed

end
