(* ===== verification/Bpe_Correct.thy ===== *)
theory Bpe_Correct
  imports Bpe
begin

text \<open>
  What \<open>BPETokenizer\<close> guarantees: a table is consistent when every merged id spells what its halves
  spell; training a fresh tokenizer always gives a consistent table, merges the most frequent pair
  each time, and encoding with such a table loses nothing. Loading undoes saving, and a file cut
  short changes nothing.
\<close>

section \<open>Consistent tables\<close>

definition bpe_consistent :: "bpe \<Rightarrow> bool" where
  "bpe_consistent t =
    list_all (\<lambda>((a, b), c).
      0 \<le> a \<and> a < int (length (bpe_vocab t)) \<and> 0 \<le> b \<and> b < int (length (bpe_vocab t)) \<and>
      0 \<le> c \<and> c < int (length (bpe_vocab t)) \<and>
      bpe_vocab t ! nat c = bpe_vocab t ! nat a @ bpe_vocab t ! nat b) (bpe_merges t)"

definition bpe_bytes :: "bpe \<Rightarrow> bool" where
  "bpe_bytes t = (take 256 (bpe_vocab t) = bpe_vocab bpe_new)"

lemma spell_at: "0 \<le> i \<Longrightarrow> i < int (length (bpe_vocab t)) \<Longrightarrow> bpe_spell t i = bpe_vocab t ! nat i"
  by (simp add: bpe_spell_def token_at_def)

interpretation bpe: merge_coder bpe_merges bpe_spell bpe_consistent
proof
  fix t a b c
  assume "bpe_consistent t" "map_of (bpe_merges t) (a, b) = Some c"
  then show "bpe_spell t c = bpe_spell t a @ bpe_spell t b"
    by (auto simp: bpe_consistent_def list_all_iff spell_at dest!: map_of_SomeD bspec)
qed

lemma take_map_upt:
  assumes "take n v = map f [0..<n]" "i < n"
  shows "i < length v" "v ! i = f i"
proof -
  have "length (take n v) = n" by (simp add: assms(1))
  then show "i < length v" using assms(2) by simp
  then have "v ! i = take n v ! i" using assms(2) by simp
  then show "v ! i = f i" using assms by simp
qed

lemma bpe_spell_byte:
  assumes "bpe_bytes t" shows "bpe_spell t (uint (b :: u8)) = [b]"
proof -
  have b: "unat b < 256" "nat (uint b) = unat b"
    using unsigned_less [of b, where ?'a = nat] by simp_all
  have eq: "take 256 (bpe_vocab t) = map (\<lambda>i. [word_of_nat i]) [0..<256]"
    using assms by (simp only: bpe_bytes_def bpe_new_def bpe.simps)
  note at = take_map_upt [OF eq b(1)]
  have "uint b < int (length (bpe_vocab t))"
    using at(1) by (simp only: uint_nat of_nat_less_iff)
  then show ?thesis
    using at(2) by (simp add: spell_at b(2))
qed

lemma spell_text: "bpe_bytes t \<Longrightarrow> concat (map (bpe_spell t) (text_ids s)) = s"
  by (induction s) (simp_all add: text_ids_def bpe_spell_byte)

lemma bpe_round_trip:
  "bpe_bytes t \<Longrightarrow> bpe_consistent t \<Longrightarrow> bpe_decode t (bpe_encode t s) = s"
  by (simp add: bpe_decode_def bpe_encode_def bpe.spell_merge_loop spell_text)

section \<open>Training\<close>

lemma token_at_some: "0 \<le> i \<Longrightarrow> i < int (length v) \<Longrightarrow> token_at v i = Some (v ! nat i)"
  by (simp add: token_at_def)

lemma map_put_subset: "set (map_put k v m) \<subseteq> insert (k, v) (set m)"
  by (induction k v m rule: map_put.induct) auto

lemma bpe_consistent_entry:
  "bpe_consistent t \<longleftrightarrow> (\<forall>a b c. ((a, b), c) \<in> set (bpe_merges t) \<longrightarrow>
    0 \<le> a \<and> a < int (length (bpe_vocab t)) \<and> 0 \<le> b \<and> b < int (length (bpe_vocab t)) \<and>
    0 \<le> c \<and> c < int (length (bpe_vocab t)) \<and>
    bpe_vocab t ! nat c = bpe_vocab t ! nat a @ bpe_vocab t ! nat b)"
  by (auto simp: bpe_consistent_def list_all_iff)

lemma nth_snoc_int: "0 \<le> i \<Longrightarrow> i < int (length v) \<Longrightarrow> (v @ [x]) ! nat i = v ! nat i"
  by (subst nth_append) (simp add: nat_less_iff)

lemma consistent_extend:
  assumes "bpe_consistent t" and len: "int (length (bpe_vocab t)) = current"
    and l: "0 \<le> l" "l < current" and r: "0 \<le> r" "r < current"
  shows "bpe_consistent (bpe_add_token (t\<lparr>bpe_merges := map_put (l, r) current (bpe_merges t)\<rparr>)
    (bpe_vocab t ! nat l @ bpe_vocab t ! nat r))"
proof -
  define v where "v = bpe_vocab t"
  have n: "nat current = length v" "current = int (length v)" using len by (simp_all add: v_def)
  have old: "0 \<le> a \<and> a < current \<and> 0 \<le> b \<and> b < current \<and> 0 \<le> c \<and> c < current \<and>
      v ! nat c = v ! nat a @ v ! nat b" if "((a, b), c) \<in> set (bpe_merges t)" for a b c
    using assms(1) that unfolding bpe_consistent_entry len v_def by blast
  have "0 \<le> a \<and> a < current + 1 \<and> 0 \<le> b \<and> b < current + 1 \<and> 0 \<le> c \<and> c < current + 1 \<and>
      (v @ [v ! nat l @ v ! nat r]) ! nat c
        = (v @ [v ! nat l @ v ! nat r]) ! nat a @ (v @ [v ! nat l @ v ! nat r]) ! nat b"
    if "((a, b), c) \<in> set (map_put (l, r) current (bpe_merges t))" for a b c
  proof -
    have "((a, b), c) = ((l, r), current) \<or> ((a, b), c) \<in> set (bpe_merges t)"
      using subsetD [OF map_put_subset that] by (simp only: insert_iff)
    then show ?thesis
    proof
      assume "((a, b), c) = ((l, r), current)"
      with l r show ?thesis by (simp add: n nth_snoc_int)
    next
      assume "((a, b), c) \<in> set (bpe_merges t)"
      with old [of a b c] show ?thesis by (simp add: n nth_snoc_int)
    qed
  qed
  then show ?thesis
    unfolding bpe_consistent_entry bpe_add_token_def by (simp add: v_def len add.commute)
qed

definition trains_to :: "bpe \<Rightarrow> int \<Rightarrow> bpe option \<Rightarrow> bool" where
  "trains_to t most res = (\<exists>t'. res = Some t' \<and> bpe_consistent t' \<and>
    (\<exists>ext. bpe_vocab t' = bpe_vocab t @ ext) \<and> int (length (bpe_vocab t')) \<le> most)"

lemma bpe_train_loop_consistent:
  assumes "bpe_consistent t" "int (length (bpe_vocab t)) = current"
    "\<forall>i \<in> set ids. 0 \<le> i \<and> i < current"
  shows "trains_to t (max current vocab_size) (bpe_train_loop t ids current vocab_size)"
  using assms
proof (induction t ids current vocab_size rule: bpe_train_loop.induct)
  case (1 t ids current vocab_size)
  have stop: "trains_to t (max current vocab_size) (Some t)"
    using "1.prems" by (simp add: trains_to_def)
  show ?case
  proof (cases "current < vocab_size \<and> best_entry (pair_counts ids) \<noteq> None")
    case False
    with stop show ?thesis by (subst bpe_train_loop.simps) (auto split: option.splits)
  next
    case True
    then obtain l r n where best: "best_entry (pair_counts ids) = Some ((l, r), n)" by auto
    then have "l \<in> set ids" "r \<in> set ids"
      using best_entry_counts(1) [OF best] adjacent_set by blast+
    with "1.prems"(3) have lr: "0 \<le> l" "l < current" "0 \<le> r" "r < current" by auto
    have at: "token_at (bpe_vocab t) l = Some (bpe_vocab t ! nat l)"
      "token_at (bpe_vocab t) r = Some (bpe_vocab t ! nat r)"
      using lr "1.prems"(2) by (simp_all add: token_at_some)
    define t1 where "t1 = bpe_add_token (t\<lparr>bpe_merges := map_put (l, r) current (bpe_merges t)\<rparr>)
      (bpe_vocab t ! nat l @ bpe_vocab t ! nat r)"
    have vocab: "bpe_vocab t1 = bpe_vocab t @ [bpe_vocab t ! nat l @ bpe_vocab t ! nat r]"
      by (simp add: t1_def bpe_add_token_def)
    have "trains_to t1 (max (current + 1) vocab_size)
        (bpe_train_loop t1 (merge_pass l r current ids) (current + 1) vocab_size)"
      unfolding t1_def
    proof (rule "1.IH" [OF _ best refl])
      show "bpe_consistent (bpe_add_token (t\<lparr>bpe_merges := map_put (l, r) current (bpe_merges t)\<rparr>)
          (bpe_vocab t ! nat l @ bpe_vocab t ! nat r))"
        by (rule consistent_extend [OF "1.prems"(1,2) lr])
      show "\<forall>i \<in> set (merge_pass l r current ids). 0 \<le> i \<and> i < current + 1"
        using set_merge_pass [of l r current ids] "1.prems"(2,3) by fastforce
    qed (use True at "1.prems"(2) in \<open>simp_all add: bpe_add_token_def\<close>)
    then have "trains_to t (max current vocab_size)
        (bpe_train_loop t1 (merge_pass l r current ids) (current + 1) vocab_size)"
      using True vocab by (auto simp: trains_to_def)
    then show ?thesis
      using True by (subst bpe_train_loop.simps) (simp add: best at t1_def)
  qed
qed


lemma bpe_new_consistent: "bpe_consistent bpe_new"
  by (simp only: bpe_consistent_def bpe_new_def bpe.simps list.pred_inject)

lemma length_bpe_new: "int (length (bpe_vocab bpe_new)) = 256"
  by (simp only: bpe_new_def bpe.simps length_map length_upt)

text \<open>
  C9: A tokenizer trained from scratch, on any texts and to any vocabulary size, always comes out
  (no vocabulary access is out of bounds), stays within the requested size, encodes every byte
  string to a sequence with no mergeable pair left, and decodes what it encodes to the same bytes.
\<close>

theorem bpe_trained_lossless:
  "\<exists>t. bpe_train bpe_new texts vocab_size = Some t \<and>
    int (length (bpe_vocab t)) \<le> max 256 vocab_size \<and>
    (\<forall>s. bpe_decode t (bpe_encode t s) = s) \<and>
    (\<forall>s. first_pair (bpe_merges t) (bpe_encode t s) = None)"
proof -
  have "\<forall>i \<in> set (concat (map text_ids texts)). 0 \<le> i \<and> i < 256"
  proof (clarsimp simp: text_ids_def)
    fix b :: u8
    show "uint b < 256" using uint_lt2p [of b] by simp
  qed
  from bpe_train_loop_consistent [OF bpe_new_consistent length_bpe_new this, of vocab_size]
  obtain t ext where t: "bpe_train bpe_new texts vocab_size = Some t" "bpe_consistent t"
      "bpe_vocab t = bpe_vocab bpe_new @ ext" "int (length (bpe_vocab t)) \<le> max 256 vocab_size"
    by (auto simp: trains_to_def bpe_train_def)
  have "length (bpe_vocab bpe_new) = 256"
    using length_bpe_new by linarith
  then have bytes: "bpe_bytes t"
    by (simp add: bpe_bytes_def t(3))
  have "- 1 \<notin> snd ` set (bpe_merges t)"
    using t(2) by (auto simp: bpe_consistent_def list_all_iff)
  with t bpe_round_trip [OF bytes t(2)] show ?thesis
    by (auto simp: bpe_encode_def merge_loop_done)
qed

text \<open>
  C32: Each training step merges a pair that occurs most often in the corpus, and among those the
  least in the order of the map.
\<close>

theorem bpe_merges_most_frequent:
  assumes "best_entry (pair_counts ids) = Some (p, n)"
  shows "p \<in> set (adjacent ids) \<and>
    (\<forall>q. count_list (adjacent ids) q < count_list (adjacent ids) p \<or>
      count_list (adjacent ids) q = count_list (adjacent ids) p \<and> (q \<in> set (adjacent ids) \<longrightarrow> p \<le> q))"
  using best_entry_counts [OF assms] by blast

theorem bpe_merges_most_frequent_witness:
  "(98, 97) \<in> set (adjacent [98, 97, 99, 99, 98, 97]) \<and>
    (\<forall>q. count_list (adjacent [98, 97, 99, 99, 98, 97]) q < 2 \<or>
      count_list (adjacent [98, 97, 99, 99, 98, 97]) q = 2 \<and>
        (q \<in> set (adjacent [98, 97, 99, 99, 98, 97]) \<longrightarrow> (98, 97) \<le> q))"
  using bpe_merges_most_frequent [of "[98, 97, 99, 99, 98, 97]" "(98, 97)" 2]
  by (simp add: pair_counts_def keep_best_def)

text \<open>
  Training the same tokenizer a second time starts again at id 256 although the vocabulary has
  grown, so the new merge points at a token of the first training: after "aa" and then "bb", the
  text "bb" decodes to "aa".
\<close>

theorem bpe_trained_twice_misspells:
  "\<exists>t t'. bpe_train bpe_new [[97, 97]] 257 = Some t \<and> bpe_train t [[98, 98]] 257 = Some t' \<and>
    bpe_decode t' (bpe_encode t' [98, 98]) = [97, 97]"
proof -
  have "(case bpe_train bpe_new [[97, 97]] 257 of None \<Rightarrow> False
    | Some t \<Rightarrow> (case bpe_train t [[98, 98]] 257 of None \<Rightarrow> False
      | Some t' \<Rightarrow> bpe_decode t' (bpe_encode t' [98, 98]) = [97, 97]))"
    by code_simp
  then show ?thesis by (auto split: option.splits)
qed


section \<open>The file\<close>

definition int32 :: "int \<Rightarrow> bool" where
  "int32 i = (- (2 ^ 31) \<le> i \<and> i < 2 ^ 31)"

lemma read_int32_encoded: "int32 i \<Longrightarrow> read_int32 (encode_int32 i @ rest) = Some (i, rest)"
  by (simp add: read_int32_def stream_read_def encode_int32_def bytes_word_u32 sint_sbintrunc'
      signed_take_bit_int_eq_self int32_def)

lemma read_count_encoded:
  "n \<le> most \<Longrightarrow> most < 2 ^ 31 \<Longrightarrow>
    read_count (int most) (encode_int32 (int n) @ rest) = Some (n, rest)"
  by (subst read_count_def, subst read_int32_encoded) (simp_all add: int32_def)

lemma load_tokens_saved:
  "\<forall>tok \<in> set v. length tok \<le> 2 ^ 16 \<Longrightarrow>
    load_tokens (length v) (save_tokens v @ rest) = Some (v, rest)"
proof (induction v)
  case (Cons tok v)
  have "read_count (2 ^ 16) (encode_int32 (int (length tok)) @ tok @ save_tokens v @ rest)
      = Some (length tok, tok @ save_tokens v @ rest)"
    using read_count_encoded [of "length tok" "2 ^ 16"] Cons.prems by simp
  moreover have "save_tokens (tok # v) = encode_int32 (int (length tok)) @ tok @ save_tokens v"
    by (simp add: save_tokens_def)
  ultimately show ?case
    using Cons by (simp add: stream_read_def)
qed (simp add: save_tokens_def)

lemma load_merges_saved:
  "\<forall>((a, b), c) \<in> set m. int32 a \<and> int32 b \<and> int32 c \<Longrightarrow>
    load_merges (length m) acc (save_merges m @ rest)
      = Some (foldl (\<lambda>acc (k, v). map_put k v acc) acc m, rest)"
  by (induction m arbitrary: acc) (auto simp: save_merges_def read_int32_encoded)

definition bpe_saveable :: "bpe \<Rightarrow> bool" where
  "bpe_saveable t \<longleftrightarrow>
    length (bpe_vocab t) \<le> 2 ^ 20 \<and> (\<forall>tok \<in> set (bpe_vocab t). length tok \<le> 2 ^ 16) \<and>
    length (bpe_merges t) \<le> 2 ^ 24 \<and> map_ok (bpe_merges t) \<and>
    (\<forall>((a, b), c) \<in> set (bpe_merges t). int32 a \<and> int32 b \<and> int32 c)"

lemma load_tables_saved:
  assumes "bpe_saveable t"
  shows "load_tables (bpe_save t @ rest) = Some ((bpe_vocab t, bpe_merges t), rest)"
proof -
  have counts: "read_count (2 ^ 20) (encode_int32 (int (length (bpe_vocab t))) @ r)
      = Some (length (bpe_vocab t), r)"
    "read_count (2 ^ 24) (encode_int32 (int (length (bpe_merges t))) @ r)
      = Some (length (bpe_merges t), r)" for r
    using read_count_encoded [of "length (bpe_vocab t)" "2 ^ 20"]
      read_count_encoded [of "length (bpe_merges t)" "2 ^ 24"] assms
    by (simp_all add: bpe_saveable_def)
  have "load_merges (length (bpe_merges t)) [] (save_merges (bpe_merges t) @ rest)
      = Some (bpe_merges t, rest)"
    using assms load_merges_saved [of "bpe_merges t" "[]" rest] map_ok_rebuild [of "bpe_merges t"]
    by (simp add: bpe_saveable_def)
  with assms show ?thesis
    by (simp add: load_tables_def bpe_save_def counts [simplified] load_tokens_saved bpe_saveable_def)
qed

text \<open>Reading more bytes than a successful load needed changes nothing but what is left over.\<close>

lemma stream_read_extend:
  "stream_read n bs = Some (x, rest) \<Longrightarrow> stream_read n (bs @ extra) = Some (x, rest @ extra)"
  by (auto simp: stream_read_def split: if_splits)

lemma read_int32_extend:
  "read_int32 bs = Some (x, rest) \<Longrightarrow> read_int32 (bs @ extra) = Some (x, rest @ extra)"
  by (auto simp: read_int32_def stream_read_extend split: option.splits)

lemma read_count_extend:
  "read_count most bs = Some (x, rest) \<Longrightarrow> read_count most (bs @ extra) = Some (x, rest @ extra)"
  by (auto simp: read_count_def read_int32_extend split: option.splits if_splits)

lemma load_tokens_extend:
  "load_tokens n bs = Some (v, rest) \<Longrightarrow> load_tokens n (bs @ extra) = Some (v, rest @ extra)"
  by (induction n arbitrary: bs v)
     (force simp: read_count_extend stream_read_extend split: option.splits prod.splits)+

lemma load_merges_extend:
  "load_merges n acc bs = Some (m, rest) \<Longrightarrow> load_merges n acc (bs @ extra) = Some (m, rest @ extra)"
  by (induction n arbitrary: acc bs)
     (force simp: read_int32_extend split: option.splits prod.splits)+

lemma load_tables_extend:
  assumes "load_tables bs = Some (x, rest)"
  shows "load_tables (bs @ extra) = Some (x, rest @ extra)"
proof -
  from assms obtain vs b1 v b2 ms b3 m b4 where
    "read_count (2 ^ 20) bs = Some (vs, b1)" "load_tokens vs b1 = Some (v, b2)"
    "read_count (2 ^ 24) b2 = Some (ms, b3)" "load_merges ms [] b3 = Some (m, b4)"
    "x = (v, m)" "rest = b4"
    by (auto simp: load_tables_def split: option.splits prod.splits)
  note read_count_extend [OF this(1), of extra] load_tokens_extend [OF this(2), of extra]
    read_count_extend [OF this(3), of extra] load_merges_extend [OF this(4), of extra] this(5,6)
  then show ?thesis by (simp add: load_tables_def)
qed

text \<open>
  C18: A tokenizer within the limits of the file format is read back as it was saved, whatever
  tokenizer it is loaded into, and a file cut short anywhere leaves that tokenizer untouched.
\<close>

theorem bpe_save_load:
  assumes "bpe_saveable t"
  shows "bpe_load t0 (Some (bpe_save t)) = t0\<lparr>bpe_vocab := bpe_vocab t, bpe_merges := bpe_merges t\<rparr> \<and>
    (\<forall>n < length (bpe_save t). bpe_load t0 (Some (take n (bpe_save t))) = t0)"
proof (intro conjI allI impI)
  note full = load_tables_saved [OF assms, of "[]"]
  then show "bpe_load t0 (Some (bpe_save t))
      = t0\<lparr>bpe_vocab := bpe_vocab t, bpe_merges := bpe_merges t\<rparr>"
    by (simp add: bpe_load_def)
  fix n assume n: "n < length (bpe_save t)"
  have "load_tables (take n (bpe_save t)) = None"
  proof (rule ccontr)
    assume "load_tables (take n (bpe_save t)) \<noteq> None"
    then obtain x rest where "load_tables (take n (bpe_save t)) = Some (x, rest)" by auto
    from load_tables_extend [OF this, of "drop n (bpe_save t)"] full n show False by simp
  qed
  then show "bpe_load t0 (Some (take n (bpe_save t))) = t0" by (simp add: bpe_load_def)
qed

definition tiny_bpe :: bpe where
  "tiny_bpe = \<lparr>bpe_vocab = [[97], [98], [97, 98]], bpe_merges = [((0, 1), 2)],
    bpe_bos = 1, bpe_eos = 2, bpe_unk = 0\<rparr>"

theorem bpe_save_load_witness:
  "bpe_load bpe_new (Some (bpe_save tiny_bpe))
     = bpe_new\<lparr>bpe_vocab := [[97], [98], [97, 98]], bpe_merges := [((0, 1), 2)]\<rparr> \<and>
   bpe_load bpe_new (Some (take 30 (bpe_save tiny_bpe))) = bpe_new"
proof -
  have "length (bpe_save tiny_bpe) = 36"
    by (simp add: tiny_bpe_def bpe_save_def save_tokens_def save_merges_def encode_int32_def)
  then show ?thesis
    using bpe_save_load [of tiny_bpe bpe_new]
    by (simp add: bpe_saveable_def tiny_bpe_def int32_def)
qed

end
