(* ===== verification/Unicode_Correct.thy ===== *)
theory Unicode_Correct
  imports Unicode_Util
begin

text \<open>
  What \<open>UnicodeUtil\<close> computes: decoding inverts encoding on every Unicode code point, the scanners
  are folds over the decoded code points, whitespace splitting is the split into maximal runs, and
  the reduced NFKC pass is idempotent on every byte string.
\<close>

section \<open>The UTF-8 coder\<close>

lemma or_high_int:
  assumes "0 \<le> h" "h < 2 ^ n" "take_bit n c = 0"
  shows "c OR h = c + (h :: int)"
proof -
  have h: "h = take_bit n h"
    using assms by (simp add: take_bit_int_eq_self)
  have "c AND take_bit n h = take_bit n c AND h"
    by (rule bit_eqI) (auto simp: bit_simps)
  with h assms(3) have "c AND h = 0"
    by simp
  then show ?thesis
    by (simp add: disjunctive_add_eq_or bit_eq_iff bit_and_iff flip: disjunctive_add_eq_or)
qed

lemma and_mask_6: "cp AND 0x3F = cp mod (64 :: int)"
  using take_bit_eq_mask [of 6 cp] by (simp add: take_bit_eq_mod mask_eq_exp_minus_1)

lemma and_mask_5: "cp AND 0x1F = cp mod (32 :: int)"
  using take_bit_eq_mask [of 5 cp] by (simp add: take_bit_eq_mod mask_eq_exp_minus_1)

lemma and_mask_4: "cp AND 0x0F = cp mod (16 :: int)"
  using take_bit_eq_mask [of 4 cp] by (simp add: take_bit_eq_mod mask_eq_exp_minus_1)

lemma and_mask_3: "cp AND 0x07 = cp mod (8 :: int)"
  using take_bit_eq_mask [of 3 cp] by (simp add: take_bit_eq_mod mask_eq_exp_minus_1)

lemmas masks = and_mask_6 and_mask_5 and_mask_4 and_mask_3

lemma lead_byte:
  "0 \<le> h \<Longrightarrow> h < 64 \<Longrightarrow> 0x80 OR h = 0x80 + (h :: int)"
  "0 \<le> h \<Longrightarrow> h < 32 \<Longrightarrow> 0xC0 OR h = 0xC0 + (h :: int)"
  "0 \<le> h \<Longrightarrow> h < 16 \<Longrightarrow> 0xE0 OR h = 0xE0 + (h :: int)"
  "0 \<le> h \<Longrightarrow> h < 8 \<Longrightarrow> 0xF0 OR h = 0xF0 + (h :: int)"
  by (rule or_high_int [where n = 6] or_high_int [where n = 5] or_high_int [where n = 4]
      or_high_int [where n = 3]; simp add: take_bit_eq_mod)+

lemma uint_byte: "0 \<le> x \<Longrightarrow> x < 256 \<Longrightarrow> uint (word_of_int x :: u8) = x"
  by (simp add: uint_word_of_int)

lemma shift_or_6: "0 \<le> l \<Longrightarrow> l < 64 \<Longrightarrow> push_bit 6 h OR l = 64 * h + (l :: int)"
  by (subst or_high_int [where n = 6]) (simp_all add: push_bit_eq_mult take_bit_eq_mod)

lemma shift_or_12:
  "0 \<le> m \<Longrightarrow> m < 64 \<Longrightarrow> push_bit 12 h OR push_bit 6 m = 4096 * h + 64 * (m :: int)"
  by (subst or_high_int [where n = 12]) (simp_all add: push_bit_eq_mult take_bit_eq_mod)

lemma shift_or_18:
  "0 \<le> m \<Longrightarrow> m < 64 \<Longrightarrow> push_bit 18 h OR push_bit 12 m = 262144 * h + 4096 * (m :: int)"
  by (subst or_high_int [where n = 18]) (simp_all add: push_bit_eq_mult take_bit_eq_mod)


definition code_point :: "int \<Rightarrow> bool" where
  "code_point cp = (0 \<le> cp \<and> cp < 0x110000)"

lemma utf8_encode_arith:
  assumes "code_point cp"
  shows "utf8_encode cp =
    (if cp < 128 then [word_of_int cp]
     else if cp < 2048 then [word_of_int (192 + cp div 64), word_of_int (128 + cp mod 64)]
     else if cp < 65536 then
       [word_of_int (224 + cp div 4096), word_of_int (128 + cp div 64 mod 64),
        word_of_int (128 + cp mod 64)]
     else
       [word_of_int (240 + cp div 262144), word_of_int (128 + cp div 4096 mod 64),
        word_of_int (128 + cp div 64 mod 64), word_of_int (128 + cp mod 64)])"
proof -
  have "cp < 2048 \<Longrightarrow> 192 OR cp div 64 = 192 + cp div 64"
    "cp < 65536 \<Longrightarrow> 224 OR cp div 4096 = 224 + cp div 4096"
    "240 OR cp div 262144 = 240 + cp div 262144"
    using assms lead_byte(2) [of "cp div 64"] lead_byte(3) [of "cp div 4096"]
      lead_byte(4) [of "cp div 262144"] by (simp_all add: code_point_def, linarith?)
  moreover have "128 OR x mod 64 = 128 + x mod 64" for x :: int
    using lead_byte(1) [of "x mod 64"] by simp
  ultimately show ?thesis
    using assms by (simp add: utf8_encode_def code_point_def masks drop_bit_eq_div)
qed

lemma low_part: "0 \<le> h \<Longrightarrow> h < m \<Longrightarrow> c mod m = 0 \<Longrightarrow> (c + h) mod m = (h :: int)"
  by (simp add: mod_add_left_eq [of c m h, symmetric])

lemma lead_bits:
  "0 \<le> h \<Longrightarrow> h < 32 \<Longrightarrow> uint (word_of_int (192 + h) :: u8) = 192 + h"
  "0 \<le> h \<Longrightarrow> h < 16 \<Longrightarrow> uint (word_of_int (224 + h) :: u8) = 224 + h"
  "0 \<le> h \<Longrightarrow> h < 8 \<Longrightarrow> uint (word_of_int (240 + h) :: u8) = 240 + h"
  by (rule uint_byte; simp)+

lemma low_bits:
  "0 \<le> h \<Longrightarrow> h < 32 \<Longrightarrow> (192 + h) AND 0x1F = (h :: int)"
  "0 \<le> h \<Longrightarrow> h < 16 \<Longrightarrow> (224 + h) AND 0x0F = h"
  "0 \<le> h \<Longrightarrow> h < 8 \<Longrightarrow> (240 + h) AND 0x07 = h"
  "0 \<le> h \<Longrightarrow> h < 64 \<Longrightarrow> (128 + h) AND 0x3F = h"
  by (simp_all only: masks) (rule low_part; simp)+

lemma continuation: "uint (word_of_int (128 + x mod 64) :: u8) AND 0x3F = x mod 64"
proof -
  have "0 \<le> x mod 64" "x mod 64 < 64" by simp_all
  then have "uint (word_of_int (128 + x mod 64) :: u8) = 128 + x mod 64"
    by (intro uint_byte; linarith)
  moreover have "(128 + x mod 64) AND 0x3F = x mod 64"
    by (rule low_bits(4)) simp_all
  ultimately show ?thesis by simp
qed

lemma shifted_two: "push_bit 6 (x div 64) OR x mod 64 = (x :: int)"
  by (subst shift_or_6) simp_all

lemma shifted_three: "push_bit 12 (x div 4096) OR push_bit 6 (x div 64 mod 64) = push_bit 6 (x div 64)"
  for x :: int
  using arg_cong [OF shifted_two [of "x div 64"], of "push_bit 6"]
  by (simp add: push_bit_or push_bit_push_bit zdiv_zmult2_eq [symmetric])

lemma shifted_four:
  "push_bit 18 (x div 262144) OR push_bit 12 (x div 4096 mod 64) = push_bit 12 (x div 4096)"
  for x :: int
  using arg_cong [OF shifted_two [of "x div 4096"], of "push_bit 12"]
  by (simp add: push_bit_or push_bit_push_bit zdiv_zmult2_eq [symmetric])

lemma shifted_tails:
  "push_bit 12 (x div 4096) OR push_bit 6 (x div 64 mod 64) OR c = push_bit 6 (x div 64) OR c"
  "push_bit 18 (x div 262144) OR push_bit 12 (x div 4096 mod 64) OR c = push_bit 12 (x div 4096) OR c"
  for x c :: int
  by (simp_all only: or.assoc [symmetric] shifted_three shifted_four)

lemmas shifted = shifted_two shifted_tails

lemma utf8_decode_encode:
  assumes "code_point cp"
  shows "utf8_decode (pre @ utf8_encode cp @ rest) (length pre)
    = (cp, length pre + length (utf8_encode cp))"
proof -
  consider "cp < 128" | "128 \<le> cp" "cp < 2048" | "2048 \<le> cp" "cp < 65536" | "65536 \<le> cp"
    by linarith
  then show ?thesis
  proof cases
    case 1
    with assms show ?thesis
      by (simp add: utf8_encode_arith utf8_decode_def code_point_def nth_append uint_byte)
  next
    case 2
    have "0 \<le> cp div 64" "cp div 64 < 32" using 2 by simp_all
    note h = this lead_bits(1) [OF this] low_bits(1) [OF this]
    from h 2 assms show ?thesis
      by (simp add: utf8_encode_arith utf8_decode_def Let_def nth_append continuation [simplified] shifted)
  next
    case 3
    have "0 \<le> cp div 4096" "cp div 4096 < 16" using 3 by simp_all
    note h = this lead_bits(2) [OF this] low_bits(2) [OF this]
    from h 3 assms show ?thesis
      by (simp add: utf8_encode_arith utf8_decode_def Let_def nth_append continuation [simplified] shifted)
  next
    case 4
    have "0 \<le> cp div 262144" "cp div 262144 < 8" using 4 assms by (simp_all add: code_point_def)
    note h = this lead_bits(3) [OF this] low_bits(3) [OF this]
    from h 4 assms show ?thesis
      by (simp add: utf8_encode_arith utf8_decode_def Let_def nth_append continuation [simplified] shifted)
  qed
qed


lemma utf8_encode_not_empty: "code_point cp \<Longrightarrow> utf8_encode cp \<noteq> []"
  by (simp add: utf8_encode_arith)

lemma codepoints_to_utf8_simps [simp]:
  "codepoints_to_utf8 [] = []"
  "codepoints_to_utf8 (cp # cps) = utf8_encode cp @ codepoints_to_utf8 cps"
  "codepoints_to_utf8 (xs @ ys) = codepoints_to_utf8 xs @ codepoints_to_utf8 ys"
  by (simp_all add: codepoints_to_utf8_def)

lemma codepoints_from_encoded:
  "list_all code_point cps \<Longrightarrow> codepoints_from (pre @ codepoints_to_utf8 cps) (length pre) = cps"
proof (induction cps arbitrary: pre)
  case Nil
  then show ?case by (simp add: codepoints_from.simps)
next
  case (Cons cp cps)
  then have "code_point cp" by simp
  moreover have "codepoints_from ((pre @ utf8_encode cp) @ codepoints_to_utf8 cps)
      (length (pre @ utf8_encode cp)) = cps"
    using Cons by (intro Cons.IH) simp
  ultimately show ?case
    by (subst codepoints_from.simps)
       (simp add: utf8_decode_encode utf8_encode_not_empty code_point_def)
qed

text \<open>Decoding the UTF-8 of any sequence of Unicode code points gives the sequence back.\<close>

theorem utf8_round_trip:
  "list_all code_point cps \<Longrightarrow> utf8_to_codepoints (codepoints_to_utf8 cps) = cps"
  using codepoints_from_encoded [of cps "[]"] by (simp add: utf8_to_codepoints_def)

theorem utf8_round_trip_witness:
  "utf8_to_codepoints (codepoints_to_utf8 [0x41, 0xE9, 0x4E2D, 0x1F600]) = [0x41, 0xE9, 0x4E2D, 0x1F600]"
  by (rule utf8_round_trip) (simp add: code_point_def)

section \<open>Scanners as folds over code points\<close>

lemma codepoints_from_step:
  "pos < length s \<Longrightarrow> utf8_decode s pos = (cp, p) \<Longrightarrow> codepoints_from s pos = cp # codepoints_from s p"
  using utf8_decode_nonneg [of pos s] by (subst codepoints_from.simps) simp

lemma codepoints_from_end: "\<not> pos < length s \<Longrightarrow> codepoints_from s pos = []"
  by (subst codepoints_from.simps) simp

lemma codepoints_from_nonneg: "cp \<in> set (codepoints_from s pos) \<Longrightarrow> 0 \<le> cp"
proof (induction s pos rule: codepoints_from.induct)
  case (1 s pos)
  show ?case
  proof (cases "pos < length s")
    case True
    obtain c p where d: "utf8_decode s pos = (c, p)" by force
    have "0 \<le> c" using utf8_decode_nonneg [OF True] d by simp
    then show ?thesis
      using "1.IH"(1) [OF True d [symmetric] refl] "1.prems" codepoints_from_step [OF True d] by auto
  qed (use "1.prems" in \<open>simp add: codepoints_from_end\<close>)
qed

definition split_step :: "bytes list \<times> bytes \<Rightarrow> int \<Rightarrow> bytes list \<times> bytes" where
  "split_step = (\<lambda>(result, current) cp.
    if is_whitespace cp then (if current \<noteq> [] then (result @ [current], []) else (result, current))
    else (result, current @ utf8_encode cp))"

definition flush :: "bytes list \<times> bytes \<Rightarrow> bytes list" where
  "flush = (\<lambda>(result, current). if current \<noteq> [] then result @ [current] else result)"

lemma split_ws_loop_fold:
  "split_ws_loop s pos result current = flush (foldl split_step (result, current) (codepoints_from s pos))"
proof (induction s pos result current rule: split_ws_loop.induct)
  case (1 s pos result current)
  show ?case
  proof (cases "pos < length s")
    case True
    obtain cp p where d: "utf8_decode s pos = (cp, p)" by force
    have "0 \<le> cp" using utf8_decode_nonneg [OF True] d by simp
    with 1 [OF True] True d show ?thesis
      by (subst split_ws_loop.simps) (simp add: codepoints_from_step split_step_def)
  qed (simp add: split_ws_loop.simps codepoints_from_end flush_def)
qed

lemma nfkc_loop_fold: "nfkc_loop s pos result = result @ concat (map nfkc_piece (codepoints_from s pos))"
proof (induction s pos result rule: nfkc_loop.induct)
  case (1 s pos result)
  show ?case
  proof (cases "pos < length s")
    case True
    obtain cp p where d: "utf8_decode s pos = (cp, p)" by force
    have "0 \<le> cp" using utf8_decode_nonneg [OF True] d by simp
    with 1 [OF True] True d show ?thesis
      by (subst nfkc_loop.simps) (simp add: codepoints_from_step)
  qed (simp add: nfkc_loop.simps codepoints_from_end)
qed


section \<open>Whitespace splitting\<close>

text \<open>The reference: the maximal runs of code points that are not whitespace.\<close>

function words :: "int list \<Rightarrow> int list list" where
  "words [] = []"
| "words (c # cs) =
    (if is_whitespace c then words cs
     else (c # takeWhile (\<lambda>x. \<not> is_whitespace x) cs) # words (dropWhile (\<lambda>x. \<not> is_whitespace x) cs))"
  by pat_completeness auto
termination
  by (relation "measure length") (auto simp: le_imp_less_Suc length_dropWhile_le)

lemma split_step_simps:
  "is_whitespace c \<Longrightarrow> split_step (result, []) c = (result, [])"
  "\<not> is_whitespace c \<Longrightarrow> split_step (result, current) c = (result, current @ utf8_encode c)"
  by (simp_all add: split_step_def)

lemma split_run:
  "current \<noteq> [] \<Longrightarrow> flush (foldl split_step (result, current) cs)
    = flush (foldl split_step
        (result @ [current @ codepoints_to_utf8 (takeWhile (\<lambda>x. \<not> is_whitespace x) cs)], [])
        (dropWhile (\<lambda>x. \<not> is_whitespace x) cs))"
  by (induction cs arbitrary: current) (simp_all add: split_step_def flush_def)

lemma split_words:
  "list_all code_point cps \<Longrightarrow>
    flush (foldl split_step (result, []) cps) = result @ map codepoints_to_utf8 (words cps)"
proof (induction cps arbitrary: result rule: words.induct)
  case 1
  then show ?case by (simp add: flush_def)
next
  case (2 c cs)
  show ?case
  proof (cases "is_whitespace c")
    case True
    with 2 show ?thesis by (simp add: split_step_def)
  next
    case False
    have "list_all code_point (dropWhile (\<lambda>x. \<not> is_whitespace x) cs)"
      using "2.prems" by (auto simp: list_all_iff dest: set_dropWhileD)
    then have rest: "flush (foldl split_step (r, []) (dropWhile (\<lambda>x. \<not> is_whitespace x) cs))
        = r @ map codepoints_to_utf8 (words (dropWhile (\<lambda>x. \<not> is_whitespace x) cs))" for r
      using "2.IH"(2) False by blast
    have "utf8_encode c \<noteq> []"
      using "2.prems" by (simp add: utf8_encode_not_empty)
    note split_run [OF this, of result cs]
    then show ?thesis
      by (simp add: False split_step_simps rest)
  qed
qed

text \<open>Splitting the UTF-8 text of any Unicode code points on whitespace gives, in order, the
  UTF-8 text of its maximal whitespace-free runs; in particular no word is empty.\<close>

theorem split_on_whitespace_words:
  assumes "list_all code_point cps"
  shows "split_on_whitespace (codepoints_to_utf8 cps) = map codepoints_to_utf8 (words cps)"
  using split_words [OF assms, of "[]"] codepoints_from_encoded [OF assms, of "[]"]
  by (simp add: split_on_whitespace_def split_ws_loop_fold)

theorem split_on_whitespace_words_witness:
  "split_on_whitespace (codepoints_to_utf8 [0x20, 0x48, 0x4E2D, 0x3000, 0x1F600, 0x0A])
    = map codepoints_to_utf8 [[0x48, 0x4E2D], [0x1F600]]"
  by (subst split_on_whitespace_words)
     (simp_all add: code_point_def is_whitespace_def in_ranges_def)

section \<open>The reduced NFKC pass\<close>

definition nfkc_points :: "int \<Rightarrow> int list" where
  "nfkc_points cp =
    (if is_control cp \<and> cp \<noteq> 0x000A \<and> cp \<noteq> 0x000D \<and> cp \<noteq> 0x0009 then []
     else if cp = 0x00B7 then [0x002E]
     else if cp = 0x2126 then [0x03A9]
     else if cp = 0x212B then [0x00C5]
     else if cp = 0x00AA then [0x0061]
     else if cp = 0x00BA then [0x006F]
     else if cp = 0x212A then [0x004B]
     else if cp < 0x110000 then [cp] else [])"

lemma nfkc_piece_points: "nfkc_piece cp = codepoints_to_utf8 (nfkc_points cp)"
  by (simp add: nfkc_piece_def nfkc_points_def utf8_encode_def [of cp])

lemma nfkc_points_settled:
  "0 \<le> cp \<Longrightarrow> c \<in> set (nfkc_points cp) \<Longrightarrow> code_point c \<and> nfkc_piece c = utf8_encode c"
  by (auto simp: nfkc_points_def nfkc_piece_def code_point_def is_control_def in_ranges_def
      split: if_splits)

lemma nfkc_normalize_points:
  "nfkc_normalize s = codepoints_to_utf8 (concat (map nfkc_points (utf8_to_codepoints s)))"
proof -
  have "concat (map nfkc_piece cps) = codepoints_to_utf8 (concat (map nfkc_points cps))" for cps
    by (induction cps) (simp_all add: nfkc_piece_points)
  then show ?thesis
    by (simp add: nfkc_normalize_def nfkc_loop_fold utf8_to_codepoints_def)
qed

text \<open>Normalising is idempotent on every byte string, well-formed UTF-8 or not: the first pass
  leaves well-formed text that the second pass does not change.\<close>

theorem nfkc_idempotent: "nfkc_normalize (nfkc_normalize s) = nfkc_normalize s"
proof -
  define ps where "ps = concat (map nfkc_points (utf8_to_codepoints s))"
  have settled: "code_point c \<and> nfkc_piece c = utf8_encode c" if "c \<in> set ps" for c
  proof -
    obtain cp where "cp \<in> set (codepoints_from s 0)" "c \<in> set (nfkc_points cp)"
      using \<open>c \<in> set ps\<close> by (auto simp: ps_def utf8_to_codepoints_def)
    then show ?thesis
      using nfkc_points_settled codepoints_from_nonneg by blast
  qed
  then have "list_all code_point ps"
    by (simp add: list_all_iff)
  then have "utf8_to_codepoints (codepoints_to_utf8 ps) = ps"
    using codepoints_from_encoded [of ps "[]"] by (simp add: utf8_to_codepoints_def)
  moreover have "map nfkc_piece ps = map utf8_encode ps"
    using settled by (intro map_cong) simp_all
  then have "concat (map nfkc_piece ps) = codepoints_to_utf8 ps"
    by (simp only: codepoints_to_utf8_def)
  ultimately show ?thesis
    by (simp add: nfkc_normalize_points [of s] ps_def [symmetric])
       (simp add: nfkc_normalize_def nfkc_loop_fold utf8_to_codepoints_def)
qed

end
