(* ===== verification/Multilingual.thy ===== *)
theory Multilingual
  imports Bpe_Correct Unicode_Correct
begin

text \<open>
  \<open>MultiLingualTokenizer\<close> of src/src/tokenizer/bpe_tokenizer_advanced.cpp: the language splitter, the
  segment coder, training, the language tags, and decoding. Its table is that of \<open>BPETokenizer\<close> with
  three special tokens behind the bytes; the lemmas read it through that view. \<open>load\<close>, which uses
  what it reads without testing the stream, is left out.
\<close>

record multilingual =
  ml_vocab :: "bytes list"
  ml_merges :: merge_map
  ml_token_to_id :: "bytes \<rightharpoonup> int"
  ml_special_ids :: "int list"
  ml_lang_tags :: "bytes list"
  ml_bos :: int
  ml_eos :: int
  ml_unk :: int

definition ml_push :: "multilingual \<Rightarrow> bytes \<Rightarrow> int \<Rightarrow> multilingual" where
  "ml_push t tok i = t\<lparr>ml_vocab := ml_vocab t @ [tok], ml_token_to_id := (ml_token_to_id t)(tok \<mapsto> i)\<rparr>"

definition special_tokens :: "bytes list" where
  "special_tokens = [[0x3C, 0x75, 0x6E, 0x6B, 0x3E], [0x3C, 0x62, 0x6F, 0x73, 0x3E],
    [0x3C, 0x65, 0x6F, 0x73, 0x3E]]"

definition ml_new :: multilingual where
  "ml_new =
    (let t0 = \<lparr>ml_vocab = [], ml_merges = [], ml_token_to_id = Map.empty, ml_special_ids = [],
               ml_lang_tags = [], ml_bos = 1, ml_eos = 2, ml_unk = 0\<rparr>;
         t1 = foldl (\<lambda>t i. ml_push t [word_of_nat i] (int i)) t0 [0..<256];
         t2 = ml_push t1 (special_tokens ! 0) 256;
         t3 = ml_push t2 (special_tokens ! 1) 257;
         t4 = ml_push t3 (special_tokens ! 2) 258
     in t4\<lparr>ml_unk := 256, ml_bos := 257, ml_eos := 258\<rparr>)"

definition ml_vocab_size :: "multilingual \<Rightarrow> int" where
  "ml_vocab_size t = int (length (ml_vocab t)) + int (length (ml_lang_tags t))"

definition lang_tag :: "bytes \<Rightarrow> bytes" where
  "lang_tag lang = [0x3C] @ lang @ [0x3E]"

definition ml_add_language_token :: "multilingual \<Rightarrow> bytes \<Rightarrow> multilingual" where
  "ml_add_language_token t lang =
    (let t1 = t\<lparr>ml_lang_tags := ml_lang_tags t @ [lang]\<rparr>;
         t2 = ml_push t1 (lang_tag lang) (int (length (ml_vocab t1)))
     in t2\<lparr>ml_special_ids := ml_special_ids t2 @ [int (length (ml_vocab t2)) - 1]\<rparr>)"

section \<open>Splitting by language\<close>

datatype seg_lang = Unknown | Cjk | Txt | Oth

definition seg_lang_of :: "int \<Rightarrow> seg_lang" where
  "seg_lang_of cp = (if is_cjk cp then Cjk else if is_letter cp \<or> is_digit cp then Txt else Oth)"

function split_lang_loop :: "bytes \<Rightarrow> nat \<Rightarrow> bytes list \<Rightarrow> bytes \<Rightarrow> seg_lang \<Rightarrow> bytes list" where
  "split_lang_loop s pos segments current lang =
    (if pos < length s then
       let (cp, p) = utf8_decode s pos in
       if cp < 0 then (if current \<noteq> [] then segments @ [current] else segments)
       else
         let seg = seg_lang_of cp in
         if seg \<noteq> lang \<and> current \<noteq> [] \<and> seg = Cjk then
           split_lang_loop s p (segments @ [current]) ([] @ utf8_encode cp) seg
         else if seg \<noteq> lang \<and> current \<noteq> [] \<and> lang = Cjk then
           split_lang_loop s p (segments @ [current]) ([] @ utf8_encode cp) seg
         else split_lang_loop s p segments (current @ utf8_encode cp) seg
     else if current \<noteq> [] then segments @ [current] else segments)"
  by pat_completeness auto
termination
  by (relation "measure (\<lambda>(s, pos, _). length s - pos)") (auto intro: utf8_decode_measure)

declare split_lang_loop.simps [simp del]

definition split_by_language :: "bytes \<Rightarrow> bytes list" where
  "split_by_language s = split_lang_loop s 0 [] [] Unknown"

section \<open>Encoding and decoding\<close>

definition encode_segment :: "multilingual \<Rightarrow> bytes \<Rightarrow> int list" where
  "encode_segment t segment = merge_all_loop (ml_merges t) (map uint segment)"

definition ml_encode :: "multilingual \<Rightarrow> bytes \<Rightarrow> int list" where
  "ml_encode t s = concat (map (encode_segment t) (split_by_language s))"

definition ml_spell :: "multilingual \<Rightarrow> int \<Rightarrow> bytes" where
  "ml_spell t i =
    (if 0 \<le> i \<and> i < 256 then [word_of_int i]
     else if 256 \<le> i \<and> i < int (length (ml_vocab t)) then ml_vocab t ! nat i
     else [])"

definition ml_decode :: "multilingual \<Rightarrow> int list \<Rightarrow> bytes" where
  "ml_decode t ids = concat (map (ml_spell t) ids)"

definition encode_with_lang_tag :: "multilingual \<Rightarrow> bytes \<Rightarrow> bytes \<Rightarrow> int list" where
  "encode_with_lang_tag t s lang =
    (let tag = (case ml_token_to_id t (lang_tag lang) of Some i \<Rightarrow> [i] | None \<Rightarrow> [])
     in tag @ ml_encode t s @ tag)"

section \<open>Training\<close>

definition ml_piece :: "multilingual \<Rightarrow> int \<Rightarrow> bytes" where
  "ml_piece t i = (case token_at (ml_vocab t) i of Some tok \<Rightarrow> tok | None \<Rightarrow> [word_of_int i])"

function ml_train_loop :: "multilingual \<Rightarrow> int list \<Rightarrow> int \<Rightarrow> int \<Rightarrow> multilingual" where
  "ml_train_loop t ids current vocab_size =
    (if current < vocab_size then
       (case best_entry (pair_counts ids) of
          None \<Rightarrow> t
        | Some ((l, r), _) \<Rightarrow>
            ml_train_loop
              (ml_push (t\<lparr>ml_merges := map_put (l, r) current (ml_merges t)\<rparr>)
                 (ml_piece t l @ ml_piece t r) current)
              (merge_pass l r current ids) (current + 1) vocab_size)
     else t)"
  by pat_completeness auto
termination
  by (relation "measure (\<lambda>(t, ids, current, vocab_size). nat (vocab_size - current))") auto

declare ml_train_loop.simps [simp del]

definition ml_train :: "multilingual \<Rightarrow> bytes list \<Rightarrow> int \<Rightarrow> multilingual" where
  "ml_train t corpus vocab_size = ml_train_loop t (concat (map (map uint) corpus)) 259 vocab_size"

definition ml_save :: "multilingual \<Rightarrow> bytes" where
  "ml_save t =
    encode_int32 (int (length (ml_vocab t))) @ save_tokens (ml_vocab t) @
    encode_int32 (int (length (ml_merges t))) @ save_merges (ml_merges t)"

end
