(* ===== verification/Multilingual_Correct.thy ===== *)
theory Multilingual_Correct
  imports Multilingual
begin

text \<open>
  The multilingual tokenizer normalises its input to the UTF-8 of the code points it decodes and
  loses nothing else, provided it was trained before any language tag was added; a tag added first
  is what the trained merges then spell.
\<close>

section \<open>The table seen as that of \<open>BPETokenizer\<close>\<close>

definition as_bpe :: "multilingual \<Rightarrow> bpe" where
  "as_bpe t = \<lparr>bpe_vocab = ml_vocab t, bpe_merges = ml_merges t,
    bpe_bos = ml_bos t, bpe_eos = ml_eos t, bpe_unk = ml_unk t\<rparr>"

definition ml_consistent :: "multilingual \<Rightarrow> bool" where
  "ml_consistent t = (bpe_consistent (as_bpe t) \<and> bpe_bytes (as_bpe t))"

lemma ml_spell_as_bpe:
  assumes "bpe_bytes (as_bpe t)"
  shows "ml_spell t i = bpe_spell (as_bpe t) i"
proof (cases "0 \<le> i \<and> i < 256")
  case True
  then have "uint (word_of_int i :: u8) = i" by (intro uint_byte) simp_all
  with bpe_spell_byte [OF assms, of "word_of_int i"] True show ?thesis
    by (simp add: ml_spell_def)
next
  case False
  then show ?thesis by (auto simp: ml_spell_def bpe_spell_def token_at_def as_bpe_def)
qed

interpretation ml: merge_coder ml_merges ml_spell ml_consistent
proof
  fix t a b c
  assume "ml_consistent t" "map_of (ml_merges t) (a, b) = Some c"
  then show "ml_spell t c = ml_spell t a @ ml_spell t b"
    using bpe.spell_merged [of "as_bpe t" a b c]
    by (simp add: ml_consistent_def ml_spell_as_bpe) (simp add: as_bpe_def)
qed

text \<open>Training is that of \<open>BPETokenizer\<close> wherever the latter is defined.\<close>

lemma ml_train_refines:
  "bpe_train_loop b ids current vocab_size = Some b' \<Longrightarrow>
    bpe_vocab b = ml_vocab t \<Longrightarrow> bpe_merges b = ml_merges t \<Longrightarrow>
    ml_vocab (ml_train_loop t ids current vocab_size) = bpe_vocab b' \<and>
    ml_merges (ml_train_loop t ids current vocab_size) = bpe_merges b'"
proof (induction b ids current vocab_size arbitrary: t rule: bpe_train_loop.induct)
  case (1 b ids current vocab_size)
  show ?case
  proof (cases "current < vocab_size \<and> best_entry (pair_counts ids) \<noteq> None")
    case False
    with "1.prems" show ?thesis
      by (subst ml_train_loop.simps, subst ml_train_loop.simps)
         (auto simp: bpe_train_loop.simps [of b] split: option.splits if_splits)
  next
    case True
    then obtain l r n where best: "best_entry (pair_counts ids) = Some ((l, r), n)" by auto
    obtain x y where xy: "token_at (bpe_vocab b) l = Some x" "token_at (bpe_vocab b) r = Some y"
      using True "1.prems"(1) best
      by (subst (asm) bpe_train_loop.simps) (auto split: option.splits)
    have step: "bpe_train_loop
        (bpe_add_token (b\<lparr>bpe_merges := map_put (l, r) current (bpe_merges b)\<rparr>) (x @ y))
        (merge_pass l r current ids) (current + 1) vocab_size = Some b'"
      using True "1.prems"(1) best xy by (subst (asm) bpe_train_loop.simps) simp
    define t1 where "t1 = ml_push (t\<lparr>ml_merges := map_put (l, r) current (ml_merges t)\<rparr>)
      (ml_piece t l @ ml_piece t r) current"
    have "ml_vocab (ml_train_loop t1 (merge_pass l r current ids) (current + 1) vocab_size) = bpe_vocab b' \<and>
        ml_merges (ml_train_loop t1 (merge_pass l r current ids) (current + 1) vocab_size) = bpe_merges b'"
      using True best xy "1.prems"(2,3)
      by (intro "1.IH" [OF _ best refl refl refl xy step])
         (simp_all add: t1_def ml_push_def bpe_add_token_def ml_piece_def)
    moreover have "ml_train_loop t ids current vocab_size
        = ml_train_loop t1 (merge_pass l r current ids) (current + 1) vocab_size"
      using True by (subst ml_train_loop.simps) (simp add: best t1_def)
    ultimately show ?thesis by simp
  qed
qed


section \<open>Splitting keeps the text\<close>

lemma concat_split_lang:
  "concat (split_lang_loop s pos segments current lang)
    = concat segments @ current @ codepoints_to_utf8 (codepoints_from s pos)"
proof (induction s pos segments current lang rule: split_lang_loop.induct)
  case (1 s pos segments current lang)
  show ?case
  proof (cases "pos < length s")
    case True
    obtain cp p where d: "utf8_decode s pos = (cp, p)" by force
    have pos: "\<not> cp < 0" using utf8_decode_nonneg [OF True] d by simp
    note IH = "1.IH" [OF True d [symmetric] refl pos refl]
    consider (cjk) "seg_lang_of cp \<noteq> lang \<and> current \<noteq> [] \<and> seg_lang_of cp = Cjk"
      | (other) "\<not> (seg_lang_of cp \<noteq> lang \<and> current \<noteq> [] \<and> seg_lang_of cp = Cjk)"
          "seg_lang_of cp \<noteq> lang \<and> current \<noteq> [] \<and> lang = Cjk"
      | (same) "\<not> (seg_lang_of cp \<noteq> lang \<and> current \<noteq> [] \<and> seg_lang_of cp = Cjk)"
          "\<not> (seg_lang_of cp \<noteq> lang \<and> current \<noteq> [] \<and> lang = Cjk)"
      by blast
    then show ?thesis
    proof cases
      case cjk
      from IH(1) [OF this] show ?thesis
        by (subst split_lang_loop.simps)
           (simp only: True d Let_def case_prod_conv if_True if_False pos cjk if_P [OF cjk]
             codepoints_from_step codepoints_to_utf8_simps concat_append, use cjk in auto)
    next
      case other
      from IH(2) [OF this] show ?thesis
        by (subst split_lang_loop.simps)
           (simp only: True d Let_def case_prod_conv if_True if_False pos if_not_P [OF other(1)]
             if_P [OF other(2)] codepoints_from_step codepoints_to_utf8_simps concat_append, simp)
    next
      case same
      from IH(3) [OF this] show ?thesis
        by (subst split_lang_loop.simps)
           (simp only: True d Let_def case_prod_conv if_True if_False pos if_not_P [OF same(1)]
             if_not_P [OF same(2)] codepoints_from_step codepoints_to_utf8_simps concat_append, simp)
    qed
  qed (simp add: split_lang_loop.simps codepoints_from_end)
qed

lemma ml_round_trip:
  assumes "ml_consistent t"
  shows "ml_decode t (ml_encode t s) = codepoints_to_utf8 (utf8_to_codepoints s)"
proof -
  have bytes: "concat (map (ml_spell t) (map uint seg)) = seg" for seg :: bytes
    using assms spell_text [of "as_bpe t" seg]
    by (simp add: ml_consistent_def ml_spell_as_bpe text_ids_def cong: map_cong)
  have seg: "concat (map (ml_spell t) (encode_segment t seg)) = seg" for seg
    unfolding encode_segment_def by (simp only: ml.spell_merge_all_loop [OF assms] bytes)
  have "concat (map (ml_spell t) (concat (map (encode_segment t) segs))) = concat segs" for segs
    by (induction segs) (simp_all add: seg)
  then have "ml_decode t (ml_encode t s) = concat (split_by_language s)"
    by (simp only: ml_decode_def ml_encode_def)
  then show ?thesis
    by (simp add: split_by_language_def concat_split_lang utf8_to_codepoints_def)
qed


section \<open>Training from scratch\<close>

lemma ml_push_fields [simp]:
  "ml_vocab (ml_push t tok i) = ml_vocab t @ [tok]"
  "ml_merges (ml_push t tok i) = ml_merges t"
  by (simp_all add: ml_push_def)

lemma ml_new_fields:
  "ml_vocab ml_new = bpe_vocab bpe_new @ special_tokens" "ml_merges ml_new = []"
proof -
  have "ml_vocab (foldl (\<lambda>t i. ml_push t (f i) (int i)) t is) = ml_vocab t @ map f is"
    and "ml_merges (foldl (\<lambda>t i. ml_push t (f i) (int i)) t is) = ml_merges t" for f t "is"
    by (induction "is" arbitrary: t) simp_all
  note fold = this
  show "ml_vocab ml_new = bpe_vocab bpe_new @ special_tokens" "ml_merges ml_new = []"
    by (simp_all add: ml_new_def Let_def fold bpe_new_def special_tokens_def del: upt.simps)
qed

text \<open>
  A multilingual tokenizer trained from scratch, on any corpus and to any size, decodes what it
  encodes to the UTF-8 of the code points of the text: the bytes themselves for well-formed text.
\<close>

theorem multilingual_trained_round_trip:
  "(\<forall>s. ml_decode (ml_train ml_new corpus vocab_size) (ml_encode (ml_train ml_new corpus vocab_size) s)
      = codepoints_to_utf8 (utf8_to_codepoints s)) \<and>
    (\<forall>cps. list_all code_point cps \<longrightarrow>
      ml_decode (ml_train ml_new corpus vocab_size)
        (ml_encode (ml_train ml_new corpus vocab_size) (codepoints_to_utf8 cps)) = codepoints_to_utf8 cps)"
proof -
  define t where "t = ml_train ml_new corpus vocab_size"
  define ids where "ids = concat (map (map uint) corpus :: int list list)"
  have ids: "\<forall>i \<in> set ids. 0 \<le> i \<and> i < 259"
  proof (clarsimp simp: ids_def)
    fix b :: u8
    show "uint b < 259" using uint_lt2p [of b] by simp
  qed
  have "length (bpe_vocab bpe_new) = 256" using length_bpe_new by linarith
  then have new: "bpe_consistent (as_bpe ml_new)" "int (length (bpe_vocab (as_bpe ml_new))) = 259"
    by (simp_all add: as_bpe_def ml_new_fields bpe_consistent_def special_tokens_def)
  from bpe_train_loop_consistent [OF new ids, of vocab_size] obtain b ext where
    b: "bpe_train_loop (as_bpe ml_new) ids 259 vocab_size = Some b" "bpe_consistent b"
      "bpe_vocab b = bpe_vocab (as_bpe ml_new) @ ext"
    by (auto simp: trains_to_def)
  from ml_train_refines [OF b(1), of ml_new]
  have t: "ml_vocab t = bpe_vocab b" "ml_merges t = bpe_merges b"
    by (simp_all add: t_def ml_train_def ids_def as_bpe_def)
  have "ml_consistent t"
    using b(2,3) \<open>length (bpe_vocab bpe_new) = 256\<close>
    by (simp add: ml_consistent_def bpe_consistent_def bpe_bytes_def as_bpe_def t ml_new_fields)
  note trip = ml_round_trip [OF this]
  then show ?thesis
    using codepoints_from_encoded [of _ "[]"]
    by (simp add: t_def [symmetric] utf8_to_codepoints_def)
qed

theorem multilingual_trained_round_trip_witness:
  "ml_decode (ml_train ml_new [[0xC3, 0xA9, 0xC3, 0xA9]] 300)
    (ml_encode (ml_train ml_new [[0xC3, 0xA9, 0xC3, 0xA9]] 300) (codepoints_to_utf8 [0xE9, 0x4E2D]))
   = codepoints_to_utf8 [0xE9, 0x4E2D]"
  using conjunct2 [OF multilingual_trained_round_trip [of "[[0xC3, 0xA9, 0xC3, 0xA9]]" 300]]
  by (simp add: code_point_def del: codepoints_to_utf8_simps)

text \<open>
  Training starts at id 259 even when language tags already follow the special tokens: a tag
  added first takes the id of the first merge, and the merged text decodes to the tag.
\<close>

theorem language_tag_hijacks_merge:
  "let t = ml_train (ml_add_language_token ml_new [101, 110]) [[97, 98, 97, 98]] 260
   in ml_decode t (ml_encode t [97, 98]) = lang_tag [101, 110]"
proof -
  define t0 where "t0 = ml_add_language_token ml_new [101, 110]"
  define t where "t = ml_train t0 [[97, 98, 97, 98]] 260"
  have len: "length (bpe_vocab bpe_new) = 256" using length_bpe_new by linarith
  have t0: "ml_vocab t0 = bpe_vocab bpe_new @ special_tokens @ [lang_tag [101, 110]]" "ml_merges t0 = []"
    by (simp_all add: t0_def ml_add_language_token_def Let_def ml_new_fields)
  have best: "best_entry (pair_counts [97, 98, 97, 98]) = Some ((97, 98), 2)"
    by (simp add: pair_counts_def keep_best_def)
  have t: "ml_merges t = [((97, 98), 259)]" "\<exists>tok. ml_vocab t = ml_vocab t0 @ [tok]"
    by (simp_all add: t_def ml_train_def ml_train_loop.simps best t0(2))
  have "ml_vocab t ! 259 = lang_tag [101, 110]"
    using t(2) len by (auto simp: t0 nth_append special_tokens_def)
  moreover have "260 \<le> length (ml_vocab t)"
    using t(2) len by (auto simp: t0 special_tokens_def)
  moreover have "ml_encode t [97, 98] = [259]"
    by (simp add: ml_encode_def split_by_language_def split_lang_loop.simps utf8_decode_def
        utf8_encode_def seg_lang_of_def is_cjk_def in_ranges_def is_letter_def encode_segment_def
        merge_all_loop.simps t(1))
  ultimately show ?thesis
    by (simp add: Let_def t_def [symmetric] t0_def [symmetric] ml_decode_def ml_spell_def)
qed

end
