(* ===== verification/Qwen_Tokenizer.thy ===== *)
theory Qwen_Tokenizer
  imports Bpe
begin

text \<open>
  \<open>Qwen35Tokenizer\<close> of src/src/tokenizer/qwen35_tokenizer.cpp: the strict UTF-8 decoder, the
  pre-tokeniser, rank-ordered byte-pair merging, special tokens, decoding and the chat template.
  The tables are those \<open>load_from_dir\<close> fills from \<open>tokenizer.json\<close> (the loader itself is not
  modelled). The 64-bit keys of \<open>rank\<close> and \<open>target\<close> pack two 32-bit ids and are modelled by the pair.
  Sizes are below 2^31, so the casts between \<open>size_t\<close> and \<open>int\<close> keep their value.
\<close>

section \<open>UTF-8 and character classes\<close>

text \<open>Reading at \<open>s.size()\<close> gives the terminating NUL, as \<open>std::string\<close> guarantees.\<close>

definition byte_at :: "bytes \<Rightarrow> nat \<Rightarrow> u8" where
  "byte_at s i = (if i < length s then s ! i else 0)"

definition qw_utf8_decode :: "bytes \<Rightarrow> nat \<Rightarrow> int \<times> nat" where
  "qw_utf8_decode s pos =
    (let c = byte_at s pos; c2 = byte_at s (pos + 1); c3 = byte_at s (pos + 2);
         c4 = byte_at s (pos + 3) in
     if c < 0x80 then (uint c, pos + 1)
     else if c AND 0xE0 = 0xC0 \<and> pos + 1 < length s \<and> c2 AND 0xC0 = 0x80 then
       (push_bit 6 (uint (c AND 0x1F)) OR uint (c2 AND 0x3F), pos + 2)
     else if c AND 0xF0 = 0xE0 \<and> pos + 2 < length s \<and> c2 AND 0xC0 = 0x80 \<and> c3 AND 0xC0 = 0x80 then
       (push_bit 12 (uint (c AND 0x0F)) OR push_bit 6 (uint (c2 AND 0x3F)) OR uint (c3 AND 0x3F), pos + 3)
     else if c AND 0xF8 = 0xF0 \<and> pos + 3 < length s \<and> c2 AND 0xC0 = 0x80 \<and> c3 AND 0xC0 = 0x80
             \<and> c4 AND 0xC0 = 0x80 then
       (push_bit 18 (uint (c AND 0x07)) OR push_bit 12 (uint (c2 AND 0x3F))
          OR push_bit 6 (uint (c3 AND 0x3F)) OR uint (c4 AND 0x3F), pos + 4)
     else (0xFFFD, pos + 1))"

definition qw_utf8_encode :: "bytes \<Rightarrow> int \<Rightarrow> bytes" where
  "qw_utf8_encode out cp = out @
    (if cp < 0x80 then [word_of_int cp]
     else if cp < 0x800 then
       [word_of_int (0xC0 OR drop_bit 6 cp), word_of_int (0x80 OR (cp AND 0x3F))]
     else if cp < 0x10000 then
       [word_of_int (0xE0 OR drop_bit 12 cp), word_of_int (0x80 OR (drop_bit 6 cp AND 0x3F)),
        word_of_int (0x80 OR (cp AND 0x3F))]
     else
       [word_of_int (0xF0 OR drop_bit 18 cp), word_of_int (0x80 OR (drop_bit 12 cp AND 0x3F)),
        word_of_int (0x80 OR (drop_bit 6 cp AND 0x3F)), word_of_int (0x80 OR (cp AND 0x3F))])"

definition qw_is_letter :: "int \<Rightarrow> bool" where
  "qw_is_letter cp = in_ranges [
    (0x41, 0x5A), (0x61, 0x7A), (0x300, 0x36F), (0x370, 0x3FF), (0x400, 0x52F), (0x590, 0x5FF),
    (0x600, 0x6FF), (0x750, 0x77F), (0x900, 0x9FF), (0xA00, 0xAFF), (0xB00, 0xBFF),
    (0xC00, 0xCFF), (0xD00, 0xDFF), (0xE00, 0xEFF), (0x1000, 0x109F), (0x10A0, 0x10FF),
    (0x1100, 0x11FF), (0x1200, 0x137F), (0x13A0, 0x13FF), (0x1DC0, 0x1DFF), (0x1E00, 0x1EFF),
    (0x1F00, 0x1FFF), (0x20D0, 0x20FF), (0x2C60, 0x2C7F), (0x2E80, 0x2EFF), (0x3040, 0x30FF),
    (0x3130, 0x318F), (0x31A0, 0x31BF), (0x3400, 0x4DBF), (0x4E00, 0x9FFF), (0xA000, 0xA48F),
    (0xAC00, 0xD7AF), (0xF900, 0xFAFF), (0xFB00, 0xFB4F), (0xFB50, 0xFDFF), (0xFE20, 0xFE2F),
    (0xFE70, 0xFEFF), (0xFF21, 0xFF3A), (0xFF41, 0xFF5A), (0x10400, 0x1044F), (0x1D400, 0x1D7FF),
    (0x2F800, 0x2FA1F)] cp"

definition qw_is_digit :: "int \<Rightarrow> bool" where
  "qw_is_digit cp = in_ranges [
    (0x30, 0x39), (0x660, 0x669), (0x6F0, 0x6F9), (0x966, 0x96F), (0x9E6, 0x9EF), (0xA66, 0xA6F),
    (0xAE6, 0xAEF), (0xB66, 0xB6F), (0xBE6, 0xBEF), (0xC66, 0xC6F), (0xCE6, 0xCEF),
    (0xD66, 0xD6F), (0xE50, 0xE59), (0xED0, 0xED9), (0xF20, 0xF29), (0xFF10, 0xFF19),
    (0x104A0, 0x104A9)] cp"

definition qw_is_ws :: "int \<Rightarrow> bool" where
  "qw_is_ws cp = in_ranges [
    (0x09, 0x0D), (0x20, 0x20), (0x85, 0x85), (0xA0, 0xA0), (0x1680, 0x1680), (0x2000, 0x200A),
    (0x2028, 0x2028), (0x2029, 0x2029), (0x202F, 0x202F), (0x205F, 0x205F), (0x3000, 0x3000)] cp"

text \<open>The entry \<open>byte_chars_[b]\<close> that \<open>build_byte_map\<close> computes.\<close>

definition byte_char :: "u8 \<Rightarrow> bytes" where
  "byte_char b = (if 33 \<le> b \<and> b \<le> 126 then [b] else qw_utf8_encode [] (256 + uint b))"

section \<open>Pre-tokenisation\<close>

lemma qw_decode_advances:
  assumes "pos < length s"
  shows "pos < snd (qw_utf8_decode s pos)" "snd (qw_utf8_decode s pos) \<le> length s"
  using assms by (simp_all add: qw_utf8_decode_def Let_def)

text \<open>The four inner loops skip while a class of code points lasts.\<close>

function skip_while :: "(int \<Rightarrow> bool) \<Rightarrow> bytes \<Rightarrow> nat \<Rightarrow> nat" where
  "skip_while P s p =
    (if p < length s then
       let (cp, q) = qw_utf8_decode s p in if P cp then skip_while P s q else p
     else p)"
  by pat_completeness auto
termination
proof (relation "measure (\<lambda>(P, s, p). length s - p)")
  fix P :: "int \<Rightarrow> bool" and s p x cp q
  assume "p < length s" "x = qw_utf8_decode s p" "(cp, q) = x"
  then show "((P, s, q), (P, s, p)) \<in> measure (\<lambda>(P, s, p). length s - p)"
    using qw_decode_advances [of p s] by (metis diff_less_mono2 in_measure old.prod.case snd_conv)
qed simp

declare skip_while.simps [simp del]

definition lower_byte :: "u8 \<Rightarrow> u8" where
  "lower_byte c = (if 65 \<le> c \<and> c \<le> 90 then c - 65 + 97 else c)"

fun starts_with_ci :: "bytes \<Rightarrow> nat \<Rightarrow> bytes \<Rightarrow> bool" where
  "starts_with_ci s pos [] = True"
| "starts_with_ci s pos (b # t) =
    (if length s \<le> pos then False
     else if lower_byte (s ! pos) \<noteq> lower_byte b then False
     else starts_with_ci s (pos + 1) t)"

definition ascii :: "string \<Rightarrow> bytes" where
  "ascii cs = map of_char cs"

text \<open>The contractions \<open>'s 't 're 've 'm 'll 'd\<close>, behind the apostrophe (byte 39).\<close>

definition contractions :: "bytes list" where
  "contractions = map (\<lambda>w. 39 # ascii w) [''s'', ''t'', ''re'', ''ve'', ''m'', ''ll'', ''d'']"

definition contraction_end :: "bytes \<Rightarrow> nat \<Rightarrow> nat option" where
  "contraction_end s pos =
    map_option (\<lambda>c. pos + length c) (find (starts_with_ci s pos) contractions)"

text \<open>A word, with at most one leading character that is neither a letter, a digit nor a newline.\<close>

definition word_end :: "bytes \<Rightarrow> nat \<Rightarrow> nat option" where
  "word_end s pos =
    (let (cp0, p2) = qw_utf8_decode s pos in
     if qw_is_letter cp0 then Some (skip_while qw_is_letter s pos)
     else if cp0 \<noteq> 13 \<and> cp0 \<noteq> 10 \<and> \<not> qw_is_digit cp0 then
       (let (cp1, after) = (if p2 < length s then qw_utf8_decode s p2 else (- 1, p2)) in
        if 0 \<le> cp1 \<and> qw_is_letter cp1 then Some (skip_while qw_is_letter s after) else None)
     else None)"

definition digit_end :: "bytes \<Rightarrow> nat \<Rightarrow> nat option" where
  "digit_end s pos = (let (cp0, p2) = qw_utf8_decode s pos in if qw_is_digit cp0 then Some p2 else None)"

definition symbols_end :: "bytes \<Rightarrow> nat \<Rightarrow> nat option" where
  "symbols_end s pos =
    (let (cp0, p2) = qw_utf8_decode s pos;
         start = (if cp0 = 32 then p2 else pos);
         q = skip_while (\<lambda>cp. \<not> (qw_is_ws cp \<or> qw_is_letter cp \<or> qw_is_digit cp)) s start
     in if start < q then Some (skip_while (\<lambda>cp. cp = 13 \<or> cp = 10) s q) else None)"

definition blank_end :: "bytes \<Rightarrow> nat \<Rightarrow> nat option" where
  "blank_end s pos = (let q = skip_while qw_is_ws s pos in if pos < q then Some q else None)"

text \<open>The rules in order: the first that sets \<open>tok_start\<close> decides the end of the token.\<close>

definition token_end :: "bytes \<Rightarrow> nat \<Rightarrow> nat" where
  "token_end s pos =
    (case contraction_end s pos of Some e \<Rightarrow> e | None \<Rightarrow>
     (case word_end s pos of Some e \<Rightarrow> e | None \<Rightarrow>
      (case digit_end s pos of Some e \<Rightarrow> e | None \<Rightarrow>
       (case symbols_end s pos of Some e \<Rightarrow> e | None \<Rightarrow>
        (case blank_end s pos of Some e \<Rightarrow> e | None \<Rightarrow> snd (qw_utf8_decode s pos))))))"

lemma skip_while_bounds: "p \<le> length s \<Longrightarrow> p \<le> skip_while P s p \<and> skip_while P s p \<le> length s"
proof (induction P s p rule: skip_while.induct)
  case (1 P s p)
  show ?case
  proof (cases "p < length s")
    case True
    obtain cp q where d: "qw_utf8_decode s p = (cp, q)" by force
    have "p < q" "q \<le> length s" using qw_decode_advances [OF True] d by simp_all
    with "1.IH" [OF True d [symmetric] refl] True d show ?thesis
      by (subst skip_while.simps, subst (2) skip_while.simps) auto
  qed (use 1 in \<open>simp add: skip_while.simps\<close>)
qed

lemma skip_while_moves:
  assumes "p < length s" "P (fst (qw_utf8_decode s p))"
  shows "p < skip_while P s p"
proof -
  obtain cp q where d: "qw_utf8_decode s p = (cp, q)" by force
  have "p < q" "q \<le> length s" using qw_decode_advances [OF assms(1)] d by simp_all
  with assms d skip_while_bounds [of q s P] show ?thesis
    by (subst skip_while.simps) simp
qed

lemma starts_with_ci_length: "starts_with_ci s pos t \<Longrightarrow> t \<noteq> [] \<Longrightarrow> pos + length t \<le> length s"
  by (induction s pos t rule: starts_with_ci.induct) (auto split: if_splits, metis Suc_leI add_Suc_right list.size(3) not_le add_0_right)


lemma contraction_end_bounds:
  assumes "contraction_end s pos = Some e" shows "pos < e \<and> e \<le> length s"
proof -
  from assms obtain c where c: "find (starts_with_ci s pos) contractions = Some c" "e = pos + length c"
    by (auto simp: contraction_end_def)
  then have "starts_with_ci s pos c" "c \<in> set contractions"
    by (auto simp: find_Some_iff)
  moreover from this(2) have "c \<noteq> []" by (auto simp: contractions_def)
  ultimately show ?thesis using starts_with_ci_length c(2) by auto
qed

lemma word_end_bounds:
  assumes pos: "pos < length s" and "word_end s pos = Some e" shows "pos < e \<and> e \<le> length s"
proof -
  obtain cp0 p2 where d: "qw_utf8_decode s pos = (cp0, p2)" by force
  have p2: "pos < p2" "p2 \<le> length s" using qw_decode_advances [OF pos] d by simp_all
  show ?thesis
  proof (cases "qw_is_letter cp0")
    case True
    with assms d skip_while_moves [of pos s qw_is_letter] skip_while_bounds [of pos s qw_is_letter]
    show ?thesis by (simp add: word_end_def)
  next
    case False
    obtain cp1 after where d1: "qw_utf8_decode s p2 = (cp1, after)" by force
    from False assms d d1 have inner: "p2 < length s" "e = skip_while qw_is_letter s after"
      by (auto simp: word_end_def Let_def split: if_splits)
    then have "p2 < after" "after \<le> length s" using qw_decode_advances [of p2 s] d1 by simp_all
    with inner p2 skip_while_bounds [of after s qw_is_letter] show ?thesis by simp
  qed
qed

lemma symbols_end_bounds:
  assumes pos: "pos < length s" and "symbols_end s pos = Some e" shows "pos < e \<and> e \<le> length s"
proof -
  obtain cp0 p2 where d: "qw_utf8_decode s pos = (cp0, p2)" by force
  define start where "start = (if cp0 = 32 then p2 else pos)"
  define q where "q = skip_while (\<lambda>cp. \<not> (qw_is_ws cp \<or> qw_is_letter cp \<or> qw_is_digit cp)) s start"
  have "pos \<le> start" "start \<le> length s"
    using qw_decode_advances [OF pos] d pos by (simp_all add: start_def)
  moreover have "start < q" "e = skip_while (\<lambda>cp. cp = 13 \<or> cp = 10) s q"
    using assms(2) unfolding symbols_end_def d Let_def prod.case start_def [symmetric] q_def [symmetric]
    by (simp_all split: if_split_asm)
  ultimately show ?thesis
    using skip_while_bounds [of start s "\<lambda>cp. \<not> (qw_is_ws cp \<or> qw_is_letter cp \<or> qw_is_digit cp)"]
      skip_while_bounds [of q s "\<lambda>cp. cp = 13 \<or> cp = 10"] by (simp add: q_def)
qed

lemma token_end_bounds:
  assumes pos: "pos < length s" shows "pos < token_end s pos" "token_end s pos \<le> length s"
proof -
  obtain cp0 p2 where d: "qw_utf8_decode s pos = (cp0, p2)" by force
  have p2: "pos < p2" "p2 \<le> length s" using qw_decode_advances [OF pos] d by simp_all
  have digit: "pos < e \<and> e \<le> length s" if "digit_end s pos = Some e" for e
    using that p2 by (simp add: digit_end_def d split: if_splits)
  have blank: "pos < e \<and> e \<le> length s" if "blank_end s pos = Some e" for e
    using that skip_while_bounds [of pos s qw_is_ws] pos by (auto simp: blank_end_def Let_def split: if_splits)
  have "pos < token_end s pos \<and> token_end s pos \<le> length s"
    using contraction_end_bounds word_end_bounds [OF pos] digit symbols_end_bounds [OF pos] blank p2
    by (auto simp: token_end_def d split: option.split)
  then show "pos < token_end s pos" "token_end s pos \<le> length s" by simp_all
qed

function pretokenize_from :: "bytes \<Rightarrow> nat \<Rightarrow> bytes list" where
  "pretokenize_from s pos =
    (if pos < length s then
       take (token_end s pos - pos) (drop pos s) # pretokenize_from s (token_end s pos)
     else [])"
  by pat_completeness auto
termination
  by (relation "measure (\<lambda>(s, pos). length s - pos)")
     (simp_all add: token_end_bounds diff_less_mono2)

declare pretokenize_from.simps [simp del]

definition qw_pretokenize :: "bytes \<Rightarrow> bytes list" where
  "qw_pretokenize s = pretokenize_from s 0"

section \<open>The tables\<close>

record qwen =
  id_to_token :: "bytes list"
  token_to_id :: "bytes \<rightharpoonup> int"
  merge_list :: "(int \<times> int) list"
  special_ids :: "int list"
  special_tokens :: "bytes list"
  special_by_id :: "int \<rightharpoonup> bytes"

definition is_special :: "qwen \<Rightarrow> int \<Rightarrow> bool" where
  "is_special t i = (special_by_id t i \<noteq> None)"

text \<open>\<open>rank[key] = i\<close> for every merge in order: a pair listed twice keeps its last position.\<close>

definition rank_table :: "qwen \<Rightarrow> (int \<times> int) \<rightharpoonup> int" where
  "rank_table t =
    foldl (\<lambda>m (p, i). m(p \<mapsto> i)) Map.empty (zip (merge_list t) (map int [0..<length (merge_list t)]))"

text \<open>Both tokens of a merge are read with \<open>operator[]\<close>, out of bounds when an id is one of an added
  token; the result is then \<open>None\<close>.\<close>

fun target_table :: "qwen \<Rightarrow> (int \<times> int) list \<Rightarrow> (int \<times> int \<rightharpoonup> int) \<Rightarrow> (int \<times> int \<rightharpoonup> int) option" where
  "target_table t [] m = Some m"
| "target_table t ((a, b) # ms) m =
    (case (token_at (id_to_token t) a, token_at (id_to_token t) b) of
       (Some ta, Some tb) \<Rightarrow>
         target_table t ms (case token_to_id t (ta @ tb) of Some c \<Rightarrow> m((a, b) \<mapsto> c) | None \<Rightarrow> m)
     | _ \<Rightarrow> None)"

section \<open>Byte-pair merging by rank\<close>

text \<open>The scan for the pair of least rank, the first among equals: \<open>(best_i, best_r)\<close>, started at
  \<open>(-1, INT32_MAX)\<close>.\<close>

fun best_rank :: "((int \<times> int) \<rightharpoonup> int) \<Rightarrow> int \<Rightarrow> int \<times> int \<Rightarrow> int list \<Rightarrow> int \<times> int" where
  "best_rank rank i (best_i, best_r) (a # b # ids) =
    (case rank (a, b) of
       Some r \<Rightarrow> if r < best_r then best_rank rank (i + 1) (i, r) (b # ids)
                 else best_rank rank (i + 1) (best_i, best_r) (b # ids)
     | None \<Rightarrow> best_rank rank (i + 1) (best_i, best_r) (b # ids))"
| "best_rank rank i best ids = best"

lemma best_rank_bound:
  "fst (best_rank rank i best ids) = fst best
    \<or> i \<le> fst (best_rank rank i best ids) \<and> fst (best_rank rank i best ids) + 1 < i + int (length ids)"
  by (induction rank i best ids rule: best_rank.induct) (auto split: option.splits)

definition replace_pair :: "nat \<Rightarrow> int \<Rightarrow> int list \<Rightarrow> int list" where
  "replace_pair i c ids = take (i + 1) (ids[i := c]) @ drop (i + 2) (ids[i := c])"

function rank_loop :: "((int \<times> int) \<rightharpoonup> int) \<Rightarrow> ((int \<times> int) \<rightharpoonup> int) \<Rightarrow> int list \<Rightarrow> int list" where
  "rank_loop rank target ids =
    (if 1 < length ids then
       let (i, _) = best_rank rank 0 (- 1, 2 ^ 31 - 1) ids in
       if i < 0 then ids
       else (case target (ids ! nat i, ids ! (nat i + 1)) of
               None \<Rightarrow> ids
             | Some c \<Rightarrow> rank_loop rank target (replace_pair (nat i) c ids))
     else ids)"
  by pat_completeness auto
termination
proof (relation "measure (\<lambda>(rank, target, ids). length ids)")
  fix rank target :: "int \<times> int \<Rightarrow> int option" and ids x i y c
  assume "x = best_rank rank 0 (- 1, 2 ^ 31 - 1) ids" "(i, y) = x" "\<not> i < 0"
  then have "i = fst (best_rank rank 0 (- 1, 2 ^ 31 - 1) ids)"
    by (metis fst_conv)
  with \<open>\<not> i < 0\<close> have "i + 1 < int (length ids)"
    using best_rank_bound [of rank 0 "(- 1, 2 ^ 31 - 1)" ids] by simp
  with \<open>\<not> i < 0\<close> have "nat i + 1 < length ids" by linarith
  then show "((rank, target, replace_pair (nat i) c ids), rank, target, ids)
      \<in> measure (\<lambda>(rank, target, ids). length ids)"
    by (simp add: replace_pair_def)
qed simp

declare rank_loop.simps [simp del]

definition byte_ids :: "qwen \<Rightarrow> bytes \<Rightarrow> int list" where
  "byte_ids t word =
    map (\<lambda>b. case token_to_id t (byte_char b) of Some i \<Rightarrow> i | None \<Rightarrow> uint b) word"

definition qw_bpe_encode :: "qwen \<Rightarrow> bytes \<Rightarrow> int list option" where
  "qw_bpe_encode t word =
    (case target_table t (merge_list t) Map.empty of
       None \<Rightarrow> None
     | Some target \<Rightarrow> Some (rank_loop (rank_table t) target (byte_ids t word)))"


section \<open>Encoding a text with special tokens\<close>

definition occurs_at :: "bytes \<Rightarrow> bytes \<Rightarrow> nat \<Rightarrow> bool" where
  "occurs_at st s p = (length st \<le> length s - p \<and> take (length st) (drop p s) = st)"

text \<open>The special token at \<open>pos\<close>, if the first listed one that occurs there is registered.\<close>

definition special_here :: "qwen \<Rightarrow> bytes \<Rightarrow> nat \<Rightarrow> (int \<times> nat) option" where
  "special_here t s pos =
    (case find (\<lambda>st. occurs_at st s pos) (special_tokens t) of
       None \<Rightarrow> None
     | Some st \<Rightarrow> map_option (\<lambda>i. (i, length st)) (token_to_id t st))"

text \<open>\<open>s.find(st, p)\<close>.\<close>

function find_from :: "bytes \<Rightarrow> bytes \<Rightarrow> nat \<Rightarrow> nat option" where
  "find_from st s p =
    (if p + length st \<le> length s then
       (if take (length st) (drop p s) = st then Some p else find_from st s (p + 1))
     else None)"
  by pat_completeness auto
termination
  by (relation "measure (\<lambda>(st, s, p). Suc (length s) - p)") auto

declare find_from.simps [simp del]

definition next_special :: "qwen \<Rightarrow> bytes \<Rightarrow> nat \<Rightarrow> nat" where
  "next_special t s pos =
    foldl (\<lambda>e st. case find_from st s pos of Some p \<Rightarrow> if p < e then p else e | None \<Rightarrow> e)
      (length s) (special_tokens t)"

fun bpe_encode_all :: "qwen \<Rightarrow> bytes list \<Rightarrow> int list option" where
  "bpe_encode_all t [] = Some []"
| "bpe_encode_all t (w # ws) =
    (case qw_bpe_encode t w of
       None \<Rightarrow> None
     | Some ids \<Rightarrow> map_option ((@) ids) (bpe_encode_all t ws))"

text \<open>The loop of \<open>encode\<close>. It does not return when an empty special token matches, which is the
  value \<open>None\<close>, as is a merge outside the vocabulary.\<close>

partial_function (option) qw_encode_from :: "qwen \<Rightarrow> bytes \<Rightarrow> nat \<Rightarrow> int list \<Rightarrow> int list option" where
  "qw_encode_from t s pos ids =
    (if pos < length s then
       (case special_here t s pos of
          Some (i, len) \<Rightarrow> qw_encode_from t s (pos + len) (ids @ [i])
        | None \<Rightarrow>
            (let e = next_special t s pos in
             if pos < e then
               (case bpe_encode_all t (qw_pretokenize (take (e - pos) (drop pos s))) of
                  None \<Rightarrow> None
                | Some sub \<Rightarrow> qw_encode_from t s e (ids @ sub))
             else qw_encode_from t s (pos + 1) ids))
     else Some ids)"

definition qw_encode :: "qwen \<Rightarrow> bytes \<Rightarrow> int list option" where
  "qw_encode t s = qw_encode_from t s 0 []"

section \<open>Decoding\<close>

text \<open>The reverse of \<open>byte_chars_\<close>: a later byte overwrites an earlier one with the same string.\<close>

definition rev_byte :: "bytes \<Rightarrow> u8 option" where
  "rev_byte = map_of (rev (map (\<lambda>i. (byte_char (word_of_nat i), word_of_nat i)) [0..<256]))"

definition hex_digit :: "u8 \<Rightarrow> int" where
  "hex_digit c =
    (if 48 \<le> c \<and> c \<le> 57 then uint (c - 48)
     else if 97 \<le> c \<and> c \<le> 102 then uint (c - 97) + 10
     else if 65 \<le> c \<and> c \<le> 70 then uint (c - 65) + 10
     else - 1)"

text \<open>The escape \<open><0xHH>\<close> at a position.\<close>

definition hex_escape :: "bytes \<Rightarrow> nat \<Rightarrow> u8 option" where
  "hex_escape tok pos =
    (if take 3 (drop pos tok) = ascii ''<0x'' \<and> pos + 6 \<le> length tok \<and> tok ! (pos + 5) = 62 then
       (let hi = hex_digit (tok ! (pos + 3)); lo = hex_digit (tok ! (pos + 4)) in
        if 0 \<le> hi \<and> 0 \<le> lo then Some (word_of_int (hi * 16 + lo)) else None)
     else None)"

function token_bytes_from :: "bytes \<Rightarrow> nat \<Rightarrow> bytes" where
  "token_bytes_from tok pos =
    (if pos < length tok then
       (case if pos + 2 \<le> length tok then rev_byte (take 2 (drop pos tok)) else None of
          Some b \<Rightarrow> b # token_bytes_from tok (pos + 2)
        | None \<Rightarrow>
            (case rev_byte (take 1 (drop pos tok)) of
               Some b \<Rightarrow> b # token_bytes_from tok (pos + 1)
             | None \<Rightarrow>
                 (case hex_escape tok pos of
                    Some b \<Rightarrow> b # token_bytes_from tok (pos + 6)
                  | None \<Rightarrow>
                      if 33 \<le> tok ! pos \<and> tok ! pos \<le> 126 then
                        tok ! pos # token_bytes_from tok (pos + 1)
                      else drop pos tok)))
     else [])"
  by pat_completeness auto
termination
  by (relation "measure (\<lambda>(tok, pos). length tok - pos)") auto

declare token_bytes_from.simps [simp del]

definition token_to_bytes :: "bytes \<Rightarrow> bytes" where
  "token_to_bytes tok = token_bytes_from tok 0"

definition qw_spell :: "qwen \<Rightarrow> bool \<Rightarrow> int \<Rightarrow> bytes" where
  "qw_spell t skip_special i =
    (case token_at (id_to_token t) i of
       None \<Rightarrow> []
     | Some tok \<Rightarrow>
         (case special_by_id t i of
            Some st \<Rightarrow> if skip_special then [] else st
          | None \<Rightarrow> token_to_bytes tok))"

definition qw_decode :: "qwen \<Rightarrow> int list \<Rightarrow> bool \<Rightarrow> bytes" where
  "qw_decode t ids skip_special = concat (map (qw_spell t skip_special) ids)"

section \<open>The chat template\<close>

definition blank :: "u8 \<Rightarrow> bool" where
  "blank c = (c = 32 \<or> c = 10 \<or> c = 13 \<or> c = 9)"

definition trim :: "bytes \<Rightarrow> bytes" where
  "trim s = rev (dropWhile blank (rev (dropWhile blank s)))"

record message =
  role :: bytes
  content :: bytes
  reasoning :: bytes

definition newline :: bytes where "newline = [10]"

text \<open>The split of an assistant's text at \<open><think>\<close> and \<open></think>\<close>. A close before the open makes
  the length \<open>b - a\<close> wrap, so the rest of the text is taken.\<close>

definition split_reasoning :: "bytes \<Rightarrow> bytes \<Rightarrow> bytes \<times> bytes" where
  "split_reasoning body r =
    (case (if r = [] then (find_from (ascii ''</think>'') body 0, find_from (ascii ''<think>'') body 0)
           else (None, None)) of
       (Some b, Some a0) \<Rightarrow>
         (let a = a0 + 7;
              len = (if a \<le> b then b - a else length body)
          in (trim (take len (drop a body)), trim (drop (b + 8) body)))
     | _ \<Rightarrow> (r, body))"

definition render_message :: "nat \<Rightarrow> message \<Rightarrow> bytes" where
  "render_message i m =
    (let c = trim (content m) in
     if role m = ascii ''system'' then
       (if i = 0 then ascii ''<|im_start|>system'' @ newline @ c @ ascii ''<|im_end|>'' @ newline else [])
     else if role m = ascii ''user'' then
       ascii ''<|im_start|>user'' @ newline @ c @ ascii ''<|im_end|>'' @ newline
     else if role m = ascii ''assistant'' then
       (let (r, body) = split_reasoning c (reasoning m) in
        ascii ''<|im_start|>assistant'' @ newline @ ascii ''<think>'' @ newline @ r @ newline
          @ ascii ''</think>'' @ newline @ newline @ body @ ascii ''<|im_end|>'' @ newline)
     else [])"

fun render_from :: "nat \<Rightarrow> message list \<Rightarrow> bytes" where
  "render_from i [] = []"
| "render_from i (m # ms) = render_message i m @ render_from (i + 1) ms"

definition apply_chat_template :: "qwen \<Rightarrow> message list \<Rightarrow> bool \<Rightarrow> int list option" where
  "apply_chat_template t messages add_generation_prompt =
    qw_encode t (render_from 0 messages @
      (if add_generation_prompt
       then ascii ''<|im_start|>assistant'' @ newline @ ascii ''<think>'' @ newline else []))"

end
