(* ===== verification/Qwen_Encode.thy ===== *)
theory Qwen_Encode
  imports Qwen_Correct
begin

text \<open>
  Encoding with the Qwen tokenizer: what consistent tables are, that merging by rank keeps what the
  ids spell, that \<open>encode\<close> returns, and that \<open>decode\<close> undoes it. Then the two places where the code
  departs from that picture: special tokens inside chat content, and special ids past the vocabulary.
\<close>

section \<open>Consistent tables\<close>

definition plain_token :: "qwen \<Rightarrow> int \<Rightarrow> bool" where
  "plain_token t i = (special_by_id t i = None \<and>
    (\<exists>bs. token_at (id_to_token t) i = Some (concat (map byte_char bs))))"

definition qwen_ok :: "qwen \<Rightarrow> bool" where
  "qwen_ok t \<longleftrightarrow>
    (\<forall>tok i. token_to_id t tok = Some i \<longrightarrow> special_by_id t i = None \<longrightarrow> token_at (id_to_token t) i = Some tok) \<and>
    (\<forall>(a, b) \<in> set (merge_list t). plain_token t a \<and> plain_token t b \<and>
      (\<forall>ta tb c. token_at (id_to_token t) a = Some ta \<longrightarrow> token_at (id_to_token t) b = Some tb \<longrightarrow>
        token_to_id t (ta @ tb) = Some c \<longrightarrow> special_by_id t c = None)) \<and>
    (\<forall>st \<in> set (special_tokens t). st \<noteq> [] \<and>
      (\<exists>i. token_to_id t st = Some i \<and> special_by_id t i = Some st))"

text \<open>
  The special tokens that occur in a text have ids in the vocabulary. The loader does not see to it:
  it numbers added tokens past the vocabulary, and \<open>qwen_added_special_dropped\<close> shows what then happens.
\<close>

definition specials_in_vocabulary :: "qwen \<Rightarrow> bytes \<Rightarrow> bool" where
  "specials_in_vocabulary t s = (\<forall>st \<in> set (special_tokens t). \<forall>pos < length s. occurs_at st s pos \<longrightarrow>
     (\<forall>i. token_to_id t st = Some i \<longrightarrow> 0 \<le> i \<and> i < int (length (id_to_token t))))"

definition covers :: "qwen \<Rightarrow> bytes \<Rightarrow> bool" where
  "covers t s = (\<forall>b \<in> set s. \<exists>i. token_to_id t (byte_char b) = Some i \<and> special_by_id t i = None)"

lemma spell_chars:
  "token_at (id_to_token t) i = Some (concat (map byte_char bs)) \<Longrightarrow> special_by_id t i = None \<Longrightarrow>
    qw_spell t skip i = bs"
  by (simp add: qw_spell_def token_to_bytes_chars)

lemma spell_merged:
  assumes ok: "qwen_ok t" and ab: "(a, b) \<in> set (merge_list t)"
    and tab: "token_at (id_to_token t) a = Some ta" "token_at (id_to_token t) b = Some tb"
    and c: "token_to_id t (ta @ tb) = Some c"
  shows "qw_spell t skip c = qw_spell t skip a @ qw_spell t skip b"
proof -
  from ok ab have "plain_token t a" "plain_token t b"
    unfolding qwen_ok_def by blast+
  with tab obtain as bs where
    ta: "ta = concat (map byte_char as)" "special_by_id t a = None" and
    tb: "tb = concat (map byte_char bs)" "special_by_id t b = None"
    by (auto simp: plain_token_def)
  have sp: "special_by_id t c = None"
    using ok ab tab c unfolding qwen_ok_def by blast
  moreover have "token_at (id_to_token t) c = Some (ta @ tb)"
    using ok c sp unfolding qwen_ok_def by blast
  ultimately have "qw_spell t skip c = as @ bs"
    by (intro spell_chars) (simp_all add: ta tb)
  with tab ta tb show ?thesis by (simp add: spell_chars)
qed

definition spells_targets :: "qwen \<Rightarrow> ((int \<times> int) \<rightharpoonup> int) \<Rightarrow> bool" where
  "spells_targets t m = (\<forall>a b c skip. m (a, b) = Some c \<longrightarrow>
    qw_spell t skip c = qw_spell t skip a @ qw_spell t skip b)"

lemma target_table_spells:
  assumes ok: "qwen_ok t"
  shows "set ms \<subseteq> set (merge_list t) \<Longrightarrow> spells_targets t m \<Longrightarrow>
    \<exists>m'. target_table t ms m = Some m' \<and> spells_targets t m'"
proof (induction ms arbitrary: m)
  case (Cons e ms)
  obtain a b where e: "e = (a, b)" by force
  with Cons.prems have ab: "(a, b) \<in> set (merge_list t)" by simp
  with ok have "plain_token t a" "plain_token t b"
    unfolding qwen_ok_def by blast+
  then obtain ta tb where tab: "token_at (id_to_token t) a = Some ta" "token_at (id_to_token t) b = Some tb"
    by (auto simp: plain_token_def)
  have "spells_targets t (m((a, b) \<mapsto> c))" if "token_to_id t (ta @ tb) = Some c" for c
    using Cons.prems(2) spell_merged [OF ok ab tab that] by (auto simp: spells_targets_def)
  with Cons e tab show ?case by (auto split: option.split)
qed simp

section \<open>Merging by rank\<close>

lemma replace_pair_split:
  assumes "i + 1 < length ids"
  shows "ids = take i ids @ [ids ! i, ids ! (i + 1)] @ drop (i + 2) ids"
    "replace_pair i c ids = take i ids @ [c] @ drop (i + 2) ids"
proof -
  have "drop i ids = ids ! i # ids ! (i + 1) # drop (i + 2) ids"
    using assms Cons_nth_drop_Suc [of i ids] Cons_nth_drop_Suc [of "i + 1" ids] by simp
  then show "ids = take i ids @ [ids ! i, ids ! (i + 1)] @ drop (i + 2) ids"
    by (metis append_Cons append_Nil append_take_drop_id)
  show "replace_pair i c ids = take i ids @ [c] @ drop (i + 2) ids"
    using assms by (simp add: replace_pair_def take_Suc_conv_app_nth)
qed

lemma rank_loop_spells:
  "\<forall>a b c. target (a, b) = Some c \<longrightarrow> sp c = sp a @ sp b \<Longrightarrow>
    concat (map sp (rank_loop rank target ids)) = concat (map sp ids)"
proof (induction rank target ids rule: rank_loop.induct)
  case (1 rank target ids)
  obtain i r where best: "best_rank rank 0 (- 1, 2 ^ 31 - 1) ids = (i, r)" by force
  show ?case
  proof (cases "1 < length ids \<and> 0 \<le> i \<and> target (ids ! nat i, ids ! (nat i + 1)) \<noteq> None")
    case False
    then show ?thesis
      by (subst rank_loop.simps) (auto simp: best [simplified] Let_def split: option.splits)
  next
    case True
    then obtain c where c: "target (ids ! nat i, ids ! (nat i + 1)) = Some c" by auto
    have "i + 1 < int (length ids)"
      using best_rank_bound [of rank 0 "(- 1, 2 ^ 31 - 1)" ids] True best by simp
    then have bound: "nat i + 1 < length ids" using True by linarith
    have "concat (map sp (rank_loop rank target (replace_pair (nat i) c ids)))
        = concat (map sp (replace_pair (nat i) c ids))"
      using True c "1.prems" by (intro "1.IH" [OF _ best [symmetric] refl]) auto
    also have "\<dots> = concat (map sp (take (nat i) ids @ [ids ! nat i, ids ! (nat i + 1)] @ drop (nat i + 2) ids))"
      unfolding replace_pair_split(2) [OF bound] using "1.prems" c by simp
    also have "\<dots> = concat (map sp ids)"
      unfolding replace_pair_split(1) [OF bound, symmetric] ..
    finally show ?thesis
      using True by (subst rank_loop.simps) (simp add: best [simplified] Let_def c [simplified])
  qed
qed

lemma byte_ids_spell:
  assumes "qwen_ok t" "covers t word"
  shows "concat (map (qw_spell t skip) (byte_ids t word)) = word"
  using assms(2)
proof (induction word)
  case (Cons b word)
  obtain i where i: "token_to_id t (byte_char b) = Some i" "special_by_id t i = None"
    using Cons.prems by (auto simp: covers_def)
  then have "token_at (id_to_token t) i = Some (concat (map byte_char [b]))"
    using assms(1) unfolding qwen_ok_def by simp
  with i have "qw_spell t skip i = [b]" by (intro spell_chars)
  with Cons i show ?case by (simp add: byte_ids_def covers_def)
qed (simp add: byte_ids_def)

lemma bpe_encode_spells:
  assumes "qwen_ok t" "covers t word"
  shows "\<exists>ids. qw_bpe_encode t word = Some ids \<and> (\<forall>skip. concat (map (qw_spell t skip) ids) = word)"
proof -
  obtain m where m: "target_table t (merge_list t) Map.empty = Some m" "spells_targets t m"
    using target_table_spells [OF assms(1), of "merge_list t" Map.empty] by (auto simp: spells_targets_def)
  then have "concat (map (qw_spell t skip) (rank_loop (rank_table t) m (byte_ids t word))) = word" for skip
    using byte_ids_spell [OF assms] by (subst rank_loop_spells) (auto simp: spells_targets_def)
  with m show ?thesis by (simp add: qw_bpe_encode_def)
qed

lemma bpe_encode_all_spells:
  assumes "qwen_ok t"
  shows "covers t (concat ws) \<Longrightarrow>
    \<exists>ids. bpe_encode_all t ws = Some ids \<and> (\<forall>skip. concat (map (qw_spell t skip) ids) = concat ws)"
proof (induction ws)
  case (Cons w ws)
  then have "covers t w" "covers t (concat ws)" by (auto simp: covers_def)
  with Cons.IH bpe_encode_spells [OF assms, of w] show ?case by auto
qed simp


section \<open>Encoding a text\<close>

lemma find_from_bounds: "find_from st s p = Some q \<Longrightarrow> p \<le> q \<and> q + length st \<le> length s"
proof (induction st s p rule: find_from.induct)
  case (1 st s p)
  then show ?case
    by (subst (asm) (2) find_from.simps) (auto split: if_splits)
qed

lemma find_from_here: "find_from st s p = Some p \<Longrightarrow> occurs_at st s p"
proof -
  assume found: "find_from st s p = Some p"
  have "\<not> find_from st s (p + 1) = Some p"
    using find_from_bounds [of st s "p + 1" p] by auto
  with found show "occurs_at st s p"
    by (subst (asm) find_from.simps) (auto simp: occurs_at_def split: if_splits)
qed

lemma next_special_bounds:
  assumes "pos < length s" "\<forall>st \<in> set (special_tokens t). \<not> occurs_at st s pos"
  shows "pos < next_special t s pos \<and> next_special t s pos \<le> length s"
proof -
  have "pos < foldl (\<lambda>e st. case find_from st s pos of Some p \<Rightarrow> if p < e then p else e | None \<Rightarrow> e) e sts \<and>
      foldl (\<lambda>e st. case find_from st s pos of Some p \<Rightarrow> if p < e then p else e | None \<Rightarrow> e) e sts \<le> length s"
    if "pos < e" "e \<le> length s" "\<forall>st \<in> set sts. \<not> occurs_at st s pos" for e sts
    using that
  proof (induction sts arbitrary: e)
    case (Cons st sts)
    have "pos < p" if "find_from st s pos = Some p" for p
      using find_from_bounds [OF that] find_from_here [of st s pos] that Cons.prems(3)
      by (cases "p = pos") auto
    with Cons show ?case by (auto split: option.split)
  qed simp
  with assms show ?thesis by (simp add: next_special_def)
qed

lemma qwen_ok_special:
  "qwen_ok t \<Longrightarrow> st \<in> set (special_tokens t) \<Longrightarrow>
    st \<noteq> [] \<and> (\<exists>i. token_to_id t st = Some i \<and> special_by_id t i = Some st)"
  by (simp add: qwen_ok_def)

lemma find_SomeD: "find P xs = Some x \<Longrightarrow> x \<in> set xs \<and> P x"
  by (induction xs) (auto split: if_splits)

lemma special_here_some:
  assumes ok: "qwen_ok t" and "find (\<lambda>st. occurs_at st s pos) (special_tokens t) = Some st"
    and vocabulary: "specials_in_vocabulary t s" and pos: "pos < length s"
  shows "\<exists>i. special_here t s pos = Some (i, length st) \<and> qw_spell t False i = st \<and> st \<noteq> [] \<and>
    take (length st) (drop pos s) = st"
proof -
  have st: "st \<in> set (special_tokens t)" "occurs_at st s pos"
    using find_SomeD [OF assms(2)] by simp_all
  obtain i where i: "token_to_id t st = Some i" "special_by_id t i = Some st" and ne: "st \<noteq> []"
    using qwen_ok_special [OF ok st(1)] by blast
  have "0 \<le> i \<and> i < int (length (id_to_token t))"
    using vocabulary st pos i(1) unfolding specials_in_vocabulary_def by blast
  with i(2) have "qw_spell t False i = st" by (simp add: qw_spell_def token_at_def)
  moreover have "special_here t s pos = Some (i, length st)"
    by (simp only: special_here_def assms(2) option.case i(1) option.map)
  moreover have "take (length st) (drop pos s) = st"
    using st(2) by (simp only: occurs_at_def)
  ultimately show ?thesis using ne by blast
qed

lemma encode_from_spells:
  assumes ok: "qwen_ok t" and cov: "covers t s" and vocabulary: "specials_in_vocabulary t s"
  shows "\<exists>sub. qw_encode_from t s pos ids = Some (ids @ sub) \<and>
    concat (map (qw_spell t False) sub) = drop pos s"
proof (induction "length s - pos" arbitrary: pos ids rule: less_induct)
  case less
  show ?case
  proof (cases "pos < length s")
    case False
    then show ?thesis by (subst qw_encode_from.simps) simp
  next
    case True
    show ?thesis
    proof (cases "find (\<lambda>st. occurs_at st s pos) (special_tokens t)")
      case (Some st)
      from special_here_some [OF ok Some vocabulary True] obtain i where
        here: "special_here t s pos = Some (i, length st)" "qw_spell t False i = st" "st \<noteq> []"
          "take (length st) (drop pos s) = st" by blast
      with True have "length s - (pos + length st) < length s - pos"
        by (metis diff_less_mono2 length_greater_0_conv less_add_same_cancel1)
      from less.hyps [OF this, of "ids @ [i]"] obtain sub where
        sub: "qw_encode_from t s (pos + length st) (ids @ [i]) = Some (ids @ [i] @ sub)"
          "concat (map (qw_spell t False) sub) = drop (pos + length st) s" by auto
      have "st @ drop (pos + length st) s = drop pos s"
        using here(4) append_take_drop_id [of "length st" "drop pos s"] by (simp add: add.commute)
      with True here sub show ?thesis
        by (intro exI [of _ "i # sub"]) (subst qw_encode_from.simps, simp)
    next
      case None
      then have no: "special_here t s pos = None" "\<forall>st \<in> set (special_tokens t). \<not> occurs_at st s pos"
        by (simp add: special_here_def) (use None in \<open>simp add: find_None_iff\<close>)
      define e where "e = next_special t s pos"
      have e: "pos < e" "e \<le> length s"
        using next_special_bounds [OF True no(2)] by (simp_all add: e_def)
      define piece where "piece = take (e - pos) (drop pos s)"
      have "covers t piece"
        using cov by (auto simp: covers_def piece_def dest!: in_set_takeD in_set_dropD)
      then have "covers t (concat (qw_pretokenize piece))"
        by (simp add: qw_pretokenize_def pretokenize_from_concat)
      from bpe_encode_all_spells [OF ok this] obtain sub where
        sub: "bpe_encode_all t (qw_pretokenize piece) = Some sub"
          "concat (map (qw_spell t False) sub) = piece"
        by (auto simp: qw_pretokenize_def pretokenize_from_concat)
      have "length s - e < length s - pos" using e by linarith
      from less.hyps [OF this, of "ids @ sub"] obtain sub' where
        sub': "qw_encode_from t s e (ids @ sub) = Some (ids @ sub @ sub')"
          "concat (map (qw_spell t False) sub') = drop e s" by auto
      have "piece @ drop e s = drop pos s"
        using e append_take_drop_id [of "e - pos" "drop pos s"] by (simp add: piece_def)
      with True no e sub sub' show ?thesis
        by (intro exI [of _ "sub @ sub'"])
           (subst qw_encode_from.simps, simp add: e_def [symmetric] piece_def [symmetric] Let_def)
    qed
  qed
qed



definition tiny_qwen :: qwen where
  "tiny_qwen = \<lparr>id_to_token = [[97], [98], [97, 98], [98, 98]],
    token_to_id = map_of [([97], 0), ([98], 1), ([97, 98], 2), ([98, 98], 3)],
    merge_list = [(0, 1)], special_ids = [3], special_tokens = [[98, 98]],
    special_by_id = map_of [(3, [98, 98])]\<rparr>"

lemma tiny_qwen_plain: "plain_token tiny_qwen 0" "plain_token tiny_qwen 1"
  unfolding plain_token_def
  by (simp_all add: tiny_qwen_def token_at_def)
     (rule exI [of _ "[97]"], simp add: byte_char_def, rule exI [of _ "[98]"], simp add: byte_char_def)

lemma tiny_qwen_ok: "qwen_ok tiny_qwen"
  using tiny_qwen_plain
  by (auto simp: qwen_ok_def tiny_qwen_def token_at_def split: if_splits)


section \<open>Special tokens in the content of a message\<close>

lemma trim_id: "s \<noteq> [] \<Longrightarrow> \<not> blank (hd s) \<Longrightarrow> \<not> blank (last s) \<Longrightarrow> trim s = s"
proof -
  assume s: "s \<noteq> []" "\<not> blank (hd s)" "\<not> blank (last s)"
  then have "dropWhile blank s = s" "dropWhile blank (rev s) = rev s"
    unfolding dropWhile_eq_self_iff by (simp_all add: hd_rev)
  then show "trim s = s" by (simp add: trim_def)
qed

definition user :: "bytes \<Rightarrow> message" where
  "user c = \<lparr>role = ascii ''user'', content = c, reasoning = []\<rparr>"

definition turn_break :: bytes where
  "turn_break = ascii ''<|im_end|>'' @ newline @ ascii ''<|im_start|>user'' @ newline"

lemma user_not_system: "ascii ''user'' \<noteq> ascii ''system''"
  by (simp add: ascii_def)

lemma render_user: "render_message i (user c) =
  ascii ''<|im_start|>user'' @ newline @ trim c @ ascii ''<|im_end|>'' @ newline"
  by (simp add: render_message_def user_def user_not_system Let_def)

text \<open>
  C33: The template does not separate content from markup: a user message that contains the markup of
  a turn change gives, with every tokenizer, the very ids of the conversation with the extra turn.
\<close>

theorem chat_content_forges_turn:
  assumes "a \<noteq> []" "\<not> blank (hd a)" "\<not> blank (last a)"
    and "b \<noteq> []" "\<not> blank (hd b)" "\<not> blank (last b)"
  shows "apply_chat_template t [user (a @ turn_break @ b)] gen = apply_chat_template t [user a, user b] gen"
proof -
  have "trim (a @ turn_break @ b) = a @ turn_break @ b"
    using assms by (intro trim_id) simp_all
  moreover have "trim a = a" "trim b = b"
    using assms by (simp_all add: trim_id)
  ultimately have "render_from 0 [user (a @ turn_break @ b)] = render_from 0 [user a, user b]"
    by (simp add: render_user turn_break_def)
  then show ?thesis by (simp only: apply_chat_template_def)
qed

theorem chat_content_forges_turn_witness:
  "apply_chat_template tiny_qwen [user ([104, 105] @ turn_break @ [121, 111])] True
    = apply_chat_template tiny_qwen [user [104, 105], user [121, 111]] True"
  by (rule chat_content_forges_turn) (simp_all add: blank_def)

section \<open>Ids past the vocabulary and byte escapes\<close>

text \<open>
  \<open>decode\<close> tests the id against the model vocabulary before it looks for a special token: a
  special token whose id lies past that vocabulary, where added tokens are numbered, is dropped
  even when special tokens are to be shown.
\<close>

theorem qwen_added_special_dropped:
  assumes "int (length (id_to_token t)) \<le> i" "special_by_id t i = Some st"
  shows "qw_decode t [i] False = [] \<and> is_special t i"
  using assms by (simp add: qw_decode_def qw_spell_def token_at_def is_special_def)

theorem qwen_added_special_dropped_witness:
  "qw_decode (tiny_qwen\<lparr>special_by_id := map_of [(4, [60, 62])]\<rparr>) [4] False = [] \<and>
    is_special (tiny_qwen\<lparr>special_by_id := map_of [(4, [60, 62])]\<rparr>) 4"
  by (rule qwen_added_special_dropped [where st = "[60, 62]"]) (simp_all add: tiny_qwen_def)

text \<open>
  A token of printable ASCII always spells itself, since \<open><\<close> is in the byte alphabet and is matched
  first; the branch for byte escapes is never reached, and \<open><0x0A>\<close> is not decoded to a newline.
\<close>

theorem qwen_byte_escape_unreachable:
  assumes "\<forall>b \<in> set tok. 33 \<le> b \<and> b \<le> 126"
  shows "token_to_bytes tok = tok"
proof -
  have "concat (map byte_char tok) = tok"
    using assms by (induction tok) (simp_all add: byte_char_def)
  with token_to_bytes_chars [of tok] show ?thesis by simp
qed

theorem qwen_byte_escape_unreachable_witness:
  "token_to_bytes (ascii ''<0x0A>'') = ascii ''<0x0A>'' \<and> hex_escape (ascii ''<0x0A>'') 0 = Some 10"
  by (simp add: qwen_byte_escape_unreachable ascii_def) (simp add: hex_escape_def hex_digit_def ascii_def)

end
