(* ===== verification/Autograd.thy ===== *)
theory Autograd
  imports Prelude
begin

text \<open>
  \<open>AutogradEngine\<close> of src/src/model/autograd_engine.cpp: the recorded graph, the registry of parameters
  and the backward pass. Tensors are identified by the address of their data, as in the code. What a
  recorded operation computes is a parameter of its node: \<open>refill\<close> is what \<open>forward\<close> keeps in
  \<open>saved\<close>, \<open>derive\<close> is \<open>backward\<close>. The elements of gradients are of any type with an
  addition and a one; where the theorems need its laws, rounding is left out.
\<close>

section \<open>Data\<close>

type_synonym address = nat

record 'a gradient =
  g_shape :: "int list"
  g_elems :: "'a list"

record operand =
  o_data :: address
  o_shape :: "int list"
  o_numel :: nat
  o_requires_grad :: bool

record ('s, 'a) node =
  refill :: "'s list"
  derive :: "'s list \<Rightarrow> 'a gradient \<Rightarrow> 'a gradient list"
  saved :: "'s list"
  inputs :: "operand list"
  outputs :: "address list"
  checkpoint :: bool

record 'a parameter =
  p_data :: address
  p_shape :: "int list"
  p_grad :: "'a gradient option"

text \<open>\<open>heap\<close> has the tensors that \<open>Tensor*\<close> pointers (here \<open>'p\<close>) point at. The weak pointers to nodes are indices
  into \<open>nodes\<close>, which holds the nodes until \<open>clear\<close> empties both.\<close>

record ('p, 's, 'a) engine =
  nodes :: "('s, 'a) node list"
  output_to_node :: "address \<rightharpoonup> nat"
  param_map :: "address \<rightharpoonup> 'p"
  next_is_checkpoint :: bool
  enabled :: bool
  heap :: "'p \<Rightarrow> 'a parameter"

section \<open>Recording\<close>

text \<open>The null pointer is address 0.\<close>

definition register_parameter :: "'p \<Rightarrow> ('p, 's, 'a) engine \<Rightarrow> ('p, 's, 'a) engine" where
  "register_parameter p e =
    (if p_data (heap e p) = 0 then e
     else e\<lparr>param_map := (param_map e)(p_data (heap e p) \<mapsto> p)\<rparr>)"

definition unregister_parameter :: "'p \<Rightarrow> ('p, 's, 'a) engine \<Rightarrow> ('p, 's, 'a) engine" where
  "unregister_parameter p e =
    (if param_map e (p_data (heap e p)) = Some p
     then e\<lparr>param_map := (param_map e)(p_data (heap e p) := None)\<rparr> else e)"

definition register_node :: "('s, 'a) node \<Rightarrow> ('p, 's, 'a) engine \<Rightarrow> ('p, 's, 'a) engine" where
  "register_node n e =
    (let n' = (if next_is_checkpoint e then n\<lparr>checkpoint := True, saved := []\<rparr> else n) in
     e\<lparr>next_is_checkpoint := False, nodes := nodes e @ [n'],
       output_to_node := fold (\<lambda>a m. m(a \<mapsto> length (nodes e))) (outputs n') (output_to_node e)\<rparr>)"

definition set_checkpoint :: "('p, 's, 'a) engine \<Rightarrow> ('p, 's, 'a) engine" where
  "set_checkpoint e = e\<lparr>next_is_checkpoint := True\<rparr>"

definition clear :: "('p, 's, 'a) engine \<Rightarrow> ('p, 's, 'a) engine" where
  "clear e = e\<lparr>nodes := [], output_to_node := Map.empty, next_is_checkpoint := False\<rparr>"

definition reset :: "('p, 's, 'a) engine \<Rightarrow> ('p, 's, 'a) engine" where
  "reset e = e\<lparr>nodes := [], output_to_node := Map.empty, param_map := Map.empty,
     next_is_checkpoint := False, enabled := False\<rparr>"

text \<open>The recording helpers differ in the function they apply; \<open>out\<close> is the address of its result, and
  \<open>forward\<close> has just filled \<open>saved\<close>.\<close>

definition record_op :: "'s list \<Rightarrow> ('s list \<Rightarrow> 'a gradient \<Rightarrow> 'a gradient list) \<Rightarrow> operand list \<Rightarrow> address
    \<Rightarrow> ('p, 's, 'a) engine \<Rightarrow> ('p, 's, 'a) engine" where
  "record_op kept derivative args out e =
    (if \<not> enabled e then e
     else register_node \<lparr>refill = kept, derive = derivative, saved = kept, inputs = args,
                         outputs = [out], checkpoint = False\<rparr> e)"

section \<open>The backward pass\<close>

definition grad_keys :: "('s, 'a) node \<Rightarrow> address list" where
  "grad_keys n = map o_data (filter o_requires_grad (inputs n))"

definition bump :: "address \<Rightarrow> (address \<rightharpoonup> int) \<Rightarrow> (address \<rightharpoonup> int)" where
  "bump a m = m(a \<mapsto> (case m a of None \<Rightarrow> 0 | Some c \<Rightarrow> c) + 1)"

text \<open>A node counts once for a tensor that it uses more than once.\<close>

definition consumer_count :: "('s, 'a) node list \<Rightarrow> address \<Rightarrow> (address \<rightharpoonup> int)" where
  "consumer_count ns loss =
    bump loss (fold (\<lambda>n m. fold bump (remdups (grad_keys n)) m) ns Map.empty)"

definition math_add :: "'a::plus gradient \<Rightarrow> 'a gradient \<Rightarrow> int list \<Rightarrow> 'a gradient" where
  "math_add g h s = \<lparr>g_shape = s, g_elems = map2 (+) (g_elems g) (g_elems h)\<rparr>"

definition add_to_parameter :: "'a::plus gradient \<Rightarrow> 'a parameter \<Rightarrow> 'a parameter" where
  "add_to_parameter g p =
    (case p_grad p of
       None \<Rightarrow> p\<lparr>p_grad := Some g\<rparr>
     | Some old \<Rightarrow>
         if p_shape p = g_shape g then p\<lparr>p_grad := Some (math_add old g (p_shape p))\<rparr>
         else p\<lparr>p_grad := Some g\<rparr>)"

definition accumulate :: "address \<Rightarrow> 'a::plus gradient \<Rightarrow> (address \<rightharpoonup> 'a gradient) \<Rightarrow> (address \<rightharpoonup> 'a gradient)" where
  "accumulate a g accum =
    (case accum a of
       None \<Rightarrow> accum(a \<mapsto> g)
     | Some old \<Rightarrow>
         if length (g_elems old) = length (g_elems g) then accum(a \<mapsto> math_add old g (g_shape g))
         else accum(a \<mapsto> g))"

text \<open>The loop over the inputs of a node; the stack has its back in front.\<close>

fun deliver :: "('p, 's, 'a::plus) engine \<Rightarrow> (operand \<times> 'a gradient) list \<Rightarrow> address set
    \<Rightarrow> ('p \<Rightarrow> 'a parameter) \<times> (address \<rightharpoonup> 'a gradient) \<times> address list
    \<Rightarrow> ('p \<Rightarrow> 'a parameter) \<times> (address \<rightharpoonup> 'a gradient) \<times> address list" where
  "deliver e [] pushed st = st"
| "deliver e ((i, g) # rest) pushed (hp, accum, stack) =
    (if \<not> o_requires_grad i then deliver e rest pushed (hp, accum, stack)
     else
       deliver e rest (insert (o_data i) pushed)
         ((case param_map e (o_data i) of
             Some p \<Rightarrow> if p_data (hp p) = o_data i then hp(p := add_to_parameter g (hp p)) else hp
           | None \<Rightarrow> hp),
          accumulate (o_data i) g accum,
          if o_data i \<in> pushed then stack else o_data i # stack))"

definition node_backward :: "('s, 'a) node \<Rightarrow> 'a gradient \<Rightarrow> 'a gradient list" where
  "node_backward n g =
    (let kept = (if checkpoint n \<and> saved n = [] then refill n else saved n) in derive n kept g)"

partial_function (option) backward_loop :: "('p, 's, 'a::plus) engine \<Rightarrow> (address \<rightharpoonup> int)
    \<Rightarrow> ('p \<Rightarrow> 'a parameter) \<Rightarrow> (address \<rightharpoonup> 'a gradient) \<Rightarrow> address list \<Rightarrow> ('p \<Rightarrow> 'a parameter) option" where
  "backward_loop e pending hp accum stack =
    (case stack of
       [] \<Rightarrow> Some hp
     | t # rest \<Rightarrow>
         (case pending t of
            None \<Rightarrow> backward_loop e pending hp accum rest
          | Some c \<Rightarrow>
              (let pending' = pending(t \<mapsto> c - 1) in
               if 0 < c - 1 then backward_loop e pending' hp accum rest
               else (case output_to_node e t of
                       None \<Rightarrow> backward_loop e pending' hp accum rest
                     | Some n \<Rightarrow>
                         (case accum t of
                            None \<Rightarrow> backward_loop e pending' hp accum rest
                          | Some g \<Rightarrow>
                              (case deliver e (zip (inputs (nodes e ! n)) (node_backward (nodes e ! n) g)) {}
                                      (hp, accum, rest) of
                                 (hp', accum', stack') \<Rightarrow> backward_loop e pending' hp' accum' stack'))))))"

declare backward_loop.simps [code]

text \<open>\<open>loss\<close> is the tensor that \<open>backward\<close> is called on: its address and shape, and its gradient, if one is
  set. A gradient of ones is the default. The result is the heap with the gradients of the parameters.\<close>

definition loss_seed :: "operand \<Rightarrow> 'a::one gradient option \<Rightarrow> 'a gradient" where
  "loss_seed loss g =
    (case g of
       Some g \<Rightarrow> if g_elems g = [] then \<lparr>g_shape = o_shape loss, g_elems = replicate (o_numel loss) 1\<rparr> else g
     | None \<Rightarrow> \<lparr>g_shape = o_shape loss, g_elems = replicate (o_numel loss) 1\<rparr>)"

definition backward :: "operand \<Rightarrow> 'a gradient option \<Rightarrow> ('p, 's, 'a::{plus,one}) engine
    \<Rightarrow> ('p, 's, 'a) engine option" where
  "backward loss g e =
    map_option (\<lambda>hp. e\<lparr>heap := hp\<rparr>)
      (backward_loop e (consumer_count (nodes e) (o_data loss)) (heap e)
        (Map.empty(o_data loss \<mapsto> loss_seed loss g)) [o_data loss])"

end
