(* ===== verification/Autograd_Correct.thy ===== *)
theory Autograd_Correct
  imports Autograd
begin

text \<open>
  The backward pass computes the adjoints of the recorded graph. A tape is in order when every address is the
  output of at most one node and a node uses only what was there before it, which recording keeps. The
  invariant of the loop is stated with the set of the nodes that have been run and the number of times
  each address has left the stack; rounding is left out, so the order of additions does not matter.
\<close>

section \<open>Tapes\<close>

definition node_out :: "('s, 'a) node \<Rightarrow> address" where
  "node_out n = hd (outputs n)"

definition out_at :: "('p, 's, 'a) engine \<Rightarrow> nat \<Rightarrow> address" where
  "out_at e n = node_out (nodes e ! n)"

definition tape_ok :: "('p, 's, 'a) engine \<Rightarrow> bool" where
  "tape_ok e =
    ((\<forall>n < length (nodes e). output_to_node e (out_at e n) = Some n) \<and>
     (\<forall>t n. output_to_node e t = Some n \<longrightarrow> n < length (nodes e) \<and> out_at e n = t) \<and>
     (\<forall>m < length (nodes e). \<forall>n < length (nodes e).
        out_at e n \<in> set (grad_keys (nodes e ! m)) \<longrightarrow> n < m))"

lemma tape_ok_out: "tape_ok e \<Longrightarrow> n < length (nodes e) \<Longrightarrow> output_to_node e (out_at e n) = Some n"
  by (simp add: tape_ok_def)

lemma tape_ok_node: "tape_ok e \<Longrightarrow> output_to_node e t = Some n \<Longrightarrow> n < length (nodes e) \<and> out_at e n = t"
  by (simp add: tape_ok_def)

lemma tape_ok_order:
  "tape_ok e \<Longrightarrow> m < length (nodes e) \<Longrightarrow> n < length (nodes e) \<Longrightarrow>
    out_at e n \<in> set (grad_keys (nodes e ! m)) \<Longrightarrow> n < m"
  by (simp add: tape_ok_def)

lemma tape_ok_empty: "tape_ok (clear e)"
  by (simp add: tape_ok_def clear_def)

lemma record_op_tape:
  assumes "tape_ok e" "output_to_node e out = None"
    and "out \<notin> o_data ` set args" "\<forall>n \<in> set (nodes e). out \<notin> set (grad_keys n)"
  shows "tape_ok (record_op kept derivative args out e)"
proof (cases "enabled e")
  case True
  define n0 where "n0 = \<lparr>refill = kept, derive = derivative, saved = (if next_is_checkpoint e then [] else kept),
    inputs = args, outputs = [out], checkpoint = next_is_checkpoint e\<rparr>"
  define e' where "e' = record_op kept derivative args out e"
  have e': "nodes e' = nodes e @ [n0]" "output_to_node e' = (output_to_node e)(out \<mapsto> length (nodes e))"
    using True by (auto simp: e'_def record_op_def register_node_def n0_def Let_def)
  have out: "out_at e' n = (if n < length (nodes e) then out_at e n else out)" if "n \<le> length (nodes e)" for n
    using that by (auto simp: out_at_def node_out_def e'(1) nth_append n0_def)
  have keys: "set (grad_keys (nodes e' ! n)) =
      (if n < length (nodes e) then set (grad_keys (nodes e ! n)) else set (grad_keys n0))"
    if "n \<le> length (nodes e)" for n
    using that by (auto simp: e'(1) nth_append)
  have fresh: "out_at e n \<noteq> out" if "n < length (nodes e)" for n
    using tape_ok_out [OF assms(1) that] assms(2) by auto
  have own: "out \<notin> set (grad_keys n0)"
    using assms(3) by (auto simp: grad_keys_def n0_def)
  have "tape_ok e'"
    unfolding tape_ok_def
  proof (intro conjI allI impI)
    fix n assume "n < length (nodes e')"
    then show "output_to_node e' (out_at e' n) = Some n"
      using out [of n] fresh [of n] tape_ok_out [OF assms(1), of n] by (auto simp: e' less_Suc_eq)
  next
    fix t n assume "output_to_node e' t = Some n"
    then show "n < length (nodes e')"
      using tape_ok_node [OF assms(1), of t n] by (auto simp: e' split: if_splits)
  next
    fix t n assume "output_to_node e' t = Some n"
    then show "out_at e' n = t"
      using tape_ok_node [OF assms(1), of t n] out [of n] by (auto simp: e' split: if_splits)
  next
    fix m n assume mn: "m < length (nodes e')" "n < length (nodes e')"
      and use: "out_at e' n \<in> set (grad_keys (nodes e' ! m))"
    have le: "m \<le> length (nodes e)" "n \<le> length (nodes e)" using mn by (simp_all add: e'(1))
    have "n < length (nodes e)"
    proof (rule ccontr)
      assume "\<not> n < length (nodes e)"
      then have "out \<in> set (grad_keys (nodes e' ! m))" using use out [OF le(2)] by simp
      then show False
        using own assms(4) keys [OF le(1)] by (auto split: if_splits)
    qed
    then show "n < m"
      using use out [OF le(2)] keys [OF le(1)] tape_ok_order [OF assms(1), of m n] le
      by (cases "m < length (nodes e)") auto
  qed
  then show ?thesis by (simp add: e'_def)
qed (simp add: record_op_def assms(1))

text \<open>A checkpointed node forgets what \<open>forward\<close> kept and computes it again: it derives the same.\<close>

lemma checkpoint_transparent:
  "node_backward (n\<lparr>checkpoint := True, saved := []\<rparr>) g = node_backward (n\<lparr>checkpoint := c, saved := refill n\<rparr>) g"
  by (simp add: node_backward_def)

section \<open>Counting consumers\<close>

definition consumers :: "('p, 's, 'a) engine \<Rightarrow> address \<Rightarrow> nat set" where
  "consumers e t = {n. n < length (nodes e) \<and> t \<in> set (grad_keys (nodes e ! n))}"

text \<open>How often the loop has to meet an address before its node is run.\<close>

definition wanted :: "('p, 's, 'a) engine \<Rightarrow> address \<Rightarrow> address \<Rightarrow> nat" where
  "wanted e loss t = card (consumers e t) + (if t = loss then 1 else 0)"

lemma finite_consumers: "finite (consumers e t)"
  by (simp add: consumers_def)

definition count_map :: "(address \<Rightarrow> nat) \<Rightarrow> (address \<rightharpoonup> int)" where
  "count_map c = (\<lambda>t. if c t = 0 then None else Some (int (c t)))"

lemma bump_count: "bump a (count_map c) = count_map (\<lambda>t. c t + (if t = a then 1 else 0))"
  by (auto simp: bump_def count_map_def)

lemma fold_bump_count:
  "distinct ks \<Longrightarrow> fold bump ks (count_map c) = count_map (\<lambda>t. c t + (if t \<in> set ks then 1 else 0))"
proof (induction ks arbitrary: c)
  case (Cons k ks)
  then have "fold bump ks (count_map (\<lambda>t. c t + (if t = k then 1 else 0)))
      = count_map (\<lambda>t. c t + (if t = k then 1 else 0) + (if t \<in> set ks then 1 else 0))" by simp
  moreover have "(\<lambda>t. c t + (if t = k then 1 else 0) + (if t \<in> set ks then 1 else 0))
      = (\<lambda>t. c t + (if t \<in> set (k # ks) then 1 else (0::nat)))"
    using Cons.prems by auto
  ultimately show ?case by (simp add: bump_count)
qed simp

lemma fold_nodes_count:
  "fold (\<lambda>n m. fold bump (remdups (grad_keys n)) m) ns (count_map c)
    = count_map (\<lambda>t. c t + length (filter (\<lambda>n. t \<in> set (grad_keys n)) ns))"
proof (induction ns arbitrary: c)
  case (Cons n ns)
  show ?case
    by (simp add: fold_bump_count Cons.IH) (auto intro!: arg_cong [where f = count_map])
qed simp

lemma consumer_count_map: "consumer_count (nodes e) loss = count_map (wanted e loss)"
proof -
  have e: "(Map.empty :: address \<rightharpoonup> int) = count_map (\<lambda>_. 0)"
    by (auto simp: count_map_def)
  have "length (filter (\<lambda>n. t \<in> set (grad_keys n)) (nodes e)) = card (consumers e t)" for t
    by (simp add: length_filter_conv_card consumers_def)
  then show ?thesis
    by (simp add: consumer_count_def e fold_nodes_count bump_count)
       (auto intro!: arg_cong [where f = count_map] simp: wanted_def)
qed

section \<open>One node\<close>

text \<open>\<open>sh\<close> and \<open>sz\<close> give the shape and the number of elements of the tensor at an address.\<close>

definition shaped :: "(address \<Rightarrow> int list) \<Rightarrow> (address \<Rightarrow> nat) \<Rightarrow> (address \<rightharpoonup> 'a gradient) \<Rightarrow> bool" where
  "shaped sh sz acc = (\<forall>t g. acc t = Some g \<longrightarrow> g_shape g = sh t \<and> length (g_elems g) = sz t)"

definition element :: "(address \<rightharpoonup> 'a::zero gradient) \<Rightarrow> address \<Rightarrow> nat \<Rightarrow> 'a" where
  "element acc t i = (case acc t of None \<Rightarrow> 0 | Some g \<Rightarrow> g_elems g ! i)"

definition delivery_ok :: "(address \<Rightarrow> int list) \<Rightarrow> (address \<Rightarrow> nat) \<Rightarrow> (operand \<times> 'a gradient) list \<Rightarrow> bool" where
  "delivery_ok sh sz xs =
    (\<forall>(o', g) \<in> set xs. g_shape g = sh (o_data o') \<and> length (g_elems g) = sz (o_data o'))"

definition keys_of :: "(operand \<times> 'a gradient) list \<Rightarrow> address set" where
  "keys_of xs = {o_data o' | o' g. (o', g) \<in> set xs \<and> o_requires_grad o'}"

text \<open>What a delivery adds to element \<open>i\<close> of the tensor at \<open>t\<close>.\<close>

definition flow :: "(operand \<times> 'a::monoid_add gradient) list \<Rightarrow> address \<Rightarrow> nat \<Rightarrow> 'a" where
  "flow xs t i = (\<Sum>(o', g) \<leftarrow> xs. if o_requires_grad o' \<and> o_data o' = t then g_elems g ! i else 0)"

lemma keys_of_simps [simp]:
  "keys_of [] = {}"
  "keys_of ((o', g) # xs) = (if o_requires_grad o' then insert (o_data o') (keys_of xs) else keys_of xs)"
  by (auto simp: keys_of_def)

lemma flow_simps [simp]:
  "flow [] t i = 0"
  "flow ((o', g) # xs) t i = (if o_requires_grad o' \<and> o_data o' = t then g_elems g ! i else 0) + flow xs t i"
  by (simp_all add: flow_def)

lemma flow_outside: "t \<notin> keys_of xs \<Longrightarrow> flow xs t i = 0"
  by (induction xs) (auto split: if_splits)

lemma accumulate_shaped:
  assumes "shaped sh sz acc" "g_shape g = sh a" "length (g_elems g) = sz a"
  shows "shaped sh sz (accumulate a g acc)"
  using assms by (auto simp: accumulate_def shaped_def math_add_def split: option.splits)

lemma accumulate_element:
  fixes g :: "'a::comm_monoid_add gradient"
  assumes "shaped sh sz acc" "length (g_elems g) = sz a" "i < sz t"
  shows "element (accumulate a g acc) t i = element acc t i + (if a = t then g_elems g ! i else 0)"
  using assms by (auto simp: accumulate_def shaped_def element_def math_add_def split: option.splits)

lemma accumulate_None: "accumulate a g acc t = None \<longleftrightarrow> acc t = None \<and> t \<noteq> a"
  by (simp add: accumulate_def split: option.splits)

lemma deliver_accum:
  fixes xs :: "(operand \<times> 'a::comm_monoid_add gradient) list"
  assumes "deliver e xs pushed (hp, acc, stack) = (hp', acc', stack')"
    and "shaped sh sz acc" "delivery_ok sh sz xs"
  shows "shaped sh sz acc' \<and> (\<forall>t. \<forall>i < sz t. element acc' t i = element acc t i + flow xs t i) \<and>
    (\<forall>t. acc' t = None \<longleftrightarrow> acc t = None \<and> t \<notin> keys_of xs) \<and> (\<forall>t. t \<notin> keys_of xs \<longrightarrow> acc' t = acc t)"
  using assms
proof (induction e xs pushed "(hp, acc, stack)" arbitrary: hp acc stack rule: deliver.induct)
  case (2 e i g rest pushed hp acc stack)
  have g: "g_shape g = sh (o_data i)" "length (g_elems g) = sz (o_data i)" and rest: "delivery_ok sh sz rest"
    using "2.prems"(3) by (auto simp: delivery_ok_def)
  show ?case
  proof (cases "o_requires_grad i")
    case False
    with "2.hyps"(1) [OF False] "2.prems" rest show ?thesis by simp
  next
    case True
    have d: "deliver e rest (insert (o_data i) pushed)
        ((case param_map e (o_data i) of
             Some p \<Rightarrow> if p_data (hp p) = o_data i then hp(p := add_to_parameter g (hp p)) else hp
           | None \<Rightarrow> hp), accumulate (o_data i) g acc, if o_data i \<in> pushed then stack else o_data i # stack)
        = (hp', acc', stack')"
      using "2.prems"(1) True by simp
    have sh: "shaped sh sz (accumulate (o_data i) g acc)"
      by (rule accumulate_shaped [OF "2.prems"(2) g])
    from "2.hyps"(2) [OF _ d sh rest] True
    have IH: "shaped sh sz acc'"
      "\<forall>t. \<forall>j < sz t. element acc' t j = element (accumulate (o_data i) g acc) t j + flow rest t j"
      "\<forall>t. acc' t = None \<longleftrightarrow> accumulate (o_data i) g acc t = None \<and> t \<notin> keys_of rest"
      "\<forall>t. t \<notin> keys_of rest \<longrightarrow> acc' t = accumulate (o_data i) g acc t" by simp_all
    have el: "element (accumulate (o_data i) g acc) t j
        = element acc t j + (if o_data i = t then g_elems g ! j else 0)" if "j < sz t" for t j
      by (rule accumulate_element [OF "2.prems"(2) g(2) that])
    have other: "accumulate (o_data i) g acc t = acc t" if "t \<noteq> o_data i" for t
      using that by (auto simp: accumulate_def split: option.splits)
    show ?thesis
      using IH el other True by (simp add: accumulate_None add.assoc)
  qed
qed simp_all

lemma deliver_stack:
  assumes "deliver e xs pushed (hp, acc, stack) = (hp', acc', stack')"
  shows "count_list stack' t = count_list stack t + (if t \<in> keys_of xs \<and> t \<notin> pushed then 1 else 0)"
  using assms
proof (induction e xs pushed "(hp, acc, stack)" arbitrary: hp acc stack rule: deliver.induct)
  case (2 e i g rest pushed hp acc stack)
  then show ?case by (cases "o_requires_grad i") auto
qed simp_all

text \<open>The gradients of the registered parameters grow by the same amounts.\<close>

definition registered :: "('p, 's, 'a) engine \<Rightarrow> 'p \<Rightarrow> bool" where
  "registered e p = (param_map e (p_data (heap e p)) = Some p)"

definition grad_at :: "'a::zero parameter \<Rightarrow> nat \<Rightarrow> 'a" where
  "grad_at q i = (case p_grad q of None \<Rightarrow> 0 | Some g \<Rightarrow> g_elems g ! i)"

definition param_ok :: "(address \<Rightarrow> int list) \<Rightarrow> (address \<Rightarrow> nat) \<Rightarrow> 'a parameter \<Rightarrow> bool" where
  "param_ok sh sz q = (p_shape q = sh (p_data q) \<and>
    (case p_grad q of None \<Rightarrow> True | Some g \<Rightarrow> length (g_elems g) = sz (p_data q)))"

text \<open>\<open>hp'\<close> has the registered parameters of \<open>hp\<close> with their gradients raised by \<open>inc\<close>, the rest unchanged.\<close>

definition raised :: "('p, 's, 'a::comm_monoid_add) engine \<Rightarrow> (address \<Rightarrow> int list) \<Rightarrow> (address \<Rightarrow> nat)
    \<Rightarrow> ('p \<Rightarrow> 'a parameter) \<Rightarrow> ('p \<Rightarrow> 'a parameter) \<Rightarrow> (address \<Rightarrow> nat \<Rightarrow> 'a) \<Rightarrow> bool" where
  "raised e sh sz hp hp' inc =
    (\<forall>p. p_data (hp' p) = p_data (hp p) \<and>
      (if param_map e (p_data (hp p)) = Some p
       then param_ok sh sz (hp' p) \<and>
         (\<forall>i < sz (p_data (hp p)). grad_at (hp' p) i = grad_at (hp p) i + inc (p_data (hp p)) i)
       else hp' p = hp p))"

lemma raised_cong:
  "raised e sh sz hp hp' inc \<Longrightarrow> (\<And>t i. i < sz t \<Longrightarrow> inc t i = inc' t i) \<Longrightarrow> raised e sh sz hp hp' inc'"
  by (simp add: raised_def)

lemma raised_trans:
  assumes "raised e sh sz hp hp1 inc1" "raised e sh sz hp1 hp2 inc2"
  shows "raised e sh sz hp hp2 (\<lambda>t i. inc1 t i + inc2 t i)"
  using assms by (simp add: raised_def add.assoc)

definition deliver_parameter :: "('p, 's, 'a::plus) engine \<Rightarrow> operand \<Rightarrow> 'a gradient
    \<Rightarrow> ('p \<Rightarrow> 'a parameter) \<Rightarrow> ('p \<Rightarrow> 'a parameter)" where
  "deliver_parameter e i g hp =
    (case param_map e (o_data i) of
       Some p \<Rightarrow> if p_data (hp p) = o_data i then hp(p := add_to_parameter g (hp p)) else hp
     | None \<Rightarrow> hp)"

lemma add_to_parameter_spec:
  fixes g :: "'a::comm_monoid_add gradient"
  assumes "param_ok sh sz q" "g_shape g = sh (p_data q)" "length (g_elems g) = sz (p_data q)"
  shows "param_ok sh sz (add_to_parameter g q)" "p_data (add_to_parameter g q) = p_data q"
    "i < sz (p_data q) \<Longrightarrow> grad_at (add_to_parameter g q) i = grad_at q i + g_elems g ! i"
  using assms
  by (auto simp: param_ok_def add_to_parameter_def grad_at_def math_add_def split: option.splits)

definition params_ok :: "('p, 's, 'a) engine \<Rightarrow> (address \<Rightarrow> int list) \<Rightarrow> (address \<Rightarrow> nat) \<Rightarrow> ('p \<Rightarrow> 'a parameter) \<Rightarrow> bool" where
  "params_ok e sh sz hp = (\<forall>p. param_map e (p_data (hp p)) = Some p \<longrightarrow> param_ok sh sz (hp p))"

lemma raised_params_ok: "params_ok e sh sz hp \<Longrightarrow> raised e sh sz hp hp' inc \<Longrightarrow> params_ok e sh sz hp'"
  by (auto simp: params_ok_def raised_def)

lemma deliver_parameter_raised:
  fixes g :: "'a::comm_monoid_add gradient"
  assumes "params_ok e sh sz hp" "g_shape g = sh (o_data i)" "length (g_elems g) = sz (o_data i)"
  shows "raised e sh sz hp (deliver_parameter e i g hp) (\<lambda>t j. if o_data i = t then g_elems g ! j else 0)"
proof (cases "\<exists>p. param_map e (o_data i) = Some p \<and> p_data (hp p) = o_data i")
  case True
  then obtain p where p: "param_map e (o_data i) = Some p" "p_data (hp p) = o_data i" by blast
  then have ok: "param_ok sh sz (hp p)" using assms(1) by (simp add: params_ok_def)
  have d: "deliver_parameter e i g hp = hp(p := add_to_parameter g (hp p))"
    by (simp add: deliver_parameter_def p)
  note spec = add_to_parameter_spec [OF ok, of g, unfolded p(2), OF assms(2,3)]
  show ?thesis
    unfolding raised_def d
  proof (intro allI)
    fix q
    show "p_data ((hp(p := add_to_parameter g (hp p))) q) = p_data (hp q) \<and>
      (if param_map e (p_data (hp q)) = Some q
       then param_ok sh sz ((hp(p := add_to_parameter g (hp p))) q) \<and>
         (\<forall>j < sz (p_data (hp q)). grad_at ((hp(p := add_to_parameter g (hp p))) q) j =
            grad_at (hp q) j + (if o_data i = p_data (hp q) then g_elems g ! j else 0))
       else (hp(p := add_to_parameter g (hp p))) q = hp q)"
    proof (cases "q = p")
      case True
      then show ?thesis using spec p by simp
    next
      case False
      then have "o_data i \<noteq> p_data (hp q)" if "param_map e (p_data (hp q)) = Some q"
        using that p(1) by auto
      with False assms(1) show ?thesis by (simp add: params_ok_def)
    qed
  qed
next
  case False
  then have d: "deliver_parameter e i g hp = hp"
    by (auto simp: deliver_parameter_def split: option.splits)
  have "o_data i \<noteq> p_data (hp q)" if "param_map e (p_data (hp q)) = Some q" for q
    using that False by metis
  with assms(1) show ?thesis by (simp add: raised_def d params_ok_def)
qed

lemma deliver_raised:
  fixes xs :: "(operand \<times> 'a::comm_monoid_add gradient) list"
  assumes "deliver e xs pushed (hp, acc, stack) = (hp', acc', stack')"
    and "params_ok e sh sz hp" "delivery_ok sh sz xs"
  shows "raised e sh sz hp hp' (flow xs)"
  using assms
proof (induction e xs pushed "(hp, acc, stack)" arbitrary: hp acc stack rule: deliver.induct)
  case (1 e pushed hp acc stack)
  then show ?case by (simp add: raised_def params_ok_def)
next
  case (2 e i g rest pushed hp acc stack)
  have g: "g_shape g = sh (o_data i)" "length (g_elems g) = sz (o_data i)" and rest: "delivery_ok sh sz rest"
    using "2.prems"(3) by (auto simp: delivery_ok_def)
  show ?case
  proof (cases "o_requires_grad i")
    case False
    with "2.hyps"(1) [OF False] "2.prems" rest show ?thesis by (simp add: raised_def)
  next
    case True
    note one = deliver_parameter_raised [OF "2.prems"(2) g]
    have d: "deliver e rest (insert (o_data i) pushed) (deliver_parameter e i g hp,
        accumulate (o_data i) g acc, if o_data i \<in> pushed then stack else o_data i # stack) = (hp', acc', stack')"
      using "2.prems"(1) True by (simp add: deliver_parameter_def)
    from "2.hyps"(2) [folded deliver_parameter_def, OF _ d raised_params_ok [OF "2.prems"(2) one] rest] True
    have "raised e sh sz (deliver_parameter e i g hp) hp' (flow rest)" by simp
    from raised_trans [OF one this] show ?thesis
      by (rule raised_cong) (simp add: True)
  qed
qed

section \<open>The loop\<close>

definition sent :: "('p, 's, 'a) engine \<Rightarrow> nat \<Rightarrow> 'a gradient \<Rightarrow> (operand \<times> 'a gradient) list" where
  "sent e n g = zip (inputs (nodes e ! n)) (node_backward (nodes e ! n) g)"

text \<open>\<open>backward\<close> of each operation gives a gradient for each of its inputs, of that input's shape.\<close>

definition derives_ok :: "('p, 's, 'a) engine \<Rightarrow> (address \<Rightarrow> int list) \<Rightarrow> (address \<Rightarrow> nat) \<Rightarrow> bool" where
  "derives_ok e sh sz =
    (\<forall>n < length (nodes e). \<forall>g. g_shape g = sh (out_at e n) \<and> length (g_elems g) = sz (out_at e n) \<longrightarrow>
      length (node_backward (nodes e ! n) g) = length (inputs (nodes e ! n)) \<and> delivery_ok sh sz (sent e n g))"

text \<open>The nodes that have been run, \<open>pops\<close> being how often each address has left the stack.\<close>

definition run_nodes :: "('p, 's, 'a) engine \<Rightarrow> address \<Rightarrow> (address \<Rightarrow> nat) \<Rightarrow> nat set" where
  "run_nodes e loss pops = {n. n < length (nodes e) \<and> 0 < wanted e loss (out_at e n) \<and>
    pops (out_at e n) = wanted e loss (out_at e n)}"

definition inflow :: "('p, 's, 'a::comm_monoid_add) engine \<Rightarrow> nat set \<Rightarrow> (address \<Rightarrow> 'a gradient)
    \<Rightarrow> address \<Rightarrow> nat \<Rightarrow> 'a" where
  "inflow e D adj t i = (\<Sum>n \<in> D. flow (sent e n (adj (out_at e n))) t i)"

definition stack_inv :: "('p, 's, 'a) engine \<Rightarrow> address \<Rightarrow> (address \<Rightarrow> nat) \<Rightarrow> (address \<rightharpoonup> int) \<Rightarrow> address list \<Rightarrow> bool" where
  "stack_inv e loss pops pending stack =
    ((\<forall>t. pops t + count_list stack t =
        (if t = loss then 1 else 0) + card (run_nodes e loss pops \<inter> consumers e t)) \<and>
     (\<forall>t. pending t = (if wanted e loss t = 0 then None else Some (int (wanted e loss t) - int (pops t)))))"

definition value_inv :: "('p, 's, 'a::comm_monoid_add) engine \<Rightarrow> address \<Rightarrow> 'a gradient \<Rightarrow> (address \<Rightarrow> int list)
    \<Rightarrow> (address \<Rightarrow> nat) \<Rightarrow> ('p \<Rightarrow> 'a parameter) \<Rightarrow> nat set \<Rightarrow> ('p \<Rightarrow> 'a parameter) \<Rightarrow> (address \<rightharpoonup> 'a gradient) \<Rightarrow> bool" where
  "value_inv e loss seed sh sz hp0 D hp acc =
    (shaped sh sz acc \<and> params_ok e sh sz hp \<and>
     (\<forall>t. acc t = None \<longleftrightarrow> t \<noteq> loss \<and> D \<inter> consumers e t = {}) \<and>
     (\<forall>t. \<forall>i < sz t. element acc t i =
        (if t = loss then g_elems seed ! i else 0) + inflow e D (\<lambda>t. the (acc t)) t i) \<and>
     raised e sh sz hp0 hp (inflow e D (\<lambda>t. the (acc t))))"

lemma finite_run_nodes: "finite (run_nodes e loss pops)"
  by (simp add: run_nodes_def)

lemma pops_bound:
  assumes "stack_inv e loss pops pending stack"
  shows "pops t + count_list stack t \<le> wanted e loss t"
  using assms card_mono [OF finite_consumers [of e t], of "run_nodes e loss pops \<inter> consumers e t"]
  by (simp add: stack_inv_def wanted_def)

text \<open>When a node has been run, all users of its result have.\<close>

lemma run_consumers:
  assumes "stack_inv e loss pops pending stack" "pops t = wanted e loss t"
  shows "consumers e t \<subseteq> run_nodes e loss pops"
proof -
  have "card (consumers e t) \<le> card (run_nodes e loss pops \<inter> consumers e t)"
    using assms by (simp add: stack_inv_def wanted_def) (metis add.commute add_diff_cancel_left' add_le_cancel_left le_add1)
  then have "run_nodes e loss pops \<inter> consumers e t = consumers e t"
    by (simp add: card_seteq finite_consumers)
  then show ?thesis by blast
qed

lemma sent_keys:
  assumes "length (node_backward (nodes e ! n) g) = length (inputs (nodes e ! n))"
  shows "keys_of (sent e n g) = set (grad_keys (nodes e ! n))"
proof -
  have "keys_of xs = o_data ` {o' \<in> fst ` set xs. o_requires_grad o'}" for xs :: "(operand \<times> 'a gradient) list"
    by (force simp: keys_of_def)
  moreover have "fst ` set (sent e n g) = set (inputs (nodes e ! n))"
    using assms by (metis sent_def list.set_map map_fst_zip)
  ultimately show ?thesis by (auto simp: grad_keys_def)
qed

lemma tape_ok_unique:
  assumes "tape_ok e" "output_to_node e t = Some n" "m < length (nodes e)"
  shows "out_at e m = t \<longleftrightarrow> m = n"
proof
  assume "out_at e m = t"
  then show "m = n" using tape_ok_out [OF assms(1,3)] assms(2) by simp
next
  assume "m = n"
  then show "out_at e m = t" using tape_ok_node [OF assms(1,2)] by simp
qed

lemma run_nodes_pop:
  assumes "tape_ok e" "pops t < wanted e loss t"
  shows "run_nodes e loss (pops(t := pops t + 1)) =
    (case output_to_node e t of
       Some n \<Rightarrow> if pops t + 1 = wanted e loss t then insert n (run_nodes e loss pops) else run_nodes e loss pops
     | None \<Rightarrow> run_nodes e loss pops)"
proof (cases "output_to_node e t")
  case None
  then have "out_at e n \<noteq> t" if "n < length (nodes e)" for n
    using tape_ok_out [OF assms(1) that] by auto
  with None show ?thesis by (auto simp: run_nodes_def)
next
  case (Some n)
  note uniq = tape_ok_unique [OF assms(1) Some]
  have n: "n < length (nodes e)" "out_at e n = t" using tape_ok_node [OF assms(1) Some] by blast+
  show ?thesis
  proof (rule set_eqI)
    fix m
    show "m \<in> run_nodes e loss (pops(t := pops t + 1)) \<longleftrightarrow> m \<in> (case output_to_node e t of
       Some n \<Rightarrow> if pops t + 1 = wanted e loss t then insert n (run_nodes e loss pops) else run_nodes e loss pops
     | None \<Rightarrow> run_nodes e loss pops)"
    proof (cases "m < length (nodes e) \<and> m \<noteq> n")
      case True
      then have "out_at e m \<noteq> t" using uniq by simp
      with True Some show ?thesis by (simp add: run_nodes_def)
    next
      case False
      with n Some assms(2) show ?thesis by (cases "m = n") (simp_all add: run_nodes_def)
    qed
  qed
qed

lemma run_nodes_fresh:
  assumes "tape_ok e" "output_to_node e t = Some n" "pops t < wanted e loss t"
  shows "n \<notin> run_nodes e loss pops"
  using tape_ok_node [OF assms(1,2)] assms(3) by (simp add: run_nodes_def)

text \<open>An address that leaves the stack without its node being run.\<close>

lemma stack_inv_sums:
  "stack_inv e loss pops pending stack \<Longrightarrow>
    pops u + count_list stack u = (if u = loss then 1 else 0) + card (run_nodes e loss pops \<inter> consumers e u)"
  by (simp add: stack_inv_def)

lemma stack_inv_pending:
  "stack_inv e loss pops pending stack \<Longrightarrow>
    pending u = (if wanted e loss u = 0 then None else Some (int (wanted e loss u) - int (pops u)))"
  by (simp add: stack_inv_def)

lemma stack_inv_pop:
  assumes inv: "stack_inv e loss pops pending (t # rest)"
    and grows: "\<And>u. count_list stack u + card (run_nodes e loss pops \<inter> consumers e u) =
      count_list rest u + card (run_nodes e loss (pops(t := pops t + 1)) \<inter> consumers e u)"
  shows "stack_inv e loss (pops(t := pops t + 1)) (pending(t \<mapsto> int (wanted e loss t) - int (pops t) - 1)) stack"
proof -
  have pos: "0 < wanted e loss t" using pops_bound [OF inv, of t] by simp
  have "(pops(t := pops t + 1)) u + count_list stack u = (if u = loss then 1 else 0) +
      card (run_nodes e loss (pops(t := pops t + 1)) \<inter> consumers e u)" for u
    using stack_inv_sums [OF inv, of u] grows [of u] by (cases "u = t") auto
  moreover have "(pending(t \<mapsto> int (wanted e loss t) - int (pops t) - 1)) u = (if wanted e loss u = 0 then None
      else Some (int (wanted e loss u) - int ((pops(t := pops t + 1)) u)))" for u
    using stack_inv_pending [OF inv, of u] pos by (cases "u = t") simp_all
  ultimately show ?thesis by (simp only: stack_inv_def) blast
qed

lemma stack_inv_drop:
  assumes "stack_inv e loss pops pending (t # rest)"
    and "run_nodes e loss (pops(t := pops t + 1)) = run_nodes e loss pops"
  shows "stack_inv e loss (pops(t := pops t + 1)) (pending(t \<mapsto> int (wanted e loss t) - int (pops t) - 1)) rest"
  by (rule stack_inv_pop [OF assms(1)]) (simp add: assms(2) [simplified])

text \<open>An address whose node is run.\<close>

lemma stack_inv_run:
  assumes inv: "stack_inv e loss pops pending (t # rest)"
    and run: "run_nodes e loss (pops(t := pops t + 1)) = insert n (run_nodes e loss pops)"
    and n: "n \<notin> run_nodes e loss pops" "n < length (nodes e)"
    and stack: "\<And>u. count_list stack u = count_list rest u + (if u \<in> set (grad_keys (nodes e ! n)) then 1 else 0)"
  shows "stack_inv e loss (pops(t := pops t + 1)) (pending(t \<mapsto> int (wanted e loss t) - int (pops t) - 1)) stack"
proof -
  have "card (insert n (run_nodes e loss pops) \<inter> consumers e u)
      = card (run_nodes e loss pops \<inter> consumers e u) + (if u \<in> set (grad_keys (nodes e ! n)) then 1 else 0)" for u
  proof (cases "n \<in> consumers e u")
    case True
    then have "insert n (run_nodes e loss pops) \<inter> consumers e u = insert n (run_nodes e loss pops \<inter> consumers e u)"
      by blast
    with True n show ?thesis
      by (simp add: finite_run_nodes card_insert_if) (simp add: consumers_def)
  next
    case False
    then have "insert n (run_nodes e loss pops) \<inter> consumers e u = run_nodes e loss pops \<inter> consumers e u"
      by blast
    with False n show ?thesis by (simp add: consumers_def)
  qed
  then show ?thesis
    by (intro stack_inv_pop [OF inv]) (simp only: run stack)
qed

lemma value_inv_run:
  fixes e :: "('p, 's, 'a::comm_monoid_add) engine"
  assumes inv: "value_inv e loss seed sh sz hp0 D hp acc" and D: "finite D" "n \<notin> D"
    and n: "n < length (nodes e)" "acc (out_at e n) = Some g" and der: "derives_ok e sh sz"
    and settled: "\<And>m. m \<in> insert n D \<Longrightarrow> out_at e m \<notin> set (grad_keys (nodes e ! n))"
    and d: "deliver e (sent e n g) {} (hp, acc, rest) = (hp', acc', stack')"
  shows "value_inv e loss seed sh sz hp0 (insert n D) hp' acc' \<and>
    (\<forall>u. count_list stack' u = count_list rest u + (if u \<in> set (grad_keys (nodes e ! n)) then 1 else 0))"
proof -
  have sh: "shaped sh sz acc" and pok: "params_ok e sh sz hp"
    and dom: "\<And>u. acc u = None \<longleftrightarrow> u \<noteq> loss \<and> D \<inter> consumers e u = {}"
    and val: "\<And>u i. i < sz u \<Longrightarrow> element acc u i =
        (if u = loss then g_elems seed ! i else 0) + inflow e D (\<lambda>u. the (acc u)) u i"
    and par: "raised e sh sz hp0 hp (inflow e D (\<lambda>u. the (acc u)))"
    using inv by (simp_all add: value_inv_def)
  from sh n(2) have g: "g_shape g = sh (out_at e n) \<and> length (g_elems g) = sz (out_at e n)"
    by (simp add: shaped_def)
  with der n(1) have len: "length (node_backward (nodes e ! n) g) = length (inputs (nodes e ! n))"
    and ok: "delivery_ok sh sz (sent e n g)" by (simp_all add: derives_ok_def)
  note keys = sent_keys [OF len]
  note acc' = deliver_accum [OF d sh ok, unfolded keys]
  note acc_el = acc' [THEN conjunct2, THEN conjunct1, rule_format]
  note acc_none = acc' [THEN conjunct2, THEN conjunct2, THEN conjunct1, rule_format]
  have same: "acc' (out_at e m) = acc (out_at e m)" if "m \<in> insert n D" for m
    using acc' settled [OF that] by blast
  have grow: "inflow e (insert n D) (\<lambda>u. the (acc' u)) u i =
      inflow e D (\<lambda>u. the (acc u)) u i + flow (sent e n g) u i" for u i
  proof -
    have "inflow e (insert n D) (\<lambda>u. the (acc' u)) u i = flow (sent e n (the (acc' (out_at e n)))) u i +
        (\<Sum>m \<in> D. flow (sent e m (the (acc' (out_at e m)))) u i)"
      unfolding inflow_def by (rule sum.insert [OF D])
    also have "(\<Sum>m \<in> D. flow (sent e m (the (acc' (out_at e m)))) u i) = inflow e D (\<lambda>u. the (acc u)) u i"
      unfolding inflow_def by (rule sum.cong) (simp_all add: same)
    finally show ?thesis by (simp add: same n(2) add.commute)
  qed
  have cons: "n \<in> consumers e u \<longleftrightarrow> u \<in> set (grad_keys (nodes e ! n))" for u
    using n(1) by (simp add: consumers_def)
  have "acc' u = None \<longleftrightarrow> u \<noteq> loss \<and> insert n D \<inter> consumers e u = {}" for u
    by (simp only: acc_none dom Int_insert_left cons) (simp split: if_split)
  moreover have "element acc' u i = (if u = loss then g_elems seed ! i else 0) +
      inflow e (insert n D) (\<lambda>u. the (acc' u)) u i" if "i < sz u" for u i
    by (simp only: acc_el [OF that] val [OF that] grow add.assoc)
  moreover have "raised e sh sz hp0 hp' (inflow e (insert n D) (\<lambda>u. the (acc' u)))"
    using raised_trans [OF par deliver_raised [OF d pok ok]] by (rule raised_cong) (simp add: grow)
  moreover have "params_ok e sh sz hp'"
    by (rule raised_params_ok [OF pok deliver_raised [OF d pok ok]])
  ultimately have "value_inv e loss seed sh sz hp0 (insert n D) hp' acc'"
    unfolding value_inv_def using acc' [THEN conjunct1] by blast
  moreover have "count_list stack' u = count_list rest u + (if u \<in> set (grad_keys (nodes e ! n)) then 1 else 0)" for u
    using deliver_stack [OF d, of u] by (simp add: keys)
  ultimately show ?thesis by blast
qed

lemma backward_loop_spec:
  fixes e :: "('p, 's, 'a::comm_monoid_add) engine"
  assumes "tape_ok e" "derives_ok e sh sz"
    and "stack_inv e loss pops pending stack" "value_inv e loss seed sh sz hp0 (run_nodes e loss pops) hp acc"
  shows "\<exists>hp' acc' pops' pending'. backward_loop e pending hp acc stack = Some hp' \<and>
    stack_inv e loss pops' pending' [] \<and> value_inv e loss seed sh sz hp0 (run_nodes e loss pops') hp' acc'"
  using assms(3,4)
proof (induction "(length (nodes e) - card (run_nodes e loss pops), length stack)"
    arbitrary: pops pending stack hp acc rule: wf_induct_rule [OF wf_lex_prod [OF wf_less wf_less], case_names less])
  case less
  note inv = less.prems
  show ?case
  proof (cases stack)
    case Nil
    then have "backward_loop e pending hp acc stack = Some hp"
      by (simp add: backward_loop.simps)
    with inv Nil show ?thesis by blast
  next
    case (Cons t rest)
    note st = inv(1) [unfolded Cons]
    define pops1 where "pops1 = pops(t := pops t + 1)"
    define pending1 where "pending1 = pending(t \<mapsto> int (wanted e loss t) - int (pops t) - 1)"
    have lt: "pops t < wanted e loss t" using pops_bound [OF st, of t] by simp
    then have pt: "pending t = Some (int (wanted e loss t) - int (pops t))"
      using stack_inv_pending [OF st, of t] by simp
    note pop = run_nodes_pop [OF assms(1), of pops t loss, OF lt, folded pops1_def]
    have drop: ?thesis
      if same: "run_nodes e loss pops1 = run_nodes e loss pops"
        and step: "backward_loop e pending hp acc stack = backward_loop e pending1 hp acc rest"
    proof -
      have "stack_inv e loss pops1 pending1 rest"
        unfolding pops1_def pending1_def by (rule stack_inv_drop [OF st]) (simp only: same [unfolded pops1_def])
      moreover have "((length (nodes e) - card (run_nodes e loss pops1), length rest),
          length (nodes e) - card (run_nodes e loss pops), length stack) \<in> {(x, y). x < y} <*lex*> {(x, y). x < y}"
        by (simp add: same Cons)
      ultimately show ?thesis
        unfolding step using inv(2) less.hyps [of pops1 rest pending1 hp acc] by (simp only: same)
    qed
    show ?thesis
    proof (cases "pops t + 1 = wanted e loss t")
      case False
      with lt have "0 < int (wanted e loss t) - int (pops t) - 1" by linarith
      then have "backward_loop e pending hp acc stack = backward_loop e pending1 hp acc rest"
        by (subst backward_loop.simps) (simp add: Cons pt pending1_def Let_def)
      then show ?thesis
        using False by (intro drop) (simp add: pop split: option.split)
    next
      case True
      then have zero: "\<not> 0 < int (wanted e loss t) - int (pops t) - 1" by simp
      show ?thesis
      proof (cases "output_to_node e t")
        case None
        have "backward_loop e pending hp acc stack = backward_loop e pending1 hp acc rest"
          using zero by (subst backward_loop.simps) (simp add: Cons pt pending1_def None Let_def)
        then show ?thesis by (intro drop) (simp_all add: pop None)
      next
        case (Some n)
        have n: "n < length (nodes e)" "out_at e n = t" using tape_ok_node [OF assms(1) Some] by blast+
        have fresh: "n \<notin> run_nodes e loss pops" by (rule run_nodes_fresh [OF assms(1) Some, where pops = pops, OF lt])
        have run: "run_nodes e loss pops1 = insert n (run_nodes e loss pops)"
          using True by (simp add: pop Some)
        have "t = loss \<or> run_nodes e loss pops \<inter> consumers e t \<noteq> {}"
          using stack_inv_sums [OF st, of t] by (cases "t = loss") (auto simp: card_gt_0_iff)
        then obtain g where g: "acc t = Some g"
          using inv(2) by (cases "acc t") (auto simp: value_inv_def)
        obtain hp1 acc1 stack1 where d: "deliver e (sent e n g) {} (hp, acc, rest) = (hp1, acc1, stack1)"
          by (metis surj_pair)
        have settled: "out_at e m \<notin> set (grad_keys (nodes e ! n))" if "m \<in> insert n (run_nodes e loss pops)" for m
        proof (cases "m = n")
          case True
          then show ?thesis using tape_ok_order [OF assms(1) n(1) n(1)] by blast
        next
          case False
          with that have "m \<in> run_nodes e loss pops" by simp
          then have "pops (out_at e m) = wanted e loss (out_at e m)" by (simp add: run_nodes_def)
          from run_consumers [OF st this] fresh n(1) show ?thesis by (auto simp: consumers_def)
        qed
        from value_inv_run [OF inv(2) finite_run_nodes fresh n(1) g [folded n(2)] assms(2) settled d]
        have val: "value_inv e loss seed sh sz hp0 (run_nodes e loss pops1) hp1 acc1"
          and cnt: "\<And>u. count_list stack1 u = count_list rest u + (if u \<in> set (grad_keys (nodes e ! n)) then 1 else 0)"
          by (simp_all add: run)
        have st1: "stack_inv e loss pops1 pending1 stack1"
          unfolding pops1_def pending1_def by (rule stack_inv_run [OF st run [unfolded pops1_def] fresh n(1) cnt])
        have step: "backward_loop e pending hp acc stack = backward_loop e pending1 hp1 acc1 stack1"
          using zero d by (subst backward_loop.simps) (simp add: Cons pt pending1_def Some g Let_def sent_def)
        have "card (run_nodes e loss pops1) = Suc (card (run_nodes e loss pops))"
          using fresh by (simp add: run finite_run_nodes)
        moreover have "card (run_nodes e loss pops1) \<le> length (nodes e)"
          using card_mono [of "{..<length (nodes e)}" "run_nodes e loss pops1"] by (auto simp: run_nodes_def)
        ultimately have "length (nodes e) - card (run_nodes e loss pops1) < length (nodes e) - card (run_nodes e loss pops)"
          by simp
        then have "((length (nodes e) - card (run_nodes e loss pops1), length stack1),
          length (nodes e) - card (run_nodes e loss pops), length stack) \<in> {(x, y). x < y} <*lex*> {(x, y). x < y}"
          by simp
        from less.hyps [OF this st1 val] show ?thesis unfolding step .
      qed
    qed
  qed
qed

section \<open>Adjoints\<close>

text \<open>The chain rule over the whole graph: the adjoint of a tensor is the seed, for the loss, plus what
  the adjoints of the results of all its users give.\<close>

definition adjoints :: "('p, 's, 'a::comm_monoid_add) engine \<Rightarrow> address \<Rightarrow> 'a gradient \<Rightarrow> (address \<Rightarrow> int list)
    \<Rightarrow> (address \<Rightarrow> nat) \<Rightarrow> (address \<Rightarrow> 'a gradient) \<Rightarrow> bool" where
  "adjoints e loss seed sh sz adj =
    (\<forall>t. g_shape (adj t) = sh t \<and> length (g_elems (adj t)) = sz t \<and>
      (\<forall>i < sz t. g_elems (adj t) ! i =
        (if t = loss then g_elems seed ! i else 0) + inflow e {..<length (nodes e)} adj t i))"

lemma inflow_users:
  assumes "derives_ok e sh sz" "D \<subseteq> {..<length (nodes e)}"
    and "\<And>n. n \<in> D \<Longrightarrow> g_shape (adj (out_at e n)) = sh (out_at e n) \<and> length (g_elems (adj (out_at e n))) = sz (out_at e n)"
  shows "inflow e D adj t i = (\<Sum>n \<in> D \<inter> consumers e t. flow (sent e n (adj (out_at e n))) t i)"
  unfolding inflow_def
proof (rule sum.mono_neutral_right)
  show "finite D" using assms(2) finite_subset by blast
  show "\<forall>n \<in> D - D \<inter> consumers e t. flow (sent e n (adj (out_at e n))) t i = 0"
  proof
    fix n assume n: "n \<in> D - D \<inter> consumers e t"
    then have lt: "n < length (nodes e)" using assms(2) by blast
    have "length (node_backward (nodes e ! n) (adj (out_at e n))) = length (inputs (nodes e ! n))"
      using assms(1) assms(3) [of n] n lt by (simp add: derives_ok_def)
    from sent_keys [OF this] n lt show "flow (sent e n (adj (out_at e n))) t i = 0"
      by (intro flow_outside) (simp add: consumers_def)
  qed
qed simp

text \<open>They are determined by the graph and the seed.\<close>

lemma adjoints_unique:
  fixes e :: "('p, 's, 'a::comm_monoid_add) engine"
  assumes tape: "tape_ok e" and der: "derives_ok e sh sz"
    and a: "adjoints e loss seed sh sz adj" and b: "adjoints e loss seed sh sz adj'"
  shows "adj t = adj' t"
proof -
  have eq: "adj t = adj' t" if "\<And>n. n \<in> consumers e t \<Longrightarrow> adj (out_at e n) = adj' (out_at e n)" for t
  proof -
    have "inflow e {..<length (nodes e)} adj t i = inflow e {..<length (nodes e)} adj' t i" for i
      using that a b by (subst (1 2) inflow_users [OF der]) (auto simp: adjoints_def intro!: sum.cong)
    with a b have "g_elems (adj t) = g_elems (adj' t)"
      by (intro nth_equalityI) (simp_all add: adjoints_def)
    moreover have "g_shape (adj t) = g_shape (adj' t)" using a b by (simp add: adjoints_def)
    ultimately show ?thesis by simp
  qed
  have "adj (out_at e n) = adj' (out_at e n)" if "n < length (nodes e)" for n
    using that
  proof (induction "length (nodes e) - n" arbitrary: n rule: less_induct)
    case less
    show ?case
    proof (rule eq)
      fix m assume "m \<in> consumers e (out_at e n)"
      then have m: "m < length (nodes e)" "out_at e n \<in> set (grad_keys (nodes e ! m))"
        by (simp_all add: consumers_def)
      from tape_ok_order [OF tape m(1) less.prems m(2)] have "n < m" .
      with less.hyps [of m] m(1) less.prems show "adj (out_at e m) = adj' (out_at e m)" by simp
    qed
  qed
  then show ?thesis by (rule eq) (simp add: consumers_def)
qed

text \<open>Every recorded result is the loss or used again.\<close>

definition all_used :: "('p, 's, 'a) engine \<Rightarrow> address \<Rightarrow> bool" where
  "all_used e loss = (\<forall>n < length (nodes e). out_at e n = loss \<or> consumers e (out_at e n) \<noteq> {})"

lemma all_nodes_run:
  assumes "tape_ok e" "all_used e loss" "stack_inv e loss pops pending []"
  shows "run_nodes e loss pops = {..<length (nodes e)}"
proof -
  have "n \<in> run_nodes e loss pops" if "n < length (nodes e)" for n
    using that
  proof (induction "length (nodes e) - n" arbitrary: n rule: less_induct)
    case less
    have "consumers e (out_at e n) \<subseteq> run_nodes e loss pops"
    proof
      fix m assume "m \<in> consumers e (out_at e n)"
      then have m: "m < length (nodes e)" "out_at e n \<in> set (grad_keys (nodes e ! m))"
        by (simp_all add: consumers_def)
      from tape_ok_order [OF assms(1) m(1) less.prems m(2)] have "n < m" .
      with less.hyps [of m] m(1) less.prems show "m \<in> run_nodes e loss pops" by simp
    qed
    then have "run_nodes e loss pops \<inter> consumers e (out_at e n) = consumers e (out_at e n)" by blast
    then have "pops (out_at e n) = wanted e loss (out_at e n)"
      using stack_inv_sums [OF assms(3), of "out_at e n"] by (simp add: wanted_def)
    moreover have "0 < wanted e loss (out_at e n)"
      using assms(2) less.prems by (auto simp: all_used_def wanted_def card_gt_0_iff finite_consumers)
    ultimately show ?case using less.prems by (simp add: run_nodes_def)
  qed
  then show ?thesis by (auto simp: run_nodes_def)
qed

definition seed_ok :: "(address \<Rightarrow> int list) \<Rightarrow> (address \<Rightarrow> nat) \<Rightarrow> operand \<Rightarrow> 'a gradient option \<Rightarrow> bool" where
  "seed_ok sh sz loss g = (o_shape loss = sh (o_data loss) \<and> o_numel loss = sz (o_data loss) \<and>
    (case g of None \<Rightarrow> True
     | Some g \<Rightarrow> g_elems g = [] \<or> g_shape g = sh (o_data loss) \<and> length (g_elems g) = sz (o_data loss)))"

lemma backward_spec:
  fixes e :: "('p, 's, 'a::{comm_monoid_add,one}) engine"
  assumes "tape_ok e" "derives_ok e sh sz" "params_ok e sh sz (heap e)" "seed_ok sh sz loss g"
  shows "\<exists>hp acc pops pending. backward loss g e = Some (e\<lparr>heap := hp\<rparr>) \<and>
    stack_inv e (o_data loss) pops pending [] \<and>
    value_inv e (o_data loss) (loss_seed loss g) sh sz (heap e) (run_nodes e (o_data loss) pops) hp acc"
proof -
  let ?l = "o_data loss"
  have none: "run_nodes e ?l (\<lambda>_. 0) = {}" by (auto simp: run_nodes_def)
  have "stack_inv e ?l (\<lambda>_. 0) (consumer_count (nodes e) ?l) [?l]"
    by (simp add: stack_inv_def none consumer_count_map count_map_def)
  moreover have "g_shape (loss_seed loss g) = sh ?l \<and> length (g_elems (loss_seed loss g)) = sz ?l"
    using assms(4) by (auto simp: seed_ok_def loss_seed_def split: option.splits)
  then have "value_inv e ?l (loss_seed loss g) sh sz (heap e) (run_nodes e ?l (\<lambda>_. 0)) (heap e)
      (Map.empty(?l \<mapsto> loss_seed loss g))"
    using assms(3) by (simp add: value_inv_def none shaped_def element_def inflow_def raised_def params_ok_def)
  ultimately obtain hp acc pops pending where
    "backward_loop e (consumer_count (nodes e) ?l) (heap e) (Map.empty(?l \<mapsto> loss_seed loss g)) [?l] = Some hp"
    "stack_inv e ?l pops pending []"
    "value_inv e ?l (loss_seed loss g) sh sz (heap e) (run_nodes e ?l pops) hp acc"
    using backward_loop_spec [OF assms(1,2)] by metis
  then show ?thesis unfolding backward_def by (metis option.simps(9))
qed

text \<open>
  C7: On a tape in order, on which every result is the loss or is used again, and with operations that
  derive gradients of the shapes of their inputs, \<open>backward\<close> returns, and the gradient of every
  registered parameter has grown by its adjoint; nothing else in the engine changes.
\<close>

theorem backward_adds_adjoints:
  fixes e :: "('p, 's, 'a::{comm_monoid_add,one}) engine"
  assumes tape: "tape_ok e" and der: "derives_ok e sh sz" and par: "params_ok e sh sz (heap e)"
    and seed: "seed_ok sh sz loss g" and used: "all_used e (o_data loss)"
  shows "\<exists>hp adj. backward loss g e = Some (e\<lparr>heap := hp\<rparr>) \<and>
    adjoints e (o_data loss) (loss_seed loss g) sh sz adj \<and>
    (\<forall>p i. registered e p \<and> p_data (heap e p) \<noteq> o_data loss \<and> i < sz (p_data (heap e p)) \<longrightarrow>
      grad_at (hp p) i = grad_at (heap e p) i + g_elems (adj (p_data (heap e p))) ! i) \<and>
    (\<forall>p. \<not> registered e p \<longrightarrow> hp p = heap e p)"
proof -
  let ?l = "o_data loss"
  obtain hp acc pops pending where b: "backward loss g e = Some (e\<lparr>heap := hp\<rparr>)"
    and st: "stack_inv e ?l pops pending []"
    and inv: "value_inv e ?l (loss_seed loss g) sh sz (heap e) (run_nodes e ?l pops) hp acc"
    using backward_spec [OF tape der par seed] by blast
  note inv = inv [unfolded all_nodes_run [OF tape used st] value_inv_def]
  define adj where "adj t = (case acc t of Some h \<Rightarrow> h
    | None \<Rightarrow> \<lparr>g_shape = sh t, g_elems = replicate (sz t) 0\<rparr>)" for t
  have "acc (out_at e n) \<noteq> None" if "n < length (nodes e)" for n
    using inv used that by (auto simp: all_used_def consumers_def)
  then have some: "\<exists>h. acc (out_at e n) = Some h" if "n < length (nodes e)" for n
    using that by blast
  have "the (acc (out_at e n)) = adj (out_at e n)" if "n < length (nodes e)" for n
    using some [OF that] by (auto simp: adj_def)
  then have same: "inflow e {..<length (nodes e)} (\<lambda>t. the (acc t)) = inflow e {..<length (nodes e)} adj"
    unfolding inflow_def by (intro ext sum.cong) simp_all
  have el: "g_elems (adj t) ! i = element acc t i" if "i < sz t" for t i
    using that by (simp add: adj_def element_def split: option.split)
  have "adjoints e ?l (loss_seed loss g) sh sz adj"
    unfolding adjoints_def using inv
    by (simp add: el same) (simp add: adj_def shaped_def split: option.split)
  moreover have "grad_at (hp p) i = grad_at (heap e p) i + g_elems (adj (p_data (heap e p))) ! i"
    if "registered e p" "p_data (heap e p) \<noteq> ?l" "i < sz (p_data (heap e p))" for p i
    using inv that by (simp add: el same raised_def registered_def)
  moreover have "hp p = heap e p" if "\<not> registered e p" for p
    using inv that by (simp add: raised_def registered_def)
  ultimately show ?thesis using b by blast
qed

text \<open>A small graph of scalars: \<open>y = w + w\<close> and \<open>loss = 3 y\<close>, with \<open>y\<close> used once more when \<open>logged\<close> is set.\<close>

definition scalar :: "address \<Rightarrow> operand" where
  "scalar a = \<lparr>o_data = a, o_shape = [1], o_numel = 1, o_requires_grad = True\<rparr>"

definition scaled :: "int \<Rightarrow> int gradient \<Rightarrow> int gradient" where
  "scaled c g = \<lparr>g_shape = g_shape g, g_elems = map ((*) c) (g_elems g)\<rparr>"

definition doubled_graph :: "(unit, unit, int) engine" where
  "doubled_graph = record_op [] (\<lambda>_ g. [g, g]) [scalar 1, scalar 1] 2
    (register_parameter () \<lparr>nodes = [], output_to_node = Map.empty, param_map = Map.empty,
       next_is_checkpoint = False, enabled = True, heap = (\<lambda>_. \<lparr>p_data = 1, p_shape = [1], p_grad = None\<rparr>)\<rparr>)"

definition loss_graph :: "(unit, unit, int) engine" where
  "loss_graph = record_op [] (\<lambda>_ g. [scaled 3 g]) [scalar 2] 3 doubled_graph"

definition logged_graph :: "(unit, unit, int) engine" where
  "logged_graph = record_op [] (\<lambda>_ g. [g]) [scalar 2] 4 loss_graph"

lemma doubled_graph_fields:
  "nodes doubled_graph = [\<lparr>refill = [], derive = \<lambda>_ g. [g, g], saved = [], inputs = [scalar 1, scalar 1],
      outputs = [2], checkpoint = False\<rparr>]"
  "output_to_node doubled_graph = [2 \<mapsto> 0]" "param_map doubled_graph = [1 \<mapsto> ()]" "enabled doubled_graph"
  "\<not> next_is_checkpoint doubled_graph" "heap doubled_graph = (\<lambda>_. \<lparr>p_data = 1, p_shape = [1], p_grad = None\<rparr>)"
  by (simp_all add: doubled_graph_def record_op_def register_node_def register_parameter_def Let_def)

lemma loss_graph_fields:
  "nodes loss_graph = nodes doubled_graph @ [\<lparr>refill = [], derive = \<lambda>_ g. [scaled 3 g], saved = [],
      inputs = [scalar 2], outputs = [3], checkpoint = False\<rparr>]"
  "output_to_node loss_graph = [2 \<mapsto> 0, 3 \<mapsto> 1]" "param_map loss_graph = [1 \<mapsto> ()]" "enabled loss_graph"
  "\<not> next_is_checkpoint loss_graph" "heap loss_graph = (\<lambda>_. \<lparr>p_data = 1, p_shape = [1], p_grad = None\<rparr>)"
  by (simp_all add: loss_graph_def record_op_def register_node_def Let_def doubled_graph_fields)

lemma logged_graph_fields:
  "nodes logged_graph = nodes loss_graph @ [\<lparr>refill = [], derive = \<lambda>_ g. [g], saved = [],
      inputs = [scalar 2], outputs = [4], checkpoint = False\<rparr>]"
  "param_map logged_graph = [1 \<mapsto> ()]" "heap logged_graph = (\<lambda>_. \<lparr>p_data = 1, p_shape = [1], p_grad = None\<rparr>)"
  by (simp_all add: logged_graph_def record_op_def register_node_def Let_def loss_graph_fields)

lemmas graph_fields = doubled_graph_fields loss_graph_fields logged_graph_fields

lemma graph_keys:
  "grad_keys (nodes logged_graph ! 0) = [1, 1]" "grad_keys (nodes logged_graph ! 1) = [2]"
  "grad_keys (nodes logged_graph ! 2) = [2]" "grad_keys (nodes loss_graph ! 1) = [2]"
  by (simp_all add: graph_fields grad_keys_def scalar_def)

lemma logged_graph_consumers:
  "consumers logged_graph t = (if t = 1 then {0} else if t = 2 then {1, 2} else {})"
proof -
  have i: "n < length (nodes logged_graph) \<longleftrightarrow> n = 0 \<or> n = 1 \<or> n = 2" for n
    by (simp add: graph_fields) presburger
  have "n \<in> consumers logged_graph t \<longleftrightarrow> n \<in> (if t = 1 then {0} else if t = 2 then {1, 2} else {})" for n
  proof (cases "n = 0 \<or> n = 1 \<or> n = 2")
    case True
    then show ?thesis
      by (elim disjE) (simp_all add: consumers_def i graph_keys del: One_nat_def)
  qed (simp add: consumers_def i del: One_nat_def)
  then show ?thesis by blast
qed

lemma graphs_tape: "tape_ok doubled_graph" "tape_ok loss_graph" "tape_ok logged_graph"
proof -
  show t: "tape_ok doubled_graph"
    by (simp add: tape_ok_def graph_fields out_at_def node_out_def grad_keys_def scalar_def)
  show t: "tape_ok loss_graph"
    unfolding loss_graph_def
    by (rule record_op_tape [OF t]) (simp_all add: graph_fields grad_keys_def scalar_def)
  show "tape_ok logged_graph"
    unfolding logged_graph_def
    by (rule record_op_tape [OF t]) (auto simp: graph_fields grad_keys_def scalar_def)
qed

lemma graphs_derive: "derives_ok loss_graph (\<lambda>_. [1]) (\<lambda>_. 1)" "derives_ok logged_graph (\<lambda>_. [1]) (\<lambda>_. 1)"
  by (simp_all add: derives_ok_def sent_def graph_fields node_backward_def delivery_ok_def scaled_def
      All_less_Suc out_at_def)

lemma graphs_params:
  "params_ok loss_graph (\<lambda>_. [1]) (\<lambda>_. 1) (heap loss_graph)"
  "params_ok logged_graph (\<lambda>_. [1]) (\<lambda>_. 1) (heap logged_graph)"
  by (simp_all add: params_ok_def param_ok_def graph_fields)

lemma loss_graph_used: "all_used loss_graph 3"
proof -
  have "1 \<in> consumers loss_graph 2"
    unfolding consumers_def by (simp add: graph_keys [simplified]) (simp add: graph_fields)
  then show ?thesis
    by (auto simp: all_used_def graph_fields out_at_def node_out_def less_Suc_eq)
qed

text \<open>The gradient of the parameter is 6, as it should be.\<close>

theorem backward_adds_adjoints_witness:
  "\<exists>hp adj. backward (scalar 3) None loss_graph = Some (loss_graph\<lparr>heap := hp\<rparr>) \<and>
    adjoints loss_graph 3 (loss_seed (scalar 3) None) (\<lambda>_. [1]) (\<lambda>_. 1) adj \<and>
    grad_at (hp ()) 0 = g_elems (adj 1) ! 0"
proof -
  have "seed_ok (\<lambda>_. [1]) (\<lambda>_. 1) (scalar 3) None" by (simp add: seed_ok_def scalar_def)
  moreover have "all_used loss_graph (o_data (scalar 3))" using loss_graph_used by (simp add: scalar_def)
  ultimately obtain hp adj where b: "backward (scalar 3) None loss_graph = Some (loss_graph\<lparr>heap := hp\<rparr>)"
    and a: "adjoints loss_graph (o_data (scalar 3)) (loss_seed (scalar 3) None) (\<lambda>_. [1]) (\<lambda>_. 1) adj"
    and p: "\<And>p i. registered loss_graph p \<and> p_data (heap loss_graph p) \<noteq> o_data (scalar 3) \<and>
      i < (1::nat) \<longrightarrow> grad_at (hp p) i = grad_at (heap loss_graph p) i + g_elems (adj (p_data (heap loss_graph p))) ! i"
    using backward_adds_adjoints [OF graphs_tape(2) graphs_derive(1) graphs_params(1)] by blast
  from p [of "()" 0] have "grad_at (hp ()) 0 = g_elems (adj 1) ! 0"
    by (simp add: registered_def graph_fields scalar_def grad_at_def)
  with a b show ?thesis by (auto simp: scalar_def)
qed

section \<open>A result that is not used\<close>

text \<open>
  C28: A recorded result that does not lead to the loss holds back the gradient of its inputs: the node
  that computed them waits for a user that is never run, and parameters behind it get nothing.
\<close>

theorem unused_result_stops_gradient:
  fixes e :: "('p, 's, 'a::{comm_monoid_add,one}) engine"
  assumes tape: "tape_ok e" and der: "derives_ok e sh sz" and par: "params_ok e sh sz (heap e)"
    and seed: "seed_ok sh sz loss g"
    and m: "m < length (nodes e)" "out_at e m \<noteq> o_data loss" "consumers e (out_at e m) = {}"
    and n: "n < length (nodes e)" "out_at e n \<in> set (grad_keys (nodes e ! m))"
    and p: "registered e p" "consumers e (p_data (heap e p)) = {n}"
  shows "\<exists>hp. backward loss g e = Some (e\<lparr>heap := hp\<rparr>) \<and>
    (\<forall>i < sz (p_data (heap e p)). grad_at (hp p) i = grad_at (heap e p) i)"
proof -
  let ?l = "o_data loss" and ?a = "p_data (heap e p)"
  obtain hp acc pops pending where b: "backward loss g e = Some (e\<lparr>heap := hp\<rparr>)"
    and st: "stack_inv e ?l pops pending []"
    and inv: "value_inv e ?l (loss_seed loss g) sh sz (heap e) (run_nodes e ?l pops) hp acc"
    using backward_spec [OF tape der par seed] by blast
  let ?D = "run_nodes e ?l pops"
  have "m \<notin> ?D" using m by (simp add: run_nodes_def wanted_def)
  then have "?D \<inter> consumers e (out_at e n) \<subset> consumers e (out_at e n)"
    using m(1) n(2) by (auto simp: consumers_def)
  then have "card (?D \<inter> consumers e (out_at e n)) < card (consumers e (out_at e n))"
    by (simp add: psubset_card_mono finite_consumers)
  then have "n \<notin> ?D"
    using stack_inv_sums [OF st, of "out_at e n"] by (simp add: run_nodes_def wanted_def)
  then have none: "?D \<inter> consumers e ?a = {}" using p(2) by simp
  have "g_shape (the (acc (out_at e k))) = sh (out_at e k) \<and> length (g_elems (the (acc (out_at e k)))) = sz (out_at e k)"
    if k: "k \<in> ?D" for k
  proof -
    have "out_at e k = ?l \<or> ?D \<inter> consumers e (out_at e k) \<noteq> {}"
      using k stack_inv_sums [OF st, of "out_at e k"]
      by (cases "out_at e k = ?l") (auto simp: run_nodes_def card_gt_0_iff)
    with inv show ?thesis by (cases "acc (out_at e k)") (auto simp: value_inv_def shaped_def)
  qed
  moreover have "?D \<subseteq> {..<length (nodes e)}" by (auto simp: run_nodes_def)
  ultimately have "inflow e ?D (\<lambda>t. the (acc t)) ?a i = 0" for i
    by (subst inflow_users [OF der]) (simp_all add: none)
  with inv p(1) have "\<forall>i < sz ?a. grad_at (hp p) i = grad_at (heap e p) i"
    by (simp add: value_inv_def raised_def registered_def)
  with b show ?thesis by blast
qed

text \<open>Logging \<open>y\<close> through one more operation takes the gradient away from the parameter.\<close>

theorem unused_result_stops_gradient_witness:
  "(\<exists>hp. backward (scalar 3) None logged_graph = Some (logged_graph\<lparr>heap := hp\<rparr>) \<and> grad_at (hp ()) 0 = 0) \<and>
   map_option (\<lambda>e. p_grad (heap e ())) (backward (scalar 3) None loss_graph)
     = Some (Some \<lparr>g_shape = [1], g_elems = [6]\<rparr>)"
proof
  have "\<exists>hp. backward (scalar 3) None logged_graph = Some (logged_graph\<lparr>heap := hp\<rparr>) \<and>
    (\<forall>i < 1. grad_at (hp ()) i = grad_at (heap logged_graph ()) i)"
    using unused_result_stops_gradient [OF graphs_tape(3) graphs_derive(2) graphs_params(2),
        of "scalar 3" None 2 0 "()"]
    by (simp add: seed_ok_def registered_def scalar_def logged_graph_consumers graph_fields grad_keys_def
        out_at_def node_out_def)
  then show "\<exists>hp. backward (scalar 3) None logged_graph = Some (logged_graph\<lparr>heap := hp\<rparr>) \<and> grad_at (hp ()) 0 = 0"
    by (simp add: graph_fields grad_at_def)
  show "map_option (\<lambda>e. p_grad (heap e ())) (backward (scalar 3) None loss_graph)
     = Some (Some \<lparr>g_shape = [1], g_elems = [6]\<rparr>)"
    by code_simp
qed

end
