(* ===== verification/Expert_Prefetch.thy ===== *)
theory Expert_Prefetch
  imports Array_Ops
begin

text \<open>
  \<open>ExpertPrefetcher\<close> of src/src/model/expert_prefetch.cpp: the weights of the experts of a mixture model,
  copied on demand or ahead of time into host memory and, when a GPU is present, on to the device, with a
  list of the resident experts in the order of their use. Memory blocks are lists; an access outside a
  block, or to the front of an empty list, is undefined behaviour. What \<open>malloc\<close> and the allocator of the
  GPU answer is an argument, and so is what fresh memory holds. Sizes are below 2^63, so sums do not wrap.
  The waiting times of the statistics are not modelled.
\<close>

section \<open>Pages\<close>

type_synonym expert = "int \<times> int"

record 'b page =
  host :: "'b list option"
  device :: "'b list option"
  source_block :: "'b list option"
  segments :: "('b list option \<times> nat) list"
  size_bytes :: nat
  pinned :: bool
  on_device :: bool
  in_transfer :: bool

text \<open>What the environment answers: host allocation, device allocation, content of fresh memory.\<close>

record 'b answers =
  malloc_ok :: bool
  gpu_ok :: bool
  raw :: 'b

definition fresh_page :: "nat \<Rightarrow> 'b page" where
  "fresh_page n = \<lparr>host = None, device = None, source_block = None, segments = [], size_bytes = n,
     pinned = False, on_device = False, in_transfer = False\<rparr>"

fun copy_segments :: "nat \<Rightarrow> ('b list option \<times> nat) list \<Rightarrow> 'b list \<Rightarrow> nat \<Rightarrow> ('b list \<times> nat) option" where
  "copy_segments room [] h offset = Some (h, offset)"
| "copy_segments room ((ptr, bytes) # segs) h offset =
    (case ptr of
       Some block \<Rightarrow>
         if 0 < bytes \<and> offset + bytes \<le> room then
           (case memcpy h offset block 0 bytes of
              None \<Rightarrow> None
            | Some h' \<Rightarrow> copy_segments room segs h' (offset + bytes))
         else copy_segments room segs h offset
     | None \<Rightarrow> copy_segments room segs h offset)"

definition load_from_disk :: "'b::zero answers \<Rightarrow> 'b page \<Rightarrow> 'b page option" where
  "load_from_disk env p =
    (let block = (case host p of Some h \<Rightarrow> Some h
                  | None \<Rightarrow> if malloc_ok env then Some (replicate (size_bytes p) (raw env)) else None) in
     case block of
       None \<Rightarrow> Some p
     | Some h \<Rightarrow>
         map_option (\<lambda>h'. p\<lparr>host := Some h'\<rparr>)
          (if segments p \<noteq> [] then
             (case copy_segments (size_bytes p) (segments p) h 0 of
                None \<Rightarrow> None
              | Some (h', offset) \<Rightarrow>
                  if offset < size_bytes p then memset h' offset 0 (size_bytes p - offset) else Some h')
           else (case source_block p of
                   Some s \<Rightarrow> memcpy h 0 s 0 (size_bytes p)
                 | None \<Rightarrow> memset h 0 0 (size_bytes p))))"

definition pin :: "'b page \<Rightarrow> 'b page" where
  "pin p = (if \<not> pinned p \<and> host p \<noteq> None then p\<lparr>pinned := True\<rparr> else p)"

definition upload_to_device :: "bool \<Rightarrow> 'b answers \<Rightarrow> 'b page \<Rightarrow> 'b page option" where
  "upload_to_device gpu env p =
    (case host p of
       None \<Rightarrow> Some p
     | Some h \<Rightarrow>
         if \<not> gpu then Some p
         else (case (case device p of Some d \<Rightarrow> Some d
                     | None \<Rightarrow> if gpu_ok env then Some (replicate (size_bytes p) (raw env)) else None) of
                 None \<Rightarrow> Some p
               | Some d \<Rightarrow> map_option (\<lambda>d'. p\<lparr>device := Some d'\<rparr>) (memcpy d 0 h 0 (size_bytes p))))"

text \<open>Both the caller that misses and the worker load, pin and upload.\<close>

definition fetch_page :: "bool \<Rightarrow> 'b::zero answers \<Rightarrow> 'b page \<Rightarrow> 'b page option" where
  "fetch_page gpu env p =
    (case load_from_disk env p of None \<Rightarrow> None | Some p' \<Rightarrow> upload_to_device gpu env (pin p'))"

definition evict_page :: "bool \<Rightarrow> 'b page \<Rightarrow> 'b page" where
  "evict_page gpu p =
    (let p' = (if pinned p \<and> host p \<noteq> None then p\<lparr>pinned := False\<rparr> else p);
         p'' = (if device p' \<noteq> None \<and> gpu then p'\<lparr>device := None\<rparr> else p')
     in p''\<lparr>on_device := False\<rparr>)"

section \<open>The prefetcher\<close>

record 'b prefetcher =
  num_layers :: int
  num_experts :: int
  max_resident :: int
  gpu :: bool
  pages :: "expert \<Rightarrow> 'b page"
  lru :: "expert list"
  queue :: "expert list"
  stopping :: bool
  hits :: nat
  misses :: nat
  evictions :: nat

definition new_prefetcher :: "int \<Rightarrow> int \<Rightarrow> nat \<Rightarrow> int \<Rightarrow> bool \<Rightarrow> 'b prefetcher" where
  "new_prefetcher experts layers expert_size resident g =
    \<lparr>num_layers = layers, num_experts = experts, max_resident = resident, gpu = g,
     pages = (\<lambda>_. fresh_page expert_size), lru = [], queue = [], stopping = False, hits = 0, misses = 0, evictions = 0\<rparr>"

definition in_range :: "'b prefetcher \<Rightarrow> expert \<Rightarrow> bool" where
  "in_range pf x = (0 \<le> fst x \<and> fst x < num_layers pf \<and> 0 \<le> snd x \<and> snd x < num_experts pf)"

definition set_page :: "expert \<Rightarrow> 'b page \<Rightarrow> 'b prefetcher \<Rightarrow> 'b prefetcher" where
  "set_page x p pf = pf\<lparr>pages := (pages pf)(x := p)\<rparr>"

definition set_expert_source :: "expert \<Rightarrow> 'b list option \<Rightarrow> 'b prefetcher \<Rightarrow> 'b prefetcher" where
  "set_expert_source x s pf =
    (if in_range pf x then set_page x ((pages pf x)\<lparr>source_block := s, segments := []\<rparr>) pf else pf)"

definition set_expert_segments :: "expert \<Rightarrow> ('b list option \<times> nat) list \<Rightarrow> 'b prefetcher \<Rightarrow> 'b prefetcher" where
  "set_expert_segments x segs pf =
    (if in_range pf x then
       (let p = (pages pf x)\<lparr>segments := segs, source_block := None\<rparr>; total = sum_list (map snd segs)
        in set_page x (if 0 < total then p\<lparr>size_bytes := total\<rparr> else p) pf)
     else pf)"

definition schedule_prefetch :: "int \<Rightarrow> int list \<Rightarrow> 'b prefetcher \<Rightarrow> 'b prefetcher" where
  "schedule_prefetch l es pf =
    (if l < 0 \<or> num_layers pf \<le> l then pf
     else pf\<lparr>queue := queue pf @ map (Pair l)
       (filter (\<lambda>e. 0 \<le> e \<and> e < num_experts pf \<and> \<not> on_device (pages pf (l, e)) \<and> \<not> in_transfer (pages pf (l, e))) es)\<rparr>)"

fun evict_loop :: "bool \<Rightarrow> int \<Rightarrow> expert list \<Rightarrow> (expert \<Rightarrow> 'b page) \<Rightarrow> nat
    \<Rightarrow> (expert list \<times> (expert \<Rightarrow> 'b page) \<times> nat) option" where
  "evict_loop g most [] pg n = (if most \<le> 0 then None else Some ([], pg, n))"
| "evict_loop g most (x # rest) pg n =
    (if most \<le> int (length (x # rest)) then evict_loop g most rest (pg(x := evict_page g (pg x))) (n + 1)
     else Some (x # rest, pg, n))"

definition evict_lru :: "'b prefetcher \<Rightarrow> 'b prefetcher option" where
  "evict_lru pf =
    map_option (\<lambda>(l, pg, n). pf\<lparr>lru := l, pages := pg, evictions := n\<rparr>)
      (evict_loop (gpu pf) (max_resident pf) (lru pf) (pages pf) (evictions pf))"

definition move_to_back :: "expert \<Rightarrow> expert list \<Rightarrow> expert list" where
  "move_to_back x l = (if x \<in> set l then remove1 x l @ [x] else l)"

text \<open>What \<open>get_expert_weights\<close> returns: the memory behind the pointer (\<open>None\<close> for the null pointer) and
  whether it is device memory.\<close>

definition weights_of :: "'b prefetcher \<Rightarrow> expert \<Rightarrow> 'b list option \<times> bool" where
  "weights_of pf x =
    (if gpu pf \<and> device (pages pf x) \<noteq> None then (device (pages pf x), True) else (host (pages pf x), False))"

text \<open>\<open>get_expert_weights\<close> from the second lock on; \<open>waited\<close> is whether it saw the transfer flag set.\<close>

definition get_locked :: "'b::zero answers \<Rightarrow> expert \<Rightarrow> bool \<Rightarrow> 'b prefetcher \<Rightarrow> 'b prefetcher option" where
  "get_locked env x waited pf =
    (if \<not> on_device (pages pf x) then
       (case fetch_page (gpu pf) env (pages pf x) of
          None \<Rightarrow> None
        | Some p \<Rightarrow>
            map_option (\<lambda>pf. pf\<lparr>lru := lru pf @ [x]\<rparr>)
              (evict_lru (set_page x (p\<lparr>on_device := True\<rparr>) (pf\<lparr>misses := misses pf + 1\<rparr>))))
     else Some ((if waited then pf\<lparr>misses := misses pf + 1\<rparr> else pf\<lparr>hits := hits pf + 1\<rparr>)
            \<lparr>lru := move_to_back x (lru pf)\<rparr>))"

text \<open>The end of a transfer of the worker, under the lock.\<close>

definition publish :: "expert \<Rightarrow> 'b prefetcher \<Rightarrow> 'b prefetcher option" where
  "publish x pf =
    (let pf' = set_page x ((pages pf x)\<lparr>on_device := True, in_transfer := False\<rparr>) pf in
     if x \<in> set (lru pf) then Some (pf'\<lparr>lru := move_to_back x (lru pf)\<rparr>)
     else map_option (\<lambda>pf. pf\<lparr>lru := lru pf @ [x]\<rparr>) (evict_lru pf'))"

section \<open>Threads\<close>

text \<open>The worker waits, has taken a request, has fetched its page, or has ended. A caller is outside, waits
  for a transfer to end, or is about to take the lock. Each critical section is one step.\<close>

datatype worker = Idle | Taken expert | Fetched expert | Ended

datatype caller = Outside | Spinning expert bool | Entering expert bool

record 'b world =
  pf :: "'b prefetcher"
  worker :: worker
  callers :: "nat \<Rightarrow> caller"
  returned :: "(expert \<times> 'b list option \<times> bool) list"

datatype 'b event =
    Set_Source expert "'b list option"
  | Set_Segments expert "('b list option \<times> nat) list"
  | Schedule int "int list"
  | Call nat expert
  | Spin nat
  | Enter nat "'b answers"
  | Take
  | Fetch "'b answers"
  | Publish
  | Stop

datatype 'b outcome = Disabled | Undefined | Race | Next "'b world"

definition defined :: "('a \<Rightarrow> 'b world) \<Rightarrow> 'a option \<Rightarrow> 'b outcome" where
  "defined f r = (case r of None \<Rightarrow> Undefined | Some a \<Rightarrow> Next (f a))"

fun perform :: "'b::zero event \<Rightarrow> 'b world \<Rightarrow> 'b outcome" where
  "perform (Set_Source x s) w = Next (w\<lparr>pf := set_expert_source x s (pf w)\<rparr>)"
| "perform (Set_Segments x segs) w = Next (w\<lparr>pf := set_expert_segments x segs (pf w)\<rparr>)"
| "perform (Schedule l es) w = Next (w\<lparr>pf := schedule_prefetch l es (pf w)\<rparr>)"
| "perform (Call t x) w =
    (if callers w t \<noteq> Outside then Disabled
     else if \<not> in_range (pf w) x then Next (w\<lparr>returned := (x, None, False) # returned w\<rparr>)
     else Next (w\<lparr>callers := (callers w)(t := Spinning x False)\<rparr>))"
| "perform (Spin t) w =
    (case callers w t of
       Spinning x waited \<Rightarrow>
         Next (w\<lparr>callers := (callers w)(t :=
           if in_transfer (pages (pf w) x) then Spinning x True else Entering x waited)\<rparr>)
     | _ \<Rightarrow> Disabled)"
| "perform (Enter t env) w =
    (case callers w t of
       Entering x waited \<Rightarrow>
         defined (\<lambda>q. w\<lparr>pf := q, callers := (callers w)(t := Outside),
                      returned := (x, weights_of q x) # returned w\<rparr>)
           (get_locked env x waited (pf w))
     | _ \<Rightarrow> Disabled)"
| "perform Take w =
    (if worker w \<noteq> Idle then Disabled
     else (case queue (pf w) of
             [] \<Rightarrow> if stopping (pf w) then Next (w\<lparr>worker := Ended\<rparr>) else Disabled
           | x # rest \<Rightarrow>
               Next (w\<lparr>pf := set_page x ((pages (pf w) x)\<lparr>in_transfer := True\<rparr>) ((pf w)\<lparr>queue := rest\<rparr>),
                 worker := Taken x\<rparr>)))"
| "perform (Fetch env) w =
    (case worker w of
       Taken x \<Rightarrow> defined (\<lambda>p. w\<lparr>pf := set_page x p (pf w), worker := Fetched x\<rparr>)
                   (fetch_page (gpu (pf w)) env (pages (pf w) x))
     | _ \<Rightarrow> Disabled)"
| "perform Publish w =
    (case worker w of
       Fetched x \<Rightarrow> defined (\<lambda>q. w\<lparr>pf := q, worker := Idle\<rparr>) (publish x (pf w))
     | _ \<Rightarrow> Disabled)"
| "perform Stop w = Next (w\<lparr>pf := (pf w)\<lparr>stopping := True\<rparr>\<rparr>)"

text \<open>
  The worker loads, pins and uploads without the lock, on plain fields of the page. Until it takes
  the lock again, a step of another thread that reaches the fields of the same page conflicts with
  it: one that registers sources, asks for the expert, or evicts it to make room. That is a data race,
  and nothing is said of what follows. A fetch that nothing conflicts with is as good as one step.
\<close>

definition in_hands :: "'b world \<Rightarrow> expert \<Rightarrow> bool" where
  "in_hands w x = (worker w = Taken x \<or> worker w = Fetched x)"

fun evicted :: "int \<Rightarrow> expert list \<Rightarrow> expert list" where
  "evicted most [] = []"
| "evicted most (x # rest) = (if most \<le> int (length (x # rest)) then x # evicted most rest else [])"

fun races :: "'b event \<Rightarrow> 'b world \<Rightarrow> bool" where
  "races (Set_Source x s) w = (in_range (pf w) x \<and> in_hands w x)"
| "races (Set_Segments x segs) w = (in_range (pf w) x \<and> in_hands w x)"
| "races (Enter t env) w =
    (case callers w t of
       Entering x waited \<Rightarrow> in_hands w x \<or> \<not> on_device (pages (pf w) x) \<and>
         list_ex (in_hands w) (evicted (max_resident (pf w)) (lru (pf w)))
     | _ \<Rightarrow> False)"
| "races _ w = False"

definition exec :: "'b::zero event \<Rightarrow> 'b world \<Rightarrow> 'b outcome" where
  "exec ev w = (if races ev w then Race else perform ev w)"

definition start :: "'b prefetcher \<Rightarrow> 'b world" where
  "start q = \<lparr>pf = q, worker = Idle, callers = (\<lambda>_. Outside), returned = []\<rparr>"

fun run :: "'b::zero event list \<Rightarrow> 'b world \<Rightarrow> 'b outcome" where
  "run [] w = Next w"
| "run (ev # evs) w = (case exec ev w of Next w' \<Rightarrow> run evs w' | out \<Rightarrow> out)"

end
