(* ===== verification/Expert_Prefetch_Correct.thy ===== *)
theory Expert_Prefetch_Correct
  imports Expert_Prefetch
begin

text \<open>
  The prefetcher in every interleaving of its callers and its worker: no access outside a block, at most
  \<open>max_resident\<close> resident experts, and the registered weights behind every pointer, provided the sources of
  an expert are registered before it is first loaded. The last section has what goes wrong otherwise.
\<close>

section \<open>Pages\<close>

fun packed :: "nat \<Rightarrow> ('b list option \<times> nat) list \<Rightarrow> nat \<Rightarrow> 'b list" where
  "packed room [] offset = []"
| "packed room ((ptr, bytes) # segs) offset =
    (case ptr of
       Some block \<Rightarrow> if 0 < bytes \<and> offset + bytes \<le> room
                     then take bytes block @ packed room segs (offset + bytes) else packed room segs offset
     | None \<Rightarrow> packed room segs offset)"

text \<open>The weights that the sources of a page stand for.\<close>

definition weights :: "'b::zero page \<Rightarrow> 'b list" where
  "weights p =
    (if segments p \<noteq> [] then
       (let d = packed (size_bytes p) (segments p) 0 in d @ replicate (size_bytes p - length d) 0)
     else (case source_block p of Some s \<Rightarrow> take (size_bytes p) s | None \<Rightarrow> replicate (size_bytes p) 0))"

definition segments_ok :: "('b list option \<times> nat) list \<Rightarrow> bool" where
  "segments_ok segs = (\<forall>(ptr, bytes) \<in> set segs. case ptr of None \<Rightarrow> True | Some block \<Rightarrow> bytes \<le> length block)"

definition sources_ok :: "'b page \<Rightarrow> bool" where
  "sources_ok p = (segments_ok (segments p) \<and>
    (segments p = [] \<longrightarrow> (case source_block p of None \<Rightarrow> True | Some s \<Rightarrow> size_bytes p \<le> length s)))"

definition page_ok :: "bool \<Rightarrow> 'b::zero page \<Rightarrow> bool" where
  "page_ok g p = (sources_ok p \<and> (\<forall>h. host p = Some h \<longrightarrow> h = weights p) \<and>
    (\<forall>d. device p = Some d \<longrightarrow> d = weights p \<and> g \<and> host p \<noteq> None))"

definition same_sources :: "'b page \<Rightarrow> 'b page \<Rightarrow> bool" where
  "same_sources p q = (segments q = segments p \<and> source_block q = source_block p \<and> size_bytes q = size_bytes p)"

lemma same_sources_weights: "same_sources p q \<Longrightarrow> weights q = weights p"
  by (auto simp: same_sources_def weights_def Let_def split: option.split)

lemma same_sources_ok: "same_sources p q \<Longrightarrow> sources_ok q = sources_ok p"
  by (auto simp: same_sources_def sources_ok_def split: option.split)

lemma same_sources_refl: "same_sources p p"
  by (simp add: same_sources_def)

lemma same_sources_trans: "same_sources p q \<Longrightarrow> same_sources q u \<Longrightarrow> same_sources p u"
  by (simp add: same_sources_def)

lemma same_sources_update [simp]:
  "same_sources p (q\<lparr>host := h\<rparr>) = same_sources p q" "same_sources p (q\<lparr>device := d\<rparr>) = same_sources p q"
  "same_sources p (q\<lparr>pinned := b\<rparr>) = same_sources p q" "same_sources p (q\<lparr>on_device := b\<rparr>) = same_sources p q"
  "same_sources p (q\<lparr>in_transfer := b\<rparr>) = same_sources p q"
  by (simp_all add: same_sources_def)

lemma weights_update [simp]:
  "weights (q\<lparr>host := h\<rparr>) = weights q" "weights (q\<lparr>device := d\<rparr>) = weights q"
  "weights (q\<lparr>pinned := b\<rparr>) = weights q" "weights (q\<lparr>on_device := b\<rparr>) = weights q"
  "weights (q\<lparr>in_transfer := b\<rparr>) = weights q"
  by (rule same_sources_weights, simp add: same_sources_refl)+

lemma sources_ok_update [simp]:
  "sources_ok (q\<lparr>host := h\<rparr>) = sources_ok q" "sources_ok (q\<lparr>device := d\<rparr>) = sources_ok q"
  "sources_ok (q\<lparr>pinned := b\<rparr>) = sources_ok q" "sources_ok (q\<lparr>on_device := b\<rparr>) = sources_ok q"
  "sources_ok (q\<lparr>in_transfer := b\<rparr>) = sources_ok q"
  by (rule same_sources_ok, simp add: same_sources_refl)+

lemma packed_length: "segments_ok segs \<Longrightarrow> offset \<le> room \<Longrightarrow> offset + length (packed room segs offset) \<le> room"
proof (induction room segs offset rule: packed.induct)
  case (2 room ptr bytes segs offset)
  then show ?case by (cases ptr) (auto simp: segments_ok_def)
qed simp

lemma weights_length: "sources_ok p \<Longrightarrow> length (weights p) = size_bytes p"
  using packed_length [of "segments p" 0 "size_bytes p"]
  by (auto simp: weights_def sources_ok_def Let_def split: option.splits)

lemma copy_segments_spec:
  assumes "segments_ok segs" "offset \<le> room" "length h = room"
  shows "copy_segments room segs h offset = Some (take offset h @ packed room segs offset @
      drop (offset + length (packed room segs offset)) h, offset + length (packed room segs offset))"
  using assms
proof (induction room segs h offset rule: copy_segments.induct)
  case (2 room ptr bytes segs h offset)
  have rest: "segments_ok segs" using "2.prems" by (simp add: segments_ok_def)
  show ?case
  proof (cases ptr)
    case None
    with 2 rest show ?thesis by simp
  next
    case (Some block)
    have len: "bytes \<le> length block" using "2.prems"(1) Some by (simp add: segments_ok_def)
    show ?thesis
    proof (cases "0 < bytes \<and> offset + bytes \<le> room")
      case False
      with 2 rest Some show ?thesis by auto
    next
      case True
      define h' where "h' = take offset h @ take bytes block @ drop (offset + bytes) h"
      have h': "memcpy h offset block 0 bytes = Some h'"
        using True len "2.prems" by (simp add: memcpy_def h'_def)
      have "length h' = room" using memcpy_length [OF h'] "2.prems" by simp
      from "2.IH"(2) [OF Some True h' rest _ this] True
      have c: "copy_segments room segs h' (offset + bytes) = Some (take (offset + bytes) h' @
          packed room segs (offset + bytes) @ drop (offset + bytes + length (packed room segs (offset + bytes))) h',
          offset + bytes + length (packed room segs (offset + bytes)))" by simp
      have "take (offset + bytes) h' = take offset h @ take bytes block"
        "drop (offset + bytes + k) h' = drop (offset + bytes + k) h" for k
        using len "2.prems" by (simp_all add: h'_def min.absorb2 add.commute add.left_commute)
      with c True Some h' len show ?thesis by (simp add: min.absorb2 add.assoc)
    qed
  qed
qed simp

lemma load_from_disk_spec:
  assumes "page_ok g p"
  shows "\<exists>q. load_from_disk env p = Some q \<and> page_ok g q \<and> same_sources p q \<and> (host p \<noteq> None \<longrightarrow> host q = host p) \<and>
    device q = device p \<and> on_device q = on_device p \<and> in_transfer q = in_transfer p"
proof -
  define block where "block = (case host p of Some h \<Rightarrow> Some h
    | None \<Rightarrow> if malloc_ok env then Some (replicate (size_bytes p) (raw env)) else None)"
  have src: "sources_ok p" using assms by (simp add: page_ok_def)
  show ?thesis
  proof (cases block)
    case None
    then have "load_from_disk env p = Some p"
      by (simp add: load_from_disk_def block_def [symmetric])
    with assms show ?thesis by (simp add: same_sources_def)
  next
    case (Some h)
    have len: "length h = size_bytes p"
      using Some assms weights_length [OF src] by (auto simp: block_def page_ok_def split: option.splits if_splits)
    define d where "d = packed (size_bytes p) (segments p) 0"
    have fill: "(if segments p \<noteq> [] then
             (case copy_segments (size_bytes p) (segments p) h 0 of
                None \<Rightarrow> None
              | Some (h', offset) \<Rightarrow>
                  if offset < size_bytes p then memset h' offset 0 (size_bytes p - offset) else Some h')
           else (case source_block p of
                   Some s \<Rightarrow> memcpy h 0 s 0 (size_bytes p)
                 | None \<Rightarrow> memset h 0 0 (size_bytes p))) = Some (weights p)"
    proof (cases "segments p = []")
      case True
      then show ?thesis using src len
        by (auto simp: weights_def sources_ok_def memcpy_def memset_def split: option.splits)
    next
      case False
      have seg: "segments_ok (segments p)" using src by (simp add: sources_ok_def)
      have dl: "length d \<le> size_bytes p" using packed_length [OF seg, of 0] by (simp add: d_def)
      have "copy_segments (size_bytes p) (segments p) h 0 = Some (d @ drop (length d) h, length d)"
        using copy_segments_spec [OF seg _ len, of 0] by (simp add: d_def)
      then show ?thesis
        using False dl len by (simp add: weights_def d_def [symmetric] memset_def Let_def)
    qed
    have "load_from_disk env p = Some (p\<lparr>host := Some (weights p)\<rparr>)"
      unfolding load_from_disk_def block_def [symmetric] Some Let_def option.case fill by simp
    moreover have "host p = Some (weights p)" if "host p \<noteq> None"
      using that assms by (auto simp: page_ok_def)
    moreover have "page_ok g (p\<lparr>host := Some (weights p)\<rparr>)"
      using assms by (simp add: page_ok_def)
    ultimately show ?thesis
      by (intro exI [of _ "p\<lparr>host := Some (weights p)\<rparr>"]) (simp add: same_sources_refl)
  qed
qed

lemma fetch_page_spec:
  assumes "page_ok g p"
  shows "\<exists>q. fetch_page g env p = Some q \<and> page_ok g q \<and> same_sources p q \<and> (host p \<noteq> None \<longrightarrow> host q = host p) \<and>
    on_device q = on_device p \<and> in_transfer q = in_transfer p"
proof -
  obtain q where q: "load_from_disk env p = Some q" "page_ok g q" "same_sources p q"
      "host p \<noteq> None \<longrightarrow> host q = host p" "device q = device p" "on_device q = on_device p" "in_transfer q = in_transfer p"
    using load_from_disk_spec [OF assms] by blast
  have pin: "page_ok g (pin q)" "same_sources q (pin q)" "host (pin q) = host q" "device (pin q) = device q"
    "on_device (pin q) = on_device q" "in_transfer (pin q) = in_transfer q"
    using q(2) by (simp_all add: pin_def page_ok_def same_sources_refl)
  note sources = same_sources_trans [OF q(3) pin(2)]
  have "\<exists>u. upload_to_device g env (pin q) = Some u \<and> page_ok g u \<and> same_sources (pin q) u \<and> host u = host q \<and>
    on_device u = on_device q \<and> in_transfer u = in_transfer q"
  proof (cases "host q = None \<or> \<not> g")
    case True
    then have "upload_to_device g env (pin q) = Some (pin q)"
      using pin by (auto simp: upload_to_device_def split: option.splits)
    with pin show ?thesis by (simp add: same_sources_refl)
  next
    case False
    then obtain h where h: "host q = Some h" and g by auto
    have w: "h = weights (pin q)" using pin(1,3) h by (simp add: page_ok_def)
    have len: "length h = size_bytes (pin q)"
      using w weights_length [of "pin q"] pin(1) by (simp add: page_ok_def)
    define dev where "dev = (case device (pin q) of Some d \<Rightarrow> Some d
      | None \<Rightarrow> if gpu_ok env then Some (replicate (size_bytes (pin q)) (raw env)) else None)"
    show ?thesis
    proof (cases dev)
      case None
      then have "upload_to_device g env (pin q) = Some (pin q)"
        using h \<open>g\<close> by (simp add: upload_to_device_def dev_def [symmetric] pin(3))
      with pin show ?thesis by (simp add: same_sources_refl)
    next
      case (Some d)
      have "length d = size_bytes (pin q)"
        using Some pin(1) weights_length [of "pin q"] by (auto simp: dev_def page_ok_def split: option.splits if_splits)
      then have "upload_to_device g env (pin q) = Some ((pin q)\<lparr>device := Some h\<rparr>)"
        using h \<open>g\<close> Some len by (simp add: upload_to_device_def dev_def [symmetric] pin(3) memcpy_def)
      moreover have "page_ok g ((pin q)\<lparr>device := Some h\<rparr>)"
        using pin(1,3) w \<open>g\<close> h by (simp add: page_ok_def)
      ultimately show ?thesis
        using pin(3,5,6) by (simp add: same_sources_refl)
    qed
  qed
  then obtain u where u: "upload_to_device g env (pin q) = Some u" "page_ok g u" "same_sources (pin q) u"
    "host u = host q" "on_device u = on_device q" "in_transfer u = in_transfer q" by blast
  moreover have "fetch_page g env p = Some u" using q(1) u(1) by (simp add: fetch_page_def)
  ultimately show ?thesis
    using q(4,6,7) same_sources_trans [OF sources u(3)] by simp
qed

section \<open>The resident experts\<close>

definition resident_ok :: "'b::zero prefetcher \<Rightarrow> bool" where
  "resident_ok q = (distinct (lru q) \<and> int (length (lru q)) \<le> max_resident q \<and>
    (\<forall>x. on_device (pages q x) \<longleftrightarrow> x \<in> set (lru q)) \<and> (\<forall>x. page_ok (gpu q) (pages q x)))"

text \<open>What every operation leaves alone once sources are registered.\<close>

definition keeps_page :: "'b::zero page \<Rightarrow> 'b page \<Rightarrow> bool" where
  "keeps_page p q = (same_sources p q \<and> (host p \<noteq> None \<longrightarrow> host q = host p))"

lemma keeps_page_refl: "keeps_page p p"
  by (simp add: keeps_page_def same_sources_refl)

lemma keeps_page_trans: "keeps_page p q \<Longrightarrow> keeps_page q u \<Longrightarrow> keeps_page p u"
  by (auto simp: keeps_page_def intro: same_sources_trans)

lemma evict_page_spec:
  assumes "page_ok g p"
  shows "page_ok g (evict_page g p)" "keeps_page p (evict_page g p)" "\<not> on_device (evict_page g p)"
    "device (evict_page g p) = None" "in_transfer (evict_page g p) = in_transfer p"
  using assms by (auto simp: evict_page_def page_ok_def keeps_page_def same_sources_refl Let_def)

lemma evict_loop_spec:
  assumes "1 \<le> most" "distinct l"
  shows "\<exists>l' n'. evict_loop g most l pg n =
      Some (l', \<lambda>x. if x \<in> set l \<and> x \<notin> set l' then evict_page g (pg x) else pg x, n') \<and>
    distinct l' \<and> set l' \<subseteq> set l \<and> int (length l') < most"
  using assms
proof (induction g most l pg n rule: evict_loop.induct)
  case (2 g most x rest pg n)
  show ?case
  proof (cases "most \<le> int (length (x # rest))")
    case True
    have dr: "distinct rest" using "2.prems"(2) by simp
    from "2.IH" [OF True "2.prems"(1) dr] obtain l' n' where
      e: "evict_loop g most rest (pg(x := evict_page g (pg x))) (n + 1) = Some (l', \<lambda>y. if y \<in> set rest \<and> y \<notin> set l'
          then evict_page g ((pg(x := evict_page g (pg x))) y) else (pg(x := evict_page g (pg x))) y, n')"
      and l: "distinct l'" "set l' \<subseteq> set rest" "int (length l') < most" by blast
    have "(\<lambda>y. if y \<in> set rest \<and> y \<notin> set l' then evict_page g ((pg(x := evict_page g (pg x))) y)
          else (pg(x := evict_page g (pg x))) y)
        = (\<lambda>y. if y \<in> set (x # rest) \<and> y \<notin> set l' then evict_page g (pg y) else pg y)"
      using l(2) "2.prems"(2) by (intro ext) auto
    with e l True show ?thesis by auto
  next
    case False
    have "(\<lambda>y. if y \<in> set (x # rest) \<and> y \<notin> set (x # rest) then evict_page g (pg y) else pg y) = pg"
      by (rule ext) auto
    with False "2.prems" show ?thesis by (intro exI [of _ "x # rest"] exI [of _ n]) simp
  qed
qed simp

text \<open>A page that has just been put on the device enters the list, and others make room for it.\<close>

lemma admit_resident:
  assumes ok: "resident_ok q" and most: "1 \<le> max_resident q" and x: "x \<notin> set (lru q)"
    and p: "page_ok (gpu q) p" "on_device p" and k: "keeps_page (pages q x) p"
  shows "\<exists>u. map_option (\<lambda>q. q\<lparr>lru := lru q @ [x]\<rparr>) (evict_lru (set_page x p q)) = Some u \<and> resident_ok u \<and>
    max_resident u = max_resident q \<and> gpu u = gpu q \<and> num_layers u = num_layers q \<and> num_experts u = num_experts q \<and>
    queue u = queue q \<and> stopping u = stopping q \<and> pages u x = p \<and>
    (\<forall>y. y \<noteq> x \<longrightarrow> keeps_page (pages q y) (pages u y) \<and>
      (pages u y = pages q y \<or> device (pages u y) = None \<and> in_transfer (pages u y) = in_transfer (pages q y)))"
proof -
  have d: "distinct (lru q)" and pg: "\<And>y. page_ok (gpu q) (pages q y)"
    and on: "\<And>y. on_device (pages q y) \<longleftrightarrow> y \<in> set (lru q)"
    using ok unfolding resident_ok_def by blast+
  define pg where "pg = (pages q)(x := p)"
  obtain l' n' where e: "evict_loop (gpu q) (max_resident q) (lru q) pg (evictions q) =
      Some (l', \<lambda>y. if y \<in> set (lru q) \<and> y \<notin> set l' then evict_page (gpu q) (pg y) else pg y, n')"
    and l: "distinct l'" "set l' \<subseteq> set (lru q)" "int (length l') < max_resident q"
    using evict_loop_spec [OF most d] by blast
  define pg' where "pg' = (\<lambda>y. if y \<in> set (lru q) \<and> y \<notin> set l' then evict_page (gpu q) (pg y) else pg y)"
  define u where "u = q\<lparr>lru := l' @ [x], pages := pg', evictions := n'\<rparr>"
  have eu: "map_option (\<lambda>q. q\<lparr>lru := lru q @ [x]\<rparr>) (evict_lru (set_page x p q)) = Some u"
    using e [folded pg'_def] by (simp add: evict_lru_def set_page_def pg_def [symmetric] u_def)
  have at: "pg' x = p" using x by (simp add: pg'_def pg_def)
  have other: "pg' y = pages q y \<or> y \<in> set (lru q) \<and> y \<notin> set l' \<and> pg' y = evict_page (gpu q) (pages q y)"
    if "y \<noteq> x" for y
    using that by (simp add: pg'_def pg_def)
  have okp: "page_ok (gpu q) (pg' y)" for y
    using other [of y] pg [of y] evict_page_spec(1) [OF pg [of y]] at p(1) by (cases "y = x") auto
  have onp: "on_device (pg' y) \<longleftrightarrow> y \<in> set (l' @ [x])" for y
  proof (cases "y = x")
    case False
    have "\<not> on_device (evict_page (gpu q) (pages q y))" by (rule evict_page_spec(3) [OF pg])
    with False on [of y] l(2) show ?thesis by (auto simp: pg'_def pg_def)
  qed (simp add: at p(2))
  have "resident_ok u"
    using l x okp onp by (auto simp: resident_ok_def u_def)
  moreover have "keeps_page (pages q y) (pg' y) \<and>
      (pg' y = pages q y \<or> device (pg' y) = None \<and> in_transfer (pg' y) = in_transfer (pages q y))" if "y \<noteq> x" for y
    using other [OF that] keeps_page_refl evict_page_spec(2,4,5) [OF pg] by metis
  ultimately show ?thesis
    using eu at by (intro exI [of _ u]) (simp add: u_def)
qed

lemma move_to_back_facts:
  "distinct l \<Longrightarrow> distinct (move_to_back x l) \<and> set (move_to_back x l) = set l \<and> length (move_to_back x l) = length l"
  by (auto simp: move_to_back_def length_remove1 dest: length_pos_if_in_set)

lemma touch_resident:
  "resident_ok q \<Longrightarrow> resident_ok (q\<lparr>lru := move_to_back x (lru q)\<rparr>)"
  using move_to_back_facts [of "lru q" x] by (simp add: resident_ok_def)

section \<open>Steps\<close>

text \<open>An operation on behalf of \<open>x\<close> that may evict others.\<close>

definition serves :: "expert \<Rightarrow> 'b::zero prefetcher \<Rightarrow> 'b prefetcher \<Rightarrow> bool" where
  "serves x q u = (resident_ok u \<and> max_resident u = max_resident q \<and> (\<forall>y. keeps_page (pages q y) (pages u y)) \<and>
    on_device (pages u x) \<and> (\<forall>y. y \<noteq> x \<longrightarrow> pages u y = pages q y \<or> device (pages u y) = None))"

lemma resident_page: "resident_ok q \<Longrightarrow> page_ok (gpu q) (pages q x)"
  unfolding resident_ok_def by blast

lemma resident_lru: "resident_ok q \<Longrightarrow> on_device (pages q x) \<longleftrightarrow> x \<in> set (lru q)"
  unfolding resident_ok_def by blast

lemma get_locked_serves:
  assumes ok: "resident_ok q" and most: "1 \<le> max_resident q"
  shows "\<exists>u. get_locked env x waited q = Some u \<and> serves x q u"
proof (cases "on_device (pages q x)")
  case True
  define q' where "q' = (if waited then q\<lparr>misses := misses q + 1\<rparr> else q\<lparr>hits := hits q + 1\<rparr>)"
  have f: "resident_ok q'" "lru q' = lru q" "pages q' = pages q" "max_resident q' = max_resident q"
    using ok by (simp_all add: q'_def resident_ok_def)
  have "get_locked env x waited q = Some (q'\<lparr>lru := move_to_back x (lru q')\<rparr>)"
    using True by (simp add: get_locked_def q'_def)
  with touch_resident [OF f(1), of x] f True show ?thesis
    by (simp add: serves_def keeps_page_refl)
next
  case False
  obtain p where p: "fetch_page (gpu q) env (pages q x) = Some p" "page_ok (gpu q) p" "same_sources (pages q x) p"
      "host (pages q x) \<noteq> None \<longrightarrow> host p = host (pages q x)"
    using fetch_page_spec [OF resident_page [OF ok]] by blast
  define q' where "q' = q\<lparr>misses := misses q + 1\<rparr>"
  define p' where "p' = p\<lparr>on_device := True\<rparr>"
  have f: "resident_ok q'" "lru q' = lru q" "pages q' = pages q" "max_resident q' = max_resident q" "gpu q' = gpu q"
    using ok by (simp_all add: q'_def resident_ok_def)
  have p': "page_ok (gpu q') p'" "on_device p'" "keeps_page (pages q' x) p'"
    using p by (simp_all add: p'_def page_ok_def keeps_page_def f)
  have "x \<notin> set (lru q')" using False resident_lru [OF ok] f(2) by simp
  from admit_resident [OF f(1) _ this p'] most f(4) obtain u where
    u: "map_option (\<lambda>q. q\<lparr>lru := lru q @ [x]\<rparr>) (evict_lru (set_page x p' q')) = Some u" "resident_ok u"
      "max_resident u = max_resident q'" "pages u x = p'"
      "\<forall>y. y \<noteq> x \<longrightarrow> keeps_page (pages q' y) (pages u y) \<and> (pages u y = pages q' y \<or>
         device (pages u y) = None \<and> in_transfer (pages u y) = in_transfer (pages q' y))" by auto
  have "get_locked env x waited q = Some u"
    using False p(1) u(1) by (simp add: get_locked_def p'_def q'_def)
  moreover have "keeps_page (pages q y) (pages u y)" for y
    using u(4) u(5) [rule_format, of y] p'(3) f(3) by (cases "y = x") simp_all
  moreover have "pages u y = pages q y \<or> device (pages u y) = None" if "y \<noteq> x" for y
    using u(5) [rule_format, OF that] unfolding f(3) by (elim conjE disjE) simp_all
  ultimately show ?thesis
    using u(2,3,4) p'(2) f(4) by (simp add: serves_def)
qed

lemma publish_serves:
  assumes ok: "resident_ok q" and most: "1 \<le> max_resident q"
  shows "\<exists>u. publish x q = Some u \<and> serves x q u"
proof -
  define p where "p = (pages q x)\<lparr>on_device := True, in_transfer := False\<rparr>"
  have p: "page_ok (gpu q) p" "on_device p" "keeps_page (pages q x) p"
    using resident_page [OF ok, of x] by (simp_all add: p_def page_ok_def keeps_page_def same_sources_refl)
  show ?thesis
  proof (cases "x \<in> set (lru q)")
    case True
    define q' where "q' = set_page x p q"
    have "resident_ok q'"
      using ok p True by (auto simp: resident_ok_def q'_def set_page_def)
    from touch_resident [OF this, of x]
    have "resident_ok (q'\<lparr>lru := move_to_back x (lru q)\<rparr>)" by (simp add: q'_def set_page_def)
    moreover have "publish x q = Some (q'\<lparr>lru := move_to_back x (lru q)\<rparr>)"
      using True by (simp add: publish_def q'_def p_def)
    ultimately show ?thesis
      using p by (simp add: serves_def q'_def set_page_def keeps_page_refl)
  next
    case False
    from admit_resident [OF ok most this p] obtain u where
      u: "map_option (\<lambda>q. q\<lparr>lru := lru q @ [x]\<rparr>) (evict_lru (set_page x p q)) = Some u" "resident_ok u"
        "max_resident u = max_resident q" "pages u x = p"
        "\<forall>y. y \<noteq> x \<longrightarrow> keeps_page (pages q y) (pages u y) \<and> (pages u y = pages q y \<or>
           device (pages u y) = None \<and> in_transfer (pages u y) = in_transfer (pages q y))" by blast
    have "publish x q = Some u" using False u(1) by (simp add: publish_def p_def)
    moreover have "keeps_page (pages q y) (pages u y)" for y
      using u(4) u(5) [rule_format, of y] p(3) by (cases "y = x") simp_all
    moreover have "pages u y = pages q y \<or> device (pages u y) = None" if "y \<noteq> x" for y
      using u(5) [rule_format, OF that] by (elim conjE disjE) simp_all
    ultimately show ?thesis
      using u(2,3,4) p(2) by (simp add: serves_def)
  qed
qed

definition answer_ok :: "(expert \<Rightarrow> 'b::zero page) \<Rightarrow> expert \<times> 'b list option \<times> bool \<Rightarrow> bool" where
  "answer_ok pg a = (case a of (x, c, _) \<Rightarrow> c = None \<or> host (pg x) \<noteq> None \<and> c = Some (weights (pg x)))"

lemma answer_ok_keeps: "keeps_page (pg (fst a)) (pg' (fst a)) \<Longrightarrow> answer_ok pg a \<Longrightarrow> answer_ok pg' a"
  by (cases a) (auto simp: answer_ok_def keeps_page_def dest: same_sources_weights)

lemma weights_of_answer: "page_ok (gpu q) (pages q x) \<Longrightarrow> answer_ok (pages q) (x, weights_of q x)"
  by (auto simp: answer_ok_def weights_of_def page_ok_def)

definition world_ok :: "'b::zero world \<Rightarrow> bool" where
  "world_ok w = (resident_ok (pf w) \<and> 1 \<le> max_resident (pf w) \<and>
    (\<forall>x. device (pages (pf w) x) \<noteq> None \<longrightarrow> on_device (pages (pf w) x) \<or> worker w = Fetched x) \<and>
    (\<forall>a \<in> set (returned w). answer_ok (pages (pf w)) a))"

lemma world_ok_device:
  "world_ok w \<Longrightarrow> device (pages (pf w) x) \<noteq> None \<Longrightarrow> on_device (pages (pf w) x) \<or> worker w = Fetched x"
  unfolding world_ok_def by (elim conjE allE [of _ x] impE)

lemma world_okI:
  assumes "resident_ok (pf w)" "1 \<le> max_resident (pf w)" "\<And>a. a \<in> set (returned w) \<Longrightarrow> answer_ok (pages (pf w)) a"
    "\<And>x. device (pages (pf w) x) \<noteq> None \<Longrightarrow> on_device (pages (pf w) x) \<or> worker w = Fetched x"
  shows "world_ok w"
  unfolding world_ok_def using assms by (intro conjI allI impI ballI)

text \<open>Sources are registered before the expert is first loaded, and are long enough.\<close>

fun allowed :: "'b event \<Rightarrow> 'b world \<Rightarrow> bool" where
  "allowed (Set_Source x s) w = (host (pages (pf w) x) = None \<and>
     (case s of None \<Rightarrow> True | Some block \<Rightarrow> size_bytes (pages (pf w) x) \<le> length block))"
| "allowed (Set_Segments x segs) w = (host (pages (pf w) x) = None \<and> segments_ok segs)"
| "allowed _ w = True"

lemma world_ok_serves:
  assumes w: "world_ok w" and s: "serves x (pf w) u"
    and wk: "\<And>y. y \<noteq> x \<Longrightarrow> worker w = Fetched y \<Longrightarrow> wk = Fetched y"
    and a: "\<And>a. a \<in> set ret \<Longrightarrow> a \<in> set (returned w) \<or> answer_ok (pages u) a"
  shows "world_ok (w\<lparr>pf := u, worker := wk, callers := cs, returned := ret\<rparr>)"
proof -
  have u: "resident_ok u" "max_resident u = max_resident (pf w)" "\<And>y. keeps_page (pages (pf w) y) (pages u y)"
    "on_device (pages u x)"
    using s unfolding serves_def by blast+
  have rest: "pages u y = pages (pf w) y \<or> device (pages u y) = None" if "y \<noteq> x" for y
    using s that unfolding serves_def by metis
  have "on_device (pages u y) \<or> wk = Fetched y" if "device (pages u y) \<noteq> None" for y
  proof (cases "y = x")
    case False
    then have e: "pages u y = pages (pf w) y" using rest [OF False] that by (elim disjE) simp_all
    have "on_device (pages (pf w) y) \<or> worker w = Fetched y"
      using world_ok_device [OF w, of y] that by (simp add: e)
    with wk [OF False] show ?thesis by (auto simp: e)
  qed (simp add: u(4))
  moreover have "answer_ok (pages u) b" if "b \<in> set ret" for b
    using a [OF that] w answer_ok_keeps [of "pages (pf w)" b "pages u", OF u(3)] unfolding world_ok_def by blast
  ultimately show ?thesis
    using u(1,2) w by (simp add: world_ok_def)
qed

lemma world_ok_page: "world_ok w \<Longrightarrow> page_ok (gpu (pf w)) (pages (pf w) x)"
  by (simp only: world_ok_def resident_page)

text \<open>A step that changes one page and nothing in the list of residents.\<close>

lemma world_ok_set_page:
  assumes w: "world_ok w" and p: "page_ok (gpu (pf w)) p" "on_device p = on_device (pages (pf w) x)"
    and dev: "device p \<noteq> None \<Longrightarrow> on_device p \<or> wk = Fetched x"
    and wk: "\<And>y. y \<noteq> x \<Longrightarrow> worker w = Fetched y \<Longrightarrow> wk = Fetched y"
    and a: "host (pages (pf w) x) = None \<or> keeps_page (pages (pf w) x) p"
    and q: "resident_ok q" "pages q = pages (pf w)" "max_resident q = max_resident (pf w)" "lru q = lru (pf w)" "gpu q = gpu (pf w)"
  shows "world_ok (w\<lparr>pf := set_page x p q, worker := wk\<rparr>)"
proof -
  note old = world_ok_device [OF w]
  have ans: "\<forall>b \<in> set (returned w). answer_ok (pages (pf w)) b" and most: "1 \<le> max_resident (pf w)"
    using w unfolding world_ok_def by blast+
  have "resident_ok (set_page x p q)"
    using q p by (auto simp: resident_ok_def set_page_def)
  moreover have "on_device (pages (set_page x p q) y) \<or> wk = Fetched y"
    if "device (pages (set_page x p q) y) \<noteq> None" for y
  proof (cases "y = x")
    case True
    with that dev show ?thesis by (simp add: set_page_def)
  next
    case False
    with that old [of y] wk [OF False] show ?thesis by (simp add: set_page_def q(2)) blast
  qed
  moreover have "answer_ok (pages (set_page x p q)) b" if "b \<in> set (returned w)" for b
  proof (cases "fst b = x \<and> keeps_page (pages (pf w) x) p \<or> fst b \<noteq> x")
    case True
    then have "keeps_page (pages (pf w) (fst b)) (pages (set_page x p q) (fst b))"
      by (auto simp: set_page_def q(2) keeps_page_refl)
    from answer_ok_keeps [of "pages (pf w)" b "pages (set_page x p q)", OF this] ans that show ?thesis by blast
  next
    case False
    with a have "host (pages (pf w) (fst b)) = None" "fst b = x" by auto
    with ans that show ?thesis by (cases b) (auto simp: answer_ok_def)
  qed
  ultimately show ?thesis
    using most q(3) by (simp add: world_ok_def set_page_def)
qed

lemma world_ok_frame:
  "world_ok w \<Longrightarrow> resident_ok q \<Longrightarrow> pages q = pages (pf w) \<Longrightarrow> max_resident q = max_resident (pf w) \<Longrightarrow>
    (\<And>y. worker w = Fetched y \<Longrightarrow> wk = Fetched y) \<Longrightarrow>
    (\<And>b. b \<in> set ret \<Longrightarrow> b \<in> set (returned w) \<or> fst (snd b) = None) \<Longrightarrow>
    world_ok (w\<lparr>pf := q, worker := wk, callers := cs, returned := ret\<rparr>)"
proof -
  assume w: "world_ok w" and q: "resident_ok q" "pages q = pages (pf w)" "max_resident q = max_resident (pf w)"
    and wk: "\<And>y. worker w = Fetched y \<Longrightarrow> wk = Fetched y"
    and r: "\<And>b. b \<in> set ret \<Longrightarrow> b \<in> set (returned w) \<or> fst (snd b) = None"
  have "answer_ok (pages (pf w)) b" if "b \<in> set ret" for b
    using r [OF that] w by (cases b) (auto simp: world_ok_def answer_ok_def)
  moreover have "on_device (pages (pf w) y) \<or> wk = Fetched y" if "device (pages (pf w) y) \<noteq> None" for y
    using world_ok_device [OF w that] wk [of y] by blast
  moreover have "1 \<le> max_resident (pf w)" using w by (simp add: world_ok_def)
  ultimately show ?thesis
    using q by (intro world_okI) simp_all
qed

lemma world_same [simp]:
  "w\<lparr>pf := q, worker := worker w, callers := callers w, returned := returned w\<rparr> = w\<lparr>pf := q\<rparr>"
  "w\<lparr>pf := q, worker := worker w\<rparr> = w\<lparr>pf := q\<rparr>"
  "w\<lparr>pf := pf w, worker := worker w, callers := cs, returned := returned w\<rparr> = w\<lparr>callers := cs\<rparr>"
  "w\<lparr>pf := pf w, worker := worker w, callers := callers w, returned := r\<rparr> = w\<lparr>returned := r\<rparr>"
  "w\<lparr>pf := pf w, worker := k, callers := callers w, returned := returned w\<rparr> = w\<lparr>worker := k\<rparr>"
  "w\<lparr>pf := q, worker := k, callers := callers w, returned := returned w\<rparr> = w\<lparr>pf := q, worker := k\<rparr>"
  "w\<lparr>pf := q, worker := worker w, callers := cs, returned := r\<rparr> = w\<lparr>pf := q, callers := cs, returned := r\<rparr>"
  by simp_all

lemma exec_register:
  assumes w: "world_ok w" and x: "host (pages (pf w) x) = None"
    and p: "sources_ok p" "host p = None" "device p = None" "on_device p = on_device (pages (pf w) x)"
  shows "world_ok (w\<lparr>pf := set_page x p (pf w)\<rparr>)"
proof -
  have "page_ok (gpu (pf w)) p" using p by (simp add: page_ok_def)
  moreover have "resident_ok (pf w)" using w by (simp add: world_ok_def)
  ultimately show ?thesis
    using world_ok_set_page [OF w, of p x "worker w" "pf w"] p x by simp
qed

lemma perform_ok:
  assumes w: "world_ok w" and ev: "allowed ev w"
  shows "perform ev w \<noteq> Undefined \<and> (\<forall>w'. perform ev w = Next w' \<longrightarrow> world_ok w')"
proof -
  have res: "resident_ok (pf w)" and most: "1 \<le> max_resident (pf w)" using w by (simp_all add: world_ok_def)
  note frame = world_ok_frame [OF w]
  have dev: "device (pages (pf w) x) = None" if "host (pages (pf w) x) = None" for x
    using world_ok_page [OF w, of x] that by (cases "device (pages (pf w) x)") (auto simp: page_ok_def)
  show ?thesis
  proof (cases ev)
    case (Set_Source x s)
    then have h: "host (pages (pf w) x) = None" using ev by simp
    have "sources_ok ((pages (pf w) x)\<lparr>source_block := s, segments := []\<rparr>)"
      using ev Set_Source by (auto simp: sources_ok_def segments_ok_def split: option.splits)
    from exec_register [OF w h this] h dev [OF h] w Set_Source show ?thesis
      by (simp add: set_expert_source_def)
  next
    case (Set_Segments x segs)
    then have h: "host (pages (pf w) x) = None" and seg: "segments_ok segs" using ev by simp_all
    define p where "p = (pages (pf w) x)\<lparr>segments := segs, source_block := None\<rparr>"
    have p: "sources_ok p" "sources_ok (p\<lparr>size_bytes := n\<rparr>)" for n
      using seg by (simp_all add: sources_ok_def p_def)
    note one = exec_register [OF w h p(1)] and two = exec_register [OF w h p(2)]
    show ?thesis
      using one two h dev [OF h] w Set_Segments
      by (simp add: set_expert_segments_def p_def [symmetric] Let_def) (simp add: p_def)
  next
    case (Schedule l es)
    have "world_ok (w\<lparr>pf := schedule_prefetch l es (pf w)\<rparr>)"
      using frame [of "schedule_prefetch l es (pf w)" "worker w" "returned w" "callers w"] res
      by (simp add: schedule_prefetch_def resident_ok_def)
    with Schedule show ?thesis by simp
  next
    case (Call t x)
    have "world_ok (w\<lparr>callers := cs\<rparr>)" for cs
      using frame [OF res, of "worker w" "returned w" cs] by simp
    moreover have "world_ok (w\<lparr>pf := pf w, worker := worker w, callers := callers w,
        returned := (x, None, False) # returned w\<rparr>)"
      by (rule frame [OF res]) auto
    ultimately show ?thesis using Call by simp
  next
    case (Spin t)
    have "world_ok (w\<lparr>callers := cs\<rparr>)" for cs
      using frame [OF res, of "worker w" "returned w" cs] by simp
    with Spin show ?thesis by (simp split: caller.split)
  next
    case (Enter t env)
    show ?thesis
    proof (cases "callers w t")
      case (Entering x waited)
      obtain u where u: "get_locked env x waited (pf w) = Some u" "serves x (pf w) u"
        using get_locked_serves [OF res most] by blast
      have "page_ok (gpu u) (pages u x)"
        using u(2) by (intro resident_page) (simp add: serves_def)
      from weights_of_answer [OF this]
      have "world_ok (w\<lparr>pf := u, worker := worker w, callers := (callers w)(t := Outside),
          returned := (x, weights_of u x) # returned w\<rparr>)"
        by (intro world_ok_serves [OF w u(2)]) auto
      with Enter Entering u(1) show ?thesis by (simp add: defined_def)
    qed (simp_all add: Enter)
  next
    case Take
    show ?thesis
    proof (cases "worker w = Idle \<and> queue (pf w) \<noteq> []")
      case True
      then obtain x rest where q: "queue (pf w) = x # rest" by (cases "queue (pf w)") auto
      let ?p = "(pages (pf w) x)\<lparr>in_transfer := True\<rparr>" and ?q = "(pf w)\<lparr>queue := rest\<rparr>"
      have "world_ok (w\<lparr>pf := set_page x ?p ?q, worker := Taken x\<rparr>)"
      proof (rule world_ok_set_page [OF w])
        show "page_ok (gpu (pf w)) ?p" using world_ok_page [OF w, of x] by (simp add: page_ok_def)
        show "on_device ?p \<or> Taken x = Fetched x" if "device ?p \<noteq> None"
          using world_ok_device [OF w, of x] that True by simp
        show "host (pages (pf w) x) = None \<or> keeps_page (pages (pf w) x) ?p"
          by (simp add: keeps_page_def same_sources_refl)
        show "resident_ok ?q" using res by (simp add: resident_ok_def)
      qed (use True in simp_all)
      with Take True q show ?thesis by simp
    next
      case False
      have "world_ok (w\<lparr>worker := Ended\<rparr>)" if "worker w = Idle"
        using frame [OF res, of Ended "returned w" "callers w"] that by simp
      with False Take show ?thesis by (auto split: list.split)
    qed
  next
    case (Fetch env)
    show ?thesis
    proof (cases "worker w")
      case (Taken x)
      obtain p where p: "fetch_page (gpu (pf w)) env (pages (pf w) x) = Some p" "page_ok (gpu (pf w)) p"
          "same_sources (pages (pf w) x) p" "host (pages (pf w) x) \<noteq> None \<longrightarrow> host p = host (pages (pf w) x)"
          "on_device p = on_device (pages (pf w) x)"
        using fetch_page_spec [OF world_ok_page [OF w]] by blast
      have "world_ok (w\<lparr>pf := set_page x p (pf w), worker := Fetched x\<rparr>)"
        by (rule world_ok_set_page [OF w p(2,5)]) (use p Taken res in \<open>simp_all add: keeps_page_def\<close>)
      with Fetch Taken p(1) show ?thesis by (simp add: defined_def)
    qed (simp_all add: Fetch)
  next
    case Publish
    show ?thesis
    proof (cases "worker w")
      case (Fetched x)
      obtain u where u: "publish x (pf w) = Some u" "serves x (pf w) u"
        using publish_serves [OF res most] by blast
      have "world_ok (w\<lparr>pf := u, worker := Idle, callers := callers w, returned := returned w\<rparr>)"
        by (rule world_ok_serves [OF w u(2)]) (use Fetched in auto)
      with Publish Fetched u(1) show ?thesis by (simp add: defined_def)
    qed (simp_all add: Publish)
  next
    case Stop
    have "world_ok (w\<lparr>pf := (pf w)\<lparr>stopping := True\<rparr>\<rparr>)"
      using frame [of "(pf w)\<lparr>stopping := True\<rparr>" "worker w" "returned w" "callers w"] res
      by (simp add: resident_ok_def)
    with Stop show ?thesis by simp
  qed
qed

lemma exec_ok:
  assumes "world_ok w" and "allowed ev w"
  shows "exec ev w \<noteq> Undefined \<and> (\<forall>w'. exec ev w = Next w' \<longrightarrow> world_ok w')"
  using perform_ok [OF assms] by (simp add: exec_def)

section \<open>Runs\<close>

fun obeys :: "'b::zero event list \<Rightarrow> 'b world \<Rightarrow> bool" where
  "obeys [] w = True"
| "obeys (ev # evs) w = (allowed ev w \<and> (case exec ev w of Next w' \<Rightarrow> obeys evs w' | _ \<Rightarrow> True))"

lemma run_ok:
  "world_ok w \<Longrightarrow> obeys evs w \<Longrightarrow> run evs w \<noteq> Undefined \<and> (\<forall>w'. run evs w = Next w' \<longrightarrow> world_ok w')"
proof (induction evs arbitrary: w)
  case (Cons ev evs)
  from Cons.prems have "allowed ev w" by simp
  note ok = exec_ok [OF Cons.prems(1) this]
  show ?case
  proof (cases "exec ev w")
    case (Next w1)
    with ok Cons.prems(2) Cons.IH [of w1] show ?thesis by simp
  qed (use ok in simp_all)
qed simp

lemma start_ok:
  assumes "1 \<le> most" shows "world_ok (start (new_prefetcher experts layers expert_size most g))"
proof -
  have "page_ok g (fresh_page expert_size)"
    by (simp add: page_ok_def fresh_page_def sources_ok_def segments_ok_def)
  then show ?thesis
    using assms by (intro world_okI) (simp_all add: start_def new_prefetcher_def resident_ok_def fresh_page_def)
qed

text \<open>
  C8: In every interleaving of callers and worker, whatever allocations fail, up to the first data race
  (another thread registers sources for, asks for or evicts the very expert that the worker transfers
  without the lock; such a run ends with \<open>Race\<close>): no access leaves its block and no empty list is read;
  at most \<open>max_resident\<close> experts are resident and at most one more has device memory; and every answer is
  null or leads to the registered weights of its expert. There is room for at least one resident, and
  sources are as long as they are said to be and registered before an expert is first loaded
  (\<open>obeys\<close>).
\<close>

theorem prefetch_serves_weights:
  assumes "1 \<le> most" "obeys evs (start (new_prefetcher experts layers expert_size most g))"
  shows "run evs (start (new_prefetcher experts layers expert_size most g)) \<noteq> Undefined \<and>
    (\<forall>w. run evs (start (new_prefetcher experts layers expert_size most g)) = Next w \<longrightarrow>
      int (card {x. on_device (pages (pf w) x)}) \<le> max_resident (pf w) \<and>
      int (card {x. device (pages (pf w) x) \<noteq> None}) \<le> max_resident (pf w) + 1 \<and>
      (\<forall>(x, c, _) \<in> set (returned w). c = None \<or> c = Some (weights (pages (pf w) x))))"
proof -
  let ?w = "start (new_prefetcher experts layers expert_size most g)"
  note ok = run_ok [OF start_ok [OF assms(1)] assms(2)]
  have "int (card {x. on_device (pages (pf w) x)}) \<le> max_resident (pf w) \<and>
      int (card {x. device (pages (pf w) x) \<noteq> None}) \<le> max_resident (pf w) + 1 \<and>
      (\<forall>(x, c, _) \<in> set (returned w). c = None \<or> c = Some (weights (pages (pf w) x)))"
    if "run evs ?w = Next w" for w
  proof -
    have w: "world_ok w" using ok that by blast
    then have res: "resident_ok (pf w)" by (simp add: world_ok_def)
    have eq: "{x. on_device (pages (pf w) x)} = set (lru (pf w))" using resident_lru [OF res] by blast
    have len: "int (length (lru (pf w))) \<le> max_resident (pf w)" "distinct (lru (pf w))"
      using res by (simp_all add: resident_ok_def)
    define extra where "extra = (case worker w of Fetched x \<Rightarrow> {x} | _ \<Rightarrow> {})"
    have "{x. device (pages (pf w) x) \<noteq> None} \<subseteq> set (lru (pf w)) \<union> extra"
      using world_ok_device [OF w] resident_lru [OF res] by (fastforce simp: extra_def)
    moreover have ex: "finite extra" "card extra \<le> 1" by (auto simp: extra_def split: worker.split)
    ultimately have "card {x. device (pages (pf w) x) \<noteq> None} \<le> card (set (lru (pf w)) \<union> extra)"
      by (intro card_mono) auto
    also have "\<dots> \<le> length (lru (pf w)) + 1"
      using card_Un_le [of "set (lru (pf w))" extra] distinct_card [OF len(2)] ex(2) by linarith
    finally have "int (card {x. device (pages (pf w) x) \<noteq> None}) \<le> max_resident (pf w) + 1"
      using len(1) by linarith
    moreover have "c = None \<or> c = Some (weights (pages (pf w) x))" if "(x, c, d) \<in> set (returned w)" for x c d
      using w that by (fastforce simp: world_ok_def answer_ok_def)
    ultimately show ?thesis
      using len distinct_card [OF len(2)] by (auto simp: eq)
  qed
  with ok show ?thesis by blast
qed

definition plenty :: "nat answers" where
  "plenty = \<lparr>malloc_ok = True, gpu_ok = True, raw = 7\<rparr>"

text \<open>Two callers and the worker at two experts of two bytes each, one resident at a time.\<close>

definition sample_run :: "nat event list" where
  "sample_run = [Set_Source (0, 0) (Some [1, 2]), Set_Segments (0, 1) [(Some [3], 1), (Some [4], 1)],
     Schedule 0 [0], Take, Fetch plenty, Publish, Call 0 (0, 0), Spin 0, Enter 0 plenty,
     Call 1 (0, 1), Spin 1, Enter 1 plenty]"

theorem prefetch_serves_weights_witness:
  "run sample_run (start (new_prefetcher 2 1 2 1 True)) \<noteq> Undefined \<and>
   (case run sample_run (start (new_prefetcher 2 1 2 1 True)) of
      Next w \<Rightarrow> returned w = [((0, 1), Some [3, 4], True), ((0, 0), Some [1, 2], True)] | _ \<Rightarrow> False)"
proof
  have "obeys sample_run (start (new_prefetcher 2 1 2 1 True))" by code_simp
  from prefetch_serves_weights [OF _ this]
  show "run sample_run (start (new_prefetcher 2 1 2 1 True)) \<noteq> Undefined" by simp
  show "case run sample_run (start (new_prefetcher 2 1 2 1 True)) of
      Next w \<Rightarrow> returned w = [((0, 1), Some [3, 4], True), ((0, 0), Some [1, 2], True)] | _ \<Rightarrow> False"
    by code_simp
qed

section \<open>What goes wrong\<close>

definition undefined_run :: "'b::zero event list \<Rightarrow> 'b world \<Rightarrow> bool" where
  "undefined_run evs w = (case run evs w of Undefined \<Rightarrow> True | _ \<Rightarrow> False)"

definition call :: "nat \<Rightarrow> expert \<Rightarrow> nat event list" where
  "call t x = [Call t x, Spin t, Enter t plenty]"

text \<open>
  Four ways to go wrong. Registering longer segments after the first load overruns the host block,
  which is never reallocated; a limit of 0 residents reads the front of an empty list; a caller that
  saw no transfer asks for an expert which the worker takes in the meantime; and room is made at the
  cost of the expert in transfer.
\<close>

definition race_run :: "'b::zero event list \<Rightarrow> 'b world \<Rightarrow> bool" where
  "race_run evs w = (case run evs w of Race \<Rightarrow> True | _ \<Rightarrow> False)"

lemma prefetch_goes_wrong:
  "undefined_run (Set_Segments (0, 0) [(Some [1, 2], 2)] # call 0 (0, 0) @ call 0 (0, 1) @
      Set_Segments (0, 0) [(Some [1, 2, 3, 4], 4)] # call 0 (0, 0))
     (start (new_prefetcher 2 1 2 1 False))"
  "undefined_run (call 0 (0, 0)) (start (new_prefetcher 2 1 2 0 False))"
  "race_run [Call 0 (0, 0), Spin 0, Schedule 0 [0], Take, Enter 0 plenty] (start (new_prefetcher 2 1 2 1 True))"
  "race_run (Schedule 0 [0] # call 0 (0, 0) @ [Take] @ call 0 (0, 1)) (start (new_prefetcher 2 1 2 1 True))"
  by code_simp+

end
