(* ===== verification/Log_Writer.thy ===== *)
theory Log_Writer
  imports Byte_Encoding
begin

text \<open>
  \<open>EventWriter\<close> of src/src/core/log_writer.cpp: the masked CRC-32C, the protobuf encoding of an event and the
  record that frames it in the event file. Floats are their bit patterns; the conversion of the clock to
  a double and the test of the validation loss are arguments.
\<close>

type_synonym bytes = "u8 list"

section \<open>The checksum\<close>

definition crc_poly :: u32 where
  "crc_poly = 0x82F63B78"

definition table_step :: "u32 \<Rightarrow> u32" where
  "table_step crc = drop_bit 1 crc XOR (crc_poly AND (- (crc AND 1)))"

definition crc_table :: "u32 list" where
  "crc_table = map (\<lambda>i. (table_step ^^ 8) (of_nat i)) [0..<256]"

definition crc_byte :: "u32 \<Rightarrow> u8 \<Rightarrow> u32" where
  "crc_byte crc b = drop_bit 8 crc XOR crc_table ! unat ((crc XOR ucast b) AND 0xFF)"

definition crc_mask :: "u32 \<Rightarrow> u32" where
  "crc_mask crc = (drop_bit 15 crc OR push_bit 17 crc) + 0xA282EAD8"

definition masked_crc32c :: "bytes \<Rightarrow> u32" where
  "masked_crc32c data = crc_mask (foldl crc_byte 0xFFFFFFFF data XOR 0xFFFFFFFF)"

section \<open>Protobuf\<close>

function encode_varint :: "u64 \<Rightarrow> bytes" where
  "encode_varint v = (if 0x7F < v then ucast ((v AND 0x7F) OR 0x80) # encode_varint (drop_bit 7 v) else [ucast v])"
  by pat_completeness auto
termination
proof (relation "measure unat")
  fix v :: u64 assume "0x7F < v"
  then have "127 < unat v" by (simp add: word_less_nat_alt)
  then have "unat v div 2 ^ 7 < unat v" by simp
  then show "(drop_bit 7 v, v) \<in> measure unat" by (simp add: drop_bit_eq_div unat_div_distrib)
qed simp

declare encode_varint.simps [simp del]

definition encode_field :: "nat \<Rightarrow> nat \<Rightarrow> bytes" where
  "encode_field field wire_type = encode_varint (of_nat (push_bit 3 field OR wire_type))"

definition encode_double_field :: "nat \<Rightarrow> u64 \<Rightarrow> bytes" where
  "encode_double_field field val = encode_field field 1 @ word_bytes 8 val"

definition encode_int64_field :: "nat \<Rightarrow> int \<Rightarrow> bytes" where
  "encode_int64_field field val = encode_field field 0 @ encode_varint (word_of_int val)"

definition encode_float_field :: "nat \<Rightarrow> u32 \<Rightarrow> bytes" where
  "encode_float_field field val = encode_field field 5 @ word_bytes 4 val"

definition encode_bytes_field :: "nat \<Rightarrow> bytes \<Rightarrow> bytes" where
  "encode_bytes_field field data = encode_field field 2 @ encode_varint (of_nat (length data)) @ data"

definition encode_submsg :: "nat \<Rightarrow> bytes \<Rightarrow> bytes" where
  "encode_submsg field msg = encode_field field 2 @ encode_varint (of_nat (length msg)) @ msg"

section \<open>Events\<close>

definition event_bytes :: "(int \<Rightarrow> u64) \<Rightarrow> bytes \<Rightarrow> u32 \<Rightarrow> int \<Rightarrow> int \<Rightarrow> bytes" where
  "event_bytes double_bits tag val step wall_time =
    (let sv = encode_bytes_field 1 tag @ encode_float_field 2 val;
         summary = encode_submsg 1 sv
     in encode_double_field 1 (double_bits wall_time) @ encode_int64_field 2 step @ encode_submsg 5 summary)"

definition event_record :: "bytes \<Rightarrow> bytes" where
  "event_record event =
    (let len = word_bytes 8 (of_nat (length event) :: u64) in
     len @ word_bytes 4 (masked_crc32c len) @ event @ word_bytes 4 (masked_crc32c event))"

text \<open>The file is \<open>None\<close> when it could not be opened.\<close>

definition write_event :: "(int \<Rightarrow> u64) \<Rightarrow> bytes \<Rightarrow> u32 \<Rightarrow> int \<Rightarrow> int \<Rightarrow> bytes option \<Rightarrow> bytes option" where
  "write_event double_bits tag val step wall_time file =
    map_option (\<lambda>bs. bs @ event_record (event_bytes double_bits tag val step wall_time)) file"

record metrics =
  loss :: u32
  perplexity :: u32
  val_loss :: u32
  val_perplexity :: u32
  learning_rate :: u32
  grad_norm :: u32
  tokens_per_sec :: int
  train_step :: int
  epoch :: int

text \<open>
  \<open>clock\<close> gives the time of each write, \<open>positive\<close> is the comparison with 0, \<open>float_bits\<close> the conversion of
  an integer to a float.
\<close>

definition write_scalars :: "(int \<Rightarrow> u64) \<Rightarrow> (int \<Rightarrow> u32) \<Rightarrow> (nat \<Rightarrow> int) \<Rightarrow> (u32 \<Rightarrow> bool) \<Rightarrow> metrics \<Rightarrow> int \<Rightarrow> bytes option \<Rightarrow> bytes option" where
  "write_scalars double_bits float_bits clock positive m step file =
    (let name = map of_char;
         entries = [(name ''loss'', loss m), (name ''perplexity'', perplexity m), (name ''grad_norm'', grad_norm m),
                    (name ''learning_rate'', learning_rate m), (name ''tokens_per_sec'', float_bits (tokens_per_sec m))] @
                   (if positive (val_loss m)
                    then [(name ''val_loss'', val_loss m), (name ''val_perplexity'', val_perplexity m)] else [])
     in fold (\<lambda>(i, tag, val). write_event double_bits tag val step (clock i)) (enumerate 0 entries) file)"

end
