(* ===== verification/Log_Correct.thy ===== *)
theory Log_Correct
  imports Log_Writer
begin

text \<open>
  The checksum against its bitwise definition and what it detects; readers of varints, protobuf fields and
  records, as the formats define them, and the round trip of an event file through them.
\<close>

section \<open>The table against the bitwise definition\<close>

text \<open>One bit of the division by the (reflected) polynomial.\<close>

definition crc_bit :: "u32 \<Rightarrow> u32" where
  "crc_bit c = (if bit c 0 then drop_bit 1 c XOR crc_poly else drop_bit 1 c)"

definition crc_bits :: "u32 \<Rightarrow> u8 \<Rightarrow> u32" where
  "crc_bits c b = (crc_bit ^^ 8) (c XOR ucast b)"

lemma table_step_bit: "table_step = crc_bit"
proof
  fix c :: u32
  have "c AND 1 = (if bit c 0 then 1 else 0)"
    by (simp add: and_one_eq bit_0 odd_iff_mod_2_eq_one)
  then show "table_step c = crc_bit c" by (simp add: table_step_def crc_bit_def)
qed

lemma crc_bit_linear: "crc_bit (a XOR b) = crc_bit a XOR crc_bit b"
  by (rule bit_word_eqI) (auto simp add: crc_bit_def bit_xor_iff bit_drop_bit_eq)

lemma crc_bit_pow_linear: "(crc_bit ^^ n) (a XOR b) = (crc_bit ^^ n) a XOR (crc_bit ^^ n) b"
  by (induction n) (simp_all add: crc_bit_linear)

lemma crc_bit_shift: "(\<And>i. i < n \<Longrightarrow> \<not> bit c i) \<Longrightarrow> (crc_bit ^^ n) c = drop_bit n c"
proof (induction n arbitrary: c)
  case (Suc n)
  have "crc_bit c = drop_bit 1 c" using Suc.prems [of 0] by (simp add: crc_bit_def)
  moreover have "(crc_bit ^^ n) (drop_bit 1 c) = drop_bit n (drop_bit 1 c)"
    using Suc.prems by (intro Suc.IH) (simp add: bit_drop_bit_eq)
  ultimately show ?case by (simp add: funpow_Suc_right del: funpow.simps)
qed simp

lemma crc_table_driven: "crc_byte c b = crc_bits c b"
proof -
  define x where "x = c XOR ucast b"
  have split: "x = (x AND mask 8) XOR (x AND NOT (mask 8))"
    by (rule bit_word_eqI) (auto simp: bit_xor_iff bit_and_iff bit_not_iff)
  have mask: "(0xFF :: u32) = mask 8" by (simp add: mask_eq_exp_minus_1)
  have "unat (x AND mask 8) = take_bit 8 (unat x)"
    by (simp only: take_bit_eq_mask [symmetric] unsigned_take_bit_eq)
  then have low: "unat (x AND mask 8) < 256"
    using take_bit_nat_less_exp [of 8 "unat x"] by simp
  have of_unat: "of_nat (unat y) = y" for y :: u32 by simp
  have "crc_table ! unat (x AND mask 8) = (crc_bit ^^ 8) (of_nat (unat (x AND mask 8)))"
    using low by (simp only: crc_table_def table_step_bit nth_map nth_upt length_upt) simp
  moreover have "(crc_bit ^^ 8) (x AND NOT (mask 8)) = drop_bit 8 (x AND NOT (mask 8))"
    by (rule crc_bit_shift) (simp add: bit_and_iff bit_not_iff bit_mask_iff)
  moreover have "drop_bit 8 (x AND NOT (mask 8)) = drop_bit 8 c"
    by (rule bit_word_eqI)
       (auto simp: bit_drop_bit_eq bit_and_iff bit_not_iff x_def bit_xor_iff bit_mask_iff bit_ucast_iff dest: bit_imp_le_length)
  ultimately show ?thesis
    using crc_bit_pow_linear [of 8 "x AND mask 8" "x AND NOT (mask 8)", folded split]
    by (simp only: crc_byte_def crc_bits_def x_def [symmetric] mask of_unat) (simp only: xor.commute)
qed

section \<open>What the checksum detects\<close>

lemma xor_cancel: "(a :: u32) XOR c = b XOR c \<longleftrightarrow> a = b"
proof
  assume "a XOR c = b XOR c"
  then have "(a XOR c) XOR c = (b XOR c) XOR c" by simp
  then show "a = b" by (simp only: xor.assoc xor_self_eq xor.right_neutral)
qed simp

lemma xor_zero: "(a :: u32) XOR b = 0 \<Longrightarrow> a = b"
  using xor_cancel [of a b b] by simp

lemma crc_bit_kernel: "crc_bit c = 0 \<Longrightarrow> c = 0"
proof -
  assume z: "crc_bit c = 0"
  have top: "\<not> bit (drop_bit 1 c) 31" using bit_imp_le_length [of c 32] by (auto simp: bit_drop_bit_eq)
  show "c = 0"
  proof (cases "bit c 0")
    case True
    then have "drop_bit 1 c = crc_poly" using z xor_zero [of "drop_bit 1 c" crc_poly] by (simp add: crc_bit_def)
    moreover have "bit crc_poly 31" by (simp add: crc_poly_def)
    ultimately show ?thesis using top by simp
  next
    case False
    then have "drop_bit 1 c = 0" using z by (simp add: crc_bit_def)
    then have "\<not> bit c (Suc n)" for n
      using bit_drop_bit_eq [of 1 c] by (metis bit_0_eq bot_apply comp_apply plus_1_eq_Suc bot_bool_def)
    with False have "\<not> bit c n" for n by (cases n) auto
    then show ?thesis by (simp add: bit_eq_iff)
  qed
qed

lemma inj_crc_bit: "inj crc_bit"
proof (rule injI)
  fix a b assume "crc_bit a = crc_bit b"
  then have "crc_bit (a XOR b) = 0" by (simp add: crc_bit_linear)
  then have "a XOR b = 0" by (rule crc_bit_kernel)
  then show "a = b" by (rule xor_zero)
qed

lemma inj_crc_pow: "inj (crc_bit ^^ n)"
  by (induction n) (simp_all add: inj_crc_bit inj_compose [unfolded comp_def])

lemma foldl_crc_inject: "foldl crc_bits a bs = foldl crc_bits b bs \<Longrightarrow> a = b"
proof (induction bs arbitrary: a b)
  case (Cons x bs)
  have "crc_bits a x = crc_bits b x" by (rule Cons.IH) (use Cons.prems in simp)
  then have "a XOR ucast x = b XOR ucast x"
    unfolding crc_bits_def by (rule injD [OF inj_crc_pow])
  then show ?case by (simp only: xor_cancel)
qed simp

lemma bytes_word_bound: "bit (bytes_word bs :: u32) i \<Longrightarrow> i < 8 * length bs"
proof (induction bs arbitrary: i)
  case (Cons b bs)
  from Cons.prems consider "bit b i" | "8 \<le> i" "bit (bytes_word bs :: u32) (i - 8)"
    by (auto simp: bit_or_iff bit_ucast_iff bit_push_bit_iff)
  then show ?case
  proof cases
    case 1
    then show ?thesis by (auto dest: bit_imp_le_length)
  next
    case 2
    with Cons.IH [of "i - 8"] show ?thesis by simp
  qed
qed simp

lemma bytes_word_inject:
  "length as = length bs \<Longrightarrow> length bs \<le> 4 \<Longrightarrow> (bytes_word as :: u32) = bytes_word bs \<Longrightarrow> as = bs"
proof (induction as bs rule: list_induct2)
  case (Cons a as b bs)
  have short: "length as \<le> 3" using Cons.hyps Cons.prems(1) by simp
  have "bit (bytes_word (a # as) :: u32) i = bit (bytes_word (b # bs) :: u32) i" for i
    using Cons.prems(2) by simp
  then have eq: "(bit a i \<and> i < 32) \<or> (8 \<le> i \<and> i < 32 \<and> bit (bytes_word as :: u32) (i - 8)) \<longleftrightarrow>
      (bit b i \<and> i < 32) \<or> (8 \<le> i \<and> i < 32 \<and> bit (bytes_word bs :: u32) (i - 8))" for i
    by (simp add: bit_or_iff bit_ucast_iff bit_push_bit_iff conj_commute)
  have "a = b"
  proof (rule bit_word_eqI)
    fix n assume "n < LENGTH(8)"
    with eq [of n] show "bit a n = bit b n" by simp
  qed
  moreover have "(bytes_word as :: u32) = bytes_word bs"
  proof (rule bit_word_eqI)
    fix n assume "n < LENGTH(32)"
    show "bit (bytes_word as :: u32) n = bit (bytes_word bs :: u32) n"
    proof (cases "n < 24")
      case True
      then have "\<not> bit a (n + 8)" "\<not> bit b (n + 8)" by (auto dest: bit_imp_le_length)
      with eq [of "n + 8"] True show ?thesis by simp
    next
      case False
      then show ?thesis using bytes_word_bound [of as n] bytes_word_bound [of bs n] short Cons.hyps by auto
    qed
  qed
  ultimately show ?case using Cons.IH short Cons.hyps by simp
qed simp

lemma foldl_crc_window:
  "length bs \<le> 4 \<Longrightarrow> foldl crc_bits s bs = (crc_bit ^^ (8 * length bs)) (s XOR bytes_word bs)"
proof (induction bs arbitrary: s)
  case (Cons b bs)
  let ?w = "bytes_word bs :: u32"
  have low: "\<not> bit (push_bit 8 ?w) i" if "i < 8" for i using that by (simp add: bit_push_bit_iff)
  have "drop_bit 8 (push_bit 8 ?w) = ?w"
  proof (rule bit_word_eqI)
    fix n assume "n < LENGTH(32)"
    show "bit (drop_bit 8 (push_bit 8 ?w)) n = bit ?w n"
      using bytes_word_bound [of bs n] Cons.prems by (auto simp: bit_drop_bit_eq bit_push_bit_iff)
  qed
  with crc_bit_shift [OF low] have push: "(crc_bit ^^ 8) (push_bit 8 ?w) = ?w" by simp
  have word: "(bytes_word (b # bs) :: u32) = ucast b XOR push_bit 8 ?w"
    by (rule bit_word_eqI) (auto simp: bit_or_iff bit_xor_iff bit_ucast_iff bit_push_bit_iff dest: bit_imp_le_length)
  have "foldl crc_bits s (b # bs) = (crc_bit ^^ (8 * length bs)) ((crc_bit ^^ 8) (s XOR ucast b) XOR ?w)"
    using Cons.IH [of "crc_bits s b"] Cons.prems by (simp add: crc_bits_def [of s b])
  also have "(crc_bit ^^ 8) (s XOR ucast b) XOR ?w = (crc_bit ^^ 8) (s XOR bytes_word (b # bs))"
    by (simp only: word xor.assoc [symmetric] crc_bit_pow_linear [of 8 "s XOR ucast b"] push)
  finally show ?case
    using funpow_add [of "8 * length bs" 8 crc_bit] by (simp add: add.commute [of 8])
qed simp

lemma crc_mask_inject: "crc_mask a = crc_mask b \<Longrightarrow> a = b"
proof (rule bit_word_eqI)
  fix n assume m: "crc_mask a = crc_mask b" and n: "n < LENGTH(32)"
  from m have "bit (drop_bit 15 a OR push_bit 17 a) i = bit (drop_bit 15 b OR push_bit 17 b) i" for i
    by (simp add: crc_mask_def)
  then have eq: "bit a (15 + i) \<or> (17 \<le> i \<and> i < 32 \<and> bit a (i - 17)) \<longleftrightarrow>
      bit b (15 + i) \<or> (17 \<le> i \<and> i < 32 \<and> bit b (i - 17))" for i
    by (simp add: bit_or_iff bit_drop_bit_eq bit_push_bit_iff conj_commute)
  show "bit a n = bit b n"
  proof (cases "15 \<le> n")
    case True
    moreover have "\<not> 17 \<le> n - 15" using n by simp
    ultimately show ?thesis using eq [of "n - 15"] by simp
  next
    case False
    then have "\<not> bit a (32 + n)" "\<not> bit b (32 + n)" by (auto dest: bit_imp_le_length)
    with eq [of "n + 17"] False show ?thesis by (simp add: add.commute)
  qed
qed

text \<open>
  C30: A change confined to at most four consecutive bytes of a record, of any bits in them, always
  changes its checksum.
\<close>

theorem crc_detects_window:
  assumes "length bs = length bs'" "length bs \<le> 4" "bs \<noteq> bs'"
  shows "masked_crc32c (pre @ bs @ post) \<noteq> masked_crc32c (pre @ bs' @ post)"
proof
  have fold: "foldl crc_byte s = foldl crc_bits s" for s
    by (rule ext, rule foldl_cong) (simp_all add: crc_table_driven)
  define s where "s = foldl crc_bits 0xFFFFFFFF pre"
  assume "masked_crc32c (pre @ bs @ post) = masked_crc32c (pre @ bs' @ post)"
  then have "foldl crc_bits (foldl crc_bits s bs) post = foldl crc_bits (foldl crc_bits s bs') post"
    unfolding masked_crc32c_def fold by (drule_tac crc_mask_inject) (simp only: xor_cancel foldl_append s_def)
  then have "foldl crc_bits s bs = foldl crc_bits s bs'" by (rule foldl_crc_inject)
  then have "(crc_bit ^^ (8 * length bs)) (s XOR bytes_word bs) = (crc_bit ^^ (8 * length bs)) (s XOR bytes_word bs')"
    using assms by (simp add: foldl_crc_window)
  then have "s XOR bytes_word bs = s XOR bytes_word bs'" by (rule injD [OF inj_crc_pow])
  then have "(bytes_word bs :: u32) = bytes_word bs'" by (metis xor.commute xor_cancel)
  with bytes_word_inject [OF assms(1)] assms show False by simp
qed

theorem crc_detects_window_witness:
  "masked_crc32c ([1, 2] @ [3, 4, 5] @ [6]) \<noteq> masked_crc32c ([1, 2] @ [3, 0, 1] @ [6])"
  by (rule crc_detects_window) simp_all

section \<open>Reading back\<close>

text \<open>A protobuf reader: varints, and fields by wire type.\<close>

fun decode_varint :: "bytes \<Rightarrow> (nat \<times> bytes) option" where
  "decode_varint [] = None"
| "decode_varint (b # bs) =
    (if b < 128 then Some (unat b, bs)
     else map_option (\<lambda>(v, rest). (unat (b AND 0x7F) + 128 * v, rest)) (decode_varint bs))"

datatype field = Varint nat | Fixed64 u64 | Fixed32 u32 | Bytes bytes

definition take_exact :: "nat \<Rightarrow> bytes \<Rightarrow> (bytes \<times> bytes) option" where
  "take_exact n bs = (if n \<le> length bs then Some (take n bs, drop n bs) else None)"

definition read_field :: "bytes \<Rightarrow> ((nat \<times> field) \<times> bytes) option" where
  "read_field bs =
    (case decode_varint bs of
       None \<Rightarrow> None
     | Some (key, bs) \<Rightarrow>
         let f = key div 8 in
         if key mod 8 = 0 then map_option (\<lambda>(v, r). ((f, Varint v), r)) (decode_varint bs)
         else if key mod 8 = 1 then map_option (\<lambda>(d, r). ((f, Fixed64 (bytes_word d)), r)) (take_exact 8 bs)
         else if key mod 8 = 5 then map_option (\<lambda>(d, r). ((f, Fixed32 (bytes_word d)), r)) (take_exact 4 bs)
         else if key mod 8 = 2 then
           (case decode_varint bs of
              None \<Rightarrow> None
            | Some (n, bs) \<Rightarrow> map_option (\<lambda>(d, r). ((f, Bytes d), r)) (take_exact n bs))
         else None)"

lemma decode_varint_shorter: "decode_varint bs = Some (v, rest) \<Longrightarrow> length rest < length bs"
proof (induction bs arbitrary: v)
  case (Cons b bs)
  show ?case
  proof (cases "b < 128")
    case False
    with Cons.prems obtain v' where "decode_varint bs = Some (v', rest)" by auto
    from Cons.IH [OF this] show ?thesis by simp
  qed (use Cons.prems in auto)
qed simp

lemma read_field_shorter: "read_field bs = Some (f, rest) \<Longrightarrow> length rest < length bs"
  by (auto simp: read_field_def Let_def take_exact_def split: option.splits if_splits
      dest!: decode_varint_shorter; linarith)

function read_fields :: "bytes \<Rightarrow> (nat \<times> field) list option" where
  "read_fields bs =
    (if bs = [] then Some []
     else (case read_field bs of
             None \<Rightarrow> None
           | Some (f, rest) \<Rightarrow> map_option ((#) f) (read_fields rest)))"
  by pat_completeness auto
termination
  by (relation "measure length") (auto dest: read_field_shorter)

declare read_fields.simps [simp del]

lemma varint_arith: "unat ((v AND 0x7F) OR 0x80 :: u64) = unat v mod 128 + 128"
proof -
  have top: "bit (0x80 :: u64) n \<longleftrightarrow> n = 7" for n
    using bit_exp_iff [of 7 n, where 'a = "64 word"] by auto
  have m: "v AND 0x7F = take_bit 7 v" by (simp add: take_bit_eq_mask mask_eq_exp_minus_1)
  have low: "unat (v AND 0x7F) = unat v mod 128"
    by (simp add: m take_bit_eq_mod unat_mod_distrib)
  have "(v AND 0x7F) OR 0x80 = (v AND 0x7F) + 0x80"
    unfolding m
  proof (rule disjunctive_add [symmetric])
    show "\<not> bit (take_bit 7 v) n \<or> \<not> bit (0x80 :: u64) n" for n
      unfolding top bit_take_bit_iff by simp
  qed
  then show ?thesis
    using low by (simp add: unat_word_ariths)
qed

lemma decode_encode_varint: "decode_varint (encode_varint v @ rest) = Some (unat v, rest)"
proof (induction v rule: encode_varint.induct)
  case (1 v)
  show ?case
  proof (cases "0x7F < v")
    case True
    let ?b = "ucast ((v AND 0x7F) OR 0x80) :: u8"
    have b: "unat ?b = unat v mod 128 + 128"
      by (simp add: varint_arith unsigned_ucast_eq take_bit_eq_mod)
    then have "\<not> ?b < 128" by (simp add: word_less_nat_alt)
    moreover have "unat (?b AND 0x7F) = unat v mod 128"
    proof -
      have "?b AND 0x7F = take_bit 7 ?b" by (simp add: take_bit_eq_mask mask_eq_exp_minus_1)
      then have "unat (?b AND 0x7F) = unat ?b mod 128"
        by (simp add: take_bit_eq_mod unat_mod_distrib)
      then show ?thesis using b by simp
    qed
    moreover have "unat v mod 128 + 128 * unat (drop_bit 7 v) = unat v"
      by (simp add: drop_bit_eq_div unat_div_distrib)
    ultimately show ?thesis
      using "1.IH" [OF True] True by (subst encode_varint.simps) simp
  next
    case False
    then have "unat v < 128" by (simp add: word_less_nat_alt)
    then have "unat (ucast v :: u8) = unat v" by (simp add: unsigned_ucast_eq take_bit_eq_mod)
    with \<open>unat v < 128\<close> False show ?thesis
      by (subst encode_varint.simps) (simp add: word_less_nat_alt)
  qed
qed

lemma key_word: "w < 8 \<Longrightarrow> push_bit 3 f OR w = 8 * f + (w :: nat)"
proof -
  assume w: "w < 8"
  have "push_bit 3 f OR w = push_bit 3 f + w"
  proof (rule disjunctive_add [symmetric])
    fix n
    have "take_bit 3 w = w" using w by (simp add: take_bit_nat_eq_self)
    then have "bit w n \<Longrightarrow> n < 3" by (metis bit_take_bit_iff)
    then show "\<not> bit (push_bit 3 f) n \<or> \<not> bit w n" by (auto simp: bit_push_bit_iff)
  qed
  then show ?thesis by (simp add: push_bit_eq_mult)
qed

lemma unat_of_nat_u64: "n < 2 ^ 64 \<Longrightarrow> unat (of_nat n :: u64) = n"
  by (simp add: unsigned_of_nat take_bit_nat_eq_self)

lemma decode_field_key:
  "w < 8 \<Longrightarrow> f < 2 ^ 60 \<Longrightarrow> decode_varint (encode_field f w @ rest) = Some (8 * f + w, rest)"
  proof -
  assume "w < 8" "f < 2 ^ 60"
  then have "8 * f + w < 2 ^ 64" by simp
  then show ?thesis
    using \<open>w < 8\<close> by (simp only: encode_field_def decode_encode_varint key_word unat_of_nat_u64)
qed

lemma read_field_key:
  assumes "w < 8" "f < 2 ^ 60"
  shows "read_field (encode_field f w @ bs) =
    (if w = 0 then map_option (\<lambda>(v, r). ((f, Varint v), r)) (decode_varint bs)
     else if w = 1 then map_option (\<lambda>(d, r). ((f, Fixed64 (bytes_word d)), r)) (take_exact 8 bs)
     else if w = 5 then map_option (\<lambda>(d, r). ((f, Fixed32 (bytes_word d)), r)) (take_exact 4 bs)
     else if w = 2 then
       (case decode_varint bs of
          None \<Rightarrow> None
        | Some (n, bs) \<Rightarrow> map_option (\<lambda>(d, r). ((f, Bytes d), r)) (take_exact n bs))
     else None)"
proof -
  have "(8 * f + w) div 8 = f" "(8 * f + w) mod 8 = w" using assms(1) by simp_all
  then show ?thesis
    using assms by (simp only: read_field_def decode_field_key option.case prod.case Let_def)
qed

lemma take_exact_append: "length d = n \<Longrightarrow> take_exact n (d @ rest) = Some (d, rest)"
  by (auto simp: take_exact_def)

lemma read_double_field: "f < 2 ^ 60 \<Longrightarrow> read_field (encode_double_field f d @ rest) = Some ((f, Fixed64 d), rest)"
  by (simp add: encode_double_field_def read_field_key take_exact_append bytes_word_u64)

lemma read_float_field: "f < 2 ^ 60 \<Longrightarrow> read_field (encode_float_field f d @ rest) = Some ((f, Fixed32 d), rest)"
  by (simp add: encode_float_field_def read_field_key take_exact_append bytes_word_u32)

lemma read_int64_field:
  "f < 2 ^ 60 \<Longrightarrow> read_field (encode_int64_field f i @ rest) = Some ((f, Varint (unat (word_of_int i :: u64))), rest)"
  by (simp add: encode_int64_field_def read_field_key decode_encode_varint)

lemma read_bytes_field:
  "f < 2 ^ 60 \<Longrightarrow> length d < 2 ^ 64 \<Longrightarrow> read_field (encode_bytes_field f d @ rest) = Some ((f, Bytes d), rest)"
  by (simp add: encode_bytes_field_def read_field_key decode_encode_varint take_exact_append
      unsigned_of_nat take_bit_nat_eq_self)

lemma submsg_bytes: "encode_submsg = encode_bytes_field"
  by (intro ext) (simp add: encode_submsg_def encode_bytes_field_def)

lemma read_fields_step: "read_field bs = Some (f, rest) \<Longrightarrow> read_fields bs = map_option ((#) f) (read_fields rest)"
  using read_field_shorter [of bs f rest] by (subst read_fields.simps) auto

lemma read_fields_Nil: "read_fields [] = Some []"
  by (simp add: read_fields.simps)

text \<open>The length of what is written.\<close>

lemma encode_varint_length: "unat v < 128 ^ Suc n \<Longrightarrow> length (encode_varint v) \<le> Suc n"
proof (induction n arbitrary: v)
  case 0
  then have "\<not> 0x7F < v" by (simp add: word_less_nat_alt)
  then show ?case by (subst encode_varint.simps) simp
next
  case (Suc n)
  have "unat v div 128 < 128 ^ Suc n" using Suc.prems by (simp add: less_mult_imp_div_less mult.commute)
  then have "unat (drop_bit 7 v) < 128 ^ Suc n" by (simp add: drop_bit_eq_div unat_div_distrib)
  from Suc.IH [OF this] show ?case by (subst encode_varint.simps) simp
qed

lemma encode_varint_short: "length (encode_varint v) \<le> 10"
proof -
  have "unat v < 2 ^ 64" using unsigned_less [of v] by simp
  also have "(2 :: nat) ^ 64 \<le> 128 ^ Suc 9" by simp
  finally show ?thesis using encode_varint_length [of v 9] by simp
qed

lemma encode_bytes_field_length: "length (encode_bytes_field f d) \<le> 20 + length d"
  using encode_varint_short [of "of_nat (push_bit 3 f OR 2)"] encode_varint_short [of "of_nat (length d)"]
  by (simp add: encode_bytes_field_def encode_field_def)

lemma encode_float_field_length: "length (encode_float_field f d) \<le> 14"
  using encode_varint_short [of "of_nat (push_bit 3 f OR 5)"]
  by (simp add: encode_float_field_def encode_field_def)

lemma encode_int64_field_length: "length (encode_int64_field f i) \<le> 20"
  using encode_varint_short [of "of_nat (push_bit 3 f OR 0)"] encode_varint_short [of "word_of_int i"]
  by (simp add: encode_int64_field_def encode_field_def)

lemma encode_double_field_length: "length (encode_double_field f d) \<le> 18"
  using encode_varint_short [of "of_nat (push_bit 3 f OR 1)"]
  by (simp add: encode_double_field_def encode_field_def)

section \<open>Event files\<close>

text \<open>A reader of the format: records whose two checksums agree, and the event in each.\<close>

definition read_checked :: "nat \<Rightarrow> bytes \<Rightarrow> (bytes \<times> bytes) option" where
  "read_checked n bs =
    (case take_exact n bs of
       None \<Rightarrow> None
     | Some (d, bs) \<Rightarrow>
         (case take_exact 4 bs of
            None \<Rightarrow> None
          | Some (crc, bs) \<Rightarrow> if bytes_word crc = masked_crc32c d then Some (d, bs) else None))"

definition read_record :: "bytes \<Rightarrow> (bytes \<times> bytes) option" where
  "read_record bs =
    (case read_checked 8 bs of
       None \<Rightarrow> None
     | Some (len, bs) \<Rightarrow> read_checked (unat (bytes_word len :: u64)) bs)"

lemma read_checked_shorter: "read_checked n bs = Some (d, rest) \<Longrightarrow> length rest < length bs"
  by (auto simp: read_checked_def take_exact_def split: option.splits if_splits; linarith)

lemma read_record_shorter: "read_record bs = Some (d, rest) \<Longrightarrow> length rest < length bs"
  by (auto simp: read_record_def split: option.splits dest!: read_checked_shorter)

function read_records :: "bytes \<Rightarrow> bytes list option" where
  "read_records bs =
    (if bs = [] then Some []
     else (case read_record bs of
             None \<Rightarrow> None
           | Some (d, rest) \<Rightarrow> map_option ((#) d) (read_records rest)))"
  by pat_completeness auto
termination
  by (relation "measure length") (auto dest: read_record_shorter)

declare read_records.simps [simp del]

definition field_of :: "bytes \<Rightarrow> nat \<Rightarrow> field option" where
  "field_of bs n = (case read_fields bs of None \<Rightarrow> None | Some fs \<Rightarrow> map_of fs n)"

definition read_event :: "bytes \<Rightarrow> (bytes \<times> u32 \<times> int \<times> u64) option" where
  "read_event bs =
    (case (field_of bs 1, field_of bs 2, field_of bs 5) of
       (Some (Fixed64 time), Some (Varint step), Some (Bytes summary)) \<Rightarrow>
         (case field_of summary 1 of
            Some (Bytes value) \<Rightarrow>
              (case (field_of value 1, field_of value 2) of
                 (Some (Bytes tag), Some (Fixed32 val)) \<Rightarrow> Some (tag, val, sint (of_nat step :: u64), time)
               | _ \<Rightarrow> None)
          | _ \<Rightarrow> None)
     | _ \<Rightarrow> None)"

definition read_log :: "bytes \<Rightarrow> (bytes \<times> u32 \<times> int \<times> u64) list option" where
  "read_log bs = (case read_records bs of None \<Rightarrow> None | Some ds \<Rightarrow> those (map read_event ds))"

lemma read_checked_append:
  "length d = n \<Longrightarrow> read_checked n (d @ word_bytes 4 (masked_crc32c d) @ rest) = Some (d, rest)"
  by (simp add: read_checked_def take_exact_append bytes_word_u32)

lemma read_record_append:
  assumes "length event < 2 ^ 64"
  shows "read_record (event_record event @ rest) = Some (event, rest)"
proof -
  have "unat (bytes_word (word_bytes 8 (of_nat (length event) :: u64)) :: u64) = length event"
    using assms by (simp only: bytes_word_u64 unat_of_nat_u64)
  then show ?thesis
    by (simp add: read_record_def event_record_def Let_def read_checked_append)
qed

lemma read_records_step: "read_record bs = Some (d, rest) \<Longrightarrow> read_records bs = map_option ((#) d) (read_records rest)"
  using read_record_shorter [of bs d rest] by (subst read_records.simps) auto

lemma field_of_step:
  "read_field bs = Some ((m, f), rest) \<Longrightarrow> read_fields rest \<noteq> None \<Longrightarrow>
    field_of bs n = (if n = m then Some f else field_of rest n)"
  by (auto simp: field_of_def read_fields_step)

lemma read_value:
  assumes "length tag < 2 ^ 60"
  shows "field_of (encode_bytes_field 1 tag @ encode_float_field 2 val) 1 = Some (Bytes tag)"
    "field_of (encode_bytes_field 1 tag @ encode_float_field 2 val) 2 = Some (Fixed32 val)"
proof -
  have last: "read_field (encode_float_field 2 val) = Some ((2, Fixed32 val), [])"
    using read_float_field [of 2 val "[]"] by simp
  have first: "read_field (encode_bytes_field 1 tag @ r) = Some ((1, Bytes tag), r)" for r
    using assms by (intro read_bytes_field) simp_all
  show "field_of (encode_bytes_field 1 tag @ encode_float_field 2 val) 1 = Some (Bytes tag)"
    "field_of (encode_bytes_field 1 tag @ encode_float_field 2 val) 2 = Some (Fixed32 val)"
    by (simp_all only: field_of_def read_fields_step [OF first] read_fields_step [OF last] read_fields_Nil
        option.map option.case) simp_all
qed

lemma read_summary:
  assumes "length msg < 2 ^ 63" "f < 2 ^ 60"
  shows "read_fields (encode_submsg f msg) = Some [(f, Bytes msg)]"
proof -
  have "read_field (encode_submsg f msg) = Some ((f, Bytes msg), [])"
    using assms read_bytes_field [of f msg "[]"] by (simp add: submsg_bytes)
  then show ?thesis by (simp add: read_fields_step read_fields_Nil)
qed

lemma sint_step: "- (2 ^ 31) \<le> i \<Longrightarrow> i < 2 ^ 31 \<Longrightarrow> sint (word_of_int i :: u64) = i"
  by (simp add: sint_sbintrunc' signed_take_bit_int_eq_self)

lemma event_lengths:
  assumes "length tag < 2 ^ 60"
  shows "length (encode_bytes_field 1 tag @ encode_float_field 2 val) < 2 ^ 63"
    "length (encode_submsg 1 (encode_bytes_field 1 tag @ encode_float_field 2 val)) < 2 ^ 63"
    "length (event_bytes db tag val step time) < 2 ^ 63"
proof -
  let ?sv = "encode_bytes_field 1 tag @ encode_float_field 2 val"
  have sv: "length ?sv \<le> 34 + length tag"
    using encode_bytes_field_length [of 1 tag] encode_float_field_length [of 2 val] by simp
  have sm: "length (encode_submsg 1 ?sv) \<le> 54 + length tag"
    using encode_bytes_field_length [of 1 ?sv] sv by (simp only: submsg_bytes)
  have "length (event_bytes db tag val step time) \<le> 112 + length tag"
    using encode_bytes_field_length [of 5 "encode_submsg 1 ?sv"] sm
      encode_double_field_length [of 1 "db time"] encode_int64_field_length [of 2 step]
    by (simp add: event_bytes_def Let_def submsg_bytes)
  then show "length (event_bytes db tag val step time) < 2 ^ 63" using assms by simp
  show "length ?sv < 2 ^ 63" using sv assms by simp
  show "length (encode_submsg 1 ?sv) < 2 ^ 63" using sm assms by simp
qed

lemma read_event_bytes:
  assumes "length tag < 2 ^ 60" "- (2 ^ 31) \<le> step" "step < 2 ^ 31"
  shows "read_event (event_bytes db tag val step time) = Some (tag, val, step, db time)"
proof -
  let ?sv = "encode_bytes_field 1 tag @ encode_float_field 2 val"
  let ?sm = "encode_submsg 1 ?sv"
  let ?step = "Varint (unat (word_of_int step :: u64))"
  have sm: "read_fields (encode_submsg 5 ?sm) = Some [(5, Bytes ?sm)]"
    using event_lengths [OF assms(1)] by (intro read_summary) simp_all
  have sv: "read_fields ?sm = Some [(1, Bytes ?sv)]"
    using event_lengths [OF assms(1)] by (intro read_summary) simp_all
  have one: "read_field (encode_double_field 1 d @ r) = Some ((1, Fixed64 d), r)" for d r
    by (rule read_double_field) simp
  have two: "read_field (encode_int64_field 2 step @ r) = Some ((2, ?step), r)" for r
    by (rule read_int64_field) simp
  have "read_fields (event_bytes db tag val step time) =
    Some [(1, Fixed64 (db time)), (2, ?step), (5, Bytes ?sm)]"
    by (simp only: event_bytes_def Let_def append_assoc read_fields_step [OF one] read_fields_step [OF two] sm option.map)
  then have "field_of (event_bytes db tag val step time) n =
      map_of [(1, Fixed64 (db time)), (2, ?step), (5, Bytes ?sm)] n" for n
    by (simp add: field_of_def)
  moreover have "field_of ?sm 1 = Some (Bytes ?sv)" by (simp only: field_of_def sv option.case) simp
  moreover have "sint (of_nat (unat (word_of_int step :: u64)) :: u64) = step"
    using assms sint_step [of step] by simp
  ultimately show ?thesis
    by (simp add: read_event_def read_value [OF assms(1), simplified])
qed

type_synonym scalar = "bytes \<times> u32 \<times> int \<times> int"

definition proper_scalar :: "scalar \<Rightarrow> bool" where
  "proper_scalar w = (case w of (tag, val, step, time) \<Rightarrow>
     length tag < 2 ^ 60 \<and> - (2 ^ 31) \<le> step \<and> step < 2 ^ 31)"

definition write_log :: "(int \<Rightarrow> u64) \<Rightarrow> scalar list \<Rightarrow> bytes option \<Rightarrow> bytes option" where
  "write_log db = fold (\<lambda>(tag, val, step, time). write_event db tag val step time)"

definition scalar_event :: "(int \<Rightarrow> u64) \<Rightarrow> scalar \<Rightarrow> bytes" where
  "scalar_event db w = (case w of (tag, val, step, time) \<Rightarrow> event_bytes db tag val step time)"

lemma write_log_bytes:
  "write_log db ws (Some bs) = Some (bs @ concat (map (\<lambda>w. event_record (scalar_event db w)) ws))"
proof (induction ws arbitrary: bs)
  case (Cons w ws)
  obtain tag val step time where "w = (tag, val, step, time)" by (rule prod_cases4)
  with Cons show ?case by (simp add: write_log_def write_event_def scalar_event_def)
qed (simp add: write_log_def)

lemma scalar_event_reads:
  assumes "proper_scalar w"
  shows "read_event (scalar_event db w) = Some (case w of (tag, val, step, time) \<Rightarrow> (tag, val, step, db time))"
    "length (scalar_event db w) < 2 ^ 64"
proof -
  obtain tag val step time where w: "w = (tag, val, step, time)" by (rule prod_cases4)
  with assms have p: "length tag < 2 ^ 60" "- (2 ^ 31) \<le> step" "step < 2 ^ 31" by (simp_all add: proper_scalar_def)
  from read_event_bytes [OF p]
  show "read_event (scalar_event db w) = Some (case w of (tag, val, step, time) \<Rightarrow> (tag, val, step, db time))"
    by (simp add: w scalar_event_def)
  have "length (event_bytes db tag val step time) < 2 ^ 63" by (rule event_lengths(3) [OF p(1)])
  then show "length (scalar_event db w) < 2 ^ 64" by (simp add: w scalar_event_def)
qed

lemma read_log_Cons:
  assumes "length event < 2 ^ 64" "read_event event = Some x"
  shows "read_log (event_record event @ bs) = map_option ((#) x) (read_log bs)"
proof -
  have "read_records (event_record event @ bs) = map_option ((#) event) (read_records bs)"
    by (rule read_records_step [OF read_record_append [OF assms(1)]])
  then show ?thesis
    using assms(2) by (cases "read_records bs") (simp_all add: read_log_def)
qed

text \<open>
  C19: An event file written by any sequence of calls of \<open>write_event\<close> is read back, by a reader that checks both
  checksums of each record and decodes its protobuf message, to exactly the tags, values, steps and times given.
\<close>

theorem log_round_trip:
  assumes "\<forall>w \<in> set ws. proper_scalar w"
  shows "\<exists>bs. write_log db ws (Some []) = Some bs \<and>
    read_log bs = Some (map (\<lambda>(tag, val, step, time). (tag, val, step, db time)) ws)"
proof -
  have "read_log (concat (map (\<lambda>w. event_record (scalar_event db w)) ws)) =
      Some (map (\<lambda>(tag, val, step, time). (tag, val, step, db time)) ws)"
    using assms
  proof (induction ws)
    case Nil
    show ?case by (simp add: read_log_def read_records.simps)
  next
    case (Cons w ws)
    then have "proper_scalar w" by simp
    note this = scalar_event_reads(2) [OF this, of db] scalar_event_reads(1) [OF this, of db]
    from read_log_Cons [OF this] Cons show ?case by simp
  qed
  then show ?thesis by (simp add: write_log_bytes)
qed

theorem log_round_trip_witness:
  "\<exists>bs. write_log of_int [([108, 111], 7, -1, 300), ([], 0, 2, 301)] (Some []) = Some bs \<and>
    read_log bs = Some [([108, 111], 7, -1, 300), ([], 0, 2, 301)]"
  using log_round_trip [of "[([108, 111], 7, -1, 300), ([], 0, 2, 301)]" of_int]
  by (simp add: proper_scalar_def)

text \<open>What \<open>write_scalars\<close> appends is such a sequence.\<close>

lemma write_scalars_log:
  "\<exists>ws. write_scalars db fb clock positive m step out = write_log db ws out \<and>
     map (\<lambda>(tag, val, s, t). (tag, val)) ws =
       [(map of_char ''loss'', loss m), (map of_char ''perplexity'', perplexity m),
        (map of_char ''grad_norm'', grad_norm m), (map of_char ''learning_rate'', learning_rate m),
        (map of_char ''tokens_per_sec'', fb (tokens_per_sec m))] @
       (if positive (val_loss m)
        then [(map of_char ''val_loss'', val_loss m), (map of_char ''val_perplexity'', val_perplexity m)] else [])"
proof -
  have step: "fold (\<lambda>(i, tag, val). write_event db tag val step (clock i)) es out =
      write_log db (map (\<lambda>(i, tag, val). (tag, val, step, clock i)) es) out" for es out
    by (induction es arbitrary: out) (auto simp: write_log_def)
  show ?thesis
    unfolding write_scalars_def Let_def step
    by (rule exI, rule conjI, rule refl) (simp add: enumerate_eq_zip upt_conv_Cons)
qed

text \<open>A record whose event has been damaged within four bytes is refused.\<close>

lemma damaged_record_refused:
  assumes "length bs = length bs'" "length bs \<le> 4" "bs \<noteq> bs'"
    and "length (pre @ bs @ post) < 2 ^ 64"
    and crc: "masked_crc32c (pre @ bs @ post) \<noteq> masked_crc32c (pre @ bs' @ post)"
  defines "len \<equiv> word_bytes 8 (of_nat (length (pre @ bs @ post)) :: u64)"
  shows "read_record (len @ word_bytes 4 (masked_crc32c len) @ (pre @ bs' @ post) @
    word_bytes 4 (masked_crc32c (pre @ bs @ post)) @ rest) = None"
proof -
  have "unat (bytes_word len :: u64) = length (pre @ bs' @ post)"
    using assms by (simp only: len_def bytes_word_u64 unat_of_nat_u64) simp
  moreover have "read_checked 8 (len @ word_bytes 4 (masked_crc32c len) @ r) = Some (len, r)" for r
    by (rule read_checked_append) (simp add: len_def)
  moreover have "take_exact n (d @ r) = Some (d, r)" if "n = length d" for n d and r :: bytes
    using that by (simp add: take_exact_append)
  ultimately show ?thesis
    using crc [symmetric] by (simp only: read_record_def read_checked_def option.case prod.case)
       (simp add: take_exact_append bytes_word_u32)
qed

end
