(* ===== verification/Barrier.thy ===== *)
theory Barrier
  imports Prelude
begin

text \<open>
  Threads that share one object of src/src/trainer/distributed.cpp (or the static buffer of
  src/src/trainer/zero_optimizer_core.cpp): each runs a list of critical sections and barriers. A
  section runs under the mutex, so it is one step; the barrier counts arrivals and has a generation, and
  a thread that is not the last sleeps until the generation is another one. Count and generation are
  \<open>int\<close>s: the count stays below the world size, a generation past \<open>INT_MAX\<close> is undefined. A thread is named by a
  number, a schedule is the list of the threads that step.
\<close>

section \<open>Threads and their barrier\<close>

text \<open>A section is given the shared state and the private one of its thread; \<open>None\<close> is an access
  out of bounds or a failed check, which ends the thread in its section.\<close>

datatype ('s, 'd) instr = Section "'s \<Rightarrow> 'd \<Rightarrow> ('s \<times> 'd) option" | Sync

record ('s, 'd) group =
  store :: 's
  barrier_count :: nat
  barrier_gen :: nat
  priv :: "nat \<Rightarrow> 'd"
  code :: "nat \<Rightarrow> ('s, 'd) instr list"
  waiting :: "nat \<Rightarrow> nat option"

datatype ('s, 'd) outcome = Blocked | Undefined | Next "('s, 'd) group"

definition barrier_enter :: "nat \<Rightarrow> nat \<Rightarrow> ('s, 'd) group \<Rightarrow> ('s, 'd) group" where
  "barrier_enter world_size t w =
    (if barrier_count w + 1 < world_size
     then w\<lparr>barrier_count := barrier_count w + 1, waiting := (waiting w)(t \<mapsto> barrier_gen w)\<rparr>
     else w\<lparr>barrier_count := 0, barrier_gen := barrier_gen w + 1, code := (code w)(t := tl (code w t))\<rparr>)"

definition barrier_overflows :: "nat \<Rightarrow> ('s, 'd) group \<Rightarrow> bool" where
  "barrier_overflows world_size w \<longleftrightarrow> \<not> barrier_count w + 1 < world_size \<and> 2 ^ 31 \<le> int (barrier_gen w) + 1"

definition barrier_wake :: "nat \<Rightarrow> nat \<Rightarrow> ('s, 'd) group \<Rightarrow> ('s, 'd) outcome" where
  "barrier_wake t g w =
    (if barrier_gen w \<noteq> g then Next (w\<lparr>waiting := (waiting w)(t := None), code := (code w)(t := tl (code w t))\<rparr>)
     else Blocked)"

definition thread_step :: "nat \<Rightarrow> nat \<Rightarrow> ('s, 'd) group \<Rightarrow> ('s, 'd) outcome" where
  "thread_step world_size t w =
    (case code w t of
       [] \<Rightarrow> Blocked
     | Section f # rest \<Rightarrow>
         (case f (store w) (priv w t) of
            None \<Rightarrow> Undefined
          | Some (s, d) \<Rightarrow> Next (w\<lparr>store := s, priv := (priv w)(t := d), code := (code w)(t := rest)\<rparr>))
     | Sync # rest \<Rightarrow>
         (case waiting w t of
            None \<Rightarrow> if barrier_overflows world_size w then Undefined else Next (barrier_enter world_size t w)
          | Some g \<Rightarrow> barrier_wake t g w))"

fun run_threads :: "nat \<Rightarrow> nat list \<Rightarrow> ('s, 'd) group \<Rightarrow> ('s, 'd) outcome" where
  "run_threads world_size [] w = Next w"
| "run_threads world_size (t # ts) w =
    (case thread_step world_size t w of Next w' \<Rightarrow> run_threads world_size ts w' | out \<Rightarrow> out)"

definition launch :: "'s \<Rightarrow> (nat \<Rightarrow> 'd) \<Rightarrow> (nat \<Rightarrow> ('s, 'd) instr list) \<Rightarrow> ('s, 'd) group" where
  "launch s d c = \<lparr>store = s, barrier_count = 0, barrier_gen = 0, priv = d, code = c, waiting = (\<lambda>_. None)\<rparr>"

section \<open>What a thread has left\<close>

text \<open>A thread that has been released and not yet woken is past its barrier.\<close>

definition left :: "('s, 'd) group \<Rightarrow> nat \<Rightarrow> ('s, 'd) instr list" where
  "left w t = (case waiting w t of
     None \<Rightarrow> code w t | Some g \<Rightarrow> if barrier_gen w \<noteq> g then tl (code w t) else code w t)"

definition barrier_ok :: "nat \<Rightarrow> nat \<Rightarrow> ('s, 'd) group \<Rightarrow> bool" where
  "barrier_ok n world_size w \<longleftrightarrow>
    (\<forall>t g. waiting w t = Some g \<longrightarrow> t < n \<and> (\<exists>rest. code w t = Sync # rest) \<and> g \<le> barrier_gen w) \<and>
    barrier_count w = card {t. waiting w t = Some (barrier_gen w)} \<and> barrier_count w < world_size"

definition syncs :: "('s, 'd) instr list \<Rightarrow> nat" where
  "syncs c = length (filter (\<lambda>i. case i of Sync \<Rightarrow> True | _ \<Rightarrow> False) c)"

lemma syncs_simps [simp]:
  "syncs [] = 0" "syncs (Sync # c) = Suc (syncs c)" "syncs (Section f # c) = syncs c" "syncs (c @ c') = syncs c + syncs c'"
  by (simp_all add: syncs_def)

lemma barrier_ok_waiting: "barrier_ok n world w \<Longrightarrow> waiting w t = Some g \<Longrightarrow>
    t < n \<and> (\<exists>rest. code w t = Sync # rest) \<and> g \<le> barrier_gen w"
  unfolding barrier_ok_def by blast

lemma barrier_ok_count: "barrier_ok n world w \<Longrightarrow>
    barrier_count w = card {t. waiting w t = Some (barrier_gen w)} \<and> barrier_count w < world"
  unfolding barrier_ok_def by blast

lemma launch_ok: "0 < world \<Longrightarrow> barrier_ok n world (launch s d c)"
  by (simp add: barrier_ok_def launch_def)

lemma left_launch: "left (launch s d c) = c"
  by (simp add: left_def launch_def fun_eq_iff)

lemma waiters_finite: "barrier_ok n world w \<Longrightarrow> finite {t. waiting w t = Some g}"
  by (rule finite_subset [of _ "{..<n}"]) (auto dest: barrier_ok_waiting)

lemma step_section:
  "code w t = Section f # rest \<Longrightarrow> thread_step world t w =
    (case f (store w) (priv w t) of
       None \<Rightarrow> Undefined
     | Some (s, d) \<Rightarrow> Next (w\<lparr>store := s, priv := (priv w)(t := d), code := (code w)(t := rest)\<rparr>))"
  by (simp add: thread_step_def)

lemma step_sync:
  "code w t = Sync # rest \<Longrightarrow> thread_step world t w =
    (case waiting w t of None \<Rightarrow> if barrier_overflows world w then Undefined else Next (barrier_enter world t w) | Some g \<Rightarrow> barrier_wake t g w)"
  by (simp add: thread_step_def)

text \<open>The three ways in which a step leaves the barrier in order: a section, an arrival and a wake-up change
  nothing but their thread; the last arrival releases all.\<close>

lemma section_ok:
  assumes "barrier_ok n world w" "code w t = Section f # rest"
  shows "waiting w t = None"
    "barrier_ok n world (w\<lparr>store := s, priv := p, code := (code w)(t := rest)\<rparr>)"
    "left (w\<lparr>store := s, priv := p, code := (code w)(t := rest)\<rparr>) = (left w)(t := rest)"
    "left w t = Section f # rest"
proof -
  show none: "waiting w t = None"
    using barrier_ok_waiting [OF assms(1), of t] assms(2) by (cases "waiting w t") auto
  show "barrier_ok n world (w\<lparr>store := s, priv := p, code := (code w)(t := rest)\<rparr>)"
    using assms none unfolding barrier_ok_def by auto
  show "left (w\<lparr>store := s, priv := p, code := (code w)(t := rest)\<rparr>) = (left w)(t := rest)"
    using none by (auto simp: left_def fun_eq_iff split: option.split)
  show "left w t = Section f # rest" using none assms(2) by (simp add: left_def)
qed

lemma wake_ok:
  assumes "barrier_ok n world w" "code w t = Sync # rest" "waiting w t = Some g" "barrier_gen w \<noteq> g"
  defines "w' \<equiv> w\<lparr>waiting := (waiting w)(t := None), code := (code w)(t := tl (code w t))\<rparr>"
  shows "barrier_ok n world w'" "left w' = left w"
proof -
  have "{u. waiting w' u = Some (barrier_gen w')} = {u. waiting w u = Some (barrier_gen w)}"
    using assms by (auto simp: w'_def split: if_splits)
  then show "barrier_ok n world w'"
    using assms(1) barrier_ok_waiting [OF assms(1)] unfolding barrier_ok_def by (auto simp: w'_def)
  show "left w' = left w"
    using assms(2-4) by (auto simp: left_def fun_eq_iff w'_def split: option.split)
qed

lemma arrive_ok:
  assumes "barrier_ok n world w" "code w t = Sync # rest" "waiting w t = None" "t < n"
    and "barrier_count w + 1 < world"
  shows "barrier_ok n world (barrier_enter world t w)" "left (barrier_enter world t w) = left w"
proof -
  have "{u. u = t \<or> waiting w u = Some (barrier_gen w)} = insert t {u. waiting w u = Some (barrier_gen w)}" by auto
  then have "card {u. u = t \<or> waiting w u = Some (barrier_gen w)} = barrier_count w + 1"
    using waiters_finite [OF assms(1)] assms(3) barrier_ok_count [OF assms(1)] by simp
  moreover have "{u. waiting (barrier_enter world t w) u = Some (barrier_gen w)} =
      {u. u = t \<or> waiting w u = Some (barrier_gen w)}"
    using assms(5) by (auto simp: barrier_enter_def)
  moreover have "t' < n \<and> (\<exists>rest. code w t' = Sync # rest) \<and> g \<le> barrier_gen w"
    if "waiting (barrier_enter world t w) t' = Some g" for t' g
    using that assms barrier_ok_waiting [OF assms(1), of t'] by (auto simp: barrier_enter_def split: if_splits)
  ultimately show "barrier_ok n world (barrier_enter world t w)"
    using assms(5) unfolding barrier_ok_def by (auto simp: barrier_enter_def)
  show "left (barrier_enter world t w) = left w"
    using assms by (auto simp: left_def barrier_enter_def fun_eq_iff split: option.split)
qed

lemma release_all_ok:
  assumes "barrier_ok n world w" "code w t = Sync # rest" "waiting w t = None" "t < n" "n \<le> world"
    and "\<not> barrier_count w + 1 < world"
  shows "barrier_ok n world (barrier_enter world t w)"
    "\<forall>u < n. \<exists>rest. left w u = Sync # rest"
    "left (barrier_enter world t w) = (\<lambda>u. if u < n then tl (left w u) else left w u)"
    "n = world"
proof -
  have sub: "{u. waiting w u = Some (barrier_gen w)} \<subseteq> {..<n} - {t}"
    using barrier_ok_waiting [OF assms(1)] assms(3) by auto
  have card: "barrier_count w = card {u. waiting w u = Some (barrier_gen w)}" "barrier_count w < world"
    using barrier_ok_count [OF assms(1)] by auto
  have n: "card ({..<n} - {t}) = n - 1" using assms(4) by simp
  have "card {u. waiting w u = Some (barrier_gen w)} \<le> n - 1"
    using card_mono [OF _ sub] n by simp
  with card assms(4-6) show world: "n = world" by linarith
  have all: "{u. waiting w u = Some (barrier_gen w)} = {..<n} - {t}"
    by (rule card_subset_eq) (use sub n card world assms(4,6) in auto)
  then have at_gen: "waiting w u = Some (barrier_gen w)" if "u < n" "u \<noteq> t" for u using that by blast
  have none: "waiting w u = None" if "\<not> u < n" for u
    using barrier_ok_waiting [OF assms(1), of u] that by (cases "waiting w u") auto
  show left: "\<forall>u < n. \<exists>rest. left w u = Sync # rest"
  proof (intro allI impI)
    fix u assume "u < n"
    show "\<exists>rest. left w u = Sync # rest"
    proof (cases "u = t")
      case True
      then show ?thesis using assms(2,3) by (simp add: left_def)
    next
      case False
      with \<open>u < n\<close> at_gen have "waiting w u = Some (barrier_gen w)" by blast
      with barrier_ok_waiting [OF assms(1) this] show ?thesis by (simp add: left_def)
    qed
  qed
  let ?w = "barrier_enter world t w"
  have w: "?w = w\<lparr>barrier_count := 0, barrier_gen := barrier_gen w + 1, code := (code w)(t := tl (code w t))\<rparr>"
    using assms(6) by (simp add: barrier_enter_def)
  have "waiting w u \<noteq> Some (Suc (barrier_gen w))" for u
    using barrier_ok_waiting [OF assms(1), of u "Suc (barrier_gen w)"] by auto
  then show "barrier_ok n world ?w"
    using assms(1,3) barrier_ok_waiting [OF assms(1)] card unfolding barrier_ok_def w by (auto simp: le_Suc_eq)
  show "left ?w = (\<lambda>u. if u < n then tl (left w u) else left w u)"
  proof
    fix u
    show "left ?w u = (if u < n then tl (left w u) else left w u)"
    proof (cases "u = t")
      case True
      then show ?thesis using assms(3,4) by (simp add: left_def w)
    next
      case False
      then show ?thesis using at_gen [of u] none [of u] by (cases "u < n") (simp_all add: left_def w)
    qed
  qed
qed

section \<open>Invariants in phases\<close>

text \<open>
  \<open>J g s d c\<close>: after \<open>g\<close> releases, with shared state \<open>s\<close>, private states \<open>d\<close>, and what each thread has left,
  \<open>c\<close>. It must be kept by every section that a thread may run and by the release, at which all threads
  stand at a barrier. Arrivals and wake-ups do not concern it.
\<close>

locale barrier_phases =
  fixes n :: nat
    and J :: "nat \<Rightarrow> 's \<Rightarrow> (nat \<Rightarrow> 'd) \<Rightarrow> (nat \<Rightarrow> ('s, 'd) instr list) \<Rightarrow> bool"
  assumes section_kept: "J g s d c \<Longrightarrow> t < n \<Longrightarrow> c t = Section f # rest \<Longrightarrow>
      \<exists>s' d'. f s (d t) = Some (s', d') \<and> J g s' (d(t := d')) (c(t := rest))"
    and release_kept: "J g s d c \<Longrightarrow> \<forall>t < n. \<exists>rest. c t = Sync # rest \<Longrightarrow>
      J (Suc g) s d (\<lambda>t. if t < n then tl (c t) else c t)"
    and balanced: "J g s d c \<Longrightarrow> t < n \<Longrightarrow> u < n \<Longrightarrow> syncs (c t) = syncs (c u)"
begin

definition good :: "nat \<Rightarrow> ('s, 'd) group \<Rightarrow> bool" where
  "good world w \<longleftrightarrow> barrier_ok n world w \<and> J (barrier_gen w) (store w) (priv w) (left w) \<and>
    (\<forall>t < n. int (barrier_gen w + syncs (left w t)) < 2 ^ 31)"

lemma good_step:
  assumes "good world w" "t < n" "n \<le> world"
  shows "thread_step world t w \<noteq> Undefined" "thread_step world t w = Next w' \<Longrightarrow> good world w'"
proof -
  have ok: "barrier_ok n world w" and J: "J (barrier_gen w) (store w) (priv w) (left w)"
    and few: "\<forall>t < n. int (barrier_gen w + syncs (left w t)) < 2 ^ 31"
    using assms(1) by (simp_all add: good_def)
  have "thread_step world t w \<noteq> Undefined \<and> (thread_step world t w = Next w' \<longrightarrow> good world w')"
  proof (cases "code w t")
    case Nil
    then show ?thesis by (simp add: thread_step_def)
  next
    case (Cons i rest)
    show ?thesis
    proof (cases i)
      case (Section f)
      with Cons have code: "code w t = Section f # rest" by simp
      obtain s' d' where f: "f (store w) (priv w t) = Some (s', d')"
        and J': "J (barrier_gen w) s' ((priv w)(t := d')) ((left w)(t := rest))"
        using section_kept [OF J assms(2) section_ok(4) [OF ok code]] by blast
      show ?thesis
        using section_ok(2,3) [OF ok code] J' few few [rule_format, OF assms(2), unfolded section_ok(4) [OF ok code]]
        by (auto simp: step_section [OF code] f good_def)
    next
      case Sync
      with Cons have code: "code w t = Sync # rest" by simp
      show ?thesis
      proof (cases "waiting w t")
        case None
        show ?thesis
        proof (cases "barrier_count w + 1 < world")
          case True
          note arrive_ok [OF ok code None assms(2) True]
          moreover have "store (barrier_enter world t w) = store w" "priv (barrier_enter world t w) = priv w"
            "barrier_gen (barrier_enter world t w) = barrier_gen w"
            using True by (simp_all add: barrier_enter_def)
          moreover have "\<not> barrier_overflows world w" using True by (simp add: barrier_overflows_def)
          ultimately show ?thesis using J None few by (auto simp: step_sync [OF code] good_def)
        next
          case False
          note release = release_all_ok(1-3) [OF ok code None assms(2,3) False]
          have later: "int (Suc (barrier_gen w) + syncs (tl (left w u))) < 2 ^ 31" if "u < n" for u
          proof -
            from release(2) that obtain rest where "left w u = Sync # rest" by blast
            with few that show ?thesis by (metis add_Suc_shift list.sel(3) syncs_simps(2))
          qed
          then have small: "\<not> barrier_overflows world w"
            using assms(2) by (fastforce simp: barrier_overflows_def)
          note release
          moreover have "store (barrier_enter world t w) = store w" "priv (barrier_enter world t w) = priv w"
            "barrier_gen (barrier_enter world t w) = Suc (barrier_gen w)"
            using False by (simp_all add: barrier_enter_def)
          ultimately show ?thesis
            using release_kept [OF J] None later small by (auto simp: step_sync [OF code] good_def)
        qed
      next
        case (Some g)
        show ?thesis
        proof (cases "barrier_gen w = g")
          case True
          then show ?thesis using Some by (simp add: step_sync [OF code] barrier_wake_def)
        next
          case False
          then show ?thesis
            using wake_ok [OF ok code Some False] J Some few by (auto simp: step_sync [OF code] barrier_wake_def good_def)
        qed
      qed
    qed
  qed
  then show "thread_step world t w \<noteq> Undefined" "thread_step world t w = Next w' \<Longrightarrow> good world w'" by auto
qed

lemma good_run:
  assumes "good world w" "set ts \<subseteq> {..<n}" "n \<le> world"
  shows "run_threads world ts w \<noteq> Undefined" "run_threads world ts w = Next w' \<Longrightarrow> good world w'"
  using assms(1,2)
proof (induction ts arbitrary: w)
  case (Cons t ts)
  {
    case 1
    show ?case
      using good_step [OF 1(1) _ assms(3), of t] Cons.IH(1) 1(2) by (auto split: outcome.splits)
  next
    case 2
    show ?case
      using good_step [OF 2(2) _ assms(3), of t] Cons.IH(2) 2(1,3) by (auto split: outcome.splits)
  }
qed simp_all

text \<open>As long as a thread is not done, some thread can step.\<close>

lemma good_progress:
  assumes "good n w" "t < n" "code w t \<noteq> []"
  shows "\<exists>u < n. thread_step n u w \<noteq> Blocked"
proof (rule ccontr)
  assume "\<not> ?thesis"
  then have blocked: "thread_step n u w = Blocked" if "u < n" for u using that by blast
  have ok: "barrier_ok n n w" and J: "J (barrier_gen w) (store w) (priv w) (left w)"
    using assms(1) by (simp_all add: good_def)
  have at: "waiting w u = Some (barrier_gen w)" if u: "u < n" and "code w u \<noteq> []" for u
  proof -
    from that(2) obtain i rest where c: "code w u = i # rest" by (cases "code w u") auto
    show ?thesis
    proof (cases i)
      case (Section f)
      with blocked [OF u] c show ?thesis by (auto simp: thread_step_def split: option.splits)
    next
      case Sync
      with blocked [OF u] c show ?thesis
        by (auto simp: thread_step_def barrier_wake_def split: option.splits if_splits)
    qed
  qed
  have "0 < syncs (left w t)"
    using at [OF assms(2,3)] barrier_ok_waiting [OF ok at [OF assms(2,3)]] by (auto simp: left_def)
  then have pos: "0 < syncs (left w u)" if "u < n" for u
    using balanced [OF J assms(2) that] by simp
  have "code w u \<noteq> []" if "u < n" for u
    using pos [OF that] by (auto simp: left_def split: option.splits if_splits)
  then have "{..<n} \<subseteq> {u. waiting w u = Some (barrier_gen w)}" using at by auto
  then have "card {..<n} \<le> card {u. waiting w u = Some (barrier_gen w)}"
    by (rule card_mono [OF waiters_finite [OF ok]])
  then show False using barrier_ok_count [OF ok] by simp
qed

end

section \<open>Every schedule ends\<close>

text \<open>What remains to be done: two for an instruction, one for a thread that has arrived.\<close>

definition work :: "nat \<Rightarrow> ('s, 'd) group \<Rightarrow> nat" where
  "work n w = (\<Sum>t<n. 2 * length (code w t) - (if waiting w t = None then 0 else 1))"

lemma sum_less_at:
  fixes f g :: "nat \<Rightarrow> nat"
  assumes "t < n" "f t < g t" "\<And>u. u \<noteq> t \<Longrightarrow> f u = g u"
  shows "sum f {..<n} < sum g {..<n}"
proof (rule sum_strict_mono_ex1)
  show "\<forall>u\<in>{..<n}. f u \<le> g u" using assms(2,3) by (metis less_imp_le order_refl)
  show "\<exists>u\<in>{..<n}. f u < g u" using assms(1,2) by auto
qed simp

lemma step_work:
  assumes "barrier_ok n world w" "t < n" "thread_step world t w = Next w'"
  shows "work n w' < work n w"
proof -
  have "(2 * length (code w' t) - (if waiting w' t = None then 0 else 1)) <
      (2 * length (code w t) - (if waiting w t = None then 0 else (1::nat))) \<and>
      (\<forall>u. u \<noteq> t \<longrightarrow> code w' u = code w u \<and> waiting w' u = waiting w u)"
  proof (cases "code w t")
    case Nil
    then show ?thesis using assms(3) by (simp add: thread_step_def)
  next
    case (Cons i rest)
    show ?thesis
    proof (cases i)
      case (Section f)
      with Cons have code: "code w t = Section f # rest" by simp
      then show ?thesis
        using assms(3) section_ok(1) [OF assms(1) code] by (auto simp: step_section [OF code] split: option.splits)
    next
      case Sync
      with Cons have code: "code w t = Sync # rest" by simp
      then show ?thesis
        using assms(3) by (auto simp: step_sync [OF code] barrier_enter_def barrier_wake_def split: option.splits if_splits)
    qed
  qed
  then show ?thesis unfolding work_def by (intro sum_less_at [OF assms(2)]) auto
qed

lemma launch_work: "work n (launch s d c) = (\<Sum>t<n. 2 * length (c t))"
  by (simp add: work_def launch_def)

context barrier_phases
begin

lemma good_run_work:
  assumes "good world w" "set ts \<subseteq> {..<n}" "n \<le> world" "run_threads world ts w = Next w'"
  shows "work n w' + length ts \<le> work n w"
  using assms(1,2,4)
proof (induction ts arbitrary: w)
  case (Cons t ts)
  then obtain w1 where step: "thread_step world t w = Next w1" and run: "run_threads world ts w1 = Next w'"
    by (auto split: outcome.splits)
  have t: "t < n" and ts: "set ts \<subseteq> {..<n}" using Cons.prems(2) by auto
  have "work n w1 < work n w"
    using Cons.prems(1) step_work [OF _ t step] by (simp add: good_def)
  moreover have "work n w' + length ts \<le> work n w1"
    using Cons.IH [OF good_step(2) [OF Cons.prems(1) t assms(3) step] ts run] .
  ultimately show ?case by simp
qed simp

end

section \<open>Too few threads\<close>

text \<open>With fewer threads than the world size nobody is ever released.\<close>

lemma lonely_step:
  assumes "barrier_ok n world w" "t < n" "n < world" "thread_step world t w = Next w'" "barrier_gen w = 0"
  shows "barrier_ok n world w' \<and> barrier_gen w' = 0 \<and> (\<forall>u. syncs (code w' u) = syncs (code w u))"
proof -
  have gen: "g = 0" if "waiting w u = Some g" for u g
    using barrier_ok_waiting [OF assms(1) that] assms(5) by simp
  show ?thesis
  proof (cases "code w t")
    case Nil
    then show ?thesis using assms(4) by (simp add: thread_step_def)
  next
    case (Cons i rest)
    show ?thesis
    proof (cases i)
      case (Section f)
      with Cons have code: "code w t = Section f # rest" by simp
      show ?thesis
        using assms(4,5) section_ok(2) [OF assms(1) code] code by (auto simp: step_section [OF code] split: option.splits)
    next
      case Sync
      with Cons have code: "code w t = Sync # rest" by simp
      show ?thesis
      proof (cases "waiting w t")
        case None
        have "barrier_count w + 1 < world"
          using release_all_ok(4) [OF assms(1) code None assms(2)] assms(3) by linarith
        from arrive_ok(1) [OF assms(1) code None assms(2) this] this show ?thesis
          using assms(4,5) None by (auto simp: step_sync [OF code] barrier_enter_def barrier_overflows_def)
      next
        case (Some g)
        then show ?thesis
          using assms(4,5) gen [OF Some] by (simp add: step_sync [OF code] barrier_wake_def)
      qed
    qed
  qed
qed

lemma lonely_run:
  assumes "barrier_ok n world w" "set ts \<subseteq> {..<n}" "n < world" "run_threads world ts w = Next w'" "barrier_gen w = 0"
  shows "syncs (code w' u) = syncs (code w u)"
  using assms
proof (induction ts arbitrary: w)
  case (Cons t ts)
  from Cons.prems obtain w1 where step: "thread_step world t w = Next w1" and run: "run_threads world ts w1 = Next w'"
    by (auto split: outcome.splits)
  have "t < n" "set ts \<subseteq> {..<n}" using Cons.prems(2) by auto
  note lonely_step [OF Cons.prems(1) \<open>t < n\<close> assms(3) step Cons.prems(5)]
  with Cons.IH [of w1] \<open>set ts \<subseteq> {..<n}\<close> assms(3) run show ?case by simp
qed simp

section \<open>Threads that do not depend on each other\<close>

text \<open>If what the sections of a thread do to its private state does not depend on the shared one, the thread
  ends as if it ran alone.\<close>

fun alone :: "'s \<Rightarrow> ('s, 'd) instr list \<Rightarrow> 'd \<Rightarrow> 'd option" where
  "alone s [] d = Some d"
| "alone s (Sync # rest) d = alone s rest d"
| "alone s (Section f # rest) d = (case f s d of None \<Rightarrow> None | Some (s', d') \<Rightarrow> alone s rest d')"

definition independent :: "('s, 'd) instr \<Rightarrow> bool" where
  "independent i \<longleftrightarrow> (case i of Sync \<Rightarrow> True | Section f \<Rightarrow>
    (\<forall>s s' d. map_option snd (f s d) = map_option snd (f s' d)))"

lemma independentD:
  assumes "independent (Section f)" "f s d = Some (s1, d')"
  shows "\<exists>s2. f s' d = Some (s2, d')"
proof -
  have "map_option snd (f s d) = map_option snd (f s' d)" using assms(1) by (simp add: independent_def)
  then have "map_option snd (f s' d) = Some d'" using assms(2) by simp
  then show ?thesis by (auto simp: map_option_eq_Some)
qed

lemma alone_step:
  assumes "thread_step world t w = Next w'" "\<forall>i \<in> set (code w u). independent i"
  shows "alone s (code w' u) (priv w' u) = alone s (code w u) (priv w u) \<and> set (code w' u) \<subseteq> set (code w u)"
proof (cases "u = t")
  case False
  with assms(1) show ?thesis
    by (auto simp: thread_step_def barrier_enter_def barrier_wake_def split: list.splits instr.splits option.splits if_splits)
next
  case True
  show ?thesis
  proof (cases "code w t")
    case Nil
    then show ?thesis using assms(1) by (simp add: thread_step_def)
  next
    case (Cons i rest)
    show ?thesis
    proof (cases i)
      case (Section f)
      with Cons have code: "code w t = Section f # rest" by simp
      then obtain s1 d1 where f: "f (store w) (priv w t) = Some (s1, d1)"
        using assms(1) by (auto simp: step_section [OF code] split: option.splits)
      have "independent (Section f)" using assms(2) True code by simp
      from independentD [OF this f, of s] obtain s2 where "f s (priv w t) = Some (s2, d1)" by blast
      then show ?thesis using assms(1) True code f by (auto simp: step_section [OF code])
    next
      case Sync
      with Cons have code: "code w t = Sync # rest" by simp
      then show ?thesis using assms(1) True
        by (auto simp: step_sync [OF code] barrier_enter_def barrier_wake_def split: option.splits if_splits)
    qed
  qed
qed

lemma alone_run:
  assumes "run_threads world ts w = Next w'" "\<forall>i \<in> set (code w u). independent i"
  shows "alone s (code w' u) (priv w' u) = alone s (code w u) (priv w u)"
  using assms
proof (induction ts arbitrary: w)
  case (Cons t ts)
  then obtain w1 where step: "thread_step world t w = Next w1" and run: "run_threads world ts w1 = Next w'"
    by (auto split: outcome.splits)
  from alone_step [OF step Cons.prems(2), of s] have "alone s (code w1 u) (priv w1 u) = alone s (code w u) (priv w u)"
    and "\<forall>i \<in> set (code w1 u). independent i" using Cons.prems(2) by auto
  with Cons.IH [OF run] show ?case by simp
qed simp

end
