(* ===== verification/Collectives.thy ===== *)
theory Collectives
  imports Barrier Array_Ops
begin

text \<open>
  The collective operations of src/src/trainer/distributed.cpp (\<open>DistributedContext\<close>, \<open>RingAllReduce\<close>), of
  src/src/trainer/zero_optimizer_core.cpp (\<open>ZeroOptimizer\<close>) and the gradient buckets of src/src/trainer/ddp.cpp as
  programs of critical sections and barriers. The elements are of any type with the operations used; where the
  theorems need the laws of addition, rounding is left out. A pointer of the caller is a place: how to read
  the array it leads to from the private state of the thread, and how to replace it.
\<close>

section \<open>Shared buffers\<close>

record 'a shared =
  reduce_buffer :: "'a list"
  reduce_cleared :: bool

text \<open>\<open>if (buffer.size() < n) buffer.resize(n)\<close>, which fills with zeros.\<close>

definition grow :: "nat \<Rightarrow> 'a::zero list \<Rightarrow> 'a list" where
  "grow n b = (if length b < n then b @ replicate (n - length b) 0 else b)"

type_synonym ('d, 'a) place = "('d \<Rightarrow> 'a list) \<times> ('a list \<Rightarrow> 'd \<Rightarrow> 'd)"

type_synonym ('a, 'd) program = "('a shared, 'd) instr list"

section \<open>\<open>DistributedContext\<close>\<close>

record group_context =
  world_size :: nat
  world_rank :: nat

text \<open>\<open>reduce_buffer_[i] += data[i]\<close> for the first \<open>n\<close> elements.\<close>

definition buffer_add :: "nat \<Rightarrow> 'a::{zero,plus} list \<Rightarrow> 'a list \<Rightarrow> 'a list" where
  "buffer_add n v b = map2 (+) (take n b) (take n v) @ drop n b"

definition reduce_add :: "nat \<Rightarrow> ('d, 'a::{zero,plus}) place \<Rightarrow> 'a shared \<Rightarrow> 'd \<Rightarrow> ('a shared \<times> 'd) option" where
  "reduce_add n pl s d =
    (if n \<le> length (fst pl d)
     then Some (s\<lparr>reduce_buffer := buffer_add n (fst pl d) (grow n (reduce_buffer s))\<rparr>, d) else None)"

definition reduce_copy :: "nat \<Rightarrow> ('d, 'a) place \<Rightarrow> 'a shared \<Rightarrow> 'd \<Rightarrow> ('a shared \<times> 'd) option" where
  "reduce_copy n pl s d =
    map_option (\<lambda>v. (s, snd pl v d)) (memcpy (fst pl d) 0 (reduce_buffer s) 0 n)"

definition reduce_clear :: "nat \<Rightarrow> 'a::zero shared \<Rightarrow> 'd \<Rightarrow> ('a shared \<times> 'd) option" where
  "reduce_clear n s d =
    (if reduce_cleared s then Some (s, d)
     else map_option (\<lambda>b. (s\<lparr>reduce_buffer := b, reduce_cleared := True\<rparr>, d))
            (memset (reduce_buffer s) 0 0 (min n (length (reduce_buffer s)))))"

definition reduce_arm :: "'a shared \<Rightarrow> 'd \<Rightarrow> ('a shared \<times> 'd) option" where
  "reduce_arm s d = Some (s\<lparr>reduce_cleared := False\<rparr>, d)"

definition all_reduce :: "group_context \<Rightarrow> nat \<Rightarrow> ('d, 'a::{zero,plus}) place \<Rightarrow> ('a, 'd) program" where
  "all_reduce ctx n pl =
    (if world_size ctx \<le> 1 then []
     else [Section (reduce_add n pl), Sync, Section (reduce_copy n pl), Sync,
           Section (reduce_clear n), Sync, Section reduce_arm])"

definition broadcast_put :: "nat \<Rightarrow> ('d, 'a::zero) place \<Rightarrow> 'a shared \<Rightarrow> 'd \<Rightarrow> ('a shared \<times> 'd) option" where
  "broadcast_put n pl s d =
    map_option (\<lambda>b. (s\<lparr>reduce_buffer := b\<rparr>, d)) (memcpy (grow n (reduce_buffer s)) 0 (fst pl d) 0 n)"

definition broadcast :: "group_context \<Rightarrow> nat \<Rightarrow> nat \<Rightarrow> ('d, 'a::zero) place \<Rightarrow> ('a, 'd) program" where
  "broadcast ctx src n pl =
    (if world_size ctx \<le> 1 then []
     else (if world_rank ctx = src then [Section (broadcast_put n pl)] else []) @
          [Sync, Section (\<lambda>s d. if world_rank ctx \<noteq> src then reduce_copy n pl s d else Some (s, d)), Sync])"

text \<open>\<open>from\<close> is the local tensor, \<open>to\<close> the global one, which is made anew when it has another number of elements.\<close>

definition gather_resize :: "nat \<Rightarrow> ('d, 'a::zero) place \<Rightarrow> 'a shared \<Rightarrow> 'd \<Rightarrow> ('a shared \<times> 'd) option" where
  "gather_resize total_n pl s d =
    Some (s, if length (fst pl d) \<noteq> total_n then snd pl (replicate total_n 0) d else d)"

definition gather_put :: "nat \<Rightarrow> nat \<Rightarrow> nat \<Rightarrow> ('d, 'a::zero) place \<Rightarrow> 'a shared \<Rightarrow> 'd \<Rightarrow> ('a shared \<times> 'd) option" where
  "gather_put total_n offset local_n pl s d =
    map_option (\<lambda>b. (s\<lparr>reduce_buffer := b\<rparr>, d))
      (memcpy (grow total_n (reduce_buffer s)) offset (fst pl d) 0 local_n)"

definition all_gather :: "group_context \<Rightarrow> nat \<Rightarrow> ('d, 'a::zero) place \<Rightarrow> ('d, 'a) place \<Rightarrow> ('a, 'd) program" where
  "all_gather ctx local_n src dst =
    (if world_size ctx \<le> 1
     then [Section (\<lambda>s d. if length (fst dst d) = length (fst src d) then Some (s, snd dst (fst src d) d) else None)]
     else (let total_n = local_n * world_size ctx in
       [Section (gather_resize total_n dst), Section (gather_put total_n (world_rank ctx * local_n) local_n src), Sync,
        Section (reduce_copy total_n dst), Sync]))"

section \<open>\<open>RingAllReduce\<close>\<close>

datatype reduce_op = Op_SUM | Op_AVG | Op_MAX | Op_MIN

definition reduce_impl :: "reduce_op \<Rightarrow> 'a::{plus,ord} \<Rightarrow> 'a \<Rightarrow> 'a" where
  "reduce_impl rop a b = (case rop of Op_SUM \<Rightarrow> a + b | Op_AVG \<Rightarrow> a + b | Op_MAX \<Rightarrow> max a b | Op_MIN \<Rightarrow> min a b)"

text \<open>The caller's array and the vector of one chunk that \<open>allreduce\<close> allocates.\<close>

record 'a ring_memory =
  ring_data :: "'a list"
  recv_buf :: "'a list"

text \<open>\<open>std::min(chunk, n - offset)\<close> on \<open>size_t\<close>: the difference wraps when the offset is past the end.\<close>

definition chunk_size :: "nat \<Rightarrow> nat \<Rightarrow> nat \<Rightarrow> nat" where
  "chunk_size chunk n offset = min chunk (if offset \<le> n then n - offset else 2 ^ 64 + n - offset)"

definition ring_put :: "nat \<Rightarrow> nat \<Rightarrow> nat \<Rightarrow> nat \<Rightarrow> 'a::zero shared \<Rightarrow> 'a ring_memory \<Rightarrow> ('a shared \<times> 'a ring_memory) option" where
  "ring_put n recv_offset send_offset send_size s d =
    map_option (\<lambda>b. (s\<lparr>reduce_buffer := b\<rparr>, d))
      (memcpy (grow n (reduce_buffer s)) recv_offset (ring_data d) send_offset send_size)"

definition ring_recv :: "nat \<Rightarrow> nat \<Rightarrow> 'a shared \<Rightarrow> 'a ring_memory \<Rightarrow> ('a shared \<times> 'a ring_memory) option" where
  "ring_recv recv_offset recv_size s d =
    map_option (\<lambda>r. (s, d\<lparr>recv_buf := r\<rparr>)) (memcpy (recv_buf d) 0 (reduce_buffer s) recv_offset recv_size)"

definition ring_reduce :: "reduce_op \<Rightarrow> nat \<Rightarrow> nat \<Rightarrow> 'a::{plus,ord} shared \<Rightarrow> 'a ring_memory
    \<Rightarrow> ('a shared \<times> 'a ring_memory) option" where
  "ring_reduce rop recv_offset recv_size s d =
    (let v = map2 (reduce_impl rop) (take recv_size (drop recv_offset (ring_data d))) (take recv_size (recv_buf d)) in
     map_option (\<lambda>x. (s, d\<lparr>ring_data := x\<rparr>)) (memcpy (ring_data d) recv_offset v 0 recv_size))"

definition ring_copy :: "nat \<Rightarrow> nat \<Rightarrow> 'a shared \<Rightarrow> 'a ring_memory \<Rightarrow> ('a shared \<times> 'a ring_memory) option" where
  "ring_copy recv_offset recv_size s d =
    map_option (\<lambda>x. (s, d\<lparr>ring_data := x\<rparr>)) (memcpy (ring_data d) recv_offset (reduce_buffer s) recv_offset recv_size)"

definition ring_scatter_step :: "group_context \<Rightarrow> reduce_op \<Rightarrow> nat \<Rightarrow> nat \<Rightarrow> nat
    \<Rightarrow> ('a::{zero,plus,ord}, 'a ring_memory) program" where
  "ring_scatter_step ctx rop n chunk step =
    (let world = int (world_size ctx); rank = int (world_rank ctx);
         send_rank = nat ((rank - int step - 1 + world) mod world);
         recv_rank = nat ((rank - int step + world) mod world);
         send_offset = send_rank * chunk; recv_offset = recv_rank * chunk;
         send_size = chunk_size chunk n send_offset; recv_size = chunk_size chunk n recv_offset
     in [Section (ring_put n recv_offset send_offset send_size), Sync,
         Section (ring_recv recv_offset recv_size), Sync,
         Section (ring_reduce rop recv_offset recv_size)])"

definition ring_gather_step :: "group_context \<Rightarrow> nat \<Rightarrow> nat \<Rightarrow> nat \<Rightarrow> ('a::zero, 'a ring_memory) program" where
  "ring_gather_step ctx n chunk step =
    (let world = int (world_size ctx); rank = int (world_rank ctx);
         send_rank = nat ((rank - int step + world) mod world);
         recv_rank = nat ((rank - int step - 1 + world) mod world);
         send_offset = send_rank * chunk; recv_offset = recv_rank * chunk;
         send_size = chunk_size chunk n send_offset; recv_size = chunk_size chunk n recv_offset
     in [Section (ring_put n recv_offset send_offset send_size), Sync,
         Section (ring_copy recv_offset recv_size), Sync])"

definition ring_allreduce :: "group_context \<Rightarrow> nat \<Rightarrow> reduce_op \<Rightarrow> ('a::linordered_field, 'a ring_memory) program" where
  "ring_allreduce ctx n rop =
    (if world_size ctx \<le> 1 then []
     else (let chunk = (n + world_size ctx - 1) div world_size ctx in
       [Section (\<lambda>s d. Some (s, d\<lparr>recv_buf := replicate chunk 0\<rparr>))] @
       concat (map (ring_scatter_step ctx rop n chunk) [0..<world_size ctx - 1]) @ [Sync] @
       concat (map (ring_gather_step ctx n chunk) [0..<world_size ctx - 1]) @
       (if rop = Op_AVG
        then [Section (\<lambda>s d. Some (s, d\<lparr>ring_data :=
               map (\<lambda>x. x / of_nat (world_size ctx)) (take n (ring_data d)) @ drop n (ring_data d)\<rparr>))]
        else [])))"

section \<open>\<open>ZeroOptimizer\<close>\<close>

text \<open>The buffer is a static member, the ranks are those of the optimisers. The gradients of a rank are a list,
  one for each parameter; \<open>numels\<close> has the sizes of the parameters, 0 for one without a gradient, which is
  skipped. The hooks are not modelled.\<close>

definition owner_rank :: "nat \<Rightarrow> nat \<Rightarrow> nat" where
  "owner_rank world i = i mod world"

definition grad_place :: "nat \<Rightarrow> ('a list list, 'a) place" where
  "grad_place i = (\<lambda>d. d ! i, \<lambda>v d. d[i := v])"

definition zero_keep :: "bool \<Rightarrow> nat \<Rightarrow> ('d, 'a::zero) place \<Rightarrow> 'a shared \<Rightarrow> 'd \<Rightarrow> ('a shared \<times> 'd) option" where
  "zero_keep owned n pl s d =
    map_option (\<lambda>v. (s, snd pl (if owned then v else replicate (length v) 0) d))
      (memcpy (fst pl d) 0 (reduce_buffer s) 0 n)"

definition reduce_scatter_grads :: "nat \<Rightarrow> nat \<Rightarrow> nat list \<Rightarrow> ('a::{zero,plus}, 'a list list) program" where
  "reduce_scatter_grads world rank numels =
    (if world \<le> 1 then []
     else concat (map (\<lambda>i. if numels ! i = 0 then []
            else [Section (reduce_add (numels ! i) (grad_place i)), Sync,
                  Section (zero_keep (rank = owner_rank world i) (numels ! i) (grad_place i))]) [0..<length numels]))"

section \<open>Gradient buckets\<close>

text \<open>A parameter is its index; \<open>size\<close> is the sum of the elements, \<open>numel\<close> keeps its default.
  \<open>allreduce_bucket\<close> is the branch without compression, \<open>sync_gradients\<close> the synchronous mode.\<close>

record bucket =
  bucket_params :: "nat list"
  bucket_size :: nat
  bucket_numel :: nat

definition empty_bucket :: bucket where
  "empty_bucket = \<lparr>bucket_params = [], bucket_size = 0, bucket_numel = 0\<rparr>"

fun bucket_loop :: "nat \<Rightarrow> (nat \<Rightarrow> nat) \<Rightarrow> nat list \<Rightarrow> bucket \<Rightarrow> nat \<Rightarrow> bucket list" where
  "bucket_loop limit numel [] current current_numel =
    (if 0 < current_numel then [current\<lparr>bucket_size := current_numel\<rparr>] else [])"
| "bucket_loop limit numel (p # ps) current current_numel =
    (if limit < current_numel + numel p \<and> 0 < current_numel
     then current\<lparr>bucket_size := current_numel\<rparr> #
          bucket_loop limit numel ps (empty_bucket\<lparr>bucket_params := [p]\<rparr>) (numel p)
     else bucket_loop limit numel ps (current\<lparr>bucket_params := bucket_params current @ [p]\<rparr>) (current_numel + numel p))"

definition build_buckets :: "nat \<Rightarrow> nat list \<Rightarrow> bucket list" where
  "build_buckets limit numels = bucket_loop limit (\<lambda>p. numels ! p) [0..<length numels] empty_bucket 0"

text \<open>A replica: the gradients it has, and the buffers of its buckets.\<close>

record 'a replica =
  grads :: "nat \<Rightarrow> 'a list option"
  flats :: "'a list list"

definition flat_place :: "nat \<Rightarrow> ('a replica, 'a) place" where
  "flat_place j = (\<lambda>r. flats r ! j, \<lambda>v r. r\<lparr>flats := (flats r)[j := v]\<rparr>)"

definition grad_or_zero :: "(nat \<Rightarrow> nat) \<Rightarrow> (nat \<Rightarrow> 'a::zero list option) \<Rightarrow> nat \<Rightarrow> 'a list" where
  "grad_or_zero numel gs p = (case gs p of Some g \<Rightarrow> g | None \<Rightarrow> replicate (numel p) 0)"

fun pack_loop :: "(nat \<Rightarrow> nat) \<Rightarrow> (nat \<Rightarrow> 'a::zero list option) \<Rightarrow> nat list \<Rightarrow> nat \<Rightarrow> 'a list \<Rightarrow> 'a list option" where
  "pack_loop numel gs [] offset buf = Some buf"
| "pack_loop numel gs (p # ps) offset buf =
    (let g = grad_or_zero numel gs p in
     case memcpy buf offset g 0 (length g) of
       None \<Rightarrow> None
     | Some buf' \<Rightarrow> pack_loop numel gs ps (offset + length g) buf')"

fun unpack_loop :: "(nat \<Rightarrow> nat) \<Rightarrow> 'a list \<Rightarrow> nat list \<Rightarrow> nat \<Rightarrow> (nat \<Rightarrow> 'a::zero list option) \<Rightarrow> (nat \<Rightarrow> 'a list option) option" where
  "unpack_loop numel buf [] offset gs = Some gs"
| "unpack_loop numel buf (p # ps) offset gs =
    (case memcpy (grad_or_zero numel gs p) 0 buf offset (numel p) of
       None \<Rightarrow> None
     | Some g \<Rightarrow> unpack_loop numel buf ps (offset + numel p) (gs(p \<mapsto> g)))"

definition bucket_pack :: "(nat \<Rightarrow> nat) \<Rightarrow> nat \<Rightarrow> bucket \<Rightarrow> 's \<Rightarrow> 'a::zero replica \<Rightarrow> ('s \<times> 'a replica) option" where
  "bucket_pack numel j b s r =
    map_option (\<lambda>buf. (s, r\<lparr>flats := (flats r)[j := buf]\<rparr>)) (pack_loop numel (grads r) (bucket_params b) 0 (flats r ! j))"

definition bucket_unpack :: "(nat \<Rightarrow> nat) \<Rightarrow> nat \<Rightarrow> bucket \<Rightarrow> 's \<Rightarrow> 'a::zero replica \<Rightarrow> ('s \<times> 'a replica) option" where
  "bucket_unpack numel j b s r =
    map_option (\<lambda>gs. (s, r\<lparr>grads := gs\<rparr>)) (unpack_loop numel (flats r ! j) (bucket_params b) 0 (grads r))"

definition allreduce_bucket :: "group_context \<Rightarrow> (nat \<Rightarrow> nat) \<Rightarrow> nat \<Rightarrow> bucket \<Rightarrow> ('a::{zero,plus}, 'a replica) program" where
  "allreduce_bucket ctx numel j b =
    (if bucket_params b = [] then []
     else [Section (bucket_pack numel j b)] @ all_reduce ctx (bucket_numel b) (flat_place j) @
          [Section (bucket_unpack numel j b)])"

definition sync_gradients :: "group_context \<Rightarrow> nat \<Rightarrow> nat list \<Rightarrow> ('a::{zero,plus}, 'a replica) program" where
  "sync_gradients ctx limit numels =
    (if world_size ctx \<le> 1 then []
     else concat (map (\<lambda>(j, b). allreduce_bucket ctx (\<lambda>p. numels ! p) j b) (enumerate 0 (build_buckets limit numels))))"

end
