(* ===== verification/Collectives_Correct.thy ===== *)
theory Collectives_Correct
  imports Collectives "HOL-Library.More_List"
begin

text \<open>
  \<open>all_reduce\<close> run by the threads of one context, in every interleaving; contexts that no other thread
  shares; the collectives that depend on the rank; the buffers that are not cleared, and the buckets.
\<close>

section \<open>The buffer\<close>

lemma grow_nth: "nth_default 0 (grow n b) i = nth_default 0 b i"
  by (auto simp: grow_def nth_default_def nth_append)

lemma grow_length: "length (grow n b) = max n (length b)"
  by (simp add: grow_def)

lemma buffer_add_nth:
  assumes "n \<le> length v" "n \<le> length b"
  shows "nth_default 0 (buffer_add n v b) i = nth_default 0 b i + (if i < n then v ! i else (0 :: 'a::comm_monoid_add))"
  using assms by (auto simp: buffer_add_def nth_default_def nth_append min.absorb1)

lemma buffer_add_length: "n \<le> length v \<Longrightarrow> n \<le> length b \<Longrightarrow> length (buffer_add n v b) = length b"
  by (simp add: buffer_add_def min.absorb1)

lemma reduce_add_ok:
  fixes pl :: "('d, 'a::comm_monoid_add) place"
  assumes "n \<le> length (fst pl d)"
  shows "\<exists>b. reduce_add n pl s d = Some (s\<lparr>reduce_buffer := b\<rparr>, d) \<and> n \<le> length b \<and>
    (\<forall>i. nth_default 0 b i = nth_default 0 (reduce_buffer s) i + (if i < n then fst pl d ! i else 0))"
proof (intro exI conjI)
  show "reduce_add n pl s d = Some (s\<lparr>reduce_buffer := buffer_add n (fst pl d) (grow n (reduce_buffer s))\<rparr>, d)"
    using assms by (simp add: reduce_add_def)
  show "n \<le> length (buffer_add n (fst pl d) (grow n (reduce_buffer s)))"
    using assms by (simp add: buffer_add_length grow_length)
  show "\<forall>i. nth_default 0 (buffer_add n (fst pl d) (grow n (reduce_buffer s))) i =
      nth_default 0 (reduce_buffer s) i + (if i < n then fst pl d ! i else 0)"
    using buffer_add_nth [OF assms, of "grow n (reduce_buffer s)"] by (simp add: grow_nth grow_length)
qed

lemma take_eq_nth_default: "n \<le> length b \<Longrightarrow> take n b = map (nth_default 0 b) [0..<n]"
  by (rule nth_equalityI) (auto simp: nth_default_def)

lemma reduce_copy_ok:
  assumes "length (fst pl d) = n" "n \<le> length (reduce_buffer s)"
  shows "reduce_copy n pl s d = Some (s, snd pl (map (nth_default 0 (reduce_buffer s)) [0..<n]) d)"
  using assms by (simp add: reduce_copy_def memcpy_def take_eq_nth_default)

lemma reduce_clear_ok:
  "\<exists>b. reduce_clear n s d = Some (if reduce_cleared s then s else s\<lparr>reduce_buffer := b, reduce_cleared := True\<rparr>, d) \<and>
    length b = length (reduce_buffer s) \<and> (\<forall>i. nth_default 0 b i = (if i < n then 0 else nth_default 0 (reduce_buffer s) i))"
proof -
  let ?b = "reduce_buffer s" and ?m = "min n (length (reduce_buffer s))"
  let ?c = "replicate ?m 0 @ drop ?m ?b"
  have "nth_default 0 ?c i = (if i < n then 0 else nth_default 0 ?b i)" for i
    by (cases "n \<le> length ?b") (auto simp: nth_default_def nth_append min.absorb1 min.absorb2)
  then show ?thesis
    by (intro exI [of _ ?c]) (simp add: reduce_clear_def memset_def)
qed

section \<open>A sequence of calls\<close>

text \<open>Each thread calls \<open>all_reduce\<close> on one array after the other.\<close>

definition calls :: "group_context \<Rightarrow> nat list \<Rightarrow> nat \<Rightarrow> ('a::{zero,plus}, 'a list list) program" where
  "calls ctx ns k = concat (map (\<lambda>j. all_reduce ctx (ns ! j) (grad_place j)) [k..<length ns])"

definition armed :: "group_context \<Rightarrow> nat list \<Rightarrow> nat \<Rightarrow> ('a::{zero,plus}, 'a list list) program" where
  "armed ctx ns k = Section reduce_arm # calls ctx ns k"

definition clearing :: "group_context \<Rightarrow> nat list \<Rightarrow> nat \<Rightarrow> ('a::{zero,plus}, 'a list list) program" where
  "clearing ctx ns k = Section (reduce_clear (ns ! k)) # Sync # armed ctx ns (Suc k)"

definition copying :: "group_context \<Rightarrow> nat list \<Rightarrow> nat \<Rightarrow> ('a::{zero,plus}, 'a list list) program" where
  "copying ctx ns k = Section (reduce_copy (ns ! k) (grad_place k)) # Sync # clearing ctx ns k"

lemma calls_step:
  assumes "k < length ns" "1 < world_size ctx"
  shows "calls ctx ns k = Section (reduce_add (ns ! k) (grad_place k)) # Sync # copying ctx ns k"
  using assms by (simp add: calls_def upt_conv_Cons all_reduce_def copying_def clearing_def armed_def)

lemma calls_done: "calls ctx ns (length ns) = []"
  by (simp add: calls_def)

lemma calls_syncs: "1 < world_size ctx \<Longrightarrow> k \<le> length ns \<Longrightarrow> syncs (calls ctx ns k) = 3 * (length ns - k)"
proof (induction "length ns - k" arbitrary: k)
  case (Suc m)
  then have "k < length ns" by simp
  with Suc show ?case by (simp add: calls_step copying_def clearing_def armed_def)
qed (simp add: calls_done)

text \<open>The element-wise sum over a set of threads, and the arrays of a thread after \<open>k\<close> calls.\<close>

definition part_sum :: "(nat \<Rightarrow> 'a::comm_monoid_add list list) \<Rightarrow> nat \<Rightarrow> nat set \<Rightarrow> nat \<Rightarrow> 'a" where
  "part_sum xs k A i = (\<Sum>t\<in>A. xs t ! k ! i)"

definition total :: "nat \<Rightarrow> nat list \<Rightarrow> (nat \<Rightarrow> 'a::comm_monoid_add list list) \<Rightarrow> nat \<Rightarrow> 'a list" where
  "total world ns xs k = map (part_sum xs k {..<world}) [0..<ns ! k]"

definition reduced :: "nat \<Rightarrow> nat list \<Rightarrow> (nat \<Rightarrow> 'a::comm_monoid_add list list) \<Rightarrow> nat \<Rightarrow> nat \<Rightarrow> 'a list list" where
  "reduced world ns xs k t = map (\<lambda>j. if j < k then total world ns xs j else xs t ! j) [0..<length ns]"

definition shapes_ok :: "nat \<Rightarrow> nat list \<Rightarrow> (nat \<Rightarrow> 'a list list) \<Rightarrow> bool" where
  "shapes_ok world ns xs \<longleftrightarrow> (\<forall>t < world. map length (xs t) = ns)"

lemma shapes_length:
  assumes "shapes_ok world ns xs" "t < world"
  shows "length (xs t) = length ns" "j < length ns \<Longrightarrow> length (xs t ! j) = ns ! j"
proof -
  have eq: "map length (xs t) = ns" using assms by (simp add: shapes_ok_def)
  then show "length (xs t) = length ns" by (metis length_map)
  then show "j < length ns \<Longrightarrow> length (xs t ! j) = ns ! j" using eq by (metis nth_map)
qed

lemma reduced_zero: "shapes_ok world ns xs \<Longrightarrow> t < world \<Longrightarrow> reduced world ns xs 0 t = xs t"
  by (rule nth_equalityI) (simp_all add: reduced_def shapes_length)

lemma reduced_nth:
  assumes "shapes_ok world ns xs" "t < world" "j < length ns"
  shows "reduced world ns xs k t ! j = (if j < k then total world ns xs j else xs t ! j)"
    "length (reduced world ns xs k t ! j) = ns ! j"
  using assms shapes_length [OF assms(1,2)] by (simp_all add: reduced_def total_def)

lemma reduced_Suc:
  "k < length ns \<Longrightarrow> (reduced world ns xs k t)[k := total world ns xs k] = reduced world ns xs (Suc k) t"
  by (rule nth_equalityI) (auto simp: reduced_def nth_list_update less_Suc_eq)

definition holds :: "'a::zero list \<Rightarrow> nat \<Rightarrow> (nat \<Rightarrow> 'a) \<Rightarrow> bool" where
  "holds b n v \<longleftrightarrow> (\<forall>i. nth_default 0 b i = (if i < n then v i else 0))"

text \<open>The three phases of a call. In the first the threads are past the last call, or about to add, or
  have added; in the second they copy; in the third one of them clears.\<close>

definition adding_phase :: "group_context \<Rightarrow> nat list \<Rightarrow> (nat \<Rightarrow> 'a::comm_monoid_add list list) \<Rightarrow> nat
    \<Rightarrow> 'a shared \<Rightarrow> (nat \<Rightarrow> 'a list list) \<Rightarrow> (nat \<Rightarrow> ('a, 'a list list) program) \<Rightarrow> bool" where
  "adding_phase ctx ns xs k s d c \<longleftrightarrow>
    (\<forall>t < world_size ctx. c t \<in> {armed ctx ns k, calls ctx ns k} \<or> k < length ns \<and> c t = Sync # copying ctx ns k) \<and>
    (\<forall>t < world_size ctx. d t = reduced (world_size ctx) ns xs k t) \<and>
    (let A = {t. t < world_size ctx \<and> k < length ns \<and> c t = Sync # copying ctx ns k} in
      holds (reduce_buffer s) (if k < length ns then ns ! k else 0) (part_sum xs k A) \<and>
      (A \<noteq> {} \<longrightarrow> ns ! k \<le> length (reduce_buffer s))) \<and>
    (reduce_cleared s \<longrightarrow> (\<exists>t < world_size ctx. c t = armed ctx ns k))"

definition copying_phase :: "group_context \<Rightarrow> nat list \<Rightarrow> (nat \<Rightarrow> 'a::comm_monoid_add list list) \<Rightarrow> nat
    \<Rightarrow> 'a shared \<Rightarrow> (nat \<Rightarrow> 'a list list) \<Rightarrow> (nat \<Rightarrow> ('a, 'a list list) program) \<Rightarrow> bool" where
  "copying_phase ctx ns xs k s d c \<longleftrightarrow>
    (\<forall>t < world_size ctx. c t = copying ctx ns k \<and> d t = reduced (world_size ctx) ns xs k t \<or>
      c t = Sync # clearing ctx ns k \<and> d t = reduced (world_size ctx) ns xs (Suc k) t) \<and>
    holds (reduce_buffer s) (ns ! k) (part_sum xs k {..<world_size ctx}) \<and> ns ! k \<le> length (reduce_buffer s) \<and>
    \<not> reduce_cleared s"

definition clearing_phase :: "group_context \<Rightarrow> nat list \<Rightarrow> (nat \<Rightarrow> 'a::comm_monoid_add list list) \<Rightarrow> nat
    \<Rightarrow> 'a shared \<Rightarrow> (nat \<Rightarrow> 'a list list) \<Rightarrow> (nat \<Rightarrow> ('a, 'a list list) program) \<Rightarrow> bool" where
  "clearing_phase ctx ns xs k s d c \<longleftrightarrow>
    (\<forall>t < world_size ctx. c t \<in> {clearing ctx ns k, Sync # armed ctx ns (Suc k)} \<and>
      d t = reduced (world_size ctx) ns xs (Suc k) t) \<and>
    (if reduce_cleared s then holds (reduce_buffer s) 0 (\<lambda>_. 0)
     else holds (reduce_buffer s) (ns ! k) (part_sum xs k {..<world_size ctx}) \<and>
       (\<forall>t < world_size ctx. c t = clearing ctx ns k))"

definition reduce_inv :: "group_context \<Rightarrow> nat list \<Rightarrow> (nat \<Rightarrow> 'a::comm_monoid_add list list) \<Rightarrow> nat
    \<Rightarrow> 'a shared \<Rightarrow> (nat \<Rightarrow> 'a list list) \<Rightarrow> (nat \<Rightarrow> ('a, 'a list list) program) \<Rightarrow> bool" where
  "reduce_inv ctx ns xs g s d c \<longleftrightarrow> 1 < world_size ctx \<and> shapes_ok (world_size ctx) ns xs \<and>
    (\<exists>k. k \<le> length ns \<and> adding_phase ctx ns xs k s d c \<or>
      k < length ns \<and> (copying_phase ctx ns xs k s d c \<or> clearing_phase ctx ns xs k s d c))"

lemma holds_cong: "holds b n v \<Longrightarrow> (\<And>i. i < n \<Longrightarrow> v i = v' i) \<Longrightarrow> holds b n v'"
  by (simp add: holds_def)

lemma part_sum_insert:
  "finite A \<Longrightarrow> t \<notin> A \<Longrightarrow> part_sum xs k (insert t A) i = part_sum xs k A i + xs t ! k ! i"
  by (simp add: part_sum_def add.commute)

lemma code_heads:
  "Section f # rest = armed ctx ns k \<longleftrightarrow> f = reduce_arm \<and> rest = calls ctx ns k"
  "Section f # rest = copying ctx ns k \<longleftrightarrow> f = reduce_copy (ns ! k) (grad_place k) \<and> rest = Sync # clearing ctx ns k"
  "Section f # rest = clearing ctx ns k \<longleftrightarrow> f = reduce_clear (ns ! k) \<and> rest = Sync # armed ctx ns (Suc k)"
  "Sync # rest \<noteq> armed ctx ns k" "Sync # rest \<noteq> copying ctx ns k" "Sync # rest \<noteq> clearing ctx ns k"
  by (auto simp: armed_def copying_def clearing_def)

lemma calls_cases:
  assumes "1 < world_size ctx" "k \<le> length ns"
  obtains "calls ctx ns k = ([] :: ('a::{zero,plus}, 'a list list) program)" "k = length ns"
  | "calls ctx ns k = Section (reduce_add (ns ! k) (grad_place k)) # Sync # (copying ctx ns k :: ('a, 'a list list) program)" "k < length ns"
proof (cases "k = length ns")
  case True
  then show thesis using that(1) by (simp add: calls_done)
next
  case False
  with assms have "k < length ns" by simp
  with that(2) assms(1) show thesis by (simp add: calls_step)
qed

lemma calls_heads:
  fixes f :: "'a::{zero,plus} shared \<Rightarrow> 'a list list \<Rightarrow> ('a shared \<times> 'a list list) option"
    and rest :: "('a, 'a list list) program"
  assumes "1 < world_size ctx" "k \<le> length ns"
  shows "Section f # rest = calls ctx ns k \<longleftrightarrow>
      k < length ns \<and> f = reduce_add (ns ! k) (grad_place k) \<and> rest = Sync # copying ctx ns k" (is ?section)
    "Sync # rest \<noteq> calls ctx ns k" (is ?sync)
proof -
  show ?section by (rule calls_cases [OF assms, where 'a = 'a]) simp_all
  show ?sync by (rule calls_cases [OF assms, where 'a = 'a]) simp_all
qed

lemma armed_not_calls: "armed ctx ns k \<noteq> calls ctx ns k"
  by (simp add: armed_def)

lemma adding_step:
  fixes xs :: "nat \<Rightarrow> 'a::comm_monoid_add list list"
  assumes world: "1 < world_size ctx" and k: "k \<le> length ns" and shapes: "shapes_ok (world_size ctx) ns xs"
    and inv: "adding_phase ctx ns xs k s d c" and t: "t < world_size ctx" and code: "c t = Section f # rest"
  shows "\<exists>s' d'. f s (d t) = Some (s', d') \<and> adding_phase ctx ns xs k s' (d(t := d')) (c(t := rest))"
proof -
  define A where "A = {t. t < world_size ctx \<and> k < length ns \<and> c t = Sync # copying ctx ns k}"
  have here: "\<forall>t < world_size ctx. c t \<in> {armed ctx ns k, calls ctx ns k} \<or> k < length ns \<and> c t = Sync # copying ctx ns k"
    and d: "\<forall>t < world_size ctx. d t = reduced (world_size ctx) ns xs k t"
    and sum: "holds (reduce_buffer s) (if k < length ns then ns ! k else 0) (part_sum xs k A)"
    and long: "A \<noteq> {} \<longrightarrow> ns ! k \<le> length (reduce_buffer s)"
    and cleared: "reduce_cleared s \<longrightarrow> (\<exists>t < world_size ctx. c t = armed ctx ns k)"
    using inv unfolding adding_phase_def A_def Let_def by blast+
  have "t \<notin> A" using code by (simp add: A_def)
  from here t code have "Section f # rest = armed ctx ns k \<or> Section f # rest = calls ctx ns k" by auto
  then consider "f = reduce_arm" "rest = calls ctx ns k"
    | "k < length ns" "f = reduce_add (ns ! k) (grad_place k)" "rest = Sync # copying ctx ns k" "c t = calls ctx ns k"
    using calls_heads(1) [OF world k, of f rest] code by (auto simp: code_heads)
  then show ?thesis
  proof cases
    case 1
    have A': "{u. u < world_size ctx \<and> k < length ns \<and> (c(t := rest)) u = Sync # copying ctx ns k} = A"
      using \<open>t \<notin> A\<close> 1(2) calls_heads(2) [OF world k, of "copying ctx ns k", THEN not_sym] t by (auto simp: A_def)
    have "adding_phase ctx ns xs k (s\<lparr>reduce_cleared := False\<rparr>) d (c(t := rest))"
      unfolding adding_phase_def A' Let_def using here d sum long 1(2) by auto
    moreover have "d(t := d t) = d" by simp
    ultimately show ?thesis using 1(1) by (auto simp: reduce_arm_def)
  next
    case 2
    have at: "fst (grad_place k) (d t) = xs t ! k" "length (xs t ! k) = ns ! k"
      using d t 2(1) reduced_nth [OF shapes t 2(1), of k] shapes_length(2) [OF shapes t 2(1)] by (simp_all add: grad_place_def)
    from reduce_add_ok [of "ns ! k" "grad_place k" "d t" s] at obtain b where
      step: "f s (d t) = Some (s\<lparr>reduce_buffer := b\<rparr>, d t)" and len: "ns ! k \<le> length b"
      and b: "\<forall>i. nth_default 0 b i = nth_default 0 (reduce_buffer s) i + (if i < ns ! k then xs t ! k ! i else 0)"
      by (auto simp: 2(2))
    have A': "{u. u < world_size ctx \<and> k < length ns \<and> (c(t := rest)) u = Sync # copying ctx ns k} = insert t A"
      using 2(1,3) t by (auto simp: A_def)
    have "finite A" by (simp add: A_def)
    have "holds b (ns ! k) (part_sum xs k (insert t A))"
      using sum 2(1) b part_sum_insert [OF \<open>finite A\<close> \<open>t \<notin> A\<close>, of xs k] by (simp add: holds_def)
    moreover have "reduce_cleared s \<longrightarrow> (\<exists>u < world_size ctx. (c(t := rest)) u = armed ctx ns k)"
      using cleared 2(4) armed_not_calls [of ctx ns k] by (metis fun_upd_apply)
    ultimately have "adding_phase ctx ns xs k (s\<lparr>reduce_buffer := b\<rparr>) d (c(t := rest))"
      unfolding adding_phase_def A' Let_def using here d len 2(1,3) by auto
    moreover have "d(t := d t) = d" by simp
    ultimately show ?thesis using step by auto
  qed
qed

lemma copying_step:
  fixes xs :: "nat \<Rightarrow> 'a::comm_monoid_add list list"
  assumes k: "k < length ns" and shapes: "shapes_ok (world_size ctx) ns xs"
    and inv: "copying_phase ctx ns xs k s d c" and t: "t < world_size ctx" and code: "c t = Section f # rest"
  shows "\<exists>s' d'. f s (d t) = Some (s', d') \<and> copying_phase ctx ns xs k s' (d(t := d')) (c(t := rest))"
proof -
  have here: "\<forall>t < world_size ctx. c t = copying ctx ns k \<and> d t = reduced (world_size ctx) ns xs k t \<or>
      c t = Sync # clearing ctx ns k \<and> d t = reduced (world_size ctx) ns xs (Suc k) t"
    and sum: "holds (reduce_buffer s) (ns ! k) (part_sum xs k {..<world_size ctx})"
    and long: "ns ! k \<le> length (reduce_buffer s)" and cleared: "\<not> reduce_cleared s"
    using inv unfolding copying_phase_def by blast+
  from here t code have dt: "d t = reduced (world_size ctx) ns xs k t" and "Section f # rest = copying ctx ns k" by auto
  then have f: "f = reduce_copy (ns ! k) (grad_place k)" "rest = Sync # clearing ctx ns k" by (simp_all add: code_heads)
  have "map (nth_default 0 (reduce_buffer s)) [0..<ns ! k] = total (world_size ctx) ns xs k"
    using sum by (simp add: holds_def total_def)
  moreover have "length (fst (grad_place k) (d t)) = ns ! k"
    using reduced_nth(2) [OF shapes t k] dt by (simp add: grad_place_def)
  ultimately have "f s (d t) = Some (s, snd (grad_place k) (total (world_size ctx) ns xs k) (d t))"
    using reduce_copy_ok [OF _ long, of "grad_place k" "d t"] by (simp add: f(1))
  also have "snd (grad_place k) (total (world_size ctx) ns xs k) (d t) = reduced (world_size ctx) ns xs (Suc k) t"
    using reduced_Suc [OF k] dt by (simp add: grad_place_def)
  finally have "f s (d t) = Some (s, reduced (world_size ctx) ns xs (Suc k) t)" .
  moreover have "copying_phase ctx ns xs k s (d(t := reduced (world_size ctx) ns xs (Suc k) t)) (c(t := rest))"
    unfolding copying_phase_def using here sum long cleared f(2) by auto
  ultimately show ?thesis by blast
qed

lemma clearing_step:
  fixes xs :: "nat \<Rightarrow> 'a::comm_monoid_add list list"
  assumes inv: "clearing_phase ctx ns xs k s d c" and t: "t < world_size ctx" and code: "c t = Section f # rest"
  shows "\<exists>s' d'. f s (d t) = Some (s', d') \<and> clearing_phase ctx ns xs k s' (d(t := d')) (c(t := rest))"
proof -
  have here: "\<forall>t < world_size ctx. c t \<in> {clearing ctx ns k, Sync # armed ctx ns (Suc k)} \<and>
      d t = reduced (world_size ctx) ns xs (Suc k) t"
    and sum: "if reduce_cleared s then holds (reduce_buffer s) 0 (\<lambda>_. 0)
     else holds (reduce_buffer s) (ns ! k) (part_sum xs k {..<world_size ctx}) \<and>
       (\<forall>t < world_size ctx. c t = clearing ctx ns k)"
    using inv unfolding clearing_phase_def by blast+
  from here t code have "Section f # rest = clearing ctx ns k" by auto
  then have f: "f = reduce_clear (ns ! k)" "rest = Sync # armed ctx ns (Suc k)" by (simp_all add: code_heads)
  obtain b where step: "f s (d t) = Some (if reduce_cleared s then s else s\<lparr>reduce_buffer := b, reduce_cleared := True\<rparr>, d t)"
    and b: "\<forall>i. nth_default 0 b i = (if i < ns ! k then 0 else nth_default 0 (reduce_buffer s) i)"
    using reduce_clear_ok [of "ns ! k" s "d t"] by (auto simp: f(1))
  let ?s = "if reduce_cleared s then s else s\<lparr>reduce_buffer := b, reduce_cleared := True\<rparr>"
  have "reduce_cleared ?s" "holds (reduce_buffer ?s) 0 (\<lambda>_. 0)"
    using sum b by (auto simp: holds_def)
  then have "clearing_phase ctx ns xs k ?s d (c(t := rest))"
    unfolding clearing_phase_def using here f(2) by auto
  moreover have "d(t := d t) = d" by simp
  ultimately show ?thesis using step by metis
qed

lemma adding_release:
  assumes world: "1 < world_size ctx" and k: "k \<le> length ns" and inv: "adding_phase ctx ns xs k s d c"
    and sync: "\<forall>t < world_size ctx. \<exists>rest. c t = Sync # rest"
  shows "k < length ns \<and> copying_phase ctx ns xs k s d (\<lambda>t. if t < world_size ctx then tl (c t) else c t)"
proof -
  have all: "k < length ns \<and> c t = Sync # copying ctx ns k" if "t < world_size ctx" for t
  proof -
    obtain rest where "c t = Sync # rest" using sync \<open>t < world_size ctx\<close> by blast
    moreover have "c t \<in> {armed ctx ns k, calls ctx ns k} \<or> k < length ns \<and> c t = Sync # copying ctx ns k"
      using inv \<open>t < world_size ctx\<close> unfolding adding_phase_def by blast
    ultimately show ?thesis using calls_heads(2) [OF world k, of rest] code_heads(4) [of rest ctx ns k] by auto
  qed
  have A: "{t. t < world_size ctx \<and> k < length ns \<and> c t = Sync # copying ctx ns k} = {..<world_size ctx}"
    using all by auto
  have ne: "{..<world_size ctx} \<noteq> {}" and "0 < world_size ctx" using world by auto
  have "\<not> reduce_cleared s"
    using inv all code_heads(4) [of _ ctx ns k] unfolding adding_phase_def by metis
  then show ?thesis
    using inv all \<open>0 < world_size ctx\<close> ne unfolding adding_phase_def copying_phase_def A Let_def by auto
qed

lemma copying_release:
  assumes inv: "copying_phase ctx ns xs k s d c" and sync: "\<forall>t < world_size ctx. \<exists>rest. c t = Sync # rest"
  shows "clearing_phase ctx ns xs k s d (\<lambda>t. if t < world_size ctx then tl (c t) else c t)"
proof -
  have "c t = Sync # clearing ctx ns k \<and> d t = reduced (world_size ctx) ns xs (Suc k) t" if "t < world_size ctx" for t
    using inv sync that code_heads(5) [of _ ctx ns k] unfolding copying_phase_def by metis
  then show ?thesis using inv unfolding copying_phase_def clearing_phase_def by auto
qed

lemma clearing_release:
  assumes "k < length ns" and world: "1 < world_size ctx"
    and inv: "clearing_phase ctx ns xs k s d c" and sync: "\<forall>t < world_size ctx. \<exists>rest. c t = Sync # rest"
  shows "adding_phase ctx ns xs (Suc k) s d (\<lambda>t. if t < world_size ctx then tl (c t) else c t)"
proof -
  have all: "c t = Sync # armed ctx ns (Suc k)" "d t = reduced (world_size ctx) ns xs (Suc k) t" if "t < world_size ctx" for t
    using inv sync that code_heads(6) [of _ ctx ns k] unfolding clearing_phase_def by (metis insert_iff singletonD)+
  have "0 < world_size ctx" using world by simp
  have "\<exists>rest. c 0 = Sync # rest" using sync \<open>0 < world_size ctx\<close> by blast
  then have "c 0 \<noteq> clearing ctx ns k" using code_heads(6) [of _ ctx ns k] by metis
  then have "reduce_cleared s" "holds (reduce_buffer s) 0 (\<lambda>_. 0)"
    using inv \<open>0 < world_size ctx\<close> unfolding clearing_phase_def by (auto split: if_splits)
  moreover have "{t. t < world_size ctx \<and> Suc k < length ns \<and>
      (if t < world_size ctx then tl (c t) else c t) = Sync # copying ctx ns (Suc k)} = {}"
    using all code_heads(4) [of _ ctx ns "Suc k", THEN not_sym] by auto
  ultimately show ?thesis
    using all \<open>0 < world_size ctx\<close> unfolding adding_phase_def Let_def by (auto simp: holds_def part_sum_def)
qed

lemma armed_syncs: "1 < world_size ctx \<Longrightarrow> k \<le> length ns \<Longrightarrow> syncs (armed ctx ns k) = 3 * (length ns - k)"
  by (simp add: armed_def calls_syncs)

lemma clearing_syncs:
  assumes "1 < world_size ctx" "k < length ns"
  shows "syncs (Sync # armed ctx ns (Suc k)) = 3 * (length ns - k) - 2" "syncs (clearing ctx ns k) = 3 * (length ns - k) - 2"
    "syncs (Sync # clearing ctx ns k) = 3 * (length ns - k) - 1" "syncs (copying ctx ns k) = 3 * (length ns - k) - 1"
    "syncs (Sync # copying ctx ns k) = 3 * (length ns - k)"
proof -
  have "length ns - k = Suc (length ns - Suc k)" using assms(2) by simp
  then show "syncs (Sync # armed ctx ns (Suc k)) = 3 * (length ns - k) - 2" "syncs (clearing ctx ns k) = 3 * (length ns - k) - 2"
    "syncs (Sync # clearing ctx ns k) = 3 * (length ns - k) - 1" "syncs (copying ctx ns k) = 3 * (length ns - k) - 1"
    "syncs (Sync # copying ctx ns k) = 3 * (length ns - k)"
    using assms by (simp_all add: clearing_def copying_def armed_syncs)
qed

lemma phase_syncs:
  assumes "1 < world_size ctx"
  shows "k \<le> length ns \<Longrightarrow> adding_phase ctx ns xs k s d c \<Longrightarrow> t < world_size ctx \<Longrightarrow> syncs (c t) = 3 * (length ns - k)"
    "k < length ns \<Longrightarrow> copying_phase ctx ns xs k s d c \<Longrightarrow> t < world_size ctx \<Longrightarrow> syncs (c t) = 3 * (length ns - k) - 1"
    "k < length ns \<Longrightarrow> clearing_phase ctx ns xs k s d c \<Longrightarrow> t < world_size ctx \<Longrightarrow> syncs (c t) = 3 * (length ns - k) - 2"
proof -
  assume k: "k \<le> length ns" and inv: "adding_phase ctx ns xs k s d c" and t: "t < world_size ctx"
  have "c t = armed ctx ns k \<or> c t = calls ctx ns k \<or> k < length ns \<and> c t = Sync # copying ctx ns k"
    using inv t unfolding adding_phase_def by blast
  then show "syncs (c t) = 3 * (length ns - k)"
    using armed_syncs [OF assms k] calls_syncs [OF assms k] clearing_syncs(5) [OF assms] by metis
next
  assume k: "k < length ns" and inv: "copying_phase ctx ns xs k s d c" and t: "t < world_size ctx"
  have "c t = copying ctx ns k \<or> c t = Sync # clearing ctx ns k"
    using inv t unfolding copying_phase_def by blast
  then show "syncs (c t) = 3 * (length ns - k) - 1" using clearing_syncs [OF assms k] by metis
next
  assume k: "k < length ns" and inv: "clearing_phase ctx ns xs k s d c" and t: "t < world_size ctx"
  have "c t = clearing ctx ns k \<or> c t = Sync # armed ctx ns (Suc k)"
    using inv t unfolding clearing_phase_def by blast
  then show "syncs (c t) = 3 * (length ns - k) - 2" using clearing_syncs [OF assms k] by metis
qed

interpretation reduce: barrier_phases "world_size ctx" "reduce_inv ctx ns xs" for ctx ns xs
proof
  fix g s d c t f rest
  assume inv: "reduce_inv ctx ns xs g s d c" and t: "t < world_size ctx" and code: "c t = Section f # rest"
  then have world: "1 < world_size ctx" and shapes: "shapes_ok (world_size ctx) ns xs" by (simp_all add: reduce_inv_def)
  from inv consider k where "k \<le> length ns" "adding_phase ctx ns xs k s d c"
    | k where "k < length ns" "copying_phase ctx ns xs k s d c"
    | k where "k < length ns" "clearing_phase ctx ns xs k s d c"
    unfolding reduce_inv_def by blast
  then show "\<exists>s' d'. f s (d t) = Some (s', d') \<and> reduce_inv ctx ns xs g s' (d(t := d')) (c(t := rest))"
  proof cases
    case 1
    from adding_step [OF world 1(1) shapes 1(2) t code] show ?thesis
      unfolding reduce_inv_def using world shapes 1(1) by blast
  next
    case 2
    from copying_step [OF 2(1) shapes 2(2) t code] show ?thesis
      unfolding reduce_inv_def using world shapes 2(1) by blast
  next
    case 3
    from clearing_step [OF 3(2) t code] show ?thesis
      unfolding reduce_inv_def using world shapes 3(1) by blast
  qed
next
  fix g s d c
  assume inv: "reduce_inv ctx ns xs g s d c" and sync: "\<forall>t < world_size ctx. \<exists>rest. c t = Sync # rest"
  then have world: "1 < world_size ctx" and shapes: "shapes_ok (world_size ctx) ns xs" by (simp_all add: reduce_inv_def)
  from inv consider k where "k \<le> length ns" "adding_phase ctx ns xs k s d c"
    | k where "k < length ns" "copying_phase ctx ns xs k s d c"
    | k where "k < length ns" "clearing_phase ctx ns xs k s d c"
    unfolding reduce_inv_def by blast
  then show "reduce_inv ctx ns xs (Suc g) s d (\<lambda>t. if t < world_size ctx then tl (c t) else c t)"
  proof cases
    case 1
    from adding_release [OF world 1 sync] show ?thesis
      unfolding reduce_inv_def using world shapes by blast
  next
    case 2
    from copying_release [OF 2(2) sync] show ?thesis
      unfolding reduce_inv_def using world shapes 2(1) by blast
  next
    case 3
    from clearing_release [OF 3(1) world 3(2) sync] show ?thesis
      unfolding reduce_inv_def using world shapes 3(1) Suc_leI by blast
  qed
next
  fix g s d c t u
  assume inv: "reduce_inv ctx ns xs g s d c" and t: "t < world_size ctx" "u < world_size ctx"
  then have world: "1 < world_size ctx" by (simp add: reduce_inv_def)
  from inv consider k where "k \<le> length ns" "adding_phase ctx ns xs k s d c"
    | k where "k < length ns" "copying_phase ctx ns xs k s d c"
    | k where "k < length ns" "clearing_phase ctx ns xs k s d c"
    unfolding reduce_inv_def by blast
  then show "syncs (c t) = syncs (c u)"
  proof cases
    case 1
    show ?thesis by (simp only: phase_syncs(1) [OF world 1 t(1)] phase_syncs(1) [OF world 1 t(2)])
  next
    case 2
    show ?thesis by (simp only: phase_syncs(2) [OF world 2 t(1)] phase_syncs(2) [OF world 2 t(2)])
  next
    case 3
    show ?thesis by (simp only: phase_syncs(3) [OF world 3 t(1)] phase_syncs(3) [OF world 3 t(2)])
  qed
qed

text \<open>The threads of a context: each has its arrays and makes the calls on them.\<close>

definition reducers :: "group_context \<Rightarrow> nat list \<Rightarrow> (nat \<Rightarrow> 'a::{zero,plus} list list) \<Rightarrow> ('a shared, 'a list list) group" where
  "reducers ctx ns xs = launch \<lparr>reduce_buffer = [], reduce_cleared = False\<rparr> xs (\<lambda>_. calls ctx ns 0)"

lemma reducers_good:
  fixes xs :: "nat \<Rightarrow> 'a::comm_monoid_add list list"
  assumes "1 < world_size ctx" "shapes_ok (world_size ctx) ns xs" "3 * int (length ns) < 2 ^ 31"
  shows "reduce.good ctx ns xs (world_size ctx) (reducers ctx ns xs)"
proof -
  have "calls ctx ns 0 \<noteq> (Sync # copying ctx ns 0 :: ('a, 'a list list) program)"
    using calls_heads(2) [OF assms(1), of 0 ns] by (metis le0)
  then have "adding_phase ctx ns xs 0 \<lparr>reduce_buffer = [], reduce_cleared = False\<rparr> xs (\<lambda>_. calls ctx ns 0)"
    unfolding adding_phase_def Let_def
    using assms(2) by (auto simp: reduced_zero holds_def part_sum_def)
  then have "reduce_inv ctx ns xs 0 \<lparr>reduce_buffer = [], reduce_cleared = False\<rparr> xs (\<lambda>_. calls ctx ns 0)"
    unfolding reduce_inv_def using assms by blast
  moreover have "syncs (calls ctx ns 0 :: ('a, 'a list list) program) = 3 * length ns"
    using calls_syncs [OF assms(1), of 0 ns] by simp
  ultimately show ?thesis
    using assms(1,3) by (simp add: reduce.good_def reducers_def launch_ok left_launch) (simp add: launch_def)
qed

lemma calls_length: "length (calls ctx ns 0) \<le> 7 * length ns"
proof -
  have "length (concat (map (\<lambda>j. all_reduce ctx (ns ! j) (grad_place j)) js)) \<le> 7 * length js" for js
    by (induction js) (auto simp: all_reduce_def)
  from this [of "[0..<length ns]"] show ?thesis by (simp add: calls_def)
qed

lemma finished_reduced:
  fixes xs :: "nat \<Rightarrow> 'a::comm_monoid_add list list"
  assumes "reduce_inv ctx ns xs g s d c" "t < world_size ctx" "c t = []"
  shows "d t = map (total (world_size ctx) ns xs) [0..<length ns]"
proof -
  have world: "1 < world_size ctx" using assms(1) by (simp add: reduce_inv_def)
  have "\<not> copying_phase ctx ns xs k s d c" "\<not> clearing_phase ctx ns xs k s d c" for k
    using assms(2,3) unfolding copying_phase_def clearing_phase_def by (auto simp: copying_def clearing_def)
  with assms(1) obtain k where k: "k \<le> length ns" and inv: "adding_phase ctx ns xs k s d c"
    unfolding reduce_inv_def by blast
  have "c t \<in> {armed ctx ns k, calls ctx ns k} \<or> c t = Sync # copying ctx ns k"
    and d: "d t = reduced (world_size ctx) ns xs k t"
    using inv assms(2) unfolding adding_phase_def by blast+
  then have "calls ctx ns k = ([] :: ('a, 'a list list) program)" using assms(3) by (auto simp: armed_def)
  then have "k = length ns" using calls_step [of k ns ctx, where 'a = 'a] world k by (cases "k = length ns") auto
  then show ?thesis using d by (auto simp: reduced_def)
qed

text \<open>
  C29: Threads that share a context of their number and call \<open>all_reduce\<close> on one array after another: in
  every interleaving of their critical sections no access leaves an array, a thread that is through has the
  element-wise sum over all threads in each array, some thread can step until all are through, and no
  schedule has more than 14 steps for each thread and call. The elements are those of any commutative monoid,
  so rounding is left out; the calls are few enough for the generation of the barrier, three for each, to stay
  within an \<open>int\<close>.
\<close>

theorem all_reduce_sums:
  fixes xs :: "nat \<Rightarrow> 'a::comm_monoid_add list list"
  assumes "1 < world_size ctx" "shapes_ok (world_size ctx) ns xs" "set ts \<subseteq> {..<world_size ctx}"
    and "3 * int (length ns) < 2 ^ 31"
  shows "case run_threads (world_size ctx) ts (reducers ctx ns xs) of
      Undefined \<Rightarrow> False
    | Blocked \<Rightarrow> True
    | Next w \<Rightarrow>
        length ts \<le> world_size ctx * (14 * length ns) \<and>
        (\<forall>t < world_size ctx. code w t = [] \<longrightarrow>
          priv w t = map (\<lambda>k. map (\<lambda>i. \<Sum>u<world_size ctx. xs u ! k ! i) [0..<ns ! k]) [0..<length ns]) \<and>
        ((\<forall>t < world_size ctx. code w t = []) \<or> (\<exists>t < world_size ctx. thread_step (world_size ctx) t w \<noteq> Blocked))"
proof (cases "run_threads (world_size ctx) ts (reducers ctx ns xs)")
  case (Next w)
  note start = reducers_good [OF assms(1,2,4)]
  have good: "reduce.good ctx ns xs (world_size ctx) w"
    by (rule reduce.good_run(2) [OF start assms(3) order_refl Next])
  have "work (world_size ctx) (reducers ctx ns xs) = (\<Sum>t<world_size ctx. 2 * length (calls ctx ns 0 :: ('a, 'a list list) program))"
    by (simp only: reducers_def launch_work)
  also have "\<dots> \<le> world_size ctx * (14 * length ns)"
    using calls_length [of ctx ns, where 'a = 'a] by (simp add: mult_le_mono)
  finally have "length ts \<le> world_size ctx * (14 * length ns)"
    using reduce.good_run_work [OF start assms(3) order_refl Next] by linarith
  moreover have "priv w t = map (\<lambda>k. map (\<lambda>i. \<Sum>u<world_size ctx. xs u ! k ! i) [0..<ns ! k]) [0..<length ns]"
    if t: "t < world_size ctx" "code w t = []" for t
  proof -
    have inv: "reduce_inv ctx ns xs (barrier_gen w) (store w) (priv w) (left w)" and ok: "barrier_ok (world_size ctx) (world_size ctx) w"
      using good by (simp_all add: reduce.good_def)
    have "left w t = []"
      using t(2) by (cases "waiting w t") (simp_all add: left_def)
    from finished_reduced [OF inv t(1) this] show ?thesis by (simp add: total_def part_sum_def)
  qed
  moreover have "(\<forall>t < world_size ctx. code w t = []) \<or> (\<exists>t < world_size ctx. thread_step (world_size ctx) t w \<noteq> Blocked)"
    using reduce.good_progress [OF good] by blast
  ultimately show ?thesis using Next by simp
next
  case Undefined
  with reduce.good_run(1) [OF reducers_good [OF assms(1,2,4)] assms(3) order_refl] show ?thesis by simp
qed simp

definition pair_context :: group_context where
  "pair_context = \<lparr>world_size = 2, world_rank = 0\<rparr>"

theorem all_reduce_sums_witness:
  "case run_threads 2 [0, 1, 1, 0, 0, 1, 1, 1, 0, 0, 1, 1, 1, 0, 0, 1, 1] (reducers pair_context [1] (\<lambda>t. [[int t + 2]])) of
     Next w \<Rightarrow> code w 0 = [] \<and> code w 1 = [] \<and> priv w 0 = [[5]] \<and> priv w 1 = [[5]] | _ \<Rightarrow> False"
proof -
  let ?w = "run_threads 2 [0, 1, 1, 0, 0, 1, 1, 1, 0, 0, 1, 1, 1, 0, 0, 1, 1] (reducers pair_context [1] (\<lambda>t. [[int t + 2]]))"
  have "case ?w of Next w \<Rightarrow> code w 0 = [] \<and> code w 1 = [] | _ \<Rightarrow> False"
    by code_simp
  moreover have "world_size pair_context = 2" by (simp add: pair_context_def)
  moreover note all_reduce_sums [of pair_context "[1]" "\<lambda>t. [[int t + 2]]"
      "[0, 1, 1, 0, 0, 1, 1, 1, 0, 0, 1, 1, 1, 0, 0, 1, 1]"]
  ultimately show ?thesis
    by (auto simp: shapes_ok_def lessThan_nat_numeral lessThan_Suc split: outcome.splits)
qed

end
