(* ===== verification/Collectives_Limits.thy ===== *)
theory Collectives_Limits
  imports Collectives_Correct
begin

text \<open>
  Where the collectives do not do what they are for: contexts that no other thread shares, a context whose
  threads have one rank, the buffer that \<open>ZeroOptimizer\<close> does not clear, the ring, and the buckets whose
  number of elements stays 0.
\<close>

section \<open>A context of one's own\<close>

lemma collective_syncs:
  assumes "1 < world_size ctx"
  shows "0 < syncs (all_reduce ctx m pl)" "0 < syncs (broadcast ctx src m pl)" "0 < syncs (all_gather ctx m pl pl')"
  using assms by (simp_all add: all_reduce_def broadcast_def all_gather_def Let_def)

text \<open>
  When fewer threads than its world size share a context, as with the contexts that \<open>DDPWrapper\<close>,
  \<open>PipelineParallel\<close>, \<open>FSDPBlock\<close> and the others make for themselves, no call of a collective ever
  returns, in whatever order the threads run.
\<close>

theorem lone_context_never_returns:
  assumes "1 < world_size ctx" "n < world_size ctx" "set ts \<subseteq> {..<n}"
    and "c t = all_reduce ctx m pl \<or> c t = broadcast ctx src m pl \<or> c t = all_gather ctx m pl pl'"
    and "run_threads (world_size ctx) ts (launch s d c) = Next w"
  shows "code w t \<noteq> []"
proof -
  have "barrier_ok n (world_size ctx) (launch s d c)" "barrier_gen (launch s d c) = 0"
    using launch_ok [of "world_size ctx" n s d c] assms(1) by (simp_all add: launch_def)
  from lonely_run [OF this(1) assms(3,2,5) this(2), of t] have "syncs (code w t) = syncs (c t)"
    by (simp add: launch_def)
  moreover have "0 < syncs (c t)" using assms(4) collective_syncs [OF assms(1)] by metis
  ultimately show ?thesis by auto
qed

theorem lone_context_never_returns_witness:
  "\<exists>w. run_threads 2 [0, 0] (launch \<lparr>reduce_buffer = [], reduce_cleared = False\<rparr> (\<lambda>_. [[3 :: int]])
      (\<lambda>_. all_reduce pair_context 1 (grad_place 0))) = Next w \<and> code w 0 \<noteq> []"
proof -
  have w: "\<exists>w. run_threads 2 [0, 0] (launch \<lparr>reduce_buffer = [], reduce_cleared = False\<rparr> (\<lambda>_. [[3 :: int]])
      (\<lambda>_. all_reduce pair_context 1 (grad_place 0))) = Next w"
    by (simp add: thread_step_def barrier_enter_def barrier_overflows_def launch_def all_reduce_def pair_context_def reduce_add_def grad_place_def)
  moreover have "world_size pair_context = 2" by (simp add: pair_context_def)
  ultimately show ?thesis
    using lone_context_never_returns [of pair_context 1 "[0, 0]" "\<lambda>_. all_reduce pair_context 1 (grad_place 0)" 0 1 "grad_place 0"]
    by fastforce
qed

section \<open>One rank for all threads\<close>

text \<open>The threads of a context have its rank, so if it is the source of a broadcast they all are.\<close>

lemma broadcast_put_independent: "independent (Section (broadcast_put n pl))"
  by (simp add: independent_def broadcast_put_def memcpy_def grow_length)

lemma broadcast_alone:
  assumes "n \<le> length (fst pl d)"
  shows "alone s (broadcast ctx (world_rank ctx) n pl) d = Some d"
  using assms by (simp add: broadcast_def broadcast_put_def memcpy_def grow_length)

lemma broadcast_delivers_nothing:
  assumes "run_threads (world_size ctx) ts (launch s d (\<lambda>_. broadcast ctx (world_rank ctx) n pl)) = Next w"
    and "n \<le> length (fst pl (d t))" "code w t = []"
  shows "priv w t = d t"
proof -
  have "\<forall>i \<in> set (broadcast ctx (world_rank ctx) n pl). independent i"
    using broadcast_put_independent [of n pl] by (auto simp: broadcast_def independent_def)
  then have "alone s (code w t) (priv w t) = alone s (broadcast ctx (world_rank ctx) n pl) (d t)"
    using alone_run [OF assms(1), of t s] by (simp add: launch_def)
  then show ?thesis using assms(2,3) by (simp add: broadcast_alone)
qed

section \<open>The buffer of \<open>ZeroOptimizer\<close>\<close>

definition zero_result :: "nat \<Rightarrow> nat \<Rightarrow> 'a::comm_monoid_add list \<Rightarrow> (nat \<Rightarrow> 'a list) \<Rightarrow> nat \<Rightarrow> 'a list" where
  "zero_result world n old x t =
    (if t = 0 then map (\<lambda>i. nth_default 0 old i + (\<Sum>u<world. x u ! i)) [0..<n] else replicate n 0)"

definition zero_code :: "nat \<Rightarrow> nat \<Rightarrow> nat \<Rightarrow> ('a::{zero,plus}, 'a list list) program" where
  "zero_code world n t = [Section (zero_keep (t = 0) n (grad_place 0))]"

definition buffer_plus :: "nat \<Rightarrow> 'a::comm_monoid_add list \<Rightarrow> (nat \<Rightarrow> 'a list) \<Rightarrow> nat set \<Rightarrow> 'a list \<Rightarrow> bool" where
  "buffer_plus n old x A b \<longleftrightarrow>
    (\<forall>i. nth_default 0 b i = nth_default 0 old i + (if i < n then \<Sum>t\<in>A. x t ! i else 0)) \<and>
    (A \<noteq> {} \<longrightarrow> n \<le> length b)"

definition zero_inv :: "nat \<Rightarrow> nat \<Rightarrow> 'a::comm_monoid_add list \<Rightarrow> (nat \<Rightarrow> 'a list) \<Rightarrow> nat
    \<Rightarrow> 'a shared \<Rightarrow> (nat \<Rightarrow> 'a list list) \<Rightarrow> (nat \<Rightarrow> ('a, 'a list list) program) \<Rightarrow> bool" where
  "zero_inv world n old x g s d c \<longleftrightarrow> 1 < world \<and> 0 < n \<and> (\<forall>t < world. length (x t) = n) \<and>
    ((\<forall>t < world. c t \<in> {Section (reduce_add n (grad_place 0)) # Sync # zero_code world n t, Sync # zero_code world n t} \<and>
        d t = [x t]) \<and>
      buffer_plus n old x {t. t < world \<and> c t = Sync # zero_code world n t} (reduce_buffer s) \<or>
     (\<forall>t < world. c t = zero_code world n t \<and> d t = [x t] \<or> c t = [] \<and> d t = [zero_result world n old x t]) \<and>
      buffer_plus n old x {..<world} (reduce_buffer s))"

lemma zero_keep_ok:
  assumes "buffer_plus n old x {..<world} (reduce_buffer s)" "0 < world" "length (x t) = n"
  shows "zero_keep (t = 0) n (grad_place 0) s [x t] = Some (s, [zero_result world n old x t])"
proof -
  have b: "n \<le> length (reduce_buffer s)" using assms(1,2) by (auto simp: buffer_plus_def)
  have "take n (reduce_buffer s) = map (\<lambda>i. nth_default 0 old i + (\<Sum>u<world. x u ! i)) [0..<n]"
    using assms(1) by (simp add: take_eq_nth_default [OF b] buffer_plus_def)
  then show ?thesis
    using assms(3) b by (simp add: zero_keep_def grad_place_def memcpy_def zero_result_def)
qed

lemma zero_section:
  assumes inv: "zero_inv world n old x g s d c" and t: "t < world" and code: "c t = Section f # rest"
  shows "\<exists>s' d'. f s (d t) = Some (s', d') \<and> zero_inv world n old x g s' (d(t := d')) (c(t := rest))"
proof -
  have base: "1 < world" "0 < n" "\<forall>t < world. length (x t) = n" using inv by (simp_all add: zero_inv_def)
  define A where "A = {t. t < world \<and> c t = Sync # zero_code world n t}"
  from inv consider
    "\<forall>t < world. c t \<in> {Section (reduce_add n (grad_place 0)) # Sync # zero_code world n t, Sync # zero_code world n t} \<and> d t = [x t]"
      "buffer_plus n old x A (reduce_buffer s)"
    | "\<forall>t < world. c t = zero_code world n t \<and> d t = [x t] \<or> c t = [] \<and> d t = [zero_result world n old x t]"
      "buffer_plus n old x {..<world} (reduce_buffer s)"
    unfolding zero_inv_def A_def by blast
  then show ?thesis
  proof cases
    case 1
    have f: "f = reduce_add n (grad_place 0)" "rest = Sync # zero_code world n t" and dt: "d t = [x t]"
      using 1(1) t code by auto
    have len: "n \<le> length (fst (grad_place 0) (d t))" using base(3) t by (simp add: dt grad_place_def)
    from reduce_add_ok [OF len, of s] obtain b where step: "f s (d t) = Some (s\<lparr>reduce_buffer := b\<rparr>, d t)"
      and b: "n \<le> length b" "\<forall>i. nth_default 0 b i = nth_default 0 (reduce_buffer s) i + (if i < n then x t ! i else 0)"
      by (auto simp: f dt grad_place_def)
    have "t \<notin> A" "finite A" using code by (auto simp: A_def)
    have "buffer_plus n old x (insert t A) b"
      using 1(2) b \<open>t \<notin> A\<close> \<open>finite A\<close> by (simp add: buffer_plus_def ac_simps)
    moreover have "{u. u < world \<and> (c(t := rest)) u = Sync # zero_code world n u} = insert t A"
      using t f(2) by (auto simp: A_def)
    ultimately have "zero_inv world n old x g (s\<lparr>reduce_buffer := b\<rparr>) d (c(t := rest))"
      unfolding zero_inv_def using base 1(1) f(2) by auto
    moreover have "d(t := d t) = d" by simp
    ultimately show ?thesis using step by metis
  next
    case 2
    have f: "f = zero_keep (t = 0) n (grad_place 0)" "rest = []" and dt: "d t = [x t]"
      using 2(1) t code by (auto simp: zero_code_def)
    have "f s (d t) = Some (s, [zero_result world n old x t])"
      using zero_keep_ok [OF 2(2), of t] base t by (simp add: f dt)
    moreover have "zero_inv world n old x g s (d(t := [zero_result world n old x t])) (c(t := rest))"
      unfolding zero_inv_def using base 2 f(2) by auto
    ultimately show ?thesis by blast
  qed
qed

lemma zero_release:
  assumes inv: "zero_inv world n old x g s d c" and sync: "\<forall>t < world. \<exists>rest. c t = Sync # rest"
  shows "zero_inv world n old x (Suc g) s d (\<lambda>t. if t < world then tl (c t) else c t)"
proof -
  have base: "1 < world" "0 < n" "\<forall>t < world. length (x t) = n" using inv by (simp_all add: zero_inv_def)
  have no: "c t \<noteq> zero_code world n t" "c t \<noteq> []" if "t < world" for t
    using sync that by (auto simp: zero_code_def)
  have "0 < world" using base(1) by simp
  then have "\<not> (\<forall>t < world. c t = zero_code world n t \<and> d t = [x t] \<or> c t = [] \<and> d t = [zero_result world n old x t])"
    using no by blast
  then have first: "\<forall>t < world. c t \<in> {Section (reduce_add n (grad_place 0)) # Sync # zero_code world n t, Sync # zero_code world n t} \<and> d t = [x t]"
    and buf: "buffer_plus n old x {t. t < world \<and> c t = Sync # zero_code world n t} (reduce_buffer s)"
    using inv unfolding zero_inv_def by blast+
  have all: "c t = Sync # zero_code world n t" if "t < world" for t
    using first sync that by fastforce
  then have "{t. t < world \<and> c t = Sync # zero_code world n t} = {..<world}" by auto
  then show ?thesis unfolding zero_inv_def using base all first buf by auto
qed

lemma zero_syncs:
  assumes "zero_inv world n old x g s d c"
  shows "(\<forall>t < world. syncs (c t) = 1) \<or> (\<forall>t < world. syncs (c t) = 0)"
proof -
  from assms consider
    "\<forall>t < world. c t \<in> {Section (reduce_add n (grad_place 0)) # Sync # zero_code world n t, Sync # zero_code world n t}"
    | "\<forall>t < world. c t = zero_code world n t \<or> c t = []"
    unfolding zero_inv_def by blast
  then show ?thesis
  proof cases
    case 1
    have "syncs (c t) = 1" if "t < world" for t using 1 that by (auto simp: zero_code_def)
    then show ?thesis by blast
  next
    case 2
    have "syncs (c t) = 0" if "t < world" for t using 2 that by (auto simp: zero_code_def)
    then show ?thesis by blast
  qed
qed

interpretation zero: barrier_phases world "zero_inv world n old x" for world n old x
proof
  show "\<exists>s' d'. f s (d t) = Some (s', d') \<and> zero_inv world n old x g s' (d(t := d')) (c(t := rest))"
    if "zero_inv world n old x g s d c" "t < world" "c t = Section f # rest" for g s d c t f rest
    using that by (rule zero_section)
  show "zero_inv world n old x (Suc g) s d (\<lambda>t. if t < world then tl (c t) else c t)"
    if "zero_inv world n old x g s d c" "\<forall>t < world. \<exists>rest. c t = Sync # rest" for g s d c
    using that by (rule zero_release)
  show "syncs (c t) = syncs (c u)" if "zero_inv world n old x g s d c" "t < world" "u < world" for g s d c t u
    using zero_syncs [OF that(1)] that(2,3) by auto
qed

lemma zero_program:
  "1 < world \<Longrightarrow> 0 < n \<Longrightarrow> reduce_scatter_grads world t [n] =
    Section (reduce_add n (grad_place 0)) # Sync # zero_code world n t"
  by (simp add: reduce_scatter_grads_def zero_code_def owner_rank_def)

lemma zero_start:
  assumes "1 < world" "0 < n" "\<forall>t < world. length (x t) = n"
  shows "zero.good world n (reduce_buffer s) x world
    (launch s (\<lambda>t. [x t]) (\<lambda>t. reduce_scatter_grads world t [n]))"
proof -
  have none: "{t. t < world \<and> Section (reduce_add n (grad_place 0)) # Sync # zero_code world n t = Sync # zero_code world n t} = {}"
    by simp
  have "zero_inv world n (reduce_buffer s) x 0 s (\<lambda>t. [x t]) (\<lambda>t. reduce_scatter_grads world t [n])"
    unfolding zero_inv_def zero_program [OF assms(1,2)] none using assms by (simp add: buffer_plus_def)
  moreover have "syncs (reduce_scatter_grads world t [n] :: ('a, 'a list list) program) = 1" for t
    by (simp add: zero_program [OF assms(1,2)] zero_code_def)
  ultimately show ?thesis
    using assms(1) by (simp add: zero.good_def launch_ok left_launch) (simp add: launch_def)
qed

text \<open>
  \<open>reduce_scatter_grads\<close> adds the gradients of all ranks, in every interleaving, to what the static buffer
  holds: the owner gets the sum plus the old contents, the others zeros, and the new contents stay for the
  next call. So only the first step of a process computes the sum.
\<close>

theorem zero_reduce_keeps_old_sums:
  fixes x :: "nat \<Rightarrow> 'a::comm_monoid_add list"
  assumes "1 < world" "0 < n" "\<forall>t < world. length (x t) = n" "set ts \<subseteq> {..<world}"
    and run: "run_threads world ts (launch s (\<lambda>t. [x t]) (\<lambda>t. reduce_scatter_grads world t [n])) = Next w"
    and "\<forall>t < world. code w t = []"
  defines "summed \<equiv> map (\<lambda>i. nth_default 0 (reduce_buffer s) i + (\<Sum>u<world. x u ! i)) [0..<n]"
  shows "priv w 0 = [summed] \<and> (\<forall>t < world. 0 < t \<longrightarrow> priv w t = [replicate n 0]) \<and>
    take n (reduce_buffer (store w)) = summed"
proof -
  have "zero.good world n (reduce_buffer s) x world w"
    by (rule zero.good_run(2) [OF zero_start [OF assms(1-3)] assms(4) order_refl run])
  then have inv: "zero_inv world n (reduce_buffer s) x (barrier_gen w) (store w) (priv w) (left w)"
    by (simp add: zero.good_def)
  have left: "left w t = []" if "t < world" for t
    using assms(6) that by (cases "waiting w t") (simp_all add: left_def)
  have "0 < world" using assms(1) by simp
  with left have "\<not> (\<forall>t < world. left w t \<in> {Section (reduce_add n (grad_place 0)) # Sync # zero_code world n t, Sync # zero_code world n t})"
    by auto
  then have "\<forall>t < world. priv w t = [zero_result world n (reduce_buffer s) x t]"
    and buf: "buffer_plus n (reduce_buffer s) x {..<world} (reduce_buffer (store w))"
    using inv left unfolding zero_inv_def by (auto simp: zero_code_def)
  moreover have "n \<le> length (reduce_buffer (store w))" using buf \<open>0 < world\<close> by (auto simp: buffer_plus_def)
  then have "take n (reduce_buffer (store w)) = summed"
    using buf by (simp add: take_eq_nth_default buffer_plus_def summed_def)
  ultimately show ?thesis using \<open>0 < world\<close> by (simp add: zero_result_def summed_def)
qed

theorem zero_reduce_keeps_old_sums_witness:
  "\<exists>w. run_threads 2 [0, 1, 1, 0, 0, 1, 1] (launch \<lparr>reduce_buffer = [100], reduce_cleared = False\<rparr>
      (\<lambda>t. [[int t + 1]]) (\<lambda>t. reduce_scatter_grads 2 t [1])) = Next w \<and>
    priv w 0 = [[103]] \<and> priv w 1 = [[0]] \<and> reduce_buffer (store w) ! 0 = 103"
proof -
  let ?g = "launch \<lparr>reduce_buffer = [100], reduce_cleared = False\<rparr> (\<lambda>t. [[int t + 1]]) (\<lambda>t. reduce_scatter_grads 2 t [1])"
  have "case run_threads 2 [0, 1, 1, 0, 0, 1, 1] ?g of Next w \<Rightarrow> code w 0 = [] \<and> code w 1 = [] | _ \<Rightarrow> False"
    by code_simp
  then obtain w where run: "run_threads 2 [0, 1, 1, 0, 0, 1, 1] ?g = Next w" and "code w 0 = []" "code w 1 = []"
    by (auto split: outcome.splits)
  then have all: "\<forall>t < 2. code w t = []" by (auto simp: less_Suc_eq numeral_2_eq_2)
  have "priv w 0 = [map (\<lambda>i. nth_default 0 [100] i + (\<Sum>u<2. [int u + 1] ! i)) [0..<1]] \<and>
      (\<forall>t < 2. 0 < t \<longrightarrow> priv w t = [replicate 1 0]) \<and>
      take 1 (reduce_buffer (store w)) = map (\<lambda>i. nth_default 0 [100] i + (\<Sum>u<2. [int u + 1] ! i)) [0..<1]"
    using zero_reduce_keeps_old_sums [of 2 1 "\<lambda>t. [int t + 1]" _ "\<lparr>reduce_buffer = [100], reduce_cleared = False\<rparr>", OF _ _ _ _ run all]
    by simp
  then show ?thesis
    using run by (cases "reduce_buffer (store w)") (auto simp: numeral_2_eq_2 nth_default_def)
qed

text \<open>Two parameters of one element: in step, the second is reduced on top of the first; and as there is one
  barrier for each, a fast rank adds to the second before a slow one has copied the first.\<close>

definition two_gradients :: "int \<Rightarrow> int \<Rightarrow> int \<Rightarrow> int \<Rightarrow> (int shared, int list list) group" where
  "two_gradients a0 a1 b0 b1 = launch \<lparr>reduce_buffer = [], reduce_cleared = False\<rparr>
    (\<lambda>t. if t = 0 then [[a0], [a1]] else [[b0], [b1]]) (\<lambda>t. reduce_scatter_grads 2 t [1, 1])"

lemma two_gradients_code:
  "reduce_scatter_grads 2 t [1, 1] =
    [Section (reduce_add 1 (grad_place 0)), Sync, Section (zero_keep (t = 0) 1 (grad_place 0)),
     Section (reduce_add 1 (grad_place 1)), Sync, Section (zero_keep (t = 1) 1 (grad_place 1))]"
  by (simp add: reduce_scatter_grads_def owner_rank_def)

lemma zero_reduce_mixes_parameters:
  "\<exists>w. run_threads 2 [0, 1, 1, 0, 0, 1, 1, 0, 1, 1, 0, 0, 1, 1] (two_gradients a0 a1 b0 b1) = Next w \<and>
     priv w 0 = [[a0 + b0], [0]] \<and> priv w 1 = [[0], [a0 + b0 + a1 + b1]]"
  "\<exists>w. run_threads 2 [0, 1, 0, 1, 1, 1, 0, 0] (two_gradients a0 a1 b0 b1) = Next w \<and>
     priv w 0 ! 0 = [a0 + b0 + b1]"
  unfolding two_gradients_def two_gradients_code
  by (simp_all add: launch_def thread_step_def barrier_enter_def barrier_wake_def barrier_overflows_def
      reduce_add_def zero_keep_def grad_place_def memcpy_def grow_def buffer_add_def)

section \<open>The ring\<close>

text \<open>A rank reads back the slot that it wrote, or that the last rank to come wrote: two threads of one context
  that run in step do not end with the sums \<open>a0 + b0\<close> and \<open>a1 + b1\<close>.\<close>

lemma ring_pair_program:
  "ring_allreduce pair_context 2 Op_SUM =
    [Section (\<lambda>s d. Some (s, d\<lparr>recv_buf := [0]\<rparr>)),
     Section (ring_put 2 0 1 1), Sync, Section (ring_recv 0 1), Sync, Section (ring_reduce Op_SUM 0 1), Sync,
     Section (ring_put 2 1 0 1), Sync, Section (ring_copy 1 1), Sync]"
  by (simp add: ring_allreduce_def pair_context_def ring_scatter_step_def ring_gather_step_def chunk_size_def Let_def)

lemma ring_allreduce_no_sum:
  fixes a0 a1 b0 b1 :: "'a::linordered_field"
  shows "\<exists>w. run_threads 2 [0, 0, 0, 1, 1, 1, 0, 0, 0, 1, 1, 0, 0, 0, 1, 1, 0, 0, 0, 1, 1, 0, 0, 0, 1, 1, 0]
      (launch \<lparr>reduce_buffer = [], reduce_cleared = False\<rparr>
        (\<lambda>t. \<lparr>ring_data = if t = 0 then [a0, a1] else [b0, b1], recv_buf = []\<rparr>)
        (\<lambda>_. ring_allreduce pair_context 2 Op_SUM)) = Next w \<and>
    code w 0 = [] \<and> ring_data (priv w 0) = [a0 + b1, b0 + b1]"
  unfolding ring_pair_program
  by (simp add: launch_def thread_step_def barrier_enter_def barrier_wake_def barrier_overflows_def
      ring_put_def ring_recv_def ring_reduce_def ring_copy_def memcpy_def grow_def reduce_impl_def Let_def)

section \<open>Buckets\<close>

definition bucket_ok :: "(nat \<Rightarrow> nat) \<Rightarrow> bucket \<Rightarrow> bool" where
  "bucket_ok numel b \<longleftrightarrow>
    bucket_size b = sum_list (map numel (bucket_params b)) \<and> 0 < bucket_size b \<and> bucket_numel b = 0"

lemma bucket_ok_closed:
  "bucket_numel b = 0 \<Longrightarrow> n = sum_list (map numel (bucket_params b)) \<Longrightarrow> 0 < n \<Longrightarrow> bucket_ok numel (b\<lparr>bucket_size := n\<rparr>)"
  by (simp add: bucket_ok_def)

lemma bucket_loop_params:
  assumes "current_numel = sum_list (map numel (bucket_params current))" "bucket_numel current = 0"
  shows "\<exists>skipped. concat (map bucket_params (bucket_loop limit numel ps current current_numel)) @ skipped =
      bucket_params current @ ps \<and> (\<forall>p \<in> set skipped. numel p = 0) \<and>
    (\<forall>b \<in> set (bucket_loop limit numel ps current current_numel).
      bucket_ok numel b)"
  using assms
proof (induction limit numel ps current current_numel rule: bucket_loop.induct)
  case (1 limit numel current current_numel)
  show ?case
  proof (cases "0 < current_numel")
    case True
    then show ?thesis using 1 by (intro exI [of _ "[]"]) (simp add: bucket_ok_closed)
  next
    case False
    with 1(1) have "\<forall>p \<in> set (bucket_params current). numel p = 0" by simp
    with False show ?thesis by (intro exI [of _ "bucket_params current"]) simp
  qed
next
  case (2 limit numel p ps current current_numel)
  show ?case
  proof (cases "limit < current_numel + numel p \<and> 0 < current_numel")
    case True
    obtain skipped where "concat (map bucket_params (bucket_loop limit numel ps (empty_bucket\<lparr>bucket_params := [p]\<rparr>) (numel p))) @ skipped = p # ps"
      "\<forall>p \<in> set skipped. numel p = 0"
      and "\<forall>b \<in> set (bucket_loop limit numel ps (empty_bucket\<lparr>bucket_params := [p]\<rparr>) (numel p)).
        bucket_ok numel b"
      using "2.IH"(1) [OF True] by (auto simp: empty_bucket_def)
    then show ?thesis using True 2(3,4) by (intro exI [of _ skipped]) (simp add: bucket_ok_closed)
  next
    case False
    obtain skipped where "concat (map bucket_params (bucket_loop limit numel ps
          (current\<lparr>bucket_params := bucket_params current @ [p]\<rparr>) (current_numel + numel p))) @ skipped =
        bucket_params current @ p # ps" "\<forall>p \<in> set skipped. numel p = 0"
      and "\<forall>b \<in> set (bucket_loop limit numel ps (current\<lparr>bucket_params := bucket_params current @ [p]\<rparr>) (current_numel + numel p)).
        bucket_ok numel b"
      using "2.IH"(2) [OF False] 2(3,4) by auto
    moreover have "bucket_loop limit numel (p # ps) current current_numel =
        bucket_loop limit numel ps (current\<lparr>bucket_params := bucket_params current @ [p]\<rparr>) (current_numel + numel p)"
      using False by (simp only: bucket_loop.simps if_False)
    ultimately show ?thesis by metis
  qed
qed

definition one_sized :: "(nat \<Rightarrow> nat) \<Rightarrow> nat list \<Rightarrow> bool" where
  "one_sized numel ps \<longleftrightarrow> length (filter (\<lambda>p. 0 < numel p) ps) \<le> 1"

lemma one_sized_snoc: "sum_list (map numel ps) = (0 :: nat) \<Longrightarrow> one_sized numel (ps @ [p])"
  by (simp add: one_sized_def)

lemma bucket_loop_small:
  assumes "current_numel = sum_list (map numel (bucket_params current))"
    and "current_numel \<le> limit \<or> one_sized numel (bucket_params current)"
    and "b \<in> set (bucket_loop limit numel ps current current_numel)"
  shows "bucket_size b \<le> limit \<or> one_sized numel (bucket_params b)"
  using assms
proof (induction limit numel ps current current_numel rule: bucket_loop.induct)
  case (1 limit numel current current_numel)
  then show ?case by (auto split: if_splits)
next
  case (2 limit numel p ps current current_numel)
  show ?case
  proof (cases "limit < current_numel + numel p \<and> 0 < current_numel")
    case True
    show ?thesis
    proof (cases "b = current\<lparr>bucket_size := current_numel\<rparr>")
      case True
      then show ?thesis using 2(4) by auto
    next
      case False
      then have "b \<in> set (bucket_loop limit numel ps (empty_bucket\<lparr>bucket_params := [p]\<rparr>) (numel p))"
        using 2(5) True by simp
      from "2.IH"(1) [OF True _ _ this] show ?thesis by (simp add: empty_bucket_def one_sized_def)
    qed
  next
    case False
    have "current_numel + numel p \<le> limit \<or> one_sized numel (bucket_params current @ [p])"
    proof (cases "limit < current_numel + numel p")
      case True
      with False have "current_numel = 0" by simp
      with one_sized_snoc [of numel "bucket_params current" p] 2(3) show ?thesis by simp
    qed simp
    moreover have "b \<in> set (bucket_loop limit numel ps (current\<lparr>bucket_params := bucket_params current @ [p]\<rparr>) (current_numel + numel p))"
      using 2(5) False by (simp only: bucket_loop.simps if_False)
    ultimately show ?thesis using "2.IH"(2) [OF False] 2(3) by simp
  qed
qed

text \<open>
  The buckets hold the parameters in their order, but for some without elements at the end; each has the sum
  of its elements as its size, which is above 0, and within the limit unless a single parameter exceeds it.
\<close>

lemma buckets_partition:
  "\<exists>skipped. concat (map bucket_params (build_buckets limit numels)) @ skipped = [0..<length numels] \<and>
     (\<forall>p \<in> set skipped. numels ! p = 0)"
  "b \<in> set (build_buckets limit numels) \<Longrightarrow>
    bucket_size b = sum_list (map (\<lambda>p. numels ! p) (bucket_params b)) \<and> 0 < bucket_size b \<and> bucket_numel b = 0 \<and>
    (bucket_size b \<le> limit \<or> one_sized (\<lambda>p. numels ! p) (bucket_params b))"
  using bucket_loop_params [of 0 "\<lambda>p. numels ! p" empty_bucket limit "[0..<length numels]"]
    bucket_loop_small [of 0 "\<lambda>p. numels ! p" empty_bucket limit b "[0..<length numels]"]
  by (auto simp: build_buckets_def empty_bucket_def bucket_ok_def)

end
