(* ===== verification/Spec2Isabelle.thy ===== *)
theory Spec2Isabelle
  imports Pool_Concurrency Buffer Pool_Registry Spsc_Queue Kv_Cache Paged_Roundtrip
    Http_Receive Websocket_Correct Tensor_Serial Tensor_View Half_Correct Bit_Packing
    Batching Speculative_Correct Byte_Level_Correct Multilingual_Correct Qwen_Encode
    Autograd_Correct Expert_Prefetch_Correct Log_Correct Collectives_Limits
begin

text \<open>
  A verification of the core of TransFormers-Fusion, a C++ library and server for transformer inference.
  The program allocates memory from pools, keeps tensors in shared buffers and attention keys and values in
  caches, some of them paged to disk, packs weights into bit streams with half-precision scales, batches
  requests for decoding, turns texts into tokens and back, and serves completions over HTTP and WebSocket. Names below are those of \<open>src/\<close>.

  \<^bold>\<open>Memory\<close> (\<open>include/quant/memory.h\<close>, \<open>src/core/memory.cpp\<close>). \<open>Memory\<close>: \<open>MemoryPool\<close> and \<open>StackAllocator\<close>, the
  offsets as 64-bit words, through the interface \<open>bump_allocator\<close> that both instantiate: what is granted is
  disjoint and inside the pool, and where the sum of offset and size wraps. \<open>Pool_Concurrency\<close>: \<open>allocate\<close> run by
  any number of threads, a step per atomic access. \<open>Buffer\<close>: reference-counted buffers on an explicit heap
  with leaks and double frees as errors. \<open>Pool_Registry\<close>: the registry of pools per thread. \<open>Spsc_Queue\<close>
  (\<open>include/quant/thread_safety.h\<close>): the queue of one producer and one consumer, the spin lock and the sharded
  counter, every interleaving of their atomic accesses (in a sequentially consistent order).

  \<^bold>\<open>Caches\<close> (\<open>src/model/kv_cache.cpp\<close>). \<open>Array_Ops\<close> is \<open>memcpy\<close> and \<open>memset\<close> with \<open>None\<close> for an access out of bounds.
  \<open>Kv_Cache\<close>: \<open>KVCache\<close>, plain and quantised. \<open>Paged_Table\<close>: the two- and three-level page tables as instances of
  \<open>page_table_laws\<close>, which make them finite maps. \<open>Paged_Kv\<close>: the paged caches, with eviction to files, loading, the
  worker thread and the accounting; every file operation may fail, as an argument decides. \<open>Paged_Correct\<close>:
  moves between memory and disk do not change the contents (the map \<open>paged_contents\<close>). \<open>Paged_Tokens\<close>, \<open>Paged_Read\<close>
  and \<open>Paged_Roundtrip\<close>: appending and reading, token by token. \<open>Byte_Encoding\<close>: integers and floats in files.

  \<^bold>\<open>Tensors\<close> (\<open>src/core/tensor.cpp\<close>, \<open>include/quant/tensor.h\<close>, \<open>tensor_view.h\<close>). \<open>Tensor\<close>: shapes, strides, views and
  contents over an explicit store of buffers. \<open>Tensor_Index\<close>: row-major and strided addresses.
  \<open>Tensor_Correct\<close>: \<open>tensor_ok\<close>, what keeps every access in its buffer. \<open>Tensor_Views\<close>: transposing and slicing by
  index, and where they go wrong. \<open>Tensor_Programs\<close>: sequences of operations never reach undefined behaviour.
  \<open>Tensor_Serial\<close>: the serialised form. \<open>Tensor_View\<close>: the views without ownership, as changes of index.

  \<^bold>\<open>Codecs\<close> (\<open>src/codec\<close>, \<open>include/quant/detail/fp16.h\<close>). \<open>Half\<close>: all conversions between single and half
  precision on bit patterns. \<open>Half_Correct\<close>: the numbers the patterns stand for (\<open>half_value\<close>, \<open>float_value\<close>, integers
  in units of the smallest subnormal), exact decoding, rounding to nearest, and the converters that differ.
  \<open>Bit_Packing\<close>: the bit writer and reader against the sequence of bits of the buffer (\<open>stream\<close>), and slots.

  \<^bold>\<open>Inference\<close> (\<open>src/inference/inference_paging.cpp\<close>). \<open>Batching\<close>: \<open>ContinuousBatching\<close> against each request decoded
  \<open>alone\<close>, and \<open>RequestScheduler\<close>. \<open>Speculative\<close> (\<open>src/inference/speculative_decoder.cpp\<close>): the draft-and-verify step
  on the cache of \<open>Kv_Cache\<close>, and \<open>Speculative_Correct\<close>: that generation returns, and what a step compares.

  \<^bold>\<open>Model and training\<close>. \<open>Autograd\<close> (\<open>src/model/autograd_engine.cpp\<close>): the tape, the registry of parameters and the
  loop of \<open>backward\<close>, with the operations' derivatives as arguments of the nodes; \<open>Autograd_Correct\<close>: the adjoints
  as the solution of the chain rule, that \<open>backward\<close> returns and adds them, and when it does not.
  \<open>Expert_Prefetch\<close> (\<open>src/model/expert_prefetch.cpp\<close>): pages of expert weights, callers and worker as steps of one
  transition function, whose outcome is \<open>Race\<close> when a caller evicts or loads the page that the worker transfers
  without the lock; \<open>Expert_Prefetch_Correct\<close>: its invariant up to the first such race, and what breaks it.
  \<open>Barrier\<close>: threads as lists of critical sections and barriers, and the locale \<open>barrier_phases\<close> in which an
  invariant that the sections and the releases keep holds in every interleaving, with progress and a bound on the
  schedules. \<open>Collectives\<close>
  (\<open>src/trainer/distributed.cpp\<close>, \<open>ddp.cpp\<close>, \<open>zero_optimizer_core.cpp\<close>): the collective operations as such programs,
  and the gradient buckets; \<open>Collectives_Correct\<close>: \<open>all_reduce\<close> sums; \<open>Collectives_Limits\<close>: where the others do not. \<open>Log_Writer\<close>
  (\<open>src/core/log_writer.cpp\<close>): event records with their checksums and protobuf messages; \<open>Log_Correct\<close>: the
  checksum by table and by bit, what it detects, and a reader of event files.

  \<^bold>\<open>Tokenizers\<close> (\<open>src/tokenizer\<close>). \<open>Unicode_Util\<close> and \<open>Unicode_Correct\<close>: UTF-8, the character classes,
  normalisation and splitting. \<open>Std_Map\<close>: \<open>std::map\<close> as a sorted list, an instance of \<open>map_container\<close> and
  \<open>tally_container\<close>, as is the hash map. \<open>Merge_Coder\<close>: the merge and counting loops that the BPE tokenizers
  repeat, and the locale \<open>merge_coder\<close>, in which merging is shown to keep what the tokens spell. \<open>Bpe\<close> and
  \<open>Bpe_Correct\<close>, \<open>Byte_Level\<close> and \<open>Byte_Level_Correct\<close>, \<open>Multilingual\<close> and \<open>Multilingual_Correct\<close>: the three BPE
  tokenizers, lossless or not, and the file of the first. \<open>Qwen_Tokenizer\<close>: pre-tokeniser, ranked merges, special
  tokens and chat template; \<open>Qwen_Correct\<close> has the pre-tokeniser, \<open>Qwen_Encode\<close> the round trip.

  \<^bold>\<open>Server\<close> (\<open>src/server\<close>, \<open>include/quant\<close>). \<open>Json\<close> and \<open>Json_Correct\<close> (\<open>json_parser.cpp\<close>): values, parser and
  printer. \<open>Http_Parse\<close>, \<open>Http_Parse_Correct\<close>: the request parser. \<open>Http_Limits\<close>: the token buckets and the cap on
  concurrent requests. \<open>Http_Server\<close>: the path of a request from \<open>recv\<close> to its answer; \<open>Http_Server_Correct\<close>,
  \<open>Http_Answers\<close>, \<open>Http_Guards\<close>, \<open>Http_Receive\<close>: what it is answered with, what runs before a callback, how it is put
  together from segments; the reply to a preflight is sent by one \<open>send\<close>, so a short one cuts it. \<open>Sha1\<close> (\<open>sha1.h\<close>): streaming SHA-1 refines the definition of the standard. \<open>Websocket\<close>,
  \<open>Websocket_Correct\<close> (\<open>production_gen.cpp\<close>): handshake, frames, client loop and broadcast.

  \<^bold>\<open>Conventions.\<close> Machine integers are words where they can wrap and mathematical integers elsewhere, with the
  assumption that they fit stated in the theory: the reference counter of a buffer is a word of 32 bits; the
  \<open>int64_t\<close> arithmetic of shapes and strides is checked, an overflow is \<open>Undefined\<close> (a byte count that wraps, \<open>Wrapped_Size\<close>),
  and the theorems ask for sizes below 2^60; the token bucket wraps at 64 bits and its theorem bounds burst and refill; the generation of a
  barrier past \<open>INT_MAX\<close> is undefined. Floats are bit patterns, or elements of a type with the operations used. Errors, exceptions and undefined
  behaviour are values. \<open>Prelude\<close> has the word types, \<open>bind_result\<close> and the facts on words that the components
  share. Loops whose end is not structural are functions with a termination proof (\<open>make_room\<close>, \<open>send_all\<close>,
  \<open>receive\<close>, \<open>whole_blocks\<close>, \<open>encode_varint\<close>), or, where they may not end, \<open>partial_function\<close> with their
  termination as a theorem (\<open>backward_loop\<close>); fuel is used by the JSON parser, bounded by the length of its input, which
  \<open>json_parse_total\<close> shows to be enough, by \<open>normalize\<close>, ten turns for a mantissa of ten bits
  (\<open>normalize_subnormal\<close>), and by \<open>run_steps\<close>, whose bound \<open>batch_answers_all\<close> states.

  \<^bold>\<open>Parameters.\<close> Arguments stand for what is outside: float arithmetic and its printing, the clock and the
  sockets, the results of file operations, the callbacks and the forward pass of a model. A hypothesis on one
  (\<open>reliable\<close>, \<open>fixed_vocabulary\<close>, \<open>specials_in_vocabulary\<close>) has a witness with a concrete function.

  \<^bold>\<open>Not modelled.\<close> Kernels, back ends, training loops, optimisers, gradient compression, the parameter
  server, model layers and the searches of the quantisers,
  which are float numerics; agents and multimodal pipelines, which orchestrate them; the tokenizers that
  score with floats (Unigram, WordPiece, SentencePiece) and the loader of \<open>tokenizer.json\<close>; the threads
  and sockets that start and stop the servers; \<open>PagedAttention\<close>, \<open>InferenceMemoryPool\<close>, \<open>verify_retrieval\<close> and \<open>to_dtype\<close>;
  weak memory orderings; tools, benchmarks and tests.
\<close>

end
